(* ===== verification/Prelude.thy ===== *)
theory Prelude
  imports Main "HOL-Library.Word"
begin

text \<open>
  Shared vocabulary of the development: the machine types of the C program, its byte-addressed
  memory and pointer arithmetic, results of calls that may run into undefined behaviour, the
  byte scanner both HTTP parsers are instances of, and the generic lemmas and collections of
  lemmas the component theories use.

  Pointers are natural numbers, 0 is \<open>NULL\<close>, and a memory maps every address to a byte. An
  object of the program never wraps around the address space, so addresses need no width; the
  one place where a width shows is the conversion of a pointer difference to \<open>size_t\<close>, which is
  reduced modulo \<open>2 ^ 64\<close> explicitly (\<open>ptr_diff\<close>).
\<close>

unbundle bit_operations_syntax

named_theorems c_simps
  \<open>equations that evaluate C-level primitives (memory, pointers, tables)\<close>
named_theorems wf_intros
  \<open>preservation rules of component invariants\<close>

subsection \<open>Machine types\<close>

type_synonym u8 = "8 word"
type_synonym u16 = "16 word"
type_synonym u32 = "32 word"
type_synonym ptr = nat
type_synonym size_t = nat
type_synonym mem = "ptr \<Rightarrow> u8"

text \<open>A call returns a value, has undefined behaviour (an out-of-bounds store, a signed overflow, a
  double free), after which C promises nothing, fails an \<open>assert\<close>, or ends the process by \<open>exit\<close>.\<close>

datatype 'a cres = Ret 'a | UB | Abort | Exit int

fun cbind :: "'a cres \<Rightarrow> ('a \<Rightarrow> 'b cres) \<Rightarrow> 'b cres" where
  "cbind (Ret x) f = f x"
| "cbind UB f = UB"
| "cbind Abort f = Abort"
| "cbind (Exit n) f = Exit n"

definition INT_MAX :: int where "INT_MAX = 2 ^ 31 - 1"

text \<open>Character constants of the source, as bytes.\<close>

abbreviation c8 :: "char \<Rightarrow> u8" where "c8 \<equiv> of_char"
abbreviation CR :: u8 where "CR \<equiv> 13"
abbreviation LF :: u8 where "LF \<equiv> 10"
abbreviation ch_space :: u8 where "ch_space \<equiv> 32"
abbreviation ch_hash :: u8 where "ch_hash \<equiv> 35"
abbreviation ch_percent :: u8 where "ch_percent \<equiv> 37"
abbreviation ch_plus :: u8 where "ch_plus \<equiv> 43"
abbreviation ch_dash :: u8 where "ch_dash \<equiv> 45"
abbreviation ch_dot :: u8 where "ch_dot \<equiv> 46"
abbreviation ch_slash :: u8 where "ch_slash \<equiv> 47"
abbreviation ch_0 :: u8 where "ch_0 \<equiv> 48"
abbreviation ch_1 :: u8 where "ch_1 \<equiv> 49"
abbreviation ch_9 :: u8 where "ch_9 \<equiv> 57"
abbreviation ch_colon :: u8 where "ch_colon \<equiv> 58"
abbreviation ch_equals :: u8 where "ch_equals \<equiv> 61"
abbreviation ch_question :: u8 where "ch_question \<equiv> 63"
abbreviation ch_A :: u8 where "ch_A \<equiv> 65"
abbreviation ch_H :: u8 where "ch_H \<equiv> 72"
abbreviation ch_P :: u8 where "ch_P \<equiv> 80"
abbreviation ch_T :: u8 where "ch_T \<equiv> 84"
abbreviation ch_Z :: u8 where "ch_Z \<equiv> 90"
abbreviation ch_lbracket :: u8 where "ch_lbracket \<equiv> 91"
abbreviation ch_rbracket :: u8 where "ch_rbracket \<equiv> 93"
abbreviation ch_underscore :: u8 where "ch_underscore \<equiv> 95"
abbreviation ch_a :: u8 where "ch_a \<equiv> 97"
abbreviation ch_z :: u8 where "ch_z \<equiv> 122"

text \<open>The bytes of a string literal, and the C library's \<open>tolower\<close> in the C locale.\<close>

definition lit :: "string \<Rightarrow> u8 list" where
  "lit s = map of_char s"

definition tolower :: "u8 \<Rightarrow> u8" where
  "tolower c = (if ch_A \<le> c \<and> c \<le> ch_Z then c + 32 else c)"

subsection \<open>Memory\<close>

definition bytes_at :: "mem \<Rightarrow> ptr \<Rightarrow> nat \<Rightarrow> u8 list" where
  "bytes_at m p n = map m [p..<p + n]"

fun mem_write :: "mem \<Rightarrow> ptr \<Rightarrow> u8 list \<Rightarrow> mem" where
  "mem_write m p [] = m"
| "mem_write m p (b # bs) = mem_write (m(p := b)) (Suc p) bs"

text \<open>The difference of two pointers, stored into a \<open>size_t\<close>.\<close>

definition ptr_diff :: "ptr \<Rightarrow> ptr \<Rightarrow> size_t" where
  "ptr_diff p q = nat ((int p - int q) mod 2 ^ 64)"

subsection \<open>The byte scanner\<close>

text \<open>
  Both parsers of \<open>http/parse.c\<close> are a \<open>for\<close> loop over the bytes between two pointers whose body
  is one \<open>switch\<close>: it either goes on with a new state (\<open>Cont\<close>) or leaves the loop by a
  \<open>return\<close> or a \<open>goto\<close> (\<open>Stop\<close>).
\<close>

datatype ('s, 'o) step = Cont 's | Stop 'o

fun scan :: "(ptr \<Rightarrow> u8 \<Rightarrow> 's \<Rightarrow> ('s, 'o) step) \<Rightarrow> ptr \<Rightarrow> u8 list \<Rightarrow> 's \<Rightarrow> ('s, 'o) step" where
  "scan f p [] s = Cont s"
| "scan f p (c # cs) s =
     (case f p c s of Cont s' \<Rightarrow> scan f (Suc p) cs s' | Stop out \<Rightarrow> Stop out)"

subsection \<open>Lemmas on memory and pointers\<close>

lemma ptr_diff_le [simp, c_simps]:
  "q \<le> p \<Longrightarrow> p < 2 ^ 64 \<Longrightarrow> ptr_diff p q = p - q"
  by (simp add: ptr_diff_def flip: of_nat_diff)

lemma ptr_diff_self [simp]: "ptr_diff p p = 0"
  by (simp add: ptr_diff_def)

lemma bytes_at_0 [simp, c_simps]: "bytes_at m p 0 = []"
  by (simp add: bytes_at_def)

lemma bytes_at_Suc: "bytes_at m p (Suc n) = m p # bytes_at m (Suc p) n"
  by (simp add: bytes_at_def upt_rec)

lemma length_bytes_at [simp]: "length (bytes_at m p n) = n"
  by (simp add: bytes_at_def)

lemma bytes_at_add: "bytes_at m p (a + b) = bytes_at m p a @ bytes_at m (p + a) b"
  by (induction a arbitrary: p) (simp_all add: bytes_at_Suc)

lemma nth_bytes_at [simp]: "i < n \<Longrightarrow> bytes_at m p n ! i = m (p + i)"
  by (simp add: bytes_at_def)

lemma bytes_at_cong:
  "(\<And>a. p \<le> a \<Longrightarrow> a < p + n \<Longrightarrow> m a = m' a) \<Longrightarrow> bytes_at m p n = bytes_at m' p n"
  by (simp add: bytes_at_def)

lemma set_bytes_at: "set (bytes_at m p n) = m ` {p..<p + n}"
  by (simp add: bytes_at_def)

lemma bytes_at_append_split:
  assumes "bytes_at m p (length xs + length ys) = xs @ ys"
  shows "bytes_at m p (length xs) = xs" and "bytes_at m (p + length xs) (length ys) = ys"
  using assms by (simp_all add: bytes_at_add)

lemma bytes_at_part:
  assumes "bytes_at m p n = xs @ ys @ zs"
  shows "bytes_at m (p + length xs) (length ys) = ys"
proof -
  have "n = length xs + (length ys + length zs)" using arg_cong [OF assms, of length] by simp
  with assms show ?thesis by (simp add: bytes_at_add)
qed

lemma mem_write_out: "a < p \<or> p + length bs \<le> a \<Longrightarrow> mem_write m p bs a = m a"
  by (induction bs arbitrary: m p) auto

lemma mem_write_in: "i < length bs \<Longrightarrow> mem_write m p bs (p + i) = bs ! i"
proof (induction bs arbitrary: m p i)
  case (Cons b bs)
  show ?case
  proof (cases i)
    case 0
    then show ?thesis by (simp add: mem_write_out)
  next
    case (Suc j)
    with Cons.prems have "j < length bs" by simp
    from Cons.IH [OF this] have "\<And>m. mem_write m (Suc p) bs (Suc p + j) = bs ! j" .
    with Suc show ?thesis by simp
  qed
qed simp

lemma bytes_at_mem_write [simp, c_simps]: "bytes_at (mem_write m p bs) p (length bs) = bs"
  by (rule nth_equalityI) (simp_all add: mem_write_in)

lemma bytes_at_mem_write_before:
  "q + n \<le> p \<Longrightarrow> bytes_at (mem_write m p bs) q n = bytes_at m q n"
  by (rule bytes_at_cong) (simp add: mem_write_out)

lemma mem_write_append: "mem_write m p (xs @ ys) = mem_write (mem_write m p xs) (p + length xs) ys"
  by (induction xs arbitrary: m p) simp_all

lemma bytes_at_extend:
  "bytes_at (mem_write m (p + n) bs) p (n + length bs) = bytes_at m p n @ bs"
  by (simp add: bytes_at_add bytes_at_mem_write_before)

lemma length_lit [simp]: "length (lit s) = length s"
  by (simp add: lit_def)

subsection \<open>Lemmas on the scanner\<close>

lemma scan_append:
  "scan f p (xs @ ys) s =
     (case scan f p xs s of Cont s' \<Rightarrow> scan f (p + length xs) ys s' | Stop out \<Rightarrow> Stop out)"
  by (induction xs arbitrary: p s) (simp_all split: step.splits)

lemma scan_append_Cont:
  "scan f p xs s = Cont s' \<Longrightarrow> scan f p (xs @ ys) s = scan f (p + length xs) ys s'"
  by (simp add: scan_append)

lemma scan_append_Stop: "scan f p xs s = Stop out \<Longrightarrow> scan f p (xs @ ys) s = Stop out"
  by (simp add: scan_append)

text \<open>
  The contract of a loop body: a relation \<open>I\<close> between position and state that every step keeps, and
  what holds of a result (\<open>J\<close>) when a step leaves the loop. \<open>rd p c\<close> says which byte a position may
  hold. The two parsers interpret it on their \<open>switch\<close>.
\<close>

locale byte_scanner =
  fixes f :: "ptr \<Rightarrow> u8 \<Rightarrow> 's \<Rightarrow> ('s, 'o) step" and rd :: "ptr \<Rightarrow> u8 \<Rightarrow> bool"
    and I :: "ptr \<Rightarrow> 's \<Rightarrow> bool" and J :: "ptr \<Rightarrow> 'o \<Rightarrow> bool"
  assumes keeps: "I p s \<Longrightarrow> rd p c \<Longrightarrow> p < 2 ^ 64 \<Longrightarrow> f p c s = Cont s' \<Longrightarrow> I (Suc p) s'"
    and leaves: "I p s \<Longrightarrow> rd p c \<Longrightarrow> p < 2 ^ 64 \<Longrightarrow> f p c s = Stop out \<Longrightarrow> J p out"
begin

lemma scan_keeps:
  assumes "scan f p cs s = Cont s'" "I p s" "\<And>i. i < length cs \<Longrightarrow> rd (p + i) (cs ! i)"
    "p + length cs \<le> 2 ^ 64"
  shows "I (p + length cs) s'"
  using assms
proof (induction cs arbitrary: p s)
  case (Cons c cs)
  from Cons.prems(1) obtain t where t: "f p c s = Cont t" "scan f (Suc p) cs t = Cont s'"
    by (auto split: step.splits)
  from Cons.prems(3) [of 0] Cons.prems(4) have "I (Suc p) t"
    using keeps [OF Cons.prems(2) _ _ t(1)] by simp
  moreover have "rd (Suc p + i) (cs ! i)" if "i < length cs" for i
    using Cons.prems(3) [of "Suc i"] that by simp
  ultimately show ?case using Cons.IH [OF t(2)] Cons.prems(4) by simp
qed simp

lemma scan_leaves:
  assumes "scan f p cs s = Stop out" "I p s" "\<And>i. i < length cs \<Longrightarrow> rd (p + i) (cs ! i)"
    "p + length cs \<le> 2 ^ 64"
  shows "\<exists>q. p \<le> q \<and> q < p + length cs \<and> J q out"
  using assms
proof (induction cs arbitrary: p s)
  case (Cons c cs)
  note here = Cons.prems(3) [of 0, simplified]
  show ?case
  proof (cases "f p c s")
    case (Cont t)
    with Cons.prems(1) have "scan f (Suc p) cs t = Stop out" by simp
    moreover have "I (Suc p) t" using keeps [OF Cons.prems(2) here _ Cont] Cons.prems(4) by simp
    moreover have "rd (Suc p + i) (cs ! i)" if "i < length cs" for i
      using Cons.prems(3) [of "Suc i"] that by simp
    ultimately have "\<exists>q. Suc p \<le> q \<and> q < Suc p + length cs \<and> J q out"
      using Cons.IH [of "Suc p" t] Cons.prems(4) by simp
    then show ?thesis by (auto dest: Suc_leD)
  next
    case (Stop out')
    with Cons.prems have "f p c s = Stop out" by simp
    with leaves [OF Cons.prems(2) here] Cons.prems(4) show ?thesis by force
  qed
qed simp

end

text \<open>A run of bytes the body skips, changing only what \<open>g\<close> changes.\<close>

lemma scan_skip:
  assumes "\<And>q c. c \<in> set xs \<Longrightarrow> f q c s = Cont s"
  shows "scan f p xs s = Cont s"
  using assms by (induction xs arbitrary: p) auto

subsection \<open>Enumerating bytes\<close>

lemma u8_all: "(\<forall>c::u8. P c) \<longleftrightarrow> list_all (\<lambda>n. P (word_of_nat n)) [0..<256]"
proof
  assume *: "list_all (\<lambda>n. P (word_of_nat n)) [0..<256]"
  show "\<forall>c. P c"
  proof
    fix c :: u8
    have "unat c < 2 ^ LENGTH(8)" by (rule unsigned_less)
    then have "unat c < 256" by simp
    with * have "P (word_of_nat (unat c))" unfolding list_all_iff by (metis atLeast0LessThan lessThan_iff set_upt)
    then show "P c" by simp
  qed
qed (simp add: list_all_iff)

end
