(* ===== verification/Str.thy ===== *)
theory Str
  imports Prelude
begin

text \<open>
  \<open>util/str.h\<close> and \<open>util/buffer.h\<close>: counted strings that point into a buffer, the decimal
  conversion \<open>str_atoi\<close> and the receive buffer with its four pointers. \<open>str_atoi\<close> computes in
  \<open>int\<close>; a signed overflow is undefined behaviour in C and is the value \<open>UB\<close> here.
\<close>

record str_t =
  str_p :: ptr
  str_len :: size_t

definition str_init :: str_t where
  "str_init = \<lparr>str_p = 0, str_len = 0\<rparr>"

text \<open>The bytes a counted string denotes in a memory.\<close>

definition str_bytes :: "mem \<Rightarrow> str_t \<Rightarrow> u8 list" where
  "str_bytes m s = bytes_at m (str_p s) (str_len s)"

text \<open>\<open>strcmp\<close> of two C strings, each given by its bytes before the terminating NUL.\<close>

definition str_equal :: "u8 list \<Rightarrow> u8 list \<Rightarrow> bool" where
  "str_equal s t = (s = t)"

definition is_digit :: "u8 \<Rightarrow> bool" where
  "is_digit c = (ch_0 \<le> c \<and> c \<le> ch_9)"

definition digit_val :: "u8 \<Rightarrow> int" where
  "digit_val c = uint c - 48"

fun str_atoi_loop :: "u8 list \<Rightarrow> int \<Rightarrow> int cres" where
  "str_atoi_loop [] val = Ret val"
| "str_atoi_loop (c # cs) val =
     (if is_digit c
      then (let val' = 10 * val + digit_val c
            in if val' > INT_MAX then UB else str_atoi_loop cs val')
      else Ret val)"

definition str_atoi :: "mem \<Rightarrow> str_t \<Rightarrow> int cres" where
  "str_atoi m s = str_atoi_loop (str_bytes m s) 0"

record buffer =
  b_start :: ptr
  b_end :: ptr
  b_pos :: ptr
  b_last :: ptr

definition bind_buffer :: "ptr \<Rightarrow> size_t \<Rightarrow> buffer" where
  "bind_buffer buff len =
     \<lparr>b_start = buff, b_end = buff + len, b_pos = buff, b_last = buff\<rparr>"

text \<open>The received bytes that have not been consumed yet.\<close>

definition pending :: "mem \<Rightarrow> buffer \<Rightarrow> u8 list" where
  "pending m b = bytes_at m (b_pos b) (b_last b - b_pos b)"

text \<open>The pointers of a buffer are ordered, and the buffer lies in the address space above
  \<open>NULL\<close>.\<close>

definition buffer_wf :: "buffer \<Rightarrow> bool" where
  "buffer_wf b \<longleftrightarrow> 0 < b_start b \<and> b_start b \<le> b_pos b \<and> b_pos b \<le> b_last b \<and>
     b_last b \<le> b_end b \<and> b_end b < 2 ^ 64"

text \<open>A slice that is either absent or lies inside \<open>[lo, hi)\<close>.\<close>

definition str_in :: "ptr \<Rightarrow> ptr \<Rightarrow> str_t \<Rightarrow> bool" where
  "str_in lo hi s \<longleftrightarrow> lo \<le> str_p s \<and> str_p s + str_len s \<le> hi"

definition str_opt_in :: "ptr \<Rightarrow> ptr \<Rightarrow> str_t \<Rightarrow> bool" where
  "str_opt_in lo hi s \<longleftrightarrow> s = str_init \<or> str_in lo hi s"

text \<open>Reference semantics of decimal conversion: the value of a digit string, and the digits of
  a number.\<close>

definition dec_value :: "int \<Rightarrow> u8 list \<Rightarrow> int" where
  "dec_value v ds = foldl (\<lambda>acc d. 10 * acc + digit_val d) v ds"

fun dec_digits :: "nat \<Rightarrow> u8 list" where
  "dec_digits n =
     (if n < 10 then [word_of_nat (48 + n)]
      else dec_digits (n div 10) @ [word_of_nat (48 + n mod 10)])"

declare dec_digits.simps [simp del]

subsection \<open>Lemmas\<close>

lemma str_init_sel [simp]: "str_p str_init = 0" "str_len str_init = 0"
  by (simp_all add: str_init_def)

lemma bind_buffer_wf [wf_intros]:
  "0 < buff \<Longrightarrow> buff + len < 2 ^ 64 \<Longrightarrow> buffer_wf (bind_buffer buff len)"
  by (simp add: buffer_wf_def bind_buffer_def)

lemma pending_bind_buffer [simp]: "pending m (bind_buffer buff len) = []"
  by (simp add: pending_def bind_buffer_def)

lemma pending_upto:
  assumes "b_pos b \<le> b_last b" "b_last b \<le> l"
  shows "pending m (b\<lparr>b_last := l\<rparr>) = pending m b @ bytes_at m (b_last b) (l - b_last b)"
  using assms bytes_at_add [of m "b_pos b" "b_last b - b_pos b" "l - b_last b"]
  by (simp add: pending_def)

lemma digit_val_nonneg: "is_digit c \<Longrightarrow> 0 \<le> digit_val c"
  by (simp add: is_digit_def digit_val_def word_le_def)

lemma digit_val_le: "is_digit c \<Longrightarrow> digit_val c \<le> 9"
  by (simp add: is_digit_def digit_val_def word_le_def)

lemma dec_value_Cons: "dec_value v (d # ds) = dec_value (10 * v + digit_val d) ds"
  by (simp add: dec_value_def)

lemma dec_value_snoc: "dec_value v (ds @ [d]) = 10 * dec_value v ds + digit_val d"
  by (simp add: dec_value_def)

lemma dec_value_mono: "\<forall>d \<in> set ds. is_digit d \<Longrightarrow> 0 \<le> v \<Longrightarrow> v \<le> dec_value v ds"
proof (induction ds arbitrary: v)
  case (Cons d ds)
  then have d: "0 \<le> digit_val d" by (simp add: digit_val_nonneg)
  with Cons have "10 * v + digit_val d \<le> dec_value (10 * v + digit_val d) ds" by simp
  with d Cons.prems(2) show ?case by (simp add: dec_value_Cons)
qed (simp add: dec_value_def)

lemma str_atoi_loop_spec:
  assumes "0 \<le> v" "v \<le> INT_MAX"
  shows "str_atoi_loop cs v =
    (if dec_value v (takeWhile is_digit cs) \<le> INT_MAX
     then Ret (dec_value v (takeWhile is_digit cs)) else UB)"
  using assms
proof (induction cs arbitrary: v)
  case Nil
  then show ?case by (simp add: dec_value_def)
next
  case (Cons c cs)
  show ?case
  proof (cases "is_digit c")
    case True
    define w where "w = 10 * v + digit_val c"
    with True Cons.prems have w: "0 \<le> w" by (simp add: digit_val_nonneg)
    have "\<forall>d \<in> set (takeWhile is_digit cs). is_digit d" by (auto dest: set_takeWhileD)
    with w have ge: "w \<le> dec_value w (takeWhile is_digit cs)" by (simp add: dec_value_mono)
    show ?thesis
    proof (cases "w > INT_MAX")
      case big: True
      with ge True show ?thesis by (simp add: dec_value_Cons flip: w_def)
    next
      case False
      with Cons.IH [OF w] True show ?thesis by (simp add: dec_value_Cons flip: w_def)
    qed
  next
    case False
    with Cons.prems show ?thesis by (simp add: dec_value_def)
  qed
qed

lemma digit_char: "k < 10 \<Longrightarrow> is_digit (word_of_nat (48 + k)) \<and> digit_val (word_of_nat (48 + k)) = int k"
proof -
  assume "k < 10"
  then have "k = 0 \<or> k = 1 \<or> k = 2 \<or> k = 3 \<or> k = 4 \<or> k = 5 \<or> k = 6 \<or> k = 7 \<or> k = 8 \<or> k = 9"
    by presburger
  then show ?thesis by (auto simp: is_digit_def digit_val_def)
qed

lemma dec_digits_digit: "d \<in> set (dec_digits n) \<Longrightarrow> is_digit d"
proof (induction n rule: dec_digits.induct)
  case (1 n)
  show ?case
  proof (cases "n < 10")
    case True
    with "1.prems" show ?thesis using digit_char [of n] by (simp add: dec_digits.simps [of n])
  next
    case False
    with 1 show ?thesis using digit_char [of "n mod 10"] by (auto simp: dec_digits.simps [of n])
  qed
qed

lemma dec_value_dec_digits: "dec_value 0 (dec_digits n) = int n"
proof (induction n rule: dec_digits.induct)
  case (1 n)
  show ?case
  proof (cases "n < 10")
    case True
    then show ?thesis using digit_char [of n]
      by (simp add: dec_digits.simps [of n] dec_value_def)
  next
    case False
    with 1 show ?thesis using digit_char [of "n mod 10"]
      by (simp add: dec_digits.simps [of n] dec_value_snoc zdiv_int zmod_int)
  qed
qed

lemma takeWhile_dec_digits:
  "rest = [] \<or> \<not> is_digit (hd rest) \<Longrightarrow> takeWhile is_digit (dec_digits n @ rest) = dec_digits n"
  by (cases rest) (auto simp: takeWhile_append2 dec_digits_digit)

lemma str_atoi_dec_digits:
  assumes "str_bytes m s = dec_digits n @ rest" and "rest = [] \<or> \<not> is_digit (hd rest)"
  shows "str_atoi m s = (if int n \<le> INT_MAX then Ret (int n) else UB)"
  by (simp add: str_atoi_def assms(1) str_atoi_loop_spec INT_MAX_def
      takeWhile_dec_digits [OF assms(2)] dec_value_dec_digits)

lemma str_in_mono: "str_in lo hi s \<Longrightarrow> hi \<le> hi' \<Longrightarrow> str_in lo hi' s"
  by (simp add: str_in_def)

lemma str_opt_in_mono: "str_opt_in lo hi s \<Longrightarrow> hi \<le> hi' \<Longrightarrow> str_opt_in lo hi' s"
  by (auto simp: str_opt_in_def intro: str_in_mono)

lemma str_opt_in_init [simp]: "str_opt_in lo hi str_init"
  by (simp add: str_opt_in_def)

lemma length_str_bytes [simp]: "length (str_bytes m s) = str_len s"
  by (simp add: str_bytes_def)

end
