(* ===== verification/Memcache.thy ===== *)
theory Memcache
  imports Prelude
begin

text \<open>
  \<open>util/memcache.c\<close>: a stack of free blocks in front of \<open>malloc\<close>. The allocator is explicit: the
  addresses the next calls of \<open>malloc\<close> try (0 for a failure) and the blocks that are allocated
  at the moment. A block that is in use is never returned - such a call fails -, a block that was freed may be
  returned again; freeing a block that is not allocated is undefined behaviour. The pool's array \<open>elements\<close> is a
  list of \<open>cache_size\<close> slots of which the first \<open>curr\<close> are in use.

  \<open>mc_rep c a out rest\<close> is the ownership invariant: every allocated block is exactly one of a
  pooled block, a block handed out to a client (\<open>out\<close>), the pool's own block or a block of some
  other part of the program (\<open>rest\<close>). The locale \<open>object_pool\<close> is the contract of the clients.
\<close>

subsection \<open>The allocator\<close>

record allocator =
  a_supply :: "ptr list"
  a_live :: "ptr list"

definition malloc :: "allocator \<Rightarrow> ptr \<times> allocator" where
  "malloc a =
     (case a_supply a of
        [] \<Rightarrow> (0, a)
      | p # ps \<Rightarrow> if p = 0 \<or> p \<in> set (a_live a) then (0, a\<lparr>a_supply := ps\<rparr>)
                  else (p, a\<lparr>a_supply := ps, a_live := p # a_live a\<rparr>))"

definition free :: "ptr \<Rightarrow> allocator \<Rightarrow> allocator cres" where
  "free p a =
     (if p = 0 then Ret a
      else if p \<in> set (a_live a) then Ret (a\<lparr>a_live := remove1 p (a_live a)\<rparr>)
      else UB)"

text \<open>The blocks in use are different blocks, and \<open>NULL\<close> is none of them. Nothing is asked of the addresses to come.\<close>

definition alloc_ok :: "allocator \<Rightarrow> bool" where
  "alloc_ok a \<longleftrightarrow> distinct (a_live a) \<and> 0 \<notin> set (a_live a)"

text \<open>Addresses for which the next calls of \<open>malloc\<close> succeed, one after the other.\<close>

definition fresh_blocks :: "ptr list \<Rightarrow> allocator \<Rightarrow> bool" where
  "fresh_blocks ps a \<longleftrightarrow> distinct ps \<and> 0 \<notin> set ps \<and> set ps \<inter> set (a_live a) = {}"

subsection \<open>Operations\<close>

record memcache =
  mc_addr :: ptr
  mc_elements :: "ptr list"
  mc_obj_size :: size_t
  mc_cache_size :: nat
  mc_curr :: nat

definition add_element :: "memcache \<Rightarrow> ptr \<Rightarrow> allocator \<Rightarrow> (memcache \<times> allocator) cres" where
  "add_element c element a =
     (if mc_curr c < mc_cache_size c
      then Ret (c\<lparr>mc_elements := (mc_elements c)[mc_curr c := element], mc_curr := mc_curr c + 1\<rparr>, a)
      else cbind (free element a) (\<lambda>a'. Ret (c, a')))"

definition remove_element :: "memcache \<Rightarrow> ptr \<times> memcache" where
  "remove_element c = (mc_elements c ! (mc_curr c - 1), c\<lparr>mc_curr := mc_curr c - 1\<rparr>)"

function free_pool :: "memcache \<Rightarrow> allocator \<Rightarrow> allocator cres" where
  "free_pool c a =
     (if mc_curr c \<noteq> 0
      then let (element, c') = remove_element c
           in cbind (free element a) (\<lambda>a'. free_pool c' a')
      else free (mc_addr c) a)"
  by pat_completeness auto
termination
  by (relation "measure (\<lambda>(c, a). mc_curr c)") (auto simp: remove_element_def)

declare free_pool.simps [simp del]

text \<open>The loop that fills a quarter of the pool; the cache and \<open>None\<close> for a \<open>NULL\<close> result.\<close>

partial_function (option) memcache_fill ::
  "nat \<Rightarrow> memcache \<Rightarrow> allocator \<Rightarrow> (memcache option \<times> allocator) cres option" where
  "memcache_fill n c a =
     (if mc_curr c < n then
        (case malloc a of (element, a1) \<Rightarrow>
           if element = 0 then Some (cbind (free_pool c a1) (\<lambda>a2. Ret (None, a2)))
           else (case add_element c element a1 of
                   Ret (c', a2) \<Rightarrow> memcache_fill n c' a2
                 | UB \<Rightarrow> Some UB | Abort \<Rightarrow> Some Abort | Exit e \<Rightarrow> Some (Exit e)))
      else Some (Ret (Some c, a)))"

definition memcache_create ::
  "size_t \<Rightarrow> int \<Rightarrow> allocator \<Rightarrow> (memcache option \<times> allocator) cres option" where
  "memcache_create obj_size max_cache_size a =
     (if \<not> max_cache_size \<ge> 2 then Some Abort
      else case malloc a of (addr, a1) \<Rightarrow>
        if addr = 0 then Some (Ret (None, a1))
        else let c = \<lparr>mc_addr = addr, mc_elements = replicate (nat max_cache_size) 0, mc_obj_size = obj_size,
                      mc_cache_size = nat max_cache_size, mc_curr = 0\<rparr>
             in memcache_fill (nat (drop_bit 2 max_cache_size)) c a1)"

definition memcache_destroy :: "memcache \<Rightarrow> allocator \<Rightarrow> allocator cres" where
  "memcache_destroy c a = free_pool c a"

definition memcache_alloc :: "memcache \<Rightarrow> allocator \<Rightarrow> ptr \<times> memcache \<times> allocator" where
  "memcache_alloc c a =
     (if mc_curr c \<noteq> 0
      then case remove_element c of (p, c') \<Rightarrow> (p, c', a)
      else case malloc a of (p, a') \<Rightarrow> (p, c, a'))"

definition memcache_free :: "memcache \<Rightarrow> ptr \<Rightarrow> allocator \<Rightarrow> (memcache \<times> allocator) cres" where
  "memcache_free c element a = add_element c element a"

subsection \<open>Ownership\<close>

definition pooled :: "memcache \<Rightarrow> ptr list" where
  "pooled c = take (mc_curr c) (mc_elements c)"

definition mc_rep :: "memcache \<Rightarrow> allocator \<Rightarrow> ptr set \<Rightarrow> ptr set \<Rightarrow> bool" where
  "mc_rep c a out rest \<longleftrightarrow> alloc_ok a \<and> mc_curr c \<le> mc_cache_size c \<and>
     length (mc_elements c) = mc_cache_size c \<and> distinct (mc_addr c # pooled c) \<and>
     set (mc_addr c # pooled c) \<inter> (out \<union> rest) = {} \<and> out \<inter> rest = {} \<and>
     set (a_live a) = set (mc_addr c # pooled c) \<union> out \<union> rest"

lemma malloc_cases:
  assumes "alloc_ok a" "malloc a = (p, a')"
  shows "alloc_ok a'" "p = 0 \<Longrightarrow> a_live a' = a_live a"
    "p \<noteq> 0 \<Longrightarrow> p \<notin> set (a_live a) \<and> a_live a' = p # a_live a"
  using assms by (auto simp: malloc_def alloc_ok_def split: list.splits if_splits)

lemma free_live:
  assumes "alloc_ok a" "p \<in> set (a_live a)"
  shows "\<exists>a'. free p a = Ret a' \<and> alloc_ok a' \<and> set (a_live a') = set (a_live a) - {p}"
  using assms by (auto simp: free_def alloc_ok_def)

lemma pooled_push:
  "mc_curr c < mc_cache_size c \<Longrightarrow> length (mc_elements c) = mc_cache_size c \<Longrightarrow>
   pooled (c\<lparr>mc_elements := (mc_elements c)[mc_curr c := e], mc_curr := mc_curr c + 1\<rparr>) = pooled c @ [e]"
  by (simp add: pooled_def take_Suc_conv_app_nth)

lemma pooled_pop:
  assumes "mc_curr c \<noteq> 0" "mc_curr c \<le> length (mc_elements c)"
  shows "pooled c = pooled (c\<lparr>mc_curr := mc_curr c - 1\<rparr>) @ [mc_elements c ! (mc_curr c - 1)]"
  using assms take_Suc_conv_app_nth [of "mc_curr c - 1" "mc_elements c"] by (simp add: pooled_def)

lemma memcache_alloc_rep:
  assumes rep: "mc_rep c a out rest" and alloc: "memcache_alloc c a = (p, c', a')"
  shows "p = 0 \<and> mc_rep c' a' out rest \<or> p \<noteq> 0 \<and> p \<notin> out \<and> mc_rep c' a' (insert p out) rest"
proof (cases "mc_curr c = 0")
  case True
  with alloc obtain "malloc a = (p, a')" and "c' = c"
    by (auto simp: memcache_alloc_def split: prod.splits)
  with malloc_cases [of a p a'] rep show ?thesis by (cases "p = 0") (auto simp: mc_rep_def)
next
  case False
  with alloc have p: "p = mc_elements c ! (mc_curr c - 1)" "c' = c\<lparr>mc_curr := mc_curr c - 1\<rparr>" "a' = a"
    by (auto simp: memcache_alloc_def remove_element_def)
  from rep False have pool: "pooled c = pooled c' @ [p]"
    using pooled_pop [of c] by (simp add: mc_rep_def p)
  from rep have "p \<in> set (a_live a)" using pool by (simp add: mc_rep_def)
  with rep have "p \<noteq> 0" by (auto simp: mc_rep_def alloc_ok_def)
  with rep pool show ?thesis by (auto simp: mc_rep_def p)
qed

lemma add_element_rep:
  assumes rep: "mc_rep c a out rest" and p: "p \<in> out"
  shows "\<exists>c' a'. add_element c p a = Ret (c', a') \<and> mc_rep c' a' (out - {p}) rest"
proof (cases "mc_curr c < mc_cache_size c")
  case True
  with rep p pooled_push [of c p] show ?thesis
    by (auto simp: add_element_def mc_rep_def)
next
  case False
  from rep p have "p \<in> set (a_live a)" "alloc_ok a" by (auto simp: mc_rep_def)
  from free_live [OF this(2,1)] obtain a' where
    "free p a = Ret a'" "alloc_ok a'" "set (a_live a') = set (a_live a) - {p}" by blast
  with False rep p show ?thesis by (auto simp: add_element_def mc_rep_def)
qed

lemma free_pool_rep:
  assumes "mc_rep c a out rest"
  shows "\<exists>a'. free_pool c a = Ret a' \<and> alloc_ok a' \<and> set (a_live a') = out \<union> rest"
  using assms
proof (induction c a arbitrary: rule: free_pool.induct)
  case (1 c a)
  show ?case
  proof (cases "mc_curr c = 0")
    case True
    then have "set (a_live a) = insert (mc_addr c) (out \<union> rest)" "mc_addr c \<notin> out \<union> rest"
      using "1.prems" by (auto simp: mc_rep_def pooled_def)
    moreover have "alloc_ok a" using "1.prems" by (simp add: mc_rep_def)
    ultimately show ?thesis using free_live [of a "mc_addr c"] True by (auto simp: free_pool.simps)
  next
    case False
    let ?e = "mc_elements c ! (mc_curr c - 1)" and ?c = "c\<lparr>mc_curr := mc_curr c - 1\<rparr>"
    have pool: "pooled c = pooled ?c @ [?e]" using "1.prems" False pooled_pop by (simp add: mc_rep_def)
    from "1.prems" have "?e \<in> set (a_live a)" "alloc_ok a" using pool by (auto simp: mc_rep_def)
    from free_live [OF this(2,1)] obtain a1 where
      a1: "free ?e a = Ret a1" "alloc_ok a1" "set (a_live a1) = set (a_live a) - {?e}" by blast
    have "mc_rep ?c a1 out rest" using "1.prems" a1 pool by (auto simp: mc_rep_def)
    with "1.IH" [of "(?e, ?c)" ?e ?c a1] False a1 show ?thesis
      by (simp add: free_pool.simps [of c] remove_element_def)
  qed
qed

lemma memcache_fill_rep:
  assumes "mc_rep c a {} rest" "mc_curr c \<le> n" "n \<le> mc_cache_size c"
  shows "\<exists>oc a'. memcache_fill n c a = Some (Ret (oc, a')) \<and>
    (case oc of
       None \<Rightarrow> alloc_ok a' \<and> set (a_live a') = rest
     | Some c' \<Rightarrow> mc_rep c' a' {} rest \<and> mc_curr c' = n \<and> mc_cache_size c' = mc_cache_size c \<and>
         mc_obj_size c' = mc_obj_size c)"
  using assms
proof (induction "n - mc_curr c" arbitrary: c a)
  case 0
  then show ?case by (simp add: memcache_fill.simps)
next
  case (Suc k)
  obtain e a1 where m: "malloc a = (e, a1)" by fastforce
  have ok: "alloc_ok a" using Suc.prems by (simp add: mc_rep_def)
  from Suc.hyps(2) have lt: "mc_curr c < n" by simp
  show ?case
  proof (cases "e = 0")
    case True
    have "mc_rep c a1 {} rest" using Suc.prems(1) malloc_cases [OF ok m] True by (simp add: mc_rep_def)
    from free_pool_rep [OF this] m lt True show ?thesis by (auto simp: memcache_fill.simps)
  next
    case False
    have rep1: "mc_rep c a1 {e} rest"
      using Suc.prems(1) malloc_cases [OF ok m] False by (auto simp: mc_rep_def)
    let ?c = "c\<lparr>mc_elements := (mc_elements c)[mc_curr c := e], mc_curr := mc_curr c + 1\<rparr>"
    have add: "add_element c e a1 = Ret (?c, a1)" using lt Suc.prems(3) by (simp add: add_element_def)
    from add_element_rep [OF rep1, of e] add have "mc_rep ?c a1 {} rest" by simp
    moreover have "k = n - mc_curr ?c" using Suc.hyps(2) by simp
    ultimately show ?thesis
      using Suc.hyps(1) [of ?c a1] Suc.prems(3) lt m False add
      by (simp add: memcache_fill.simps [of n c a] cong: option.case_cong)
  qed
qed

lemma memcache_create_rep:
  assumes "alloc_ok a" "2 \<le> n"
  shows "\<exists>oc a'. memcache_create osz n a = Some (Ret (oc, a')) \<and>
    (case oc of
       None \<Rightarrow> alloc_ok a' \<and> set (a_live a') = set (a_live a)
     | Some c \<Rightarrow> mc_rep c a' {} (set (a_live a)) \<and> mc_curr c = nat n div 4 \<and> mc_cache_size c = nat n \<and>
         mc_obj_size c = osz)"
proof -
  obtain addr a1 where m: "malloc a = (addr, a1)" by fastforce
  note mc = malloc_cases [OF assms(1) m]
  show ?thesis
  proof (cases "addr = 0")
    case True
    with assms(2) m mc show ?thesis by (simp add: memcache_create_def)
  next
    case False
    let ?c = "\<lparr>mc_addr = addr, mc_elements = replicate (nat n) 0, mc_obj_size = osz, mc_cache_size = nat n,
      mc_curr = 0\<rparr>"
    have "mc_rep ?c a1 {} (set (a_live a))" using mc False by (auto simp: mc_rep_def pooled_def)
    moreover have quarter: "nat (drop_bit 2 n) = nat n div 4"
      using assms(2) by (simp add: drop_bit_eq_div nat_div_distrib)
    ultimately show ?thesis
      using memcache_fill_rep [of ?c a1 "set (a_live a)" "nat n div 4"] assms(2) m False
      by (simp add: memcache_create_def Let_def cong: option.case_cong)
  qed
qed

subsection \<open>The interface\<close>

text \<open>What a client of the pool relies on: a block it gets is not one it already holds, and giving back
  a block it holds is never undefined behaviour. The request handler and the scheduler's timer
  nodes are the clients.\<close>

locale object_pool =
  fixes rep :: "'c \<Rightarrow> 'a \<Rightarrow> ptr set \<Rightarrow> bool"
    and alloc :: "'c \<Rightarrow> 'a \<Rightarrow> ptr \<times> 'c \<times> 'a" and release :: "'c \<Rightarrow> ptr \<Rightarrow> 'a \<Rightarrow> ('c \<times> 'a) cres"
  assumes alloc_rep: "rep c a out \<Longrightarrow> alloc c a = (p, c', a') \<Longrightarrow>
      p = 0 \<and> rep c' a' out \<or> p \<noteq> 0 \<and> p \<notin> out \<and> rep c' a' (insert p out)"
    and release_rep: "rep c a out \<Longrightarrow> p \<in> out \<Longrightarrow>
      \<exists>c' a'. release c p a = Ret (c', a') \<and> rep c' a' (out - {p})"
begin

text \<open>The pattern of \<open>http_request_handler\<close>: take a block, work, give it back.\<close>

lemma alloc_release:
  assumes "rep c a out" "alloc c a = (p, c1, a1)" "p \<noteq> 0"
  shows "\<exists>c2 a2. release c1 p a1 = Ret (c2, a2) \<and> rep c2 a2 out"
proof -
  from alloc_rep [OF assms(1,2)] assms(3) have "p \<notin> out" "rep c1 a1 (insert p out)" by auto
  with release_rep [of c1 a1 "insert p out" p] show ?thesis by auto
qed

end

interpretation mc: object_pool "\<lambda>c a out. mc_rep c a out rest" memcache_alloc memcache_free for rest
  by unfold_locales (use memcache_alloc_rep add_element_rep in \<open>auto simp: memcache_free_def\<close>)

subsection \<open>Runs of a client\<close>

text \<open>A client that holds the blocks \<open>outs\<close>: it takes a block, or gives back the \<open>i\<close>-th it holds.\<close>

datatype pool_op = Pool_alloc | Pool_free nat

fun pool_step :: "pool_op \<Rightarrow> memcache \<times> allocator \<times> ptr list \<Rightarrow> (memcache \<times> allocator \<times> ptr list) cres" where
  "pool_step Pool_alloc (c, a, outs) =
     (case memcache_alloc c a of (p, c', a') \<Rightarrow> Ret (c', a', if p = 0 then outs else p # outs))"
| "pool_step (Pool_free i) (c, a, outs) =
     (if i < length outs
      then cbind (memcache_free c (outs ! i) a) (\<lambda>(c', a'). Ret (c', a', remove1 (outs ! i) outs))
      else Ret (c, a, outs))"

fun pool_run :: "pool_op list \<Rightarrow> memcache \<times> allocator \<times> ptr list \<Rightarrow> (memcache \<times> allocator \<times> ptr list) cres" where
  "pool_run [] s = Ret s"
| "pool_run (opn # opns) s = cbind (pool_step opn s) (pool_run opns)"

lemma pool_step_rep:
  assumes "mc_rep c a (set outs) rest" "distinct outs"
  shows "\<exists>c' a' outs'. pool_step opn (c, a, outs) = Ret (c', a', outs') \<and>
    mc_rep c' a' (set outs') rest \<and> distinct outs'"
proof (cases opn)
  case Pool_alloc
  obtain p c' a' where "memcache_alloc c a = (p, c', a')" using prod_cases3 by blast
  with mc.alloc_rep [OF assms(1) this] assms(2) Pool_alloc show ?thesis by auto
next
  case (Pool_free i)
  show ?thesis
  proof (cases "i < length outs")
    case True
    with mc.release_rep [OF assms(1), of "outs ! i"] assms(2) Pool_free show ?thesis by auto
  qed (use Pool_free assms in simp)
qed

lemma pool_run_rep:
  assumes "mc_rep c a (set outs) rest" "distinct outs"
  shows "\<exists>c' a' outs'. pool_run opns (c, a, outs) = Ret (c', a', outs') \<and>
    mc_rep c' a' (set outs') rest \<and> distinct outs'"
  using assms
proof (induction opns arbitrary: c a outs)
  case (Cons opn opns)
  from pool_step_rep [OF Cons.prems, of opn] obtain c1 a1 outs1 where
    "pool_step opn (c, a, outs) = Ret (c1, a1, outs1)" "mc_rep c1 a1 (set outs1) rest" "distinct outs1"
    by blast
  with Cons.IH show ?case by simp
qed auto

subsection \<open>Properties\<close>

text \<open>C30. A pool made by \<open>memcache_create\<close> and used by a client that only gives back blocks it holds: no
  operation frees a block twice or frees one that is not allocated, a block is never handed out
  while somebody holds it (neither the client nor the rest of the program), and
  \<open>memcache_destroy\<close> releases exactly the pool's own blocks: what remains allocated is what was
  allocated before plus what the client still holds.\<close>

theorem memcache_ownership:
  assumes "alloc_ok a" and "memcache_create osz n a = Some (Ret (Some c, a1))"
  shows "\<exists>c' a' outs a''. pool_run opns (c, a1, []) = Ret (c', a', outs) \<and>
    distinct outs \<and> 0 \<notin> set outs \<and> set outs \<inter> set (a_live a) = {} \<and>
    memcache_destroy c' a' = Ret a'' \<and> set (a_live a'') = set (a_live a) \<union> set outs"
proof -
  from assms(2) have "2 \<le> n" by (auto simp: memcache_create_def split: if_splits)
  from memcache_create_rep [OF assms(1) this, of osz] assms(2)
  have "mc_rep c a1 (set []) (set (a_live a))" by auto
  from pool_run_rep [OF this, of opns] obtain c' a' outs where
    run: "pool_run opns (c, a1, []) = Ret (c', a', outs)" "distinct outs"
    and rep: "mc_rep c' a' (set outs) (set (a_live a))" by auto
  from free_pool_rep [OF rep] obtain a'' where
    "free_pool c' a' = Ret a''" "set (a_live a'') = set outs \<union> set (a_live a)" by blast
  moreover from rep have "0 \<notin> set outs" "set outs \<inter> set (a_live a) = {}"
    by (auto simp: mc_rep_def alloc_ok_def)
  ultimately show ?thesis using run by (auto simp: memcache_destroy_def)
qed

definition test_alloc :: allocator where
  "test_alloc = \<lparr>a_supply = [100, 200, 300, 0], a_live = [50]\<rparr>"

lemma test_alloc_ok: "alloc_ok test_alloc"
  by (simp add: alloc_ok_def test_alloc_def)

lemma test_create: "\<exists>c a1. memcache_create 2048 4 test_alloc = Some (Ret (Some c, a1))"
  by (simp add: memcache_create_def malloc_def test_alloc_def memcache_fill.simps add_element_def
      drop_bit_eq_div)

theorem memcache_ownership_witness:
  "\<exists>c a1 c' a' outs a''. memcache_create 2048 4 test_alloc = Some (Ret (Some c, a1)) \<and>
    pool_run [Pool_alloc, Pool_alloc, Pool_free 1] (c, a1, []) = Ret (c', a', outs) \<and>
    memcache_destroy c' a' = Ret a'' \<and> set (a_live a'') = {50} \<union> set outs"
proof -
  obtain c a1 where c: "memcache_create 2048 4 test_alloc = Some (Ret (Some c, a1))"
    using test_create by blast
  from memcache_ownership [OF test_alloc_ok c, of "[Pool_alloc, Pool_alloc, Pool_free 1]"] c
  show ?thesis by (auto simp: test_alloc_def)
qed

text \<open>\<open>memcache_create\<close> always returns when at least two slots are asked for: either \<open>NULL\<close>, with every block
  it had allocated given back, or a pool of that many slots in which a quarter of the slots are
  filled. With fewer than two slots its assertion fails.\<close>

theorem memcache_create_total:
  assumes "alloc_ok a"
  shows "\<exists>res. memcache_create osz n a = Some res \<and>
    (if n < 2 then res = Abort
     else \<exists>oc a'. res = Ret (oc, a') \<and> alloc_ok a' \<and>
       (case oc of
          None \<Rightarrow> set (a_live a') = set (a_live a)
        | Some c \<Rightarrow> mc_curr c = nat n div 4 \<and> mc_cache_size c = nat n \<and> mc_obj_size c = osz))"
proof (cases "n < 2")
  case True
  then show ?thesis by (simp add: memcache_create_def)
next
  case False
  with memcache_create_rep [OF assms, of n osz] show ?thesis
    by (auto simp: mc_rep_def split: option.splits)
qed

theorem memcache_create_total_witness:
  "\<exists>oc a'. memcache_create 2048 1024 test_alloc = Some (Ret (oc, a')) \<and> alloc_ok a'"
  using memcache_create_total [OF test_alloc_ok, of 2048 1024] by auto

end
