(* ===== verification/Conf.thy ===== *)
theory Conf
  imports Str Memcache
begin

text \<open>
  \<open>util/conf.c\<close>: the configuration file, read line by line into a list of entries, and the lookup of
  an entry. A C string is the list of its bytes before the NUL (\<open>cstr\<close>); the arrays \<open>key\<close> and
  \<open>value\<close> of an entry are lists that end with their NUL. The file is its contents, or \<open>None\<close> when it
  cannot be opened; the entries come from the allocator of \<open>Memcache\<close>. What is printed before
  \<open>exit\<close> is left out.
\<close>

subsection \<open>C strings\<close>

definition cstr :: "u8 list \<Rightarrow> u8 list" where
  "cstr bs = takeWhile (\<lambda>c. c \<noteq> 0) bs"

definition isspace :: "u8 \<Rightarrow> bool" where
  "isspace c \<longleftrightarrow> c = ch_space \<or> 9 \<le> c \<and> c \<le> 13"

definition isprint :: "u8 \<Rightarrow> bool" where
  "isprint c \<longleftrightarrow> 32 \<le> c \<and> c \<le> 126"

text \<open>\<open>fgets\<close> with room for \<open>n\<close> bytes and the NUL: the bytes up to and with the first line feed, and
  what is left of the file.\<close>

fun fgets :: "nat \<Rightarrow> u8 list \<Rightarrow> u8 list \<times> u8 list" where
  "fgets 0 s = ([], s)"
| "fgets (Suc n) [] = ([], [])"
| "fgets (Suc n) (c # s) =
     (if c = LF then ([c], s) else case fgets n s of (l, s') \<Rightarrow> (c # l, s'))"

subsection \<open>Operations\<close>

definition CONF_KV_LEN :: nat where "CONF_KV_LEN = 64"

record conf =
  cf_addr :: ptr
  cf_key :: "u8 list"
  cf_value :: "u8 list"

text \<open>The string \<open>str\<close> is given by its bytes; a loop ends at its NUL, the end of the list.\<close>

definition parse_conf :: "u8 list \<Rightarrow> (u8 list \<times> u8 list) option" where
  "parse_conf str =
     (let loop = dropWhile (\<lambda>c. isspace c \<or> \<not> isprint c) str
      in if loop = [] \<or> hd loop = ch_hash then None
         else
           let in_key = (\<lambda>c. c \<noteq> ch_hash \<and> c \<noteq> ch_equals \<and> \<not> isspace c \<and> isprint c);
               key = takeWhile in_key loop;
               loop = dropWhile in_key loop;
               loop = dropWhile (\<lambda>c. c \<noteq> ch_hash \<and> (c = ch_equals \<or> isspace c \<or> \<not> isprint c)) loop;
               value = takeWhile (\<lambda>c. c \<noteq> ch_hash \<and> \<not> isspace c \<and> isprint c) loop
           in Some (key, value))"

fun free_old_conf :: "conf list \<Rightarrow> allocator \<Rightarrow> allocator cres" where
  "free_old_conf [] a = Ret a"
| "free_old_conf (c # cs) a = cbind (free (cf_addr c) a) (free_old_conf cs)"

text \<open>The position in the list of the entry whose \<open>value\<close> is returned.\<close>

fun get_conf_entry :: "conf list \<Rightarrow> u8 list \<Rightarrow> nat cres" where
  "get_conf_entry [] key = Exit 0"
| "get_conf_entry (c # cs) key =
     (if str_equal (cstr (cf_key c)) key then Ret 0
      else cbind (get_conf_entry cs key) (\<lambda>i. Ret (Suc i)))"

text \<open>The body of the loop of \<open>load_conf\<close> on one line.\<close>

definition load_line :: "u8 list \<Rightarrow> conf list \<Rightarrow> allocator \<Rightarrow> (conf list \<times> allocator) cres" where
  "load_line buff head a =
     (case parse_conf (cstr buff) of
        None \<Rightarrow> Ret (head, a)
      | Some (key, value) \<Rightarrow>
          if length key \<ge> CONF_KV_LEN \<or> length value \<ge> CONF_KV_LEN then Exit 0
          else case malloc a of (c, a1) \<Rightarrow>
            if c = 0 then Exit 0
            else Ret (\<lparr>cf_addr = c, cf_key = key @ [0], cf_value = value @ [0]\<rparr> # head, a1))"

lemma fgets_length: "length (snd (fgets n s)) \<le> length s"
  by (induction n s rule: fgets.induct) (auto split: prod.splits)

lemma fgets_less: "(buff, s') = fgets 511 (c # s) \<Longrightarrow> length s' < Suc (length s)"
  using fgets_length [of 510 s] by (auto simp: numeral_eq_Suc split: if_splits prod.splits)

function load_loop :: "u8 list \<Rightarrow> conf list \<Rightarrow> allocator \<Rightarrow> (conf list \<times> allocator) cres" where
  "load_loop [] head a = Ret (head, a)"
| "load_loop (c # s) head a =
     (case fgets 511 (c # s) of (buff, s') \<Rightarrow>
        cbind (load_line buff head a) (\<lambda>(head', a'). load_loop s' head' a'))"
  by pat_completeness auto
termination
  by (relation "measure (\<lambda>(s, head, a). length s)") (auto dest: fgets_less)

definition load_conf :: "u8 list option \<Rightarrow> conf list \<Rightarrow> allocator \<Rightarrow> (conf list \<times> allocator) cres" where
  "load_conf file config a =
     (case file of
        None \<Rightarrow> Exit 0
      | Some s \<Rightarrow>
          cbind (load_loop s [] a) (\<lambda>(head, a1).
          cbind (free_old_conf config a1) (\<lambda>a2. Ret (head, a2))))"

declare load_loop.simps [simp del]

text \<open>The string an entry's position denotes.\<close>

definition conf_value :: "conf list \<Rightarrow> nat \<Rightarrow> u8 list" where
  "conf_value config i = cstr (cf_value (config ! i))"

subsection \<open>The file format\<close>

text \<open>A line of the format that the shipped \<open>cserv.conf\<close> documents: blank or a comment, or a key, a separator, a
  value and the rest of the line.\<close>

datatype conf_line =
    Skip "u8 list" "u8 list"
  | Entry "u8 list" "u8 list" "u8 list" "u8 list" "u8 list"

fun line_text :: "conf_line \<Rightarrow> u8 list" where
  "line_text (Skip g c) = g @ c @ [LF]"
| "line_text (Entry g k sep v t) = g @ k @ sep @ v @ t @ [LF]"

fun line_entry :: "conf_line \<Rightarrow> (u8 list \<times> u8 list) option" where
  "line_entry (Skip g c) = None"
| "line_entry (Entry g k sep v t) = Some (k, v)"

definition gap_byte :: "u8 \<Rightarrow> bool" where
  "gap_byte c \<longleftrightarrow> (isspace c \<or> \<not> isprint c) \<and> c \<noteq> 0 \<and> c \<noteq> LF"

definition word_byte :: "u8 \<Rightarrow> bool" where
  "word_byte c \<longleftrightarrow> isprint c \<and> \<not> isspace c \<and> c \<noteq> ch_hash"

definition plain :: "u8 list \<Rightarrow> bool" where
  "plain bs \<longleftrightarrow> 0 \<notin> set bs \<and> LF \<notin> set bs"

fun line_fine :: "conf_line \<Rightarrow> bool" where
  "line_fine (Skip g c) \<longleftrightarrow> list_all gap_byte g \<and> (c = [] \<or> hd c = ch_hash) \<and> plain c \<and> length (g @ c) < 511"
| "line_fine (Entry g k sep v t) \<longleftrightarrow>
     list_all gap_byte g \<and> k \<noteq> [] \<and> list_all (\<lambda>c. word_byte c \<and> c \<noteq> ch_equals) k \<and>
     list_all (\<lambda>c. c = ch_equals \<or> gap_byte c) sep \<and> (sep = [] \<longrightarrow> v = []) \<and>
     list_all word_byte v \<and> (v = [] \<or> hd v \<noteq> ch_equals) \<and>
     (t = [] \<or> hd t = ch_hash \<or> v \<noteq> [] \<and> gap_byte (hd t)) \<and> plain t \<and>
     length k < CONF_KV_LEN \<and> length v < CONF_KV_LEN \<and> length (g @ k @ sep @ v @ t) < 511"

definition file_text :: "conf_line list \<Rightarrow> u8 list" where
  "file_text ls = concat (map line_text ls)"

definition file_entries :: "conf_line list \<Rightarrow> (u8 list \<times> u8 list) list" where
  "file_entries ls = List.map_filter line_entry ls"

subsection \<open>Parsing one line\<close>

lemma cstr_id: "0 \<notin> set bs \<Longrightarrow> cstr bs = bs"
  by (induction bs) (auto simp: cstr_def)

lemma cstr_snoc: "0 \<notin> set bs \<Longrightarrow> cstr (bs @ 0 # xs) = bs"
  by (induction bs) (auto simp: cstr_def)

lemma fgets_line: "LF \<notin> set l \<Longrightarrow> length l < n \<Longrightarrow> fgets n (l @ LF # s) = (l @ [LF], s)"
  by (induction n l rule: fgets.induct) (auto simp: gr0_conv_Suc)

lemma dropWhile_all: "list_all P xs \<Longrightarrow> dropWhile P (xs @ ys) = dropWhile P ys"
  by (induction xs) auto

lemma takeWhile_all: "list_all P xs \<Longrightarrow> takeWhile P (xs @ ys) = xs @ takeWhile P ys"
  by (induction xs) auto

lemma dropWhile_hd: "ys = [] \<or> \<not> P (hd ys) \<Longrightarrow> dropWhile P ys = ys"
  by (cases ys) auto

lemma takeWhile_hd: "ys = [] \<or> \<not> P (hd ys) \<Longrightarrow> takeWhile P ys = []"
  by (cases ys) auto

lemma gap_byte_LF: "isspace LF" and word_not_gap: "word_byte c \<Longrightarrow> isprint c \<and> \<not> isspace c \<and> c \<noteq> 0 \<and> c \<noteq> LF"
  by (auto simp: isspace_def word_byte_def isprint_def)

lemma list_all_imp: "list_all P xs \<Longrightarrow> (\<And>x. P x \<Longrightarrow> Q x) \<Longrightarrow> list_all Q xs"
  by (auto simp: list_all_iff)

lemma plain_append: "plain (xs @ ys) \<longleftrightarrow> plain xs \<and> plain ys"
  by (auto simp: plain_def)

lemma plain_list_all: "list_all P xs \<Longrightarrow> \<not> P 0 \<Longrightarrow> \<not> P LF \<Longrightarrow> plain xs"
  by (auto simp: plain_def list_all_iff)

lemma plain_gap: "list_all gap_byte xs \<Longrightarrow> plain xs" and plain_word: "list_all word_byte xs \<Longrightarrow> plain xs"
  and plain_key: "list_all (\<lambda>c. word_byte c \<and> c \<noteq> ch_equals) xs \<Longrightarrow> plain xs"
  and plain_sep: "list_all (\<lambda>c. c = ch_equals \<or> gap_byte c) xs \<Longrightarrow> plain xs"
  by (erule plain_list_all; simp add: gap_byte_def word_byte_def isprint_def)+

lemma fine_plain: "line_fine ln \<Longrightarrow> \<exists>l. line_text ln = l @ [LF] \<and> plain l \<and> length l < 511"
proof (cases ln)
  case (Skip g c)
  assume "line_fine ln"
  with Skip show ?thesis by (intro exI [of _ "g @ c"]) (simp add: plain_append plain_gap)
next
  case (Entry g k sep v t)
  assume "line_fine ln"
  with Entry show ?thesis
    by (intro exI [of _ "g @ k @ sep @ v @ t"]) (simp add: plain_append plain_gap plain_word plain_key plain_sep)
qed

lemma parse_skip:
  assumes "line_fine (Skip g c)" shows "parse_conf (g @ c @ [LF]) = None"
proof -
  have "dropWhile (\<lambda>c. isspace c \<or> \<not> isprint c) (g @ c @ [LF]) = dropWhile (\<lambda>c. isspace c \<or> \<not> isprint c) (c @ [LF])"
    using assms by (intro dropWhile_all) (auto elim!: list_all_imp simp: gap_byte_def)
  then show ?thesis using assms by (cases c) (auto simp: parse_conf_def isspace_def isprint_def)
qed

lemma parse_entry:
  assumes "line_fine (Entry g k sep v t)" shows "parse_conf (g @ k @ sep @ v @ t @ [LF]) = Some (k, v)"
proof -
  let ?gap = "\<lambda>c. isspace c \<or> \<not> isprint c"
  let ?key = "\<lambda>c. c \<noteq> ch_hash \<and> c \<noteq> ch_equals \<and> \<not> isspace c \<and> isprint c"
  let ?sep = "\<lambda>c. c \<noteq> ch_hash \<and> (c = ch_equals \<or> isspace c \<or> \<not> isprint c)"
  let ?val = "\<lambda>c. c \<noteq> ch_hash \<and> \<not> isspace c \<and> isprint c"
  note fine = assms [simplified]
  have k1: "\<not> ?gap (hd (k @ sep @ v @ t @ [LF]))" "hd (k @ sep @ v @ t @ [LF]) \<noteq> ch_hash"
    using fine by (cases k; simp add: word_byte_def)+
  have d1: "dropWhile ?gap (g @ k @ sep @ v @ t @ [LF]) = k @ sep @ v @ t @ [LF]"
    using fine k1 by (subst dropWhile_all) (auto elim!: list_all_imp simp: gap_byte_def intro!: dropWhile_hd)
  have stop: "\<not> ?key (hd (sep @ v @ t @ [LF]))"
  proof (cases sep)
    case Nil
    with fine show ?thesis by (cases t) (auto simp: isspace_def)
  next
    case (Cons x xs)
    with fine show ?thesis by (auto simp: gap_byte_def)
  qed
  have ak: "list_all ?key k" using fine by (auto elim!: list_all_imp simp: word_byte_def)
  have d2: "takeWhile ?key (k @ sep @ v @ t @ [LF]) = k" "dropWhile ?key (k @ sep @ v @ t @ [LF]) = sep @ v @ t @ [LF]"
    using takeWhile_hd [of "sep @ v @ t @ [LF]" ?key] dropWhile_hd [of "sep @ v @ t @ [LF]" ?key] stop
      takeWhile_all [OF ak] dropWhile_all [OF ak] by simp_all
  have ht: "t = [] \<or> hd t = ch_hash \<or> ?gap (hd t)" using fine by (auto simp: gap_byte_def)
  have av: "list_all ?val v" using fine by (auto elim!: list_all_imp simp: word_byte_def)
  have tv: "takeWhile ?val (v @ t @ [LF]) = v"
    using takeWhile_all [OF av] takeWhile_hd [of "t @ [LF]" ?val] ht by (cases t) (auto simp: isspace_def)
  have as: "list_all ?sep sep"
    using fine by (auto elim!: list_all_imp simp: gap_byte_def isprint_def isspace_def)
  have d3: "takeWhile ?val (dropWhile ?sep (sep @ v @ t @ [LF])) = v"
  proof (cases v)
    case (Cons x xs)
    then have "dropWhile ?sep (v @ t @ [LF]) = v @ t @ [LF]" using fine by (auto simp: word_byte_def)
    with dropWhile_all [OF as] tv show ?thesis by simp
  next
    case Nil
    with fine have "t = [] \<or> hd t = ch_hash" by auto
    then have "takeWhile ?val (dropWhile ?sep (t @ [LF])) = []" by (cases t) (auto simp: isspace_def)
    with dropWhile_all [OF as] Nil show ?thesis by simp
  qed
  from d1 d2 d3 k1 fine show ?thesis by (simp add: parse_conf_def Let_def)
qed

lemma parse_line: "line_fine ln \<Longrightarrow> parse_conf (line_text ln) = line_entry ln"
  by (cases ln) (auto simp: parse_skip parse_entry simp del: line_fine.simps)

subsection \<open>Loading\<close>

lemma malloc_next: "a_supply a = p # ps \<Longrightarrow> p \<noteq> 0 \<Longrightarrow> p \<notin> set (a_live a) \<Longrightarrow> malloc a = (p, a\<lparr>a_supply := ps, a_live := p # a_live a\<rparr>)"
  by (simp add: malloc_def)

lemma load_line_fine:
  assumes "line_fine ln"
  shows "load_line (line_text ln) head a =
    (case line_entry ln of
       None \<Rightarrow> Ret (head, a)
     | Some (k, v) \<Rightarrow> (case malloc a of (c, a1) \<Rightarrow>
         if c = 0 then Exit 0
         else Ret (\<lparr>cf_addr = c, cf_key = k @ [0], cf_value = v @ [0]\<rparr> # head, a1)))"
proof -
  from fine_plain [OF assms] have "cstr (line_text ln) = line_text ln" by (auto simp: plain_def intro!: cstr_id)
  with assms show ?thesis by (cases ln) (auto simp: load_line_def parse_skip parse_entry simp del: append.assoc)
qed

lemma load_loop_step:
  assumes "line_fine ln"
  shows "load_loop (line_text ln @ s) head a = cbind (load_line (line_text ln) head a) (\<lambda>(head', a'). load_loop s head' a')"
proof -
  from fine_plain [OF assms] obtain l where l: "line_text ln = l @ [LF]" "plain l" "length l < 511" by blast
  then obtain c cs where c: "line_text ln @ s = c # cs" by (cases l) auto
  from fgets_line [of l 511 s] l have "fgets 511 (c # cs) = (line_text ln, s)" unfolding c [symmetric] by (simp add: plain_def)
  then show ?thesis unfolding c by (simp add: load_loop.simps)
qed

text \<open>The entries a list of parsed pairs leads to, at the addresses of the allocator.\<close>

definition conf_entry :: "(u8 list \<times> u8 list) \<Rightarrow> ptr \<Rightarrow> conf" where
  "conf_entry kv p = \<lparr>cf_addr = p, cf_key = fst kv @ [0], cf_value = snd kv @ [0]\<rparr>"

lemma load_loop_lines:
  assumes "list_all line_fine ls" and "a_supply a = ps @ qs" and "length ps = length (file_entries ls)" and "fresh_blocks ps a"
  shows "load_loop (file_text ls) head a =
    Ret (rev (map2 conf_entry (file_entries ls) ps) @ head, a\<lparr>a_supply := qs, a_live := rev ps @ a_live a\<rparr>)"
  using assms
proof (induction ls arbitrary: head a ps)
  case Nil
  then show ?case by (simp add: file_text_def file_entries_def load_loop.simps)
next
  case (Cons ln ls)
  have t: "file_text (ln # ls) = line_text ln @ file_text ls" by (simp add: file_text_def)
  show ?case
  proof (cases "line_entry ln")
    case None
    then have "file_entries (ln # ls) = file_entries ls" by (simp add: file_entries_def map_filter_simps)
    with Cons None t show ?thesis by (simp add: load_loop_step load_line_fine)
  next
    case (Some kv)
    then have e: "file_entries (ln # ls) = kv # file_entries ls" by (simp add: file_entries_def map_filter_simps)
    with Cons.prems obtain p ps' where ps: "ps = p # ps'" by (cases ps) auto
    with Cons.prems e Some t Cons.IH [of "a\<lparr>a_supply := ps' @ qs, a_live := p # a_live a\<rparr>" ps']
    show ?thesis by (cases kv) (simp add: load_loop_step load_line_fine malloc_next conf_entry_def fresh_blocks_def)
  qed
qed

lemma free_old_conf_live:
  assumes "distinct (map cf_addr cs)" and "cf_addr ` set cs \<subseteq> set (a_live a)" and "distinct (a_live a)"
  shows "\<exists>a'. free_old_conf cs a = Ret a' \<and> distinct (a_live a') \<and> a_supply a' = a_supply a \<and>
    set (a_live a') = set (a_live a) - (cf_addr ` set cs - {0})"
  using assms
proof (induction cs arbitrary: a)
  case (Cons c cs)
  obtain a1 where a1: "free (cf_addr c) a = Ret a1" "distinct (a_live a1)" "a_supply a1 = a_supply a"
    "set (a_live a1) = set (a_live a) - ({cf_addr c} - {0})"
    using Cons.prems by (cases "cf_addr c = 0") (auto simp: free_def)
  have "cf_addr ` set cs \<subseteq> set (a_live a1)" using Cons.prems a1(4) by (auto simp: image_iff)
  from Cons.IH [OF _ this a1(2)] Cons.prems(1) a1 show ?case by auto
qed simp

lemma get_conf_entry_map_of:
  assumes "list_all (\<lambda>(k, v). 0 \<notin> set k \<and> 0 \<notin> set v) kvs" and "length ps = length kvs"
  shows "case map_of kvs k of
      None \<Rightarrow> get_conf_entry (map2 conf_entry kvs ps) k = Exit 0
    | Some v \<Rightarrow> \<exists>i < length kvs. get_conf_entry (map2 conf_entry kvs ps) k = Ret i \<and> conf_value (map2 conf_entry kvs ps) i = v"
  using assms
proof (induction kvs arbitrary: ps)
  case (Cons kv kvs)
  then obtain p ps' where ps: "ps = p # ps'" by (cases ps) auto
  obtain k' v' where kv: "kv = (k', v')" by (cases kv)
  from Cons.prems kv have z: "0 \<notin> set k'" "0 \<notin> set v'" by simp_all
  show ?case
  proof (cases "k' = k")
    case True
    with z kv ps show ?thesis by (simp add: conf_entry_def str_equal_def cstr_snoc conf_value_def)
  next
    case False
    from Cons.prems ps have "list_all (\<lambda>(k, v). 0 \<notin> set k \<and> 0 \<notin> set v) kvs" "length ps' = length kvs" by simp_all
    note IH = Cons.IH [OF this]
    from False z kv ps have step: "get_conf_entry (map2 conf_entry (kv # kvs) ps) k =
        cbind (get_conf_entry (map2 conf_entry kvs ps') k) (\<lambda>i. Ret (Suc i))"
      by (simp add: conf_entry_def str_equal_def cstr_snoc)
    show ?thesis
    proof (cases "map_of kvs k")
      case None
      with IH step False kv show ?thesis by simp
    next
      case (Some v)
      with IH obtain i where "i < length kvs" "get_conf_entry (map2 conf_entry kvs ps') k = Ret i"
        "conf_value (map2 conf_entry kvs ps') i = v" by auto
      with step False kv ps Some show ?thesis by (auto simp: conf_value_def intro!: exI [of _ "Suc i"])
    qed
  qed
qed simp

lemma entries_plain: "list_all line_fine ls \<Longrightarrow> list_all (\<lambda>(k, v). 0 \<notin> set k \<and> 0 \<notin> set v) (file_entries ls)"
proof (induction ls)
  case (Cons ln ls)
  then have "line_fine ln" by simp
  then have "case line_entry ln of None \<Rightarrow> True | Some (k, v) \<Rightarrow> plain k \<and> plain v"
    by (cases ln) (auto simp: plain_word plain_key)
  with Cons show ?case by (cases "line_entry ln") (auto simp: file_entries_def map_filter_simps plain_def)
qed (simp add: file_entries_def map_filter_simps)

lemma load_conf_lines:
  assumes "list_all line_fine ls" and "alloc_ok a" and "a_supply a = ps @ qs" and "length ps = length (file_entries ls)"
    and "fresh_blocks ps a" and "distinct (map cf_addr old)" and "cf_addr ` set old \<subseteq> set (a_live a)"
  shows "\<exists>config a'. load_conf (Some (file_text ls)) old a = Ret (config, a') \<and>
    (\<forall>k. case map_of (rev (file_entries ls)) k of
       None \<Rightarrow> get_conf_entry config k = Exit 0
     | Some v \<Rightarrow> \<exists>i. get_conf_entry config k = Ret i \<and> conf_value config i = v) \<and>
    set (a_live a') = (set (a_live a) - cf_addr ` set old) \<union> set ps \<and> alloc_ok a'"
proof -
  let ?a1 = "a\<lparr>a_supply := qs, a_live := rev ps @ a_live a\<rparr>"
  let ?config = "rev (map2 conf_entry (file_entries ls) ps)"
  from load_loop_lines [OF assms(1,3-5)] have load: "load_loop (file_text ls) [] a = Ret (?config, ?a1)" by simp
  have ps: "distinct ps" "0 \<notin> set ps" "set ps \<inter> set (a_live a) = {}" "distinct (a_live a)" "0 \<notin> set (a_live a)"
    using assms(2,5) by (auto simp: alloc_ok_def fresh_blocks_def)
  from free_old_conf_live [of old ?a1] assms(6,7) ps obtain a2 where
    a2: "free_old_conf old ?a1 = Ret a2" "distinct (a_live a2)" "a_supply a2 = qs"
      "set (a_live a2) = set (a_live ?a1) - (cf_addr ` set old - {0})" by auto
  have old: "0 \<notin> cf_addr ` set old" "set ps \<inter> cf_addr ` set old = {}" using assms(7) ps by auto
  then have live: "set (a_live a2) = (set (a_live a) - cf_addr ` set old) \<union> set ps" using a2(4) by auto
  have "alloc_ok a2" using a2 live ps assms(5) by (auto simp: alloc_ok_def)
  moreover have conf: "?config = map2 conf_entry (rev (file_entries ls)) (rev ps)"
    using assms(4) by (simp add: zip_rev rev_map)
  have "case map_of (rev (file_entries ls)) k of
      None \<Rightarrow> get_conf_entry ?config k = Exit 0
    | Some v \<Rightarrow> \<exists>i. get_conf_entry ?config k = Ret i \<and> conf_value ?config i = v" for k
    using get_conf_entry_map_of [of "rev (file_entries ls)" "rev ps" k] entries_plain [OF assms(1)] assms(4)
    unfolding conf by (auto split: option.splits)
  ultimately show ?thesis using load a2(1) live by (simp add: load_conf_def)
qed

text \<open>C34. Reading back a configuration file: a file of well-formed lines (blank lines, comments, entries) is loaded,
  and a lookup then returns the value of the last entry with that key, or ends the process when there is
  none. Loading takes one block per entry (all calls of
  \<open>malloc\<close> succeed) and releases exactly the blocks of the old configuration.\<close>

theorem load_conf_lookup:
  assumes "list_all line_fine ls" and "alloc_ok a" and "a_supply a = ps @ qs" and "length ps = length (file_entries ls)"
    and "fresh_blocks ps a" and "distinct (map cf_addr old)" and "cf_addr ` set old \<subseteq> set (a_live a)"
  shows "\<exists>config a'. load_conf (Some (file_text ls)) old a = Ret (config, a') \<and>
    (\<forall>k. case map_of (rev (file_entries ls)) k of
       None \<Rightarrow> get_conf_entry config k = Exit 0
     | Some v \<Rightarrow> \<exists>i. get_conf_entry config k = Ret i \<and> conf_value config i = v) \<and>
    set (a_live a') = (set (a_live a) - cf_addr ` set old) \<union> set ps \<and> alloc_ok a'"
  using assms by (rule load_conf_lines)

text \<open>A file of two lines, the second of which overrides the first.\<close>

definition test_file :: "conf_line list" where
  "test_file = [Skip [] (lit ''# ports''), Entry [] (lit ''listen'') (lit '' = '') (lit ''80'') [],
     Entry [32] (lit ''listen'') (lit ''='') (lit ''8081'') (lit '' # used'')]"

theorem load_conf_lookup_witness:
  "\<exists>config a' i. load_conf (Some (file_text test_file)) [\<lparr>cf_addr = 50, cf_key = [0], cf_value = [0]\<rparr>]
      \<lparr>a_supply = [100, 200], a_live = [50]\<rparr> = Ret (config, a') \<and>
    get_conf_entry config (lit ''listen'') = Ret i \<and> conf_value config i = lit ''8081'' \<and>
    get_conf_entry config (lit ''log_path'') = Exit 0 \<and> set (a_live a') = {100, 200}"
proof -
  have entries: "file_entries test_file = [(lit ''listen'', lit ''80''), (lit ''listen'', lit ''8081'')]"
    by (simp add: file_entries_def test_file_def map_filter_simps)
  have fine: "list_all line_fine test_file"
    by (simp add: test_file_def lit_def CONF_KV_LEN_def gap_byte_def word_byte_def isspace_def isprint_def plain_def)
  from load_conf_lookup [OF fine, of "\<lparr>a_supply = [100, 200], a_live = [50]\<rparr>" "[100, 200]" "[]"
      "[\<lparr>cf_addr = 50, cf_key = [0], cf_value = [0]\<rparr>]"] entries
  obtain config a' where c: "load_conf (Some (file_text test_file)) [\<lparr>cf_addr = 50, cf_key = [0], cf_value = [0]\<rparr>]
      \<lparr>a_supply = [100, 200], a_live = [50]\<rparr> = Ret (config, a')"
    and look: "\<forall>k. case map_of (rev (file_entries test_file)) k of
       None \<Rightarrow> get_conf_entry config k = Exit 0
     | Some v \<Rightarrow> \<exists>i. get_conf_entry config k = Ret i \<and> conf_value config i = v"
    and live: "set (a_live a') = {100, 200}" by (auto simp: alloc_ok_def fresh_blocks_def)
  from look [rule_format, of "lit ''listen''"] entries obtain i where
    "get_conf_entry config (lit ''listen'') = Ret i" "conf_value config i = lit ''8081''" by auto
  moreover from look [rule_format, of "lit ''log_path''"] entries have "get_conf_entry config (lit ''log_path'') = Exit 0"
    by (auto simp: lit_def)
  ultimately show ?thesis using c live by blast
qed

end
