(* ===== verification/Env.thy ===== *)
theory Env
  imports Conf
begin

text \<open>
  \<open>env.c\<close>: the settings of the server, read from the configuration. The number of processors and the
  page size, which \<open>util/system.c\<close> asks the system for, are parameters. Integers are \<open>int\<close>: a
  result outside the range of the type is undefined behaviour. The strings of the settings point
  into the entries of the configuration; here they are their bytes. \<open>set_server_env\<close> cuts the
  entry \<open>listen\<close> in place, so the configuration is part of the result.
\<close>

subsection \<open>C integers\<close>

definition int_range :: "int \<Rightarrow> bool" where
  "int_range v \<longleftrightarrow> - INT_MAX - 1 \<le> v \<and> v \<le> INT_MAX"

definition to_int :: "int \<Rightarrow> int cres" where
  "to_int v = (if int_range v then Ret v else UB)"

definition atoi :: "u8 list \<Rightarrow> int cres" where
  "atoi s =
     (let s1 = dropWhile isspace s;
          neg = (s1 \<noteq> [] \<and> hd s1 = ch_dash);
          s2 = (if s1 \<noteq> [] \<and> (hd s1 = ch_dash \<or> hd s1 = ch_plus) then tl s1 else s1);
          v = dec_value 0 (takeWhile is_digit s2)
      in to_int (if neg then - v else v))"

text \<open>\<open>ALIGN(x, a)\<close> for an \<open>int\<close> \<open>x\<close>.\<close>

definition ALIGN :: "int \<Rightarrow> int \<Rightarrow> int cres" where
  "ALIGN x a = cbind (to_int (x + (a - 1))) (\<lambda>y. Ret (y AND NOT (a - 1)))"

subsection \<open>Settings\<close>

definition MAX_WORKER_PROCESS :: int where "MAX_WORKER_PROCESS = 64"

record env =
  g_log_path :: "u8 list"
  g_log_strlevel :: "u8 list"
  g_worker_processes :: int
  g_worker_connections :: int
  g_coro_stack_kbytes :: int
  g_server_addr :: "u8 list option"
  g_server_port :: int

text \<open>The string at the entry of a key.\<close>

definition conf_string :: "conf list \<Rightarrow> string \<Rightarrow> u8 list cres" where
  "conf_string config key = cbind (get_conf_entry config (lit key)) (\<lambda>i. Ret (conf_value config i))"

definition set_log_env :: "conf list \<Rightarrow> env \<Rightarrow> env cres" where
  "set_log_env config e =
     cbind (conf_string config ''log_path'') (\<lambda>path.
     cbind (conf_string config ''log_level'') (\<lambda>level.
       Ret (e\<lparr>g_log_path := path, g_log_strlevel := level\<rparr>)))"

definition set_worker_env :: "int \<Rightarrow> int \<Rightarrow> conf list \<Rightarrow> env \<Rightarrow> env cres" where
  "set_worker_env ncpu page_size config e =
     cbind (conf_string config ''worker_processes'') (\<lambda>c.
     cbind (if str_equal c (lit ''default'') then Ret ncpu else atoi c) (\<lambda>processes.
     if processes < 0 \<or> processes > MAX_WORKER_PROCESS then Exit 0 else
     cbind (conf_string config ''worker_connections'') (\<lambda>c.
     cbind (atoi c) (\<lambda>connections.
     if connections \<le> 0 then Exit 0 else
     cbind (conf_string config ''coroutine_stack_kbytes'') (\<lambda>c.
     cbind (if str_equal c (lit ''default'') then Ret (drop_bit 10 page_size)
            else cbind (atoi c) (\<lambda>v. cbind (to_int (v * 1024)) (\<lambda>x.
                 cbind (ALIGN x page_size) (\<lambda>y. Ret (drop_bit 10 y))))) (\<lambda>kbytes.
     if kbytes \<le> 0 \<or> kbytes > 10240 then Exit 0 else
       Ret (e\<lparr>g_worker_processes := processes, g_worker_connections := connections,
              g_coro_stack_kbytes := kbytes\<rparr>)))))))"

text \<open>The loop over the array of \<open>listen\<close>: \<open>loop\<close> and \<open>head\<close> are positions in it, and reading past its end
  is undefined.\<close>

function listen_loop :: "nat \<Rightarrow> nat \<Rightarrow> nat option \<Rightarrow> u8 list \<Rightarrow> (nat \<times> nat option \<times> u8 list) cres" where
  "listen_loop loop head addr v =
     (if loop \<ge> length v then UB
      else if v ! loop = 0 then Ret (head, addr, v)
      else if v ! loop = ch_colon then listen_loop (loop + 1) (loop + 1) (Some head) (v[loop := 0])
      else listen_loop (loop + 1) head addr v)"
  by pat_completeness auto
termination
  by (relation "measure (\<lambda>(loop, head, addr, v). length v - loop)") auto

definition set_server_env :: "conf list \<Rightarrow> env \<Rightarrow> (conf list \<times> env) cres" where
  "set_server_env config e =
     cbind (get_conf_entry config (lit ''listen'')) (\<lambda>i.
     cbind (listen_loop 0 0 None (cf_value (config ! i))) (\<lambda>(head, addr, v).
     cbind (atoi (cstr (drop head v))) (\<lambda>port.
     if port \<le> 0 then Exit 0
     else Ret (config[i := (config ! i)\<lparr>cf_value := v\<rparr>],
               e\<lparr>g_server_addr := map_option (\<lambda>p. cstr (drop p v)) addr, g_server_port := port\<rparr>))))"

definition conf_env_init :: "int \<Rightarrow> int \<Rightarrow> conf list \<Rightarrow> env \<Rightarrow> (conf list \<times> env) cres" where
  "conf_env_init ncpu page_size config e =
     cbind (set_log_env config e) (\<lambda>e1.
     cbind (set_worker_env ncpu page_size config e1) (\<lambda>e2.
       set_server_env config e2))"

declare listen_loop.simps [simp del]

subsection \<open>Numbers\<close>

lemma dec_digits_hd: "\<exists>d ds. dec_digits n = d # ds \<and> is_digit d"
proof -
  have "dec_digits n \<noteq> []" by (simp add: dec_digits.simps [of n])
  then obtain d ds where "dec_digits n = d # ds" by (cases "dec_digits n") auto
  moreover from this have "is_digit d" using dec_digits_digit [of d n] by simp
  ultimately show ?thesis by blast
qed

lemma digit_no_mark: "is_digit d \<Longrightarrow> \<not> isspace d \<and> d \<noteq> ch_dash \<and> d \<noteq> ch_plus \<and> d \<noteq> 0 \<and> d \<noteq> ch_colon"
  by (auto simp: is_digit_def isspace_def word_le_def)

lemma atoi_dec_digits: "atoi (dec_digits n) = to_int (int n)"
proof -
  from dec_digits_hd [of n] obtain d ds where d: "dec_digits n = d # ds" "is_digit d" by blast
  with digit_no_mark [OF d(2)] have "atoi (dec_digits n) = to_int (dec_value 0 (takeWhile is_digit (dec_digits n)))"
    by (simp add: atoi_def)
  moreover have "takeWhile is_digit (dec_digits n) = dec_digits n" using takeWhile_dec_digits [of "[]" n] by simp
  ultimately show ?thesis by (simp only: dec_value_dec_digits)
qed

lemma dec_digits_not_default: "dec_digits n \<noteq> lit ''default''"
  using dec_digits_hd [of n] by (auto simp: lit_def is_digit_def)

lemma and_not_mask: "x AND NOT (2 ^ p - 1) = x div 2 ^ p * (2 :: int) ^ p"
proof -
  have "x AND NOT (mask p) = push_bit p (drop_bit p x)"
    by (rule bit_eqI) (auto simp: bit_simps)
  then show ?thesis by (simp add: mask_eq_exp_minus_1 push_bit_eq_mult drop_bit_eq_div)
qed

lemma ALIGN_Ret: "ALIGN x (2 ^ p) = Ret y \<Longrightarrow> y = (x + (2 ^ p - 1)) div 2 ^ p * 2 ^ p"
  by (auto simp: ALIGN_def to_int_def and_not_mask split: if_splits)

lemma cbind_Ret_iff: "cbind x f = Ret y \<longleftrightarrow> (\<exists>z. x = Ret z \<and> f z = Ret y)"
  by (cases x) auto

lemma cbind_RetE: "cbind x f = Ret y \<Longrightarrow> (\<And>z. x = Ret z \<Longrightarrow> f z = Ret y \<Longrightarrow> P) \<Longrightarrow> P"
  by (cases x) auto

lemma check_RetE: "(if b then Exit n else x) = Ret y \<Longrightarrow> (\<not> b \<Longrightarrow> x = Ret y \<Longrightarrow> P) \<Longrightarrow> P"
  by (auto split: if_splits)

text \<open>The rounding of the stack size is to whole pages.\<close>

lemma stack_pages:
  assumes "10 \<le> p" and "y = (x + (2 ^ p - 1)) div 2 ^ p * (2 :: int) ^ p" and "k = drop_bit 10 y"
  shows "k * 1024 = y" and "2 ^ p dvd k * 1024"
proof -
  have "(2 :: int) ^ 10 dvd 2 ^ p" using assms(1) by (rule le_imp_power_dvd)
  then have "(2 :: int) ^ 10 dvd y" unfolding assms(2) by (rule dvd_mult)
  then show *: "k * 1024 = y" using assms(3) by (simp add: drop_bit_eq_div)
  show "2 ^ p dvd k * 1024" unfolding * assms(2) by simp
qed

subsection \<open>The address to listen on\<close>

lemma listen_loop_plain:
  assumes "v = pre @ host @ 0 # rest" and "0 \<notin> set host" and "ch_colon \<notin> set host"
  shows "listen_loop (length pre) h a v = Ret (h, a, v)"
  using assms
proof (induction host arbitrary: pre)
  case Nil
  then show ?case by (simp add: listen_loop.simps [of "length pre"] nth_append)
next
  case (Cons c host)
  from Cons.prems have "v ! length pre = c" "length pre < length v" by (simp_all add: nth_append)
  with Cons.prems Cons.IH [of "pre @ [c]"] show ?case by (auto simp: listen_loop.simps [of "length pre"])
qed

lemma listen_loop_colon:
  assumes "v = pre @ host @ ch_colon # port @ 0 # rest" and "0 \<notin> set host" and "ch_colon \<notin> set host"
    and "0 \<notin> set port" and "ch_colon \<notin> set port"
  shows "listen_loop (length pre) h a v =
    Ret (length pre + length host + 1, Some h, pre @ host @ 0 # port @ 0 # rest)"
  using assms
proof (induction host arbitrary: pre)
  case Nil
  from Nil.prems listen_loop_plain [of "v[length pre := 0]" "pre @ [0]" port rest "Suc (length pre)" "Some h"]
  show ?case by (simp add: listen_loop.simps [of "length pre"] nth_append list_update_append)
next
  case (Cons c host)
  from Cons.prems have "v ! length pre = c" "length pre < length v" by (simp_all add: nth_append)
  with Cons.prems Cons.IH [of "pre @ [c]"] show ?case by (auto simp: listen_loop.simps [of "length pre"])
qed

lemma listen_loop_total:
  assumes "loop < length v" and "0 \<in> set (drop loop v)" and "head \<le> loop"
  shows "\<exists>head' addr' v'. listen_loop loop head addr v = Ret (head', addr', v') \<and> length v' = length v \<and>
    head' < length v' \<and> 0 \<in> set v'"
  using assms
proof (induction loop head addr v rule: listen_loop.induct)
  case (1 loop head addr v)
  show ?case
  proof (cases "v ! loop = 0")
    case True
    with "1.prems" nth_mem [of loop v] show ?thesis by (simp add: listen_loop.simps [of loop])
  next
    case False
    have d: "drop loop v = v ! loop # drop (Suc loop) v" using "1.prems"(1) by (simp add: Cons_nth_drop_Suc)
    with False "1.prems"(2) have z: "0 \<in> set (drop (Suc loop) v)" by auto
    then have l: "Suc loop < length v" by (cases "Suc loop < length v") auto
    from z have z': "0 \<in> set (drop (Suc loop) (v[loop := 0]))" by simp
    show ?thesis
      using "1.IH"(1) [of] "1.IH"(2) "1.prems" False l z z' by (auto simp: listen_loop.simps [of loop])
  qed
qed

subsection \<open>What the settings satisfy\<close>

definition conf_wf :: "conf list \<Rightarrow> bool" where
  "conf_wf config \<longleftrightarrow> (\<forall>c \<in> set config. 0 \<in> set (cf_value c))"

definition env_ok :: "int \<Rightarrow> env \<Rightarrow> bool" where
  "env_ok page_size e \<longleftrightarrow> 0 \<le> g_worker_processes e \<and> g_worker_processes e \<le> MAX_WORKER_PROCESS \<and>
     0 < g_worker_connections e \<and> 0 < g_coro_stack_kbytes e \<and> g_coro_stack_kbytes e \<le> 10240 \<and>
     page_size dvd g_coro_stack_kbytes e * 1024 \<and> 0 < g_server_port e \<and> g_server_port e \<le> INT_MAX"

lemma get_conf_entry_less: "get_conf_entry config k = Ret i \<Longrightarrow> i < length config"
  by (induction config arbitrary: i) (auto simp: cbind_Ret_iff split: if_splits)

lemma atoi_range: "atoi s = Ret v \<Longrightarrow> int_range v"
  by (auto simp: atoi_def to_int_def Let_def split: if_splits)

lemma set_worker_env_ok:
  assumes "10 \<le> p" and "set_worker_env ncpu (2 ^ p) config e = Ret e'"
  shows "0 \<le> g_worker_processes e' \<and> g_worker_processes e' \<le> MAX_WORKER_PROCESS \<and> 0 < g_worker_connections e' \<and>
    0 < g_coro_stack_kbytes e' \<and> g_coro_stack_kbytes e' \<le> 10240 \<and> 2 ^ p dvd g_coro_stack_kbytes e' * 1024 \<and>
    g_log_path e' = g_log_path e \<and> g_log_strlevel e' = g_log_strlevel e"
proof -
  from assms(2) obtain c processes connections kbytes where
    k: "(if str_equal c (lit ''default'') then Ret (drop_bit 10 (2 ^ p))
         else cbind (atoi c) (\<lambda>v. cbind (to_int (v * 1024)) (\<lambda>x.
              cbind (ALIGN x (2 ^ p)) (\<lambda>y. Ret (drop_bit 10 y))))) = Ret kbytes"
    and b: "\<not> (processes < 0 \<or> processes > MAX_WORKER_PROCESS)" "\<not> connections \<le> 0" "\<not> (kbytes \<le> 0 \<or> kbytes > 10240)"
      "Ret (e\<lparr>g_worker_processes := processes, g_worker_connections := connections, g_coro_stack_kbytes := kbytes\<rparr>) = Ret e'"
    unfolding set_worker_env_def by (elim cbind_RetE check_RetE) (rule that; assumption)
  have "2 ^ p dvd kbytes * 1024"
  proof (cases "str_equal c (lit ''default'')")
    case True
    have "(2 :: int) ^ p = (0 + (2 ^ p - 1) + 1) div 2 ^ p * 2 ^ p" by simp
    with k True stack_pages(2) [OF assms(1), of "2 ^ p" 1 kbytes] show ?thesis by simp
  next
    case False
    with k obtain x y where "ALIGN x (2 ^ p) = Ret y" "kbytes = drop_bit 10 y" by (auto simp: cbind_Ret_iff)
    with stack_pages(2) [OF assms(1) ALIGN_Ret] show ?thesis by blast
  qed
  with b show ?thesis by (auto simp: not_le not_less)
qed

lemma set_server_env_ok:
  assumes "conf_wf config" and "set_server_env config e = Ret (config', e')"
  shows "0 < g_server_port e' \<and> g_server_port e' \<le> INT_MAX \<and> conf_wf config' \<and> length config' = length config \<and>
    (\<exists>a p. e' = e\<lparr>g_server_addr := a, g_server_port := p\<rparr>)"
proof -
  from assms(2) obtain i z port where i: "get_conf_entry config (lit ''listen'') = Ret i"
    and run: "listen_loop 0 0 None (cf_value (config ! i)) = Ret z"
    and port: "atoi (cstr (drop (fst z) (snd (snd z)))) = Ret port" "\<not> port \<le> 0"
    and res: "Ret (config[i := (config ! i)\<lparr>cf_value := snd (snd z)\<rparr>],
      e\<lparr>g_server_addr := map_option (\<lambda>p. cstr (drop p (snd (snd z)))) (fst (snd z)), g_server_port := port\<rparr>) = Ret (config', e')"
    unfolding set_server_env_def case_prod_beta by (elim cbind_RetE check_RetE) (rule that; assumption)
  from get_conf_entry_less [OF i] assms(1) have "0 \<in> set (cf_value (config ! i))" by (simp add: conf_wf_def)
  with listen_loop_total [of 0 "cf_value (config ! i)" 0 None] run have "0 \<in> set (snd (snd z))" by force
  then have "conf_wf config'" using res assms(1) by (auto simp: conf_wf_def dest!: subsetD [OF set_update_subset_insert])
  with res port atoi_range [OF port(1)] show ?thesis by (auto simp: int_range_def)
qed

text \<open>The settings a server runs with are always in range, whatever the configuration says: between 0 and 64
  workers, at least one connection, a coroutine stack of whole pages of at most 10 MiB, and a positive
  port. Reading the configuration stays inside its arrays, and ends the process or is undefined only
  by a missing key, an unacceptable number, or a number that does not fit an \<open>int\<close>.\<close>

theorem conf_env_settings_in_range:
  assumes "conf_wf config" and "10 \<le> p" and "conf_env_init ncpu (2 ^ p) config e = Ret (config', e')"
  shows "env_ok (2 ^ p) e' \<and> conf_wf config' \<and>
    conf_string config ''log_path'' = Ret (g_log_path e') \<and> conf_string config ''log_level'' = Ret (g_log_strlevel e')"
proof -
  from assms(3) obtain e1 e2 where e1: "set_log_env config e = Ret e1" and e2: "set_worker_env ncpu (2 ^ p) config e1 = Ret e2"
    and e3: "set_server_env config e2 = Ret (config', e')" by (auto simp: conf_env_init_def cbind_Ret_iff)
  from e1 have log: "conf_string config ''log_path'' = Ret (g_log_path e1)" "conf_string config ''log_level'' = Ret (g_log_strlevel e1)"
    by (auto simp: set_log_env_def cbind_Ret_iff)
  with log set_worker_env_ok [OF assms(2) e2] set_server_env_ok [OF assms(1) e3] show ?thesis
    unfolding env_ok_def by (elim conjE exE) simp
qed

text \<open>A configuration as \<open>load_conf\<close> leaves it holds the value \<open>v\<close> for the key \<open>k\<close>.\<close>

definition holds_value :: "conf list \<Rightarrow> string \<Rightarrow> u8 list \<Rightarrow> bool" where
  "holds_value config k v \<longleftrightarrow> (\<exists>i. get_conf_entry config (lit k) = Ret i \<and> conf_value config i = v)"

lemma conf_string_value: "holds_value config k v \<Longrightarrow> conf_string config k = Ret v"
  by (auto simp: holds_value_def conf_string_def)

lemma cstr_split: "0 \<in> set bs \<Longrightarrow> \<exists>rest. bs = cstr bs @ 0 # rest"
  by (induction bs) (auto simp: cstr_def)

lemma zero_not_in_cstr: "0 \<notin> set (cstr bs)"
  by (auto simp: cstr_def dest: set_takeWhileD)

lemma set_server_env_value:
  assumes "conf_wf config" and "holds_value config ''listen'' (addr @ ch_colon # dec_digits port)"
    and "ch_colon \<notin> set addr" and "0 < port" and "int port \<le> INT_MAX"
  shows "\<exists>config'. set_server_env config e = Ret (config', e\<lparr>g_server_addr := Some addr, g_server_port := int port\<rparr>)"
proof -
  from assms(2) obtain i where i: "get_conf_entry config (lit ''listen'') = Ret i"
    and v: "cstr (cf_value (config ! i)) = addr @ ch_colon # dec_digits port"
    by (auto simp: holds_value_def conf_value_def)
  from get_conf_entry_less [OF i] assms(1) have "0 \<in> set (cf_value (config ! i))" by (simp add: conf_wf_def)
  from cstr_split [OF this] v obtain rest where
    c: "cf_value (config ! i) = [] @ addr @ ch_colon # dec_digits port @ 0 # rest" by auto
  from zero_not_in_cstr [of "cf_value (config ! i)"] v have z: "0 \<notin> set addr" by auto
  have d: "0 \<notin> set (dec_digits port)" "ch_colon \<notin> set (dec_digits port)"
    using dec_digits_digit digit_no_mark by blast+
  from listen_loop_colon [OF c z assms(3) d, of 0 None]
  have run: "listen_loop 0 0 None (cf_value (config ! i)) =
    Ret (length addr + 1, Some 0, addr @ 0 # dec_digits port @ 0 # rest)" by simp
  have "atoi (cstr (drop (length addr + 1) (addr @ 0 # dec_digits port @ 0 # rest))) = Ret (int port)"
    using assms(5) by (simp add: cstr_snoc [OF d(1)] atoi_dec_digits to_int_def int_range_def INT_MAX_def)
  with i run assms(4) show ?thesis
    by (simp add: set_server_env_def cstr_snoc [OF z])
qed

lemma set_worker_env_value:
  assumes "holds_value config ''worker_processes'' (dec_digits w)" and "int w \<le> MAX_WORKER_PROCESS"
    and "holds_value config ''worker_connections'' (dec_digits c)" and "0 < c" and "int c \<le> INT_MAX"
    and "holds_value config ''coroutine_stack_kbytes'' (dec_digits k)" and "0 < k" and "k \<le> 10240"
    and "10 \<le> p" and "p \<le> 20"
  shows "set_worker_env ncpu (2 ^ p) config e = Ret (e\<lparr>g_worker_processes := int w, g_worker_connections := int c,
    g_coro_stack_kbytes := (int k * 1024 + (2 ^ p - 1)) div 2 ^ p * 2 ^ p div 1024\<rparr>)"
proof -
  let ?y = "(int k * 1024 + (2 ^ p - 1)) div 2 ^ p * (2 :: int) ^ p"
  have p: "(2 :: int) ^ p \<le> 2 ^ 20" using assms(10) by (intro power_increasing) auto
  have q: "(2 :: int) ^ p dvd 10240 * 1024"
  proof -
    have "(2 :: int) ^ p dvd 2 ^ 20" using assms(10) by (rule le_imp_power_dvd)
    moreover have "(2 :: int) ^ 20 dvd 10240 * 1024" by simp
    ultimately show ?thesis by (rule dvd_trans)
  qed
  then obtain m :: int where m: "10240 * 1024 = 2 ^ p * m" by (rule dvdE)
  have y: "?y div 1024 * 1024 = ?y" using stack_pages(1) [OF assms(9) refl refl, of "int k * 1024"] by (simp add: drop_bit_eq_div)
  have ge: "int k * 1024 \<le> ?y"
    using div_mult_mod_eq [of "int k * 1024 + (2 ^ p - 1)" "2 ^ p"]
      pos_mod_bound [of "2 ^ p" "int k * 1024 + (2 ^ p - 1)", OF zero_less_power [OF zero_less_numeral]] by linarith
  have "(int k * 1024 + (2 ^ p - 1)) div 2 ^ p \<le> (10240 * 1024 + (2 ^ p - 1)) div (2 :: int) ^ p"
    using assms(8) by (intro zdiv_mono1) simp_all
  also have "\<dots> = m" unfolding m by (simp add: div_add1_eq)
  finally have "?y \<le> m * 2 ^ p" by (rule mult_right_mono) simp
  then have "?y \<le> 10240 * 1024" unfolding m by (simp only: mult.commute)
  with y ge assms(7) have b: "0 < ?y div 1024" "?y div 1024 \<le> 10240" by linarith+
  have al: "ALIGN (int k * 1024) (2 ^ p) = Ret ?y"
    using assms(8) p by (simp add: ALIGN_def to_int_def int_range_def INT_MAX_def and_not_mask)
  have ti: "to_int (int k) = Ret (int k)" "to_int (int k * 1024) = Ret (int k * 1024)" "to_int (int c) = Ret (int c)"
    "to_int (int w) = Ret (int w)"
    using assms(2,5,8) by (simp_all add: to_int_def int_range_def INT_MAX_def MAX_WORKER_PROCESS_def)
  note strings = conf_string_value [OF assms(1)] conf_string_value [OF assms(3)] conf_string_value [OF assms(6)]
  show ?thesis
    unfolding set_worker_env_def strings cbind.simps str_equal_def if_not_P [OF dec_digits_not_default] atoi_dec_digits ti al
    using assms(2,4) b by (simp add: drop_bit_eq_div not_less not_le)
qed

lemma load_loop_wf: "load_loop s head a = Ret (head', a') \<Longrightarrow> conf_wf head \<Longrightarrow> conf_wf head'"
proof (induction s head a arbitrary: head' a' rule: load_loop.induct)
  case (2 c s head a)
  obtain buff s' where f: "fgets 511 (c # s) = (buff, s')" by (cases "fgets 511 (c # s)")
  from "2.prems"(1) f obtain h1 a1 where l: "load_line buff head a = Ret (h1, a1)" "load_loop s' h1 a1 = Ret (head', a')"
    by (auto simp: load_loop.simps elim!: cbind_RetE)
  from l(1) "2.prems"(2) have "conf_wf h1"
    by (auto simp: load_line_def conf_wf_def split: option.splits if_splits prod.splits)
  with "2.IH" [OF f [symmetric] l(2)] show ?case .
qed (auto simp: load_loop.simps)

lemma load_conf_wf: "load_conf file old a = Ret (config, a') \<Longrightarrow> conf_wf config"
  by (auto simp: load_conf_def conf_wf_def [of "[]"] elim!: cbind_RetE dest!: load_loop_wf split: option.splits)

text \<open>The entries of a file that set the server up.\<close>

definition file_sets :: "conf_line list \<Rightarrow> string \<Rightarrow> u8 list \<Rightarrow> bool" where
  "file_sets ls k v \<longleftrightarrow> map_of (rev (file_entries ls)) (lit k) = Some v"

text \<open>From the file to the settings: when the configuration file sets the documented keys to decimal numbers in
  the documented ranges and \<open>listen\<close> to an address and a port, the server starts with exactly these
  settings; the stack size is rounded up to whole pages.\<close>

theorem conf_file_gives_settings:
  assumes "list_all line_fine ls" and "alloc_ok a" and "a_supply a = ps @ qs" and "length ps = length (file_entries ls)"
    and "fresh_blocks ps a"
    and "file_sets ls ''log_path'' path" and "file_sets ls ''log_level'' level"
    and "file_sets ls ''worker_processes'' (dec_digits w)" and "int w \<le> MAX_WORKER_PROCESS"
    and "file_sets ls ''worker_connections'' (dec_digits c)" and "0 < c" and "int c \<le> INT_MAX"
    and "file_sets ls ''coroutine_stack_kbytes'' (dec_digits k)" and "0 < k" and "k \<le> 10240"
    and "file_sets ls ''listen'' (addr @ ch_colon # dec_digits port)" and "ch_colon \<notin> set addr"
    and "0 < port" and "int port \<le> INT_MAX" and "10 \<le> p" and "p \<le> 20"
  shows "\<exists>config a' config'. load_conf (Some (file_text ls)) [] a = Ret (config, a') \<and>
    conf_env_init ncpu (2 ^ p) config e = Ret (config', \<lparr>g_log_path = path, g_log_strlevel = level,
      g_worker_processes = int w, g_worker_connections = int c,
      g_coro_stack_kbytes = (int k * 1024 + (2 ^ p - 1)) div 2 ^ p * 2 ^ p div 1024,
      g_server_addr = Some addr, g_server_port = int port\<rparr>)"
proof -
  from load_conf_lines [OF assms(1-5), of "[]"] obtain config a' where load: "load_conf (Some (file_text ls)) [] a = Ret (config, a')"
    and look: "\<forall>k. case map_of (rev (file_entries ls)) k of
       None \<Rightarrow> get_conf_entry config k = Exit 0
     | Some v \<Rightarrow> \<exists>i. get_conf_entry config k = Ret i \<and> conf_value config i = v" by auto
  have sets: "holds_value config k v" if "file_sets ls k v" for k v
    using look [rule_format, of "lit k"] that by (simp add: file_sets_def holds_value_def)
  let ?e1 = "e\<lparr>g_log_path := path, g_log_strlevel := level\<rparr>"
  let ?e2 = "?e1\<lparr>g_worker_processes := int w, g_worker_connections := int c,
    g_coro_stack_kbytes := (int k * 1024 + (2 ^ p - 1)) div 2 ^ p * 2 ^ p div 1024\<rparr>"
  have "set_log_env config e = Ret ?e1"
    by (simp add: set_log_env_def conf_string_value [OF sets [OF assms(6)]] conf_string_value [OF sets [OF assms(7)]])
  moreover have "set_worker_env ncpu (2 ^ p) config ?e1 = Ret ?e2"
    using set_worker_env_value [OF sets [OF assms(8)] assms(9) sets [OF assms(10)] assms(11,12) sets [OF assms(13)] assms(14,15,20,21)] .
  moreover obtain config' where "set_server_env config ?e2 =
      Ret (config', ?e2\<lparr>g_server_addr := Some addr, g_server_port := int port\<rparr>)"
    using set_server_env_value [OF load_conf_wf [OF load] sets [OF assms(16)] assms(17-19)] by blast
  ultimately show ?thesis using load by (simp add: conf_env_init_def)
qed

text \<open>A complete file.\<close>

definition entry_line :: "string \<Rightarrow> string \<Rightarrow> conf_line" where
  "entry_line k v = Entry [] (lit k) (lit '' = '') (lit v) []"

definition test_conf :: "conf_line list" where
  "test_conf = [entry_line ''log_path'' ''/tmp/cserv.log'', entry_line ''log_level'' ''CRIT'',
     entry_line ''worker_processes'' ''4'', entry_line ''worker_connections'' ''1024'',
     entry_line ''coroutine_stack_kbytes'' ''5'', entry_line ''listen'' ''127.0.0.1:8081'']"

definition test_supply :: allocator where
  "test_supply = \<lparr>a_supply = [100, 200, 300, 400, 500, 600], a_live = []\<rparr>"

definition zero_env :: env where
  "zero_env = \<lparr>g_log_path = [], g_log_strlevel = [], g_worker_processes = 0, g_worker_connections = 0,
     g_coro_stack_kbytes = 0, g_server_addr = None, g_server_port = 0\<rparr>"

lemma test_conf_fine: "list_all line_fine test_conf"
  by (simp add: test_conf_def entry_line_def lit_def CONF_KV_LEN_def gap_byte_def word_byte_def isspace_def
      isprint_def plain_def)

lemma test_conf_entries: "file_entries test_conf = map (\<lambda>(k, v). (lit k, lit v))
   [(''log_path'', ''/tmp/cserv.log''), (''log_level'', ''CRIT''), (''worker_processes'', ''4''),
    (''worker_connections'', ''1024''), (''coroutine_stack_kbytes'', ''5''), (''listen'', ''127.0.0.1:8081'')]"
  by (simp add: file_entries_def test_conf_def entry_line_def map_filter_simps)

lemma test_digits: "dec_digits 4 = lit ''4''" "dec_digits 1024 = lit ''1024''" "dec_digits 5 = lit ''5''" "dec_digits 8081 = lit ''8081''"
  by (simp_all add: dec_digits.simps lit_def)

lemma test_conf_sets:
  "file_sets test_conf ''log_path'' (lit ''/tmp/cserv.log'')" "file_sets test_conf ''log_level'' (lit ''CRIT'')"
  "file_sets test_conf ''worker_processes'' (dec_digits 4)" "file_sets test_conf ''worker_connections'' (dec_digits 1024)"
  "file_sets test_conf ''coroutine_stack_kbytes'' (dec_digits 5)"
  "file_sets test_conf ''listen'' (lit ''127.0.0.1'' @ ch_colon # dec_digits 8081)"
  unfolding file_sets_def test_conf_entries test_digits by (simp_all add: lit_def)

theorem conf_file_gives_settings_witness:
  "\<exists>config a' config'. load_conf (Some (file_text test_conf)) [] test_supply = Ret (config, a') \<and>
    conf_env_init 8 4096 config zero_env = Ret (config', \<lparr>g_log_path = lit ''/tmp/cserv.log'', g_log_strlevel = lit ''CRIT'',
      g_worker_processes = 4, g_worker_connections = 1024, g_coro_stack_kbytes = 8,
      g_server_addr = Some (lit ''127.0.0.1''), g_server_port = 8081\<rparr>)"
proof -
  have al: "alloc_ok test_supply" "a_supply test_supply = [100, 200, 300, 400, 500, 600] @ []"
    by (simp_all add: test_supply_def alloc_ok_def)
  have len: "length [100, 200, 300, 400, 500, 600 :: nat] = length (file_entries test_conf)"
    "fresh_blocks [100, 200, 300, 400, 500, 600] test_supply" unfolding test_conf_entries by (simp_all add: fresh_blocks_def test_supply_def)
  have "ch_colon \<notin> set (lit ''127.0.0.1'')" by (simp add: lit_def)
  from conf_file_gives_settings [OF test_conf_fine al len test_conf_sets(1,2,3) _ test_conf_sets(4) _ _ test_conf_sets(5) _ _
      test_conf_sets(6) this, of 12 8 zero_env]
  show ?thesis by (simp add: MAX_WORKER_PROCESS_def INT_MAX_def)
qed

text \<open>The same configuration as a list, for the range of its settings.\<close>

theorem conf_env_settings_in_range_witness:
  "\<exists>config config' e'. conf_env_init 8 (2 ^ 12) config zero_env = Ret (config', e') \<and> env_ok (2 ^ 12) e'"
proof -
  let ?config = "map (\<lambda>(k, v). \<lparr>cf_addr = 0, cf_key = lit k @ [0], cf_value = lit v @ [0]\<rparr>)
   [(''log_path'', ''/tmp/cserv.log''), (''log_level'', ''CRIT''), (''worker_processes'', ''default''),
    (''worker_connections'', ''1024''), (''coroutine_stack_kbytes'', ''default''), (''listen'', ''8081'')]"
  have wf: "conf_wf ?config" by (simp add: conf_wf_def)
  have "(case conf_env_init 8 (2 ^ 12) ?config zero_env of Ret _ \<Rightarrow> True | _ \<Rightarrow> False)" by code_simp
  then obtain config' e' where run: "conf_env_init 8 (2 ^ 12) ?config zero_env = Ret (config', e')" by (auto split: cres.splits)
  from conf_env_settings_in_range [OF wf _ run] run show ?thesis by auto
qed

end
