(* ===== verification/System.thy ===== *)
theory System
  imports Env
begin

text \<open>
  \<open>util/system.c\<close>: the file with the pid of the master, the title of a process, limits and time. The results of system calls are
  arguments. The title of a process is written over its arguments, after these and the environment have been moved to the heap.
\<close>

subsection \<open>Processes\<close>

definition bind_cpu :: "(int set \<Rightarrow> int) \<Rightarrow> int \<Rightarrow> int" where
  "bind_cpu setaffinity cpuid = (if setaffinity {cpuid} = -1 then -1 else 0)"

text \<open>\<open>pid\<close> is the result of \<open>fork\<close>: the parent ends, the child goes on, and so does a process that cannot fork.\<close>

definition sys_daemon :: "int \<Rightarrow> unit cres" where
  "sys_daemon pid = (if pid > 0 then Exit 0 else Ret ())"

text \<open>Whether each of the calls succeeds; the limits that are set.\<close>

definition sys_rlimit_init :: "bool \<Rightarrow> bool \<Rightarrow> bool \<Rightarrow> bool \<Rightarrow> (nat option \<times> bool) cres" where
  "sys_rlimit_init get_nofile set_nofile get_core set_core =
     cbind (if get_nofile then if \<not> set_nofile then Exit 0 else Ret (Some 100000) else Ret None) (\<lambda>nofile.
     cbind (if get_core then if \<not> set_core then Exit 0 else Ret True else Ret False) (\<lambda>unlimited_core.
       Ret (nofile, unlimited_core)))"

definition get_curr_mseconds :: "int \<times> int \<Rightarrow> int" where
  "get_curr_mseconds tv = fst tv * 1000 + snd tv div 1000"

subsection \<open>The file with the pid\<close>

text \<open>\<open>%d\<close>\<close>

definition print_d :: "int \<Rightarrow> u8 list" where
  "print_d n = (if n < 0 then ch_dash # dec_digits (nat (- n)) else dec_digits (nat n))"

text \<open>The contents of the file, \<open>None\<close> if there is none; \<open>writable\<close> tells whether \<open>fopen\<close> succeeds.\<close>

definition create_pidfile :: "bool \<Rightarrow> int \<Rightarrow> u8 list option cres" where
  "create_pidfile writable pid = (if \<not> writable then Exit 0 else Ret (Some (print_d pid)))"

definition read_pidfile :: "u8 list option \<Rightarrow> int cres" where
  "read_pidfile pidfile =
     (case pidfile of
        None \<Rightarrow> Exit 0
      | Some s \<Rightarrow> (case fgets 30 s of (buff, _) \<Rightarrow> if buff = [] then Exit 0 else atoi (cstr buff)))"

definition delete_pidfile :: "u8 list option \<Rightarrow> u8 list option" where
  "delete_pidfile pidfile = None"

subsection \<open>The title of a process\<close>

text \<open>\<open>None\<close>: there is no NUL.\<close>

partial_function (option) strlen :: "mem \<Rightarrow> ptr \<Rightarrow> nat option" where
  "strlen m p = (if m p = 0 then Some 0 else Option.bind (strlen m (Suc p)) (\<lambda>n. Some (Suc n)))"

declare strlen.simps [code]

fun strings_len :: "mem \<Rightarrow> ptr list \<Rightarrow> nat option" where
  "strings_len m [] = Some 0"
| "strings_len m (a # as) = Option.bind (strlen m a) (\<lambda>n. Option.bind (strings_len m as) (\<lambda>k. Some (n + 1 + k)))"

text \<open>The loops that set the pointers to the copies: the new pointers and \<open>len\<close>.\<close>

fun move_strings :: "mem \<Rightarrow> ptr \<Rightarrow> ptr list \<Rightarrow> nat \<Rightarrow> (ptr list \<times> nat) option" where
  "move_strings m p [] len = Some ([], len)"
| "move_strings m p (a # as) len =
     Option.bind (strlen m (p + len)) (\<lambda>n.
     Option.bind (move_strings m p as (len + n + 1)) (\<lambda>(as', len'). Some ((p + len) # as', len')))"

text \<open>\<open>alloc\<close> is \<open>malloc\<close>; \<open>argv\<close> and \<open>environ\<close> are the pointers before the null pointer that ends them.\<close>

definition proc_title_init :: "(nat \<Rightarrow> ptr) \<Rightarrow> ptr list \<Rightarrow> ptr list \<Rightarrow> mem \<Rightarrow> (ptr list \<times> ptr list \<times> mem) cres option" where
  "proc_title_init alloc argv environ m =
     Option.bind (strings_len m (tl argv)) (\<lambda>len1.
     Option.bind (strings_len m environ) (\<lambda>len2.
       let len = len1 + len2; p = alloc len
       in if p = 0 then Some (Exit 0)
          else
            let m1 = mem_write m p (bytes_at m (case tl argv of a # _ \<Rightarrow> a | [] \<Rightarrow> hd environ) len)
            in Option.bind (move_strings m1 p (tl argv) 0) (\<lambda>(args, len').
               Option.bind (move_strings m1 p environ len') (\<lambda>(envs, _).
                 Some (Ret (hd argv # args, envs, m1))))))"

text \<open>\<open>strcpy\<close> over the first argument: \<open>lim\<close> is the end of the area with the strings of \<open>argv\<close> and \<open>environ\<close>; a name that reaches beyond it
  is undefined behaviour.\<close>

definition set_proc_title :: "ptr \<Rightarrow> ptr list \<Rightarrow> u8 list \<Rightarrow> mem \<Rightarrow> mem cres" where
  "set_proc_title lim argv name m =
     (if hd argv + length name + 1 \<le> lim then Ret (mem_write m (hd argv) (name @ [0])) else UB)"

subsection \<open>Strings in memory\<close>

definition str_at :: "mem \<Rightarrow> ptr \<Rightarrow> u8 list \<Rightarrow> bool" where
  "str_at m p s \<longleftrightarrow> bytes_at m p (Suc (length s)) = s @ [0] \<and> 0 \<notin> set s"

text \<open>Strings one after the other from \<open>p\<close> on: their pointers and their bytes.\<close>

fun laid_out :: "ptr \<Rightarrow> u8 list list \<Rightarrow> ptr list" where
  "laid_out p [] = []"
| "laid_out p (s # ss) = p # laid_out (p + length s + 1) ss"

definition area :: "u8 list list \<Rightarrow> u8 list" where
  "area ss = concat (map (\<lambda>s. s @ [0]) ss)"

lemma area_simps [simp]: "area [] = []" "area (s # ss) = s @ 0 # area ss" "area (ss @ ts) = area ss @ area ts"
  by (simp_all add: area_def)

lemma strlen_str_at: "str_at m p s \<Longrightarrow> strlen m p = Some (length s)"
proof (induction s arbitrary: p)
  case Nil
  then have "m p = 0" by (simp add: str_at_def bytes_at_Suc)
  then show ?case by (simp add: strlen.simps)
next
  case (Cons c s)
  then have "m p = c" "c \<noteq> 0" "str_at m (Suc p) s" by (auto simp: str_at_def bytes_at_Suc)
  with Cons.IH [of "Suc p"] show ?case by (subst strlen.simps) simp
qed

lemma area_strings:
  assumes "bytes_at m p (length (area ss)) = area ss" and "\<forall>s \<in> set ss. 0 \<notin> set s"
  shows "list_all2 (str_at m) (laid_out p ss) ss"
  using assms
proof (induction ss arbitrary: p)
  case (Cons s ss)
  from Cons.prems(1) have "bytes_at m p (length (s @ [0]) + length (area ss)) = (s @ [0]) @ area ss" by simp
  from bytes_at_append_split [OF this] Cons show ?case by (simp add: str_at_def)
qed simp

lemma strings_len_area: "list_all2 (str_at m) ps ss \<Longrightarrow> strings_len m ps = Some (length (area ss))"
  by (induction ps ss rule: list_all2_induct) (simp_all add: strlen_str_at)

lemma move_strings_area:
  assumes "list_all2 (str_at m) (laid_out (p + len) ss) ss" and "length ps = length ss"
  shows "move_strings m p ps len = Some (laid_out (p + len) ss, len + length (area ss))"
  using assms
proof (induction ss arbitrary: ps len rule: list.induct)
  case (Cons s ss)
  then obtain q qs where ps: "ps = q # qs" by (cases ps) auto
  with Cons.prems have "strlen m (p + len) = Some (length s)" "list_all2 (str_at m) (laid_out (p + (len + length s + 1)) ss) ss"
    by (auto simp: strlen_str_at add.assoc)
  with Cons.IH [of "len + length s + 1" qs] Cons.prems(2) show ?case by (simp add: ps add.assoc)
qed simp

lemma length_laid_out [simp]: "length (laid_out p ss) = length ss"
  by (induction ss arbitrary: p) simp_all

lemma two_areas:
  assumes "bytes_at m p (length (area (ss @ ts))) = area (ss @ ts)" and "\<forall>s \<in> set (ss @ ts). 0 \<notin> set s"
  shows "list_all2 (str_at m) (laid_out p ss) ss" "list_all2 (str_at m) (laid_out (p + length (area ss)) ts) ts"
  using bytes_at_append_split [of m p "area ss" "area ts"] assms by (auto intro: area_strings)

lemma proc_title_init_copies:
  assumes "bytes_at m base (length (area (prog # args @ envs))) = area (prog # args @ envs)" and "\<forall>s \<in> set (args @ envs). 0 \<notin> set s"
    and "argv = base # laid_out (base + length prog + 1) args" and "environ = laid_out (base + length prog + 1 + length (area args)) envs"
    and "alloc (length (area (args @ envs))) = p" and "p \<noteq> 0"
  shows "proc_title_init alloc argv environ m =
    Some (Ret (base # laid_out p args, laid_out (p + length (area args)) envs, mem_write m p (area (args @ envs))))"
proof -
  let ?src = "base + length prog + 1" and ?all = "area (args @ envs)"
  from assms(1) have "bytes_at m base (length (prog @ [0]) + length ?all) = (prog @ [0]) @ ?all" by simp
  from bytes_at_append_split [OF this] have src: "bytes_at m ?src (length ?all) = ?all" by simp
  note strs = two_areas [OF _ assms(2)]
  let ?m1 = "mem_write m p ?all" and ?envs = "laid_out (p + length (area args)) envs"
  have copy: "bytes_at ?m1 p (length ?all) = ?all" by (rule bytes_at_mem_write)
  have first: "?all \<noteq> [] \<Longrightarrow> (case tl argv of a # _ \<Rightarrow> a | [] \<Rightarrow> hd environ) = ?src" using assms(3,4) by (cases args; cases envs) simp_all
  then have bytes: "bytes_at m (case tl argv of a # _ \<Rightarrow> a | [] \<Rightarrow> hd environ) (length ?all) = ?all" using src by (cases "?all = []") simp_all
  have lens: "strings_len m (tl argv) = Some (length (area args))" "strings_len m environ = Some (length (area envs))"
    using strings_len_area [OF strs(1) [OF src]] strings_len_area [OF strs(2) [OF src]] assms(3,4) by simp_all
  have moves: "move_strings ?m1 p (tl argv) 0 = Some (laid_out p args, length (area args))"
    "move_strings ?m1 p environ (length (area args)) = Some (?envs, length (area args) + length (area envs))"
    using move_strings_area [of ?m1 p 0 args "tl argv"] move_strings_area [of ?m1 p "length (area args)" envs environ] strs [OF copy] assms(3,4) by simp_all
  have len: "length (area args) + length (area envs) = length ?all" by simp
  show ?thesis
    unfolding proc_title_init_def lens bind.bind_lunit Let_def len assms(5) bytes moves using assms(3,6) by (simp add: moves [simplified])
qed

text \<open>The first argument stays where it is.\<close>

lemma proc_title_init_first:
  assumes "proc_title_init alloc argv environ m = Some (Ret t)"
  shows "hd (fst t) = hd argv"
  using assms by (auto simp: proc_title_init_def Let_def bind_eq_Some_conv split: if_splits)

subsection \<open>Reading the pid back\<close>

lemma fgets_all: "LF \<notin> set s \<Longrightarrow> length s \<le> n \<Longrightarrow> fgets n s = (s, [])"
proof (induction s arbitrary: n)
  case Nil
  then show ?case by (cases n) simp_all
next
  case (Cons c s)
  then show ?case by (cases n) auto
qed

lemma length_dec_digits: "n < 10 ^ Suc k \<Longrightarrow> length (dec_digits n) \<le> Suc k"
proof (induction k arbitrary: n)
  case 0
  then show ?case by (simp add: dec_digits.simps [of n])
next
  case (Suc k)
  then have "n div 10 < 10 ^ Suc k" by (simp add: less_mult_imp_div_less)
  from Suc.IH [OF this] show ?case by (simp add: dec_digits.simps [of n])
qed

lemma dec_digits_clean: "0 \<notin> set (dec_digits n)" "LF \<notin> set (dec_digits n)"
  using dec_digits_digit [of _ n] by (fastforce simp: is_digit_def)+

lemma read_created_pid:
  assumes "0 < pid" and "pid \<le> INT_MAX"
  shows "cbind (create_pidfile True pid) read_pidfile = Ret pid"
proof -
  let ?s = "dec_digits (nat pid)"
  have "nat pid < 10 ^ Suc 9" using assms by (simp add: INT_MAX_def)
  from length_dec_digits [OF this] have "fgets 30 ?s = (?s, [])" by (intro fgets_all dec_digits_clean) simp
  moreover have "cstr ?s = ?s" using dec_digits_clean(1) [of "nat pid"] unfolding cstr_def takeWhile_eq_all_conv by metis
  moreover have "?s \<noteq> []" using dec_digits_hd [of "nat pid"] by auto
  moreover have "atoi ?s = Ret pid" using assms by (simp add: atoi_dec_digits to_int_def int_range_def INT_MAX_def)
  ultimately show ?thesis using assms(1) by (simp add: create_pidfile_def read_pidfile_def print_d_def)
qed

subsection \<open>Properties\<close>

text \<open>C29. Setting the title of a process destroys nothing: let the strings of \<open>argv\<close> and \<open>environ\<close> lie one behind the other, as the kernel
  puts them, and let \<open>malloc\<close> return a block apart from them. Then \<open>proc_title_init\<close> returns, and after a \<open>set_proc_title\<close> with a name that is
  shorter than that area, the name is the first argument, and all the other arguments and the environment are what they were.\<close>

theorem proc_title_keeps_strings:
  assumes "bytes_at m base (length (area (prog # args @ envs))) = area (prog # args @ envs)" and "\<forall>s \<in> set (prog # args @ envs). 0 \<notin> set s"
    and "argv = base # laid_out (base + length prog + 1) args" and "environ = laid_out (base + length prog + 1 + length (area args)) envs"
    and "alloc (length (area (args @ envs))) = p" and "p \<noteq> 0"
    and "p + length (area (args @ envs)) \<le> base \<or> base + length (area (prog # args @ envs)) \<le> p"
    and "length name < length (area (prog # args @ envs))" and "0 \<notin> set name"
  shows "\<exists>argv' environ' m' m''. proc_title_init alloc argv environ m = Some (Ret (argv', environ', m')) \<and>
    set_proc_title (base + length (area (prog # args @ envs))) argv' name m' = Ret m'' \<and>
    list_all2 (str_at m'') argv' (name # args) \<and> list_all2 (str_at m'') environ' envs"
proof -
  let ?all = "area (args @ envs)" and ?argv = "base # laid_out p args" and ?envs = "laid_out (p + length (area args)) envs"
  have clean: "\<forall>s \<in> set (args @ envs). 0 \<notin> set s" using assms(2) by simp
  note run = proc_title_init_copies [where alloc = alloc, OF assms(1) clean assms(3-6)]
  let ?m1 = "mem_write m p ?all" and ?m2 = "mem_write (mem_write m p ?all) base (name @ [0])"
  have title: "set_proc_title (base + length (area (prog # args @ envs))) ?argv name ?m1 = Ret ?m2"
    using assms(8) by (simp add: set_proc_title_def)
  have copy: "bytes_at ?m1 p (length ?all) = ?all" by (rule bytes_at_mem_write)
  have "bytes_at ?m2 p (length ?all) = bytes_at ?m1 p (length ?all)"
    by (rule bytes_at_cong) (use assms(7,8) in \<open>auto simp: mem_write_out\<close>)
  with copy have "bytes_at ?m2 p (length ?all) = ?all" by (rule trans [rotated])
  from two_areas [OF this clean] have "list_all2 (str_at ?m2) (laid_out p args) args" "list_all2 (str_at ?m2) ?envs envs" .
  moreover have "str_at ?m2 base name" using assms(9) bytes_at_mem_write [of ?m1 base "name @ [0]"] by (simp add: str_at_def)
  ultimately show ?thesis using run title by auto
qed

theorem proc_title_keeps_strings_witness:
  "\<exists>argv' environ' m' m''. proc_title_init (\<lambda>_. 5000) [1000, 1006] [1012, 1016] (mem_write (\<lambda>_. 0) 1000 (area (map lit [''cserv'', ''start'', ''A=1'', ''HOME=/'']))) =
      Some (Ret (argv', environ', m')) \<and>
    set_proc_title (1000 + length (area (lit ''cserv'' # [lit ''start''] @ [lit ''A=1'', lit ''HOME=/'']))) argv' (lit ''cserv: master process'') m' = Ret m'' \<and>
    list_all2 (str_at m'') argv' [lit ''cserv: master process'', lit ''start''] \<and> list_all2 (str_at m'') environ' [lit ''A=1'', lit ''HOME=/'']"
proof (rule proc_title_keeps_strings [where prog = "lit ''cserv''" and base = 1000 and p = 5000])
  show "bytes_at (mem_write (\<lambda>_. 0) 1000 (area (map lit [''cserv'', ''start'', ''A=1'', ''HOME=/'']))) 1000
      (length (area (lit ''cserv'' # [lit ''start''] @ [lit ''A=1'', lit ''HOME=/'']))) = area (lit ''cserv'' # [lit ''start''] @ [lit ''A=1'', lit ''HOME=/''])"
    by (simp only: list.map append.simps bytes_at_mem_write)
qed (simp_all add: lit_def)

end
