(* ===== verification/Net.thy ===== *)
theory Net
  imports System
begin

text \<open>
  \<open>util/net.h\<close> and the listening socket of \<open>process.c\<close>. A socket is what the kernel keeps of it; whether a call succeeds is an argument, and a
  call that succeeds has its documented effect on the socket. \<open>inet_pton\<close> is a parameter.
\<close>

unbundle bit_operations_syntax

record tcp_socket =
  sk_flags :: int
  sk_reuse :: bool
  sk_no_delay :: bool
  sk_keep_alive :: bool
  sk_keep_idle :: int
  sk_keep_intvl :: int
  sk_keep_cnt :: int
  sk_bound :: "(u32 \<times> u16) option"
  sk_backlog :: "int option"

definition O_NONBLOCK :: int where "O_NONBLOCK = 2048"

definition INADDR_ANY :: u32 where "INADDR_ANY = 0"

definition set_nonblock :: "bool \<Rightarrow> bool \<Rightarrow> tcp_socket \<Rightarrow> int \<times> tcp_socket" where
  "set_nonblock getfl setfl s =
     (if \<not> getfl then (-1, s)
      else if sk_flags s AND O_NONBLOCK \<noteq> 0 then (0, s)
      else if \<not> setfl then (-1, s)
      else (0, s\<lparr>sk_flags := sk_flags s OR O_NONBLOCK\<rparr>))"

definition enable_tcp_no_delay :: "bool \<Rightarrow> tcp_socket \<Rightarrow> int \<times> tcp_socket" where
  "enable_tcp_no_delay done_ok s = (if done_ok then (0, s\<lparr>sk_no_delay := True\<rparr>) else (-1, s))"

text \<open>\<open>interval\<close> is not negative, so that the division of C is \<open>div\<close>.\<close>

definition set_keep_alive :: "bool \<times> bool \<times> bool \<times> bool \<Rightarrow> int \<Rightarrow> tcp_socket \<Rightarrow> int \<times> tcp_socket" where
  "set_keep_alive oks interval s =
     (case oks of (alive, idle, intvl, cnt) \<Rightarrow>
        if \<not> alive then (-1, s)
        else let s1 = s\<lparr>sk_keep_alive := True\<rparr>
             in if \<not> idle then (-1, s1)
                else let s2 = s1\<lparr>sk_keep_idle := interval\<rparr>; val = interval div 3; val = (if val = 0 then 1 else val)
                     in if \<not> intvl then (-1, s2)
                        else let s3 = s2\<lparr>sk_keep_intvl := val\<rparr>
                             in if \<not> cnt then (-1, s3) else (0, s3\<lparr>sk_keep_cnt := 3\<rparr>))"

definition set_reuse_addr :: "bool \<Rightarrow> tcp_socket \<Rightarrow> int \<times> tcp_socket" where
  "set_reuse_addr done_ok s = (if \<not> done_ok then (-1, s) else (0, s\<lparr>sk_reuse := True\<rparr>))"

text \<open>\<open>peer\<close> is the address \<open>getpeername\<close> stores, if it succeeds; addresses are in network order, where 0 is 0.\<close>

definition fd_to_nl :: "u32 option \<Rightarrow> u32" where
  "fd_to_nl peer = (case peer of None \<Rightarrow> INADDR_ANY | Some a \<Rightarrow> a)"

definition ip_to_nl :: "(u8 list \<Rightarrow> u32 option) \<Rightarrow> u8 list option \<Rightarrow> u32" where
  "ip_to_nl inet_pton ip =
     (case ip of
        None \<Rightarrow> INADDR_ANY
      | Some t \<Rightarrow> (case inet_pton t of None \<Rightarrow> INADDR_ANY | Some a \<Rightarrow> a))"

text \<open>The results of the calls of \<open>create_tcp_server\<close>.\<close>

record server_calls =
  sc_socket :: int
  sc_reuse :: bool
  sc_getfl :: bool
  sc_setfl :: bool
  sc_bind :: bool
  sc_listen :: bool

definition new_socket :: tcp_socket where
  "new_socket = \<lparr>sk_flags = 2, sk_reuse = False, sk_no_delay = False, sk_keep_alive = False, sk_keep_idle = 7200, sk_keep_intvl = 75, sk_keep_cnt = 9,
     sk_bound = None, sk_backlog = None\<rparr>"

text \<open>\<open>htons\<close> takes 16 bits of the port.\<close>

definition create_tcp_server :: "(u8 list \<Rightarrow> u32 option) \<Rightarrow> server_calls \<Rightarrow> u8 list option \<Rightarrow> int \<Rightarrow> (int \<times> tcp_socket) cres" where
  "create_tcp_server inet_pton sc ip port =
     (let listenfd = sc_socket sc in
      if listenfd = -1 then Exit 0
      else case set_reuse_addr (sc_reuse sc) new_socket of (r1, s1) \<Rightarrow>
      if r1 \<noteq> 0 then Exit 0
      else case set_nonblock (sc_getfl sc) (sc_setfl sc) s1 of (r2, s2) \<Rightarrow>
      if r2 \<noteq> 0 then Exit 0
      else if \<not> sc_bind sc then Exit 0
      else let s3 = s2\<lparr>sk_bound := Some (ip_to_nl inet_pton ip, word_of_int port)\<rparr> in
      if \<not> sc_listen sc then Exit 0
      else Ret (listenfd, s3\<lparr>sk_backlog := Some 1000\<rparr>))"

subsection \<open>What the socket is\<close>

lemma or_nonblock: "x AND O_NONBLOCK = 0 \<Longrightarrow> (x OR O_NONBLOCK) AND O_NONBLOCK \<noteq> 0"
  by (simp add: O_NONBLOCK_def and.commute bit.conj_disj_distrib)

lemma set_nonblock_ok:
  assumes "set_nonblock getfl setfl s = (0, s')"
  shows "sk_flags s' AND O_NONBLOCK \<noteq> 0" and "s' = s\<lparr>sk_flags := sk_flags s OR O_NONBLOCK\<rparr> \<or> s' = s"
  using assms or_nonblock [of "sk_flags s"] by (auto simp: set_nonblock_def split: if_splits)

text \<open>A server socket is reusable, does not block, is bound to the address and listens.\<close>

definition listening :: "u32 \<Rightarrow> u16 \<Rightarrow> tcp_socket \<Rightarrow> bool" where
  "listening a port s \<longleftrightarrow> sk_reuse s \<and> sk_flags s AND O_NONBLOCK \<noteq> 0 \<and> sk_bound s = Some (a, port) \<and> sk_backlog s = Some 1000"

lemma create_tcp_server_listens:
  assumes "create_tcp_server inet_pton sc ip port = Ret (fd, s)"
  shows "fd = sc_socket sc" "fd \<noteq> -1" "listening (ip_to_nl inet_pton ip) (word_of_int port) s"
proof -
  from assms obtain s1 s2 where "set_reuse_addr (sc_reuse sc) new_socket = (0, s1)" and s2: "set_nonblock (sc_getfl sc) (sc_setfl sc) s1 = (0, s2)"
    and s: "s = s2\<lparr>sk_bound := Some (ip_to_nl inet_pton ip, word_of_int port), sk_backlog := Some 1000\<rparr>" and fd: "fd = sc_socket sc" "fd \<noteq> -1"
    by (auto simp: create_tcp_server_def Let_def split: prod.splits if_splits)
  then have "sk_reuse s1" by (auto simp: set_reuse_addr_def split: if_splits)
  with s s2 set_nonblock_ok [OF s2] show "listening (ip_to_nl inet_pton ip) (word_of_int port) s" by (auto simp: listening_def)
  show "fd = sc_socket sc" "fd \<noteq> -1" by fact+
qed

lemma create_tcp_server_ends:
  "create_tcp_server inet_pton sc ip port = Exit 0 \<or> (\<exists>fd s. create_tcp_server inet_pton sc ip port = Ret (fd, s))"
  by (auto simp: create_tcp_server_def Let_def split: prod.splits)

lemma create_tcp_server_works:
  assumes "sc_socket sc \<noteq> -1" "sc_reuse sc" "sc_getfl sc" "sc_setfl sc" "sc_bind sc" "sc_listen sc"
  shows "\<exists>s. create_tcp_server inet_pton sc ip port = Ret (sc_socket sc, s)"
  using assms by (auto simp: create_tcp_server_def Let_def set_reuse_addr_def set_nonblock_def)

end
