(* ===== verification/Linked_List.thy ===== *)
theory Linked_List
  imports Prelude
begin

text \<open>
  \<open>util/list.h\<close>: intrusive circular doubly linked lists. The state is the contents of the two
  pointer members of every \<open>struct list_head\<close>, addressed by the address of the structure; every
  operation is the sequence of assignments of the source, so aliasing (an insertion into an empty
  list, where \<open>prev\<close> and \<open>next\<close> are both the head) is what it is in C. The structures that embed a
  \<open>list_head\<close> have it as their first member, so \<open>container_of\<close> is the identity on addresses.

  \<open>dll h head xs\<close> says that the list at \<open>head\<close> holds exactly the entries \<open>xs\<close>, in both
  directions; the locale \<open>list_ops\<close> states what the operations promise in these terms.
\<close>

record links =
  l_next :: "ptr \<Rightarrow> ptr"
  l_prev :: "ptr \<Rightarrow> ptr"

subsection \<open>Operations\<close>

definition set_next :: "ptr \<Rightarrow> ptr \<Rightarrow> 'a links_scheme \<Rightarrow> 'a links_scheme" where
  "set_next a x h = h\<lparr>l_next := (l_next h)(a := x)\<rparr>"

definition set_prev :: "ptr \<Rightarrow> ptr \<Rightarrow> 'a links_scheme \<Rightarrow> 'a links_scheme" where
  "set_prev a x h = h\<lparr>l_prev := (l_prev h)(a := x)\<rparr>"

definition INIT_LIST_HEAD :: "ptr \<Rightarrow> 'a links_scheme \<Rightarrow> 'a links_scheme" where
  "INIT_LIST_HEAD l h = set_prev l l (set_next l l h)"

text \<open>\<open>__list_add\<close> and \<open>__list_del\<close>, one assignment after the other.\<close>

definition raw_list_add :: "ptr \<Rightarrow> ptr \<Rightarrow> ptr \<Rightarrow> 'a links_scheme \<Rightarrow> 'a links_scheme" where
  "raw_list_add newer prev nxt h =
     (let h1 = set_prev nxt newer h;
          h2 = set_next newer nxt h1;
          h3 = set_prev newer prev h2
      in set_next prev newer h3)"

definition list_add :: "ptr \<Rightarrow> ptr \<Rightarrow> 'a links_scheme \<Rightarrow> 'a links_scheme" where
  "list_add newer head h = raw_list_add newer head (l_next h head) h"

definition list_add_tail :: "ptr \<Rightarrow> ptr \<Rightarrow> 'a links_scheme \<Rightarrow> 'a links_scheme" where
  "list_add_tail newer head h = raw_list_add newer (l_prev h head) head h"

definition raw_list_del :: "ptr \<Rightarrow> ptr \<Rightarrow> 'a links_scheme \<Rightarrow> 'a links_scheme" where
  "raw_list_del prev nxt h = set_next prev nxt (set_prev nxt prev h)"

definition list_del :: "ptr \<Rightarrow> 'a links_scheme \<Rightarrow> 'a links_scheme" where
  "list_del entry h = raw_list_del (l_prev h entry) (l_next h entry) h"

definition list_del_init :: "ptr \<Rightarrow> 'a links_scheme \<Rightarrow> 'a links_scheme" where
  "list_del_init entry h = INIT_LIST_HEAD entry (raw_list_del (l_prev h entry) (l_next h entry) h)"

definition list_empty :: "ptr \<Rightarrow> 'a links_scheme \<Rightarrow> bool" where
  "list_empty head h \<longleftrightarrow> l_next h head = head"

definition list_first_entry :: "ptr \<Rightarrow> 'a links_scheme \<Rightarrow> ptr" where
  "list_first_entry head h = l_next h head"

lemmas list_op_defs = raw_list_add_def raw_list_del_def set_next_def set_prev_def INIT_LIST_HEAD_def

subsection \<open>Representation\<close>

text \<open>A segment: from \<open>p\<close>, over the entries \<open>xs\<close>, to \<open>q\<close>, linked in both directions.\<close>

fun lseg :: "'a links_scheme \<Rightarrow> ptr \<Rightarrow> ptr list \<Rightarrow> ptr \<Rightarrow> bool" where
  "lseg h p [] q \<longleftrightarrow> l_next h p = q \<and> l_prev h q = p"
| "lseg h p (x # xs) q \<longleftrightarrow> l_next h p = x \<and> l_prev h x = p \<and> lseg h x xs q"

definition dll :: "'a links_scheme \<Rightarrow> ptr \<Rightarrow> ptr list \<Rightarrow> bool" where
  "dll h head xs \<longleftrightarrow> lseg h head xs head \<and> distinct (head # xs)"

lemma lseg_append: "lseg h p (xs @ y # ys) q \<longleftrightarrow> lseg h p xs y \<and> lseg h y ys q"
  by (induction xs arbitrary: p) auto

lemma lseg_cong:
  assumes "\<And>a. a \<in> insert p (set xs) \<Longrightarrow> l_next h a = l_next h' a"
    and "\<And>a. a \<in> insert q (set xs) \<Longrightarrow> l_prev h a = l_prev h' a"
  shows "lseg h p xs q = lseg h' p xs q"
  using assms by (induction xs arbitrary: p) auto

text \<open>The ends of a segment: where its first and its last pointer lead.\<close>

lemma lseg_next: "lseg h p xs q \<Longrightarrow> l_next h p = hd (xs @ [q])"
  by (cases xs) auto

lemma lseg_prev: "lseg h p xs q \<Longrightarrow> l_prev h q = last (p # xs)"
  by (induction xs arbitrary: p) auto

lemma lseg_snoc_next: "lseg h p (xs @ [y]) q \<Longrightarrow> l_next h y = q"
  by (simp add: lseg_append)

subsection \<open>The operations on a segment\<close>

lemma lseg_raw_list_add:
  assumes "lseg h p (xs @ ys) q" "distinct (p # xs @ ys)" "q \<notin> set (xs @ ys)"
    "n \<notin> set (p # q # xs @ ys)" "prev = last (p # xs)" "nxt = hd (ys @ [q])"
  shows "lseg (raw_list_add n prev nxt h) p (xs @ n # ys) q"
  using assms
proof (induction xs arbitrary: p)
  case Nil
  show ?case
  proof (cases ys)
    case Nil
    with Nil.prems show ?thesis by (auto simp: list_op_defs)
  next
    case (Cons y ys')
    have "lseg (raw_list_add n prev nxt h) y ys' q = lseg h y ys' q"
      using Nil.prems Cons by (intro lseg_cong) (auto simp: list_op_defs)
    with Nil.prems Cons show ?thesis by (auto simp: list_op_defs)
  qed
next
  case (Cons x xs)
  let ?h = "raw_list_add n prev nxt h"
  have "lseg ?h x (xs @ n # ys) q" using Cons.prems by (intro Cons.IH) auto
  moreover have "p \<noteq> prev" using Cons.prems(2,5) by (auto split: if_splits)
  moreover have "x \<noteq> nxt" using Cons.prems by (cases ys) auto
  ultimately show ?case using Cons.prems(1,4) by (auto simp: list_op_defs)
qed

lemma lseg_raw_list_del:
  assumes "lseg h p (xs @ e # ys) q" "distinct (p # xs @ e # ys)" "q \<notin> set (xs @ e # ys)"
    "prev = last (p # xs)" "nxt = hd (ys @ [q])"
  shows "lseg (raw_list_del prev nxt h) p (xs @ ys) q"
  using assms
proof (induction xs arbitrary: p)
  case Nil
  show ?case
  proof (cases ys)
    case Nil
    with Nil.prems show ?thesis by (auto simp: list_op_defs)
  next
    case (Cons y ys')
    have "lseg (raw_list_del prev nxt h) y ys' q = lseg h y ys' q"
      using Nil.prems Cons by (intro lseg_cong) (auto simp: list_op_defs)
    with Nil.prems Cons show ?thesis by (auto simp: list_op_defs)
  qed
next
  case (Cons x xs)
  have "lseg (raw_list_del prev nxt h) x (xs @ ys) q" using Cons.prems by (intro Cons.IH) auto
  moreover have "p \<noteq> prev" using Cons.prems(2,4) by (auto split: if_splits)
  moreover have "x \<noteq> nxt" using Cons.prems by (cases ys) auto
  ultimately show ?case using Cons.prems(1) by (auto simp: list_op_defs)
qed

subsection \<open>The operations on a list\<close>

lemma dll_INIT [wf_intros]: "dll (INIT_LIST_HEAD l h) l []"
  by (simp add: dll_def list_op_defs)

lemma dll_neighbours:
  assumes "dll h head (xs @ e # ys)"
  shows "l_prev h e = last (head # xs)" "l_next h e = hd (ys @ [head])"
  using assms by (auto simp: dll_def lseg_append dest: lseg_prev lseg_next)

lemma dll_head:
  assumes "dll h head xs"
  shows "l_next h head = hd (xs @ [head])" "l_prev h head = last (head # xs)"
  using assms by (auto simp: dll_def dest: lseg_prev lseg_next)

lemma dll_closed:
  assumes "dll h head xs" "a \<in> set (head # xs)"
  shows "l_next h a \<in> set (head # xs)" "l_prev h a \<in> set (head # xs)"
proof -
  have "l_next h a \<in> set (head # xs) \<and> l_prev h a \<in> set (head # xs)"
  proof (cases "a = head")
    case True
    with dll_head [OF assms(1)] show ?thesis by (cases xs) auto
  next
    case False
    with assms(2) obtain ys zs where xs: "xs = ys @ a # zs" by (auto dest: split_list)
    with dll_neighbours [of h head ys a zs] assms(1) show ?thesis by (cases zs) auto
  qed
  then show "l_next h a \<in> set (head # xs)" "l_prev h a \<in> set (head # xs)" by auto
qed

lemma dll_raw_list_add:
  assumes "dll h head (xs @ ys)" "n \<notin> set (head # xs @ ys)"
  shows "dll (raw_list_add n (last (head # xs)) (hd (ys @ [head])) h) head (xs @ n # ys)"
  using assms lseg_raw_list_add [of h head xs ys head n] by (auto simp: dll_def)

lemma dll_raw_list_del:
  assumes "dll h head (xs @ e # ys)"
  shows "dll (raw_list_del (l_prev h e) (l_next h e) h) head (xs @ ys)"
  using assms lseg_raw_list_del [of h head xs e ys head] dll_neighbours [OF assms]
  by (auto simp: dll_def)

text \<open>Inserting before an entry of the list, which is how \<open>list_add_tail\<close> is used on an entry.\<close>

lemma dll_add_before:
  assumes "dll h head (xs @ e # ys)" "n \<notin> set (head # xs @ e # ys)"
  shows "dll (list_add_tail n e h) head (xs @ n # e # ys)"
  using dll_raw_list_add [of h head xs "e # ys" n] assms dll_neighbours [OF assms(1)]
  by (simp add: list_add_tail_def)

lemma dll_add_tail:
  assumes "dll h head xs" "n \<notin> set (head # xs)"
  shows "dll (list_add_tail n head h) head (xs @ [n])"
  using dll_raw_list_add [of h head xs "[]" n] assms dll_head [OF assms(1)]
  by (simp add: list_add_tail_def)

lemma dll_add:
  assumes "dll h head xs" "n \<notin> set (head # xs)"
  shows "dll (list_add n head h) head (n # xs)"
  using dll_raw_list_add [of h head "[]" xs n] assms dll_head [OF assms(1)]
  by (simp add: list_add_def)

lemma dll_del: "dll h head (xs @ e # ys) \<Longrightarrow> dll (list_del e h) head (xs @ ys)"
  by (simp add: list_del_def dll_raw_list_del)

text \<open>An operation on one list leaves every disjoint list alone.\<close>

lemma dll_cong:
  assumes "\<And>a. a \<in> set (head # xs) \<Longrightarrow> l_next h a = l_next h' a \<and> l_prev h a = l_prev h' a"
  shows "dll h head xs = dll h' head xs"
  using lseg_cong [of head xs h h' head] assms by (auto simp: dll_def)

lemma dll_INIT_other:
  "e \<notin> set (head # xs) \<Longrightarrow> dll (INIT_LIST_HEAD e h) head xs = dll h head xs"
  by (rule dll_cong) (auto simp: list_op_defs)

lemma dll_del_init:
  assumes "dll h head (xs @ e # ys)"
  shows "dll (list_del_init e h) head (xs @ ys)" and "dll (list_del_init e h) e []"
proof -
  from assms have "e \<notin> set (head # xs @ ys)" by (auto simp: dll_def)
  with dll_raw_list_del [OF assms] show "dll (list_del_init e h) head (xs @ ys)"
    by (simp add: list_del_init_def dll_INIT_other)
  show "dll (list_del_init e h) e []" by (simp add: list_del_init_def dll_INIT)
qed

lemma dll_add_tail_other:
  assumes "l_prev h e \<notin> set (head' # zs)" "e \<notin> set (head' # zs)" "n \<notin> set (head' # zs)"
  shows "dll (list_add_tail n e h) head' zs = dll h head' zs"
  using assms by (intro dll_cong) (auto simp: list_add_tail_def list_op_defs)

lemma dll_del_init_other:
  assumes "l_prev h e \<notin> set (head' # zs)" "l_next h e \<notin> set (head' # zs)" "e \<notin> set (head' # zs)"
  shows "dll (list_del_init e h) head' zs = dll h head' zs"
  using assms by (intro dll_cong) (auto simp: list_del_init_def list_op_defs)

lemma dll_list_empty: "dll h head xs \<Longrightarrow> list_empty head h \<longleftrightarrow> xs = []"
  by (cases xs) (auto simp: dll_def list_empty_def)

lemma dll_first: "dll h head (x # xs) \<Longrightarrow> list_first_entry head h = x"
  by (simp add: dll_def list_first_entry_def)

subsection \<open>The interface\<close>

text \<open>What a client of the list may rely on: \<open>rep h l xs\<close> relates the state to the sequence of
  entries, and each operation acts on that sequence. The scheduler's run queue is the client.\<close>

locale list_ops =
  fixes rep :: "'h \<Rightarrow> ptr \<Rightarrow> ptr list \<Rightarrow> bool"
    and add add_tail :: "ptr \<Rightarrow> ptr \<Rightarrow> 'h \<Rightarrow> 'h" and del :: "ptr \<Rightarrow> 'h \<Rightarrow> 'h"
    and is_empty :: "ptr \<Rightarrow> 'h \<Rightarrow> bool" and first :: "ptr \<Rightarrow> 'h \<Rightarrow> ptr"
  assumes rep_add: "rep h l xs \<Longrightarrow> n \<notin> set (l # xs) \<Longrightarrow> rep (add n l h) l (n # xs)"
    and rep_add_tail: "rep h l xs \<Longrightarrow> n \<notin> set (l # xs) \<Longrightarrow> rep (add_tail n l h) l (xs @ [n])"
    and rep_del: "rep h l (xs @ e # ys) \<Longrightarrow> rep (del e h) l (xs @ ys)"
    and rep_empty: "rep h l xs \<Longrightarrow> is_empty l h \<longleftrightarrow> xs = []"
    and rep_first: "rep h l (x # xs) \<Longrightarrow> first l h = x"
begin

lemma pop_first:
  assumes "rep h l (x # xs)"
  shows "\<not> is_empty l h" "first l h = x" "rep (del x h) l xs"
  using assms rep_empty rep_first rep_del [of h l "[]" x xs] by auto

lemma fold_add_tail:
  assumes "rep h l xs" "distinct ns" "set ns \<inter> set (l # xs) = {}"
  shows "rep (fold (\<lambda>n. add_tail n l) ns h) l (xs @ ns)"
  using assms
proof (induction ns arbitrary: h xs)
  case (Cons n ns)
  have "rep (add_tail n l h) l (xs @ [n])" using Cons.prems by (intro rep_add_tail) auto
  from Cons.IH [OF this] Cons.prems show ?case by auto
qed simp

end

interpretation lst: list_ops dll list_add list_add_tail list_del list_empty list_first_entry
  by unfold_locales (simp_all add: dll_add dll_add_tail dll_del dll_list_empty dll_first)

end
