(* ===== verification/Rbtree.thy ===== *)
theory Rbtree
  imports Prelude
begin

text \<open>
  \<open>util/rbtree.c\<close> and \<open>util/rbtree.h\<close>: the intrusive red-black tree of the scheduler's timers, as
  assignments to a heap. The colour of a node and the address of its parent share the word
  \<open>rb_parent_color\<close>; nodes are aligned, so the two low bits of an address are free. The bitwise
  complements of the source (\<open>x & ~3\<close>) are written as subtractions (\<open>x - (x AND 3)\<close>).

  The heap maps addresses of nodes to their fields and addresses of roots to their \<open>rb_node\<close>. The
  loops are partial functions; that they end is part of the theorems of \<open>Rbtree_Correct\<close>. Nothing
  is assumed there about address 0, and it is never written: \<open>NULL\<close> is not dereferenced.
\<close>

record rb_heap =
  rb_parent_color :: "ptr \<Rightarrow> nat"
  rb_left :: "ptr \<Rightarrow> ptr"
  rb_right :: "ptr \<Rightarrow> ptr"
  rb_node :: "ptr \<Rightarrow> ptr"

definition RB_RED :: nat where "RB_RED = 0"

definition RB_BLACK :: nat where "RB_BLACK = 1"

subsection \<open>Fields of a node\<close>

definition set_pc :: "ptr \<Rightarrow> nat \<Rightarrow> rb_heap \<Rightarrow> rb_heap" where
  "set_pc r v h = h\<lparr>rb_parent_color := (rb_parent_color h)(r := v)\<rparr>"

definition set_left :: "ptr \<Rightarrow> ptr \<Rightarrow> rb_heap \<Rightarrow> rb_heap" where
  "set_left r v h = h\<lparr>rb_left := (rb_left h)(r := v)\<rparr>"

definition set_right :: "ptr \<Rightarrow> ptr \<Rightarrow> rb_heap \<Rightarrow> rb_heap" where
  "set_right r v h = h\<lparr>rb_right := (rb_right h)(r := v)\<rparr>"

definition set_root :: "ptr \<Rightarrow> ptr \<Rightarrow> rb_heap \<Rightarrow> rb_heap" where
  "set_root root v h = h\<lparr>rb_node := (rb_node h)(root := v)\<rparr>"

definition rb_parent :: "rb_heap \<Rightarrow> ptr \<Rightarrow> ptr" where
  "rb_parent h r = rb_parent_color h r - (rb_parent_color h r AND 3)"

definition rb_color :: "rb_heap \<Rightarrow> ptr \<Rightarrow> nat" where
  "rb_color h r = rb_parent_color h r AND 1"

definition rb_is_red :: "rb_heap \<Rightarrow> ptr \<Rightarrow> bool" where
  "rb_is_red h r \<longleftrightarrow> rb_color h r = 0"

definition rb_is_black :: "rb_heap \<Rightarrow> ptr \<Rightarrow> bool" where
  "rb_is_black h r \<longleftrightarrow> rb_color h r \<noteq> 0"

definition rb_set_red :: "ptr \<Rightarrow> rb_heap \<Rightarrow> rb_heap" where
  "rb_set_red r h = set_pc r (rb_parent_color h r - (rb_parent_color h r AND 1)) h"

definition rb_set_black :: "ptr \<Rightarrow> rb_heap \<Rightarrow> rb_heap" where
  "rb_set_black r h = set_pc r (rb_parent_color h r OR 1) h"

definition rb_set_parent :: "ptr \<Rightarrow> ptr \<Rightarrow> rb_heap \<Rightarrow> rb_heap" where
  "rb_set_parent rb p h = set_pc rb ((rb_parent_color h rb AND 3) OR p) h"

definition rb_set_color :: "ptr \<Rightarrow> nat \<Rightarrow> rb_heap \<Rightarrow> rb_heap" where
  "rb_set_color rb c h = set_pc rb ((rb_parent_color h rb - (rb_parent_color h rb AND 1)) OR c) h"

definition RB_ROOT :: "ptr \<Rightarrow> rb_heap \<Rightarrow> rb_heap" where
  "RB_ROOT root h = set_root root 0 h"

definition RB_EMPTY_ROOT :: "rb_heap \<Rightarrow> ptr \<Rightarrow> bool" where
  "RB_EMPTY_ROOT h root \<longleftrightarrow> rb_node h root = 0"

definition RB_CLEAR_NODE :: "ptr \<Rightarrow> rb_heap \<Rightarrow> rb_heap" where
  "RB_CLEAR_NODE node h = rb_set_parent node node h"

text \<open>A pointer to a link of the tree, \<open>struct rb_node **\<close>.\<close>

datatype rb_link = Root_link ptr | Left_link ptr | Right_link ptr

fun link_get :: "rb_link \<Rightarrow> rb_heap \<Rightarrow> ptr" where
  "link_get (Root_link root) h = rb_node h root"
| "link_get (Left_link r) h = rb_left h r"
| "link_get (Right_link r) h = rb_right h r"

fun link_set :: "rb_link \<Rightarrow> ptr \<Rightarrow> rb_heap \<Rightarrow> rb_heap" where
  "link_set (Root_link root) v h = set_root root v h"
| "link_set (Left_link r) v h = set_left r v h"
| "link_set (Right_link r) v h = set_right r v h"

definition rb_link_node :: "ptr \<Rightarrow> ptr \<Rightarrow> rb_link \<Rightarrow> rb_heap \<Rightarrow> rb_heap" where
  "rb_link_node node parent link h =
     link_set link node (set_left node 0 (set_right node 0 (set_pc node parent h)))"

subsection \<open>Rotations\<close>

definition rb_rotate_left :: "ptr \<Rightarrow> ptr \<Rightarrow> rb_heap \<Rightarrow> rb_heap" where
  "rb_rotate_left node root h0 =
     (let right = rb_right h0 node; parent = rb_parent h0 node;
          h1 = set_right node (rb_left h0 right) h0;
          h2 = (if rb_right h1 node \<noteq> 0 then rb_set_parent (rb_left h1 right) node h1 else h1);
          h3 = set_left right node h2;
          h4 = rb_set_parent right parent h3;
          h5 = (if parent \<noteq> 0
                then if node = rb_left h4 parent then set_left parent right h4 else set_right parent right h4
                else set_root root right h4)
      in rb_set_parent node right h5)"

definition rb_rotate_right :: "ptr \<Rightarrow> ptr \<Rightarrow> rb_heap \<Rightarrow> rb_heap" where
  "rb_rotate_right node root h0 =
     (let left = rb_left h0 node; parent = rb_parent h0 node;
          h1 = set_left node (rb_right h0 left) h0;
          h2 = (if rb_left h1 node \<noteq> 0 then rb_set_parent (rb_right h1 left) node h1 else h1);
          h3 = set_right left node h2;
          h4 = rb_set_parent left parent h3;
          h5 = (if parent \<noteq> 0
                then if node = rb_right h4 parent then set_right parent left h4 else set_left parent left h4
                else set_root root left h4)
      in rb_set_parent node left h5)"

subsection \<open>Insertion\<close>

partial_function (option) insert_loop :: "ptr \<Rightarrow> ptr \<Rightarrow> rb_heap \<Rightarrow> rb_heap option" where
  "insert_loop node root h =
     (let parent = rb_parent h node in
      if parent \<noteq> 0 \<and> rb_is_red h parent then
        let gparent = rb_parent h parent in
        if parent = rb_left h gparent then
          let uncle = rb_right h gparent in
          if uncle \<noteq> 0 \<and> rb_is_red h uncle
          then insert_loop gparent root (rb_set_red gparent (rb_set_black parent (rb_set_black uncle h)))
          else case (if rb_right h parent = node then (rb_rotate_left parent root h, node, parent)
                     else (h, parent, node)) of (h1, parent, node) \<Rightarrow>
            insert_loop node root
              (rb_rotate_right gparent root (rb_set_red gparent (rb_set_black parent h1)))
        else
          let uncle = rb_left h gparent in
          if uncle \<noteq> 0 \<and> rb_is_red h uncle
          then insert_loop gparent root (rb_set_red gparent (rb_set_black parent (rb_set_black uncle h)))
          else case (if rb_left h parent = node then (rb_rotate_right parent root h, node, parent)
                     else (h, parent, node)) of (h1, parent, node) \<Rightarrow>
            insert_loop node root
              (rb_rotate_left gparent root (rb_set_red gparent (rb_set_black parent h1)))
      else Some h)"

definition rb_insert_color :: "ptr \<Rightarrow> ptr \<Rightarrow> rb_heap \<Rightarrow> rb_heap option" where
  "rb_insert_color node root h =
     map_option (\<lambda>h'. rb_set_black (rb_node h' root) h') (insert_loop node root h)"

subsection \<open>Removal\<close>

text \<open>\<open>!r || rb_is_black(r)\<close>\<close>

definition null_or_black :: "rb_heap \<Rightarrow> ptr \<Rightarrow> bool" where
  "null_or_black h r \<longleftrightarrow> r = 0 \<or> rb_is_black h r"

text \<open>The loop of \<open>__rb_erase_color\<close>; it ends with a value of \<open>node\<close>.\<close>

partial_function (option) erase_loop :: "ptr \<Rightarrow> ptr \<Rightarrow> ptr \<Rightarrow> rb_heap \<Rightarrow> (ptr \<times> rb_heap) option" where
  "erase_loop node parent root h =
     (if null_or_black h node \<and> node \<noteq> rb_node h root then
        if rb_left h parent = node then
          case (let other = rb_right h parent in
                if rb_is_red h other then
                  let h1 = rb_rotate_left parent root (rb_set_red parent (rb_set_black other h))
                  in (rb_right h1 parent, h1)
                else (other, h)) of (other, h1) \<Rightarrow>
            if null_or_black h1 (rb_left h1 other) \<and> null_or_black h1 (rb_right h1 other)
            then let h2 = rb_set_red other h1 in erase_loop parent (rb_parent h2 parent) root h2
            else case (if null_or_black h1 (rb_right h1 other) then
                         let h2 = rb_rotate_right other root (rb_set_red other (rb_set_black (rb_left h1 other) h1))
                         in (rb_right h2 parent, h2)
                       else (other, h1)) of (other, h2) \<Rightarrow>
              let h3 = rb_set_color other (rb_color h2 parent) h2;
                  h4 = rb_set_black parent h3;
                  h5 = rb_set_black (rb_right h4 other) h4;
                  h6 = rb_rotate_left parent root h5
              in Some (rb_node h6 root, h6)
        else
          case (let other = rb_left h parent in
                if rb_is_red h other then
                  let h1 = rb_rotate_right parent root (rb_set_red parent (rb_set_black other h))
                  in (rb_left h1 parent, h1)
                else (other, h)) of (other, h1) \<Rightarrow>
            if null_or_black h1 (rb_left h1 other) \<and> null_or_black h1 (rb_right h1 other)
            then let h2 = rb_set_red other h1 in erase_loop parent (rb_parent h2 parent) root h2
            else case (if null_or_black h1 (rb_left h1 other) then
                         let h2 = rb_rotate_left other root (rb_set_red other (rb_set_black (rb_right h1 other) h1))
                         in (rb_left h2 parent, h2)
                       else (other, h1)) of (other, h2) \<Rightarrow>
              let h3 = rb_set_color other (rb_color h2 parent) h2;
                  h4 = rb_set_black parent h3;
                  h5 = rb_set_black (rb_left h4 other) h4;
                  h6 = rb_rotate_right parent root h5
              in Some (rb_node h6 root, h6)
      else Some (node, h))"

definition rb_erase_color :: "ptr \<Rightarrow> ptr \<Rightarrow> ptr \<Rightarrow> rb_heap \<Rightarrow> rb_heap option" where
  "rb_erase_color node parent root h =
     map_option (\<lambda>(node, h'). if node \<noteq> 0 then rb_set_black node h' else h') (erase_loop node parent root h)"

text \<open>The leftmost node below a node, \<open>while ((left = node->rb_left)) node = left;\<close>\<close>

partial_function (option) leftmost :: "ptr \<Rightarrow> rb_heap \<Rightarrow> ptr option" where
  "leftmost node h = (if rb_left h node \<noteq> 0 then leftmost (rb_left h node) h else Some node)"

text \<open>The link of \<open>parent\<close> (or of the root) that points to \<open>old\<close> is set to \<open>node\<close>.\<close>

definition replace_child :: "ptr \<Rightarrow> ptr \<Rightarrow> ptr \<Rightarrow> ptr \<Rightarrow> rb_heap \<Rightarrow> rb_heap" where
  "replace_child parent old node root h =
     (if parent \<noteq> 0
      then if rb_left h parent = old then set_left parent node h else set_right parent node h
      else set_root root node h)"

text \<open>The case of \<open>rb_erase\<close> with two children, up to the label \<open>out\<close>: the successor \<open>node\<close> of \<open>old\<close> takes its
  place. The values of \<open>color\<close>, \<open>child\<close> and \<open>parent\<close>, and the heap.\<close>

definition erase_two :: "ptr \<Rightarrow> ptr \<Rightarrow> ptr \<Rightarrow> rb_heap \<Rightarrow> nat \<times> ptr \<times> ptr \<times> rb_heap" where
  "erase_two old node root h0 =
     (let h1 = replace_child (rb_parent h0 old) old node root h0;
          child = rb_right h1 node;
          parent = rb_parent h1 node;
          color = rb_color h1 node;
          (parent, h2) =
            (if parent = old then (node, h1)
             else let h = (if child \<noteq> 0 then rb_set_parent child parent h1 else h1);
                      h = set_left parent child h;
                      h = set_right node (rb_right h old) h;
                      h = rb_set_parent (rb_right h old) node h
                  in (parent, h));
          h3 = set_pc node (rb_parent_color h2 old) h2;
          h4 = set_left node (rb_left h3 old) h3;
          h5 = rb_set_parent (rb_left h4 old) node h4
      in (color, child, parent, h5))"

text \<open>The case with at most one child.\<close>

definition erase_one :: "ptr \<Rightarrow> ptr \<Rightarrow> ptr \<Rightarrow> rb_heap \<Rightarrow> nat \<times> ptr \<times> ptr \<times> rb_heap" where
  "erase_one node child root h =
     (let parent = rb_parent h node; color = rb_color h node;
          h1 = (if child \<noteq> 0 then rb_set_parent child parent h else h)
      in (color, child, parent, replace_child parent node child root h1))"

definition rb_erase :: "ptr \<Rightarrow> ptr \<Rightarrow> rb_heap \<Rightarrow> rb_heap option" where
  "rb_erase node root h =
     (case (if rb_left h node = 0 then Some (erase_one node (rb_right h node) root h)
            else if rb_right h node = 0 then Some (erase_one node (rb_left h node) root h)
            else map_option (\<lambda>succ. erase_two node succ root h) (leftmost (rb_right h node) h)) of
        None \<Rightarrow> None
      | Some (color, child, parent, h1) \<Rightarrow>
          if color = RB_BLACK then rb_erase_color child parent root h1 else Some h1)"

text \<open>\<open>rb_first\<close>; 0 for \<open>NULL\<close>.\<close>

definition rb_first :: "ptr \<Rightarrow> rb_heap \<Rightarrow> ptr option" where
  "rb_first root h = (let n = rb_node h root in if n = 0 then Some 0 else leftmost n h)"

end
