(* ===== verification/Rbtree_Correct.thy ===== *)
theory Rbtree_Correct
  imports Rbtree
begin

text \<open>
  What the heap of \<open>Rbtree\<close> represents. \<open>is_tree h q p t\<close>: the pointer \<open>p\<close> is the root of the tree \<open>t\<close>
  (a datatype whose nodes carry their colour and address) and \<open>q\<close> is the parent stored in it. A
  position inside a tree is a zipper: the subtree there and the frames on the way to the root, each
  with the sibling it leaves aside (\<open>is_ctx\<close>). The loops of the code climb along the frames, so their
  correctness is by induction on the zipper.
\<close>

datatype colour = Red | Black

fun col :: "colour \<Rightarrow> nat" where
  "col Red = 0"
| "col Black = 1"

datatype rbt = Lf | Nd colour rbt ptr rbt

fun root_of :: "rbt \<Rightarrow> ptr" where
  "root_of Lf = 0"
| "root_of (Nd c l x r) = x"

fun colour_of :: "rbt \<Rightarrow> colour" where
  "colour_of Lf = Black"
| "colour_of (Nd c l x r) = c"

fun nodes :: "rbt \<Rightarrow> ptr list" where
  "nodes Lf = []"
| "nodes (Nd c l x r) = nodes l @ x # nodes r"

datatype frame = FL colour ptr rbt | FR colour rbt ptr

fun frame_node :: "frame \<Rightarrow> ptr" where
  "frame_node (FL c x r) = x"
| "frame_node (FR c l x) = x"

fun frame_colour :: "frame \<Rightarrow> colour" where
  "frame_colour (FL c x r) = c"
| "frame_colour (FR c l x) = c"

fun frame_tree :: "frame \<Rightarrow> rbt" where
  "frame_tree (FL c x r) = r"
| "frame_tree (FR c l x) = l"

fun plug :: "frame \<Rightarrow> rbt \<Rightarrow> rbt" where
  "plug (FL c x r) t = Nd c t x r"
| "plug (FR c l x) t = Nd c l x t"

fun zip_up :: "frame list \<Rightarrow> rbt \<Rightarrow> rbt" where
  "zip_up [] t = t"
| "zip_up (f # fs) t = zip_up fs (plug f t)"

fun ctx_nodes :: "frame list \<Rightarrow> ptr list" where
  "ctx_nodes [] = []"
| "ctx_nodes (f # fs) = frame_node f # nodes (frame_tree f) @ ctx_nodes fs"

definition node_at :: "rb_heap \<Rightarrow> ptr \<Rightarrow> ptr \<Rightarrow> colour \<Rightarrow> bool" where
  "node_at h q x c \<longleftrightarrow> x \<noteq> 0 \<and> 4 dvd x \<and> 4 dvd q \<and> rb_parent_color h x = q + col c"

fun is_tree :: "rb_heap \<Rightarrow> ptr \<Rightarrow> ptr \<Rightarrow> rbt \<Rightarrow> bool" where
  "is_tree h q p Lf \<longleftrightarrow> p = 0"
| "is_tree h q p (Nd c l x r) \<longleftrightarrow> p = x \<and> node_at h q x c \<and> is_tree h x (rb_left h x) l \<and> is_tree h x (rb_right h x) r"

definition ctx_parent :: "frame list \<Rightarrow> ptr" where
  "ctx_parent fs = (case fs of [] \<Rightarrow> 0 | f # _ \<Rightarrow> frame_node f)"

text \<open>The link at the end of the frames holds the pointer \<open>p\<close>.\<close>

fun is_ctx :: "rb_heap \<Rightarrow> ptr \<Rightarrow> ptr \<Rightarrow> frame list \<Rightarrow> bool" where
  "is_ctx h root p [] \<longleftrightarrow> rb_node h root = p"
| "is_ctx h root p (FL c x r # fs) \<longleftrightarrow> node_at h (ctx_parent fs) x c \<and> rb_left h x = p \<and>
     is_tree h x (rb_right h x) r \<and> is_ctx h root x fs"
| "is_ctx h root p (FR c l x # fs) \<longleftrightarrow> node_at h (ctx_parent fs) x c \<and> rb_right h x = p \<and>
     is_tree h x (rb_left h x) l \<and> is_ctx h root x fs"

text \<open>The heap holds the tree \<open>t\<close> in the context \<open>fs\<close>.\<close>

definition at_pos :: "rb_heap \<Rightarrow> ptr \<Rightarrow> frame list \<Rightarrow> rbt \<Rightarrow> bool" where
  "at_pos h root fs t \<longleftrightarrow> is_ctx h root (root_of t) fs \<and> is_tree h (ctx_parent fs) (root_of t) t \<and>
     distinct (ctx_nodes fs @ nodes t)"

definition holds_tree :: "rb_heap \<Rightarrow> ptr \<Rightarrow> rbt \<Rightarrow> bool" where
  "holds_tree h root t \<longleftrightarrow> at_pos h root [] t"

text \<open>Two heaps that differ only in the nodes \<open>X\<close> and the root.\<close>

definition same_outside :: "ptr set \<Rightarrow> ptr \<Rightarrow> rb_heap \<Rightarrow> rb_heap \<Rightarrow> bool" where
  "same_outside X root h h' \<longleftrightarrow>
     (\<forall>x. x \<notin> X \<longrightarrow> rb_parent_color h' x = rb_parent_color h x \<and> rb_left h' x = rb_left h x \<and> rb_right h' x = rb_right h x) \<and>
     (\<forall>r. r \<noteq> root \<longrightarrow> rb_node h' r = rb_node h r)"

subsection \<open>The packed word\<close>

lemma and_3: "x AND 3 = x mod (4 :: nat)"
  using take_bit_eq_mask [of 2 x] by (simp add: mask_eq_exp_minus_1 take_bit_eq_mod)

lemma and_1: "x AND 1 = x mod (2 :: nat)"
  by (simp add: and_one_eq)

lemma or_low: "4 dvd p \<Longrightarrow> k < 4 \<Longrightarrow> k OR p = p + (k :: nat)"
proof -
  assume "4 dvd p" "k < 4"
  then obtain m where p: "p = push_bit 2 m" by (auto simp: push_bit_eq_mult dvd_def)
  have k: "k = take_bit 2 k" using \<open>k < 4\<close> by (simp add: take_bit_eq_mod)
  have "k + p = k OR p"
    by (rule disjunctive_add) (subst k, simp add: p bit_simps)
  then show ?thesis by simp
qed

lemma col_less: "col c < 2" by (cases c) auto

lemma packed:
  assumes "4 dvd q"
  shows "(q + col c) AND 3 = col c" "(q + col c) AND 1 = col c" "(q + col c) OR 1 = q + 1" "q OR col c = q + col c"
proof -
  have q2: "q mod 4 = 0" "q mod 2 = 0" using assms by presburger+
  show "(q + col c) AND 3 = col c" using q2 col_less [of c] by (simp add: and_3 mod_add_left_eq [symmetric, of q])
  show "(q + col c) AND 1 = col c" unfolding and_1 using q2 col_less [of c] by (simp add: mod_add_left_eq [symmetric, of q])
  show "(q + col c) OR 1 = q + 1"
  proof -
    have q1: "q OR 1 = q + 1" using or_low [OF assms, of 1] by (simp add: or.commute)
    then have "(q + 1) OR 1 = q + 1" by (metis or.assoc or.idem)
    with q1 show ?thesis by (cases c) simp_all
  qed
  show "q OR col c = q + col c" using or_low [OF assms, of "col c"] col_less [of c] by (simp add: or.commute)
qed

lemma node_at_fields [simp]:
  assumes "node_at h q x c"
  shows "rb_parent h x = q" "rb_color h x = col c" "rb_is_red h x \<longleftrightarrow> c = Red" "rb_is_black h x \<longleftrightarrow> c = Black"
proof -
  have pc: "rb_parent_color h x = q + col c" "4 dvd q" using assms by (simp_all add: node_at_def)
  show "rb_parent h x = q" unfolding rb_parent_def pc(1) packed(1) [OF pc(2)] by simp
  show c: "rb_color h x = col c" unfolding rb_color_def pc(1) packed(2) [OF pc(2)] by simp
  show "rb_is_red h x \<longleftrightarrow> c = Red" "rb_is_black h x \<longleftrightarrow> c = Black"
    unfolding rb_is_red_def rb_is_black_def c by (cases c; simp)+
qed

lemma node_at_set [simp]:
  assumes "node_at h q x c"
  shows "rb_set_red x h = set_pc x (q + col Red) h" "rb_set_black x h = set_pc x (q + col Black) h"
    "rb_set_color x (col c') h = set_pc x (q + col c') h"
    "4 dvd p \<Longrightarrow> rb_set_parent x p h = set_pc x (p + col c) h"
proof -
  have pc: "rb_parent_color h x = q + col c" "4 dvd q" using assms by (simp_all add: node_at_def)
  show "rb_set_red x h = set_pc x (q + col Red) h" unfolding rb_set_red_def pc(1) packed(2) [OF pc(2)] by simp
  show "rb_set_black x h = set_pc x (q + col Black) h" unfolding rb_set_black_def pc(1) packed(3) [OF pc(2)] by simp
  show "rb_set_color x (col c') h = set_pc x (q + col c') h"
    unfolding rb_set_color_def pc(1) packed(2) [OF pc(2)] using packed(4) [OF pc(2)] by simp
  show "rb_set_parent x p h = set_pc x (p + col c) h" if "4 dvd p"
    unfolding rb_set_parent_def pc(1) packed(1) [OF pc(2)] using packed(4) [OF that, of c] by (simp add: or.commute)
qed

subsection \<open>Writing fields\<close>

lemma set_sel [simp]:
  "rb_parent_color (set_pc x v h) = (rb_parent_color h)(x := v)" "rb_left (set_pc x v h) = rb_left h"
  "rb_right (set_pc x v h) = rb_right h" "rb_node (set_pc x v h) = rb_node h"
  "rb_parent_color (set_left x v h) = rb_parent_color h" "rb_left (set_left x v h) = (rb_left h)(x := v)"
  "rb_right (set_left x v h) = rb_right h" "rb_node (set_left x v h) = rb_node h"
  "rb_parent_color (set_right x v h) = rb_parent_color h" "rb_left (set_right x v h) = rb_left h"
  "rb_right (set_right x v h) = (rb_right h)(x := v)" "rb_node (set_right x v h) = rb_node h"
  "rb_parent_color (set_root x v h) = rb_parent_color h" "rb_left (set_root x v h) = rb_left h"
  "rb_right (set_root x v h) = rb_right h" "rb_node (set_root x v h) = (rb_node h)(x := v)"
  by (simp_all add: set_pc_def set_left_def set_right_def set_root_def)

lemma node_at_upd [simp]:
  "node_at (set_left y v h) q x c = node_at h q x c" "node_at (set_right y v h) q x c = node_at h q x c"
  "node_at (set_root y v h) q x c = node_at h q x c" "y \<noteq> x \<Longrightarrow> node_at (set_pc y v h) q x c = node_at h q x c"
  by (simp_all add: node_at_def)

lemma node_at_same [simp]: "node_at (set_pc x (q + col c) h) q x c \<longleftrightarrow> x \<noteq> 0 \<and> 4 dvd x \<and> 4 dvd q"
  by (auto simp: node_at_def)

lemma node_at_addr: "node_at h q x c \<Longrightarrow> x \<noteq> 0 \<and> 4 dvd x \<and> 4 dvd q"
  by (simp add: node_at_def)

lemma is_tree_cong:
  assumes "\<forall>x \<in> set (nodes t). rb_parent_color h' x = rb_parent_color h x \<and> rb_left h' x = rb_left h x \<and> rb_right h' x = rb_right h x"
  shows "is_tree h' q p t = is_tree h q p t"
  using assms by (induction t arbitrary: q p) (auto simp: node_at_def)

lemma is_ctx_cong:
  assumes "\<forall>x \<in> set (ctx_nodes fs). rb_parent_color h' x = rb_parent_color h x \<and> rb_left h' x = rb_left h x \<and> rb_right h' x = rb_right h x"
    and "rb_node h' root = rb_node h root"
  shows "is_ctx h' root p fs = is_ctx h root p fs"
  using assms
proof (induction fs arbitrary: p)
  case (Cons f fs)
  have t: "is_tree h' q p (frame_tree f) = is_tree h q p (frame_tree f)" for q p
    using Cons.prems by (intro is_tree_cong) auto
  have "is_ctx h' root p fs = is_ctx h root p fs" for p using Cons by simp
  with t Cons.prems show ?case by (cases f) (auto simp: node_at_def)
qed simp

lemma is_tree_upd [simp]:
  "x \<notin> set (nodes t) \<Longrightarrow> is_tree (set_pc x v h) q p t = is_tree h q p t"
  "x \<notin> set (nodes t) \<Longrightarrow> is_tree (set_left x v h) q p t = is_tree h q p t"
  "x \<notin> set (nodes t) \<Longrightarrow> is_tree (set_right x v h) q p t = is_tree h q p t"
  "is_tree (set_root x v h) q p t = is_tree h q p t"
  by (rule is_tree_cong; auto)+

lemma is_ctx_upd [simp]:
  "x \<notin> set (ctx_nodes fs) \<Longrightarrow> is_ctx (set_pc x v h) root p fs = is_ctx h root p fs"
  "x \<notin> set (ctx_nodes fs) \<Longrightarrow> is_ctx (set_left x v h) root p fs = is_ctx h root p fs"
  "x \<notin> set (ctx_nodes fs) \<Longrightarrow> is_ctx (set_right x v h) root p fs = is_ctx h root p fs"
  by (rule is_ctx_cong; auto)+

lemma is_tree_root: "is_tree h q p t \<Longrightarrow> p = root_of t"
  by (cases t) auto

lemma is_tree_root_of: "is_tree h q p t \<longleftrightarrow> p = root_of t \<and> is_tree h q (root_of t) t"
  by (cases t) auto

lemma is_tree_nodes: "is_tree h q p t \<Longrightarrow> x \<in> set (nodes t) \<Longrightarrow> x \<noteq> 0 \<and> 4 dvd x"
  by (induction t arbitrary: q p) (auto simp: node_at_def)

lemma is_ctx_nodes: "is_ctx h root p fs \<Longrightarrow> x \<in> set (ctx_nodes fs) \<Longrightarrow> x \<noteq> 0 \<and> 4 dvd x"
proof (induction fs arbitrary: p)
  case (Cons f fs)
  then show ?case by (cases f) (auto simp: node_at_def dest: is_tree_nodes)
qed simp

text \<open>Changing the parent stored in the root of a subtree.\<close>

definition repar :: "ptr \<Rightarrow> rbt \<Rightarrow> rb_heap \<Rightarrow> rb_heap" where
  "repar q t h = (case t of Lf \<Rightarrow> h | Nd c l x r \<Rightarrow> set_pc x (q + col c) h)"

lemma repar_set_parent:
  assumes "is_tree h q0 p t" and "4 dvd q"
  shows "(if p \<noteq> 0 then rb_set_parent p q h else h) = repar q t h"
  using assms by (cases t) (auto simp: repar_def dest: node_at_addr)

lemma repar_tree:
  assumes "is_tree h q0 p t" and "4 dvd q" and "distinct (nodes t)"
  shows "is_tree (repar q t h) q p t"
  using assms by (cases t) (auto simp: repar_def dest: node_at_addr)

lemma repar_sel [simp]:
  "rb_left (repar q t h) = rb_left h" "rb_right (repar q t h) = rb_right h" "rb_node (repar q t h) = rb_node h"
  by (simp_all add: repar_def split: rbt.splits)

lemma repar_other:
  "set (nodes t) \<inter> set (nodes t') = {} \<Longrightarrow> is_tree (repar q t h) q' p t' = is_tree h q' p t'"
  "set (nodes t) \<inter> set (ctx_nodes fs) = {} \<Longrightarrow> is_ctx (repar q t h) root p fs = is_ctx h root p fs"
  "x \<notin> set (nodes t) \<Longrightarrow> node_at (repar q t h) q' x c = node_at h q' x c"
  by (auto simp: repar_def split: rbt.splits)

text \<open>Changing the child at the end of the frames.\<close>

definition relink :: "frame list \<Rightarrow> ptr \<Rightarrow> ptr \<Rightarrow> rb_heap \<Rightarrow> rb_heap" where
  "relink fs root p h =
     (case fs of [] \<Rightarrow> set_root root p h | FL c x r # _ \<Rightarrow> set_left x p h | FR c l x # _ \<Rightarrow> set_right x p h)"

lemma relink_ctx:
  assumes "is_ctx h root p0 fs" and "distinct (ctx_nodes fs)"
  shows "is_ctx (relink fs root p h) root p fs"
proof (cases fs)
  case (Cons f fs')
  with assms show ?thesis by (cases f) (auto simp: relink_def)
qed (simp add: relink_def)

lemma relink_other:
  "ctx_parent fs \<notin> set (nodes t) \<Longrightarrow> is_tree (relink fs root p h) q p' t = is_tree h q p' t"
  "node_at (relink fs root p h) q x c = node_at h q x c"
  "rb_parent_color (relink fs root p h) = rb_parent_color h"
  by (auto simp: relink_def ctx_parent_def split: list.splits frame.splits)

lemma ctx_parent_simps [simp]: "ctx_parent [] = 0" "ctx_parent (f # fs) = frame_node f"
  by (simp_all add: ctx_parent_def)

lemma ctx_parent_addr: "is_ctx h root p fs \<Longrightarrow> 4 dvd ctx_parent fs"
proof (cases fs)
  case (Cons f fs')
  assume "is_ctx h root p fs"
  with Cons show ?thesis by (cases f) (auto dest: node_at_addr)
qed simp

lemma ctx_parent_in: "ctx_parent fs \<noteq> 0 \<Longrightarrow> ctx_parent fs \<in> set (ctx_nodes fs)"
  by (cases fs) auto

lemma ctx_parent_notin:
  assumes "is_tree h q p t" and "set (ctx_nodes fs) \<inter> set (nodes t) = {}"
  shows "ctx_parent fs \<notin> set (nodes t)"
proof (cases "ctx_parent fs = 0")
  case True
  with is_tree_nodes [OF assms(1), of 0] show ?thesis by auto
next
  case False
  with ctx_parent_in [OF this] assms(2) show ?thesis by auto
qed

lemma root_in: "0 < root_of t \<Longrightarrow> root_of t \<in> set (nodes t)"
  by (cases t) auto

lemma is_ctx_cases [case_names Nil Left Right]:
  obtains "fs = []" | c x r fs' where "fs = FL c x r # fs'" | c l x fs' where "fs = FR c l x # fs'"
  by (metis frame.exhaust list.exhaust)

text \<open>The link above a node, as the rotations and \<open>rb_erase\<close> find it.\<close>

lemma relink_left:
  assumes "is_ctx h root x fs" and "x \<noteq> 0" and "x \<notin> set (ctx_nodes fs)"
  shows "(if ctx_parent fs \<noteq> 0 then if x = rb_left h (ctx_parent fs) then set_left (ctx_parent fs) p h
      else set_right (ctx_parent fs) p h else set_root root p h) = relink fs root p h"
    and "(if ctx_parent fs \<noteq> 0 then if x = rb_right h (ctx_parent fs) then set_right (ctx_parent fs) p h
      else set_left (ctx_parent fs) p h else set_root root p h) = relink fs root p h"
proof -
  show "(if ctx_parent fs \<noteq> 0 then if x = rb_left h (ctx_parent fs) then set_left (ctx_parent fs) p h
      else set_right (ctx_parent fs) p h else set_root root p h) = relink fs root p h"
    using assms root_in by (cases fs rule: is_ctx_cases) (auto simp: relink_def dest!: is_tree_root dest: node_at_addr)
  show "(if ctx_parent fs \<noteq> 0 then if x = rb_right h (ctx_parent fs) then set_right (ctx_parent fs) p h
      else set_left (ctx_parent fs) p h else set_root root p h) = relink fs root p h"
    using assms root_in by (cases fs rule: is_ctx_cases) (auto simp: relink_def dest!: is_tree_root dest: node_at_addr)
qed

subsection \<open>Rotations\<close>

text \<open>The pieces of a tree with an inner right child.\<close>

lemma two_nodes:
  assumes "at_pos h root fs (Nd c l x (Nd d m y r))"
  shows "is_ctx h root x fs" "node_at h (ctx_parent fs) x c" "is_tree h x (rb_left h x) l" "rb_right h x = y"
    "node_at h x y d" "is_tree h y (rb_left h y) m" "is_tree h y (rb_right h y) r" "rb_left h y = root_of m"
    and "x \<noteq> y" "x \<noteq> 0" "4 dvd x" "y \<noteq> 0" "4 dvd y" "4 dvd ctx_parent fs" "ctx_parent fs \<noteq> x" "ctx_parent fs \<noteq> y"
    "x \<notin> set (ctx_nodes fs)" "y \<notin> set (ctx_nodes fs)" "x \<notin> set (nodes l)" "x \<notin> set (nodes m)" "x \<notin> set (nodes r)"
    "y \<notin> set (nodes l)" "y \<notin> set (nodes m)" "y \<notin> set (nodes r)"
    "ctx_parent fs \<notin> set (nodes l)" "ctx_parent fs \<notin> set (nodes m)" "ctx_parent fs \<notin> set (nodes r)"
    and "set (nodes m) \<inter> set (ctx_nodes fs) = {}" "set (nodes m) \<inter> set (nodes l) = {}" "set (nodes m) \<inter> set (nodes r) = {}"
    "distinct (nodes m)" "distinct (ctx_nodes fs)"
proof -
  show ctx: "is_ctx h root x fs" "node_at h (ctx_parent fs) x c" "rb_right h x = y" "node_at h x y d"
    and l: "is_tree h x (rb_left h x) l" and m: "is_tree h y (rb_left h y) m" and r: "is_tree h y (rb_right h y) r"
    using assms by (auto simp: at_pos_def)
  show "rb_left h y = root_of m" using is_tree_root [OF m] .
  have dist: "distinct (ctx_nodes fs @ nodes (Nd c l x (Nd d m y r)))" using assms by (simp add: at_pos_def)
  show "x \<noteq> y" "x \<notin> set (nodes l)" "x \<notin> set (nodes m)" "x \<notin> set (nodes r)" "y \<notin> set (nodes l)" "y \<notin> set (nodes m)"
    "y \<notin> set (nodes r)" "distinct (nodes m)" "distinct (ctx_nodes fs)" using dist by auto
  show xy: "x \<notin> set (ctx_nodes fs)" "y \<notin> set (ctx_nodes fs)" using dist by auto
  show "x \<noteq> 0" "4 dvd x" "y \<noteq> 0" "4 dvd y" "4 dvd ctx_parent fs" using ctx by (auto dest: node_at_addr)
  with xy show "ctx_parent fs \<noteq> x" "ctx_parent fs \<noteq> y" using ctx_parent_in [of fs] by metis+
  show "ctx_parent fs \<notin> set (nodes l)" using dist by (intro ctx_parent_notin [OF l]) auto
  show "ctx_parent fs \<notin> set (nodes m)" using dist by (intro ctx_parent_notin [OF m]) auto
  show "ctx_parent fs \<notin> set (nodes r)" using dist by (intro ctx_parent_notin [OF r]) auto
  show "set (nodes m) \<inter> set (ctx_nodes fs) = {}" "set (nodes m) \<inter> set (nodes l) = {}" "set (nodes m) \<inter> set (nodes r) = {}"
    using dist by auto
qed

lemma rotate_left_eq:
  assumes "at_pos h root fs (Nd c l x (Nd d m y r))"
  shows "rb_rotate_left x root h =
    set_pc x (y + col c) (relink fs root y (set_pc y (ctx_parent fs + col d)
      (set_left y x (repar x m (set_right x (root_of m) h)))))"
proof -
  note t = two_nodes [OF assms]
  let ?q = "ctx_parent fs"
  let ?h1 = "set_right x (root_of m) h"
  have m1: "is_tree ?h1 y (root_of m) m" using t by simp
  let ?h2 = "repar x m ?h1"
  have h2: "(if root_of m \<noteq> 0 then rb_set_parent (root_of m) x ?h1 else ?h1) = ?h2"
    using t by (intro repar_set_parent [OF m1])
  let ?h3 = "set_left y x ?h2"
  have y3: "node_at ?h3 x y d" using t by (simp add: repar_other)
  let ?h4 = "set_pc y (?q + col d) ?h3"
  have h4: "rb_set_parent y ?q ?h3 = ?h4" using y3 t by simp
  have ctx4: "is_ctx ?h4 root x fs" using t by (simp add: repar_other)
  let ?h5 = "relink fs root y ?h4"
  have h5: "(if ?q \<noteq> 0 then if x = rb_left ?h4 ?q then set_left ?q y ?h4 else set_right ?q y ?h4 else set_root root y ?h4) = ?h5"
    by (rule relink_left(1) [OF ctx4]) (use t in auto)
  have "node_at ?h5 ?q x c" using t by (simp add: relink_other repar_other)
  then have h6: "rb_set_parent x y ?h5 = set_pc x (y + col c) ?h5" using t by simp
  have par: "rb_parent h x = ?q" using t by simp
  show ?thesis
    unfolding rb_rotate_left_def Let_def par t(4) t(8) set_sel(10,11) fun_upd_same t(8) h2 h4 h5 h6 ..
qed

lemma rotate_left_pos:
  assumes "at_pos h root fs (Nd c l x (Nd d m y r))"
  shows "at_pos (rb_rotate_left x root h) root fs (Nd d (Nd c l x m) y r)"
proof -
  note t = two_nodes [OF assms]
  let ?q = "ctx_parent fs"
  let ?h2 = "set_left y x (repar x m (set_right x (root_of m) h))"
  let ?h = "set_pc x (y + col c) (relink fs root y (set_pc y (?q + col d) ?h2))"
  have "is_ctx ?h2 root x fs" using t by (simp add: repar_other)
  then have "is_ctx ?h root y fs" using t by (auto intro!: relink_ctx)
  moreover have "is_tree ?h2 x (root_of m) m"
    using repar_tree [of "set_right x (root_of m) h" y "root_of m" m x] t by simp
  moreover have "is_tree ?h2 x (rb_left h x) l" "is_tree ?h2 y (rb_right h y) r"
    using t by (simp_all add: repar_other Int_commute)
  moreover have "rb_left ?h x = rb_left h x" "rb_right ?h x = root_of m" "rb_left ?h y = x" "rb_right ?h y = rb_right h y"
    using t(9,15,16) by (cases fs rule: is_ctx_cases; auto simp: relink_def)+
  moreover have "distinct (ctx_nodes fs @ nodes (Nd d (Nd c l x m) y r))" using assms by (auto simp: at_pos_def)
  ultimately show ?thesis
    using t unfolding rotate_left_eq [OF assms] at_pos_def by (simp add: relink_other)
qed

text \<open>A right rotation is a left rotation in the mirror.\<close>

definition mirror :: "rb_heap \<Rightarrow> rb_heap" where
  "mirror h = h\<lparr>rb_left := rb_right h, rb_right := rb_left h\<rparr>"

fun mirror_tree :: "rbt \<Rightarrow> rbt" where
  "mirror_tree Lf = Lf"
| "mirror_tree (Nd c l x r) = Nd c (mirror_tree r) x (mirror_tree l)"

fun mirror_frame :: "frame \<Rightarrow> frame" where
  "mirror_frame (FL c x r) = FR c (mirror_tree r) x"
| "mirror_frame (FR c l x) = FL c x (mirror_tree l)"

lemma mirror_sel [simp]:
  "rb_parent_color (mirror h) = rb_parent_color h" "rb_left (mirror h) = rb_right h" "rb_right (mirror h) = rb_left h"
  "rb_node (mirror h) = rb_node h" "mirror (mirror h) = h"
  by (simp_all add: mirror_def)

lemma mirror_set:
  "set_pc x v (mirror h) = mirror (set_pc x v h)" "set_left x v (mirror h) = mirror (set_right x v h)"
  "set_right x v (mirror h) = mirror (set_left x v h)" "set_root x v (mirror h) = mirror (set_root x v h)"
  by (simp_all add: mirror_def set_pc_def set_left_def set_right_def set_root_def)

lemma mirror_nodes [simp]: "set (nodes (mirror_tree t)) = set (nodes t)" "distinct (nodes (mirror_tree t)) = distinct (nodes t)"
  "root_of (mirror_tree t) = root_of t" "mirror_tree (mirror_tree t) = t"
proof -
  show s: "set (nodes (mirror_tree t)) = set (nodes t)" for t by (induction t) auto
  show "distinct (nodes (mirror_tree t)) = distinct (nodes t)" by (induction t) (auto simp: s)
  show "root_of (mirror_tree t) = root_of t" by (cases t) auto
  show "mirror_tree (mirror_tree t) = t" by (induction t) auto
qed

lemma mirror_frame_sel [simp]: "frame_node (mirror_frame f) = frame_node f" "mirror_frame (mirror_frame f) = f"
  by (cases f; simp)+

lemma mirror_ctx_nodes [simp]: "set (ctx_nodes (map mirror_frame fs)) = set (ctx_nodes fs)"
  "distinct (ctx_nodes (map mirror_frame fs)) = distinct (ctx_nodes fs)"
proof -
  show s: "set (ctx_nodes (map mirror_frame fs)) = set (ctx_nodes fs)" for fs
  proof (induction fs)
    case (Cons f fs)
    then show ?case by (cases f) auto
  qed simp
  show "distinct (ctx_nodes (map mirror_frame fs)) = distinct (ctx_nodes fs)"
  proof (induction fs)
    case (Cons f fs)
    then show ?case by (cases f) (auto simp: s)
  qed simp
qed

lemma mirror_node_at [simp]: "node_at (mirror h) q x c = node_at h q x c"
  by (simp add: node_at_def)

lemma mirror_is_tree [simp]: "is_tree (mirror h) q p (mirror_tree t) = is_tree h q p t"
  by (induction t arbitrary: q p) auto

lemma mirror_ctx_parent [simp]: "ctx_parent (map mirror_frame fs) = ctx_parent fs"
  by (cases fs) auto

lemma mirror_is_ctx [simp]: "is_ctx (mirror h) root p (map mirror_frame fs) = is_ctx h root p fs"
proof (induction fs arbitrary: p)
  case (Cons f fs)
  then show ?case by (cases f) auto
qed simp

lemma mirror_at_pos: "at_pos (mirror h) root (map mirror_frame fs) (mirror_tree t) = at_pos h root fs t"
  by (simp add: at_pos_def)

lemma mirror_rotate: "rb_rotate_right x root (mirror h) = mirror (rb_rotate_left x root h)"
proof -
  have p: "rb_parent (mirror h) y = rb_parent h y" for y by (simp add: rb_parent_def)
  have s: "rb_set_parent y q (mirror g) = mirror (rb_set_parent y q g)" for y q g by (simp add: rb_set_parent_def mirror_set)
  show ?thesis
    unfolding rb_rotate_right_def rb_rotate_left_def Let_def by (simp add: p s mirror_set if_distrib [of mirror, symmetric] cong: if_cong)
qed

lemma rotate_right_pos:
  assumes "at_pos h root fs (Nd c (Nd d l y m) x r)"
  shows "at_pos (rb_rotate_right x root h) root fs (Nd d l y (Nd c m x r))"
proof -
  have "at_pos (mirror h) root (map mirror_frame fs) (mirror_tree (Nd c (Nd d l y m) x r))" using assms by (simp only: mirror_at_pos)
  from rotate_left_pos [OF this [simplified]]
  have "at_pos (rb_rotate_left x root (mirror h)) root (map mirror_frame fs) (mirror_tree (Nd d l y (Nd c m x r)))" by simp
  moreover have "rb_rotate_left x root (mirror h) = mirror (rb_rotate_right x root h)"
    using mirror_rotate [of x root "mirror h"] by simp
  ultimately show ?thesis by (simp only: mirror_at_pos)
qed

subsection \<open>Positions with a frame condition\<close>

lemma same_outside_refl [simp]: "same_outside X root h h"
  by (simp add: same_outside_def)

lemma same_outside_trans: "same_outside X root h h' \<Longrightarrow> same_outside X root h' h'' \<Longrightarrow> same_outside X root h h''"
  by (auto simp: same_outside_def)

lemma same_outside_set:
  "x \<in> X \<Longrightarrow> same_outside X root h (set_pc x v h)" "x \<in> X \<Longrightarrow> same_outside X root h (set_left x v h)"
  "x \<in> X \<Longrightarrow> same_outside X root h (set_right x v h)" "same_outside X root h (set_root root v h)"
  by (auto simp: same_outside_def)

lemma same_outside_mirror [simp]: "same_outside X root (mirror h) (mirror h') = same_outside X root h h'"
  by (auto simp: same_outside_def)

lemma same_outside_repar: "set (nodes t) \<subseteq> X \<Longrightarrow> same_outside X root h (repar q t h)"
  by (cases t) (auto simp: repar_def same_outside_set)

lemma same_outside_relink: "set (ctx_nodes fs) \<subseteq> X \<Longrightarrow> same_outside X root h (relink fs root p h)"
  by (cases fs rule: is_ctx_cases) (auto simp: relink_def same_outside_set)

lemma rotate_left_outside:
  assumes "at_pos h root fs (Nd c l x (Nd d m y r))" and "set (ctx_nodes fs @ nodes (Nd c l x (Nd d m y r))) \<subseteq> X"
  shows "same_outside X root h (rb_rotate_left x root h)"
proof -
  have X: "x \<in> X" "y \<in> X" "set (nodes m) \<subseteq> X" "set (ctx_nodes fs) \<subseteq> X" using assms(2) by auto
  let ?h1 = "set_right x (root_of m) h"
  let ?h2 = "repar x m ?h1"
  let ?h3 = "set_left y x ?h2"
  let ?h4 = "set_pc y (ctx_parent fs + col d) ?h3"
  let ?h5 = "relink fs root y ?h4"
  have "same_outside X root h ?h1" using X by (simp add: same_outside_set)
  also have "same_outside X root ?h1 ?h2" using X by (simp add: same_outside_repar)
  also (same_outside_trans) have "same_outside X root ?h2 ?h3" using X by (simp add: same_outside_set)
  also (same_outside_trans) have "same_outside X root ?h3 ?h4" using X by (simp add: same_outside_set)
  also (same_outside_trans) have "same_outside X root ?h4 ?h5" using X by (simp add: same_outside_relink)
  also (same_outside_trans) have "same_outside X root ?h5 (set_pc x (y + col c) ?h5)" using X by (simp add: same_outside_set)
  finally (same_outside_trans) show ?thesis unfolding rotate_left_eq [OF assms(1)] .
qed

lemma rotate_right_outside:
  assumes "at_pos h root fs (Nd c (Nd d l y m) x r)" and "set (ctx_nodes fs @ nodes (Nd c (Nd d l y m) x r)) \<subseteq> X"
  shows "same_outside X root h (rb_rotate_right x root h)"
proof -
  have "at_pos (mirror h) root (map mirror_frame fs) (mirror_tree (Nd c (Nd d l y m) x r))" using assms(1) by (simp only: mirror_at_pos)
  from rotate_left_outside [OF this [simplified], of X] assms(2)
  have "same_outside X root (mirror h) (rb_rotate_left x root (mirror h))" by auto
  moreover have "rb_rotate_left x root (mirror h) = mirror (rb_rotate_right x root h)"
    using mirror_rotate [of x root "mirror h"] by simp
  ultimately show ?thesis by simp
qed

text \<open>The heap holds \<open>t\<close> in the context \<open>fs\<close> and differs from \<open>h0\<close> only in the nodes of that tree.\<close>

definition pos :: "rb_heap \<Rightarrow> rb_heap \<Rightarrow> ptr \<Rightarrow> frame list \<Rightarrow> rbt \<Rightarrow> bool" where
  "pos h0 h root fs t \<longleftrightarrow> at_pos h root fs t \<and> same_outside (set (ctx_nodes fs @ nodes t)) root h0 h"

lemma pos_plug: "pos h0 h root (f # fs) t \<longleftrightarrow> pos h0 h root fs (plug f t)"
proof -
  have "at_pos h root (f # fs) t \<longleftrightarrow> at_pos h root fs (plug f t)"
    by (cases f) (auto simp: at_pos_def is_tree_root_of [of h _ "rb_left h _"] is_tree_root_of [of h _ "rb_right h _"])
  moreover have "set (ctx_nodes (f # fs) @ nodes t) = set (ctx_nodes fs @ nodes (plug f t))" by (cases f) auto
  ultimately show ?thesis by (simp only: pos_def)
qed

lemma pos_zip_up: "pos h0 h root fs t \<longleftrightarrow> pos h0 h root [] (zip_up fs t)"
  by (induction fs arbitrary: t) (simp_all add: pos_plug)

lemma pos_paint:
  assumes "pos h0 h root fs (Nd c l x r)"
  shows "pos h0 (set_pc x (ctx_parent fs + col c') h) root fs (Nd c' l x r)"
proof -
  have "at_pos (set_pc x (ctx_parent fs + col c') h) root fs (Nd c' l x r)"
    using assms by (auto simp: pos_def at_pos_def dest: node_at_addr)
  moreover have "same_outside (set (ctx_nodes fs @ nodes (Nd c l x r))) root h0 (set_pc x (ctx_parent fs + col c') h)"
    using assms by (auto simp: pos_def intro: same_outside_trans same_outside_set)
  ultimately show ?thesis by (simp add: pos_def)
qed

lemma pos_node: "pos h0 h root fs (Nd c l x r) \<Longrightarrow> node_at h (ctx_parent fs) x c"
  by (simp add: pos_def at_pos_def)

lemma pos_colour:
  assumes "pos h0 h root fs (Nd c l x r)"
  shows "pos h0 (rb_set_black x h) root fs (Nd Black l x r)" "pos h0 (rb_set_red x h) root fs (Nd Red l x r)"
    "pos h0 (rb_set_color x (col c') h) root fs (Nd c' l x r)"
  using pos_paint [OF assms] pos_node [OF assms] by (simp_all del: col.simps)

lemma pos_colour_left:
  assumes "pos h0 h root fs (Nd c (Nd d a y b) x r)"
  shows "pos h0 (rb_set_black y h) root fs (Nd c (Nd Black a y b) x r)" "pos h0 (rb_set_red y h) root fs (Nd c (Nd Red a y b) x r)"
    "pos h0 (rb_set_color y (col c') h) root fs (Nd c (Nd c' a y b) x r)"
  using pos_colour [of h0 h root "FL c x r # fs"] assms by (auto simp: pos_plug)

lemma pos_colour_right:
  assumes "pos h0 h root fs (Nd c l x (Nd d a y b))"
  shows "pos h0 (rb_set_black y h) root fs (Nd c l x (Nd Black a y b))" "pos h0 (rb_set_red y h) root fs (Nd c l x (Nd Red a y b))"
    "pos h0 (rb_set_color y (col c') h) root fs (Nd c l x (Nd c' a y b))"
  using pos_colour [of h0 h root "FR c l x # fs"] assms by (auto simp: pos_plug)

lemma pos_rotate_left:
  assumes "pos h0 h root fs (Nd c l x (Nd d m y r))"
  shows "pos h0 (rb_rotate_left x root h) root fs (Nd d (Nd c l x m) y r)"
proof -
  have p: "at_pos h root fs (Nd c l x (Nd d m y r))" using assms by (simp add: pos_def)
  from rotate_left_outside [OF p order.refl] assms show ?thesis
    using rotate_left_pos [OF p] same_outside_trans unfolding pos_def by fastforce
qed

lemma pos_rotate_right:
  assumes "pos h0 h root fs (Nd c (Nd d l y m) x r)"
  shows "pos h0 (rb_rotate_right x root h) root fs (Nd d l y (Nd c m x r))"
proof -
  have p: "at_pos h root fs (Nd c (Nd d l y m) x r)" using assms by (simp add: pos_def)
  from rotate_right_outside [OF p order.refl] assms show ?thesis
    using rotate_right_pos [OF p] same_outside_trans unfolding pos_def by fastforce
qed

end
