(* ===== verification/Rbtree_Insert.thy ===== *)
theory Rbtree_Insert
  imports Rbtree_Correct
begin

text \<open>
  The red-black invariant of a tree and of a context, and the correctness of insertion: linking a red
  node at a leaf position and \<open>rb_insert_color\<close> ends and leaves a red-black tree with the same
  in-order sequence of nodes.
\<close>

subsection \<open>The invariant\<close>

fun bheight :: "rbt \<Rightarrow> nat" where
  "bheight Lf = 0"
| "bheight (Nd c l x r) = bheight l + col c"

fun rb_inv :: "rbt \<Rightarrow> bool" where
  "rb_inv Lf \<longleftrightarrow> True"
| "rb_inv (Nd c l x r) \<longleftrightarrow> rb_inv l \<and> rb_inv r \<and> bheight l = bheight r \<and>
     (c = Red \<longrightarrow> colour_of l = Black \<and> colour_of r = Black)"

definition is_rbt :: "rbt \<Rightarrow> bool" where
  "is_rbt t \<longleftrightarrow> rb_inv t \<and> colour_of t = Black"

fun black_top :: "frame list \<Rightarrow> bool" where
  "black_top [] \<longleftrightarrow> False"
| "black_top (f # fs) \<longleftrightarrow> frame_colour f = Black"

text \<open>A context that makes a red-black tree of every red-black subtree of black height \<open>n\<close> (and black root, below
  a red node).\<close>

fun ctx_inv :: "frame list \<Rightarrow> nat \<Rightarrow> bool" where
  "ctx_inv [] n \<longleftrightarrow> True"
| "ctx_inv (f # fs) n \<longleftrightarrow> rb_inv (frame_tree f) \<and> bheight (frame_tree f) = n \<and>
     (frame_colour f = Red \<longrightarrow> colour_of (frame_tree f) = Black \<and> black_top fs) \<and>
     ctx_inv fs (n + col (frame_colour f))"

fun paint :: "colour \<Rightarrow> rbt \<Rightarrow> rbt" where
  "paint c Lf = Lf"
| "paint c (Nd d l x r) = Nd c l x r"

lemma not_Red [simp]: "c \<noteq> Red \<longleftrightarrow> c = Black" and not_Black [simp]: "c \<noteq> Black \<longleftrightarrow> c = Red"
  by (cases c; simp)+

lemma paint_nodes [simp]: "nodes (paint c t) = nodes t"
  by (cases t) auto

lemma inv_paint_Black: "rb_inv t \<Longrightarrow> is_rbt (paint Black t)"
  by (cases t) (auto simp: is_rbt_def)

lemma nodes_zip_up: "nodes t = nodes t' \<Longrightarrow> nodes (zip_up fs t) = nodes (zip_up fs t')"
proof (induction fs arbitrary: t t')
  case (Cons f fs)
  then show ?case by (cases f) auto
qed simp

lemma zip_up_inv:
  assumes "rb_inv t" and "ctx_inv fs (bheight t)" and "colour_of t = Red \<longrightarrow> fs = [] \<or> black_top fs"
  shows "rb_inv (zip_up fs t)"
  using assms
proof (induction fs arbitrary: t)
  case (Cons f fs)
  then show ?case by (cases f) (auto intro!: Cons.IH)
qed simp

lemma zip_up_neq_Lf: "t \<noteq> Lf \<or> fs \<noteq> [] \<Longrightarrow> zip_up fs t \<noteq> Lf"
proof (induction fs arbitrary: t)
  case (Cons f fs)
  then show ?case by (cases f) auto
qed simp

subsection \<open>Reading the frames\<close>

lemma pos_parent: "pos h0 h root fs (Nd c l x r) \<Longrightarrow> rb_parent h x = ctx_parent fs"
  by (rule node_at_fields(1) [OF pos_node])

lemma pos_frame: "pos h0 h root (f # fs) t \<Longrightarrow> node_at h (ctx_parent fs) (frame_node f) (frame_colour f)"
  by (cases f) (auto simp: pos_def at_pos_def)

lemma pos_left: "pos h0 h root fs (Nd c l x r) \<Longrightarrow> rb_left h x = root_of l"
  and pos_right: "pos h0 h root fs (Nd c l x r) \<Longrightarrow> rb_right h x = root_of r"
  by (auto simp: pos_def at_pos_def dest: is_tree_root)

lemma pos_red:
  assumes "pos h0 h root fs (Nd c l x r)"
  shows "root_of l \<noteq> 0 \<and> rb_is_red h (root_of l) \<longleftrightarrow> colour_of l = Red"
    and "root_of r \<noteq> 0 \<and> rb_is_red h (root_of r) \<longleftrightarrow> colour_of r = Red"
proof -
  show "root_of l \<noteq> 0 \<and> rb_is_red h (root_of l) \<longleftrightarrow> colour_of l = Red"
    using assms by (cases l) (auto simp: pos_def at_pos_def dest: node_at_addr)
  show "root_of r \<noteq> 0 \<and> rb_is_red h (root_of r) \<longleftrightarrow> colour_of r = Red"
    using assms by (cases r) (auto simp: pos_def at_pos_def dest: node_at_addr)
qed

lemma pos_sides:
  assumes "pos h0 h root fs (Nd c l x r)" and "l \<noteq> Lf \<or> r \<noteq> Lf"
  shows "root_of l \<noteq> root_of r"
proof -
  have "distinct (nodes l @ nodes r)" using assms(1) by (auto simp: pos_def at_pos_def)
  moreover have "0 \<notin> set (nodes l)" "0 \<notin> set (nodes r)"
    using assms(1) by (auto simp: pos_def at_pos_def dest: is_tree_nodes)
  ultimately show ?thesis using assms(2) by (cases l; cases r) auto
qed

lemma red_node: "colour_of t = Red \<longleftrightarrow> (\<exists>l x r. t = Nd Red l x r)"
  by (cases t) auto

subsection \<open>The insertion loop\<close>

text \<open>One round of the loop, by the side of the grandparent on which the parent is. A red uncle: the two reds move
  down and the grandparent becomes the node.\<close>

lemma recolour_step:
  assumes "pos h0 h root fs (Nd Black (Nd Red a p s) g (Nd Red u1 w u2))"
  shows "pos h0 (rb_set_red g (rb_set_black p (rb_set_black w h))) root fs (Nd Red (Nd Black a p s) g (Nd Black u1 w u2))"
    and "pos h0 (rb_set_red g (rb_set_black w (rb_set_black p h))) root fs (Nd Red (Nd Black a p s) g (Nd Black u1 w u2))"
  using assms by (auto intro!: pos_colour(2) pos_colour_left(1) pos_colour_right(1))

lemma rotate_step_left:
  assumes "pos h0 h root fs (Nd Black (Nd Red a p s) g u)"
  shows "pos h0 (rb_rotate_right g root (rb_set_red g (rb_set_black p h))) root fs (Nd Black a p (Nd Red s g u))"
  using assms by (auto intro!: pos_rotate_right pos_colour(2) pos_colour_left(1))

lemma rotate_step_right:
  assumes "pos h0 h root fs (Nd Black u g (Nd Red s p a))"
  shows "pos h0 (rb_rotate_left g root (rb_set_red g (rb_set_black p h))) root fs (Nd Black (Nd Red u g s) p a)"
  using assms by (auto intro!: pos_rotate_left pos_colour(2) pos_colour_right(1))

text \<open>The end of the loop.\<close>

lemma insert_loop_stop:
  assumes "pos h0 h root fs (Nd c a x b)" and "fs = [] \<or> black_top fs"
  shows "insert_loop x root h = Some h"
proof (cases fs)
  case Nil
  with pos_parent [OF assms(1)] show ?thesis by (simp add: insert_loop.simps [of x])
next
  case (Cons f fs')
  from assms(2) Cons have "frame_colour f = Black" by simp
  with pos_frame [of h0 h root f fs'] assms(1) Cons have "\<not> rb_is_red h (frame_node f)" by fastforce
  with pos_parent [OF assms(1)] Cons show ?thesis by (simp add: insert_loop.simps [of x] Let_def)
qed

text \<open>The loop with the parent on the left of the grandparent: what it runs into next.\<close>

lemma insert_round_left:
  assumes t: "pos h0 h root (f # FL Black g u # fs) (Nd Red a x b)" and f: "frame_colour f = Red"
  shows "colour_of u = Red \<Longrightarrow> \<exists>h'. insert_loop x root h = insert_loop g root h' \<and>
      pos h0 h' root fs (Nd Red (paint Black (plug f (Nd Red a x b))) g (paint Black u))"
    and "colour_of u = Black \<Longrightarrow> f = FL Red p s \<Longrightarrow> \<exists>h'. insert_loop x root h = insert_loop x root h' \<and>
      pos h0 h' root fs (Nd Black (Nd Red a x b) p (Nd Red s g u))"
    and "colour_of u = Black \<Longrightarrow> f = FR Red s p \<Longrightarrow> \<exists>h'. insert_loop x root h = insert_loop p root h' \<and>
      pos h0 h' root fs (Nd Black (Nd Red s p a) x (Nd Red b g u))"
proof -
  let ?p = "frame_node f"
  obtain l r where pl: "plug f (Nd Red a x b) = Nd Red l ?p r" using f by (cases f) auto
  have all: "pos h0 h root fs (Nd Black (Nd Red l ?p r) g u)" using t by (simp add: pos_plug pl)
  have px: "rb_parent h x = ?p" using pos_parent [OF t] by simp
  have pp: "node_at h g ?p Red" using pos_frame [OF t] f by simp
  have left: "rb_left h g = ?p" and right: "rb_right h g = root_of u"
    using pos_left [OF all] pos_right [OF all] by simp_all
  have pre: "rb_parent h ?p = g" "?p \<noteq> 0" "rb_is_red h ?p" using pp by (auto dest: node_at_addr)
  note unf = insert_loop.simps [of x root h, unfolded Let_def px pre left right]
  show "\<exists>h'. insert_loop x root h = insert_loop g root h' \<and>
      pos h0 h' root fs (Nd Red (paint Black (plug f (Nd Red a x b))) g (paint Black u))" if "colour_of u = Red"
  proof -
    from that obtain u1 w u2 where u: "u = Nd Red u1 w u2" by (auto simp: red_node)
    have "insert_loop x root h = insert_loop g root (rb_set_red g (rb_set_black ?p (rb_set_black w h)))"
      using unf pos_red(2) [OF all] pre u by simp
    with recolour_step(1) [OF all [unfolded u]] show ?thesis using u pl by auto
  qed
  show "\<exists>h'. insert_loop x root h = insert_loop x root h' \<and> pos h0 h' root fs (Nd Black (Nd Red a x b) p (Nd Red s g u))"
    if b: "colour_of u = Black" and fl: "f = FL Red p s"
  proof -
    have nr: "rb_right h p \<noteq> x"
      using pos_right [of h0 h root "FL Black g u # fs" Red "Nd Red a x b" p s] pos_sides [of h0 h root "FL Black g u # fs" Red "Nd Red a x b" p s]
        t fl by (auto simp: pos_plug)
    have "\<not> (root_of u \<noteq> 0 \<and> rb_is_red h (root_of u))" using pos_red(2) [OF all] b by simp
    then have "insert_loop x root h = insert_loop x root (rb_rotate_right g root (rb_set_red g (rb_set_black p h)))"
      using unf pre fl nr by (auto simp del: not_Red not_Black)
    with rotate_step_left [OF all] show ?thesis using fl pl by auto
  qed
  show "\<exists>h'. insert_loop x root h = insert_loop p root h' \<and> pos h0 h' root fs (Nd Black (Nd Red s p a) x (Nd Red b g u))"
    if b: "colour_of u = Black" and fr: "f = FR Red s p"
  proof -
    have nr: "rb_right h p = x"
      using pos_right [of h0 h root "FL Black g u # fs" Red s p "Nd Red a x b"] t fr by (auto simp: pos_plug)
    have "\<not> (root_of u \<noteq> 0 \<and> rb_is_red h (root_of u))" using pos_red(2) [OF all] b by simp
    then have "insert_loop x root h =
        insert_loop p root (rb_rotate_right g root (rb_set_red g (rb_set_black x (rb_rotate_left p root h))))"
      using unf pre fr nr by (auto simp del: not_Red not_Black)
    moreover have "pos h0 (rb_rotate_left p root h) root (FL Black g u # fs) (Nd Red (Nd Red s p a) x b)"
      using t fr by (intro pos_rotate_left) (simp add: pos_plug)
    ultimately show ?thesis using rotate_step_left [of h0 "rb_rotate_left p root h"] by (auto simp: pos_plug)
  qed
qed

text \<open>The same with the parent on the right.\<close>

lemma insert_round_right:
  assumes t: "pos h0 h root (f # FR Black u g # fs) (Nd Red a x b)" and f: "frame_colour f = Red"
  shows "colour_of u = Red \<Longrightarrow> \<exists>h'. insert_loop x root h = insert_loop g root h' \<and>
      pos h0 h' root fs (Nd Red (paint Black u) g (paint Black (plug f (Nd Red a x b))))"
    and "colour_of u = Black \<Longrightarrow> f = FR Red s p \<Longrightarrow> \<exists>h'. insert_loop x root h = insert_loop x root h' \<and>
      pos h0 h' root fs (Nd Black (Nd Red u g s) p (Nd Red a x b))"
    and "colour_of u = Black \<Longrightarrow> f = FL Red p s \<Longrightarrow> \<exists>h'. insert_loop x root h = insert_loop p root h' \<and>
      pos h0 h' root fs (Nd Black (Nd Red u g a) x (Nd Red b p s))"
proof -
  let ?p = "frame_node f"
  obtain l r where pl: "plug f (Nd Red a x b) = Nd Red l ?p r" using f by (cases f) auto
  have all: "pos h0 h root fs (Nd Black u g (Nd Red l ?p r))" using t by (simp add: pos_plug pl)
  have px: "rb_parent h x = ?p" using pos_parent [OF t] by simp
  have pp: "node_at h g ?p Red" using pos_frame [OF t] f by simp
  have left: "rb_left h g = root_of u" and right: "rb_right h g = ?p"
    using pos_left [OF all] pos_right [OF all] by simp_all
  have ne: "?p \<noteq> root_of u" using pos_sides [OF all] by simp
  have pre: "rb_parent h ?p = g" "?p \<noteq> 0" "rb_is_red h ?p" using pp by (auto dest: node_at_addr)
  note unf = insert_loop.simps [of x root h, unfolded Let_def px pre left right]
  show "\<exists>h'. insert_loop x root h = insert_loop g root h' \<and>
      pos h0 h' root fs (Nd Red (paint Black u) g (paint Black (plug f (Nd Red a x b))))" if "colour_of u = Red"
  proof -
    from that obtain u1 w u2 where u: "u = Nd Red u1 w u2" by (auto simp: red_node)
    have "insert_loop x root h = insert_loop g root (rb_set_red g (rb_set_black ?p (rb_set_black w h)))"
      using unf pos_red(1) [OF all] pre ne u by simp
    with recolour_step(2) [OF all [unfolded u]] show ?thesis using u pl by auto
  qed
  show "\<exists>h'. insert_loop x root h = insert_loop x root h' \<and> pos h0 h' root fs (Nd Black (Nd Red u g s) p (Nd Red a x b))"
    if b: "colour_of u = Black" and fr: "f = FR Red s p"
  proof -
    have nr: "rb_left h p \<noteq> x"
      using pos_left [of h0 h root "FR Black u g # fs" Red s p "Nd Red a x b"] pos_sides [of h0 h root "FR Black u g # fs" Red s p "Nd Red a x b"]
        t fr by (auto simp: pos_plug)
    have "\<not> (root_of u \<noteq> 0 \<and> rb_is_red h (root_of u))" using pos_red(1) [OF all] b by simp
    then have "insert_loop x root h = insert_loop x root (rb_rotate_left g root (rb_set_red g (rb_set_black p h)))"
      using unf pre fr nr ne by (auto simp del: not_Red not_Black)
    with rotate_step_right [OF all] show ?thesis using fr pl by auto
  qed
  show "\<exists>h'. insert_loop x root h = insert_loop p root h' \<and> pos h0 h' root fs (Nd Black (Nd Red u g a) x (Nd Red b p s))"
    if b: "colour_of u = Black" and fl: "f = FL Red p s"
  proof -
    have nr: "rb_left h p = x"
      using pos_left [of h0 h root "FR Black u g # fs" Red "Nd Red a x b" p s] t fl by (auto simp: pos_plug)
    have "\<not> (root_of u \<noteq> 0 \<and> rb_is_red h (root_of u))" using pos_red(1) [OF all] b by simp
    then have "insert_loop x root h =
        insert_loop p root (rb_rotate_left g root (rb_set_red g (rb_set_black x (rb_rotate_right p root h))))"
      using unf pre fl nr ne by (auto simp del: not_Red not_Black)
    moreover have "pos h0 (rb_rotate_right p root h) root (FR Black u g # fs) (Nd Red a x (Nd Red b p s))"
      using t fl by (intro pos_rotate_right) (simp add: pos_plug)
    ultimately show ?thesis using rotate_step_right [of h0 "rb_rotate_right p root h"] by (auto simp: pos_plug)
  qed
qed

text \<open>One round of the loop replaces the subtree at the grandparent by a red-black tree of the same black height and
  goes on there when its root is red; after a rotation it stops, since the parent is black.\<close>

definition round_done :: "rb_heap \<Rightarrow> ptr \<Rightarrow> rb_heap \<Rightarrow> ptr \<Rightarrow> frame list \<Rightarrow> ptr list \<Rightarrow> nat \<Rightarrow> bool" where
  "round_done h0 x h root fs ns n \<longleftrightarrow> (\<exists>h' t'. pos h0 h' root fs t' \<and> nodes t' = ns \<and> rb_inv t' \<and> bheight t' = n \<and>
     (colour_of t' = Red \<and> insert_loop x root h = insert_loop (root_of t') root h' \<or>
      colour_of t' = Black \<and> insert_loop x root h = Some h'))"

lemma round_again:
  assumes "insert_loop x root h = insert_loop g root h'" and "pos h0 h' root fs (Nd Red l g r)"
    and "rb_inv (Nd Red l g r)" and "nodes (Nd Red l g r) = ns" and "bheight l = n"
  shows "round_done h0 x h root fs ns n"
  unfolding round_done_def using assms by (intro exI [of _ h'] exI [of _ "Nd Red l g r"]) auto

lemma round_stop:
  assumes "insert_loop x root h = insert_loop x' root h'" and "pos h0 h' root fs (plug f (Nd Red a x' b))"
    and "frame_colour f = Black" and "rb_inv (plug f (Nd Red a x' b))" and "nodes (plug f (Nd Red a x' b)) = ns"
    and "bheight (plug f (Nd Red a x' b)) = n"
  shows "round_done h0 x h root fs ns n"
proof -
  have "insert_loop x' root h' = Some h'"
    using insert_loop_stop [of h0 h' root "f # fs" Red a x' b] assms(2,3) by (simp add: pos_plug)
  moreover have "colour_of (plug f (Nd Red a x' b)) = Black" using assms(3) by (cases f) auto
  ultimately show ?thesis unfolding round_done_def using assms by auto
qed

lemma round_left:
  assumes t: "pos h0 h root (f # FL Black g u # fs) (Nd Red a x b)" and f: "frame_colour f = Red"
    and inv: "rb_inv (Nd Red a x b)" "ctx_inv (f # FL Black g u # fs) (bheight a)"
  shows "round_done h0 x h root fs (nodes (plug (FL Black g u) (plug f (Nd Red a x b)))) (bheight a + 1)"
proof (cases "colour_of u")
  case Red
  from insert_round_left(1) [OF t f Red] obtain h' where "insert_loop x root h = insert_loop g root h'"
    "pos h0 h' root fs (Nd Red (paint Black (plug f (Nd Red a x b))) g (paint Black u))" by blast
  then show ?thesis by (rule round_again) (use inv f Red in \<open>cases f; cases u; auto\<close>)+
next
  case Black
  show ?thesis
  proof (cases f)
    case (FL d p s)
    with f have ff: "f = FL Red p s" by simp
    from insert_round_left(2) [OF t f Black ff] obtain h' where h': "insert_loop x root h = insert_loop x root h'"
      "pos h0 h' root fs (Nd Black (Nd Red a x b) p (Nd Red s g u))" by blast
    show ?thesis
      by (rule round_stop [where f = "FL Black p (Nd Red s g u)" and a = a and b = b, OF h'(1)]) (use h'(2) inv ff Black in auto)
  next
    case (FR d s p)
    with f have ff: "f = FR Red s p" by simp
    from insert_round_left(3) [OF t f Black ff] obtain h' where h': "insert_loop x root h = insert_loop p root h'"
      "pos h0 h' root fs (Nd Black (Nd Red s p a) x (Nd Red b g u))" by blast
    show ?thesis
      by (rule round_stop [where f = "FL Black x (Nd Red b g u)" and a = s and b = a, OF h'(1)]) (use h'(2) inv ff Black in auto)
  qed
qed

lemma round_right:
  assumes t: "pos h0 h root (f # FR Black u g # fs) (Nd Red a x b)" and f: "frame_colour f = Red"
    and inv: "rb_inv (Nd Red a x b)" "ctx_inv (f # FR Black u g # fs) (bheight a)"
  shows "round_done h0 x h root fs (nodes (plug (FR Black u g) (plug f (Nd Red a x b)))) (bheight a + 1)"
proof (cases "colour_of u")
  case Red
  from insert_round_right(1) [OF t f Red] obtain h' where "insert_loop x root h = insert_loop g root h'"
    "pos h0 h' root fs (Nd Red (paint Black u) g (paint Black (plug f (Nd Red a x b))))" by blast
  then show ?thesis by (rule round_again) (use inv f Red in \<open>cases f; cases u; auto\<close>)+
next
  case Black
  show ?thesis
  proof (cases f)
    case (FR d s p)
    with f have ff: "f = FR Red s p" by simp
    from insert_round_right(2) [OF t f Black ff] obtain h' where h': "insert_loop x root h = insert_loop x root h'"
      "pos h0 h' root fs (Nd Black (Nd Red u g s) p (Nd Red a x b))" by blast
    show ?thesis
      by (rule round_stop [where f = "FR Black (Nd Red u g s) p" and a = a and b = b, OF h'(1)]) (use h'(2) inv ff Black in auto)
  next
    case (FL d p s)
    with f have ff: "f = FL Red p s" by simp
    from insert_round_right(3) [OF t f Black ff] obtain h' where h': "insert_loop x root h = insert_loop p root h'"
      "pos h0 h' root fs (Nd Black (Nd Red u g a) x (Nd Red b p s))" by blast
    show ?thesis
      by (rule round_stop [where f = "FR Black (Nd Red u g a) x" and a = b and b = s, OF h'(1)]) (use h'(2) inv ff Black in auto)
  qed
qed

lemma insert_loop_correct:
  assumes "pos h0 h root fs (Nd Red a x b)" and "rb_inv (Nd Red a x b)" and "ctx_inv fs (bheight a)"
  shows "\<exists>h' t'. insert_loop x root h = Some h' \<and> pos h0 h' root [] t' \<and>
    nodes t' = nodes (zip_up fs (Nd Red a x b)) \<and> rb_inv t'"
  using assms
proof (induction fs arbitrary: h a x b rule: length_induct)
  case (1 fs)
  note t = "1.prems"(1) and inv = "1.prems"(2) and ctx = "1.prems"(3)
  let ?t = "Nd Red a x b"
  show ?case
  proof (cases "fs = [] \<or> black_top fs")
    case True
    then show ?thesis using insert_loop_stop [OF t True] t inv ctx pos_zip_up [of h0 h root fs ?t] zip_up_inv [of ?t fs] by auto
  next
    case False
    then obtain f fs1 where fs1: "fs = f # fs1" and f: "frame_colour f = Red" by (cases fs) auto
    with ctx obtain g fs2 where fs2: "fs1 = g # fs2" and g: "frame_colour g = Black" by (cases fs1) auto
    note fs = fs1 [unfolded fs2]
    have "round_done h0 x h root fs2 (nodes (plug g (plug f ?t))) (bheight a + 1)"
      using round_left [OF _ f inv] round_right [OF _ f inv] t ctx g unfolding fs by (cases g) auto
    then obtain h' t' where t': "pos h0 h' root fs2 t'" "nodes t' = nodes (plug g (plug f ?t))" "rb_inv t'" "bheight t' = bheight a + 1"
      and after: "colour_of t' = Red \<and> insert_loop x root h = insert_loop (root_of t') root h' \<or>
        colour_of t' = Black \<and> insert_loop x root h = Some h'" by (auto simp: round_done_def)
    have n: "nodes (zip_up fs2 t') = nodes (zip_up fs ?t)" using nodes_zip_up [OF t'(2), of fs2] fs by simp
    have c: "ctx_inv fs2 (bheight t')" using ctx g t'(4) f unfolding fs by simp
    from after show ?thesis
    proof
      assume *: "colour_of t' = Red \<and> insert_loop x root h = insert_loop (root_of t') root h'"
      then obtain a' x' b' where "t' = Nd Red a' x' b'" by (auto simp: red_node)
      with "1.IH" [rule_format, of fs2 h' a' x' b'] * t' c n fs show ?thesis by auto
    next
      assume *: "colour_of t' = Black \<and> insert_loop x root h = Some h'"
      with t' c n pos_zip_up [of h0 h' root fs2 t'] zip_up_inv [OF t'(3) c] show ?thesis by auto
    qed
  qed
qed

subsection \<open>Insertion\<close>

text \<open>The nodes before and after a position, in order.\<close>

fun before :: "frame list \<Rightarrow> ptr list" where
  "before [] = []"
| "before (FL c x r # fs) = before fs"
| "before (FR c l x # fs) = before fs @ nodes l @ [x]"

fun after :: "frame list \<Rightarrow> ptr list" where
  "after [] = []"
| "after (FL c x r # fs) = x # nodes r @ after fs"
| "after (FR c l x # fs) = after fs"

lemma nodes_zip: "nodes (zip_up fs t) = before fs @ nodes t @ after fs"
proof (induction fs arbitrary: t)
  case (Cons f fs)
  then show ?case by (cases f) auto
qed simp

lemma ctx_nodes_set: "set (ctx_nodes fs) = set (before fs) \<union> set (after fs)"
proof (induction fs)
  case (Cons f fs)
  then show ?case by (cases f) auto
qed simp

lemma zip_up_inv_ctx:
  assumes "rb_inv (zip_up fs t)" and "colour_of (zip_up fs t) = Black"
  shows "rb_inv t \<and> ctx_inv fs (bheight t) \<and> (colour_of t = Red \<longrightarrow> black_top fs)"
  using assms
proof (induction fs arbitrary: t)
  case (Cons f fs)
  from Cons.IH [of "plug f t"] Cons.prems have "rb_inv (plug f t)" "ctx_inv fs (bheight (plug f t))"
    "colour_of (plug f t) = Red \<longrightarrow> black_top fs" by simp_all
  then show ?case by (cases f) auto
qed simp

text \<open>The link at a position.\<close>

fun link_of :: "ptr \<Rightarrow> frame list \<Rightarrow> rb_link" where
  "link_of root [] = Root_link root"
| "link_of root (FL c x r # fs) = Left_link x"
| "link_of root (FR c l x # fs) = Right_link x"

lemma link_set_relink: "link_set (link_of root fs) p h = relink fs root p h"
  by (cases fs rule: is_ctx_cases) (simp_all add: relink_def)

lemma link_get_root: "at_pos h root fs t \<Longrightarrow> link_get (link_of root fs) h = root_of t"
  by (cases fs rule: is_ctx_cases) (auto simp: at_pos_def)

lemma link_pos:
  assumes "at_pos h root fs Lf" and "x \<noteq> 0" and "4 dvd x" and "x \<notin> set (ctx_nodes fs)"
  shows "at_pos (rb_link_node x (ctx_parent fs) (link_of root fs) h) root fs (Nd Red Lf x Lf)"
    and "same_outside (set (ctx_nodes fs @ [x])) root h (rb_link_node x (ctx_parent fs) (link_of root fs) h)"
proof -
  let ?q = "ctx_parent fs"
  let ?h1 = "set_left x 0 (set_right x 0 (set_pc x ?q h))"
  have q: "4 dvd ?q" "?q \<noteq> x" using assms ctx_parent_addr [of h root 0 fs] ctx_parent_in [of fs] by (auto simp: at_pos_def)
  have "is_ctx ?h1 root 0 fs" "distinct (ctx_nodes fs)" using assms by (auto simp: at_pos_def)
  then have "is_ctx (relink fs root x ?h1) root x fs" by (rule relink_ctx)
  moreover have "node_at ?h1 ?q x Red" using assms(2,3) q by (simp add: node_at_def)
  moreover have "rb_left (relink fs root x ?h1) x = 0" "rb_right (relink fs root x ?h1) x = 0"
    using q by (cases fs rule: is_ctx_cases; auto simp: relink_def)+
  ultimately show "at_pos (rb_link_node x ?q (link_of root fs) h) root fs (Nd Red Lf x Lf)"
    using assms by (auto simp: rb_link_node_def link_set_relink at_pos_def relink_other)
  have "same_outside (set (ctx_nodes fs @ [x])) root h ?h1" by (auto simp: same_outside_def)
  then show "same_outside (set (ctx_nodes fs @ [x])) root h (rb_link_node x ?q (link_of root fs) h)"
    unfolding rb_link_node_def link_set_relink by (rule same_outside_trans) (auto intro: same_outside_relink)
qed

text \<open>\<open>rb_insert_color\<close> on a red node that has just been linked.\<close>

lemma insert_color_pos:
  assumes "pos h0 h root fs (Nd Red Lf x Lf)" and "ctx_inv fs 0"
  shows "\<exists>h' t'. rb_insert_color x root h = Some h' \<and> pos h0 h' root [] t' \<and> is_rbt t' \<and> nodes t' = before fs @ x # after fs"
proof -
  from insert_loop_correct [OF assms(1)] assms(2) obtain h1 t1 where
    h1: "insert_loop x root h = Some h1" "pos h0 h1 root [] t1" "nodes t1 = before fs @ x # after fs" "rb_inv t1"
    by (auto simp: nodes_zip)
  then obtain c l y r where t1: "t1 = Nd c l y r" by (cases t1) auto
  with h1(2) have "rb_node h1 root = y" by (simp add: pos_def at_pos_def)
  moreover have "pos h0 (rb_set_black y h1) root [] (Nd Black l y r)" using pos_colour(1) h1(2) t1 by blast
  moreover have "is_rbt (Nd Black l y r)" using inv_paint_Black [OF h1(4)] t1 by simp
  ultimately show ?thesis using h1 t1 by (auto simp: rb_insert_color_def)
qed

lemma rb_insert_correct:
  assumes "at_pos h root fs Lf" and "is_rbt (zip_up fs Lf)" and "x \<noteq> 0" and "4 dvd x" and "x \<notin> set (ctx_nodes fs)"
  shows "\<exists>h' t'. rb_insert_color x root (rb_link_node x (ctx_parent fs) (link_of root fs) h) = Some h' \<and>
    holds_tree h' root t' \<and> is_rbt t' \<and> nodes t' = before fs @ x # after fs \<and>
    same_outside (set (before fs @ x # after fs)) root h h'"
proof -
  note link = link_pos [OF assms(1,3-5)]
  let ?h1 = "rb_link_node x (ctx_parent fs) (link_of root fs) h"
  have "pos h ?h1 root fs (Nd Red Lf x Lf)" using link by (simp add: pos_def)
  moreover have "ctx_inv fs 0" using zip_up_inv_ctx [of fs Lf] assms(2) by (simp add: is_rbt_def)
  ultimately show ?thesis using insert_color_pos [of h ?h1 root fs x] by (auto simp: pos_def holds_tree_def)
qed

end
