(* ===== verification/Rbtree_Erase.thy ===== *)
theory Rbtree_Erase
  imports Rbtree_Insert
begin

text \<open>
  Removal from the red-black tree. \<open>rb_erase\<close> takes the node out of its position (with two children, its
  in-order successor takes its place) and, when a black node is lost, \<open>__rb_erase_color\<close> restores the
  black heights from there. It ends, and leaves a red-black tree with the in-order sequence of
  nodes less the removed one.
\<close>

subsection \<open>Restoring the black heights\<close>

text \<open>What the loop and the final \<open>rb_set_black\<close> have to achieve.\<close>

definition erased :: "rb_heap \<Rightarrow> ptr \<Rightarrow> ptr list \<Rightarrow> (ptr \<times> rb_heap) option \<Rightarrow> bool" where
  "erased h0 root ns res \<longleftrightarrow> (\<exists>n h' t'. res = Some (n, h') \<and>
     pos h0 (if n \<noteq> 0 then rb_set_black n h' else h') root [] t' \<and> is_rbt t' \<and> nodes t' = ns)"

lemma ctx_inv_root: "ctx_inv fs n \<Longrightarrow> fs \<noteq> [] \<Longrightarrow> colour_of (zip_up fs t) = Black"
proof (induction fs arbitrary: n t)
  case (Cons f fs)
  then show ?case by (cases "fs = []"; cases f) auto
qed simp

lemma paint_inv: "rb_inv (paint Black t) \<Longrightarrow> colour_of t = Black \<Longrightarrow> rb_inv t"
  by (cases t) auto

lemma root_in_ctx: "at_pos h root fs t \<Longrightarrow> fs \<noteq> [] \<Longrightarrow> rb_node h root \<in> set (ctx_nodes fs)"
proof -
  have "is_ctx h root p fs \<Longrightarrow> fs \<noteq> [] \<Longrightarrow> rb_node h root \<in> set (ctx_nodes fs)" for p
  proof (induction fs arbitrary: p)
    case (Cons f fs)
    then show ?case by (cases "fs = []"; cases f) auto
  qed simp
  then show "at_pos h root fs t \<Longrightarrow> fs \<noteq> [] \<Longrightarrow> rb_node h root \<in> set (ctx_nodes fs)" by (auto simp: at_pos_def)
qed

lemma not_root:
  assumes "pos h0 h root fs t" and "fs \<noteq> []"
  shows "root_of t \<noteq> rb_node h root"
proof -
  have p: "at_pos h root fs t" using assms(1) by (simp add: pos_def)
  from root_in_ctx [OF this assms(2)] have r: "rb_node h root \<in> set (ctx_nodes fs)" .
  with p have "rb_node h root \<noteq> 0" using is_ctx_nodes [of h root "root_of t" fs "rb_node h root"] by (auto simp: at_pos_def)
  moreover have "rb_node h root \<notin> set (nodes t)" using p r by (auto simp: at_pos_def)
  ultimately show ?thesis using root_in [of t] by (cases t) auto
qed

lemma pos_null_or_black: "pos h0 h root fs t \<Longrightarrow> null_or_black h (root_of t) \<longleftrightarrow> colour_of t = Black"
  by (cases t) (auto simp: null_or_black_def pos_def at_pos_def dest: node_at_addr)

lemma pos_children_black:
  assumes "pos h0 h root fs (Nd c l x r)"
  shows "null_or_black h (rb_left h x) \<longleftrightarrow> colour_of l = Black" "null_or_black h (rb_right h x) \<longleftrightarrow> colour_of r = Black"
  using pos_null_or_black [of h0 h root "FL c x r # fs" l] pos_null_or_black [of h0 h root "FR c l x # fs" r]
    assms pos_left [OF assms] pos_right [OF assms] by (simp_all add: pos_plug)

lemma paint_root:
  assumes "pos h0 h root [] t" and "t \<noteq> Lf"
  shows "pos h0 (rb_set_black (rb_node h root) h) root [] (paint Black t)" and "rb_node h root \<noteq> 0"
proof -
  from assms(2) obtain c l x r where t: "t = Nd c l x r" by (cases t) auto
  have "rb_node h root = x" "x \<noteq> 0" using assms(1) t by (auto simp: pos_def at_pos_def dest: node_at_addr)
  with pos_colour(1) [of h0 h root "[]" c l x r] assms(1) t
  show "pos h0 (rb_set_black (rb_node h root) h) root [] (paint Black t)" "rb_node h root \<noteq> 0" by simp_all
qed

text \<open>The loop stops at a red node or at the root.\<close>

lemma erase_stop:
  assumes t: "pos h0 h root fs t" and inv: "rb_inv (paint Black t)" "ctx_inv fs (bheight t + 1)"
    and stop: "colour_of t = Red \<or> fs = []" and ns: "nodes (zip_up fs t) = ns"
  shows "erased h0 root ns (erase_loop (root_of t) (ctx_parent fs) root h)"
proof -
  have run: "erase_loop (root_of t) (ctx_parent fs) root h = Some (root_of t, h)"
  proof (cases "colour_of t = Red")
    case True
    with pos_null_or_black [OF t] show ?thesis by (simp add: erase_loop.simps [of "root_of t"])
  next
    case False
    with stop t have "root_of t = rb_node h root" by (auto simp: pos_def at_pos_def)
    then show ?thesis by (simp add: erase_loop.simps [of "rb_node h root"])
  qed
  show ?thesis
  proof (cases t)
    case Lf
    with stop t ns run show ?thesis by (auto simp: erased_def is_rbt_def)
  next
    case (Nd c l x r)
    with t have x: "x \<noteq> 0" by (auto simp: pos_def at_pos_def dest: node_at_addr)
    have p: "pos h0 (rb_set_black x h) root fs (paint Black t)" using pos_colour(1) t Nd by fastforce
    have "is_rbt (zip_up fs (paint Black t))"
    proof (cases "fs = []")
      case True
      with inv(1) Nd show ?thesis by (simp add: is_rbt_def)
    next
      case False
      with stop Nd have "bheight (paint Black t) = bheight t + 1" by simp
      with inv Nd have "rb_inv (zip_up fs (paint Black t))" by (intro zip_up_inv) auto
      with ctx_inv_root [OF inv(2) False] show ?thesis by (simp add: is_rbt_def)
    qed
    moreover have "nodes (zip_up fs (paint Black t)) = ns" using ns nodes_zip_up [of "paint Black t" t fs] by simp
    ultimately show ?thesis using run p x Nd pos_zip_up [of h0 "rb_set_black x h" root fs "paint Black t"]
      by (auto simp: erased_def)
  qed
qed

text \<open>It breaks after the last rotation, with a whole tree again.\<close>

lemma erase_break:
  assumes "pos h0 h root fs t" and "rb_inv t" and "ctx_inv fs (bheight t)" and "colour_of t = Red \<longrightarrow> black_top fs"
    and "nodes (zip_up fs t) = ns" and "t \<noteq> Lf"
  shows "erased h0 root ns (Some (rb_node h root, h))"
proof -
  let ?t = "zip_up fs t"
  have p: "pos h0 h root [] ?t" using assms(1) pos_zip_up by blast
  have "rb_inv ?t" using assms(2-4) by (intro zip_up_inv) auto
  with inv_paint_Black have "is_rbt (paint Black ?t)" by blast
  with paint_root [OF p zip_up_neq_Lf] assms(5,6) show ?thesis unfolding erased_def by auto
qed

text \<open>The rest of a round once the sibling \<open>other\<close> is black, on the left and on the right.\<close>

definition last_left :: "ptr \<Rightarrow> ptr \<Rightarrow> ptr \<Rightarrow> rb_heap \<Rightarrow> (ptr \<times> rb_heap) option" where
  "last_left other parent root h2 =
     (let h3 = rb_set_color other (rb_color h2 parent) h2;
          h4 = rb_set_black parent h3;
          h5 = rb_set_black (rb_right h4 other) h4;
          h6 = rb_rotate_left parent root h5
      in Some (rb_node h6 root, h6))"

definition last_right :: "ptr \<Rightarrow> ptr \<Rightarrow> ptr \<Rightarrow> rb_heap \<Rightarrow> (ptr \<times> rb_heap) option" where
  "last_right other parent root h2 =
     (let h3 = rb_set_color other (rb_color h2 parent) h2;
          h4 = rb_set_black parent h3;
          h5 = rb_set_black (rb_left h4 other) h4;
          h6 = rb_rotate_right parent root h5
      in Some (rb_node h6 root, h6))"

definition fix_left :: "ptr \<Rightarrow> ptr \<Rightarrow> ptr \<Rightarrow> rb_heap \<Rightarrow> (ptr \<times> rb_heap) option" where
  "fix_left other parent root h1 =
     (if null_or_black h1 (rb_left h1 other) \<and> null_or_black h1 (rb_right h1 other)
      then let h2 = rb_set_red other h1 in erase_loop parent (rb_parent h2 parent) root h2
      else case (if null_or_black h1 (rb_right h1 other) then
                   let h2 = rb_rotate_right other root (rb_set_red other (rb_set_black (rb_left h1 other) h1))
                   in (rb_right h2 parent, h2)
                 else (other, h1)) of (other, h2) \<Rightarrow>
        last_left other parent root h2)"

definition fix_right :: "ptr \<Rightarrow> ptr \<Rightarrow> ptr \<Rightarrow> rb_heap \<Rightarrow> (ptr \<times> rb_heap) option" where
  "fix_right other parent root h1 =
     (if null_or_black h1 (rb_left h1 other) \<and> null_or_black h1 (rb_right h1 other)
      then let h2 = rb_set_red other h1 in erase_loop parent (rb_parent h2 parent) root h2
      else case (if null_or_black h1 (rb_left h1 other) then
                   let h2 = rb_rotate_left other root (rb_set_red other (rb_set_black (rb_right h1 other) h1))
                   in (rb_left h2 parent, h2)
                 else (other, h1)) of (other, h2) \<Rightarrow>
        last_right other parent root h2)"

lemma erase_loop_unfold:
  "erase_loop node parent root h =
     (if null_or_black h node \<and> node \<noteq> rb_node h root then
        if rb_left h parent = node then
          case (let other = rb_right h parent in
                if rb_is_red h other then
                  let h1 = rb_rotate_left parent root (rb_set_red parent (rb_set_black other h))
                  in (rb_right h1 parent, h1)
                else (other, h)) of (other, h1) \<Rightarrow> fix_left other parent root h1
        else
          case (let other = rb_left h parent in
                if rb_is_red h other then
                  let h1 = rb_rotate_right parent root (rb_set_red parent (rb_set_black other h))
                  in (rb_left h1 parent, h1)
                else (other, h)) of (other, h1) \<Rightarrow> fix_right other parent root h1
      else Some (node, h))"
  unfolding fix_left_def fix_right_def last_left_def last_right_def by (rule erase_loop.simps)

text \<open>The last rotation: the red child of the sibling pays for the lost black node.\<close>

lemma last_rotation_left:
  assumes "pos h0 h root fs (Nd c t p (Nd d sl w (Nd Red sa v sb)))"
  shows "\<exists>h'. last_left w p root h = Some (rb_node h' root, h') \<and> pos h0 h' root fs (Nd c (Nd Black t p sl) w (Nd Black sa v sb))"
proof -
  have c: "rb_color h p = col c" using pos_node [OF assms] by simp
  let ?h3 = "rb_set_color w (col c) h"
  have 3: "pos h0 ?h3 root fs (Nd c t p (Nd c sl w (Nd Red sa v sb)))" by (rule pos_colour_right(3) [OF assms])
  let ?h4 = "rb_set_black p ?h3"
  have 4: "pos h0 ?h4 root fs (Nd Black t p (Nd c sl w (Nd Red sa v sb)))" by (rule pos_colour(1) [OF 3])
  then have 4: "pos h0 ?h4 root (FR Black t p # fs) (Nd c sl w (Nd Red sa v sb))" by (simp add: pos_plug)
  have v: "rb_right ?h4 w = v" using pos_right [OF 4] by simp
  have "pos h0 (rb_set_black v ?h4) root fs (Nd Black t p (Nd c sl w (Nd Black sa v sb)))"
    using pos_colour_right(1) [OF 4] by (simp add: pos_plug)
  from pos_rotate_left [OF this] show ?thesis unfolding last_left_def Let_def c v by blast
qed

lemma last_rotation_right:
  assumes "pos h0 h root fs (Nd c (Nd d (Nd Red sa v sb) w sr) p t)"
  shows "\<exists>h'. last_right w p root h = Some (rb_node h' root, h') \<and> pos h0 h' root fs (Nd c (Nd Black sa v sb) w (Nd Black sr p t))"
proof -
  have c: "rb_color h p = col c" using pos_node [OF assms] by simp
  let ?h3 = "rb_set_color w (col c) h"
  have 3: "pos h0 ?h3 root fs (Nd c (Nd c (Nd Red sa v sb) w sr) p t)" by (rule pos_colour_left(3) [OF assms])
  let ?h4 = "rb_set_black p ?h3"
  have 4: "pos h0 ?h4 root fs (Nd Black (Nd c (Nd Red sa v sb) w sr) p t)" by (rule pos_colour(1) [OF 3])
  then have 4: "pos h0 ?h4 root (FL Black p t # fs) (Nd c (Nd Red sa v sb) w sr)" by (simp add: pos_plug)
  have v: "rb_left ?h4 w = v" using pos_left [OF 4] by simp
  have "pos h0 (rb_set_black v ?h4) root fs (Nd Black (Nd c (Nd Black sa v sb) w sr) p t)"
    using pos_colour_left(1) [OF 4] by (simp add: pos_plug)
  from pos_rotate_right [OF this] show ?thesis unfolding last_right_def Let_def c v by blast
qed

text \<open>What is known of the subtrees when the sibling is black; \<open>rec\<close> is the correctness of the loop one level up.\<close>

lemma fix_left_correct:
  assumes t: "pos h0 h root fs (Nd c t p (Nd Black sl w sr))"
    and inv: "rb_inv t" "colour_of t = Black" "rb_inv (Nd Black sl w sr)" "bheight t = bheight sl" "ctx_inv fs (bheight t + 1 + col c)"
      "c = Red \<longrightarrow> black_top fs"
    and ns: "nodes (zip_up fs (Nd c t p (Nd Black sl w sr))) = ns"
    and rec: "\<And>h' t'. pos h0 h' root fs t' \<Longrightarrow> rb_inv (paint Black t') \<Longrightarrow> ctx_inv fs (bheight t' + 1) \<Longrightarrow> colour_of t' = c \<Longrightarrow>
      nodes (zip_up fs t') = ns \<Longrightarrow> erased h0 root ns (erase_loop (root_of t') (ctx_parent fs) root h')"
  shows "erased h0 root ns (fix_left w p root h)"
proof -
  have ns': "nodes (zip_up fs t') = ns" if "nodes t' = nodes (Nd c t p (Nd Black sl w sr))" for t'
    using nodes_zip_up [OF that, of fs] ns by simp
  have tw: "pos h0 h root (FR c t p # fs) (Nd Black sl w sr)" using t by (simp add: pos_plug)
  note kids = pos_children_black [OF tw]
  have last: "erased h0 root ns (last_left w' p root h')"
    if p: "pos h0 h' root fs (Nd c t p (Nd Black sl' w' (Nd Red sa v sb)))" and i: "rb_inv (Nd Black sl' w' (Nd Red sa v sb))"
      "bheight sl' = bheight t" "nodes (Nd Black sl' w' (Nd Red sa v sb)) = nodes (Nd Black sl w sr)" for h' sl' w' sa v sb
  proof -
    let ?t = "Nd c (Nd Black t p sl') w' (Nd Black sa v sb)"
    from last_rotation_left [OF p] obtain h2 where h2: "last_left w' p root h' = Some (rb_node h2 root, h2)"
      "pos h0 h2 root fs ?t" by blast
    have "nodes (zip_up fs ?t) = ns" using i(3) by (intro ns') simp
    moreover have "rb_inv ?t" "ctx_inv fs (bheight ?t)" using inv i by (auto simp: add.commute)
    ultimately show ?thesis unfolding h2(1) using inv(6) by (intro erase_break [OF h2(2)]) auto
  qed
  consider "colour_of sl = Black" "colour_of sr = Black" | "colour_of sl = Red" "colour_of sr = Black" | "colour_of sr = Red"
    by (cases "colour_of sl"; cases "colour_of sr") auto
  then show ?thesis
  proof cases
    case 1
    let ?h2 = "rb_set_red w h"
    have p2: "pos h0 ?h2 root fs (Nd c t p (Nd Red sl w sr))" by (rule pos_colour_right(2) [OF t])
    have "fix_left w p root h = erase_loop p (ctx_parent fs) root ?h2"
      using 1 kids pos_parent [OF p2] by (simp add: fix_left_def Let_def)
    with rec [OF p2] 1 inv ns' [of "Nd c t p (Nd Red sl w sr)"] show ?thesis by (simp add: add.commute)
  next
    case 2
    then obtain sa v sb where sl: "sl = Nd Red sa v sb" by (auto simp: red_node)
    have v: "rb_left h w = v" using pos_left [OF tw] sl by simp
    let ?h2 = "rb_rotate_right w root (rb_set_red w (rb_set_black v h))"
    have p2: "pos h0 ?h2 root (FR c t p # fs) (Nd Black sa v (Nd Red sb w sr))"
      using pos_rotate_right [OF pos_colour(2) [OF pos_colour_left(1) [OF tw [unfolded sl]]]] .
    have p3: "pos h0 ?h2 root fs (Nd c t p (Nd Black sa v (Nd Red sb w sr)))" using p2 by (simp add: pos_plug)
    from pos_right [OF this] have "rb_right ?h2 p = v" by simp
    then have run: "fix_left w p root h = last_left v p root ?h2" using 2 kids v by (simp add: fix_left_def Let_def)
    show ?thesis unfolding run by (rule last [OF p3]) (use inv sl 2 in auto)
  next
    case 3
    then obtain sa v sb where sr: "sr = Nd Red sa v sb" by (auto simp: red_node)
    have run: "fix_left w p root h = last_left w p root h" using 3 kids by (simp add: fix_left_def Let_def)
    show ?thesis unfolding run by (rule last [OF t [unfolded sr]]) (use inv sr in auto)
  qed
qed

lemma fix_right_correct:
  assumes t: "pos h0 h root fs (Nd c (Nd Black sl w sr) p t)"
    and inv: "rb_inv t" "colour_of t = Black" "rb_inv (Nd Black sl w sr)" "bheight t = bheight sl" "ctx_inv fs (bheight t + 1 + col c)"
      "c = Red \<longrightarrow> black_top fs"
    and ns: "nodes (zip_up fs (Nd c (Nd Black sl w sr) p t)) = ns"
    and rec: "\<And>h' t'. pos h0 h' root fs t' \<Longrightarrow> rb_inv (paint Black t') \<Longrightarrow> ctx_inv fs (bheight t' + 1) \<Longrightarrow> colour_of t' = c \<Longrightarrow>
      nodes (zip_up fs t') = ns \<Longrightarrow> erased h0 root ns (erase_loop (root_of t') (ctx_parent fs) root h')"
  shows "erased h0 root ns (fix_right w p root h)"
proof -
  have ns': "nodes (zip_up fs t') = ns" if "nodes t' = nodes (Nd c (Nd Black sl w sr) p t)" for t'
    using nodes_zip_up [OF that, of fs] ns by simp
  have tw: "pos h0 h root (FL c p t # fs) (Nd Black sl w sr)" using t by (simp add: pos_plug)
  note kids = pos_children_black [OF tw]
  have last: "erased h0 root ns (last_right w' p root h')"
    if p: "pos h0 h' root fs (Nd c (Nd Black (Nd Red sa v sb) w' sr') p t)" and i: "rb_inv (Nd Black (Nd Red sa v sb) w' sr')"
      "bheight sr' = bheight t" "nodes (Nd Black (Nd Red sa v sb) w' sr') = nodes (Nd Black sl w sr)" for h' sr' w' sa v sb
  proof -
    let ?t = "Nd c (Nd Black sa v sb) w' (Nd Black sr' p t)"
    from last_rotation_right [OF p] obtain h2 where h2: "last_right w' p root h' = Some (rb_node h2 root, h2)"
      "pos h0 h2 root fs ?t" by blast
    have "nodes (zip_up fs ?t) = ns"
      using arg_cong [OF i(3), of "\<lambda>xs. xs @ p # nodes t"] by (intro ns') simp
    moreover have "rb_inv ?t" "ctx_inv fs (bheight ?t)" using inv i by (auto simp: add.commute)
    ultimately show ?thesis unfolding h2(1) using inv(6) by (intro erase_break [OF h2(2)]) auto
  qed
  consider "colour_of sl = Black" "colour_of sr = Black" | "colour_of sr = Red" "colour_of sl = Black" | "colour_of sl = Red"
    by (cases "colour_of sl"; cases "colour_of sr") auto
  then show ?thesis
  proof cases
    case 1
    let ?h2 = "rb_set_red w h"
    have p2: "pos h0 ?h2 root fs (Nd c (Nd Red sl w sr) p t)" by (rule pos_colour_left(2) [OF t])
    have "fix_right w p root h = erase_loop p (ctx_parent fs) root ?h2"
      using 1 kids pos_parent [OF p2] by (simp add: fix_right_def Let_def)
    with rec [OF p2] 1 inv ns' [of "Nd c (Nd Red sl w sr) p t"] show ?thesis by (simp add: add.commute)
  next
    case 2
    then obtain sa v sb where sr: "sr = Nd Red sa v sb" by (auto simp: red_node)
    have v: "rb_right h w = v" using pos_right [OF tw] sr by simp
    let ?h2 = "rb_rotate_left w root (rb_set_red w (rb_set_black v h))"
    have p2: "pos h0 ?h2 root (FL c p t # fs) (Nd Black (Nd Red sl w sa) v sb)"
      using pos_rotate_left [OF pos_colour(2) [OF pos_colour_right(1) [OF tw [unfolded sr]]]] .
    have p3: "pos h0 ?h2 root fs (Nd c (Nd Black (Nd Red sl w sa) v sb) p t)" using p2 by (simp add: pos_plug)
    from pos_left [OF this] have "rb_left ?h2 p = v" by simp
    then have run: "fix_right w p root h = last_right v p root ?h2" using 2 kids v by (simp add: fix_right_def Let_def)
    show ?thesis unfolding run by (rule last [OF p3]) (use inv sr 2 in auto)
  next
    case 3
    then obtain sa v sb where sl: "sl = Nd Red sa v sb" by (auto simp: red_node)
    have run: "fix_right w p root h = last_right w p root h" using 3 kids by (simp add: fix_right_def Let_def)
    show ?thesis unfolding run by (rule last [OF t [unfolded sl]]) (use inv sl in auto)
  qed
qed

text \<open>A round with the node on the left: a red sibling is rotated away first.\<close>

lemma erase_left:
  assumes t: "pos h0 h root (FL c p s # fs) t" and inv: "rb_inv t" "colour_of t = Black" "ctx_inv (FL c p s # fs) (bheight t + 1)"
    and ns: "nodes (zip_up (FL c p s # fs) t) = ns"
    and rec: "\<And>h' t'. pos h0 h' root fs t' \<Longrightarrow> rb_inv (paint Black t') \<Longrightarrow> ctx_inv fs (bheight t' + 1) \<Longrightarrow> colour_of t' = c \<Longrightarrow>
      nodes (zip_up fs t') = ns \<Longrightarrow> erased h0 root ns (erase_loop (root_of t') (ctx_parent fs) root h')"
  shows "erased h0 root ns (erase_loop (root_of t) p root h)"
proof -
  from inv(3) obtain d sl w sr where s: "s = Nd d sl w sr" by (cases s) auto
  have all: "pos h0 h root fs (Nd c t p (Nd d sl w sr))" using t s by (simp add: pos_plug)
  have sib: "rb_left h p = root_of t" "rb_right h p = w" using pos_left [OF all] pos_right [OF all] by simp_all
  have red: "rb_is_red h w \<longleftrightarrow> d = Red" using pos_node [of h0 h root "FR c t p # fs" d sl w sr] all by (simp add: pos_plug)
  note unf = erase_loop_unfold [of "root_of t" p root h, unfolded sib]
  have go: "null_or_black h (root_of t)" "root_of t \<noteq> rb_node h root" using pos_null_or_black [OF t] inv(2) not_root [OF t] by auto
  show ?thesis
  proof (cases d)
    case Black
    have run: "erase_loop (root_of t) p root h = fix_left w p root h" using unf go red Black by simp
    show ?thesis unfolding run
      by (rule fix_left_correct [OF all [unfolded Black] inv(1,2) _ _ _ _ _ rec]) (use inv(3) s Black ns in auto)
  next
    case Red
    with inv(3) s obtain la x lb where c: "c = Black" and sl: "sl = Nd Black la x lb"
      by (cases sl) (auto split: if_splits)
    let ?h1 = "rb_rotate_left p root (rb_set_red p (rb_set_black w h))"
    have "pos h0 ?h1 root fs (Nd Black (Nd Red t p sl) w sr)"
      using pos_rotate_left [OF pos_colour(2) [OF pos_colour_right(1) [OF all]]] .
    then have p1: "pos h0 ?h1 root (FL Black w sr # fs) (Nd Red t p (Nd Black la x lb))" using sl by (simp add: pos_plug)
    have "rb_right ?h1 p = x" using pos_right [OF p1] by simp
    then have run: "erase_loop (root_of t) p root h = fix_left x p root ?h1" using unf go red Red by (simp add: Let_def)
    show ?thesis unfolding run
    proof (rule fix_left_correct [OF p1 inv(1,2)])
      show "nodes (zip_up (FL Black w sr # fs) (Nd Red t p (Nd Black la x lb))) = ns"
        using ns nodes_zip_up [of "Nd Black (Nd Red t p sl) w sr" "Nd c t p s" fs] s sl by simp
    next
      fix h' t'
      assume "pos h0 h' root (FL Black w sr # fs) t'" "rb_inv (paint Black t')" "ctx_inv (FL Black w sr # fs) (bheight t' + 1)"
        "colour_of t' = Red" "nodes (zip_up (FL Black w sr # fs) t') = ns"
      then show "erased h0 root ns (erase_loop (root_of t') (ctx_parent (FL Black w sr # fs)) root h')"
        by (intro erase_stop) simp_all
    qed (use inv(3) s c Red sl in auto)
  qed
qed

lemma erase_right:
  assumes t: "pos h0 h root (FR c s p # fs) t" and inv: "rb_inv t" "colour_of t = Black" "ctx_inv (FR c s p # fs) (bheight t + 1)"
    and ns: "nodes (zip_up (FR c s p # fs) t) = ns"
    and rec: "\<And>h' t'. pos h0 h' root fs t' \<Longrightarrow> rb_inv (paint Black t') \<Longrightarrow> ctx_inv fs (bheight t' + 1) \<Longrightarrow> colour_of t' = c \<Longrightarrow>
      nodes (zip_up fs t') = ns \<Longrightarrow> erased h0 root ns (erase_loop (root_of t') (ctx_parent fs) root h')"
  shows "erased h0 root ns (erase_loop (root_of t) p root h)"
proof -
  from inv(3) obtain d sl w sr where s: "s = Nd d sl w sr" by (cases s) auto
  have all: "pos h0 h root fs (Nd c (Nd d sl w sr) p t)" using t s by (simp add: pos_plug)
  have sib: "rb_left h p = w" "rb_right h p = root_of t" using pos_left [OF all] pos_right [OF all] by simp_all
  have ne: "w \<noteq> root_of t" using pos_sides [OF all] by simp
  have red: "rb_is_red h w \<longleftrightarrow> d = Red" using pos_node [of h0 h root "FL c p t # fs" d sl w sr] all by (simp add: pos_plug)
  note unf = erase_loop_unfold [of "root_of t" p root h, unfolded sib]
  have go: "null_or_black h (root_of t)" "root_of t \<noteq> rb_node h root" using pos_null_or_black [OF t] inv(2) not_root [OF t] by auto
  show ?thesis
  proof (cases d)
    case Black
    have run: "erase_loop (root_of t) p root h = fix_right w p root h" using unf go red Black ne by simp
    show ?thesis unfolding run
      by (rule fix_right_correct [OF all [unfolded Black] inv(1,2) _ _ _ _ _ rec]) (use inv(3) s Black ns in auto)
  next
    case Red
    with inv(3) s obtain la x lb where c: "c = Black" and sr: "sr = Nd Black la x lb"
      by (cases sr) (auto split: if_splits)
    let ?h1 = "rb_rotate_right p root (rb_set_red p (rb_set_black w h))"
    have "pos h0 ?h1 root fs (Nd Black sl w (Nd Red sr p t))"
      using pos_rotate_right [OF pos_colour(2) [OF pos_colour_left(1) [OF all]]] .
    then have p1: "pos h0 ?h1 root (FR Black sl w # fs) (Nd Red (Nd Black la x lb) p t)" using sr by (simp add: pos_plug)
    have "rb_left ?h1 p = x" using pos_left [OF p1] by simp
    then have run: "erase_loop (root_of t) p root h = fix_right x p root ?h1" using unf go red Red ne by (simp add: Let_def)
    show ?thesis unfolding run
    proof (rule fix_right_correct [OF p1 inv(1,2)])
      show "nodes (zip_up (FR Black sl w # fs) (Nd Red (Nd Black la x lb) p t)) = ns"
        using ns nodes_zip_up [of "Nd Black sl w (Nd Red sr p t)" "Nd c s p t" fs] s sr by simp
    next
      fix h' t'
      assume "pos h0 h' root (FR Black sl w # fs) t'" "rb_inv (paint Black t')" "ctx_inv (FR Black sl w # fs) (bheight t' + 1)"
        "colour_of t' = Red" "nodes (zip_up (FR Black sl w # fs) t') = ns"
      then show "erased h0 root ns (erase_loop (root_of t') (ctx_parent (FR Black sl w # fs)) root h')"
        by (intro erase_stop) simp_all
    qed (use inv(3) s c Red sr in auto)
  qed
qed

lemma erase_loop_correct:
  assumes "pos h0 h root fs t" and "rb_inv (paint Black t)" and "ctx_inv fs (bheight t + 1)" and "nodes (zip_up fs t) = ns"
  shows "erased h0 root ns (erase_loop (root_of t) (ctx_parent fs) root h)"
  using assms
proof (induction fs arbitrary: h t)
  case Nil
  then show ?case by (intro erase_stop) auto
next
  case (Cons f fs)
  show ?case
  proof (cases "colour_of t")
    case Red
    with Cons.prems show ?thesis by (intro erase_stop) auto
  next
    case Black
    with Cons.prems(2) have "rb_inv t" by (rule paint_inv)
    with Black Cons show ?thesis
      using erase_left [of h0 h root _ _ _ fs t ns] erase_right [of h0 h root _ _ _ fs t ns] by (cases f) auto
  qed
qed

lemma erase_color_correct:
  assumes "pos h0 h root fs t" and "rb_inv (paint Black t)" and "ctx_inv fs (bheight t + 1)"
  shows "\<exists>h' t'. rb_erase_color (root_of t) (ctx_parent fs) root h = Some h' \<and> pos h0 h' root [] t' \<and> is_rbt t' \<and>
    nodes t' = before fs @ nodes t @ after fs"
proof -
  from erase_loop_correct [OF assms refl] obtain n h' t' where "erase_loop (root_of t) (ctx_parent fs) root h = Some (n, h')"
    "pos h0 (if n \<noteq> 0 then rb_set_black n h' else h') root [] t'" "is_rbt t'" "nodes t' = nodes (zip_up fs t)"
    unfolding erased_def by blast
  then show ?thesis unfolding rb_erase_color_def nodes_zip by (intro exI conjI) simp_all
qed

subsection \<open>Taking a node out\<close>

lemma replace_child_relink:
  assumes "is_ctx h root x fs" and "x \<noteq> 0" and "x \<notin> set (ctx_nodes fs)"
  shows "replace_child (ctx_parent fs) x p root h = relink fs root p h"
  unfolding relink_left(1) [OF assms, of p, symmetric] replace_child_def by (intro if_cong refl) auto

text \<open>A node with at most one child: the child moves up.\<close>

lemma splice:
  assumes "at_pos h root fs (Nd c l x r)" and "k = r \<and> l = Lf \<or> k = l \<and> r = Lf"
  shows "erase_one x (root_of k) root h = (col c, root_of k, ctx_parent fs, relink fs root (root_of k) (repar (ctx_parent fs) k h))"
    and "at_pos (relink fs root (root_of k) (repar (ctx_parent fs) k h)) root fs k"
    and "same_outside (set (ctx_nodes fs @ nodes k)) root h (relink fs root (root_of k) (repar (ctx_parent fs) k h))"
proof -
  let ?q = "ctx_parent fs"
  let ?h1 = "repar ?q k h"
  have ctx: "is_ctx h root x fs" and x: "node_at h ?q x c" and k: "is_tree h x (root_of k) k"
    and dist: "distinct (ctx_nodes fs)" "distinct (nodes k)" "set (nodes k) \<inter> set (ctx_nodes fs) = {}" "x \<notin> set (ctx_nodes fs)" "x \<notin> set (nodes k)"
    using assms by (auto simp: at_pos_def is_tree_root_of [of h _ "rb_left h _"] is_tree_root_of [of h _ "rb_right h _"])
  have q: "4 dvd ?q" "x \<noteq> 0" using x by (auto dest: node_at_addr)
  have ctx1: "is_ctx ?h1 root x fs" using ctx dist by (simp add: repar_other)
  have par: "(if root_of k \<noteq> 0 then rb_set_parent (root_of k) ?q h else h) = ?h1" by (rule repar_set_parent [OF k q(1)])
  show "erase_one x (root_of k) root h = (col c, root_of k, ?q, relink fs root (root_of k) ?h1)"
    unfolding erase_one_def Let_def node_at_fields(1,2) [OF x] par replace_child_relink [OF ctx1 q(2) dist(4)] ..
  have "is_tree ?h1 ?q (root_of k) k" by (rule repar_tree [OF k q(1) dist(2)])
  moreover have "?q \<notin> set (nodes k)" using dist(3) by (intro ctx_parent_notin [OF k]) auto
  ultimately show "at_pos (relink fs root (root_of k) ?h1) root fs k"
    using relink_ctx [OF ctx1 dist(1)] dist by (auto simp: at_pos_def relink_other)
  have "same_outside (set (ctx_nodes fs @ nodes k)) root h ?h1" by (rule same_outside_repar) simp
  then show "same_outside (set (ctx_nodes fs @ nodes k)) root h (relink fs root (root_of k) ?h1)"
    by (rule same_outside_trans) (rule same_outside_relink, simp)
qed

text \<open>After a node of colour \<open>c\<close> has been taken out above \<open>k\<close>.\<close>

lemma erase_finish:
  assumes "pos h0 h root fs k" and "rb_inv k" and "ctx_inv fs (bheight k + col c)"
    and "c = Red \<longrightarrow> colour_of k = Black \<and> fs \<noteq> []"
  shows "\<exists>h' t'. (if col c = RB_BLACK then rb_erase_color (root_of k) (ctx_parent fs) root h else Some h) = Some h' \<and>
    pos h0 h' root [] t' \<and> is_rbt t' \<and> nodes t' = before fs @ nodes k @ after fs"
proof (cases c)
  case Black
  have "rb_inv (paint Black k)" using assms(2) inv_paint_Black by (auto simp: is_rbt_def)
  with erase_color_correct [OF assms(1)] assms(3) Black show ?thesis by (simp add: RB_BLACK_def)
next
  case Red
  with assms have "rb_inv (zip_up fs k)" by (intro zip_up_inv) auto
  with Red assms ctx_inv_root [OF assms(3)] have "is_rbt (zip_up fs k)" by (simp add: is_rbt_def)
  with Red assms(1) pos_zip_up [of h0 h root fs k] show ?thesis by (auto simp: RB_BLACK_def nodes_zip)
qed

subsection \<open>The in-order successor\<close>

fun is_FL :: "frame \<Rightarrow> bool" where
  "is_FL (FL c x r) \<longleftrightarrow> True"
| "is_FL (FR c l x) \<longleftrightarrow> False"

lemma zip_up_append: "zip_up (gs @ fs) t = zip_up fs (zip_up gs t)"
  by (induction gs arbitrary: t) auto

lemma left_spine:
  assumes "t \<noteq> Lf"
  shows "\<exists>gs d y k. t = zip_up gs (Nd d Lf y k) \<and> list_all is_FL gs"
  using assms
proof (induction t)
  case (Nd c l x r)
  show ?case
  proof (cases "l = Lf")
    case True
    then show ?thesis by (intro exI [of _ "[]"]) auto
  next
    case False
    with Nd obtain gs d y k where "l = zip_up gs (Nd d Lf y k)" "list_all is_FL gs" by blast
    then show ?thesis by (intro exI [of _ "gs @ [FL c x r]"]) (auto simp: zip_up_append)
  qed
qed simp

lemma before_FL: "list_all is_FL gs \<Longrightarrow> before (gs @ fs) = before fs"
proof (induction gs)
  case (Cons f gs)
  then show ?case by (cases f) auto
qed simp

lemma leftmost_zip:
  assumes "is_tree h q p t" and "t = zip_up gs (Nd d Lf y k)" and "list_all is_FL gs"
  shows "leftmost p h = Some y"
  using assms
proof (induction t arbitrary: q p gs)
  case (Nd c l x r)
  show ?case
  proof (cases gs rule: rev_cases)
    case Nil
    with Nd.prems have "p = y" "rb_left h y = 0" by simp_all
    then show ?thesis by (simp add: leftmost.simps [of y])
  next
    case (snoc gs' f)
    with Nd.prems obtain c' x' r' where f: "f = FL c' x' r'" by (cases f) auto
    with snoc Nd.prems have l: "l = zip_up gs' (Nd d Lf y k)" "c' = c" "list_all is_FL gs'" "p = x" by (simp_all add: zip_up_append)
    have "l \<noteq> Lf" using l(1) zip_up_neq_Lf [of "Nd d Lf y k" gs'] by auto
    with Nd.prems(1) have "rb_left h x \<noteq> 0" by (cases l) (auto dest: node_at_addr)
    moreover from Nd.prems(1) have "is_tree h x (rb_left h x) l" by simp
    ultimately show ?thesis using Nd.IH(1) [OF _ l(1,3)] unfolding l(4) by (simp add: leftmost.simps [of x])
  qed
next
  case Lf
  then show ?case using zip_up_neq_Lf [of "Nd d Lf y k" gs] by auto
qed

lemma node_zipper: "x \<in> set (nodes t) \<Longrightarrow> \<exists>fs c l r. t = zip_up fs (Nd c l x r)"
proof (induction t)
  case (Nd c l y r)
  then consider "x = y" | "x \<in> set (nodes l)" | "x \<in> set (nodes r)" by auto
  then show ?case
  proof cases
    case 1
    then show ?thesis by (intro exI [of _ "[]"]) auto
  next
    case 2
    with Nd.IH(1) obtain fs d a b where "l = zip_up fs (Nd d a x b)" by blast
    then show ?thesis by (intro exI [of _ "fs @ [FL c y r]"]) (auto simp: zip_up_append)
  next
    case 3
    with Nd.IH(2) obtain fs d a b where "r = zip_up fs (Nd d a x b)" by blast
    then show ?thesis by (intro exI [of _ "fs @ [FR c l y]"]) (auto simp: zip_up_append)
  qed
qed simp

subsection \<open>A node with two children\<close>

text \<open>A node \<open>y\<close> whose right child is in place already takes over the left child of \<open>x\<close>.\<close>

lemma replace_node:
  assumes dist: "distinct (ctx_nodes fs @ nodes (Nd c l y r))" and "y \<noteq> 0" and "4 dvd y"
    and "is_tree g y (root_of r) r" and "is_tree g x (root_of l) l" and "is_ctx g root y fs" and "rb_right g y = root_of r"
  shows "at_pos (repar y l (set_left y (root_of l) (set_pc y (ctx_parent fs + col c) g))) root fs (Nd c l y r)"
proof -
  let ?q = "ctx_parent fs"
  let ?g1 = "set_left y (root_of l) (set_pc y (?q + col c) g)"
  have d: "y \<notin> set (nodes l)" "y \<notin> set (nodes r)" "y \<notin> set (ctx_nodes fs)" "distinct (nodes l)"
    "set (nodes l) \<inter> set (nodes r) = {}" "set (nodes l) \<inter> set (ctx_nodes fs) = {}" using dist by auto
  have q: "4 dvd ?q" using ctx_parent_addr [OF assms(6)] .
  have l: "is_tree ?g1 x (root_of l) l" using assms(5) d by simp
  have "is_tree (repar y l ?g1) y (root_of l) l" by (rule repar_tree [OF l assms(3) d(4)])
  moreover have "is_tree (repar y l ?g1) y (root_of r) r" using d assms(4) by (simp add: repar_other)
  moreover have "is_ctx (repar y l ?g1) root y fs" using d assms(6) by (simp add: repar_other)
  moreover have "node_at (repar y l ?g1) ?q y c" using assms(2,3) d q by (simp add: repar_other)
  ultimately show ?thesis using assms(7) dist by (simp add: at_pos_def)
qed

lemma repar_nonempty: "is_tree h q0 (root_of t) t \<Longrightarrow> t \<noteq> Lf \<Longrightarrow> 4 dvd q \<Longrightarrow> rb_set_parent (root_of t) q h = repar q t h"
  by (cases t) (auto simp: repar_def)

lemma relink_sel: "z \<noteq> ctx_parent fs \<Longrightarrow> rb_left (relink fs root p h) z = rb_left h z"
  "z \<noteq> ctx_parent fs \<Longrightarrow> rb_right (relink fs root p h) z = rb_right h z"
  by (cases fs rule: is_ctx_cases; simp add: relink_def)+

text \<open>What the last three statements of the case do.\<close>

lemma take_place:
  assumes "distinct (ctx_nodes fs @ nodes (Nd c l y r))" and "y \<noteq> 0" and "4 dvd y" and "x \<noteq> y" and "l \<noteq> Lf"
    and "is_tree g y (root_of r) r" and "is_tree g x (root_of l) l" and "is_ctx g root y fs" and "rb_right g y = root_of r"
    and "rb_parent_color g x = ctx_parent fs + col c" and "rb_left g x = root_of l"
  shows "\<exists>h'. (let h3 = set_pc y (rb_parent_color g x) g; h4 = set_left y (rb_left h3 x) h3 in rb_set_parent (rb_left h4 x) y h4) = h' \<and>
    at_pos h' root fs (Nd c l y r) \<and> same_outside (set (ctx_nodes fs @ nodes (Nd c l y r))) root g h'"
proof -
  let ?h4 = "set_left y (root_of l) (set_pc y (ctx_parent fs + col c) g)"
  have "is_tree ?h4 x (root_of l) l" using assms(1,7) by auto
  from repar_nonempty [OF this assms(5,3)] have sp: "rb_set_parent (root_of l) y ?h4 = repar y l ?h4" .
  have "(let h3 = set_pc y (rb_parent_color g x) g; h4 = set_left y (rb_left h3 x) h3 in rb_set_parent (rb_left h4 x) y h4) = repar y l ?h4"
    using assms(4,10,11) sp by (simp add: Let_def)
  moreover have "same_outside (set (ctx_nodes fs @ nodes (Nd c l y r))) root g ?h4"
    by (rule same_outside_trans [OF same_outside_set(1) same_outside_set(2)]) simp_all
  then have "same_outside (set (ctx_nodes fs @ nodes (Nd c l y r))) root g (repar y l ?h4)"
    by (rule same_outside_trans) (rule same_outside_repar, auto)
  ultimately show ?thesis using replace_node [OF assms(1-3,6-9)] by auto
qed

text \<open>The successor is the right child.\<close>

lemma erase_two_child:
  assumes "at_pos h root fs (Nd c l x (Nd d Lf y k))" and "l \<noteq> Lf"
  shows "\<exists>h'. erase_two x y root h = (col d, root_of k, y, h') \<and> at_pos h' root fs (Nd c l y k) \<and>
    same_outside (set (ctx_nodes fs @ nodes (Nd c l y k))) root h h'"
proof -
  note t = two_nodes [OF assms(1)]
  let ?X = "set (ctx_nodes fs @ nodes (Nd c l y k))"
  let ?h1 = "relink fs root y h"
  have rep: "replace_child (rb_parent h x) x y root h = ?h1" using replace_child_relink [OF t(1,10,17)] t(2) by simp
  have y: "node_at ?h1 x y d" "rb_right ?h1 y = root_of k" using t is_tree_root [OF t(7)] by (simp_all add: relink_other relink_sel)
  have x: "rb_parent_color ?h1 x = ctx_parent fs + col c" "rb_left ?h1 x = root_of l"
    using t(2,15) is_tree_root [OF t(3)] by (simp_all add: relink_other relink_sel node_at_def)
  have "is_tree ?h1 x (root_of l) l" "is_tree ?h1 y (root_of k) k"
    using t is_tree_root [OF t(3)] is_tree_root [OF t(7)] by (simp_all add: relink_other)
  moreover have "is_ctx ?h1 root y fs" by (rule relink_ctx [OF t(1,32)])
  moreover have "distinct (ctx_nodes fs @ nodes (Nd c l y k))" using assms(1) by (auto simp: at_pos_def)
  ultimately obtain h' where h': "(let h3 = set_pc y (rb_parent_color ?h1 x) ?h1; h4 = set_left y (rb_left h3 x) h3
      in rb_set_parent (rb_left h4 x) y h4) = h'" "at_pos h' root fs (Nd c l y k)" "same_outside ?X root ?h1 h'"
    using take_place [of fs c l y k x ?h1 root] t(9,12,13) assms(2) x y(2) by blast
  have "erase_two x y root h = (col d, root_of k, y, h')"
    unfolding h'(1) [symmetric] erase_two_def Let_def rep using y by simp
  moreover have "same_outside ?X root h ?h1" by (rule same_outside_relink) auto
  ultimately show ?thesis using h'(2,3) same_outside_trans by blast
qed

text \<open>The successor is deeper: it is spliced out of the right subtree first.\<close>

lemma pos_append: "pos h0 h root (gs @ fs) t \<longleftrightarrow> pos h0 h root fs (zip_up gs t)"
  by (induction gs arbitrary: t) (simp_all add: pos_plug)

lemma relink_commute:
  assumes "p \<noteq> ctx_parent fs"
  shows "set_left p v (repar q k (relink fs root y h)) = relink fs root y (set_left p v (repar q k h))"
  using assms
  by (cases fs rule: is_ctx_cases; cases k)
    (simp_all add: relink_def repar_def set_root_def set_left_def set_right_def set_pc_def fun_upd_twist)

lemma one_node:
  assumes "at_pos h root fs (Nd c l x r)"
  shows "is_ctx h root x fs" "node_at h (ctx_parent fs) x c" "is_tree h x (root_of l) l" "is_tree h x (root_of r) r"
    "rb_left h x = root_of l" "rb_right h x = root_of r" "x \<noteq> 0" "4 dvd x" "ctx_parent fs \<noteq> x"
    "x \<notin> set (ctx_nodes fs)" "x \<notin> set (nodes l)" "x \<notin> set (nodes r)" "distinct (ctx_nodes fs)" "distinct (nodes l)" "distinct (nodes r)"
    "set (nodes l) \<inter> set (nodes r) = {}" "set (nodes r) \<inter> set (nodes l) = {}" "set (nodes r) \<inter> set (ctx_nodes fs) = {}"
    "ctx_parent fs \<notin> set (nodes l)" "ctx_parent fs \<notin> set (nodes r)"
proof -
  have l: "is_tree h x (rb_left h x) l" and r: "is_tree h x (rb_right h x) r" and ctx: "is_ctx h root x fs"
    and x: "node_at h (ctx_parent fs) x c" and dist: "distinct (ctx_nodes fs @ nodes (Nd c l x r))"
    using assms by (auto simp: at_pos_def)
  show "is_ctx h root x fs" "node_at h (ctx_parent fs) x c" by fact+
  show "rb_left h x = root_of l" "rb_right h x = root_of r" using is_tree_root l r by blast+
  with l r show "is_tree h x (root_of l) l" "is_tree h x (root_of r) r" by simp_all
  show "x \<noteq> 0" "4 dvd x" using x by (auto dest: node_at_addr)
  with dist show "ctx_parent fs \<noteq> x" using ctx_parent_in [of fs] by (metis disjoint_iff distinct_append in_set_conv_decomp nodes.simps(2))
  show "x \<notin> set (ctx_nodes fs)" "x \<notin> set (nodes l)" "x \<notin> set (nodes r)" "distinct (ctx_nodes fs)" "distinct (nodes l)" "distinct (nodes r)"
    "set (nodes l) \<inter> set (nodes r) = {}" "set (nodes r) \<inter> set (nodes l) = {}" "set (nodes r) \<inter> set (ctx_nodes fs) = {}"
    using dist by auto
  show "ctx_parent fs \<notin> set (nodes l)" using dist by (intro ctx_parent_notin [OF l]) auto
  show "ctx_parent fs \<notin> set (nodes r)" using dist by (intro ctx_parent_notin [OF r]) auto
qed

text \<open>The node \<open>x\<close> is replaced by a node \<open>y\<close> outside the tree: all writes of the case but those of the splice.\<close>

lemma adopt:
  assumes "at_pos h root fs (Nd c l x r)" and "l \<noteq> Lf" and "r \<noteq> Lf" and "y \<noteq> 0" and "4 dvd y"
    and "y \<notin> set (ctx_nodes fs @ nodes (Nd c l x r))" and "h1 = relink fs root y h"
  shows "\<exists>h'. (let h2 = set_right y (rb_right h1 x) h1; h3 = rb_set_parent (rb_right h2 x) y h2;
      h4 = set_pc y (rb_parent_color h3 x) h3; h5 = set_left y (rb_left h4 x) h4 in rb_set_parent (rb_left h5 x) y h5) = h' \<and>
    at_pos h' root fs (Nd c l y r) \<and> same_outside (set (ctx_nodes fs @ nodes (Nd c l y r))) root h h'"
proof -
  note t = one_node [OF assms(1)]
  let ?X = "set (ctx_nodes fs @ nodes (Nd c l y r))"
  have y: "y \<notin> set (ctx_nodes fs)" "y \<notin> set (nodes l)" "y \<notin> set (nodes r)" "x \<noteq> y" using assms(6) by auto
  have yq: "y \<noteq> ctx_parent fs" using y(1) assms(4) ctx_parent_in [of fs] by metis
  let ?h2 = "set_right y (root_of r) h1"
  have right: "rb_right h1 x = root_of r" using t(6,9) assms(7) by (simp add: relink_sel)
  have "is_tree ?h2 x (root_of r) r" using t y assms(7) by (simp add: relink_other)
  from repar_nonempty [OF this assms(3,5)] have sp: "rb_set_parent (root_of r) y ?h2 = repar y r ?h2" .
  have r: "is_tree (repar y r ?h2) y (root_of r) r" by (rule repar_tree [OF \<open>is_tree ?h2 x (root_of r) r\<close> assms(5) t(15)])
  have l: "is_tree (repar y r ?h2) x (root_of l) l" using t y assms(7) by (simp add: repar_other relink_other)
  have ctx: "is_ctx (repar y r ?h2) root y fs"
    using relink_ctx [OF t(1,13)] t(18) y(1) assms(7) by (simp add: repar_other)
  have "distinct (ctx_nodes fs @ nodes (Nd c l y r))" using assms(1) y by (auto simp: at_pos_def)
  moreover have "rb_parent_color (repar y r ?h2) x = ctx_parent fs + col c"
    using t(2,12) assms(7) by (cases r) (auto simp: repar_def relink_other node_at_def)
  moreover have "rb_left (repar y r ?h2) x = root_of l" using t(5,9) assms(7) by (simp add: relink_sel)
  ultimately obtain h' where h': "(let h4 = set_pc y (rb_parent_color (repar y r ?h2) x) (repar y r ?h2);
      h5 = set_left y (rb_left h4 x) h4 in rb_set_parent (rb_left h5 x) y h5) = h'" "at_pos h' root fs (Nd c l y r)"
      "same_outside ?X root (repar y r ?h2) h'"
    using take_place [of fs c l y r x "repar y r ?h2" root] assms(2,4,5) y(4) r l ctx by auto
  have "same_outside ?X root h h1" unfolding assms(7) by (rule same_outside_relink) auto
  also have "same_outside ?X root h1 ?h2" by (rule same_outside_set) auto
  also (same_outside_trans) have "same_outside ?X root ?h2 (repar y r ?h2)" by (rule same_outside_repar) auto
  also (same_outside_trans) note h'(3)
  finally (same_outside_trans) have "same_outside ?X root h h'" .
  moreover have "rb_right ?h2 x = root_of r" using right y(4) by simp
  ultimately show ?thesis using h'(1,2) right sp by (simp add: Let_def)
qed

lemma erase_two_deep:
  assumes "at_pos h root (FL e p s # gs @ FR c l x # fs) (Nd d Lf y k)" and "l \<noteq> Lf"
  shows "\<exists>h'. erase_two x y root h = (col d, root_of k, p, h') \<and>
    pos h h' root (FL e p s # gs @ FR c l y # fs) k"
proof -
  let ?F = "FL e p s # gs @ FR c l x # fs"
  let ?r = "zip_up (FL e p s # gs) k"
  let ?H1 = "set_left p (root_of k) (repar p k h)"
  have rl: "relink ?F root (root_of k) (repar (ctx_parent ?F) k h) = ?H1" by (simp add: relink_def)
  note sp = splice [OF assms(1), of k, unfolded rl]
  have H1: "pos h ?H1 root ?F k" using sp(2,3) by (simp add: pos_def)
  then have "pos h ?H1 root fs (Nd c l x ?r)"
    using pos_append [of h ?H1 root "FL e p s # gs" "FR c l x # fs" k] by (simp add: pos_plug)
  then have at: "at_pos ?H1 root fs (Nd c l x ?r)" and out: "same_outside (set (ctx_nodes fs @ nodes (Nd c l x ?r))) root h ?H1"
    by (simp_all add: pos_def)
  have rne: "?r \<noteq> Lf" using zip_up_neq_Lf by blast
  have y: "node_at h p y d" "rb_right h y = root_of k" using one_node [OF assms(1)] by simp_all
  have "pos h h root ?F (Nd d Lf y k)" using assms(1) by (simp add: pos_def)
  then have whole: "pos h h root fs (Nd c l x (zip_up (FL e p s # gs) (Nd d Lf y k)))"
    using pos_append [of h h root "FL e p s # gs" "FR c l x # fs" "Nd d Lf y k"] by (simp add: pos_plug)
  then have "distinct (ctx_nodes fs @ nodes (Nd c l x (zip_up (FL e p s # gs) (Nd d Lf y k))))" by (simp add: pos_def at_pos_def)
  then have yout: "y \<notin> set (ctx_nodes fs @ nodes (Nd c l x ?r))" and px: "p \<noteq> x" "p \<notin> set (ctx_nodes fs)"
    by (auto simp: nodes_zip)
  have x0: "is_ctx h root x fs" "node_at h (ctx_parent fs) x c" "x \<noteq> 0" "x \<notin> set (ctx_nodes fs)"
    using whole one_node [of h root fs c l x] by (auto simp: pos_def)
  have pq: "p \<noteq> ctx_parent fs" using px(2) ctx_parent_in [of fs] y(1) assms(1) is_ctx_nodes [of h root y ?F p]
    by (cases "ctx_parent fs = 0") (auto simp: at_pos_def)
  have yq: "y \<noteq> ctx_parent fs" using yout ctx_parent_in [of fs] y(1) by (cases "ctx_parent fs = 0") (auto dest: node_at_addr)
  let ?h1 = "relink fs root y h"
  have rep: "replace_child (rb_parent h x) x y root h = ?h1" using replace_child_relink [OF x0(1,3,4)] x0(2) by simp
  have par: "(if root_of k \<noteq> 0 then rb_set_parent (root_of k) p ?h1 else ?h1) = repar p k ?h1"
  proof (rule repar_set_parent)
    have "ctx_parent fs \<notin> set (nodes k)" using one_node(20) [OF at] by (auto simp: nodes_zip)
    with one_node(4) [OF assms(1)] show "is_tree ?h1 y (root_of k) k" by (simp add: relink_other)
  qed (use y(1) in \<open>auto dest: node_at_addr\<close>)
  have comm: "set_left p (root_of k) (repar p k ?h1) = relink fs root y ?H1" by (rule relink_commute [OF pq])
  have y1: "rb_right ?h1 y = root_of k" "node_at ?h1 p y d" using y yq by (simp_all add: relink_sel relink_other)
  from adopt [OF at assms(2) rne _ _ yout refl] y(1) obtain h' where
    h': "(let h2 = set_right y (rb_right (relink fs root y ?H1) x) (relink fs root y ?H1); h3 = rb_set_parent (rb_right h2 x) y h2;
      h4 = set_pc y (rb_parent_color h3 x) h3; h5 = set_left y (rb_left h4 x) h4 in rb_set_parent (rb_left h5 x) y h5) = h'"
    "at_pos h' root fs (Nd c l y ?r)" "same_outside (set (ctx_nodes fs @ nodes (Nd c l y ?r))) root ?H1 h'"
    by (auto dest: node_at_addr)
  have "erase_two x y root h = (col d, root_of k, p, h')"
    unfolding h'(1) [symmetric] erase_two_def Let_def rep y1(1) node_at_fields(1,2) [OF y1(2)] if_not_P [OF px(1)]
      par comm prod.case ..
  moreover have "same_outside (set (ctx_nodes fs @ nodes (Nd c l y ?r))) root h ?H1"
    by (rule same_outside_trans [OF same_outside_repar same_outside_set(2)]) (auto simp: nodes_zip)
  from same_outside_trans [OF this h'(3)] h'(2) have "pos h h' root fs (Nd c l y ?r)" by (simp add: pos_def)
  then have "pos h h' root (FL e p s # gs @ FR c l y # fs) k"
    using pos_append [of h h' root "FL e p s # gs" "FR c l y # fs" k] by (simp add: pos_plug)
  ultimately show ?thesis by blast
qed

text \<open>The invariant of a context does not depend on the address of a frame.\<close>

lemma ctx_inv_rename: "ctx_inv (gs @ FR c l x # fs) n = ctx_inv (gs @ FR c l y # fs) n"
proof (induction gs arbitrary: n)
  case (Cons f gs)
  have "black_top (gs @ FR c l x # fs) = black_top (gs @ FR c l y # fs)" by (cases gs) auto
  with Cons show ?case by simp
qed simp

subsection \<open>Removal\<close>

lemma after_FL_append: "after (gs @ fs) = after gs @ after fs"
  by (induction gs rule: after.induct) auto

lemma erase_two_correct:
  assumes t: "at_pos h root fs (Nd c l x r)" and ne: "l \<noteq> Lf" "r \<noteq> Lf" and inv: "rb_inv (zip_up fs (Nd c l x r))"
    "colour_of (zip_up fs (Nd c l x r)) = Black"
  shows "\<exists>y d k gs h'. leftmost (rb_right h x) h = Some y \<and> erase_two x y root h = (col d, root_of k, ctx_parent (gs @ FR c l y # fs), h') \<and>
    pos h h' root (gs @ FR c l y # fs) k \<and> rb_inv k \<and> ctx_inv (gs @ FR c l y # fs) (bheight k + col d) \<and>
    (d = Red \<longrightarrow> colour_of k = Black) \<and> before (gs @ FR c l y # fs) @ nodes k @ after (gs @ FR c l y # fs) = before fs @ nodes l @ nodes r @ after fs"
proof -
  from left_spine [OF ne(2)] obtain gs d y k where r: "r = zip_up gs (Nd d Lf y k)" and gs: "list_all is_FL gs" by blast
  have lm: "leftmost (rb_right h x) h = Some y"
    using leftmost_zip [OF one_node(4) [OF t] r gs] one_node(6) [OF t] by simp
  have "zip_up fs (Nd c l x r) = zip_up (gs @ FR c l x # fs) (Nd d Lf y k)" by (simp add: zip_up_append r)
  with zip_up_inv_ctx inv have c: "rb_inv (Nd d Lf y k)" "ctx_inv (gs @ FR c l x # fs) (bheight (Nd d Lf y k))" by metis+
  then have k: "rb_inv k" "bheight (Nd d Lf y k) = bheight k + col d" "d = Red \<longrightarrow> colour_of k = Black" by auto
  have ci: "ctx_inv (gs @ FR c l y # fs) (bheight k + col d)" using c(2) k(2) ctx_inv_rename [of gs c l x fs _ y] by simp
  have ns: "before (gs @ FR c l y # fs) @ nodes k @ after (gs @ FR c l y # fs) = before fs @ nodes l @ nodes r @ after fs"
    using gs by (simp add: r nodes_zip before_FL after_FL_append before_FL [of gs "[]", simplified])
  have p: "pos h h root (gs @ FR c l x # fs) (Nd d Lf y k)" using t by (simp add: pos_append pos_plug flip: r) (simp add: pos_def)
  show ?thesis
  proof (cases gs)
    case Nil
    with t r erase_two_child [of h root fs c l x d y k] ne(1) obtain h' where
      "erase_two x y root h = (col d, root_of k, y, h')" "pos h h' root fs (Nd c l y k)" by (auto simp: pos_def)
    with lm k(1,3) ci ns Nil show ?thesis by (intro exI [of _ y] exI [of _ d] exI [of _ k] exI [of _ gs] exI [of _ h']) (simp add: pos_plug)
  next
    case (Cons f gs')
    with gs obtain e q s where f: "f = FL e q s" by (cases f) auto
    with p Cons erase_two_deep [of h root e q s gs' c l x fs d y k] ne(1) obtain h' where
      "erase_two x y root h = (col d, root_of k, q, h')" "pos h h' root (gs @ FR c l y # fs) k" by (auto simp: pos_def)
    with lm k(1,3) ci ns Cons f show ?thesis by (intro exI [of _ y] exI [of _ d] exI [of _ k] exI [of _ gs] exI [of _ h']) simp
  qed
qed

lemma rb_erase_correct:
  assumes "holds_tree h root t" and "is_rbt t" and "x \<in> set (nodes t)"
  shows "\<exists>h' t'. rb_erase x root h = Some h' \<and> holds_tree h' root t' \<and> is_rbt t' \<and> nodes t' = remove1 x (nodes t) \<and>
    same_outside (set (nodes t')) root h h'"
proof -
  from node_zipper [OF assms(3)] obtain fs c l r where t: "t = zip_up fs (Nd c l x r)" by blast
  have "pos h h root [] t" using assms(1) by (simp add: holds_tree_def pos_def)
  then have p: "pos h h root fs (Nd c l x r)" unfolding t using pos_zip_up by blast
  then have at: "at_pos h root fs (Nd c l x r)" by (simp add: pos_def)
  have dist: "distinct (nodes t)" using assms(1) by (simp add: holds_tree_def at_pos_def)
  have nt: "nodes t = before fs @ (nodes l @ x # nodes r) @ after fs" by (simp add: t nodes_zip)
  then have rm: "remove1 x (nodes t) = before fs @ nodes l @ nodes r @ after fs" using dist by (auto simp: remove1_append)
  note ctx = zip_up_inv_ctx [of fs "Nd c l x r", folded t] 
  from assms(2) ctx have inv: "rb_inv (Nd c l x r)" "ctx_inv fs (bheight (Nd c l x r))" "c = Red \<longrightarrow> black_top fs" by (auto simp: is_rbt_def)
  have lr: "rb_left h x = root_of l" "rb_right h x = root_of r" "root_of l = 0 \<longleftrightarrow> l = Lf" "root_of r = 0 \<longleftrightarrow> r = Lf"
    using one_node(3-6) [OF at] by (cases l; cases r; auto dest: node_at_addr)+
  have finish: ?thesis if "pos h h1 root gs k" "rb_inv k" "ctx_inv gs (bheight k + col d)" "d = Red \<longrightarrow> colour_of k = Black \<and> gs \<noteq> []"
    "before gs @ nodes k @ after gs = remove1 x (nodes t)"
    "rb_erase x root h = (if col d = RB_BLACK then rb_erase_color (root_of k) (ctx_parent gs) root h1 else Some h1)" for h1 gs k d
    using erase_finish [OF that(1-4)] that(5,6) by (fastforce simp: pos_def holds_tree_def)
  show ?thesis
  proof (cases "l = Lf \<or> r = Lf")
    case True
    define k where "k = (if l = Lf then r else l)"
    have k: "k = r \<and> l = Lf \<or> k = l \<and> r = Lf" "rb_inv k" "bheight k = bheight l" "c = Red \<longrightarrow> colour_of k = Black"
      using True inv(1) by (auto simp: k_def)
    note sp = splice [OF at k(1)]
    have "c = Red \<longrightarrow> fs \<noteq> []" using inv(3) by (cases fs) auto
    let ?h1 = "relink fs root (root_of k) (repar (ctx_parent fs) k h)"
    have "rb_erase x root h = (if col c = RB_BLACK then rb_erase_color (root_of k) (ctx_parent fs) root ?h1 else Some ?h1)"
    proof (cases "l = Lf")
      case True
      with lr sp(1) show ?thesis by (simp add: rb_erase_def k_def)
    next
      case ne: False
      with lr sp(1) True show ?thesis by (simp add: rb_erase_def k_def)
    qed
    moreover have "pos h ?h1 root fs k" using sp(2,3) by (simp add: pos_def)
    moreover have "before fs @ nodes k @ after fs = remove1 x (nodes t)" using True unfolding rm by (auto simp: k_def)
    ultimately show ?thesis using finish [of ?h1 fs k c] k(2-4) inv(2) \<open>c = Red \<longrightarrow> fs \<noteq> []\<close> by simp
  next
    case False
    then have ne: "l \<noteq> Lf" "r \<noteq> Lf" by auto
    have "rb_inv (zip_up fs (Nd c l x r))" "colour_of (zip_up fs (Nd c l x r)) = Black" using assms(2) t by (simp_all add: is_rbt_def)
    from erase_two_correct [OF at ne this] obtain y d k gs h' where
      e: "leftmost (rb_right h x) h = Some y" "erase_two x y root h = (col d, root_of k, ctx_parent (gs @ FR c l y # fs), h')"
        "pos h h' root (gs @ FR c l y # fs) k" "rb_inv k" "ctx_inv (gs @ FR c l y # fs) (bheight k + col d)"
        "d = Red \<longrightarrow> colour_of k = Black"
        "before (gs @ FR c l y # fs) @ nodes k @ after (gs @ FR c l y # fs) = before fs @ nodes l @ nodes r @ after fs"
      by blast
    show ?thesis
      by (rule finish [OF e(3-5)]) (use e(1,2,6,7) rm lr False in \<open>auto simp: rb_erase_def\<close>)
  qed
qed

lemma rb_first_correct:
  assumes "holds_tree h root t"
  shows "rb_first root h = Some (case nodes t of [] \<Rightarrow> 0 | x # _ \<Rightarrow> x)"
proof (cases "t = Lf")
  case True
  with assms show ?thesis by (simp add: holds_tree_def at_pos_def rb_first_def)
next
  case False
  then obtain gs d y k where t: "t = zip_up gs (Nd d Lf y k)" "list_all is_FL gs" using left_spine by blast
  have tree: "is_tree h 0 (rb_node h root) t" using assms by (auto simp: holds_tree_def at_pos_def)
  have "rb_node h root \<noteq> 0" using tree False by (cases t) (auto dest: node_at_addr)
  with leftmost_zip [OF tree t] t before_FL [OF t(2), of "[]"] show ?thesis by (simp add: rb_first_def nodes_zip)
qed

end
