(* ===== verification/Rbtree_Tree.thy ===== *)
theory Rbtree_Tree
  imports Rbtree_Erase
begin

text \<open>
  The red-black tree as its clients see it: a sequence of nodes under a root. \<open>rb_holds h root ns\<close> hides the
  shape of the tree; the locale \<open>node_sequence\<close> states what a client may rely on, and is interpreted
  by the operations of \<open>util/rbtree.c\<close>. The trees are balanced: a path has at most about twice the
  binary logarithm of the number of nodes.
\<close>

definition rb_holds :: "rb_heap \<Rightarrow> ptr \<Rightarrow> ptr list \<Rightarrow> bool" where
  "rb_holds h root ns \<longleftrightarrow> (\<exists>t. holds_tree h root t \<and> is_rbt t \<and> nodes t = ns)"

fun height :: "rbt \<Rightarrow> nat" where
  "height Lf = 0"
| "height (Nd c l x r) = Suc (max (height l) (height r))"

subsection \<open>Balance\<close>

lemma bheight_size: "rb_inv t \<Longrightarrow> 2 ^ bheight t \<le> length (nodes t) + 1"
proof (induction t)
  case (Nd c l x r)
  then have "2 ^ bheight l \<le> length (nodes l) + 1" "2 ^ bheight l \<le> length (nodes r) + 1" by auto
  then show ?case by (cases c) auto
qed simp

lemma height_bheight: "rb_inv t \<Longrightarrow> height t \<le> 2 * bheight t + (if colour_of t = Red then 1 else 0)"
proof (induction t)
  case (Nd c l x r)
  then show ?case by (cases c) (auto split: if_splits)
qed simp

lemma rbt_balanced: "is_rbt t \<Longrightarrow> 2 ^ (height t div 2) \<le> length (nodes t) + 1"
proof -
  assume "is_rbt t"
  then have "height t div 2 \<le> bheight t" "2 ^ bheight t \<le> length (nodes t) + 1"
    using height_bheight [of t] bheight_size [of t] by (auto simp: is_rbt_def)
  then show ?thesis using power_increasing [of "height t div 2" "bheight t" "2 :: nat"] by linarith
qed

subsection \<open>The interface\<close>

locale node_sequence =
  fixes holds :: "'h \<Rightarrow> ptr \<Rightarrow> ptr list \<Rightarrow> bool"
    and agree :: "ptr set \<Rightarrow> ptr \<Rightarrow> 'h \<Rightarrow> 'h \<Rightarrow> bool"
    and erase :: "ptr \<Rightarrow> ptr \<Rightarrow> 'h \<Rightarrow> 'h option"
    and first :: "ptr \<Rightarrow> 'h \<Rightarrow> ptr option"
  assumes holds_distinct: "holds h root ns \<Longrightarrow> distinct ns \<and> 0 \<notin> set ns"
    and erase_holds: "holds h root ns \<Longrightarrow> x \<in> set ns \<Longrightarrow>
      \<exists>h'. erase x root h = Some h' \<and> holds h' root (remove1 x ns) \<and> agree (set (remove1 x ns)) root h h'"
    and first_holds: "holds h root ns \<Longrightarrow> first root h = Some (case ns of [] \<Rightarrow> 0 | x # _ \<Rightarrow> x)"
    and holds_agree: "holds h root' ns' \<Longrightarrow> agree X root h h' \<Longrightarrow> root' \<noteq> root \<Longrightarrow> set ns' \<inter> X = {} \<Longrightarrow> holds h' root' ns'"
    and agree_refl: "agree X root h h"
    and agree_trans: "agree X root h h' \<Longrightarrow> agree Y root h' h'' \<Longrightarrow> agree (X \<union> Y) root h h''"
begin

text \<open>Erasing a node leaves the sequences under other roots alone.\<close>

lemma erase_others:
  assumes "holds h root ns" and "x \<in> set ns"
  shows "\<exists>h'. erase x root h = Some h' \<and> holds h' root (remove1 x ns) \<and> agree (set (remove1 x ns)) root h h' \<and>
    (\<forall>root' ns'. root' \<noteq> root \<and> set ns' \<inter> set ns = {} \<and> holds h root' ns' \<longrightarrow> holds h' root' ns')"
proof -
  from erase_holds [OF assms] obtain h' where h': "erase x root h = Some h'" "holds h' root (remove1 x ns)"
    "agree (set (remove1 x ns)) root h h'" by blast
  moreover have "holds h' root' ns'" if "root' \<noteq> root" "set ns' \<inter> set ns = {}" "holds h root' ns'" for root' ns'
    using holds_agree [OF that(3) h'(3) that(1)] that(2) notin_set_remove1 [of _ ns x] by fastforce
  ultimately show ?thesis by blast
qed

end

lemma same_outside_holds:
  assumes "holds_tree h root' t" and "same_outside X root h h'" and "root' \<noteq> root" and "set (nodes t) \<inter> X = {}"
  shows "holds_tree h' root' t"
proof -
  have "\<forall>x \<in> set (nodes t). rb_parent_color h' x = rb_parent_color h x \<and> rb_left h' x = rb_left h x \<and> rb_right h' x = rb_right h x"
    "rb_node h' root' = rb_node h root'" using assms(2-4) by (auto simp: same_outside_def)
  with is_tree_cong [of t h' h] assms(1) show ?thesis by (simp add: holds_tree_def at_pos_def)
qed

lemma holds_tree_zero: "holds_tree h root t \<Longrightarrow> distinct (nodes t) \<and> 0 \<notin> set (nodes t)"
  using is_tree_nodes [of h 0 "root_of t" t 0] by (auto simp: holds_tree_def at_pos_def)

interpretation rbs: node_sequence rb_holds same_outside rb_erase rb_first
proof
  show "distinct ns \<and> 0 \<notin> set ns" if "rb_holds h root ns" for h root ns
    using that holds_tree_zero unfolding rb_holds_def by blast
  show "\<exists>h'. rb_erase x root h = Some h' \<and> rb_holds h' root (remove1 x ns) \<and> same_outside (set (remove1 x ns)) root h h'"
    if "rb_holds h root ns" "x \<in> set ns" for h root ns x
  proof -
    from that obtain t where "holds_tree h root t" "is_rbt t" "nodes t = ns" "x \<in> set (nodes t)" by (auto simp: rb_holds_def)
    from rb_erase_correct [OF this(1,2,4)] this(3) show ?thesis unfolding rb_holds_def by metis
  qed
  show "rb_first root h = Some (case ns of [] \<Rightarrow> 0 | x # _ \<Rightarrow> x)" if "rb_holds h root ns" for h root ns
    using that rb_first_correct unfolding rb_holds_def by blast
  show "rb_holds h' root' ns'" if "rb_holds h root' ns'" "same_outside X root h h'" "root' \<noteq> root" "set ns' \<inter> X = {}" for h h' root root' ns' X
    using that same_outside_holds unfolding rb_holds_def by metis
  show "same_outside X root h h" for X root h by simp
  show "same_outside (X \<union> Y) root h h''" if "same_outside X root h h'" "same_outside Y root h' h''" for X Y root h h' h''
    using that by (auto simp: same_outside_def)
qed

subsection \<open>Properties\<close>

text \<open>C33. Inserting into the timer tree: a new aligned node that is linked at any leaf position of a red-black tree
  and rebalanced by \<open>rb_insert_color\<close> ends up between its neighbours. Rebalancing ends; the result is a
  red-black tree again, hence balanced, and nothing outside the tree and its root is written.\<close>

theorem rb_insert_keeps_tree:
  assumes "at_pos h root fs Lf" and "is_rbt (zip_up fs Lf)" and "x \<noteq> 0" and "4 dvd x" and "x \<notin> set (ctx_nodes fs)"
  shows "\<exists>h' t'. rb_insert_color x root (rb_link_node x (ctx_parent fs) (link_of root fs) h) = Some h' \<and>
    holds_tree h' root t' \<and> is_rbt t' \<and> nodes t' = before fs @ x # after fs \<and>
    2 ^ (height t' div 2) \<le> length (nodes t') + 1 \<and> same_outside (set (nodes t')) root h h'"
proof -
  from rb_insert_correct [OF assms] obtain h' t' where
    "rb_insert_color x root (rb_link_node x (ctx_parent fs) (link_of root fs) h) = Some h'" "holds_tree h' root t'" "is_rbt t'"
    "nodes t' = before fs @ x # after fs" "same_outside (set (before fs @ x # after fs)) root h h'" by blast
  moreover from rbt_balanced [OF this(3)] have "2 ^ (height t' div 2) \<le> length (nodes t') + 1" .
  ultimately show ?thesis by metis
qed

definition empty_rb :: rb_heap where
  "empty_rb = \<lparr>rb_parent_color = (\<lambda>_. 0), rb_left = (\<lambda>_. 0), rb_right = (\<lambda>_. 0), rb_node = (\<lambda>_. 0)\<rparr>"

lemma empty_rb_pos: "at_pos empty_rb 24 [] Lf"
  by (simp add: at_pos_def empty_rb_def)

theorem rb_insert_keeps_tree_witness:
  "\<exists>h' t'. rb_insert_color 64 24 (rb_link_node 64 0 (Root_link 24) empty_rb) = Some h' \<and> holds_tree h' 24 t' \<and> nodes t' = [64]"
  using rb_insert_keeps_tree [OF empty_rb_pos, of 64] by (auto simp: is_rbt_def)

text \<open>C32. Removing from the timer tree: \<open>rb_first\<close> finds the first node in order, and \<open>rb_erase\<close> of any node of a red-black tree ends and leaves a red-black tree of
  the other nodes in the same order; it writes neither the removed node nor anything outside the tree and its
  root. Trees under other roots are untouched.\<close>

theorem rb_erase_keeps_tree:
  assumes "rb_holds h root ns" and "x \<in> set ns"
  shows "rb_first root h = Some (hd ns) \<and>
    (\<exists>h'. rb_erase x root h = Some h' \<and> rb_holds h' root (remove1 x ns) \<and> same_outside (set (remove1 x ns)) root h h' \<and>
    (\<forall>root' ns'. root' \<noteq> root \<and> set ns' \<inter> set ns = {} \<and> rb_holds h root' ns' \<longrightarrow> rb_holds h' root' ns'))"
proof -
  have "rb_first root h = Some (hd ns)" using rbs.first_holds [OF assms(1)] assms(2) by (cases ns) auto
  with rbs.erase_others [OF assms] show ?thesis by blast
qed

lemma test_tree: "\<exists>h. rb_holds h 24 [64]"
proof -
  from rb_insert_correct [OF empty_rb_pos, of 64] obtain h' t' where "holds_tree h' 24 t'" "is_rbt t'" "nodes t' = [64]"
    by (auto simp: is_rbt_def)
  then show ?thesis unfolding rb_holds_def by blast
qed

theorem rb_erase_keeps_tree_witness: "\<exists>h h'. rb_holds h 24 [64] \<and> rb_erase 64 24 h = Some h' \<and> rb_holds h' 24 []"
proof -
  from test_tree obtain h where "rb_holds h 24 [64]" by blast
  with rb_erase_keeps_tree [OF this, of 64] show ?thesis by auto
qed

end
