(* ===== verification/Sched.thy ===== *)
theory Sched
  imports Linked_List Memcache Rbtree_Tree
begin

text \<open>
  \<open>coro/sched.c\<close>: the coroutine scheduler of a worker. A coroutine is idle (in the list \<open>idle\<close>), ready
  (in the list \<open>active\<close>), waiting (in the tree \<open>inactive\<close>: a red-black tree of timer nodes, each with
  a red-black tree of the coroutines that wait for that instant) or running.

  The state is the static variable \<open>sched\<close>, with the fields of all coroutines and timer nodes as
  maps. \<open>struct coroutine\<close> starts with its list entry, so \<open>container_of\<close> is the identity there; its
  tree node is 16 bytes further, the root of a timer node 24 bytes after its own tree node. The
  context switch is not part of the model: \<open>coroutine_switch\<close> records who runs, and what a running
  coroutine does are the calls it makes, one step each (\<open>Sched_Run\<close>). The clock is a parameter.
\<close>

type_synonym 'a run = "'a cres option"

text \<open>Running one call after the other; \<open>None\<close> is a loop that does not end.\<close>

definition run_bind :: "'a run \<Rightarrow> ('a \<Rightarrow> 'b run) \<Rightarrow> 'b run" where
  "run_bind x f =
     (case x of
        None \<Rightarrow> None
      | Some (Ret a) \<Rightarrow> f a
      | Some UB \<Rightarrow> Some UB | Some Abort \<Rightarrow> Some Abort | Some (Exit e) \<Rightarrow> Some (Exit e))"

definition ret :: "'a \<Rightarrow> 'a run" where
  "ret x = Some (Ret x)"

text \<open>The arguments of a coroutine (\<open>func\<close> and \<open>args\<close>) are of a type \<open>'f\<close>.\<close>

record 'f coro_schedule =
  max_coro_size :: nat
  curr_coro_size :: nat
  next_coro_id :: int
  stack_bytes :: nat
  main_coro :: ptr
  current :: ptr
  idle :: ptr
  active :: ptr
  inactive :: ptr
  cache :: memcache
  heap :: allocator
  lists :: links
  trees :: rb_heap
  coro_id :: "ptr \<Rightarrow> int"
  coro_timeout :: "ptr \<Rightarrow> int"
  active_by_timeout :: "ptr \<Rightarrow> bool"
  coro_func :: "ptr \<Rightarrow> 'f"
  tm_timeout :: "ptr \<Rightarrow> int"

definition node_of :: "ptr \<Rightarrow> ptr" where "node_of coro = coro + 16"

definition coro_of :: "ptr \<Rightarrow> ptr" where "coro_of node = node - 16"

definition root_at :: "ptr \<Rightarrow> ptr" where "root_at tm_node = tm_node + 24"

text \<open>Calls into the tree, the lists and the pool of timer nodes.\<close>

definition in_trees :: "(rb_heap \<Rightarrow> rb_heap option) \<Rightarrow> 'f coro_schedule \<Rightarrow> 'f coro_schedule run" where
  "in_trees f s = (case f (trees s) of None \<Rightarrow> None | Some h \<Rightarrow> ret (s\<lparr>trees := h\<rparr>))"

definition in_lists :: "(links \<Rightarrow> links) \<Rightarrow> 'f coro_schedule \<Rightarrow> 'f coro_schedule" where
  "in_lists f s = s\<lparr>lists := f (lists s)\<rparr>"

definition cache_free :: "ptr \<Rightarrow> 'f coro_schedule \<Rightarrow> 'f coro_schedule run" where
  "cache_free tm_node s =
     Some (cbind (memcache_free (cache s) tm_node (heap s)) (\<lambda>(c, a). Ret (s\<lparr>cache := c, heap := a\<rparr>)))"

subsection \<open>Timers\<close>

partial_function (option) find_in_timer_loop :: "int \<Rightarrow> ptr \<Rightarrow> 'f coro_schedule \<Rightarrow> ptr option" where
  "find_in_timer_loop coroid each s =
     (if each = 0 then Some 0
      else let coro = coro_of each; result = coroid - coro_id s coro in
        if result < 0 then find_in_timer_loop coroid (rb_left (trees s) each) s
        else if result > 0 then find_in_timer_loop coroid (rb_right (trees s) each) s
        else Some coro)"

definition find_in_timer :: "ptr \<Rightarrow> int \<Rightarrow> 'f coro_schedule \<Rightarrow> ptr option" where
  "find_in_timer tm_node coroid s = find_in_timer_loop coroid (rb_node (trees s) (root_at tm_node)) s"

definition remove_from_timer_node :: "ptr \<Rightarrow> ptr \<Rightarrow> 'f coro_schedule \<Rightarrow> 'f coro_schedule run" where
  "remove_from_timer_node tm_node coro s =
     (case find_in_timer tm_node (coro_id s coro) s of
        None \<Rightarrow> None
      | Some found \<Rightarrow>
          if found = 0 then ret s else in_trees (rb_erase (node_of coro) (root_at tm_node)) s)"

partial_function (option) find_timer_loop :: "int \<Rightarrow> ptr \<Rightarrow> 'f coro_schedule \<Rightarrow> ptr option" where
  "find_timer_loop timeout each s =
     (if each = 0 then Some 0
      else let timespan = timeout - tm_timeout s each in
        if timespan < 0 then find_timer_loop timeout (rb_left (trees s) each) s
        else if timespan > 0 then find_timer_loop timeout (rb_right (trees s) each) s
        else Some each)"

definition find_timer_node :: "int \<Rightarrow> 'f coro_schedule \<Rightarrow> ptr option" where
  "find_timer_node timeout s = find_timer_loop timeout (rb_node (trees s) (inactive s)) s"

definition remove_from_inactive_tree :: "ptr \<Rightarrow> 'f coro_schedule \<Rightarrow> 'f coro_schedule run" where
  "remove_from_inactive_tree coro s =
     (case find_timer_node (coro_timeout s coro) s of
        None \<Rightarrow> None
      | Some tm_node \<Rightarrow>
          if tm_node = 0 then ret s
          else run_bind (remove_from_timer_node tm_node coro s) (\<lambda>s1.
            if RB_EMPTY_ROOT (trees s1) (root_at tm_node)
            then run_bind (in_trees (rb_erase tm_node (inactive s1)) s1) (cache_free tm_node)
            else ret s1))"

partial_function (option) add_walk :: "int \<Rightarrow> rb_link \<Rightarrow> ptr \<Rightarrow> 'f coro_schedule \<Rightarrow> (rb_link \<times> ptr) option" where
  "add_walk coroid newer parent s =
     (let each = link_get newer (trees s) in
      if each \<noteq> 0 then
        let result = coroid - coro_id s (coro_of each)
        in add_walk coroid (if result < 0 then Left_link each else Right_link each) each s
      else Some (newer, parent))"

definition add_to_timer_node :: "ptr \<Rightarrow> ptr \<Rightarrow> 'f coro_schedule \<Rightarrow> 'f coro_schedule run" where
  "add_to_timer_node tm_node coro s =
     (case add_walk (coro_id s coro) (Root_link (root_at tm_node)) 0 s of
        None \<Rightarrow> None
      | Some (newer, parent) \<Rightarrow>
          in_trees (\<lambda>h. rb_insert_color (node_of coro) (root_at tm_node) (rb_link_node (node_of coro) parent newer h)) s)"

text \<open>\<open>int timespan\<close>: the difference of two \<open>long long\<close> values, cut to 32 bits.\<close>

definition to_int32 :: "int \<Rightarrow> int" where
  "to_int32 v = sint (word_of_int v :: 32 word)"

text \<open>The walk ends at a timer node with the same instant (\<open>Inl\<close>) or at a link to put a new one.\<close>

partial_function (option) inactive_walk ::
  "int \<Rightarrow> rb_link \<Rightarrow> ptr \<Rightarrow> 'f coro_schedule \<Rightarrow> (ptr + rb_link \<times> ptr) option" where
  "inactive_walk timeout newer parent s =
     (let each = link_get newer (trees s) in
      if each \<noteq> 0 then
        let timespan = to_int32 (timeout - tm_timeout s each) in
        if timespan < 0 then inactive_walk timeout (Left_link each) each s
        else if timespan > 0 then inactive_walk timeout (Right_link each) each s
        else Some (Inl each)
      else Some (Inr (newer, parent)))"

definition move_to_inactive_tree :: "ptr \<Rightarrow> 'f coro_schedule \<Rightarrow> 'f coro_schedule run" where
  "move_to_inactive_tree coro s =
     (case inactive_walk (coro_timeout s coro) (Root_link (inactive s)) 0 s of
        None \<Rightarrow> None
      | Some (Inl tm_node) \<Rightarrow> add_to_timer_node tm_node coro s
      | Some (Inr (newer, parent)) \<Rightarrow>
          (case memcache_alloc (cache s) (heap s) of (tmp, c, a) \<Rightarrow>
             let s1 = s\<lparr>cache := c, heap := a\<rparr> in
             if tmp = 0 then ret s1
             else
               let s2 = s1\<lparr>trees := set_right tmp 0 (set_left tmp 0 (RB_ROOT (root_at tmp) (trees s1))),
                           tm_timeout := (tm_timeout s1)(tmp := coro_timeout s1 coro)\<rparr>
               in run_bind (add_to_timer_node tmp coro s2) (\<lambda>s3.
                    in_trees (\<lambda>h. rb_insert_color tmp (inactive s3) (rb_link_node tmp parent newer h)) s3)))"

subsection \<open>The lists\<close>

definition move_to_idle_list_direct :: "ptr \<Rightarrow> 'f coro_schedule \<Rightarrow> 'f coro_schedule" where
  "move_to_idle_list_direct coro s = in_lists (list_add_tail coro (idle s)) s"

definition move_to_active_list_tail_direct :: "ptr \<Rightarrow> 'f coro_schedule \<Rightarrow> 'f coro_schedule" where
  "move_to_active_list_tail_direct coro s = in_lists (list_add_tail coro (active s)) s"

definition move_to_active_list_tail :: "ptr \<Rightarrow> 'f coro_schedule \<Rightarrow> 'f coro_schedule run" where
  "move_to_active_list_tail coro s =
     run_bind (remove_from_inactive_tree coro s) (\<lambda>s1. ret (in_lists (list_add_tail coro (active s1)) s1))"

definition move_to_active_list_head :: "ptr \<Rightarrow> 'f coro_schedule \<Rightarrow> 'f coro_schedule run" where
  "move_to_active_list_head coro s =
     run_bind (remove_from_inactive_tree coro s) (\<lambda>s1. ret (in_lists (list_add coro (active s1)) s1))"

definition coroutine_init :: "ptr \<Rightarrow> 'f coro_schedule \<Rightarrow> 'f coro_schedule" where
  "coroutine_init coro s =
     (in_lists (INIT_LIST_HEAD coro) s)
       \<lparr>trees := RB_CLEAR_NODE (node_of coro) (trees s), coro_timeout := (coro_timeout s)(coro := 0),
        active_by_timeout := (active_by_timeout s)(coro := False)\<rparr>"

text \<open>\<open>stack_ok\<close> is the outcome of \<open>coro_stack_alloc\<close>; 0 for \<open>NULL\<close>.\<close>

definition create_coroutine :: "bool \<Rightarrow> 'f coro_schedule \<Rightarrow> (ptr \<times> 'f coro_schedule) run" where
  "create_coroutine stack_ok s =
     (if curr_coro_size s = max_coro_size s then ret (0, s)
      else case malloc (heap s) of (coro, a) \<Rightarrow>
        let s1 = s\<lparr>heap := a\<rparr> in
        if coro = 0 then ret (0, s1)
        else if \<not> stack_ok then Some (cbind (free coro a) (\<lambda>a'. Ret (0, s1\<lparr>heap := a'\<rparr>)))
        else
          let s2 = s1\<lparr>next_coro_id := next_coro_id s1 + 1\<rparr>
          in ret (coro, s2\<lparr>coro_id := (coro_id s2)(coro := next_coro_id s2), curr_coro_size := curr_coro_size s2 + 1\<rparr>))"

definition get_coroutine :: "bool \<Rightarrow> 'f coro_schedule \<Rightarrow> (ptr \<times> 'f coro_schedule) run" where
  "get_coroutine stack_ok s =
     (if \<not> list_empty (idle s) (lists s)
      then let coro = list_first_entry (idle s) (lists s)
           in ret (coro, coroutine_init coro (in_lists (list_del coro) s))
      else run_bind (create_coroutine stack_ok s) (\<lambda>(coro, s1).
             if coro \<noteq> 0 then ret (coro, coroutine_init coro s1) else ret (coro, s1)))"

definition coroutine_switch :: "ptr \<Rightarrow> 'f coro_schedule \<Rightarrow> 'f coro_schedule" where
  "coroutine_switch nxt s = s\<lparr>current := nxt\<rparr>"

definition get_active_coroutine :: "'f coro_schedule \<Rightarrow> ptr \<times> 'f coro_schedule" where
  "get_active_coroutine s =
     (if list_empty (active s) (lists s) then (0, s)
      else let coro = list_first_entry (active s) (lists s)
           in (coro, in_lists (list_del_init coro) s))"

subsection \<open>Expired timers\<close>

definition get_recent_timer_node :: "'f coro_schedule \<Rightarrow> ptr option" where
  "get_recent_timer_node s = rb_first (inactive s) (trees s)"

partial_function (option) timeout_coroutine_handler :: "ptr \<Rightarrow> 'f coro_schedule \<Rightarrow> 'f coro_schedule option" where
  "timeout_coroutine_handler node s =
     (let recent = rb_node (trees s) (root_at node) in
      if recent = 0 then Some s
      else
        let coro = coro_of recent in
        case rb_erase recent (root_at node) (trees s) of
          None \<Rightarrow> None
        | Some h \<Rightarrow>
            let s1 = s\<lparr>trees := h, active_by_timeout := (active_by_timeout s)(coro := True)\<rparr>
            in timeout_coroutine_handler node (move_to_active_list_tail_direct coro s1))"

partial_function (option) check_timeout_loop :: "int \<Rightarrow> 'f coro_schedule \<Rightarrow> 'f coro_schedule run" where
  "check_timeout_loop now s =
     (case get_recent_timer_node s of
        None \<Rightarrow> None
      | Some node \<Rightarrow>
          if node = 0 \<or> now < tm_timeout s node then Some (Ret s)
          else
            (case rb_erase node (inactive s) (trees s) of
               None \<Rightarrow> None
             | Some h \<Rightarrow>
                 (case timeout_coroutine_handler node (s\<lparr>trees := h\<rparr>) of
                    None \<Rightarrow> None
                  | Some s1 \<Rightarrow>
                      (case memcache_free (cache s1) node (heap s1) of
                         Ret (c, a) \<Rightarrow> check_timeout_loop now (s1\<lparr>cache := c, heap := a\<rparr>)
                       | UB \<Rightarrow> Some UB | Abort \<Rightarrow> Some Abort | Exit e \<Rightarrow> Some (Exit e)))))"

definition check_timeout_coroutine :: "int \<Rightarrow> 'f coro_schedule \<Rightarrow> 'f coro_schedule run" where
  "check_timeout_coroutine now s = check_timeout_loop now s"

definition get_recent_timespan :: "int \<Rightarrow> 'f coro_schedule \<Rightarrow> int option" where
  "get_recent_timespan now s =
     map_option (\<lambda>node. if node = 0 then 10 * 1000
       else let timespan = to_int32 (tm_timeout s node - now) in if timespan < 0 then 0 else timespan)
       (get_recent_timer_node s)"

subsection \<open>The interface of the scheduler\<close>

definition dispatch_coro :: "bool \<Rightarrow> 'f \<Rightarrow> 'f coro_schedule \<Rightarrow> (int \<times> 'f coro_schedule) run" where
  "dispatch_coro stack_ok f s =
     run_bind (get_coroutine stack_ok s) (\<lambda>(coro, s1).
       if coro = 0 then ret (-1, s1)
       else ret (0, move_to_active_list_tail_direct coro (s1\<lparr>coro_func := (coro_func s1)(coro := f)\<rparr>)))"

definition schedule_timeout :: "int \<Rightarrow> int \<Rightarrow> 'f coro_schedule \<Rightarrow> 'f coro_schedule run" where
  "schedule_timeout now milliseconds s =
     (let coro = current s; s1 = s\<lparr>coro_timeout := (coro_timeout s)(coro := now + milliseconds)\<rparr>
      in run_bind (move_to_inactive_tree coro s1) (\<lambda>s2. ret (coroutine_switch (main_coro s2) s2)))"

definition is_wakeup_by_timeout :: "'f coro_schedule \<Rightarrow> bool \<times> 'f coro_schedule" where
  "is_wakeup_by_timeout s =
     (active_by_timeout s (current s), s\<lparr>active_by_timeout := (active_by_timeout s)(current s := False)\<rparr>)"

definition wakeup_coro :: "ptr \<Rightarrow> 'f coro_schedule \<Rightarrow> 'f coro_schedule run" where
  "wakeup_coro coro s = move_to_active_list_tail coro (s\<lparr>active_by_timeout := (active_by_timeout s)(coro := False)\<rparr>)"

definition wakeup_coro_priority :: "ptr \<Rightarrow> 'f coro_schedule \<Rightarrow> 'f coro_schedule run" where
  "wakeup_coro_priority coro s = move_to_active_list_head coro (s\<lparr>active_by_timeout := (active_by_timeout s)(coro := False)\<rparr>)"

definition current_coro :: "'f coro_schedule \<Rightarrow> ptr" where
  "current_coro s = current s"

text \<open>The end of \<open>coro_routine_proxy\<close>, after the function of the coroutine has returned.\<close>

definition coro_routine_end :: "'f coro_schedule \<Rightarrow> 'f coro_schedule" where
  "coro_routine_end s = (let s1 = move_to_idle_list_direct (current s) s in coroutine_switch (main_coro s1) s1)"

text \<open>One round of the loop of \<open>run_active_coroutine\<close>: the next coroutine gets the processor.\<close>

definition run_next :: "'f coro_schedule \<Rightarrow> 'f coro_schedule option" where
  "run_next s = (case get_active_coroutine s of (coro, s1) \<Rightarrow> if coro = 0 then None else Some (coroutine_switch coro s1))"

definition sizeof_timer_node :: nat where "sizeof_timer_node = 40"

text \<open>\<open>max_coro_size / 2\<close> is passed as an \<open>int\<close>.\<close>

definition schedule_init :: "nat \<Rightarrow> nat \<Rightarrow> 'f coro_schedule \<Rightarrow> 'f coro_schedule run" where
  "schedule_init stack_kbytes max_size s =
     (if \<not> max_size \<ge> 2 then Some Abort
      else
        let s1 = s\<lparr>max_coro_size := max_size, curr_coro_size := 0, next_coro_id := 0, stack_bytes := stack_kbytes * 1024,
                   current := 0, lists := INIT_LIST_HEAD (active s) (INIT_LIST_HEAD (idle s) (lists s)),
                   trees := RB_ROOT (inactive s) (trees s)\<rparr>
        in run_bind (memcache_create sizeof_timer_node (int (max_size div 2)) (heap s1)) (\<lambda>(oc, a).
             case oc of None \<Rightarrow> Some (Exit 0) | Some c \<Rightarrow> ret (s1\<lparr>cache := c, heap := a\<rparr>)))"

end
