(* ===== verification/Sched_Timers.thy ===== *)
theory Sched_Timers
  imports Sched
begin

text \<open>
  The walks of \<open>coro/sched.c\<close> through its red-black trees. The trees are ordered by a key: the timer nodes by
  their instant, the coroutines of one timer node by their identifier. One search and two insertions go
  down such a tree; the locale \<open>key_walk\<close> is what the two insertions have in common. The result
  are the timers as an abstract structure: a list of timer nodes, each with its coroutines.
\<close>

text \<open>Insertion into a list ordered by a key.\<close>

definition ins_by :: "('a \<Rightarrow> int) \<Rightarrow> 'a \<Rightarrow> 'a list \<Rightarrow> 'a list" where
  "ins_by key x ys = filter (\<lambda>y. key y < key x) ys @ x # filter (\<lambda>y. key x < key y) ys"

lemma set_ins_by: "key x \<notin> key ` set ys \<Longrightarrow> set (ins_by key x ys) = insert x (set ys)"
  by (auto simp: ins_by_def linorder_neq_iff)

lemma sorted_ins_by: "sorted_wrt (<) (map key ys) \<Longrightarrow> sorted_wrt (<) (map key (ins_by key x ys))"
  by (auto simp: ins_by_def sorted_wrt_map sorted_wrt_append intro: sorted_wrt_filter)

lemma ins_by_split:
  assumes "\<forall>y \<in> set bs. key y < key x" and "\<forall>y \<in> set cs. key x < key y"
  shows "ins_by key x (bs @ cs) = bs @ x # cs"
proof -
  have "filter (\<lambda>y. key y < key x) cs = []" "filter (\<lambda>y. key x < key y) bs = []"
    using assms by (fastforce simp: filter_empty_conv)+
  with assms show ?thesis by (simp add: ins_by_def)
qed

lemma ins_by_map: "ins_by key (f x) (map f ys) = map f (ins_by (key \<circ> f) x ys)"
  by (simp add: ins_by_def filter_map comp_def)

subsection \<open>Searching\<close>

lemma sorted_nodes:
  assumes "sorted_wrt (<) (map key (nodes (Nd c l x r)))" and "y \<in> set (nodes l)" and "z \<in> set (nodes r)"
  shows "key y < key x" "key x < (key z :: int)" "key y < key z"
  using assms by (auto simp: sorted_wrt_append)

lemma find_timer_loop_found:
  assumes "is_tree (trees s) q p t" and "sorted_wrt (<) (map (tm_timeout s) (nodes t))" and "x \<in> set (nodes t)"
  shows "find_timer_loop (tm_timeout s x) p s = Some x"
  using assms
proof (induction t arbitrary: q p)
  case (Nd c l y r)
  then have p: "p = y" "y \<noteq> 0" by (auto dest: node_at_addr)
  from Nd.prems(3) consider "x = y" | "x \<in> set (nodes l)" | "x \<in> set (nodes r)" by auto
  then show ?case
    by cases (use Nd p in \<open>auto simp: find_timer_loop.simps [of _ y] sorted_wrt_append\<close>)
qed simp

lemma find_timer_loop_absent:
  assumes "is_tree (trees s) q p t" and "v \<notin> tm_timeout s ` set (nodes t)"
  shows "find_timer_loop v p s = Some 0"
  using assms
proof (induction t arbitrary: q p)
  case Lf
  then show ?case by (simp add: find_timer_loop.simps)
next
  case (Nd c l y r)
  then have "p = y" "y \<noteq> 0" by (auto dest: node_at_addr)
  with Nd show ?case by (auto simp: find_timer_loop.simps [of _ y] Let_def image_Un)
qed

lemma find_in_timer_loop_found:
  assumes "is_tree (trees s) q p t" and "sorted_wrt (<) (map (coro_id s \<circ> coro_of) (nodes t))" and "x \<in> set (nodes t)"
  shows "find_in_timer_loop (coro_id s (coro_of x)) p s = Some (coro_of x)"
  using assms
proof (induction t arbitrary: q p)
  case (Nd c l y r)
  then have p: "p = y" "y \<noteq> 0" by (auto dest: node_at_addr)
  from Nd.prems(3) consider "x = y" | "x \<in> set (nodes l)" | "x \<in> set (nodes r)" by auto
  then show ?case
    by cases (use Nd p in \<open>auto simp: find_in_timer_loop.simps [of _ y] sorted_wrt_append\<close>)
qed simp

lemma find_in_timer_loop_absent:
  assumes "is_tree (trees s) q p t" and "v \<notin> (coro_id s \<circ> coro_of) ` set (nodes t)"
  shows "find_in_timer_loop v p s = Some 0"
  using assms
proof (induction t arbitrary: q p)
  case Lf
  then show ?case by (simp add: find_in_timer_loop.simps)
next
  case (Nd c l y r)
  then have "p = y" "y \<noteq> 0" by (auto dest: node_at_addr)
  with Nd show ?case by (auto simp: find_in_timer_loop.simps [of _ y] Let_def image_Un)
qed

subsection \<open>Descending to a leaf\<close>

text \<open>A walk with the key \<open>v\<close> that goes left at a greater and right at a smaller key, as long as the keys it
  meets are \<open>near\<close>.\<close>

locale key_walk =
  fixes walk :: "rb_link \<Rightarrow> ptr \<Rightarrow> 'r" and key :: "ptr \<Rightarrow> int" and v :: int and h :: rb_heap and near :: "ptr \<Rightarrow> bool"
  assumes go_left: "near (link_get l h) \<Longrightarrow> link_get l h \<noteq> 0 \<Longrightarrow> v < key (link_get l h) \<Longrightarrow>
      walk l p = walk (Left_link (link_get l h)) (link_get l h)"
    and go_right: "near (link_get l h) \<Longrightarrow> link_get l h \<noteq> 0 \<Longrightarrow> key (link_get l h) < v \<Longrightarrow>
      walk l p = walk (Right_link (link_get l h)) (link_get l h)"
begin

lemma walk_side:
  assumes "at_pos h root fs (Nd c l x r)" and "near x" and "key x \<noteq> v"
  shows "walk (link_of root fs) p = (if v < key x then walk (link_of root (FL c x r # fs)) x else walk (link_of root (FR c l x # fs)) x)"
proof -
  have "link_get (link_of root fs) h = x" "x \<noteq> 0"
    using link_get_root [OF assms(1)] assms(1) by (auto simp: at_pos_def dest: node_at_addr)
  then show ?thesis using go_left [of "link_of root fs" p] go_right [of "link_of root fs" p] assms(2,3) by auto
qed

lemma at_pos_frames:
  "at_pos h root fs (Nd c l x r) \<Longrightarrow> at_pos h root (FL c x r # fs) l \<and> at_pos h root (FR c l x # fs) r"
  using pos_plug [of h h root "FL c x r" fs l] pos_plug [of h h root "FR c l x" fs r] by (simp add: pos_def)

text \<open>Without an equal key, the walk ends at the leaf between the smaller and the greater keys.\<close>

lemma descend:
  assumes "at_pos h root fs t" and "sorted_wrt (<) (map key (nodes t))" and "\<forall>x \<in> set (nodes t). near x \<and> key x \<noteq> v"
    and "\<forall>y \<in> set (before fs). key y < v" and "\<forall>y \<in> set (after fs). v < key y"
  shows "\<exists>gs. walk (link_of root fs) (ctx_parent fs) = walk (link_of root gs) (ctx_parent gs) \<and> at_pos h root gs Lf \<and>
    zip_up gs Lf = zip_up fs t \<and> (\<forall>y \<in> set (before gs). key y < v) \<and> (\<forall>y \<in> set (after gs). v < key y)"
  using assms
proof (induction t arbitrary: fs)
  case (Nd c l x r)
  note side = walk_side [OF Nd.prems(1)] and frames = at_pos_frames [OF Nd.prems(1)]
  show ?case
  proof (cases "v < key x")
    case True
    moreover have "\<forall>y \<in> set (after (FL c x r # fs)). v < key y"
      using Nd.prems(2,5) True by (fastforce simp: sorted_wrt_append)
    ultimately show ?thesis using Nd.IH(1) [of "FL c x r # fs"] frames side Nd.prems(2-4) by (simp add: sorted_wrt_append)
  next
    case False
    with Nd.prems(3) have "key x < v" by auto
    moreover from this have "\<forall>y \<in> set (before (FR c l x # fs)). key y < v"
      using Nd.prems(2,4) by (fastforce simp: sorted_wrt_append)
    ultimately show ?thesis using Nd.IH(2) [of "FR c l x # fs"] frames side Nd.prems(2,3,5) by (simp add: sorted_wrt_append)
  qed
qed auto

text \<open>An equal key is met.\<close>

lemma meet:
  assumes "at_pos h root fs t" and "sorted_wrt (<) (map key (nodes t))" and "\<forall>x \<in> set (nodes t). near x"
    and "x \<in> set (nodes t)" and "key x = v"
  shows "\<exists>l p. walk (link_of root fs) (ctx_parent fs) = walk l p \<and> link_get l h = x"
  using assms(1-4)
proof (induction t arbitrary: fs)
  case (Nd c l y r)
  note side = walk_side [OF Nd.prems(1)] and frames = at_pos_frames [OF Nd.prems(1)]
  from Nd.prems(4) consider "x = y" | "x \<in> set (nodes l)" | "x \<in> set (nodes r)" by auto
  then show ?case
  proof cases
    case 1
    with link_get_root [OF Nd.prems(1)] show ?thesis by auto
  next
    case 2
    then have "v < key y" using Nd.prems(2) assms(5) by (auto simp: sorted_wrt_append)
    with 2 Nd.IH(1) [of "FL c y r # fs"] frames side Nd.prems(2,3) show ?thesis by (simp add: sorted_wrt_append)
  next
    case 3
    then have "key y < v" using Nd.prems(2) assms(5) by (auto simp: sorted_wrt_append)
    with 3 Nd.IH(2) [of "FR c l y # fs"] frames side Nd.prems(2,3) show ?thesis by (simp add: sorted_wrt_append)
  qed
qed simp

end

lemma node_of_of [simp]: "coro_of (node_of c) = c" "node_of c \<noteq> 0" "node_of c = node_of d \<longleftrightarrow> c = d"
  by (simp_all add: node_of_def coro_of_def)

lemma root_at_inj [simp]: "root_at a = root_at b \<longleftrightarrow> a = b"
  by (simp add: root_at_def)

interpretation aw: key_walk "\<lambda>l p. add_walk v l p s" "coro_id s \<circ> coro_of" v "trees s" "\<lambda>_. True" for v s
proof
  fix l p
  let ?x = "link_get l (trees s)"
  assume x: "?x \<noteq> 0"
  show "add_walk v l p s = add_walk v (Left_link ?x) ?x s" if "v < (coro_id s \<circ> coro_of) ?x"
    using that x by (simp add: add_walk.simps [of v l] Let_def)
  show "add_walk v l p s = add_walk v (Right_link ?x) ?x s" if "(coro_id s \<circ> coro_of) ?x < v"
    using that x by (simp add: add_walk.simps [of v l] Let_def)
qed

definition in_int32 :: "int \<Rightarrow> bool" where
  "in_int32 d \<longleftrightarrow> - (2 ^ 31) \<le> d \<and> d < 2 ^ 31"

lemma to_int32_exact: "in_int32 d \<Longrightarrow> to_int32 d = d"
  unfolding to_int32_def in_int32_def by (simp add: signed_of_int signed_take_bit_int_eq_self)

interpretation iw: key_walk "\<lambda>l p. inactive_walk v l p s" "tm_timeout s" v "trees s" "\<lambda>x. in_int32 (v - tm_timeout s x)" for v s
proof
  fix l p
  let ?x = "link_get l (trees s)"
  assume x: "?x \<noteq> 0" and near: "in_int32 (v - tm_timeout s ?x)"
  show "inactive_walk v l p s = inactive_walk v (Left_link ?x) ?x s" if "v < tm_timeout s ?x"
    using that x by (simp add: inactive_walk.simps [of v l] Let_def to_int32_exact [OF near])
  show "inactive_walk v l p s = inactive_walk v (Right_link ?x) ?x s" if "tm_timeout s ?x < v"
    using that x by (simp add: inactive_walk.simps [of v l] Let_def to_int32_exact [OF near])
qed

lemma add_walk_leaf: "at_pos (trees s) root gs Lf \<Longrightarrow> add_walk v (link_of root gs) p s = Some (link_of root gs, p)"
  using link_get_root [of "trees s" root gs Lf] by (simp add: add_walk.simps)

lemma inactive_walk_leaf: "at_pos (trees s) root gs Lf \<Longrightarrow> inactive_walk v (link_of root gs) p s = Some (Inr (link_of root gs, p))"
  using link_get_root [of "trees s" root gs Lf] by (simp add: inactive_walk.simps)

subsection \<open>Insertion by key\<close>

lemma in_trees_Some: "f (trees s) = Some h \<Longrightarrow> in_trees f s = ret (s\<lparr>trees := h\<rparr>)"
  by (simp add: in_trees_def)

text \<open>Linking a node at the leaf a walk has found.\<close>

lemma insert_at_leaf:
  assumes "at_pos h root gs Lf" and "zip_up gs Lf = t" and "is_rbt t" and "x \<noteq> 0" and "4 dvd x" and "x \<notin> set (nodes t)"
    and "\<forall>y \<in> set (before gs). key y < key x" and "\<forall>y \<in> set (after gs). key x < key y"
  shows "\<exists>h'. rb_insert_color x root (rb_link_node x (ctx_parent gs) (link_of root gs) h) = Some h' \<and>
    rb_holds h' root (ins_by key x (nodes t)) \<and> same_outside (insert x (set (nodes t))) root h h'"
proof -
  have ns: "nodes t = before gs @ after gs" using assms(2) nodes_zip [of gs Lf] by simp
  with assms(6) have "x \<notin> set (ctx_nodes gs)" by (simp add: ctx_nodes_set)
  with rb_insert_correct [OF assms(1) _ assms(4,5)] assms(2,3) obtain h' t' where
    "rb_insert_color x root (rb_link_node x (ctx_parent gs) (link_of root gs) h) = Some h'" "holds_tree h' root t'"
    "is_rbt t'" "nodes t' = before gs @ x # after gs" "same_outside (set (before gs @ x # after gs)) root h h'" by metis
  moreover have "ins_by key x (nodes t) = before gs @ x # after gs" unfolding ns by (rule ins_by_split) (use assms(7,8) in auto)
  moreover have "set (before gs @ x # after gs) = insert x (set (nodes t))" by (auto simp: ns)
  ultimately show ?thesis unfolding rb_holds_def by metis
qed

lemma add_to_timer_node_correct:
  assumes "rb_holds (trees s) (root_at tm) (map node_of cs)" and "sorted_wrt (<) (map (coro_id s) cs)"
    and "coro_id s c \<notin> coro_id s ` set cs" and "4 dvd c"
  shows "\<exists>h. add_to_timer_node tm c s = ret (s\<lparr>trees := h\<rparr>) \<and>
    rb_holds h (root_at tm) (map node_of (ins_by (coro_id s) c cs)) \<and>
    same_outside (node_of ` insert c (set cs)) (root_at tm) (trees s) h"
proof -
  let ?k = "coro_id s \<circ> coro_of" and ?v = "coro_id s c"
  from assms(1) obtain t where t: "at_pos (trees s) (root_at tm) [] t" "is_rbt t" "nodes t = map node_of cs"
    by (auto simp: rb_holds_def holds_tree_def)
  have srt: "sorted_wrt (<) (map ?k (nodes t))" using assms(2) by (simp add: t(3) comp_def)
  have new: "\<forall>x \<in> set (nodes t). True \<and> ?k x \<noteq> ?v" using assms(3) by (auto simp: t(3)) (metis imageI)
  from aw.descend [OF t(1) srt new] obtain gs where gs: "at_pos (trees s) (root_at tm) gs Lf" "zip_up gs Lf = t"
    "\<forall>y \<in> set (before gs). ?k y < ?v" "\<forall>y \<in> set (after gs). ?v < ?k y"
    and "add_walk ?v (Root_link (root_at tm)) 0 s = add_walk ?v (link_of (root_at tm) gs) (ctx_parent gs) s" by auto
  then have walk: "add_walk ?v (Root_link (root_at tm)) 0 s = Some (link_of (root_at tm) gs, ctx_parent gs)"
    by (simp add: add_walk_leaf)
  have "node_of c \<notin> set (nodes t)" using new by force
  moreover have "4 dvd node_of c" using assms(4) by (simp add: node_of_def)
  ultimately obtain h where "rb_insert_color (node_of c) (root_at tm) (rb_link_node (node_of c) (ctx_parent gs) (link_of (root_at tm) gs) (trees s)) = Some h"
    "rb_holds h (root_at tm) (ins_by ?k (node_of c) (nodes t))" "same_outside (insert (node_of c) (set (nodes t))) (root_at tm) (trees s) h"
    using insert_at_leaf [OF gs(1,2) t(2), of "node_of c" ?k] gs(3,4) by auto
  moreover have "ins_by ?k (node_of c) (nodes t) = map node_of (ins_by (coro_id s) c cs)"
    by (simp add: t(3) ins_by_map comp_def)
  ultimately show ?thesis by (auto simp: add_to_timer_node_def walk in_trees_def t(3))
qed

subsection \<open>The timers\<close>

text \<open>One timer node with its coroutines, and all of them in the order of their instants.\<close>

definition timer_ok :: "'f coro_schedule \<Rightarrow> ptr \<Rightarrow> ptr list \<Rightarrow> bool" where
  "timer_ok s tm cs \<longleftrightarrow> rb_holds (trees s) (root_at tm) (map node_of cs) \<and> cs \<noteq> [] \<and>
     sorted_wrt (<) (map (coro_id s) cs) \<and> (\<forall>c \<in> set cs. coro_timeout s c = tm_timeout s tm)"

definition waiting :: "(ptr \<times> ptr list) list \<Rightarrow> ptr list" where
  "waiting ts = concat (map snd ts)"

definition timers_ok :: "'f coro_schedule \<Rightarrow> (ptr \<times> ptr list) list \<Rightarrow> bool" where
  "timers_ok s ts \<longleftrightarrow> rb_holds (trees s) (inactive s) (map fst ts) \<and> sorted_wrt (<) (map (tm_timeout s \<circ> fst) ts) \<and>
     (\<forall>(tm, cs) \<in> set ts. timer_ok s tm cs) \<and> distinct (waiting ts) \<and>
     inactive s \<notin> root_at ` set (map fst ts) \<and> node_of ` set (waiting ts) \<inter> set (map fst ts) = {}"

lemma waiting_simps [simp]: "waiting [] = []" "waiting ((tm, cs) # ts) = cs @ waiting ts" "waiting (us @ vs) = waiting us @ waiting vs"
  by (simp_all add: waiting_def)

lemma timers_ok_cong:
  assumes "trees s' = trees s" "inactive s' = inactive s" "tm_timeout s' = tm_timeout s" "coro_id s' = coro_id s" "coro_timeout s' = coro_timeout s"
  shows "timers_ok s' ts = timers_ok s ts"
  by (simp add: timers_ok_def timer_ok_def assms)

lemma timer_waiting: "(tm, cs) \<in> set ts \<Longrightarrow> set cs \<subseteq> set (waiting ts)"
  by (force simp: waiting_def)

lemma timers_distinct: "timers_ok s ts \<Longrightarrow> distinct (map fst ts) \<and> 0 \<notin> set (map fst ts)"
  using rbs.holds_distinct unfolding timers_ok_def by blast

lemma timers_member: "timers_ok s ts \<Longrightarrow> (tm, cs) \<in> set ts \<Longrightarrow> timer_ok s tm cs"
  by (auto simp: timers_ok_def)

lemma timers_apart: "timers_ok s (us @ (tm, cs) # vs) \<Longrightarrow> set (waiting (us @ vs)) \<inter> set cs = {}"
  by (auto simp: timers_ok_def)

lemma waiting_split:
  assumes "c \<in> set (waiting ts)"
  obtains us tm cs vs where "ts = us @ (tm, cs) # vs" "c \<in> set cs"
proof -
  from assms obtain tm cs where "(tm, cs) \<in> set ts" "c \<in> set cs" by (auto simp: waiting_def)
  with that split_list [of "(tm, cs)" ts] show thesis by blast
qed

lemma timers_inj:
  assumes "timers_ok s ts" and "(tm, cs) \<in> set ts" and "(tm', cs') \<in> set ts" and "tm_timeout s tm = tm_timeout s tm'"
  shows "tm = tm' \<and> cs = cs'"
proof -
  have "distinct (map (tm_timeout s \<circ> fst) ts)"
    using assms(1) by (auto simp: timers_ok_def distinct_map strict_sorted_iff)
  with assms(2-4) show ?thesis by (force simp: distinct_map inj_on_def)
qed

text \<open>An operation on the tree of one timer node leaves the other timers alone.\<close>

lemma timer_ok_other:
  assumes "timer_ok s tm' cs'" and "same_outside X (root_at tm) (trees s) h" and "tm' \<noteq> tm" and "node_of ` set cs' \<inter> X = {}"
  shows "timer_ok (s\<lparr>trees := h\<rparr>) tm' cs'"
  using assms rbs.holds_agree [of "trees s" "root_at tm'" "map node_of cs'" X "root_at tm" h] by (simp add: timer_ok_def)

lemma timer_ok_inactive:
  assumes "timer_ok s tm cs" and "same_outside X (inactive s) (trees s) h" and "inactive s \<noteq> root_at tm" and "node_of ` set cs \<inter> X = {}"
  shows "timer_ok (s\<lparr>trees := h\<rparr>) tm cs"
  using assms rbs.holds_agree [of "trees s" "root_at tm" "map node_of cs" X "inactive s" h] by (auto simp: timer_ok_def)

lemma timers_change:
  assumes ts: "timers_ok s (us @ (tm, cs) # vs)" and tm: "timer_ok (s\<lparr>trees := h\<rparr>) tm cs'"
    and same: "same_outside (node_of ` X) (root_at tm) (trees s) h"
    and X: "X \<inter> set (waiting (us @ vs)) = {}" "node_of ` X \<inter> set (map fst (us @ (tm, cs) # vs)) = {}" "set cs' \<subseteq> X"
  shows "timers_ok (s\<lparr>trees := h\<rparr>) (us @ (tm, cs') # vs)"
proof -
  have other: "timer_ok (s\<lparr>trees := h\<rparr>) tm' ds" if "(tm', ds) \<in> set (us @ vs)" for tm' ds
  proof (rule timer_ok_other [OF _ same])
    show "timer_ok s tm' ds" using that ts by (auto simp: timers_ok_def)
    have "tm' \<in> fst ` set us \<or> tm' \<in> fst ` set vs" using that by (metis UnE fst_conv imageI set_append)
    then show "tm' \<noteq> tm" using timers_distinct [OF ts] by auto
    show "node_of ` set ds \<inter> node_of ` X = {}" using X(1) timer_waiting [OF that] by auto
  qed
  have "rb_holds h (inactive s) (map fst (us @ (tm, cs) # vs))"
  proof (rule rbs.holds_agree [OF _ same])
    show "rb_holds (trees s) (inactive s) (map fst (us @ (tm, cs) # vs))" "inactive s \<noteq> root_at tm"
      using ts by (auto simp: timers_ok_def)
    show "set (map fst (us @ (tm, cs) # vs)) \<inter> node_of ` X = {}" using X(2) by blast
  qed
  moreover have "distinct cs'" using tm by (auto simp: timer_ok_def strict_sorted_iff distinct_map)
  moreover have "node_of ` set (waiting (us @ (tm, cs') # vs)) \<inter> set (map fst (us @ (tm, cs') # vs)) = {}"
  proof -
    have "node_of ` set cs' \<inter> set (map fst (us @ (tm, cs) # vs)) = {}" using X(2,3) by blast
    with ts show ?thesis by (simp add: timers_ok_def image_Un Int_Un_distrib2)
  qed
  ultimately show ?thesis using ts other tm X(1,3) by (auto simp: timers_ok_def simp del: set_map)
qed

subsection \<open>The blocks of the allocator\<close>

text \<open>The blocks the allocator knows. They are aligned, and none begins 16 bytes into another: every block the
  program asks for is larger than that. The root of the timer tree is in none of them.\<close>

definition blocks :: "allocator \<Rightarrow> ptr set" where
  "blocks a = (set (a_supply a) \<union> set (a_live a)) - {0}"

definition blocks_apart :: "allocator \<Rightarrow> bool" where
  "blocks_apart a \<longleftrightarrow> (\<forall>p \<in> blocks a. 4 dvd p \<and> node_of p \<notin> blocks a)"

lemma malloc_blocks: "malloc a = (p, a') \<Longrightarrow> blocks a' \<subseteq> blocks a"
  by (auto simp: malloc_def blocks_def split: list.splits if_splits)

lemma free_blocks: "free p a = Ret a' \<Longrightarrow> blocks a' \<subseteq> blocks a"
  by (auto simp: free_def blocks_def split: if_splits dest: notin_set_remove1)

lemma memcache_alloc_blocks: "memcache_alloc c a = (p, c', a') \<Longrightarrow> blocks a' \<subseteq> blocks a"
  by (auto simp: memcache_alloc_def split: if_splits prod.splits dest: malloc_blocks)

lemma memcache_free_blocks: "memcache_free c p a = Ret (c', a') \<Longrightarrow> blocks a' \<subseteq> blocks a"
  unfolding memcache_free_def add_element_def
  by (cases "free p a") (auto split: if_splits dest: free_blocks)

lemma blocks_apart_mono: "blocks_apart a \<Longrightarrow> blocks a' \<subseteq> blocks a \<Longrightarrow> blocks_apart a'"
  by (auto simp: blocks_apart_def)

lemma mc_rep_blocks: "mc_rep c a out rest \<Longrightarrow> out \<union> rest \<subseteq> blocks a"
  by (auto simp: mc_rep_def alloc_ok_def blocks_def)

subsection \<open>Finding and removing\<close>

lemma rb_holds_tree:
  assumes "rb_holds h root ns"
  obtains t where "is_tree h 0 (rb_node h root) t" "nodes t = ns" "rb_node h root = root_of t"
  using assms by (auto simp: rb_holds_def holds_tree_def at_pos_def)

lemma rb_holds_empty: "rb_holds h root ns \<Longrightarrow> RB_EMPTY_ROOT h root \<longleftrightarrow> ns = []"
proof -
  assume "rb_holds h root ns"
  then obtain t where "is_tree h 0 (rb_node h root) t" "nodes t = ns" "rb_node h root = root_of t" by (rule rb_holds_tree)
  then show ?thesis by (cases t) (auto simp: RB_EMPTY_ROOT_def dest: node_at_addr)
qed

lemma find_timer_node_found:
  assumes "timers_ok s ts" and "(tm, cs) \<in> set ts"
  shows "find_timer_node (tm_timeout s tm) s = Some tm"
proof -
  from assms(1) obtain t where "is_tree (trees s) 0 (rb_node (trees s) (inactive s)) t" "nodes t = map fst ts"
    unfolding timers_ok_def by (metis rb_holds_tree)
  with find_timer_loop_found [OF this(1), of tm] assms show ?thesis
    by (force simp: find_timer_node_def timers_ok_def)
qed

lemma find_timer_node_absent:
  assumes "timers_ok s ts" and "v \<notin> tm_timeout s ` fst ` set ts"
  shows "find_timer_node v s = Some 0"
proof -
  from assms(1) obtain t where "is_tree (trees s) 0 (rb_node (trees s) (inactive s)) t" "nodes t = map fst ts"
    unfolding timers_ok_def by (metis rb_holds_tree)
  with find_timer_loop_absent [OF this(1), of v] assms(2) show ?thesis by (simp add: find_timer_node_def)
qed

lemma find_in_timer_correct:
  assumes "timer_ok s tm cs"
  shows "c \<in> set cs \<Longrightarrow> find_in_timer tm (coro_id s c) s = Some c"
    and "v \<notin> coro_id s ` set cs \<Longrightarrow> find_in_timer tm v s = Some 0"
proof -
  from assms obtain t where t: "is_tree (trees s) 0 (rb_node (trees s) (root_at tm)) t" "nodes t = map node_of cs"
    unfolding timer_ok_def by (metis rb_holds_tree)
  have srt: "sorted_wrt (<) (map (coro_id s \<circ> coro_of) (nodes t))" using assms by (simp add: t(2) timer_ok_def comp_def)
  show "find_in_timer tm (coro_id s c) s = Some c" if "c \<in> set cs"
    using find_in_timer_loop_found [OF t(1) srt, of "node_of c"] that by (simp add: t(2) find_in_timer_def)
  show "find_in_timer tm v s = Some 0" if "v \<notin> coro_id s ` set cs"
    using find_in_timer_loop_absent [OF t(1), of v] that by (simp add: t(2) find_in_timer_def image_image comp_def)
qed

lemma remove1_node_of: "remove1 (node_of c) (map node_of cs) = map node_of (remove1 c cs)"
  by (induction cs) auto

lemma remove_from_timer_node_correct:
  assumes "timer_ok s tm cs" and "c \<in> set cs" and "c \<noteq> 0"
  shows "\<exists>h. remove_from_timer_node tm c s = ret (s\<lparr>trees := h\<rparr>) \<and> rb_holds h (root_at tm) (map node_of (remove1 c cs)) \<and>
    same_outside (node_of ` set (remove1 c cs)) (root_at tm) (trees s) h"
proof -
  have "rb_holds (trees s) (root_at tm) (map node_of cs)" "node_of c \<in> set (map node_of cs)"
    using assms(1,2) by (simp_all add: timer_ok_def)
  from rbs.erase_holds [OF this] obtain h where h: "rb_erase (node_of c) (root_at tm) (trees s) = Some h"
    "rb_holds h (root_at tm) (map node_of (remove1 c cs))" "same_outside (node_of ` set (remove1 c cs)) (root_at tm) (trees s) h"
    by (auto simp: remove1_node_of)
  from h(1) find_in_timer_correct(1) [OF assms(1,2)] assms(3)
  have "remove_from_timer_node tm c s = ret (s\<lparr>trees := h\<rparr>)" by (simp add: remove_from_timer_node_def in_trees_def)
  with h(2,3) show ?thesis by blast
qed

text \<open>A coroutine that does not wait: nothing happens.\<close>

lemma remove_from_inactive_tree_absent:
  assumes "timers_ok s ts" and "coro_id s c \<notin> coro_id s ` set (waiting ts)"
  shows "remove_from_inactive_tree c s = ret s"
proof (cases "coro_timeout s c \<in> tm_timeout s ` fst ` set ts")
  case False
  with find_timer_node_absent [OF assms(1)] show ?thesis by (simp add: remove_from_inactive_tree_def)
next
  case True
  then obtain tm cs where tm: "(tm, cs) \<in> set ts" "coro_timeout s c = tm_timeout s tm" by auto
  then have ok: "timer_ok s tm cs" "tm \<noteq> 0" using assms(1) timers_distinct [OF assms(1)] by (force simp: timers_ok_def)+
  have "coro_id s c \<notin> coro_id s ` set cs" using assms(2) timer_waiting [OF tm(1)] by blast
  with find_in_timer_correct(2) [OF ok(1)] have "remove_from_timer_node tm c s = ret s"
    by (simp add: remove_from_timer_node_def)
  moreover have "\<not> RB_EMPTY_ROOT (trees s) (root_at tm)"
    using ok(1) rb_holds_empty [of "trees s" "root_at tm" "map node_of cs"] by (simp add: timer_ok_def)
  ultimately show ?thesis
    using find_timer_node_found [OF assms(1) tm(1)] tm(2) ok(2)
    by (simp add: remove_from_inactive_tree_def run_bind_def ret_def)
qed

text \<open>The timer nodes in use, as blocks of the pool.\<close>

definition timers_rep :: "'f coro_schedule \<Rightarrow> (ptr \<times> ptr list) list \<Rightarrow> ptr set \<Rightarrow> bool" where
  "timers_rep s ts rest \<longleftrightarrow> timers_ok s ts \<and> mc_rep (cache s) (heap s) (set (map fst ts)) rest"

lemma timers_repI:
  assumes "timers_ok s ts" and "mc_rep (cache s') (heap s') (set (map fst ts)) rest"
    and "trees s' = trees s" "inactive s' = inactive s" "tm_timeout s' = tm_timeout s" "coro_id s' = coro_id s" "coro_timeout s' = coro_timeout s"
  shows "timers_rep s' ts rest"
  using assms timers_ok_cong [of s' s ts] by (simp add: timers_rep_def)

text \<open>Removing a timer node that has run empty.\<close>

lemma drop_timer:
  assumes ts: "timers_ok s (us @ (tm, cs) # vs)" and same: "same_outside (node_of ` X) (root_at tm) (trees s) h"
    and X: "X \<subseteq> set cs"
  shows "\<exists>h'. rb_erase tm (inactive s) h = Some h' \<and> timers_ok (s\<lparr>trees := h'\<rparr>) (us @ vs) \<and>
    same_outside (set (map fst (us @ vs))) (inactive s) h h'"
proof -
  let ?ns = "map fst (us @ (tm, cs) # vs)"
  note ts' = ts [unfolded timers_ok_def]
  have "rb_holds h (inactive s) ?ns"
  proof (rule rbs.holds_agree [OF _ same])
    show "rb_holds (trees s) (inactive s) ?ns" "inactive s \<noteq> root_at tm" using ts' by auto
    have "node_of ` X \<subseteq> node_of ` set (waiting (us @ (tm, cs) # vs))" using X by auto
    then show "set ?ns \<inter> node_of ` X = {}" using ts' by blast
  qed
  from rbs.erase_holds [OF this, of tm] obtain h' where h': "rb_erase tm (inactive s) h = Some h'"
    "rb_holds h' (inactive s) (remove1 tm ?ns)" "same_outside (set (remove1 tm ?ns)) (inactive s) h h'" by auto
  have rm: "remove1 tm ?ns = map fst (us @ vs)" using timers_distinct [OF ts] by (simp add: remove1_append)
  have nn: "node_of ` set (waiting (us @ vs)) \<inter> set (map fst (us @ vs)) = {}" using ts' by auto
  have "timer_ok (s\<lparr>trees := h'\<rparr>) tm' ds" if "(tm', ds) \<in> set (us @ vs)" for tm' ds
  proof -
    from that have in': "(tm', ds) \<in> set (us @ (tm, cs) # vs)" by auto
    from that have "tm' \<in> fst ` set us \<or> tm' \<in> fst ` set vs" by (metis UnE fst_conv imageI set_append)
    then have "tm' \<noteq> tm" using timers_distinct [OF ts] by auto
    moreover have "set ds \<inter> X = {}" using timer_waiting [OF that] timers_apart [OF ts] X by blast
    moreover have "timer_ok s tm' ds" using timers_member [OF ts in'] .
    ultimately have "timer_ok (s\<lparr>trees := h\<rparr>) tm' ds" by (intro timer_ok_other [OF _ same]) auto
    moreover have "node_of ` set ds \<inter> set (map fst (us @ vs)) = {}" using image_mono [OF timer_waiting [OF that], of node_of] nn by blast
    moreover have "inactive s \<noteq> root_at tm'"
    proof -
      have "tm' \<in> set ?ns" using in' by (metis fst_conv list.set_map imageI)
      then show ?thesis using ts' by blast
    qed
    ultimately show ?thesis
      using timer_ok_inactive [of "s\<lparr>trees := h\<rparr>" tm' ds "set (map fst (us @ vs))" h'] h'(3) rm by simp
  qed
  moreover have "sorted_wrt (<) (map (tm_timeout s \<circ> fst) (us @ vs))" using ts' by (auto simp: sorted_wrt_append)
  ultimately have "timers_ok (s\<lparr>trees := h'\<rparr>) (us @ vs)" using ts' h'(2) nn unfolding rm by (auto simp: timers_ok_def)
  with h'(1,3) rm show ?thesis by auto
qed

text \<open>A coroutine that stops waiting; its timer node goes when it was the last one there.\<close>

definition unwait :: "ptr \<Rightarrow> (ptr \<times> ptr list) list \<Rightarrow> (ptr \<times> ptr list) list" where
  "unwait c ts = filter (\<lambda>(tm, cs). cs \<noteq> []) (map (\<lambda>(tm, cs). (tm, remove1 c cs)) ts)"

lemma unwait_split:
  assumes "timers_ok s (us @ (tm, cs) # vs)" and "c \<in> set cs"
  shows "unwait c (us @ (tm, cs) # vs) = us @ (if remove1 c cs = [] then [] else [(tm, remove1 c cs)]) @ vs"
proof -
  have "filter (\<lambda>(tm, cs). cs \<noteq> []) (map (\<lambda>(tm, cs). (tm, remove1 c cs)) xs) = xs" if "set xs \<subseteq> set us \<union> set vs" for xs
  proof -
    have "remove1 c (snd x) = snd x \<and> snd x \<noteq> []" if "x \<in> set us \<union> set vs" for x
    proof -
      obtain t ds where x: "x = (t, ds)" by fastforce
      with that timers_member [OF assms(1), of t ds] have "timer_ok s t ds" by auto
      moreover have "c \<notin> set ds" using that x assms(2) timers_apart [OF assms(1)] timer_waiting [of t ds "us @ vs"] by auto
      ultimately show ?thesis using x by (simp add: timer_ok_def remove1_idem)
    qed
    with that have "\<forall>x \<in> set xs. remove1 c (snd x) = snd x \<and> snd x \<noteq> []" by blast
    then show ?thesis by (induction xs) auto
  qed
  then show ?thesis by (auto simp: unwait_def)
qed

lemma sorted_remove1: "sorted_wrt (<) (map key cs) \<Longrightarrow> sorted_wrt (<) (map (key :: 'a \<Rightarrow> int) (remove1 c cs))"
  by (induction cs) (auto dest: notin_set_remove1)

lemma remove_from_inactive_tree_correct:
  assumes rep: "timers_rep s ts rest" and c: "c \<in> set (waiting ts)" "c \<noteq> 0"
  shows "\<exists>h k a. remove_from_inactive_tree c s = ret (s\<lparr>trees := h, cache := k, heap := a\<rparr>) \<and>
    timers_rep (s\<lparr>trees := h, cache := k, heap := a\<rparr>) (unwait c ts) rest \<and> blocks a \<subseteq> blocks (heap s)"
proof -
  from c(1) obtain us tm cs vs where ts: "ts = us @ (tm, cs) # vs" and cs: "c \<in> set cs"
    by (rule waiting_split)
  have ok: "timers_ok s (us @ (tm, cs) # vs)" and mc: "mc_rep (cache s) (heap s) (set (map fst ts)) rest"
    using rep by (simp_all add: timers_rep_def ts)
  have tm: "timer_ok s tm cs" "coro_timeout s c = tm_timeout s tm" "tm \<noteq> 0"
    using ok cs timers_distinct [OF ok] by (auto simp: timers_ok_def timer_ok_def)
  from remove_from_timer_node_correct [OF tm(1) cs c(2)] obtain h where h: "remove_from_timer_node tm c s = ret (s\<lparr>trees := h\<rparr>)"
    "rb_holds h (root_at tm) (map node_of (remove1 c cs))" "same_outside (node_of ` set (remove1 c cs)) (root_at tm) (trees s) h" by blast
  have find: "find_timer_node (coro_timeout s c) s = Some tm" using find_timer_node_found [OF ok, of tm cs] tm(2) by simp
  note empty = rb_holds_empty [OF h(2)] and unwait = unwait_split [OF ok cs, folded ts]
  show ?thesis
  proof (cases "remove1 c cs = []")
    case True
    have "set (remove1 c cs) \<subseteq> set cs" by (rule set_remove1_subset)
    from drop_timer [OF ok h(3) this] obtain h' where h': "rb_erase tm (inactive s) h = Some h'"
      "timers_ok (s\<lparr>trees := h'\<rparr>) (us @ vs)" by blast
    from mc.release_rep [OF mc, of tm] obtain k a where ka: "memcache_free (cache s) tm (heap s) = Ret (k, a)"
      "mc_rep k a (set (map fst ts) - {tm}) rest" by (auto simp: ts)
    have "set (map fst ts) - {tm} = set (map fst (us @ vs))" using timers_distinct [OF ok] by (auto simp: ts)
    with h' ka(2) have "timers_rep (s\<lparr>trees := h', cache := k, heap := a\<rparr>) (unwait c ts) rest"
      by (simp add: unwait True timers_rep_def timers_ok_def timer_ok_def)
    moreover have "remove_from_inactive_tree c s = ret (s\<lparr>trees := h', cache := k, heap := a\<rparr>)"
      using find h(1) h'(1) ka(1) tm(3) empty True
      by (simp add: remove_from_inactive_tree_def run_bind_def ret_def in_trees_def cache_free_def)
    ultimately show ?thesis using memcache_free_blocks [OF ka(1)] by blast
  next
    case False
    have "timer_ok (s\<lparr>trees := h\<rparr>) tm (remove1 c cs)"
      using tm(1) h(2) False by (auto simp: timer_ok_def sorted_remove1 dest: notin_set_remove1)
    moreover have "set (remove1 c cs) \<subseteq> set cs" by (rule set_remove1_subset)
    ultimately have "timers_ok (s\<lparr>trees := h\<rparr>) (us @ (tm, remove1 c cs) # vs)"
      using ok by (intro timers_change [OF ok _ h(3)]) (auto simp: timers_ok_def)
    with mc have "timers_rep (s\<lparr>trees := h\<rparr>) (unwait c ts) rest" unfolding unwait by (simp add: False timers_rep_def ts)
    moreover have "remove_from_inactive_tree c s = ret (s\<lparr>trees := h\<rparr>)"
      using find h(1) tm(3) empty False by (simp add: remove_from_inactive_tree_def run_bind_def ret_def)
    moreover have "s\<lparr>trees := h\<rparr> = s\<lparr>trees := h, cache := cache s, heap := heap s\<rparr>" by simp
    ultimately show ?thesis by (metis order_refl)
  qed
qed

subsection \<open>Starting to wait\<close>

lemma same_outside_pos:
  assumes "at_pos h root gs Lf" and "same_outside X root' h h'" and "root \<noteq> root'" and "set (ctx_nodes gs) \<inter> X = {}"
  shows "at_pos h' root gs Lf"
proof -
  have "\<forall>x \<in> set (ctx_nodes gs). rb_parent_color h' x = rb_parent_color h x \<and> rb_left h' x = rb_left h x \<and> rb_right h' x = rb_right h x"
    "rb_node h' root = rb_node h root" using assms(2-4) by (auto simp: same_outside_def)
  from is_ctx_cong [OF this] assms(1) show ?thesis by (simp add: at_pos_def)
qed

lemma new_timer_ok:
  assumes ts: "timers_ok s (us @ vs)"
    and h: "same_outside {tm, node_of c} (root_at tm) (trees s) h" "rb_holds h (root_at tm) [node_of c]"
    and h': "rb_holds h' (inactive s) (map fst us @ tm # map fst vs)"
      "same_outside (insert tm (set (map fst (us @ vs)))) (inactive s) h h'"
    and new: "tm \<notin> set (map fst (us @ vs))" "tm \<notin> node_of ` set (c # waiting (us @ vs))" "inactive s \<noteq> root_at tm"
      "c \<notin> set (waiting (us @ vs))" "node_of c \<notin> set (map fst (us @ vs))"
    and v: "coro_timeout s c = v" "\<forall>y \<in> set (map fst us). tm_timeout s y < v" "\<forall>y \<in> set (map fst vs). v < tm_timeout s y"
  shows "timers_ok (s\<lparr>trees := h', tm_timeout := (tm_timeout s)(tm := v)\<rparr>) (us @ (tm, [c]) # vs)"
proof -
  let ?s = "s\<lparr>trees := h', tm_timeout := (tm_timeout s)(tm := v)\<rparr>"
  note ts' = ts [unfolded timers_ok_def]
  have other: "timer_ok ?s tm' ds" if "(tm', ds) \<in> set (us @ vs)" for tm' ds
  proof -
    have mem: "tm' \<in> set (map fst (us @ vs))" using that by (metis fst_conv list.set_map imageI)
    then have ne: "tm' \<noteq> tm" "inactive s \<noteq> root_at tm'" using new(1) ts' by blast+
    have "set ds \<subseteq> set (waiting (us @ vs))" using timer_waiting [OF that] .
    then have "node_of ` set ds \<inter> {tm, node_of c} = {}" using new(2,4) by auto
    from timer_ok_other [OF timers_member [OF ts that] h(1) ne(1) this] have "timer_ok (s\<lparr>trees := h\<rparr>) tm' ds" .
    moreover have "node_of ` set ds \<inter> insert tm (set (map fst (us @ vs))) = {}"
    proof -
      have "node_of ` set (waiting (us @ vs)) \<inter> set (map fst (us @ vs)) = {}" "tm \<notin> node_of ` set (waiting (us @ vs))"
        using ts' new(2) by auto
      with image_mono [OF timer_waiting [OF that], of node_of] show ?thesis by blast
    qed
    ultimately have "timer_ok (s\<lparr>trees := h'\<rparr>) tm' ds"
      using timer_ok_inactive [of "s\<lparr>trees := h\<rparr>" tm' ds _ h'] h'(2) ne(2) by simp
    then show ?thesis using ne(1) by (simp add: timer_ok_def)
  qed
  have "rb_holds h' (root_at tm) [node_of c]"
    by (rule rbs.holds_agree [OF h(2) h'(2)]) (use new(2,3,5) in auto)
  then have mine: "timer_ok ?s tm [c]" using v(1) by (simp add: timer_ok_def)
  have keys: "map (tm_timeout ?s \<circ> fst) xs = map (tm_timeout s \<circ> fst) xs" if "set xs \<subseteq> set (us @ vs)" for xs
  proof -
    have "fst x \<noteq> tm" if "x \<in> set xs" for x using \<open>set xs \<subseteq> _\<close> that new(1) by auto
    then show ?thesis by simp
  qed
  have "sorted_wrt (<) (map (tm_timeout s \<circ> fst) us @ v # map (tm_timeout s \<circ> fst) vs)"
    using ts' v(2,3) by (auto simp: sorted_wrt_append)
  then have "sorted_wrt (<) (map (tm_timeout ?s \<circ> fst) (us @ (tm, [c]) # vs))" using keys [of us] keys [of vs] by (simp del: map_eq_conv)
  moreover have "node_of ` set (waiting (us @ (tm, [c]) # vs)) \<inter> set (map fst (us @ (tm, [c]) # vs)) = {}"
    using ts' new(2,5) by (auto simp: image_Un)
  moreover have "rb_holds (trees ?s) (inactive ?s) (map fst (us @ (tm, [c]) # vs))" using h'(1) by simp
  moreover have "distinct (waiting (us @ (tm, [c]) # vs))" using ts' new(4) by auto
  moreover have "inactive ?s \<notin> root_at ` set (map fst (us @ (tm, [c]) # vs))" using ts' new(3) by auto
  ultimately show ?thesis using other mine unfolding timers_ok_def by auto
qed

text \<open>What the client of the timers keeps apart from them: the coroutine \<open>c\<close> does not wait, and blocks of
  coroutines (\<open>rest\<close>) are not timer nodes.\<close>

definition may_wait :: "'f coro_schedule \<Rightarrow> (ptr \<times> ptr list) list \<Rightarrow> ptr set \<Rightarrow> ptr \<Rightarrow> bool" where
  "may_wait s ts rest c \<longleftrightarrow> insert c (set (waiting ts)) \<subseteq> rest \<and> coro_id s c \<notin> coro_id s ` set (waiting ts) \<and>
     blocks_apart (heap s) \<and> inactive s \<notin> root_at ` blocks (heap s)"

lemma inactive_walk_new:
  assumes "timers_ok s ts" and "v \<notin> tm_timeout s ` set (map fst ts)" and "\<forall>tm \<in> set (map fst ts). in_int32 (v - tm_timeout s tm)"
  obtains gs us vs where "inactive_walk v (Root_link (inactive s)) 0 s = Some (Inr (link_of (inactive s) gs, ctx_parent gs))"
    "at_pos (trees s) (inactive s) gs Lf" "is_rbt (zip_up gs Lf)" "ts = us @ vs" "map fst us = before gs" "map fst vs = after gs"
    "\<forall>y \<in> set (map fst us). tm_timeout s y < v" "\<forall>y \<in> set (map fst vs). v < tm_timeout s y"
proof -
  from assms(1) obtain t where t: "at_pos (trees s) (inactive s) [] t" "is_rbt t" "nodes t = map fst ts"
    by (auto simp: timers_ok_def rb_holds_def holds_tree_def)
  have srt: "sorted_wrt (<) (map (tm_timeout s) (nodes t))" using assms(1) by (simp add: t(3) timers_ok_def)
  have new: "\<forall>x \<in> set (nodes t). in_int32 (v - tm_timeout s x) \<and> tm_timeout s x \<noteq> v"
    using assms(2,3) unfolding t(3) by blast
  from iw.descend [OF t(1) srt new] obtain gs where gs: "at_pos (trees s) (inactive s) gs Lf" "zip_up gs Lf = t"
    "\<forall>y \<in> set (before gs). tm_timeout s y < v" "\<forall>y \<in> set (after gs). v < tm_timeout s y"
    and "inactive_walk v (Root_link (inactive s)) 0 s = inactive_walk v (link_of (inactive s) gs) (ctx_parent gs) s" by auto
  moreover from this have "inactive_walk v (Root_link (inactive s)) 0 s = Some (Inr (link_of (inactive s) gs, ctx_parent gs))"
    by (simp add: inactive_walk_leaf)
  moreover from gs(2) t(3) nodes_zip [of gs Lf] have "map fst ts = before gs @ after gs" by simp
  then obtain us vs where "ts = us @ vs" "map fst us = before gs" "map fst vs = after gs"
    by (metis map_eq_append_conv)
  ultimately show thesis using that t(2) by metis
qed

lemma inactive_walk_found:
  assumes "timers_ok s ts" and "(tm, cs) \<in> set ts" and "\<forall>tm' \<in> set (map fst ts). in_int32 (tm_timeout s tm - tm_timeout s tm')"
  shows "inactive_walk (tm_timeout s tm) (Root_link (inactive s)) 0 s = Some (Inl tm)"
proof -
  from assms(1) obtain t where t: "at_pos (trees s) (inactive s) [] t" "nodes t = map fst ts"
    by (auto simp: timers_ok_def rb_holds_def holds_tree_def)
  have "sorted_wrt (<) (map (tm_timeout s) (nodes t))" using assms(1) by (simp add: t(2) timers_ok_def)
  from iw.meet [OF t(1) this, of "tm_timeout s tm" tm] assms(2,3) obtain l p where
    "inactive_walk (tm_timeout s tm) (Root_link (inactive s)) 0 s = inactive_walk (tm_timeout s tm) l p s"
    "link_get l (trees s) = tm" by (force simp: t(2))
  moreover have "tm \<noteq> 0" using timers_distinct [OF assms(1)] assms(2) by force
  ultimately show ?thesis by (simp add: inactive_walk.simps [of _ l] to_int32_exact in_int32_def)
qed

lemma may_wait_nodes:
  assumes "timers_rep s ts rest" and "may_wait s ts rest c"
  shows "4 dvd c" "c \<noteq> 0" "node_of c \<notin> set (map fst ts)" "c \<notin> set (waiting ts)"
proof -
  have "insert c (set (map fst ts)) \<subseteq> blocks (heap s)"
    using assms mc_rep_blocks [of "cache s" "heap s" "set (map fst ts)" rest] by (auto simp: timers_rep_def may_wait_def)
  with assms(2) show "4 dvd c" "c \<noteq> 0" "node_of c \<notin> set (map fst ts)" "c \<notin> set (waiting ts)"
    by (auto simp: may_wait_def blocks_apart_def blocks_def)
qed

text \<open>A timer node for the instant exists.\<close>

lemma move_to_existing_timer:
  assumes rep: "timers_rep s (us @ (tm, cs) # vs) rest" and may: "may_wait s (us @ (tm, cs) # vs) rest c"
    and v: "coro_timeout s c = tm_timeout s tm"
    and near: "\<forall>tm' \<in> set (map fst (us @ (tm, cs) # vs)). in_int32 (coro_timeout s c - tm_timeout s tm')"
  shows "\<exists>h. move_to_inactive_tree c s = ret (s\<lparr>trees := h\<rparr>) \<and>
    timers_rep (s\<lparr>trees := h\<rparr>) (us @ (tm, ins_by (coro_id s) c cs) # vs) rest"
proof -
  let ?ts = "us @ (tm, cs) # vs" and ?cs = "ins_by (coro_id s) c cs"
  have ok: "timers_ok s ?ts" using rep by (simp add: timers_rep_def)
  note c = may_wait_nodes [OF rep may]
  have tm: "timer_ok s tm cs" using timers_member [OF ok] by simp
  have id: "coro_id s c \<notin> coro_id s ` set cs" using may by (auto simp: may_wait_def)
  from add_to_timer_node_correct [of s tm cs c] tm id c(1) obtain h where h: "add_to_timer_node tm c s = ret (s\<lparr>trees := h\<rparr>)"
    "rb_holds h (root_at tm) (map node_of ?cs)" "same_outside (node_of ` insert c (set cs)) (root_at tm) (trees s) h"
    by (auto simp: timer_ok_def)
  have set_cs: "set ?cs = insert c (set cs)" by (rule set_ins_by [OF id])
  have "timer_ok (s\<lparr>trees := h\<rparr>) tm ?cs"
    using tm h(2) v set_cs sorted_ins_by [of "coro_id s" cs c] by (auto simp: timer_ok_def)
  moreover have "insert c (set cs) \<inter> set (waiting (us @ vs)) = {}" using c(4) timers_apart [OF ok] by auto
  moreover have "node_of ` insert c (set cs) \<inter> set (map fst ?ts) = {}" using ok c(3) by (auto simp: timers_ok_def)
  ultimately have "timers_ok (s\<lparr>trees := h\<rparr>) (us @ (tm, ?cs) # vs)" using timers_change [OF ok _ h(3)] set_cs by simp
  then have "timers_rep (s\<lparr>trees := h\<rparr>) (us @ (tm, ?cs) # vs) rest" using rep by (simp add: timers_rep_def)
  moreover have "move_to_inactive_tree c s = ret (s\<lparr>trees := h\<rparr>)"
    using inactive_walk_found [OF ok, of tm cs] near v h(1) by (simp add: move_to_inactive_tree_def)
  ultimately show ?thesis by blast
qed

lemma trees_first:
  "s\<lparr>heap := a, trees := h\<rparr> = s\<lparr>trees := h, heap := a\<rparr>" "s\<lparr>cache := k, trees := h\<rparr> = s\<lparr>trees := h, cache := k\<rparr>"
  "s\<lparr>tm_timeout := f, trees := h\<rparr> = s\<lparr>trees := h, tm_timeout := f\<rparr>"
  by simp_all

text \<open>A new timer node, with its first coroutine.\<close>

definition clear_timer :: "ptr \<Rightarrow> rb_heap \<Rightarrow> rb_heap" where
  "clear_timer tm h = set_right tm 0 (set_left tm 0 (RB_ROOT (root_at tm) h))"

lemma fresh_timer:
  assumes "trees s = clear_timer tm h" and "4 dvd c"
  shows "\<exists>h'. add_to_timer_node tm c s = ret (s\<lparr>trees := h'\<rparr>) \<and> rb_holds h' (root_at tm) [node_of c] \<and>
    same_outside {tm, node_of c} (root_at tm) h h'"
proof -
  have "same_outside {tm} (root_at tm) h (trees s)" by (simp add: assms(1) clear_timer_def RB_ROOT_def same_outside_def)
  moreover have "rb_holds (trees s) (root_at tm) (map node_of [])"
    by (auto simp: assms(1) clear_timer_def RB_ROOT_def rb_holds_def holds_tree_def at_pos_def is_rbt_def intro!: exI [of _ Lf])
  with add_to_timer_node_correct [of s tm "[]" c] assms(2) obtain h' where
    "add_to_timer_node tm c s = ret (s\<lparr>trees := h'\<rparr>)" "rb_holds h' (root_at tm) [node_of c]"
    "same_outside {node_of c} (root_at tm) (trees s) h'" by (auto simp: ins_by_def)
  ultimately show ?thesis
    using rbs.agree_trans [of "{tm}" "root_at tm" h "trees s" "{node_of c}" h'] by (auto simp: insert_commute)
qed

lemma move_to_new_timer:
  assumes rep: "timers_rep s ts rest" and may: "may_wait s ts rest c"
    and v: "coro_timeout s c \<notin> tm_timeout s ` set (map fst ts)"
    and near: "\<forall>tm \<in> set (map fst ts). in_int32 (coro_timeout s c - tm_timeout s tm)"
    and tmp: "memcache_alloc (cache s) (heap s) = (tmp, k, a)" "tmp \<noteq> 0"
  shows "\<exists>h us vs. move_to_inactive_tree c s =
      ret (s\<lparr>trees := h, cache := k, heap := a, tm_timeout := (tm_timeout s)(tmp := coro_timeout s c)\<rparr>) \<and>
    ts = us @ vs \<and>
    timers_rep (s\<lparr>trees := h, cache := k, heap := a, tm_timeout := (tm_timeout s)(tmp := coro_timeout s c)\<rparr>)
      (us @ (tmp, [c]) # vs) rest"
proof -
  let ?v = "coro_timeout s c"
  have ok: "timers_ok s ts" and mc: "mc_rep (cache s) (heap s) (set (map fst ts)) rest" using rep by (simp_all add: timers_rep_def)
  note c = may_wait_nodes [OF rep may]
  from mc.alloc_rep [OF mc tmp(1)] tmp(2) have new: "tmp \<notin> set (map fst ts)" "mc_rep k a (insert tmp (set (map fst ts))) rest" by auto
  have blk: "insert tmp (set (map fst ts) \<union> rest) \<subseteq> blocks (heap s)"
    using mc_rep_blocks [OF new(2)] memcache_alloc_blocks [OF tmp(1)] by auto
  have apart: "blocks_apart (heap s)" "inactive s \<noteq> root_at tmp" using may blk by (auto simp: may_wait_def)
  have tmp_nodes: "tmp \<notin> node_of ` set (c # waiting ts)"
  proof -
    have "set (c # waiting ts) \<subseteq> blocks (heap s)" using may blk by (auto simp: may_wait_def)
    with apart(1) blk show ?thesis by (auto simp: blocks_apart_def)
  qed
  from inactive_walk_new [OF ok v near] obtain gs us vs where
    walk: "inactive_walk ?v (Root_link (inactive s)) 0 s = Some (Inr (link_of (inactive s) gs, ctx_parent gs))"
    and gs: "at_pos (trees s) (inactive s) gs Lf" "is_rbt (zip_up gs Lf)" and uv: "ts = us @ vs" "map fst us = before gs" "map fst vs = after gs"
    and keys: "\<forall>y \<in> set (map fst us). tm_timeout s y < ?v" "\<forall>y \<in> set (map fst vs). ?v < tm_timeout s y" .
  have ctx: "set (ctx_nodes gs) = set (map fst ts)" by (simp add: ctx_nodes_set uv(1) flip: uv(2,3))
  let ?s2 = "s\<lparr>trees := clear_timer tmp (trees s), cache := k, heap := a, tm_timeout := (tm_timeout s)(tmp := ?v)\<rparr>"
  from fresh_timer [of ?s2 tmp "trees s" c] c(1) obtain h3 where
    add: "add_to_timer_node tmp c ?s2 = ret (?s2\<lparr>trees := h3\<rparr>)" "rb_holds h3 (root_at tmp) [node_of c]"
    and h3: "same_outside {tmp, node_of c} (root_at tmp) (trees s) h3" by auto
  have "at_pos h3 (inactive s) gs Lf"
    by (rule same_outside_pos [OF gs(1) h3 apart(2)]) (use new(1) c(3) in \<open>auto simp: ctx\<close>)
  moreover have "4 dvd tmp" using apart(1) blk by (simp add: blocks_apart_def)
  moreover have "tmp \<notin> set (ctx_nodes gs)" using new(1) by (simp add: ctx)
  ultimately obtain h4 t4 where ins: "rb_insert_color tmp (inactive s) (rb_link_node tmp (ctx_parent gs) (link_of (inactive s) gs) h3) = Some h4"
    and t4: "holds_tree h4 (inactive s) t4" "is_rbt t4" "nodes t4 = before gs @ tmp # after gs"
    and h4: "same_outside (set (before gs @ tmp # after gs)) (inactive s) h3 h4"
    using rb_insert_correct [OF _ gs(2) tmp(2)] by metis
  have "rb_holds h4 (inactive s) (map fst us @ tmp # map fst vs)" using t4 unfolding rb_holds_def uv(2,3) by blast
  moreover have "same_outside (insert tmp (set (map fst (us @ vs)))) (inactive s) h3 h4" using h4 by (simp flip: uv(2,3))
  ultimately have "timers_ok (s\<lparr>trees := h4, tm_timeout := (tm_timeout s)(tmp := ?v)\<rparr>) (us @ (tmp, [c]) # vs)"
    by (rule new_timer_ok [OF ok [unfolded uv(1)] h3 add(2)])
      (use new(1) tmp_nodes apart(2) c(3,4) keys in \<open>simp_all add: uv(1)\<close>)
  then have "timers_rep (s\<lparr>trees := h4, cache := k, heap := a, tm_timeout := (tm_timeout s)(tmp := ?v)\<rparr>) (us @ (tmp, [c]) # vs) rest"
    by (rule timers_repI) (use new(2) in \<open>simp_all add: uv(1)\<close>)
  moreover have "move_to_inactive_tree c s = ret (s\<lparr>trees := h4, cache := k, heap := a, tm_timeout := (tm_timeout s)(tmp := ?v)\<rparr>)"
    using walk tmp add(1) ins by (simp add: move_to_inactive_tree_def Let_def run_bind_def ret_def in_trees_def clear_timer_def trees_first)
  ultimately show ?thesis using uv(1) by blast
qed

text \<open>Every case: the coroutine waits afterwards, unless a new timer node was needed and could not be had; the
  fields of the coroutines are not changed.\<close>

lemma move_to_inactive_tree_correct:
  assumes rep: "timers_rep s ts rest" and may: "may_wait s ts rest c"
    and near: "\<forall>tm \<in> set (map fst ts). in_int32 (coro_timeout s c - tm_timeout s tm)"
  shows "\<exists>h k a f ts'. move_to_inactive_tree c s = ret (s\<lparr>trees := h, cache := k, heap := a, tm_timeout := f\<rparr>) \<and>
    timers_rep (s\<lparr>trees := h, cache := k, heap := a, tm_timeout := f\<rparr>) ts' rest \<and> blocks a \<subseteq> blocks (heap s) \<and>
    set (waiting ts') = (if fst (memcache_alloc (cache s) (heap s)) = 0 \<and> coro_timeout s c \<notin> tm_timeout s ` set (map fst ts)
       then set (waiting ts) else insert c (set (waiting ts)))"
proof (cases "coro_timeout s c \<in> tm_timeout s ` set (map fst ts)")
  case True
  then obtain tm cs where tm: "(tm, cs) \<in> set ts" and v: "coro_timeout s c = tm_timeout s tm" by auto
  from split_list [OF tm] obtain us vs where ts: "ts = us @ (tm, cs) # vs" by blast
  from move_to_existing_timer [OF rep [unfolded ts] may [unfolded ts] v near [unfolded ts]] obtain h where
    "move_to_inactive_tree c s = ret (s\<lparr>trees := h\<rparr>)" "timers_rep (s\<lparr>trees := h\<rparr>) (us @ (tm, ins_by (coro_id s) c cs) # vs) rest" by blast
  moreover have "coro_id s c \<notin> coro_id s ` set cs" using may by (auto simp: may_wait_def ts)
  from set_ins_by [OF this] have "set (waiting (us @ (tm, ins_by (coro_id s) c cs) # vs)) = insert c (set (waiting ts))" by (simp add: ts)
  moreover have "s\<lparr>trees := h\<rparr> = s\<lparr>trees := h, cache := cache s, heap := heap s, tm_timeout := tm_timeout s\<rparr>" by simp
  ultimately show ?thesis using True by (metis order_refl)
next
  case False
  obtain tmp k a where tmp: "memcache_alloc (cache s) (heap s) = (tmp, k, a)" by (metis prod_cases3)
  note blk = memcache_alloc_blocks [OF tmp]
  show ?thesis
  proof (cases "tmp = 0")
    case True
    have "timers_ok s ts" "mc_rep (cache s) (heap s) (set (map fst ts)) rest" using rep by (simp_all add: timers_rep_def)
    moreover from inactive_walk_new [OF this(1) False near] obtain x y where
      "inactive_walk (coro_timeout s c) (Root_link (inactive s)) 0 s = Some (Inr (x, y))" by blast
    then have "move_to_inactive_tree c s = ret (s\<lparr>cache := k, heap := a\<rparr>)"
      using tmp True by (simp add: move_to_inactive_tree_def Let_def)
    moreover have "s\<lparr>cache := k, heap := a\<rparr> = s\<lparr>trees := trees s, cache := k, heap := a, tm_timeout := tm_timeout s\<rparr>" by simp
    moreover have "timers_rep (s\<lparr>cache := k, heap := a\<rparr>) ts rest"
      by (rule timers_repI [OF calculation(1)]) (use mc.alloc_rep [OF calculation(2) tmp] True in simp_all)
    ultimately show ?thesis using tmp True False blk by (metis fst_conv)
  next
    case nz: False
    from move_to_new_timer [OF rep may False near tmp nz] obtain h us vs where
      "move_to_inactive_tree c s = ret (s\<lparr>trees := h, cache := k, heap := a, tm_timeout := (tm_timeout s)(tmp := coro_timeout s c)\<rparr>)"
      "ts = us @ vs" "timers_rep (s\<lparr>trees := h, cache := k, heap := a, tm_timeout := (tm_timeout s)(tmp := coro_timeout s c)\<rparr>)
         (us @ (tmp, [c]) # vs) rest" by blast
    moreover from this(2) have "set (waiting (us @ (tmp, [c]) # vs)) = insert c (set (waiting ts))" by auto
    ultimately show ?thesis using blk tmp nz by (metis fst_conv)
  qed
qed

end
