(* ===== verification/Sched_Expiry.thy ===== *)
theory Sched_Expiry
  imports Sched_Timers
begin

text \<open>
  Expired timers: \<open>check_timeout_coroutine\<close> takes the timer nodes whose instant has come out of the tree, one after
  the other, and makes their coroutines ready. Both loops end: each round removes a node from a tree.
\<close>

text \<open>Appending coroutines to the ready list.\<close>

abbreviation ready_all :: "ptr list \<Rightarrow> 'f coro_schedule \<Rightarrow> links" where
  "ready_all ds s \<equiv> fold (\<lambda>c. list_add_tail c (active s)) ds (lists s)"

lemma rb_holds_root: "rb_holds h root ns \<Longrightarrow> ns \<noteq> [] \<Longrightarrow> rb_node h root \<in> set ns"
proof -
  assume "rb_holds h root ns" "ns \<noteq> []"
  then obtain t where t: "nodes t = ns" "rb_node h root = root_of t" by (metis rb_holds_tree)
  with \<open>ns \<noteq> []\<close> show ?thesis by (cases t) auto
qed

lemma same_outside_mono: "same_outside X root h h' \<Longrightarrow> X \<subseteq> Y \<Longrightarrow> same_outside Y root h h'"
  unfolding same_outside_def by blast

lemma timeout_coroutine_handler_correct:
  assumes "rb_holds (trees s) (root_at tm) (map node_of cs)"
  shows "\<exists>h ds. timeout_coroutine_handler tm s =
      Some (s\<lparr>lists := ready_all ds s, trees := h, active_by_timeout := (\<lambda>c. c \<in> set cs \<or> active_by_timeout s c)\<rparr>) \<and>
    set ds = set cs \<and> distinct ds \<and> same_outside (node_of ` set cs) (root_at tm) (trees s) h"
  using assms
proof (induction "length cs" arbitrary: s cs)
  case 0
  then have "cs = []" by simp
  with rb_holds_empty [OF "0.prems"] have "rb_node (trees s) (root_at tm) = 0" by (simp add: RB_EMPTY_ROOT_def)
  then have "timeout_coroutine_handler tm s = Some s" by (simp add: timeout_coroutine_handler.simps)
  with \<open>cs = []\<close> show ?case by (intro exI [of _ "trees s"] exI [of _ "[]"]) (simp add: same_outside_def)
next
  case (Suc n)
  let ?r = "rb_node (trees s) (root_at tm)"
  have "map node_of cs \<noteq> []" using Suc.hyps(2) by auto
  from rb_holds_root [OF Suc.prems this] obtain c where c: "c \<in> set cs" "?r = node_of c" by auto
  from rbs.erase_holds [OF Suc.prems, of "node_of c"] c(1) obtain h where h: "rb_erase (node_of c) (root_at tm) (trees s) = Some h"
    "rb_holds h (root_at tm) (map node_of (remove1 c cs))" "same_outside (node_of ` set (remove1 c cs)) (root_at tm) (trees s) h"
    by (auto simp: remove1_node_of)
  define s1 where "s1 = move_to_active_list_tail_direct c (s\<lparr>trees := h, active_by_timeout := (active_by_timeout s)(c := True)\<rparr>)"
  have run: "timeout_coroutine_handler tm s = timeout_coroutine_handler tm s1"
    by (subst timeout_coroutine_handler.simps) (simp add: c(2) h(1) s1_def)
  have s1: "rb_holds (trees s1) (root_at tm) (map node_of (remove1 c cs))"
    using h(2) by (simp add: s1_def move_to_active_list_tail_direct_def in_lists_def)
  have "n = length (remove1 c cs)" using Suc.hyps(2) c(1) by (simp add: length_remove1)
  from Suc.hyps(1) [OF this s1] obtain h' ds where h':
    "timeout_coroutine_handler tm s1 = Some (s1\<lparr>lists := ready_all ds s1, trees := h',
       active_by_timeout := (\<lambda>d. d \<in> set (remove1 c cs) \<or> active_by_timeout s1 d)\<rparr>)"
    "set ds = set (remove1 c cs)" "distinct ds" "same_outside (node_of ` set (remove1 c cs)) (root_at tm) (trees s1) h'" by blast
  have dist: "distinct cs" using rbs.holds_distinct [OF Suc.prems] by (simp add: distinct_map)
  have mem: "d \<in> set (remove1 c cs) \<or> d = c \<longleftrightarrow> d \<in> set cs" for d using dist c(1) by auto
  have "s1\<lparr>lists := ready_all ds s1, trees := h', active_by_timeout := (\<lambda>d. d \<in> set (remove1 c cs) \<or> active_by_timeout s1 d)\<rparr> =
      s\<lparr>lists := ready_all (c # ds) s, trees := h', active_by_timeout := (\<lambda>d. d \<in> set cs \<or> active_by_timeout s d)\<rparr>"
  proof -
    have "(\<lambda>d. d \<in> set (remove1 c cs) \<or> active_by_timeout s1 d) = (\<lambda>d. d \<in> set cs \<or> active_by_timeout s d)"
      using mem by (auto simp: s1_def move_to_active_list_tail_direct_def in_lists_def)
    then show ?thesis by (simp only:) (simp add: s1_def move_to_active_list_tail_direct_def in_lists_def)
  qed
  moreover have "set (c # ds) = set cs" "distinct (c # ds)" using h'(2,3) dist c(1) by auto
  moreover have "same_outside (node_of ` set cs) (root_at tm) (trees s) h'"
  proof -
    have "trees s1 = h" by (simp add: s1_def move_to_active_list_tail_direct_def in_lists_def)
    from rbs.agree_trans [OF h(3) h'(4) [unfolded this]] have "same_outside (node_of ` set (remove1 c cs)) (root_at tm) (trees s) h'" by simp
    then show ?thesis by (rule same_outside_mono) (intro image_mono set_remove1_subset)
  qed
  ultimately show ?case by (intro exI [of _ h'] exI [of _ "c # ds"] conjI) (simp_all add: run h'(1))
qed

lemma timers_other:
  assumes ts: "timers_ok s ts" and same: "same_outside (node_of ` X) (root_at tm) (trees s) h"
    and "tm \<notin> set (map fst ts)" "X \<inter> set (waiting ts) = {}" "node_of ` X \<inter> set (map fst ts) = {}" "inactive s \<noteq> root_at tm"
  shows "timers_ok (s\<lparr>trees := h\<rparr>) ts"
proof -
  have "timer_ok (s\<lparr>trees := h\<rparr>) tm' ds" if "(tm', ds) \<in> set ts" for tm' ds
  proof (rule timer_ok_other [OF timers_member [OF ts that] same])
    show "tm' \<noteq> tm" using that assms(3) by force
    show "node_of ` set ds \<inter> node_of ` X = {}" using assms(4) timer_waiting [OF that] by auto
  qed
  moreover have "rb_holds h (inactive s) (map fst ts)"
    by (rule rbs.holds_agree [OF _ same]) (use ts assms(5,6) in \<open>auto simp: timers_ok_def\<close>)
  ultimately show ?thesis using ts by (auto simp: timers_ok_def)
qed

text \<open>The first timer node, when its instant has come.\<close>

definition expired :: "int \<Rightarrow> 'f coro_schedule \<Rightarrow> ptr \<times> ptr list \<Rightarrow> bool" where
  "expired now s t \<longleftrightarrow> tm_timeout s (fst t) \<le> now"

lemma recent_timer: "timers_ok s ts \<Longrightarrow> get_recent_timer_node s = Some (case ts of [] \<Rightarrow> 0 | (tm, cs) # _ \<Rightarrow> tm)"
  using rbs.first_holds [of "trees s" "inactive s" "map fst ts"]
  by (auto simp: timers_ok_def get_recent_timer_node_def split: list.splits)

lemma check_timeout_stop:
  assumes "timers_ok s ts" and "case ts of [] \<Rightarrow> True | t # _ \<Rightarrow> \<not> expired now s t"
  shows "check_timeout_loop now s = Some (Ret s)"
  using recent_timer [OF assms(1)] assms(2)
  by (subst check_timeout_loop.simps) (auto simp: expired_def split: list.splits)

text \<open>One round of the loop.\<close>

lemma check_timeout_round:
  assumes rep: "timers_rep s ((tm, cs) # ts) rest" and due: "expired now s (tm, cs)"
  shows "\<exists>h k a ds. check_timeout_loop now s = check_timeout_loop now
      (s\<lparr>lists := ready_all ds s, trees := h, active_by_timeout := (\<lambda>c. c \<in> set ds \<or> active_by_timeout s c), cache := k, heap := a\<rparr>) \<and>
    set ds = set cs \<and> distinct ds \<and> blocks a \<subseteq> blocks (heap s) \<and>
    timers_rep (s\<lparr>lists := ready_all ds s, trees := h, active_by_timeout := (\<lambda>c. c \<in> set ds \<or> active_by_timeout s c),
      cache := k, heap := a\<rparr>) ts rest"
proof -
  have ok: "timers_ok s ((tm, cs) # ts)" and mc: "mc_rep (cache s) (heap s) (set (map fst ((tm, cs) # ts))) rest"
    using rep by (simp_all add: timers_rep_def)
  have "same_outside (node_of ` {}) (root_at tm) (trees s) (trees s)" by simp
  with drop_timer [of s "[]" tm cs ts "{}" "trees s"] ok obtain h where h: "rb_erase tm (inactive s) (trees s) = Some h"
    "timers_ok (s\<lparr>trees := h\<rparr>) ts" "same_outside (set (map fst ts)) (inactive s) (trees s) h" by auto
  have tm: "timer_ok s tm cs" "tm \<noteq> 0" "inactive s \<noteq> root_at tm" "node_of ` set cs \<inter> set (map fst ts) = {}"
    using timers_member [OF ok] timers_distinct [OF ok] ok by (auto simp: timers_ok_def)
  from timer_ok_inactive [OF tm(1) h(3) tm(3,4)] have "rb_holds (trees (s\<lparr>trees := h\<rparr>)) (root_at tm) (map node_of cs)"
    by (simp add: timer_ok_def)
  from timeout_coroutine_handler_correct [OF this] obtain h' ds where h':
    "timeout_coroutine_handler tm (s\<lparr>trees := h\<rparr>) =
       Some (s\<lparr>lists := ready_all ds s, trees := h', active_by_timeout := (\<lambda>c. c \<in> set cs \<or> active_by_timeout s c)\<rparr>)"
    "set ds = set cs" "distinct ds" "same_outside (node_of ` set cs) (root_at tm) h h'" by auto
  from mc.release_rep [OF mc, of tm] obtain k a where ka: "memcache_free (cache s) tm (heap s) = Ret (k, a)"
    "mc_rep k a (set (map fst ((tm, cs) # ts)) - {tm}) rest" by auto
  let ?s = "s\<lparr>lists := ready_all ds s, trees := h', active_by_timeout := (\<lambda>c. c \<in> set ds \<or> active_by_timeout s c), cache := k, heap := a\<rparr>"
  have "check_timeout_loop now s = check_timeout_loop now ?s"
    using recent_timer [OF ok] due tm(2) h(1) h'(1,2) ka(1)
    by (subst check_timeout_loop.simps) (simp add: expired_def)
  moreover have "timers_ok (s\<lparr>trees := h'\<rparr>) ts"
  proof -
    have "timers_ok (s\<lparr>trees := h, trees := h'\<rparr>) ts"
      by (rule timers_other [OF h(2)]) (use h'(4) timers_distinct [OF ok] timers_apart [of s "[]"] ok tm(3,4) in auto)
    then show ?thesis by simp
  qed
  then have "timers_rep ?s ts rest"
    by (rule timers_repI) (use ka(2) timers_distinct [OF ok] in \<open>simp_all add: insert_Diff_if\<close>)
  ultimately show ?thesis using h'(2,3) memcache_free_blocks [OF ka(1)] by blast
qed

lemma timers_order:
  assumes "timers_ok s ((tm, cs) # ts)" and "c \<in> set cs" and "d \<in> set (waiting ts)"
  shows "coro_timeout s c < coro_timeout s d"
proof -
  from assms(3) obtain us tm' ds vs where ts: "ts = us @ (tm', ds) # vs" and d: "d \<in> set ds" by (rule waiting_split)
  have "timer_ok s tm cs" "timer_ok s tm' ds" using timers_member [OF assms(1)] by (auto simp: ts)
  moreover have "tm_timeout s tm < tm_timeout s tm'" using assms(1) by (auto simp: timers_ok_def ts)
  ultimately show ?thesis using assms(2) d by (simp add: timer_ok_def)
qed

lemma sorted_wrt_same: "(\<And>x y. x \<in> set xs \<Longrightarrow> y \<in> set xs \<Longrightarrow> P x y) \<Longrightarrow> sorted_wrt P xs"
  by (induction xs) auto

text \<open>The whole loop: the coroutines of the expired timers become ready, those with an earlier instant first.\<close>

lemma check_timeout_correct:
  assumes "timers_rep s ts rest"
  shows "\<exists>h k a ds. check_timeout_loop now s = Some (Ret
      (s\<lparr>lists := ready_all ds s, trees := h, active_by_timeout := (\<lambda>c. c \<in> set ds \<or> active_by_timeout s c), cache := k, heap := a\<rparr>)) \<and>
    set ds = set (waiting (takeWhile (expired now s) ts)) \<and> distinct ds \<and> blocks a \<subseteq> blocks (heap s) \<and>
    sorted_wrt (\<lambda>c d. coro_timeout s c \<le> coro_timeout s d) ds \<and>
    timers_rep (s\<lparr>lists := ready_all ds s, trees := h, active_by_timeout := (\<lambda>c. c \<in> set ds \<or> active_by_timeout s c), cache := k, heap := a\<rparr>)
      (dropWhile (expired now s) ts) rest"
  using assms
proof (induction ts arbitrary: s)
  case Nil
  then have "check_timeout_loop now s = Some (Ret s)" by (intro check_timeout_stop) (auto simp: timers_rep_def)
  with Nil show ?case by (intro exI [of _ "trees s"] exI [of _ "cache s"] exI [of _ "heap s"] exI [of _ "[]"]) simp
next
  case (Cons t ts)
  obtain tm cs where t: "t = (tm, cs)" by fastforce
  have ok: "timers_ok s ((tm, cs) # ts)" using Cons.prems by (simp add: timers_rep_def t)
  show ?case
  proof (cases "expired now s t")
    case False
    then have "check_timeout_loop now s = Some (Ret s)" using ok by (intro check_timeout_stop) (auto simp: t)
    with Cons.prems False show ?thesis
      by (intro exI [of _ "trees s"] exI [of _ "cache s"] exI [of _ "heap s"] exI [of _ "[]"]) simp
  next
    case True
    from check_timeout_round [OF Cons.prems [unfolded t] True [unfolded t]] obtain h k a ds where
      1: "check_timeout_loop now s = check_timeout_loop now (s\<lparr>lists := ready_all ds s, trees := h,
          active_by_timeout := (\<lambda>c. c \<in> set ds \<or> active_by_timeout s c), cache := k, heap := a\<rparr>)"
        "set ds = set cs" "distinct ds" "blocks a \<subseteq> blocks (heap s)"
        "timers_rep (s\<lparr>lists := ready_all ds s, trees := h, active_by_timeout := (\<lambda>c. c \<in> set ds \<or> active_by_timeout s c),
          cache := k, heap := a\<rparr>) ts rest" by blast
    let ?s = "s\<lparr>lists := ready_all ds s, trees := h, active_by_timeout := (\<lambda>c. c \<in> set ds \<or> active_by_timeout s c), cache := k, heap := a\<rparr>"
    have ex: "expired now ?s = expired now s" by (simp add: expired_def fun_eq_iff)
    from Cons.IH [OF 1(5), unfolded ex] obtain h' k' a' es where
      2: "check_timeout_loop now ?s = Some (Ret (?s\<lparr>lists := ready_all es ?s, trees := h',
          active_by_timeout := (\<lambda>c. c \<in> set es \<or> active_by_timeout ?s c), cache := k', heap := a'\<rparr>))"
        "set es = set (waiting (takeWhile (expired now s) ts))" "distinct es" "blocks a' \<subseteq> blocks a"
        "sorted_wrt (\<lambda>c d. coro_timeout s c \<le> coro_timeout s d) es"
        "timers_rep (?s\<lparr>lists := ready_all es ?s, trees := h', active_by_timeout := (\<lambda>c. c \<in> set es \<or> active_by_timeout ?s c),
          cache := k', heap := a'\<rparr>) (dropWhile (expired now s) ts) rest" by auto
    have flags: "(\<lambda>c. c \<in> set es \<or> active_by_timeout ?s c) = (\<lambda>c. c \<in> set (ds @ es) \<or> active_by_timeout s c)" by auto
    have eq: "?s\<lparr>lists := ready_all es ?s, trees := h', active_by_timeout := (\<lambda>c. c \<in> set es \<or> active_by_timeout ?s c), cache := k', heap := a'\<rparr> =
        s\<lparr>lists := ready_all (ds @ es) s, trees := h', active_by_timeout := (\<lambda>c. c \<in> set (ds @ es) \<or> active_by_timeout s c), cache := k', heap := a'\<rparr>"
      unfolding flags by simp
    have sub: "set es \<subseteq> set (waiting ts)" using 2(2) by (auto simp: waiting_def dest: set_takeWhileD)
    then have "set ds \<inter> set es = {}" using 1(2) timers_apart [of s "[]" tm cs ts] ok by auto
    moreover have "coro_timeout s c \<le> coro_timeout s d" if "c \<in> set ds" "d \<in> set es" for c d
      using timers_order [OF ok, of c d] that 1(2) sub by auto
    moreover have "sorted_wrt (\<lambda>c d. coro_timeout s c \<le> coro_timeout s d) ds"
      using timers_member [OF ok, of tm cs] 1(2) by (auto simp: timer_ok_def intro!: sorted_wrt_same)
    ultimately show ?thesis
      using 1(1-4) 2 True unfolding eq by (intro exI [of _ h'] exI [of _ k'] exI [of _ a'] exI [of _ "ds @ es"])
        (auto simp: t sorted_wrt_append)
  qed
qed

end
