(* ===== verification/Sched_Correct.thy ===== *)
theory Sched_Correct
  imports Sched_Expiry
begin

text \<open>
  The scheduler as its clients see it. A view has the idle and the ready coroutines in order, the instant each
  waiting coroutine waits for, and the coroutines that are in none of these places: the one that runs, and
  any for which no timer node could be had. \<open>sched_rep s v\<close> is the invariant of the scheduler
  and relates its state to the view; the operations are shown to act on the view.
\<close>

record sched_view =
  v_idle :: "ptr list"
  v_ready :: "ptr list"
  v_waiting :: "ptr \<Rightarrow> int option"
  v_out :: "ptr list"

definition coroutines :: "sched_view \<Rightarrow> ptr set" where
  "coroutines v = set (v_idle v @ v_ready v @ v_out v) \<union> dom (v_waiting v)"

text \<open>Every coroutine is in one place.\<close>

definition one_place :: "sched_view \<Rightarrow> bool" where
  "one_place v \<longleftrightarrow> distinct (v_idle v @ v_ready v @ v_out v) \<and> set (v_idle v @ v_ready v @ v_out v) \<inter> dom (v_waiting v) = {}"

subsection \<open>Two lists\<close>

definition queues :: "links \<Rightarrow> ptr \<Rightarrow> ptr list \<Rightarrow> ptr \<Rightarrow> ptr list \<Rightarrow> bool" where
  "queues h i xs a ys \<longleftrightarrow> dll h i xs \<and> dll h a ys \<and> set (i # xs) \<inter> set (a # ys) = {}"

lemma queues_sym: "queues h i xs a ys \<longleftrightarrow> queues h a ys i xs"
  by (auto simp: queues_def)

lemma queues_add_tail:
  assumes "queues h i xs a ys" and "n \<notin> set (i # xs) \<union> set (a # ys)"
  shows "queues (list_add_tail n a h) i xs a (ys @ [n])"
proof -
  have "l_prev h a \<in> set (a # ys)" using assms(1) dll_closed(2) [of h a ys a] by (simp add: queues_def)
  then have "dll (list_add_tail n a h) i xs = dll h i xs"
    using assms by (intro dll_add_tail_other) (auto simp: queues_def)
  with assms dll_add_tail [of h a ys n] show ?thesis by (auto simp: queues_def)
qed

lemma queues_add:
  assumes "queues h i xs a ys" and "n \<notin> set (i # xs) \<union> set (a # ys)"
  shows "queues (list_add n a h) i xs a (n # ys)"
proof -
  have "l_next h a \<in> set (a # ys)" using assms(1) dll_closed(1) [of h a ys a] by (simp add: queues_def)
  then have "dll (list_add n a h) i xs = dll h i xs"
    using assms by (intro dll_cong) (auto simp: queues_def list_add_def list_op_defs)
  with assms dll_add [of h a ys n] show ?thesis by (auto simp: queues_def)
qed

lemma queues_fold:
  assumes "queues h i xs a ys" and "distinct ds" and "set ds \<inter> (set (i # xs) \<union> set (a # ys)) = {}"
  shows "queues (fold (\<lambda>c. list_add_tail c a) ds h) i xs a (ys @ ds)"
  using assms
proof (induction ds arbitrary: h ys)
  case (Cons d ds)
  have "queues (list_add_tail d a h) i xs a (ys @ [d])" using Cons.prems by (intro queues_add_tail) auto
  from Cons.IH [OF this] Cons.prems show ?case by auto
qed simp

text \<open>Taking the first entry.\<close>

lemma queues_del:
  assumes "queues h i xs a (y # ys)"
  shows "queues (raw_list_del (l_prev h y) (l_next h y) h) i xs a ys" and "list_first_entry a h = y" and "\<not> list_empty a h"
proof -
  have a: "dll h a (y # ys)" using assms by (simp add: queues_def)
  then have "l_prev h y \<in> set (a # y # ys)" "l_next h y \<in> set (a # y # ys)" using dll_closed [of h a "y # ys" y] by auto
  then have "dll (raw_list_del (l_prev h y) (l_next h y) h) i xs = dll h i xs"
    using assms by (intro dll_cong) (auto simp: queues_def list_op_defs)
  with assms dll_raw_list_del [of h a "[]" y ys] show "queues (raw_list_del (l_prev h y) (l_next h y) h) i xs a ys"
    by (auto simp: queues_def)
  show "list_first_entry a h = y" "\<not> list_empty a h" using lst.pop_first [OF a] by auto
qed

lemma queues_INIT: "n \<notin> set (i # xs) \<union> set (a # ys) \<Longrightarrow> queues (INIT_LIST_HEAD n h) i xs a ys = queues h i xs a ys"
  by (simp add: queues_def dll_INIT_other)

subsection \<open>The invariant\<close>

definition sched_inv :: "'f coro_schedule \<Rightarrow> sched_view \<Rightarrow> ptr set \<Rightarrow> bool" where
  "sched_inv s v rest \<longleftrightarrow> queues (lists s) (idle s) (v_idle v) (active s) (v_ready v) \<and> one_place v \<and> coroutines v \<subseteq> rest \<and>
     inj_on (coro_id s) (coroutines v) \<and> (\<forall>c \<in> coroutines v. 1 \<le> coro_id s c \<and> coro_id s c \<le> next_coro_id s) \<and>
     finite (coroutines v) \<and> card (coroutines v) = curr_coro_size s \<and> next_coro_id s = int (curr_coro_size s) \<and>
     curr_coro_size s \<le> max_coro_size s \<and> blocks_apart (heap s) \<and> inactive s \<notin> root_at ` blocks (heap s) \<and>
     {idle s, active s, main_coro s} \<inter> blocks (heap s) = {}"

definition deadlines :: "'f coro_schedule \<Rightarrow> (ptr \<times> ptr list) list \<Rightarrow> ptr \<Rightarrow> int option" where
  "deadlines s ts = (\<lambda>c. if c \<in> set (waiting ts) then Some (coro_timeout s c) else None)"

definition sched_rep :: "'f coro_schedule \<Rightarrow> sched_view \<Rightarrow> bool" where
  "sched_rep s v \<longleftrightarrow> (\<exists>ts rest. timers_rep s ts rest \<and> v_waiting v = deadlines s ts \<and> sched_inv s v rest)"

lemma deadlines_cong: "coro_timeout s' = coro_timeout s \<Longrightarrow> deadlines s' ts = deadlines s ts"
  by (simp add: deadlines_def fun_eq_iff)

lemma dom_deadlines [simp]: "dom (deadlines s ts) = set (waiting ts)"
  by (auto simp: deadlines_def split: if_splits)

lemma sched_rep_blocks:
  assumes "timers_rep s ts rest" and "sched_inv s v rest"
  shows "coroutines v \<subseteq> blocks (heap s)" "0 \<notin> coroutines v" "{idle s, active s, main_coro s} \<inter> coroutines v = {}"
    "c \<in> coroutines v \<Longrightarrow> c \<notin> set (v_idle v) \<union> set (v_ready v) \<Longrightarrow> c \<notin> set (idle s # v_idle v) \<union> set (active s # v_ready v)"
proof -
  have b: "coroutines v \<subseteq> blocks (heap s)"
    using assms mc_rep_blocks [of "cache s" "heap s" "set (map fst ts)" rest] by (auto simp: timers_rep_def sched_inv_def)
  then show "coroutines v \<subseteq> blocks (heap s)" "0 \<notin> coroutines v" by (auto simp: blocks_def)
  from b assms(2) show heads: "{idle s, active s, main_coro s} \<inter> coroutines v = {}" unfolding sched_inv_def by blast
  then show "c \<notin> set (idle s # v_idle v) \<union> set (active s # v_ready v)"
    if "c \<in> coroutines v" "c \<notin> set (v_idle v) \<union> set (v_ready v)" using that by auto
qed

text \<open>An operation that keeps the static part of the state and allocates from the known blocks.\<close>

definition same_frame :: "'f coro_schedule \<Rightarrow> 'f coro_schedule \<Rightarrow> bool" where
  "same_frame s s' \<longleftrightarrow> idle s' = idle s \<and> active s' = active s \<and> inactive s' = inactive s \<and> main_coro s' = main_coro s \<and>
     coro_id s' = coro_id s \<and> next_coro_id s' = next_coro_id s \<and> curr_coro_size s' = curr_coro_size s \<and>
     max_coro_size s' = max_coro_size s \<and> blocks (heap s') \<subseteq> blocks (heap s)"

lemma sched_inv_move:
  assumes "sched_inv s v rest" and "same_frame s s'" and "coroutines v' = coroutines v" and "one_place v'"
    and "queues (lists s') (idle s) (v_idle v') (active s) (v_ready v')"
  shows "sched_inv s' v' rest"
  using assms blocks_apart_mono [of "heap s" "heap s'"] unfolding sched_inv_def same_frame_def by auto

lemma sched_repI:
  assumes "sched_inv s v rest" and "timers_rep s' ts rest" and "v_waiting v' = deadlines s' ts" and "same_frame s s'"
    and "coroutines v' = coroutines v" and "one_place v'" and "queues (lists s') (idle s) (v_idle v') (active s) (v_ready v')"
  shows "sched_rep s' v'"
  using assms sched_inv_move [OF assms(1,4,5,6,7)] unfolding sched_rep_def by blast

subsection \<open>Waking a coroutine\<close>

definition unplaced :: "ptr \<Rightarrow> sched_view \<Rightarrow> sched_view" where
  "unplaced c v = v\<lparr>v_waiting := (v_waiting v)(c := None), v_out := remove1 c (v_out v)\<rparr>"

definition sleeps :: "ptr \<Rightarrow> sched_view \<Rightarrow> bool" where
  "sleeps c v \<longleftrightarrow> c \<in> dom (v_waiting v) \<or> c \<in> set (v_out v)"

lemma unwait_waiting: "timers_ok s ts \<Longrightarrow> set (waiting (unwait c ts)) = set (waiting ts) - {c}"
proof -
  assume "timers_ok s ts"
  then have d: "distinct (waiting ts)" by (simp add: timers_ok_def)
  then have "distinct cs" if "(tm, cs) \<in> set ts" for tm cs
    using that by (metis distinct_concat_iff image_eqI set_map snd_conv waiting_def)
  then have "set (remove1 c cs) = set cs - {c}" if "(tm, cs) \<in> set ts" for tm cs using that by auto
  then show ?thesis by (fastforce simp: waiting_def unwait_def)
qed

text \<open>Leaving the timers: the first step of both wake-up functions.\<close>

lemma stop_waiting:
  assumes "timers_rep s ts rest" and "sched_inv s v rest" and "v_waiting v = deadlines s ts" and "sleeps c v"
  shows "\<exists>h k a ts'. remove_from_inactive_tree c s = ret (s\<lparr>trees := h, cache := k, heap := a\<rparr>) \<and>
    timers_rep (s\<lparr>trees := h, cache := k, heap := a\<rparr>) ts' rest \<and> blocks a \<subseteq> blocks (heap s) \<and>
    (v_waiting v)(c := None) = deadlines s ts'"
proof (cases "c \<in> set (waiting ts)")
  case True
  then have "c \<noteq> 0" using assms(3) sched_rep_blocks(2) [OF assms(1,2)] by (cases "c = 0") (auto simp: coroutines_def)
  from remove_from_inactive_tree_correct [OF assms(1) True this] obtain h k a where
    1: "remove_from_inactive_tree c s = ret (s\<lparr>trees := h, cache := k, heap := a\<rparr>)"
      "timers_rep (s\<lparr>trees := h, cache := k, heap := a\<rparr>) (unwait c ts) rest" "blocks a \<subseteq> blocks (heap s)" by blast
  have "timers_ok s ts" using assms(1) by (simp add: timers_rep_def)
  then have "(v_waiting v)(c := None) = deadlines s (unwait c ts)"
    by (simp add: assms(3) deadlines_def unwait_waiting fun_eq_iff)
  with 1 show ?thesis by blast
next
  case False
  have "c \<in> coroutines v" using assms(4) by (auto simp: coroutines_def sleeps_def)
  then have "coro_id s c \<notin> coro_id s ` set (waiting ts)"
    using assms(2,3) False by (auto simp: sched_inv_def coroutines_def inj_on_def)
  from remove_from_inactive_tree_absent [OF _ this] assms(1) have "remove_from_inactive_tree c s = ret s" by (simp add: timers_rep_def)
  moreover have "s = s\<lparr>trees := trees s, cache := cache s, heap := heap s\<rparr>" by simp
  moreover have "(v_waiting v)(c := None) = deadlines s ts" using False by (auto simp: assms(3) deadlines_def)
  ultimately show ?thesis using assms(1) by (metis order_refl)
qed

lemma wake_view:
  assumes "sched_inv s v rest" and "sleeps c v"
    and "v' = unplaced c v\<lparr>v_ready := v_ready v @ [c]\<rparr> \<or> v' = unplaced c v\<lparr>v_ready := c # v_ready v\<rparr>"
  shows "coroutines v' = coroutines v" "one_place v'" "c \<notin> set (v_idle v) \<union> set (v_ready v)"
proof -
  have p: "one_place v" using assms(1) by (simp add: sched_inv_def)
  then have out: "set (remove1 c (v_out v)) = set (v_out v) - {c}" "distinct (remove1 c (v_out v))" by (auto simp: one_place_def)
  have v': "v_idle v' = v_idle v" "v_out v' = remove1 c (v_out v)" "dom (v_waiting v') = dom (v_waiting v) - {c}"
    "set (v_ready v') = insert c (set (v_ready v))" "distinct (v_ready v') \<longleftrightarrow> distinct (v_ready v) \<and> c \<notin> set (v_ready v)"
    using assms(3) by (auto simp: unplaced_def split: if_splits)
  show c: "c \<notin> set (v_idle v) \<union> set (v_ready v)" using p assms(2) unfolding one_place_def sleeps_def by auto
  show "coroutines v' = coroutines v" using assms(2) unfolding coroutines_def sleeps_def set_append v' out by blast
  show "one_place v'" using p c out(2) unfolding one_place_def distinct_append set_append v' out(1) by blast
qed

lemma wake_correct:
  assumes "sched_rep s v" and "sleeps c v"
    and wake: "wake = (\<lambda>s1. in_lists (list_add_tail c (active s1)) s1) \<and> v' = unplaced c v\<lparr>v_ready := v_ready v @ [c]\<rparr> \<or>
      wake = (\<lambda>s1. in_lists (list_add c (active s1)) s1) \<and> v' = unplaced c v\<lparr>v_ready := c # v_ready v\<rparr>"
  shows "\<exists>s'. run_bind (remove_from_inactive_tree c s) (\<lambda>s1. ret (wake s1)) = ret s' \<and> sched_rep s' v' \<and> same_frame s s' \<and>
    current s' = current s \<and> active_by_timeout s' = active_by_timeout s \<and> coro_timeout s' = coro_timeout s"
proof -
  from assms(1) obtain ts rest where rep: "timers_rep s ts rest" "v_waiting v = deadlines s ts" "sched_inv s v rest"
    by (auto simp: sched_rep_def)
  from stop_waiting [OF rep(1,3,2) assms(2)] obtain h k a ts' where
    rem: "remove_from_inactive_tree c s = ret (s\<lparr>trees := h, cache := k, heap := a\<rparr>)"
      "timers_rep (s\<lparr>trees := h, cache := k, heap := a\<rparr>) ts' rest" "blocks a \<subseteq> blocks (heap s)" "(v_waiting v)(c := None) = deadlines s ts'" by blast
  let ?s1 = "s\<lparr>trees := h, cache := k, heap := a\<rparr>" and ?s' = "wake (s\<lparr>trees := h, cache := k, heap := a\<rparr>)"
  have view: "coroutines v' = coroutines v" "one_place v'" "c \<notin> set (v_idle v) \<union> set (v_ready v)"
    using wake_view [OF rep(3) assms(2)] wake by metis+
  have "c \<in> coroutines v" using assms(2) by (auto simp: coroutines_def sleeps_def)
  from sched_rep_blocks(4) [OF rep(1,3) this view(3)] have "c \<notin> set (idle s # v_idle v) \<union> set (active s # v_ready v)" .
  then have q: "queues (lists ?s') (idle s) (v_idle v') (active s) (v_ready v')"
    using wake rep(3) queues_add_tail queues_add by (auto simp: sched_inv_def in_lists_def unplaced_def)
  have "same_frame s ?s'" using wake rem(3) by (auto simp: same_frame_def in_lists_def)
  moreover have "timers_rep ?s' ts' rest" using wake rem(2) by (auto simp: in_lists_def timers_rep_def intro: timers_ok_cong [THEN iffD1, rotated -1])
  moreover have "v_waiting v' = deadlines ?s' ts'" using wake rem(4) by (auto simp: unplaced_def deadlines_def in_lists_def)
  ultimately have "sched_rep ?s' v'" using sched_repI [OF rep(3) _ _ _ view(1,2) q] by blast
  moreover have "current ?s' = current s" "active_by_timeout ?s' = active_by_timeout s" "coro_timeout ?s' = coro_timeout s"
    using wake by (auto simp: in_lists_def)
  ultimately show ?thesis using \<open>same_frame s ?s'\<close> by (simp add: rem(1) run_bind_def ret_def)
qed

subsection \<open>Going to sleep\<close>

lemma timers_ok_timeout:
  "c \<notin> set (waiting ts) \<Longrightarrow> timers_ok (s\<lparr>coro_timeout := (coro_timeout s)(c := x)\<rparr>) ts = timers_ok s ts"
proof -
  assume c: "c \<notin> set (waiting ts)"
  have "timer_ok (s\<lparr>coro_timeout := (coro_timeout s)(c := x)\<rparr>) tm cs = timer_ok s tm cs" if "(tm, cs) \<in> set ts" for tm cs
    using timer_waiting [OF that] c by (auto simp: timer_ok_def)
  then show ?thesis by (auto simp: timers_ok_def)
qed

text \<open>The view after \<open>schedule_timeout\<close>: the running coroutine waits, or (when there is no timer node) is lost.\<close>

definition now_waits :: "ptr \<Rightarrow> int \<Rightarrow> sched_view \<Rightarrow> sched_view" where
  "now_waits c t v = v\<lparr>v_waiting := (v_waiting v)(c \<mapsto> t), v_out := remove1 c (v_out v)\<rparr>"

definition timers_near :: "int \<Rightarrow> sched_view \<Rightarrow> bool" where
  "timers_near t v \<longleftrightarrow> (\<forall>d \<in> ran (v_waiting v). in_int32 (t - d))"

lemma timers_near_nodes:
  assumes "timers_ok s ts" and "timers_near t v" and "v_waiting v = deadlines s ts"
  shows "\<forall>tm \<in> set (map fst ts). in_int32 (t - tm_timeout s tm)"
proof
  fix tm assume "tm \<in> set (map fst ts)"
  then obtain cs where tm: "(tm, cs) \<in> set ts" by auto
  from timers_member [OF assms(1) tm] obtain c where c: "c \<in> set cs" "coro_timeout s c = tm_timeout s tm"
    by (cases cs) (auto simp: timer_ok_def)
  then have "v_waiting v c = Some (tm_timeout s tm)" using timer_waiting [OF tm] by (auto simp: assms(3) deadlines_def)
  then show "in_int32 (t - tm_timeout s tm)" using assms(2) by (auto simp: timers_near_def ran_def)
qed

lemma deadlines_nodes: "timers_ok s ts \<Longrightarrow> ran (deadlines s ts) \<subseteq> tm_timeout s ` set (map fst ts)"
proof
  fix d assume ok: "timers_ok s ts" and "d \<in> ran (deadlines s ts)"
  then obtain c where "c \<in> set (waiting ts)" "d = coro_timeout s c" by (auto simp: ran_def deadlines_def split: if_splits)
  moreover from this(1) obtain us tm cs vs where "ts = us @ (tm, cs) # vs" "c \<in> set cs" by (rule waiting_split)
  ultimately show "d \<in> tm_timeout s ` set (map fst ts)" using timers_member [OF ok, of tm cs] by (auto simp: timer_ok_def)
qed

lemma now_waits_view:
  assumes "sched_inv s v rest" and "c \<in> set (v_out v)"
  shows "coroutines (now_waits c t v) = coroutines v" "one_place (now_waits c t v)"
proof -
  have p: "one_place v" using assms(1) by (simp add: sched_inv_def)
  then have out: "set (remove1 c (v_out v)) = set (v_out v) - {c}" "distinct (remove1 c (v_out v))" by (auto simp: one_place_def)
  let ?v = "now_waits c t v"
  have v': "v_idle ?v = v_idle v" "v_ready ?v = v_ready v" "v_out ?v = remove1 c (v_out v)" "dom (v_waiting ?v) = insert c (dom (v_waiting v))"
    by (simp_all add: now_waits_def)
  show "coroutines ?v = coroutines v" using assms(2) unfolding coroutines_def set_append v' out by blast
  show "one_place ?v" using p assms(2) out(2) unfolding one_place_def distinct_append set_append v' out(1) by blast
qed

lemma ran_deadlines:
  assumes ok: "timers_ok s ts"
  shows "ran (deadlines s ts) = tm_timeout s ` set (map fst ts)"
proof
  show "ran (deadlines s ts) \<subseteq> tm_timeout s ` set (map fst ts)" by (rule deadlines_nodes [OF ok])
  show "tm_timeout s ` set (map fst ts) \<subseteq> ran (deadlines s ts)"
  proof
    fix d assume "d \<in> tm_timeout s ` set (map fst ts)"
    then obtain tm cs where tm: "(tm, cs) \<in> set ts" "d = tm_timeout s tm" by auto
    with timers_member [OF ok, of tm cs] obtain c where c: "c \<in> set cs" "coro_timeout s c = d" by (cases cs) (auto simp: timer_ok_def)
    with tm(1) have "c \<in> set (waiting ts)" by (force simp: waiting_def)
    with c(2) show "d \<in> ran (deadlines s ts)" by (auto simp: ran_def deadlines_def)
  qed
qed

lemma schedule_timeout_correct:
  assumes "sched_rep s v" and c: "current s = c" "c \<in> set (v_out v)" and near: "timers_near (now + ms) v"
  shows "\<exists>s' v'. schedule_timeout now ms s = ret s' \<and> sched_rep s' v' \<and> same_frame s s' \<and> current s' = main_coro s \<and>
    active_by_timeout s' = active_by_timeout s \<and>
    v' = (if fst (memcache_alloc (cache s) (heap s)) = 0 \<and> now + ms \<notin> ran (v_waiting v) then v else now_waits c (now + ms) v)"
proof -
  from assms(1) obtain ts rest where rep: "timers_rep s ts rest" "v_waiting v = deadlines s ts" "sched_inv s v rest"
    by (auto simp: sched_rep_def)
  let ?s1 = "s\<lparr>coro_timeout := (coro_timeout s)(c := now + ms)\<rparr>"
  have cw: "c \<notin> set (waiting ts)" and cv: "c \<in> coroutines v"
    using rep(2,3) c(2) by (auto simp: sched_inv_def one_place_def coroutines_def)
  have ok: "timers_ok s ts" "timers_ok ?s1 ts" using rep(1) timers_ok_timeout [OF cw] by (auto simp: timers_rep_def)
  have rep1: "timers_rep ?s1 ts rest" using ok(2) rep(1) by (simp add: timers_rep_def)
  have may: "may_wait ?s1 ts rest c"
    using rep(2,3) cv cw by (auto simp: may_wait_def sched_inv_def coroutines_def inj_on_def)
  have near1: "\<forall>tm \<in> set (map fst ts). in_int32 (coro_timeout ?s1 c - tm_timeout ?s1 tm)"
    using timers_near_nodes [OF ok(1) near rep(2)] by simp
  from move_to_inactive_tree_correct [OF rep1 may near1] obtain h k a f ts' where
    mv: "move_to_inactive_tree c ?s1 = ret (?s1\<lparr>trees := h, cache := k, heap := a, tm_timeout := f\<rparr>)"
      "timers_rep (?s1\<lparr>trees := h, cache := k, heap := a, tm_timeout := f\<rparr>) ts' rest" "blocks a \<subseteq> blocks (heap s)"
    and ts': "set (waiting ts') = (if fst (memcache_alloc (cache s) (heap s)) = 0 \<and> now + ms \<notin> tm_timeout s ` set (map fst ts)
       then set (waiting ts) else insert c (set (waiting ts)))" by auto
  let ?s' = "coroutine_switch (main_coro s) (?s1\<lparr>trees := h, cache := k, heap := a, tm_timeout := f\<rparr>)"
  have run: "schedule_timeout now ms s = ret ?s'" using mv(1) c(1) by (simp add: schedule_timeout_def run_bind_def ret_def Let_def)
  have frame: "same_frame s ?s'" using mv(3) by (simp add: same_frame_def coroutine_switch_def)
  have timers: "timers_rep ?s' ts' rest"
    by (rule timers_repI [OF mv(2) [unfolded timers_rep_def, THEN conjunct1]]) (use mv(2) in \<open>simp_all add: timers_rep_def coroutine_switch_def\<close>)
  have q: "queues (lists ?s') (idle s) (v_idle v) (active s) (v_ready v)" using rep(3) by (simp add: sched_inv_def coroutine_switch_def)
  have other: "current ?s' = main_coro s" "active_by_timeout ?s' = active_by_timeout s" by (simp_all add: coroutine_switch_def)
  have ran: "ran (v_waiting v) = tm_timeout s ` set (map fst ts)" using ran_deadlines [OF ok(1)] by (simp add: rep(2))
  show ?thesis
  proof (cases "fst (memcache_alloc (cache s) (heap s)) = 0 \<and> now + ms \<notin> ran (v_waiting v)")
    case False
    with ts' have w: "set (waiting ts') = insert c (set (waiting ts))" unfolding ran by (simp only: if_False)
    then have "v_waiting (now_waits c (now + ms) v) = deadlines ?s' ts'"
      by (simp add: now_waits_def rep(2) deadlines_def coroutine_switch_def fun_eq_iff)
    with sched_repI [OF rep(3) timers _ frame now_waits_view [OF rep(3) c(2)]] q
    have "sched_rep ?s' (now_waits c (now + ms) v)" by (simp add: now_waits_def)
    with run frame other False show ?thesis by (simp only: if_False) blast
  next
    case True
    with ts' have w: "set (waiting ts') = set (waiting ts)" unfolding ran by simp
    then have "v_waiting v = deadlines ?s' ts'" using cw by (auto simp: rep(2) deadlines_def coroutine_switch_def)
    with sched_repI [OF rep(3) timers _ frame refl _ q] rep(3) have "sched_rep ?s' v" by (simp add: sched_inv_def)
    moreover have v: "(if fst (memcache_alloc (cache s) (heap s)) = 0 \<and> now + ms \<notin> ran (v_waiting v) then v else now_waits c (now + ms) v) = v"
      using True by simp
    ultimately show ?thesis using run frame other unfolding v by blast
  qed
qed

subsection \<open>Expiry\<close>

definition expire :: "ptr list \<Rightarrow> sched_view \<Rightarrow> sched_view" where
  "expire ds v = v\<lparr>v_ready := v_ready v @ ds, v_waiting := v_waiting v |` (- set ds)\<rparr>"

text \<open>The coroutines whose instant has come, earlier instants first.\<close>

definition due :: "int \<Rightarrow> sched_view \<Rightarrow> ptr list \<Rightarrow> bool" where
  "due now v ds \<longleftrightarrow> distinct ds \<and> set ds = {c. \<exists>d. v_waiting v c = Some d \<and> d \<le> now} \<and>
     sorted_wrt (\<lambda>c d. the (v_waiting v c) \<le> the (v_waiting v d)) ds"

lemma expired_prefix:
  assumes "sorted_wrt (<) (map (tm_timeout s \<circ> fst) ts)" and "\<forall>(tm, cs) \<in> set ts. \<forall>c \<in> set cs. coro_timeout s c = tm_timeout s tm"
  shows "set (waiting (takeWhile (expired now s) ts)) = {c \<in> set (waiting ts). coro_timeout s c \<le> now}"
  using assms
proof (induction ts)
  case (Cons t ts)
  obtain tm cs where t: "t = (tm, cs)" by fastforce
  have "\<not> coro_timeout s d \<le> now" if "\<not> expired now s t" "d \<in> set (waiting ts)" for d
  proof -
    from that(2) obtain us tm' ds vs where "ts = us @ (tm', ds) # vs" "d \<in> set ds" by (rule waiting_split)
    with Cons.prems that(1) show ?thesis by (auto simp: t expired_def)
  qed
  with Cons show ?case by (cases "expired now s t") (auto simp: t expired_def)
qed simp

lemma expire_view:
  assumes "sched_inv s v rest" and "due now v ds"
  shows "coroutines (expire ds v) = coroutines v" "one_place (expire ds v)" "set ds \<inter> (set (v_idle v) \<union> set (v_ready v)) = {}"
proof -
  have p: "one_place v" using assms(1) by (simp add: sched_inv_def)
  have ds: "set ds \<subseteq> dom (v_waiting v)" "distinct ds" using assms(2) by (auto simp: due_def)
  let ?v = "expire ds v"
  have v': "v_idle ?v = v_idle v" "v_ready ?v = v_ready v @ ds" "v_out ?v = v_out v" "dom (v_waiting ?v) = dom (v_waiting v) - set ds"
    by (auto simp: expire_def)
  show "coroutines ?v = coroutines v" using ds unfolding coroutines_def set_append v' by blast
  have "set ds \<inter> set (v_idle v @ v_ready v @ v_out v) = {}" using p ds(1) unfolding one_place_def by blast
  then show "one_place ?v" using p ds(2) by (auto simp: one_place_def v')
  show "set ds \<inter> (set (v_idle v) \<union> set (v_ready v)) = {}" using p ds(1) unfolding one_place_def by auto
qed

lemma check_timeout_view:
  assumes "sched_rep s v"
  shows "\<exists>s' ds. check_timeout_coroutine now s = ret s' \<and> due now v ds \<and> sched_rep s' (expire ds v) \<and> same_frame s s' \<and>
    current s' = current s \<and> active_by_timeout s' = (\<lambda>c. c \<in> set ds \<or> active_by_timeout s c)"
proof -
  from assms(1) obtain ts rest where rep: "timers_rep s ts rest" "v_waiting v = deadlines s ts" "sched_inv s v rest"
    by (auto simp: sched_rep_def)
  from check_timeout_correct [OF rep(1), of now] obtain h k a ds where
    run: "check_timeout_loop now s = Some (Ret (s\<lparr>lists := ready_all ds s, trees := h,
      active_by_timeout := (\<lambda>c. c \<in> set ds \<or> active_by_timeout s c), cache := k, heap := a\<rparr>))"
    and ds: "set ds = set (waiting (takeWhile (expired now s) ts))" "distinct ds"
      "sorted_wrt (\<lambda>c d. coro_timeout s c \<le> coro_timeout s d) ds" and blk: "blocks a \<subseteq> blocks (heap s)"
    and timers: "timers_rep (s\<lparr>lists := ready_all ds s, trees := h, active_by_timeout := (\<lambda>c. c \<in> set ds \<or> active_by_timeout s c),
      cache := k, heap := a\<rparr>) (dropWhile (expired now s) ts) rest" by blast
  let ?s' = "s\<lparr>lists := ready_all ds s, trees := h, active_by_timeout := (\<lambda>c. c \<in> set ds \<or> active_by_timeout s c), cache := k, heap := a\<rparr>"
  have ok: "timers_ok s ts" using rep(1) by (simp add: timers_rep_def)
  have "set ds = {c \<in> set (waiting ts). coro_timeout s c \<le> now}"
    unfolding ds(1) by (rule expired_prefix) (use ok in \<open>auto simp: timers_ok_def timer_ok_def\<close>)
  moreover from this have "sorted_wrt (\<lambda>c d. the (v_waiting v c) \<le> the (v_waiting v d)) ds"
    by (intro sorted_wrt_mono_rel [OF _ ds(3)]) (auto simp: rep(2) deadlines_def)
  ultimately have due: "due now v ds" using ds(2) by (auto simp: due_def rep(2) deadlines_def split: if_splits)
  note view = expire_view [OF rep(3) due]
  have rest: "set (waiting (dropWhile (expired now s) ts)) = set (waiting ts) - set ds"
  proof -
    have "waiting ts = waiting (takeWhile (expired now s) ts) @ waiting (dropWhile (expired now s) ts)"
      by (simp flip: waiting_simps(3))
    with ok ds(1) show ?thesis by (auto simp: timers_ok_def)
  qed
  have "v_waiting (expire ds v) = deadlines ?s' (dropWhile (expired now s) ts)"
    by (simp add: expire_def rep(2) deadlines_def rest restrict_map_def fun_eq_iff)
  moreover have "queues (lists ?s') (idle s) (v_idle (expire ds v)) (active s) (v_ready (expire ds v))"
  proof -
    have "set ds \<subseteq> coroutines v" using due by (auto simp: due_def coroutines_def)
    then have "set ds \<inter> (set (idle s # v_idle v) \<union> set (active s # v_ready v)) = {}"
      using sched_rep_blocks(3) [OF rep(1,3)] view(3) by auto
    with queues_fold [OF _ ds(2)] rep(3) show ?thesis by (simp add: sched_inv_def expire_def)
  qed
  moreover have "same_frame s ?s'" using blk by (simp add: same_frame_def)
  ultimately have "sched_rep ?s' (expire ds v)" by (intro sched_repI [OF rep(3) timers _ _ view(1,2)])
  with run due \<open>same_frame s ?s'\<close> show ?thesis
    by (intro exI [of _ ?s'] exI [of _ ds]) (simp add: check_timeout_coroutine_def ret_def)
qed

subsection \<open>Running a coroutine, and its end\<close>

lemma run_next_view:
  assumes "sched_rep s v"
  shows "v_ready v = [] \<Longrightarrow> run_next s = None"
    and "v_ready v = c # ys \<Longrightarrow> \<exists>s'. run_next s = Some s' \<and> sched_rep s' (v\<lparr>v_ready := ys, v_out := c # v_out v\<rparr>) \<and>
      same_frame s s' \<and> current s' = c \<and> active_by_timeout s' = active_by_timeout s"
proof -
  from assms(1) obtain ts rest where rep: "timers_rep s ts rest" "v_waiting v = deadlines s ts" "sched_inv s v rest"
    by (auto simp: sched_rep_def)
  have q: "queues (lists s) (idle s) (v_idle v) (active s) (v_ready v)" and p: "one_place v" using rep(3) by (simp_all add: sched_inv_def)
  show "run_next s = None" if "v_ready v = []"
    using q that dll_list_empty [of "lists s" "active s" "[]"] by (simp add: run_next_def get_active_coroutine_def queues_def)
  assume r: "v_ready v = c # ys"
  note del = queues_del [OF q [unfolded r]]
  let ?v = "v\<lparr>v_ready := ys, v_out := c # v_out v\<rparr>" and ?s' = "coroutine_switch c (in_lists (list_del_init c) s)"
  have c: "c \<in> coroutines v" "c \<notin> set (v_idle v) \<union> set ys" using r p by (auto simp: coroutines_def one_place_def)
  then have "c \<noteq> 0" "c \<notin> set (idle s # v_idle v) \<union> set (active s # ys)"
    using sched_rep_blocks(2,3) [OF rep(1,3)] by (cases "c = 0", auto)
  then have "queues (lists ?s') (idle s) (v_idle ?v) (active s) (v_ready ?v)" "run_next s = Some ?s'"
    using del by (simp_all add: coroutine_switch_def in_lists_def list_del_init_def queues_INIT run_next_def get_active_coroutine_def)
  moreover have "coroutines ?v = coroutines v" "one_place ?v" using p r by (auto simp: coroutines_def one_place_def)
  moreover have "timers_rep ?s' ts rest"
    by (rule timers_repI [OF rep(1) [unfolded timers_rep_def, THEN conjunct1]]) (use rep(1) in \<open>simp_all add: timers_rep_def coroutine_switch_def in_lists_def\<close>)
  moreover have "same_frame s ?s'" by (simp add: same_frame_def coroutine_switch_def in_lists_def)
  moreover have "v_waiting ?v = deadlines ?s' ts" 
    using rep(2) deadlines_cong [of ?s' s] by (simp add: coroutine_switch_def in_lists_def)
  ultimately show "\<exists>s'. run_next s = Some s' \<and> sched_rep s' ?v \<and> same_frame s s' \<and> current s' = c \<and> active_by_timeout s' = active_by_timeout s"
    using sched_repI [OF rep(3), of ?s' ts ?v] by (intro exI [of _ ?s']) (simp add: coroutine_switch_def in_lists_def)
qed

lemma coro_routine_end_view:
  assumes "sched_rep s v" and "current s = c" and "c \<in> set (v_out v)"
  shows "sched_rep (coro_routine_end s) (v\<lparr>v_idle := v_idle v @ [c], v_out := remove1 c (v_out v)\<rparr>)"
    and "same_frame s (coro_routine_end s)" and "current (coro_routine_end s) = main_coro s"
    and "active_by_timeout (coro_routine_end s) = active_by_timeout s"
proof -
  from assms(1) obtain ts rest where rep: "timers_rep s ts rest" "v_waiting v = deadlines s ts" "sched_inv s v rest"
    by (auto simp: sched_rep_def)
  have q: "queues (lists s) (idle s) (v_idle v) (active s) (v_ready v)" and p: "one_place v" using rep(3) by (simp_all add: sched_inv_def)
  let ?v = "v\<lparr>v_idle := v_idle v @ [c], v_out := remove1 c (v_out v)\<rparr>" and ?s' = "coro_routine_end s"
  have s': "?s' = coroutine_switch (main_coro s) (in_lists (list_add_tail c (idle s)) s)"
    by (simp add: coro_routine_end_def move_to_idle_list_direct_def assms(2) in_lists_def)
  have out: "set (remove1 c (v_out v)) = set (v_out v) - {c}" "distinct (remove1 c (v_out v))" using p by (auto simp: one_place_def)
  have c: "c \<in> coroutines v" "c \<notin> set (v_idle v) \<union> set (v_ready v)" using assms(3) p by (auto simp: coroutines_def one_place_def)
  from queues_add_tail [OF q [THEN queues_sym [THEN iffD1]], of c] sched_rep_blocks(4) [OF rep(1,3) c]
  have "queues (list_add_tail c (idle s) (lists s)) (idle s) (v_idle v @ [c]) (active s) (v_ready v)" by (subst queues_sym) auto
  moreover have "coroutines ?v = coroutines v" using assms(3) out by (auto simp: coroutines_def)
  moreover have "one_place ?v" using p assms(3) out by (auto simp: one_place_def)
  moreover have "timers_rep ?s' ts rest" unfolding s'
    by (rule timers_repI [OF rep(1) [unfolded timers_rep_def, THEN conjunct1]]) (use rep(1) in \<open>simp_all add: timers_rep_def coroutine_switch_def in_lists_def\<close>)
  moreover show "same_frame s ?s'" by (simp add: s' same_frame_def coroutine_switch_def in_lists_def)
  moreover have "v_waiting ?v = deadlines ?s' ts" 
    using rep(2) deadlines_cong [of ?s' s] by (simp add: s' coroutine_switch_def in_lists_def)
  ultimately show "sched_rep ?s' ?v"
    using sched_repI [OF rep(3), of ?s' ts ?v] by (simp add: s' coroutine_switch_def in_lists_def)
  show "current ?s' = main_coro s" "active_by_timeout ?s' = active_by_timeout s" by (simp_all add: s' coroutine_switch_def in_lists_def)
qed

subsection \<open>Starting a coroutine\<close>

text \<open>\<open>coroutine_init\<close> of a coroutine that does not wait does not disturb the timers.\<close>

lemma coroutine_init_timers:
  assumes rep: "timers_rep s ts rest" and c: "c \<in> rest" "c \<notin> set (waiting ts)"
    and heap: "blocks_apart (heap s)" "inactive s \<notin> root_at ` blocks (heap s)"
  shows "timers_rep (coroutine_init c s) ts rest" "deadlines (coroutine_init c s) ts = deadlines s ts"
proof -
  have ok: "timers_ok s ts" and mc: "mc_rep (cache s) (heap s) (set (map fst ts)) rest" using rep by (simp_all add: timers_rep_def)
  have blk: "set (map fst ts) \<union> rest \<subseteq> blocks (heap s)" "c \<notin> set (map fst ts)" using mc_rep_blocks [OF mc] mc c(1) by (auto simp: mc_rep_def)
  then have node: "node_of c \<notin> set (map fst ts)" "inactive s \<noteq> root_at c"
    using heap c(1) unfolding blocks_apart_def by blast+
  let ?h = "RB_CLEAR_NODE (node_of c) (trees s)"
  have "same_outside (node_of ` {c}) (root_at c) (trees s) ?h"
    by (simp add: RB_CLEAR_NODE_def rb_set_parent_def same_outside_def)
  from timers_other [OF ok this blk(2)] node c(2) have "timers_ok (s\<lparr>trees := ?h\<rparr>) ts" by simp
  from timers_ok_timeout [OF c(2), of "s\<lparr>trees := ?h\<rparr>" 0] this
  have "timers_ok (s\<lparr>trees := ?h, coro_timeout := (coro_timeout s)(c := 0)\<rparr>) ts" by simp
  then show "timers_rep (coroutine_init c s) ts rest"
    by (rule timers_repI) (use mc in \<open>simp_all add: coroutine_init_def in_lists_def\<close>)
  show "deadlines (coroutine_init c s) ts = deadlines s ts" using c(2) by (auto simp: deadlines_def coroutine_init_def in_lists_def)
qed

lemma mc_rep_malloc:
  assumes "mc_rep c a out rest" and "malloc a = (p, a')"
  shows "p = 0 \<Longrightarrow> mc_rep c a' out rest"
    and "p \<noteq> 0 \<Longrightarrow> mc_rep c a' out (insert p rest) \<and> p \<notin> out \<union> rest"
  using assms malloc_cases [of a p a'] by (auto simp: mc_rep_def)

lemma mc_rep_free:
  assumes "mc_rep c a out (insert p rest)" and "p \<notin> rest"
  shows "\<exists>a'. free p a = Ret a' \<and> mc_rep c a' out rest \<and> blocks a' \<subseteq> blocks a"
proof -
  have "alloc_ok a" "p \<in> set (a_live a)" using assms(1) by (auto simp: mc_rep_def)
  from free_live [OF this] obtain a' where "free p a = Ret a'" "alloc_ok a'" "set (a_live a') = set (a_live a) - {p}" by blast
  with assms free_blocks [of p a a'] show ?thesis by (auto simp: mc_rep_def)
qed

text \<open>The idle case: the first idle coroutine is used again.\<close>

lemma get_coroutine_idle:
  assumes "sched_rep s v" and "v_idle v = c # xs"
  shows "\<exists>s'. get_coroutine ok s = ret (c, s') \<and> sched_rep s' (v\<lparr>v_idle := xs, v_out := c # v_out v\<rparr>) \<and> same_frame s s' \<and>
    current s' = current s \<and> active_by_timeout s' = (active_by_timeout s)(c := False)"
proof -
  from assms(1) obtain ts rest where rep: "timers_rep s ts rest" "v_waiting v = deadlines s ts" "sched_inv s v rest"
    by (auto simp: sched_rep_def)
  have q: "queues (lists s) (idle s) (v_idle v) (active s) (v_ready v)" and p: "one_place v" using rep(3) by (simp_all add: sched_inv_def)
  note del = queues_del [OF q [unfolded assms(2), THEN queues_sym [THEN iffD1]]]
  let ?v = "v\<lparr>v_idle := xs, v_out := c # v_out v\<rparr>" and ?s1 = "in_lists (list_del c) s"
  let ?s' = "coroutine_init c ?s1"
  have c: "c \<in> coroutines v" "c \<notin> set xs \<union> set (v_ready v)" using assms(2) p by (auto simp: coroutines_def one_place_def)
  then have fresh: "c \<notin> set (active s # v_ready v) \<union> set (idle s # xs)" using sched_rep_blocks(3) [OF rep(1,3)] by auto
  have "queues (lists ?s') (idle s) (v_idle ?v) (active s) (v_ready ?v)"
    using queues_INIT [OF fresh, THEN iffD2, OF del(1)] queues_sym by (simp add: coroutine_init_def in_lists_def list_del_def)
  moreover have "coroutines ?v = coroutines v" "one_place ?v" using p assms(2) by (auto simp: coroutines_def one_place_def)
  moreover have "timers_rep ?s1 ts rest"
    by (rule timers_repI [OF rep(1) [unfolded timers_rep_def, THEN conjunct1]]) (use rep(1) in \<open>simp_all add: timers_rep_def in_lists_def\<close>)
  then have "timers_rep ?s' ts rest" "deadlines ?s' ts = deadlines ?s1 ts"
    using coroutine_init_timers [of ?s1 ts rest c] rep(2,3) c(1) p assms(2) by (auto simp: in_lists_def sched_inv_def one_place_def)
  moreover from this(2) have "v_waiting ?v = deadlines ?s' ts" using rep(2) deadlines_cong [of ?s1 s] by (simp add: in_lists_def)
  moreover have "same_frame s ?s'" by (simp add: same_frame_def coroutine_init_def in_lists_def)
  moreover have "get_coroutine ok s = ret (c, ?s')" using del(2,3) by (simp add: get_coroutine_def)
  moreover have "current ?s' = current s" "active_by_timeout ?s' = (active_by_timeout s)(c := False)"
    by (simp_all add: coroutine_init_def in_lists_def)
  ultimately show ?thesis using sched_repI [OF rep(3), of ?s' ts ?v] by blast
qed

text \<open>No idle coroutine: a new one is made, up to the limit.\<close>

lemma timers_ok_coro_id:
  "c \<notin> set (waiting ts) \<Longrightarrow> timers_ok (s\<lparr>coro_id := (coro_id s)(c := x)\<rparr>) ts = timers_ok s ts"
proof -
  assume c: "c \<notin> set (waiting ts)"
  have "timer_ok (s\<lparr>coro_id := (coro_id s)(c := x)\<rparr>) tm cs = timer_ok s tm cs" if "(tm, cs) \<in> set ts" for tm cs
  proof -
    have "map ((coro_id s)(c := x)) cs = map (coro_id s) cs" using timer_waiting [OF that] c by auto
    then show ?thesis by (simp add: timer_ok_def del: map_eq_conv)
  qed
  then show ?thesis by (auto simp: timers_ok_def)
qed

definition new_coro :: "ptr \<Rightarrow> allocator \<Rightarrow> 'f coro_schedule \<Rightarrow> 'f coro_schedule" where
  "new_coro c a s = s\<lparr>heap := a, next_coro_id := next_coro_id s + 1, coro_id := (coro_id s)(c := next_coro_id s + 1),
     curr_coro_size := curr_coro_size s + 1\<rparr>"

lemma new_coro_inv:
  assumes "timers_rep s ts rest" and "sched_inv s v rest" and "v_waiting v = deadlines s ts" and "malloc (heap s) = (c, a)" and "c \<noteq> 0"
    and "curr_coro_size s \<noteq> max_coro_size s"
  shows "timers_rep (new_coro c a s) ts (insert c rest)" "sched_inv (new_coro c a s) (v\<lparr>v_out := c # v_out v\<rparr>) (insert c rest)"
    "c \<notin> coroutines v" "c \<in> blocks (heap s)"
proof -
  let ?s = "new_coro c a s" and ?v = "v\<lparr>v_out := c # v_out v\<rparr>"
  have mc: "mc_rep (cache s) (heap s) (set (map fst ts)) rest" using assms(1) by (simp add: timers_rep_def)
  from mc_rep_malloc(2) [OF this assms(4,5)] have new: "mc_rep (cache s) a (set (map fst ts)) (insert c rest)" "c \<notin> rest" by auto
  have blk: "blocks a \<subseteq> blocks (heap s)" using malloc_blocks [OF assms(4)] .
  show c: "c \<notin> coroutines v" using new(2) assms(2) by (auto simp: sched_inv_def)
  then have w: "c \<notin> set (waiting ts)" using assms(3) by (auto simp: coroutines_def)
  have "timers_ok s ts" using assms(1) by (simp add: timers_rep_def)
  then have "timers_ok (s\<lparr>coro_id := (coro_id s)(c := next_coro_id s + 1)\<rparr>) ts" 
    using timers_ok_coro_id [OF w, of s "next_coro_id s + 1"] by simp
  then show "timers_rep ?s ts (insert c rest)" by (rule timers_repI) (use new(1) in \<open>simp_all add: new_coro_def\<close>)
  show "c \<in> blocks (heap s)" using mc_rep_blocks [OF new(1)] blk by auto
  have cs: "coroutines ?v = insert c (coroutines v)" by (auto simp: coroutines_def)
  have ids: "coro_id ?s x = coro_id s x" if "x \<in> coroutines v" for x using that c by (auto simp: new_coro_def)
  have "inj_on (coro_id ?s) (coroutines v)"
    using assms(2) by (auto simp: sched_inv_def inj_on_def ids)
  moreover have "coro_id ?s c \<notin> coro_id ?s ` coroutines v" using assms(2) c by (auto simp: sched_inv_def new_coro_def)
  ultimately have "inj_on (coro_id ?s) (coroutines ?v)" unfolding cs by (simp add: c)
  moreover have "one_place ?v" using assms(2) c by (auto simp: sched_inv_def one_place_def coroutines_def)
  moreover have "\<forall>x \<in> coroutines ?v. 1 \<le> coro_id ?s x \<and> coro_id ?s x \<le> next_coro_id ?s"
    using assms(2) c by (auto simp: cs sched_inv_def new_coro_def)
  moreover have "card (coroutines ?v) = curr_coro_size ?s" "finite (coroutines ?v)"
    using assms(2) c by (simp_all add: cs sched_inv_def new_coro_def)
  moreover have "blocks_apart a" using blocks_apart_mono [OF _ blk] assms(2) by (simp add: sched_inv_def)
  ultimately show "sched_inv ?s ?v (insert c rest)"
    using assms(2,6) blk by (auto simp: sched_inv_def new_coro_def cs)
qed

definition same_static :: "'f coro_schedule \<Rightarrow> 'f coro_schedule \<Rightarrow> bool" where
  "same_static s s' \<longleftrightarrow> main_coro s' = main_coro s \<and> max_coro_size s' = max_coro_size s \<and> current s' = current s"

lemma sched_rep_heap:
  assumes "timers_rep s ts rest" "v_waiting v = deadlines s ts" "sched_inv s v rest"
    and "mc_rep (cache s) a (set (map fst ts)) rest" "blocks a \<subseteq> blocks (heap s)"
  shows "sched_rep (s\<lparr>heap := a\<rparr>) v"
proof (rule sched_repI [OF assms(3)])
  show "timers_rep (s\<lparr>heap := a\<rparr>) ts rest"
    by (rule timers_repI [OF assms(1) [unfolded timers_rep_def, THEN conjunct1]]) (use assms(4) in simp_all)
  show "v_waiting v = deadlines (s\<lparr>heap := a\<rparr>) ts" using assms(2) deadlines_cong [of "s\<lparr>heap := a\<rparr>" s] by simp
  show "same_frame s (s\<lparr>heap := a\<rparr>)" using assms(5) by (simp add: same_frame_def)
qed (use assms(3) in \<open>simp_all add: sched_inv_def\<close>)

lemma new_coro_ready:
  assumes rep: "timers_rep s ts rest" "v_waiting v = deadlines s ts" "sched_inv s v rest"
    and m: "malloc (heap s) = (c, a)" "c \<noteq> 0" and room: "curr_coro_size s \<noteq> max_coro_size s"
  shows "sched_rep (coroutine_init c (new_coro c a s)) (v\<lparr>v_out := c # v_out v\<rparr>)" and "c \<notin> coroutines v"
proof -
  note n = new_coro_inv [OF rep(1,3,2) m room]
  let ?s1 = "new_coro c a s" and ?v = "v\<lparr>v_out := c # v_out v\<rparr>"
  let ?s' = "coroutine_init c ?s1"
  show "c \<notin> coroutines v" using n(3) by blast
  have w: "c \<notin> set (waiting ts)" using n(3) rep(2) by (auto simp: coroutines_def)
  note init = coroutine_init_timers [OF n(1) _ w]
  have "timers_rep ?s' ts (insert c rest)" "deadlines ?s' ts = deadlines ?s1 ts"
    using init n(2) by (simp_all add: sched_inv_def)
  moreover have "v_waiting ?v = deadlines ?s1 ts" using rep(2) deadlines_cong [of ?s1 s] by (simp add: new_coro_def)
  moreover have "same_frame ?s1 ?s'" by (simp add: same_frame_def coroutine_init_def in_lists_def)
  moreover have "c \<notin> set (idle ?s1 # v_idle ?v) \<union> set (active ?s1 # v_ready ?v)"
    using n(3,4) rep(3) by (auto simp: new_coro_def sched_inv_def coroutines_def)
  then have "queues (lists ?s') (idle ?s1) (v_idle ?v) (active ?s1) (v_ready ?v)"
    using n(2) by (simp add: coroutine_init_def in_lists_def queues_INIT sched_inv_def)
  ultimately show "sched_rep ?s' ?v" using sched_repI [OF n(2), of ?s' ts ?v] n(2) by (simp add: sched_inv_def)
qed

lemma get_coroutine_new:
  assumes "sched_rep s v" and "v_idle v = []"
  shows "\<exists>c s'. get_coroutine ok s = ret (c, s') \<and> same_static s s' \<and>
    (c = 0 \<and> sched_rep s' v \<and> active_by_timeout s' = active_by_timeout s \<and>
       (curr_coro_size s = max_coro_size s \<or> fst (malloc (heap s)) = 0 \<or> \<not> ok) \<or>
     c \<noteq> 0 \<and> c \<notin> coroutines v \<and> sched_rep s' (v\<lparr>v_out := c # v_out v\<rparr>) \<and> active_by_timeout s' = (active_by_timeout s)(c := False))"
proof -
  from assms(1) obtain ts rest where rep: "timers_rep s ts rest" "v_waiting v = deadlines s ts" "sched_inv s v rest"
    by (auto simp: sched_rep_def)
  have "list_empty (idle s) (lists s)"
    using rep(3) assms(2) dll_list_empty [of "lists s" "idle s" "[]"] by (simp add: sched_inv_def queues_def)
  then have get: "get_coroutine ok s = run_bind (create_coroutine ok s) (\<lambda>(coro, s1).
      if coro \<noteq> 0 then ret (coro, coroutine_init coro s1) else ret (coro, s1))" by (simp add: get_coroutine_def)
  obtain c a where m: "malloc (heap s) = (c, a)" by fastforce
  have mc: "mc_rep (cache s) (heap s) (set (map fst ts)) rest" using rep(1) by (simp add: timers_rep_def)
  note fail = sched_rep_heap [OF rep] and blk = malloc_blocks [OF m]
  note defs = create_coroutine_def run_bind_def ret_def same_static_def
  consider "curr_coro_size s = max_coro_size s" | "curr_coro_size s \<noteq> max_coro_size s" "c = 0"
    | "curr_coro_size s \<noteq> max_coro_size s" "c \<noteq> 0" "\<not> ok" | "curr_coro_size s \<noteq> max_coro_size s" "c \<noteq> 0" "ok" by blast
  then show ?thesis
  proof cases
    case 1
    with assms(1) get show ?thesis by (simp add: defs)
  next
    case 2
    from fail [OF mc_rep_malloc(1) [OF mc m 2(2)] blk] get 2 m show ?thesis by (simp add: defs)
  next
    case 3
    from mc_rep_malloc(2) [OF mc m 3(2)] have new: "mc_rep (cache s) a (set (map fst ts)) (insert c rest)" "c \<notin> rest" by auto
    from mc_rep_free [OF new] obtain a' where a': "free c a = Ret a'" "mc_rep (cache s) a' (set (map fst ts)) rest" "blocks a' \<subseteq> blocks a" by blast
    from fail [OF a'(2) subset_trans [OF a'(3) blk]] a'(1) get 3 m show ?thesis by (simp add: defs)
  next
    case 4
    have "get_coroutine ok s = ret (c, coroutine_init c (new_coro c a s))"
      using get 4 m by (simp add: defs new_coro_def)
    moreover have "same_static s (coroutine_init c (new_coro c a s))"
      "active_by_timeout (coroutine_init c (new_coro c a s)) = (active_by_timeout s)(c := False)"
      by (simp_all add: same_static_def coroutine_init_def in_lists_def new_coro_def)
    ultimately show ?thesis using 4(2) new_coro_ready [OF rep m 4(2,1)] by blast
  qed
qed

end
