(* ===== verification/Sched_Frame.thy ===== *)
theory Sched_Frame
  imports Sched
begin

text \<open>
  What the operations of the scheduler leave alone: only \<open>dispatch_coro\<close> sets the function of a coroutine, and the limit of
  coroutines is fixed.
\<close>

definition same_code :: "'f coro_schedule \<Rightarrow> 'f coro_schedule \<Rightarrow> bool" where
  "same_code s s' \<longleftrightarrow> coro_func s' = coro_func s \<and> max_coro_size s' = max_coro_size s"

definition keeps :: "'f coro_schedule \<Rightarrow> 'f coro_schedule run \<Rightarrow> bool" where
  "keeps s x \<longleftrightarrow> (\<forall>s'. x = Some (Ret s') \<longrightarrow> same_code s s')"

lemma same_code_refl [simp]: "same_code s s"
  by (simp add: same_code_def)

lemma same_code_trans: "same_code s s' \<Longrightarrow> same_code s' s'' \<Longrightarrow> same_code s s''"
  by (simp add: same_code_def)

lemma same_code_upd [simp]:
  "same_code s (s'\<lparr>trees := h\<rparr>) = same_code s s'" "same_code s (s'\<lparr>lists := l\<rparr>) = same_code s s'"
  "same_code s (s'\<lparr>current := c\<rparr>) = same_code s s'" "same_code s (s'\<lparr>heap := a\<rparr>) = same_code s s'"
  "same_code s (s'\<lparr>cache := m\<rparr>) = same_code s s'" "same_code s (s'\<lparr>coro_timeout := t\<rparr>) = same_code s s'"
  "same_code s (s'\<lparr>active_by_timeout := b\<rparr>) = same_code s s'" "same_code s (s'\<lparr>tm_timeout := u\<rparr>) = same_code s s'"
  "same_code s (s'\<lparr>coro_id := i\<rparr>) = same_code s s'" "same_code s (s'\<lparr>next_coro_id := k\<rparr>) = same_code s s'"
  "same_code s (s'\<lparr>curr_coro_size := n\<rparr>) = same_code s s'"
  by (simp_all add: same_code_def)

lemma keeps_ret [simp]: "keeps s (ret s') = same_code s s'" "keeps s (Some (Ret s')) = same_code s s'" "keeps s None"
  "keeps s (Some UB)" "keeps s (Some Abort)" "keeps s (Some (Exit e))"
  by (auto simp: keeps_def ret_def)

lemma keeps_bind: "keeps s x \<Longrightarrow> (\<And>s'. same_code s s' \<Longrightarrow> keeps s (f s')) \<Longrightarrow> keeps s (run_bind x f)"
  by (auto simp: keeps_def run_bind_def split: option.splits cres.splits)

lemma keeps_trans: "same_code s s' \<Longrightarrow> keeps s' x \<Longrightarrow> keeps s x"
  by (auto simp: keeps_def intro: same_code_trans)

lemma keepsD: "keeps s x \<Longrightarrow> x = ret s' \<Longrightarrow> same_code s s'"
  by (simp add: keeps_def ret_def)

lemma in_lists_code [simp]: "same_code s (in_lists f s') = same_code s s'"
  by (simp add: in_lists_def)

lemma in_trees_keeps: "same_code s s' \<Longrightarrow> keeps s (in_trees f s')"
  by (simp add: in_trees_def split: option.splits)

lemma cache_free_keeps: "same_code s s' \<Longrightarrow> keeps s (cache_free p s')"
  by (cases "memcache_free (cache s') p (heap s')") (auto simp: cache_free_def)

lemma remove_keeps: "same_code s s' \<Longrightarrow> keeps s (remove_from_inactive_tree c s')"
  unfolding remove_from_inactive_tree_def remove_from_timer_node_def
  by (auto split: option.splits intro!: keeps_bind in_trees_keeps cache_free_keeps)

lemma wakeup_keeps: "keeps s (wakeup_coro c s)" "keeps s (wakeup_coro_priority c s)"
  unfolding wakeup_coro_def wakeup_coro_priority_def move_to_active_list_tail_def move_to_active_list_head_def
  by (auto intro!: keeps_bind remove_keeps)

lemma schedule_timeout_keeps: "keeps s (schedule_timeout now ms s)"
  unfolding schedule_timeout_def move_to_inactive_tree_def add_to_timer_node_def
  by (auto simp: Let_def coroutine_switch_def split: option.splits sum.splits prod.splits intro!: keeps_bind in_trees_keeps)

lemma timeout_handler_keeps: "timeout_coroutine_handler node s = Some s' \<Longrightarrow> same_code s s'"
proof (rule timeout_coroutine_handler.raw_induct [of "\<lambda>_ s s'. same_code s s'"])
  fix f :: "ptr \<Rightarrow> 'a coro_schedule \<Rightarrow> 'a coro_schedule option" and node s s'
  assume IH: "\<And>x xa y. f x xa = Some y \<Longrightarrow> same_code xa y"
    and run: "(let recent = rb_node (trees s) (root_at node) in
      if recent = 0 then Some s
      else
        let coro = coro_of recent in
        case rb_erase recent (root_at node) (trees s) of
          None \<Rightarrow> None
        | Some h \<Rightarrow>
            let s1 = s\<lparr>trees := h, active_by_timeout := (active_by_timeout s)(coro := True)\<rparr>
            in f node (move_to_active_list_tail_direct coro s1)) = Some s'"
  show "same_code s s'"
    using run IH
    by (fastforce simp: Let_def move_to_active_list_tail_direct_def same_code_def in_lists_def split: if_splits option.splits)
qed

lemma check_timeout_keeps: "keeps s (check_timeout_coroutine now s)"
proof -
  have "check_timeout_loop now s = Some x \<Longrightarrow> keeps s (Some x)" for x
  proof (rule check_timeout_loop.raw_induct [of "\<lambda>_ s x. keeps s (Some x)"])
    fix f :: "int \<Rightarrow> 'a coro_schedule \<Rightarrow> 'a coro_schedule run" and now s x
    assume IH: "\<And>now s y. f now s = Some y \<Longrightarrow> keeps s (Some y)"
      and run: "(case get_recent_timer_node s of
        None \<Rightarrow> None
      | Some node \<Rightarrow>
          if node = 0 \<or> now < tm_timeout s node then Some (Ret s)
          else
            (case rb_erase node (inactive s) (trees s) of
               None \<Rightarrow> None
             | Some h \<Rightarrow>
                 (case timeout_coroutine_handler node (s\<lparr>trees := h\<rparr>) of
                    None \<Rightarrow> None
                  | Some s1 \<Rightarrow>
                      (case memcache_free (cache s1) node (heap s1) of
                         Ret (c, a) \<Rightarrow> f now (s1\<lparr>cache := c, heap := a\<rparr>)
                       | UB \<Rightarrow> Some UB | Abort \<Rightarrow> Some Abort | Exit e \<Rightarrow> Some (Exit e))))) = Some x"
    have k: "keeps s (Some x)"
      if "timeout_coroutine_handler node (s\<lparr>trees := h\<rparr>) = Some s1" "f now (s1\<lparr>cache := c, heap := a\<rparr>) = Some x" for node h s1 c a
    proof -
      have "same_code s (s1\<lparr>cache := c, heap := a\<rparr>)" using timeout_handler_keeps [OF that(1)] by (simp add: same_code_def)
      then show ?thesis by (rule keeps_trans [OF _ IH [OF that(2)]])
    qed
    from run show "keeps s (Some x)" by (auto split: option.splits if_splits cres.splits intro: k)
  qed
  then show ?thesis unfolding check_timeout_coroutine_def by (cases "check_timeout_loop now s") simp_all
qed

lemma run_next_keeps: "run_next s = Some s' \<Longrightarrow> same_code s s'"
  by (auto simp: run_next_def get_active_coroutine_def coroutine_switch_def Let_def split: if_splits)

lemma coro_routine_end_keeps: "same_code s (coro_routine_end s)"
  by (simp add: coro_routine_end_def Let_def coroutine_switch_def move_to_idle_list_direct_def)

lemma coroutine_init_keeps [simp]: "same_code s (coroutine_init c s') = same_code s s'"
  by (simp add: coroutine_init_def)

lemma get_coroutine_keeps: "get_coroutine ok s = ret (c, s') \<Longrightarrow> same_code s s'"
  by (cases "malloc (heap s)"; cases "free (fst (malloc (heap s))) (snd (malloc (heap s)))")
    (auto simp: get_coroutine_def create_coroutine_def run_bind_def ret_def Let_def same_code_def coroutine_init_def in_lists_def
      split: if_splits)

lemma is_wakeup_keeps: "same_code s (snd (is_wakeup_by_timeout s))"
  by (simp add: is_wakeup_by_timeout_def)

end
