(* ===== verification/Sched_Run.thy ===== *)
theory Sched_Run
  imports Sched_Correct Sched_Frame
begin

text \<open>
  The scheduler as a state machine: the calls a running coroutine makes, the steps of the main loop and the wake-ups
  of the event loop, in any order the control flow allows. \<open>sched_spec\<close> is what each of them does to a
  view; the operations of \<open>coro/sched.c\<close> refine it and never get stuck.
\<close>

datatype 'f sched_op =
  Dispatch bool 'f | Timeout int int | Return | Ask | Check int | Next | Wake ptr | Wake_first ptr

text \<open>The coroutine that runs; \<open>None\<close> when the main loop does.\<close>

definition runner :: "'f coro_schedule \<Rightarrow> ptr option" where
  "runner s = (if current s = 0 \<or> current s = main_coro s then None else Some (current s))"

fun sched_exec :: "'f sched_op \<Rightarrow> 'f coro_schedule \<Rightarrow> 'f coro_schedule run" where
  "sched_exec (Dispatch stack_ok f) s = run_bind (dispatch_coro stack_ok f s) (\<lambda>(_, s'). ret s')"
| "sched_exec (Timeout now ms) s = schedule_timeout now ms s"
| "sched_exec Return s = ret (coro_routine_end s)"
| "sched_exec Ask s = ret (snd (is_wakeup_by_timeout s))"
| "sched_exec (Check now) s = check_timeout_coroutine now s"
| "sched_exec Next s = ret (case run_next s of None \<Rightarrow> s | Some s' \<Rightarrow> s')"
| "sched_exec (Wake c) s = wakeup_coro c s"
| "sched_exec (Wake_first c) s = wakeup_coro_priority c s"

text \<open>When an operation may happen: the first four belong to a running coroutine (\<open>Dispatch\<close> also to the start of a
  worker), the others to the main loop; an event wakes a coroutine that sleeps. The instants of the
  timers lie within \<open>2 ^ 31\<close> milliseconds (24 days) of a new one.\<close>

fun allowed :: "'f sched_op \<Rightarrow> sched_view \<times> ptr option \<Rightarrow> bool" where
  "allowed (Dispatch stack_ok f) (v, r) \<longleftrightarrow> True"
| "allowed (Timeout now ms) (v, r) \<longleftrightarrow> r \<noteq> None \<and> timers_near (now + ms) v"
| "allowed Return (v, r) \<longleftrightarrow> r \<noteq> None"
| "allowed Ask (v, r) \<longleftrightarrow> r \<noteq> None"
| "allowed (Check now) (v, r) \<longleftrightarrow> r = None"
| "allowed Next (v, r) \<longleftrightarrow> r = None"
| "allowed (Wake c) (v, r) \<longleftrightarrow> r = None \<and> sleeps c v"
| "allowed (Wake_first c) (v, r) \<longleftrightarrow> r = None \<and> sleeps c v"

inductive sched_spec :: "'f sched_op \<Rightarrow> sched_view \<times> ptr option \<Rightarrow> sched_view \<times> ptr option \<Rightarrow> bool" where
  dispatch_idle: "v_idle v = c # xs \<Longrightarrow> sched_spec (Dispatch ok f) (v, r) (v\<lparr>v_idle := xs, v_ready := v_ready v @ [c]\<rparr>, r)"
| dispatch_new: "v_idle v = [] \<Longrightarrow> c \<noteq> 0 \<Longrightarrow> c \<notin> coroutines v \<Longrightarrow> sched_spec (Dispatch ok f) (v, r) (v\<lparr>v_ready := v_ready v @ [c]\<rparr>, r)"
| dispatch_fails: "v_idle v = [] \<Longrightarrow> sched_spec (Dispatch ok f) (v, r) (v, r)"
| sleep: "sched_spec (Timeout now ms) (v, Some c) (now_waits c (now + ms) v, None)"
| sleep_lost: "now + ms \<notin> ran (v_waiting v) \<Longrightarrow> sched_spec (Timeout now ms) (v, Some c) (v, None)"
| returns: "sched_spec Return (v, Some c) (v\<lparr>v_idle := v_idle v @ [c], v_out := remove1 c (v_out v)\<rparr>, None)"
| asks: "sched_spec Ask (v, Some c) (v, Some c)"
| expires: "due now v ds \<Longrightarrow> sched_spec (Check now) (v, None) (expire ds v, None)"
| runs: "v_ready v = c # ys \<Longrightarrow> sched_spec Next (v, None) (v\<lparr>v_ready := ys, v_out := c # v_out v\<rparr>, Some c)"
| none_ready: "v_ready v = [] \<Longrightarrow> sched_spec Next (v, None) (v, None)"
| wakes: "sleeps c v \<Longrightarrow> sched_spec (Wake c) (v, None) (unplaced c v\<lparr>v_ready := v_ready v @ [c]\<rparr>, None)"
| wakes_first: "sleeps c v \<Longrightarrow> sched_spec (Wake_first c) (v, None) (unplaced c v\<lparr>v_ready := c # v_ready v\<rparr>, None)"

inductive_cases spec_NextE: "sched_spec Next p q"
inductive_cases spec_DispatchE: "sched_spec (Dispatch ok f) p q"
inductive_cases spec_TimeoutE: "sched_spec (Timeout now ms) p q"
inductive_cases spec_ReturnE: "sched_spec Return p q"
inductive_cases spec_AskE: "sched_spec Ask p q"
inductive_cases spec_CheckE: "sched_spec (Check now) p q"
inductive_cases spec_WakeE: "sched_spec (Wake c) p q"
inductive_cases spec_Wake_firstE: "sched_spec (Wake_first c) p q"

text \<open>The state and the view: the coroutine that runs is one of those in no other place.\<close>

definition sched_state :: "'f coro_schedule \<Rightarrow> sched_view \<Rightarrow> bool" where
  "sched_state s v \<longleftrightarrow> sched_rep s v \<and> (\<forall>c. runner s = Some c \<longrightarrow> c \<in> set (v_out v))"

subsection \<open>The view is determined by the state\<close>

lemma lseg_unique: "lseg h p xs q \<Longrightarrow> lseg h p ys q \<Longrightarrow> q \<notin> set xs \<Longrightarrow> q \<notin> set ys \<Longrightarrow> xs = ys"
proof (induction xs arbitrary: p ys)
  case Nil
  then show ?case by (cases ys) auto
next
  case (Cons x xs)
  then show ?case by (cases ys) auto
qed

lemma dll_unique: "dll h head xs \<Longrightarrow> dll h head ys \<Longrightarrow> xs = ys"
  by (auto simp: dll_def intro: lseg_unique)

lemma is_tree_unique: "is_tree h q p t \<Longrightarrow> is_tree h q' p t' \<Longrightarrow> nodes t = nodes t'"
proof (induction t arbitrary: q q' p t')
  case Lf
  then show ?case by (cases t') (auto simp: node_at_def)
next
  case (Nd c l x r)
  from Nd.prems obtain c' l' r' where t': "t' = Nd c' l' x r'" by (cases t') (auto simp: node_at_def)
  with Nd.prems have "nodes l = nodes l'" "nodes r = nodes r'" using Nd.IH by auto
  with t' show ?case by simp
qed

lemma rb_holds_unique: "rb_holds h root ns \<Longrightarrow> rb_holds h root ns' \<Longrightarrow> ns = ns'"
  by (metis is_tree_unique rb_holds_tree)

lemma timers_unique:
  assumes "timers_ok s ts" and "timers_ok s ts'"
  shows "ts = ts'"
proof -
  have fst: "map fst ts = map fst ts'" using assms rb_holds_unique by (auto simp: timers_ok_def)
  then have len: "length ts = length ts'" by (metis length_map)
  have "ts ! i = ts' ! i" if i: "i < length ts" for i
  proof -
    obtain tm cs tm' cs' where t: "ts ! i = (tm, cs)" "ts' ! i = (tm', cs')" by fastforce
    have "tm' = tm" using arg_cong [OF fst, of "\<lambda>xs. xs ! i"] i len t by simp
    moreover have "timer_ok s tm cs" "timer_ok s tm' cs'"
      using timers_member [OF assms(1), of tm cs] timers_member [OF assms(2), of tm' cs'] i len t by (metis nth_mem)+
    ultimately have "map node_of cs = map node_of cs'" using rb_holds_unique by (auto simp: timer_ok_def)
    then have "cs = cs'" by (simp add: node_of_def inj_on_def map_inj_on)
    with t \<open>tm' = tm\<close> show ?thesis by simp
  qed
  with len show ?thesis by (simp add: list_eq_iff_nth_eq)
qed

lemma view_unique:
  assumes "sched_rep s v" and "sched_rep s v'"
  shows "v_idle v' = v_idle v" "v_ready v' = v_ready v" "v_waiting v' = v_waiting v"
proof -
  from assms obtain ts rest ts' rest' where rep: "timers_rep s ts rest" "v_waiting v = deadlines s ts" "sched_inv s v rest"
    "timers_rep s ts' rest'" "v_waiting v' = deadlines s ts'" "sched_inv s v' rest'" by (auto simp: sched_rep_def)
  have "ts' = ts" using rep(1,4) timers_unique by (auto simp: timers_rep_def)
  with rep show "v_waiting v' = v_waiting v" by simp
  show "v_idle v' = v_idle v" "v_ready v' = v_ready v" using rep(3,6) dll_unique by (auto simp: sched_inv_def queues_def)
qed

subsection \<open>Each operation refines its specification\<close>

text \<open>There is no node for the instant \<open>t\<close>, and none can be had.\<close>

definition no_timer :: "int \<Rightarrow> 'f coro_schedule \<Rightarrow> sched_view \<Rightarrow> bool" where
  "no_timer t s v \<longleftrightarrow> t \<notin> ran (v_waiting v) \<and> fst (memcache_alloc (cache s) (heap s)) = 0"

text \<open>Which of the cases of the specification happens, and what an operation does besides: the result of \<open>dispatch_coro\<close>, the function of a
  coroutine, the flags.\<close>

fun op_outcome :: "'f sched_op \<Rightarrow> 'f coro_schedule \<Rightarrow> sched_view \<Rightarrow> 'f coro_schedule \<Rightarrow> sched_view \<Rightarrow> bool" where
  "op_outcome (Dispatch ok f) s v s' v' \<longleftrightarrow>
     (if v_idle v = [] \<and> (curr_coro_size s = max_coro_size s \<or> fst (malloc (heap s)) = 0 \<or> \<not> ok)
      then dispatch_coro ok f s = ret (-1, s') \<and> v' = v \<and> same_code s s'
      else dispatch_coro ok f s = ret (0, s') \<and>
        (\<exists>c. v_ready v' = v_ready v @ [c] \<and> coro_func s' = (coro_func s)(c := f) \<and> \<not> active_by_timeout s' c))"
| "op_outcome (Timeout now ms) s v s' v' \<longleftrightarrow>
     v' = (if no_timer (now + ms) s v then v else now_waits (current s) (now + ms) v) \<and> active_by_timeout s' = active_by_timeout s"
| "op_outcome Return s v s' v' \<longleftrightarrow> active_by_timeout s' = active_by_timeout s"
| "op_outcome Ask s v s' v' \<longleftrightarrow> active_by_timeout s' = (active_by_timeout s)(current s := False)"
| "op_outcome (Check now) s v s' v' \<longleftrightarrow>
     (\<exists>ds. due now v ds \<and> v' = expire ds v \<and> active_by_timeout s' = (\<lambda>c. c \<in> set ds \<or> active_by_timeout s c))"
| "op_outcome Next s v s' v' \<longleftrightarrow> active_by_timeout s' = active_by_timeout s"
| "op_outcome (Wake c) s v s' v' \<longleftrightarrow> active_by_timeout s' = (active_by_timeout s)(c := False)"
| "op_outcome (Wake_first c) s v s' v' \<longleftrightarrow> active_by_timeout s' = (active_by_timeout s)(c := False)"

definition refines :: "'f sched_op \<Rightarrow> 'f coro_schedule \<Rightarrow> sched_view \<Rightarrow> bool" where
  "refines op s v \<longleftrightarrow> (\<exists>s' v'. sched_exec op s = ret s' \<and> sched_state s' v' \<and> sched_spec op (v, runner s) (v', runner s') \<and>
     op_outcome op s v s' v')"

lemma refinesI:
  assumes "sched_exec op s = ret s'" and "sched_rep s' v'" and "sched_spec op (v, runner s) (v', runner s')"
    and "\<And>c. runner s' = Some c \<Longrightarrow> c \<in> set (v_out v')" and "op_outcome op s v s' v'"
  shows "refines op s v"
  using assms unfolding refines_def sched_state_def by blast

lemma sched_rep_cong:
  assumes "sched_rep s v" and "timers_ok s' = timers_ok s" and "cache s' = cache s" "heap s' = heap s" "lists s' = lists s"
    "coro_timeout s' = coro_timeout s" and "same_frame s s'"
  shows "sched_rep s' v"
proof -
  from assms(1) obtain ts rest where rep: "timers_rep s ts rest" "v_waiting v = deadlines s ts" "sched_inv s v rest"
    by (auto simp: sched_rep_def)
  have "timers_rep s' ts rest" using rep(1) assms(2-4) by (simp add: timers_rep_def)
  moreover have "v_waiting v = deadlines s' ts" using rep(2) deadlines_cong [of s' s] assms(6) by simp
  ultimately show ?thesis
    by (rule sched_repI [OF rep(3) _ _ assms(7)]) (use rep(3) assms(5) in \<open>simp_all add: sched_inv_def\<close>)
qed

lemma flags_rep [simp]: "sched_rep (s\<lparr>active_by_timeout := f\<rparr>) v = sched_rep s v"
proof -
  have ok: "timers_ok (s\<lparr>active_by_timeout := g\<rparr>) = timers_ok s" for g s by (simp add: timers_ok_def timer_ok_def fun_eq_iff)
  have *: "sched_rep s v \<Longrightarrow> sched_rep (s\<lparr>active_by_timeout := g\<rparr>) v" for g and s :: "'a coro_schedule"
    by (erule sched_rep_cong) (simp_all add: ok same_frame_def)
  from * [of s f] * [of "s\<lparr>active_by_timeout := f\<rparr>" "active_by_timeout s"] show ?thesis by auto
qed

lemma func_rep: "sched_rep s v \<Longrightarrow> sched_rep (s\<lparr>coro_func := f\<rparr>) v"
  by (erule sched_rep_cong) (simp_all add: timers_ok_def timer_ok_def fun_eq_iff same_frame_def)

lemma runner_flags [simp]: "runner (s\<lparr>active_by_timeout := f\<rparr>) = runner s"
  by (simp add: runner_def)

lemma runner_frame: "same_frame s s' \<Longrightarrow> current s' = current s \<Longrightarrow> runner s' = runner s"
  by (simp add: runner_def same_frame_def)

lemma runner_static: "same_static s s' \<Longrightarrow> runner s' = runner s"
  by (simp add: runner_def same_static_def)

lemma wake_refines:
  assumes "sched_rep s v" and "runner s = None" and "sleeps c v"
  shows "refines (Wake c) s v" and "refines (Wake_first c) s v"
proof -
  let ?s = "s\<lparr>active_by_timeout := (active_by_timeout s)(c := False)\<rparr>"
  have s: "sched_rep ?s v" "runner ?s = None" using assms by simp_all
  from wake_correct [OF s(1) assms(3), of "\<lambda>s1. in_lists (list_add_tail c (active s1)) s1" "unplaced c v\<lparr>v_ready := v_ready v @ [c]\<rparr>"]
  obtain s' where "wakeup_coro c s = ret s'" "sched_rep s' (unplaced c v\<lparr>v_ready := v_ready v @ [c]\<rparr>)" "same_frame ?s s'" "current s' = current ?s"
    "active_by_timeout s' = active_by_timeout ?s" by (auto simp: wakeup_coro_def move_to_active_list_tail_def)
  with runner_frame [of ?s s'] s(2) assms(2,3) show "refines (Wake c) s v" by (intro refinesI) (auto intro: wakes)
  from wake_correct [OF s(1) assms(3), of "\<lambda>s1. in_lists (list_add c (active s1)) s1" "unplaced c v\<lparr>v_ready := c # v_ready v\<rparr>"]
  obtain s' where "wakeup_coro_priority c s = ret s'" "sched_rep s' (unplaced c v\<lparr>v_ready := c # v_ready v\<rparr>)" "same_frame ?s s'" "current s' = current ?s"
    "active_by_timeout s' = active_by_timeout ?s" by (auto simp: wakeup_coro_priority_def move_to_active_list_head_def)
  with runner_frame [of ?s s'] s(2) assms(2,3) show "refines (Wake_first c) s v" by (intro refinesI) (auto intro: wakes_first)
qed

lemma main_idle: "current s = main_coro s \<Longrightarrow> runner s = None"
  by (simp add: runner_def)

lemma runnerD: "runner s = Some c \<Longrightarrow> current s = c"
  by (auto simp: runner_def split: if_splits)

lemma timeout_refines:
  assumes "sched_state s v" and "runner s = Some c" and "timers_near (now + ms) v"
  shows "refines (Timeout now ms) s v"
proof -
  from assms(1,2) have "sched_rep s v" "current s = c" "c \<in> set (v_out v)" by (auto simp: sched_state_def dest: runnerD)
  from schedule_timeout_correct [OF this assms(3)] obtain s' v' where
    s': "schedule_timeout now ms s = ret s'" "sched_rep s' v'" "same_frame s s'" "current s' = main_coro s"
    "active_by_timeout s' = active_by_timeout s"
    and v': "v' = (if fst (memcache_alloc (cache s) (heap s)) = 0 \<and> now + ms \<notin> ran (v_waiting v) then v else now_waits c (now + ms) v)" by blast
  from s'(3,4) have "runner s' = None" by (intro main_idle) (simp add: same_frame_def)
  moreover have "v' = (if no_timer (now + ms) s v then v else now_waits c (now + ms) v)" unfolding v' no_timer_def by (simp only: conj_commute)
  moreover from this have "sched_spec (Timeout now ms) (v, Some c) (v', None)" by (simp add: sleep sleep_lost no_timer_def)
  ultimately show ?thesis using assms(2) s' \<open>current s = c\<close> by (intro refinesI [of _ s s' v']) simp_all
qed

lemma return_refines:
  assumes "sched_state s v" and "runner s = Some c"
  shows "refines Return s v"
proof -
  from assms have "sched_rep s v" "current s = c" "c \<in> set (v_out v)" by (auto simp: sched_state_def dest: runnerD)
  note r = coro_routine_end_view [OF this]
  have "runner (coro_routine_end s) = None" using r(2,3) by (intro main_idle) (simp add: same_frame_def)
  moreover have "active_by_timeout (coro_routine_end s) = active_by_timeout s"
    by (simp add: coro_routine_end_def move_to_idle_list_direct_def coroutine_switch_def in_lists_def Let_def)
  ultimately show ?thesis using r(1) assms(2) returns [of v c]
    by (intro refinesI [of _ s "coro_routine_end s" "v\<lparr>v_idle := v_idle v @ [c], v_out := remove1 c (v_out v)\<rparr>"]) simp_all
qed

lemma ask_refines:
  assumes "sched_state s v" and "runner s = Some c"
  shows "refines Ask s v"
  by (rule refinesI) (use assms in \<open>auto simp: sched_state_def is_wakeup_by_timeout_def intro: asks\<close>)

lemma check_refines:
  assumes "sched_state s v" and "runner s = None"
  shows "refines (Check now) s v"
proof -
  from assms(1) check_timeout_view [of s v now] obtain s' ds where
    "check_timeout_coroutine now s = ret s'" "due now v ds" "sched_rep s' (expire ds v)" "same_frame s s'" "current s' = current s"
    "active_by_timeout s' = (\<lambda>c. c \<in> set ds \<or> active_by_timeout s c)" by (auto simp: sched_state_def)
  with runner_frame [of s s'] assms(2) show ?thesis by (intro refinesI) (auto intro: expires)
qed

lemma next_step:
  assumes "sched_rep s v" and "v_ready v = c # ys"
  shows "\<exists>s'. run_next s = Some s' \<and> sched_state s' (v\<lparr>v_ready := ys, v_out := c # v_out v\<rparr>) \<and> runner s' = Some c"
proof -
  from run_next_view(2) [OF assms] obtain s' where s': "run_next s = Some s'"
    "sched_rep s' (v\<lparr>v_ready := ys, v_out := c # v_out v\<rparr>)" "same_frame s s'" "current s' = c" by blast
  from assms(1) obtain ts rest where inv: "timers_rep s ts rest" "sched_inv s v rest" by (auto simp: sched_rep_def)
  have "c \<in> coroutines v" by (simp add: coroutines_def assms(2))
  with sched_rep_blocks(2,3) [OF inv] have "c \<noteq> 0" "c \<noteq> main_coro s" by (cases "c = 0", auto)
  with s'(3,4) have "runner s' = Some c" by (simp add: runner_def same_frame_def)
  with s' show ?thesis by (simp add: sched_state_def)
qed

lemma run_next_flags: "run_next s = Some s' \<Longrightarrow> active_by_timeout s' = active_by_timeout s"
  by (auto simp: run_next_def get_active_coroutine_def coroutine_switch_def in_lists_def Let_def split: if_splits)

lemma next_refines:
  assumes "sched_state s v" and "runner s = None"
  shows "refines Next s v"
proof (cases "v_ready v")
  case Nil
  with assms run_next_view(1) [of s v] show ?thesis by (intro refinesI [of _ s s v]) (auto simp: sched_state_def intro: none_ready)
next
  case (Cons c ys)
  with next_step [of s v c ys] assms obtain s' where "run_next s = Some s'"
    "sched_state s' (v\<lparr>v_ready := ys, v_out := c # v_out v\<rparr>)" "runner s' = Some c" by (auto simp: sched_state_def)
  with assms(2) Cons show ?thesis by (intro refinesI [of _ s s']) (auto simp: sched_state_def run_next_flags intro: runs)
qed

text \<open>The end of \<open>dispatch_coro\<close>: the coroutine becomes ready.\<close>

lemma ready_view:
  assumes "sched_rep s (v\<lparr>v_out := c # v_out v\<rparr>)"
  shows "sched_rep (move_to_active_list_tail_direct c s) (v\<lparr>v_ready := v_ready v @ [c]\<rparr>)"
proof -
  let ?v = "v\<lparr>v_out := c # v_out v\<rparr>" and ?s' = "move_to_active_list_tail_direct c s" and ?v' = "v\<lparr>v_ready := v_ready v @ [c]\<rparr>"
  from assms obtain ts rest where rep: "timers_rep s ts rest" "v_waiting ?v = deadlines s ts" "sched_inv s ?v rest"
    by (auto simp: sched_rep_def)
  have p: "one_place ?v" using rep(3) by (simp add: sched_inv_def)
  then have c: "c \<in> coroutines ?v" "c \<notin> set (v_idle ?v) \<union> set (v_ready ?v)" by (auto simp: coroutines_def one_place_def)
  from queues_add_tail [OF _ sched_rep_blocks(4) [OF rep(1,3) c]] rep(3)
  have "queues (lists ?s') (idle s) (v_idle ?v') (active s) (v_ready ?v')"
    by (simp add: sched_inv_def move_to_active_list_tail_direct_def in_lists_def)
  moreover have "coroutines ?v' = coroutines ?v" by (auto simp: coroutines_def)
  moreover have "one_place ?v'" using p by (auto simp: one_place_def)
  moreover have "timers_rep ?s' ts rest"
    by (rule timers_repI [OF rep(1) [unfolded timers_rep_def, THEN conjunct1]])
      (use rep(1) in \<open>simp_all add: timers_rep_def move_to_active_list_tail_direct_def in_lists_def\<close>)
  moreover have "v_waiting ?v' = deadlines ?s' ts"
    using rep(2) deadlines_cong [of ?s' s] by (simp add: move_to_active_list_tail_direct_def in_lists_def)
  moreover have "same_frame s ?s'" by (simp add: same_frame_def move_to_active_list_tail_direct_def in_lists_def)
  ultimately show ?thesis using sched_repI [OF rep(3), of ?s' ts ?v'] by blast
qed

text \<open>Nothing idle and no room or memory: no coroutine.\<close>

lemma get_coroutine_fails:
  assumes "sched_rep s v" "v_idle v = []" "curr_coro_size s = max_coro_size s \<or> fst (malloc (heap s)) = 0 \<or> \<not> ok" "get_coroutine ok s = ret (c, s')"
  shows "c = 0"
proof -
  have "list_empty (idle s) (lists s)"
    using assms(1,2) dll_list_empty [of "lists s" "idle s" "[]"] by (auto simp: sched_rep_def sched_inv_def queues_def)
  with assms(3,4) show ?thesis
    by (cases "malloc (heap s)"; cases "free (fst (malloc (heap s))) (snd (malloc (heap s)))")
      (auto simp: get_coroutine_def create_coroutine_def run_bind_def ret_def Let_def split: if_splits)
qed

text \<open>What \<open>dispatch_coro\<close> returns and does.\<close>

lemma dispatch_view:
  assumes "sched_rep s v"
  shows "\<exists>r s' v'. dispatch_coro ok f s = ret (r, s') \<and> sched_rep s' v' \<and> same_static s s' \<and> v_out v' = v_out v \<and>
    sched_spec (Dispatch ok f) (v, q) (v', q) \<and>
    (r = -1 \<and> v' = v \<and> v_idle v = [] \<and> same_code s s' \<and>
       (curr_coro_size s = max_coro_size s \<or> fst (malloc (heap s)) = 0 \<or> \<not> ok) \<or>
     r = 0 \<and> \<not> (v_idle v = [] \<and> (curr_coro_size s = max_coro_size s \<or> fst (malloc (heap s)) = 0 \<or> \<not> ok)) \<and>
       (\<exists>c. v_ready v' = v_ready v @ [c] \<and> coro_func s' = (coro_func s)(c := f) \<and> \<not> active_by_timeout s' c))"
proof -
  have finish: ?thesis if get: "get_coroutine ok s = ret (c, s1)" "c \<noteq> 0" "sched_rep s1 (w\<lparr>v_out := c # v_out w\<rparr>)" "same_static s s1"
    "\<not> active_by_timeout s1 c" and w: "v_out w = v_out v" "v_ready w = v_ready v"
    "sched_spec (Dispatch ok f) (v, q) (w\<lparr>v_ready := v_ready w @ [c]\<rparr>, q)" for c s1 w
  proof -
    let ?s' = "move_to_active_list_tail_direct c (s1\<lparr>coro_func := (coro_func s1)(c := f)\<rparr>)"
    have "dispatch_coro ok f s = ret (0, ?s')" using get(1,2) by (simp add: dispatch_coro_def run_bind_def ret_def)
    moreover have "sched_rep ?s' (w\<lparr>v_ready := v_ready w @ [c]\<rparr>)" by (intro ready_view func_rep get(3))
    moreover have "same_static s ?s'" "coro_func ?s' = (coro_func s)(c := f)" "\<not> active_by_timeout ?s' c"
      using get(4,5) get_coroutine_keeps [OF get(1)] by (simp_all add: same_static_def same_code_def move_to_active_list_tail_direct_def in_lists_def)
    moreover have "\<not> (v_idle v = [] \<and> (curr_coro_size s = max_coro_size s \<or> fst (malloc (heap s)) = 0 \<or> \<not> ok))"
      using get_coroutine_fails [OF assms _ _ get(1)] get(2) by blast
    ultimately show ?thesis using w
      by (intro exI [of _ 0] exI [of _ ?s'] exI [of _ "w\<lparr>v_ready := v_ready w @ [c]\<rparr>"]) simp
  qed
  show ?thesis
  proof (cases "v_idle v")
    case (Cons c xs)
    from get_coroutine_idle [OF assms Cons] obtain s1 where s1: "get_coroutine ok s = ret (c, s1)"
      "sched_rep s1 (v\<lparr>v_idle := xs, v_out := c # v_out v\<rparr>)" "same_frame s s1" "current s1 = current s"
      "active_by_timeout s1 = (active_by_timeout s)(c := False)" by blast
    from assms obtain ts rest where inv: "timers_rep s ts rest" "sched_inv s v rest" by (auto simp: sched_rep_def)
    have "c \<in> coroutines v" by (simp add: coroutines_def Cons)
    with sched_rep_blocks(2) [OF inv] have "c \<noteq> 0" by (cases "c = 0") auto
    with s1 dispatch_idle [OF Cons] show ?thesis
      by (intro finish [of c s1 "v\<lparr>v_idle := xs\<rparr>"]) (auto simp: same_static_def same_frame_def)
  next
    case Nil
    from get_coroutine_new [OF assms Nil, of ok] obtain c s1 where s1: "get_coroutine ok s = ret (c, s1)" "same_static s s1"
      and c: "c = 0 \<and> sched_rep s1 v \<and> (curr_coro_size s = max_coro_size s \<or> fst (malloc (heap s)) = 0 \<or> \<not> ok) \<or>
        c \<noteq> 0 \<and> c \<notin> coroutines v \<and> sched_rep s1 (v\<lparr>v_out := c # v_out v\<rparr>) \<and> active_by_timeout s1 = (active_by_timeout s)(c := False)"
      by blast
    show ?thesis
    proof (cases "c = 0")
      case True
      with s1 have "dispatch_coro ok f s = ret (-1, s1)" by (simp add: dispatch_coro_def run_bind_def ret_def)
      with c True s1(2) Nil get_coroutine_keeps [OF s1(1)] show ?thesis
        by (intro exI [of _ "-1"] exI [of _ s1] exI [of _ v]) (auto intro: dispatch_fails)
    next
      case False
      with c s1 Nil show ?thesis by (intro finish [of c s1 v]) (auto intro: dispatch_new)
    qed
  qed
qed

lemma dispatch_refines:
  assumes st: "sched_state s v"
  shows "refines (Dispatch ok f) s v"
proof -
  let ?fails = "v_idle v = [] \<and> (curr_coro_size s = max_coro_size s \<or> fst (malloc (heap s)) = 0 \<or> \<not> ok)"
  from st have "sched_rep s v" by (simp add: sched_state_def)
  from dispatch_view [OF this, of ok f "runner s"] obtain r s' v' where
    d: "dispatch_coro ok f s = ret (r, s')" "sched_rep s' v'" "same_static s s'" "v_out v' = v_out v"
      "sched_spec (Dispatch ok f) (v, runner s) (v', runner s)"
    and out: "r = -1 \<and> v' = v \<and> same_code s s' \<and> ?fails \<or>
      r = 0 \<and> \<not> ?fails \<and> (\<exists>c. v_ready v' = v_ready v @ [c] \<and> coro_func s' = (coro_func s)(c := f) \<and> \<not> active_by_timeout s' c)" by blast
  have "op_outcome (Dispatch ok f) s v s' v'" proof (cases ?fails)
    case True
    with out d(1) have "dispatch_coro ok f s = ret (-1, s') \<and> v' = v \<and> same_code s s'" by blast
    with True show ?thesis unfolding op_outcome.simps by simp
  next
    case False
    with out d(1) have "dispatch_coro ok f s = ret (0, s') \<and> (\<exists>c. v_ready v' = v_ready v @ [c] \<and> coro_func s' = (coro_func s)(c := f) \<and> \<not> active_by_timeout s' c)"
      by blast
    then show ?thesis unfolding op_outcome.simps if_not_P [OF False] .
  qed
  moreover have "runner s' = runner s" using d(3) by (rule runner_static)
  ultimately show ?thesis using d st by (intro refinesI [of _ s s' v']) (auto simp: sched_state_def run_bind_def ret_def simp del: op_outcome.simps)
qed

lemma op_refines:
  assumes "sched_state s v" and "allowed op (v, runner s)"
  shows "refines op s v"
proof -
  have "sched_rep s v" using assms(1) by (simp add: sched_state_def)
  with assms show ?thesis
    by (cases op) (auto intro: timeout_refines return_refines ask_refines check_refines next_refines wake_refines dispatch_refines)
qed

subsection \<open>The start\<close>

definition empty_view :: sched_view where
  "empty_view = \<lparr>v_idle = [], v_ready = [], v_waiting = (\<lambda>_. None), v_out = []\<rparr>"

text \<open>The static variables are apart from each other and from the heap.\<close>

definition sched_memory :: "'f coro_schedule \<Rightarrow> bool" where
  "sched_memory s \<longleftrightarrow> alloc_ok (heap s) \<and> blocks_apart (heap s) \<and> inactive s \<notin> root_at ` blocks (heap s) \<and>
     {idle s, active s, main_coro s} \<inter> blocks (heap s) = {} \<and> idle s \<noteq> active s"

lemma free_pool_blocks: "free_pool c a = Ret a' \<Longrightarrow> blocks a' \<subseteq> blocks a"
proof (induction c a rule: free_pool.induct)
  case (1 c a)
  show ?case
  proof (cases "mc_curr c = 0")
    case True
    with "1.prems" free_blocks show ?thesis by (simp add: free_pool.simps)
  next
    case False
    obtain e c' where r: "remove_element c = (e, c')" by fastforce
    with "1.prems" False obtain a1 where a1: "free e a = Ret a1" "free_pool c' a1 = Ret a'"
      by (cases "free e a") (auto simp: free_pool.simps [of c])
    from "1.IH" [OF False r [symmetric] refl, of a1] a1 free_blocks [OF a1(1)] show ?thesis by auto
  qed
qed

lemma memcache_fill_blocks:
  assumes "memcache_fill n c a = Some (Ret (oc, a'))"
  shows "blocks a' \<subseteq> blocks a"
proof -
  have "\<forall>oc a'. r = Ret (oc, a') \<longrightarrow> blocks a' \<subseteq> blocks a" if "memcache_fill n c a = Some r" for r
  proof (rule memcache_fill.raw_induct
      [where P = "\<lambda>n c a r. \<forall>oc a'. r = Ret (oc, a') \<longrightarrow> blocks a' \<subseteq> blocks a", OF _ that])
    fix fill n c a r
    assume IH: "\<And>n c a r. fill n c a = Some r \<Longrightarrow> \<forall>oc a'. r = Ret (oc, a') \<longrightarrow> blocks a' \<subseteq> blocks a"
      and run: "(if mc_curr c < n then case malloc a of (element, a1) \<Rightarrow>
           if element = 0 then Some (cbind (free_pool c a1) (\<lambda>a2. Ret (None, a2)))
           else (case add_element c element a1 of
                   Ret (c', a2) \<Rightarrow> fill n c' a2
                 | UB \<Rightarrow> Some UB | Abort \<Rightarrow> Some Abort | Exit e \<Rightarrow> Some (Exit e))
        else Some (Ret (Some c, a))) = Some r"
    obtain e a1 where m: "malloc a = (e, a1)" by fastforce
    note b = malloc_blocks [OF m]
    show "\<forall>oc a'. r = Ret (oc, a') \<longrightarrow> blocks a' \<subseteq> blocks a"
    proof (cases "mc_curr c < n \<and> e \<noteq> 0")
      case False
      with run m b show ?thesis by (cases "free_pool c a1") (auto split: if_splits dest!: free_pool_blocks)
    next
      case True
      then show ?thesis
      proof (cases "add_element c e a1")
        case (Ret p)
        obtain c' a2 where p: "p = (c', a2)" by fastforce
        have "blocks a2 \<subseteq> blocks a1" using memcache_free_blocks [of c e a1 c' a2] Ret p by (simp add: memcache_free_def)
        moreover have "fill n c' a2 = Some r" using run True m Ret p by simp
        ultimately show ?thesis using IH b by blast
      qed (use run m True in auto)
    qed
  qed
  with assms show ?thesis by blast
qed

lemma memcache_create_blocks:
  assumes "memcache_create osz n a = Some (Ret (oc, a'))"
  shows "blocks a' \<subseteq> blocks a"
proof -
  obtain p a1 where m: "malloc a = (p, a1)" by fastforce
  with assms malloc_blocks [OF m] memcache_fill_blocks show ?thesis
    by (fastforce simp: memcache_create_def Let_def split: if_splits)
qed

lemma schedule_init_exact:
  assumes "sched_memory s"
  shows "if n < 4 then schedule_init kb n s = Some Abort
    else \<exists>oc a. memcache_create sizeof_timer_node (int (n div 2)) (heap s) = Some (Ret (oc, a)) \<and>
      (case oc of None \<Rightarrow> schedule_init kb n s = Some (Exit 0)
       | Some c \<Rightarrow> \<exists>s'. schedule_init kb n s = Some (Ret s') \<and> sched_state s' empty_view \<and> max_coro_size s' = n \<and> heap s' = a)"
proof (cases "n < 4")
  case True
  then have "\<not> 2 \<le> n div 2" by auto
  with True show ?thesis by (simp add: schedule_init_def run_bind_def memcache_create_def Let_def)
next
  case False
  have ok: "alloc_ok (heap s)" using assms by (simp add: sched_memory_def)
  from memcache_create_rep [OF ok, of "int (n div 2)" sizeof_timer_node] False obtain oc a where
    mc: "memcache_create sizeof_timer_node (int (n div 2)) (heap s) = Some (Ret (oc, a))"
      "\<And>c. oc = Some c \<Longrightarrow> mc_rep c a {} (set (a_live (heap s)))" by (force split: option.splits)
  let ?s1 = "s\<lparr>max_coro_size := n, curr_coro_size := 0, next_coro_id := 0, stack_bytes := kb * 1024, current := 0,
    lists := INIT_LIST_HEAD (active s) (INIT_LIST_HEAD (idle s) (lists s)), trees := RB_ROOT (inactive s) (trees s)\<rparr>"
  have run: "schedule_init kb n s = (case oc of None \<Rightarrow> Some (Exit 0) | Some c \<Rightarrow> ret (?s1\<lparr>cache := c, heap := a\<rparr>))"
    using False mc(1) by (simp add: schedule_init_def run_bind_def Let_def)
  show ?thesis
  proof (cases oc)
    case None
    with run False mc(1) show ?thesis by simp
  next
    case (Some c)
    let ?s' = "?s1\<lparr>cache := c, heap := a\<rparr>"
    have blk: "blocks a \<subseteq> blocks (heap s)" by (rule memcache_create_blocks [OF mc(1)])
    have "rb_holds (RB_ROOT (inactive s) (trees s)) (inactive s) []"
      by (auto simp: RB_ROOT_def rb_holds_def holds_tree_def at_pos_def is_rbt_def intro!: exI [of _ Lf])
    then have "timers_rep ?s' [] (set (a_live (heap s)))" using mc(2) [OF Some] by (simp add: timers_rep_def timers_ok_def)
    moreover have "queues (lists ?s') (idle s) [] (active s) []"
    proof -
      have "dll (INIT_LIST_HEAD (active s) (INIT_LIST_HEAD (idle s) (lists s))) (idle s) []"
        using assms by (subst dll_INIT_other) (auto simp: sched_memory_def dll_INIT)
      then show ?thesis using assms by (simp add: queues_def dll_INIT sched_memory_def)
    qed
    then have "sched_inv ?s' empty_view (set (a_live (heap s)))"
      using assms blk blocks_apart_mono [OF _ blk] by (auto simp: sched_inv_def sched_memory_def empty_view_def one_place_def coroutines_def)
    ultimately have "sched_rep ?s' empty_view"
      unfolding sched_rep_def by (intro exI [of _ "[]"] exI [of _ "set (a_live (heap s))"]) (simp add: empty_view_def deadlines_def)
    then show ?thesis using run Some False mc(1) by (simp add: ret_def sched_state_def runner_def)
  qed
qed

lemma schedule_init_cases:
  assumes "sched_memory s"
  shows "\<exists>res. schedule_init kb n s = Some res \<and>
    (if n < 4 then res = Abort else res = Exit 0 \<or> (\<exists>s'. res = Ret s' \<and> sched_state s' empty_view \<and> max_coro_size s' = n))"
  using schedule_init_exact [OF assms, of n kb] by (auto split: if_splits option.splits)

subsection \<open>Sequences of steps\<close>

text \<open>The operations of a run, each executed where the control flow allows it.\<close>

inductive sched_run :: "'f sched_op list \<Rightarrow> 'f coro_schedule \<Rightarrow> 'f coro_schedule \<Rightarrow> bool" where
  run_nil: "sched_run [] s s"
| run_cons: "sched_state s v \<Longrightarrow> allowed op (v, runner s) \<Longrightarrow> sched_exec op s = Some (Ret s1) \<Longrightarrow> sched_run ops s1 s2 \<Longrightarrow>
    sched_run (op # ops) s s2"

inductive_cases run_consE: "sched_run (op # ops) s s'"
inductive_cases run_nilE: "sched_run [] s s'"

text \<open>A step of a run, seen on the view of the state before it.\<close>

lemma run_step_view:
  assumes "sched_run (op # ops) s s'" and "sched_rep s v"
  obtains u s1 v1 where "sched_state s u" "v_idle u = v_idle v" "v_ready u = v_ready v" "v_waiting u = v_waiting v" "sched_state s1 v1"
    "sched_spec op (u, runner s) (v1, runner s1)" "op_outcome op s u s1 v1" "sched_run ops s1 s'"
proof -
  from assms(1) obtain u s1 where u: "sched_state s u" "allowed op (u, runner s)" "sched_exec op s = Some (Ret s1)" "sched_run ops s1 s'"
    by (rule run_consE)
  from op_refines [OF u(1,2)] u(3) obtain v1 where v1: "sched_state s1 v1" "sched_spec op (u, runner s) (v1, runner s1)" "op_outcome op s u s1 v1"
    by (auto simp: refines_def ret_def)
  have "sched_rep s u" using u(1) by (simp add: sched_state_def)
  note same = view_unique [OF assms(2) this]
  show thesis by (rule that [OF u(1) same v1 u(4)])
qed

text \<open>The coroutines that sleep without a timer: the running one when it asks to sleep and there is no node for it. Only an event can wake
  them.\<close>

fun lost_after :: "'f sched_op \<Rightarrow> 'f coro_schedule \<Rightarrow> sched_view \<Rightarrow> ptr set \<Rightarrow> ptr set" where
  "lost_after (Timeout now ms) s v L = (if no_timer (now + ms) s v then insert (current s) L else L)"
| "lost_after (Wake c) s v L = L - {c}"
| "lost_after (Wake_first c) s v L = L - {c}"
| "lost_after op s v L = L"

inductive sched_reach :: "'f coro_schedule \<Rightarrow> 'f coro_schedule \<Rightarrow> ptr set \<Rightarrow> bool" for s0 where
  start: "schedule_init kb n s0 = Some (Ret s) \<Longrightarrow> sched_reach s0 s {}"
| step: "sched_reach s0 s L \<Longrightarrow> sched_state s v \<Longrightarrow> set (v_out v) = L \<union> set_option (runner s) \<Longrightarrow>
    allowed op (v, runner s) \<Longrightarrow> sched_exec op s = Some (Ret s') \<Longrightarrow> sched_reach s0 s' (lost_after op s v L)"

text \<open>The coroutines that are in no list and no timer are the running one and the lost ones.\<close>

definition accounted :: "'f coro_schedule \<Rightarrow> ptr set \<Rightarrow> sched_view \<Rightarrow> bool" where
  "accounted s L v \<longleftrightarrow> sched_state s v \<and> set (v_out v) = L \<union> set_option (runner s) \<and> L \<inter> set_option (runner s) = {}"

lemma state_one_place: "sched_state s v \<Longrightarrow> one_place v"
  by (auto simp: sched_state_def sched_rep_def sched_inv_def)

lemma spec_accounted:
  assumes acc: "accounted s L v" and spec: "sched_spec op (v, runner s) (v', runner s')" and out: "op_outcome op s v s' v'"
    and st: "sched_state s' v'"
  shows "accounted s' (lost_after op s v L) v'"
proof -
  have st0: "sched_state s v" and eq: "set (v_out v) = L \<union> set_option (runner s)" and dis: "L \<inter> set_option (runner s) = {}"
    using acc by (simp_all add: accounted_def)
  have p: "distinct (v_out v)" "\<And>c. c \<in> set (v_ready v) \<Longrightarrow> c \<notin> set (v_out v)" using state_one_place [OF st0] by (auto simp: one_place_def)
  have rem: "set (remove1 c (v_out v)) = set (v_out v) - {c}" for c using p(1) by simp
  have "set (v_out v') = lost_after op s v L \<union> set_option (runner s') \<and> lost_after op s v L \<inter> set_option (runner s') = {}"
  proof (cases op)
    case (Timeout now ms)
    from spec [unfolded Timeout] obtain c where c: "runner s = Some c" "runner s' = None" by (auto elim: spec_TimeoutE)
    have "current s = c" by (rule runnerD [OF c(1)])
    with out Timeout c eq dis rem show ?thesis by (auto simp: now_waits_def)
  next
    case Next
    from spec [unfolded Next] p(2) eq dis show ?thesis unfolding Next by (auto elim!: spec_NextE)
  qed (use spec eq dis rem in \<open>auto elim!: spec_DispatchE spec_ReturnE spec_AskE spec_CheckE spec_WakeE spec_Wake_firstE simp: expire_def unplaced_def\<close>)
  with st show ?thesis by (simp add: accounted_def)
qed

lemma reach_accounted:
  assumes "sched_memory s0" and "sched_reach s0 s L"
  shows "\<exists>v. accounted s L v"
  using assms(2)
proof (induction rule: sched_reach.induct)
  case (start kb n s)
  with schedule_init_cases [OF assms(1), of kb n] have st: "sched_state s empty_view" by (auto split: if_splits)
  then have "runner s = None" by (cases "runner s") (auto simp: sched_state_def empty_view_def)
  with st show ?case by (intro exI [of _ empty_view]) (simp add: accounted_def empty_view_def)
next
  case (step s L v op s')
  from step.IH obtain u where u: "accounted s L u" by blast
  with step.hyps(2,3) have "accounted s L v" by (simp add: accounted_def)
  moreover from op_refines [OF step.hyps(2,4)] step.hyps(5) obtain v' where
    "sched_state s' v'" "sched_spec op (v, runner s) (v', runner s')" "op_outcome op s v s' v'" by (auto simp: refines_def ret_def)
  ultimately show ?case using spec_accounted by blast
qed

text \<open>The numbers add up.\<close>

lemma accounted_size:
  assumes "accounted s L v"
  shows "curr_coro_size s = length (v_idle v) + length (v_ready v) + card (dom (v_waiting v)) + card L + (if runner s = None then 0 else 1)"
    and "curr_coro_size s \<le> max_coro_size s"
proof -
  have st: "sched_state s v" and eq: "set (v_out v) = L \<union> set_option (runner s)" and dis: "L \<inter> set_option (runner s) = {}"
    using assms by (simp_all add: accounted_def)
  have size: "card (coroutines v) = curr_coro_size s" "finite (coroutines v)" and "curr_coro_size s \<le> max_coro_size s"
    using st by (auto simp: sched_state_def sched_rep_def sched_inv_def)
  then show "curr_coro_size s \<le> max_coro_size s" by simp
  have fin: "finite (dom (v_waiting v))" "finite L" using size(2) eq finite_subset [of L "set (v_out v)"] by (auto simp: coroutines_def)
  have p: "distinct (v_idle v @ v_ready v @ v_out v)" "set (v_idle v @ v_ready v @ v_out v) \<inter> dom (v_waiting v) = {}"
    using state_one_place [OF st] by (simp_all add: one_place_def)
  have "card (set_option (runner s)) = (if runner s = None then 0 else 1)" by (cases "runner s") auto
  then have "length (v_out v) = card L + (if runner s = None then 0 else 1)"
    using p(1) eq card_Un_disjoint [OF fin(2) _ dis] distinct_card [of "v_out v"] by simp
  then show "curr_coro_size s = length (v_idle v) + length (v_ready v) + card (dom (v_waiting v)) + card L + (if runner s = None then 0 else 1)"
    using card_Un_disjoint [OF _ fin(1) p(2)] distinct_card [OF p(1)] size(1) by (simp add: coroutines_def)
qed

text \<open>The operations that happen inside \<open>run_active_coroutine\<close>.\<close>

fun run_phase :: "'f sched_op \<Rightarrow> bool" where
  "run_phase (Dispatch stack_ok f) \<longleftrightarrow> True"
| "run_phase (Timeout now ms) \<longleftrightarrow> True"
| "run_phase Return \<longleftrightarrow> True"
| "run_phase Ask \<longleftrightarrow> True"
| "run_phase Next \<longleftrightarrow> True"
| "run_phase _ \<longleftrightarrow> False"

fun is_next :: "'f sched_op \<Rightarrow> bool" where
  "is_next Next \<longleftrightarrow> True"
| "is_next _ \<longleftrightarrow> False"

lemma run_phase_ready:
  assumes "sched_spec op (v, r) (v', r')" and "run_phase op" and "v_ready v \<noteq> []"
  shows "\<exists>zs. v_ready v' = (if is_next op then tl (v_ready v) else v_ready v) @ zs"
  using assms by (cases op) (auto elim!: spec_NextE spec_DispatchE spec_TimeoutE spec_ReturnE spec_AskE simp: now_waits_def)

lemma run_ready:
  assumes "sched_run ops s s'" and "\<forall>op \<in> set ops. run_phase op" and "sched_state s v" and "v_ready v = xs @ c # ys"
    and "length (filter is_next ops) = length xs"
  shows "\<exists>v' zs. sched_state s' v' \<and> v_ready v' = c # zs"
  using assms
proof (induction ops arbitrary: s v xs ys)
  case Nil
  then show ?case by (auto elim: run_nilE)
next
  case (Cons op ops)
  have "sched_rep s v" using Cons.prems(3) by (simp add: sched_state_def)
  from run_step_view [OF Cons.prems(1) this] obtain u s1 v1 where u: "v_ready u = v_ready v"
    and step: "sched_state s1 v1" "sched_spec op (u, runner s) (v1, runner s1)" "sched_run ops s1 s'" by metis
  from run_phase_ready [OF step(2)] Cons.prems(2,4) u obtain zs where
    zs: "v_ready v1 = (if is_next op then tl (xs @ c # ys) else xs @ c # ys) @ zs" by auto
  show ?case
  proof (cases "is_next op")
    case True
    with Cons.prems(5) obtain x xs' where "xs = x # xs'" by (cases xs) auto
    with True zs Cons.prems(2,5) Cons.IH [OF step(3) _ step(1), of xs' "ys @ zs"] show ?thesis by auto
  next
    case False
    with zs Cons.prems(2,5) Cons.IH [OF step(3) _ step(1), of xs "ys @ zs"] show ?thesis by auto
  qed
qed

text \<open>A coroutine that waits for the instant \<open>d\<close> keeps waiting unless it is woken or a check comes at or after \<open>d\<close>.\<close>

fun leaves_asleep :: "ptr \<Rightarrow> int \<Rightarrow> 'f sched_op \<Rightarrow> bool" where
  "leaves_asleep c d (Check t) \<longleftrightarrow> t < d"
| "leaves_asleep c d (Wake e) \<longleftrightarrow> e \<noteq> c"
| "leaves_asleep c d (Wake_first e) \<longleftrightarrow> e \<noteq> c"
| "leaves_asleep c d op \<longleftrightarrow> True"

lemma spec_asleep:
  assumes st: "sched_state s v" and spec: "sched_spec op (v, runner s) (v', r')" and w: "v_waiting v c = Some d" and "leaves_asleep c d op"
  shows "v_waiting v' c = Some d"
proof (cases op)
  case (Timeout now ms)
  have "e \<noteq> c" if "runner s = Some e" for e
    using st state_one_place [OF st] w that by (auto simp: sched_state_def one_place_def)
  with spec [unfolded Timeout] w show ?thesis by (auto elim!: spec_TimeoutE simp: now_waits_def)
next
  case (Check t)
  with spec w assms(4) show ?thesis by (auto elim!: spec_CheckE simp: expire_def due_def)
qed (use spec w assms(4) in \<open>auto elim!: spec_DispatchE spec_ReturnE spec_AskE spec_NextE spec_WakeE spec_Wake_firstE simp: unplaced_def\<close>)

lemma run_asleep:
  assumes "sched_run ops s s'" and "\<forall>op \<in> set ops. leaves_asleep c d op" and "sched_state s v" and "v_waiting v c = Some d"
  shows "\<exists>v'. sched_state s' v' \<and> v_waiting v' c = Some d"
  using assms
proof (induction ops arbitrary: s v)
  case Nil
  then show ?case by (auto elim: run_nilE)
next
  case (Cons op ops)
  have "sched_rep s v" using Cons.prems(3) by (simp add: sched_state_def)
  from run_step_view [OF Cons.prems(1) this] obtain u s1 v1 where u: "sched_state s u" "v_waiting u = v_waiting v"
    and step: "sched_state s1 v1" "sched_spec op (u, runner s) (v1, runner s1)" "sched_run ops s1 s'" by metis
  from spec_asleep [OF u(1) step(2)] u(2) Cons.prems(2,4) have "v_waiting v1 c = Some d" by simp
  with Cons.IH [OF step(3) _ step(1)] Cons.prems(2) show ?case by simp
qed

subsection \<open>Properties\<close>

text \<open>C11. The scheduler implements its specification. In every state of the scheduler that represents a view (idle, ready
  and waiting coroutines, and the one that runs), each operation that the control flow allows returns - no loop
  over a timer tree runs forever, nothing is freed that is not allocated, no node of a tree is used after it was
  released - and the new state represents the view the specification gives: \<open>dispatch_coro\<close> appends a
  coroutine to the ready ones, \<open>schedule_timeout\<close> lets the running one wait until its instant, \<open>check_timeout_coroutine\<close> makes
  exactly the due ones ready, earliest first, a wake-up takes a sleeping one out of its timer. The cases in which \<open>dispatch_coro\<close> fails or
  a sleeper gets no timer happen exactly when room or memory is missing, and \<open>op_outcome\<close> adds what is not in the view: the value
  \<open>dispatch_coro\<close> returns, the function of the new coroutine and the flag \<open>active_by_timeout\<close>.\<close>

theorem scheduler_refines_spec:
  assumes "sched_state s v" and "allowed op (v, runner s)"
  shows "\<exists>s' v'. sched_exec op s = Some (Ret s') \<and> sched_state s' v' \<and> sched_spec op (v, runner s) (v', runner s') \<and> op_outcome op s v s' v'"
  using op_refines [OF assms] by (simp add: refines_def ret_def)

definition test_sched :: "nat coro_schedule" where
  "test_sched = \<lparr>max_coro_size = 0, curr_coro_size = 0, next_coro_id = 0, stack_bytes = 0, main_coro = 8, current = 0, idle = 16,
     active = 20, inactive = 36, cache = \<lparr>mc_addr = 0, mc_elements = [], mc_obj_size = 0, mc_cache_size = 0, mc_curr = 0\<rparr>,
     heap = \<lparr>a_supply = [1024, 2048, 4096, 8192], a_live = []\<rparr>, lists = \<lparr>l_next = (\<lambda>_. 0), l_prev = (\<lambda>_. 0)\<rparr>, trees = empty_rb,
     coro_id = (\<lambda>_. 0), coro_timeout = (\<lambda>_. 0), active_by_timeout = (\<lambda>_. False), coro_func = (\<lambda>_. 0), tm_timeout = (\<lambda>_. 0)\<rparr>"

lemma test_sched_memory: "sched_memory test_sched"
  by (auto simp: sched_memory_def test_sched_def alloc_ok_def blocks_apart_def blocks_def node_of_def root_at_def)

definition test_started :: "nat coro_schedule" where
  "test_started = test_sched\<lparr>max_coro_size := 4, curr_coro_size := 0, next_coro_id := 0, stack_bytes := 65536, current := 0,
     lists := INIT_LIST_HEAD 20 (INIT_LIST_HEAD 16 (lists test_sched)), trees := RB_ROOT 36 empty_rb,
     cache := \<lparr>mc_addr = 1024, mc_elements = [0, 0], mc_obj_size = 40, mc_cache_size = 2, mc_curr = 0\<rparr>,
     heap := \<lparr>a_supply = [2048, 4096, 8192], a_live = [1024]\<rparr>\<rparr>"

lemma two_slots: "replicate 2 x = [x, x]"
  by (simp add: numeral_2_eq_2)

lemma test_sched_started: "schedule_init 64 4 test_sched = Some (Ret test_started)"
  by (simp add: schedule_init_def test_started_def test_sched_def memcache_create_def malloc_def memcache_fill.simps run_bind_def
      ret_def drop_bit_eq_div sizeof_timer_node_def two_slots)

lemma test_started_state: "sched_state test_started empty_view"
  using schedule_init_cases [OF test_sched_memory, of 64 4] by (simp add: test_sched_started)

lemma test_started_runner: "runner test_started = None"
  by (simp add: runner_def test_started_def)

theorem scheduler_refines_spec_witness:
  "\<exists>s' v'. sched_exec (Dispatch True (7 :: nat)) test_started = Some (Ret s') \<and> sched_state s' v' \<and>
    sched_spec (Dispatch True (7 :: nat)) (empty_view, None) (v', runner s')"
  using scheduler_refines_spec [OF test_started_state, of "Dispatch True 7"] test_started_runner by auto

text \<open>C12. From \<open>schedule_init\<close> on, whatever coroutines, the main loop and events do: every coroutine is in exactly one
  place - idle, ready, waiting for one instant, running, or lost -, and the number of coroutines created is the sum of these and never more than
  the limit allows. Lost are exactly those in \<open>L\<close>: a coroutine gets there when it asks to sleep and there is no timer node for it (a defect
  of \<open>move_to_inactive_tree\<close>), and leaves when an event wakes it; no other operation loses a coroutine. The next
  operation the control flow allows succeeds.\<close>

theorem scheduler_invariant:
  assumes "sched_memory s0" and "sched_reach s0 s L"
  shows "\<exists>v. sched_state s v \<and> one_place v \<and> set (v_out v) = L \<union> set_option (runner s) \<and> L \<inter> set_option (runner s) = {} \<and>
    curr_coro_size s = length (v_idle v) + length (v_ready v) + card (dom (v_waiting v)) + card L + (if runner s = None then 0 else 1) \<and>
    curr_coro_size s \<le> max_coro_size s \<and>
    (\<forall>op. allowed op (v, runner s) \<longrightarrow> (\<exists>s'. sched_exec op s = Some (Ret s') \<and> sched_reach s0 s' (lost_after op s v L)))"
proof -
  from reach_accounted [OF assms] obtain v where v: "accounted s L v" by blast
  then have st: "sched_state s v" "set (v_out v) = L \<union> set_option (runner s)" "L \<inter> set_option (runner s) = {}" by (simp_all add: accounted_def)
  have "\<exists>s'. sched_exec op s = Some (Ret s') \<and> sched_reach s0 s' (lost_after op s v L)" if "allowed op (v, runner s)" for op
    using op_refines [OF st(1) that] step [OF assms(2) st(1,2) that] by (auto simp: refines_def ret_def)
  with st accounted_size [OF v] state_one_place [OF st(1)] show ?thesis by blast
qed

theorem scheduler_invariant_witness:
  "\<exists>v s'. sched_state test_started v \<and> v_out v = [] \<and> sched_exec (Dispatch True (7 :: nat)) test_started = Some (Ret s') \<and> sched_reach test_sched s' {}"
proof -
  from scheduler_invariant [OF test_sched_memory start [OF test_sched_started]] test_started_runner obtain v where
    v: "sched_state test_started v" "v_out v = []"
    "\<forall>op. allowed op (v, None) \<longrightarrow> (\<exists>s'. sched_exec op test_started = Some (Ret s') \<and> sched_reach test_sched s' (lost_after op test_started v {}))" by auto
  have "allowed (Dispatch True 7) (v, None)" by simp
  with v(3) obtain s' where "sched_exec (Dispatch True 7) test_started = Some (Ret s')" "sched_reach test_sched s' (lost_after (Dispatch True 7) test_started v {})"
    by blast
  with v(1,2) show ?thesis by (intro exI [of _ v] exI [of _ s']) simp
qed

text \<open>\<open>schedule_init\<close> establishes the invariant with no coroutine, or ends the process with status 0 when memory runs
  out. It fails an assertion when fewer than four coroutines are asked for: its own assertion asks for two,
  but the pool of timer nodes it creates has half as many slots and needs two.\<close>

theorem scheduler_start:
  assumes "sched_memory s"
  shows "if n < 4 then schedule_init kb n s = Some Abort
    else schedule_init kb n s = Some (Exit 0) \<or>
      (\<exists>s'. schedule_init kb n s = Some (Ret s') \<and> sched_state s' empty_view \<and> max_coro_size s' = n)"
  using schedule_init_cases [OF assms, of kb n] by auto

theorem scheduler_start_witness: "schedule_init 64 3 test_sched = Some Abort"
  using scheduler_start [OF test_sched_memory, where n = 3 and kb = 64] by simp

text \<open>C13. A sleeping coroutine is woken in time, provided it got a timer: when the running coroutine calls \<open>schedule_timeout\<close> and a timer node is
  available, or one for that instant exists already, it waits. It keeps waiting whatever happens then - other coroutines run, sleep, are
  dispatched and return, other sleepers are woken, checks before its instant - as long as no event wakes it. A \<open>check_timeout_coroutine\<close> at a time
  before its instant leaves it alone; the first one from its instant on makes it ready and marks it as woken by the timeout. (Without a timer node it
  is lost: C12.)\<close>

theorem sleeper_is_woken:
  assumes "sched_state s v" and "runner s = Some c" and "timers_near (now + ms) v"
    and "fst (memcache_alloc (cache s) (heap s)) \<noteq> 0 \<or> now + ms \<in> ran (v_waiting v)"
  shows "\<exists>s1. schedule_timeout now ms s = Some (Ret s1) \<and> runner s1 = None \<and>
    (\<forall>ops s2. sched_run ops s1 s2 \<and> (\<forall>op \<in> set ops. leaves_asleep c (now + ms) op) \<and> runner s2 = None \<longrightarrow>
      (\<exists>s3 v3. check_timeout_coroutine t s2 = Some (Ret s3) \<and> sched_state s3 v3 \<and>
        (if now + ms \<le> t then c \<in> set (v_ready v3) \<and> active_by_timeout s3 c else v_waiting v3 c = Some (now + ms))))"
proof -
  from timeout_refines [OF assms(1-3)] assms(4) obtain s1 v1 where
    s1: "schedule_timeout now ms s = Some (Ret s1)" "sched_state s1 v1" "v1 = now_waits c (now + ms) v" "runner s1 = None"
    using assms(2) by (auto simp: refines_def ret_def no_timer_def runnerD elim: spec_TimeoutE)
  have "\<exists>s3 v3. check_timeout_coroutine t s2 = Some (Ret s3) \<and> sched_state s3 v3 \<and>
        (if now + ms \<le> t then c \<in> set (v_ready v3) \<and> active_by_timeout s3 c else v_waiting v3 c = Some (now + ms))"
    if run: "sched_run ops s1 s2" "\<forall>op \<in> set ops. leaves_asleep c (now + ms) op" and none: "runner s2 = None" for ops s2
  proof -
    have "v_waiting v1 c = Some (now + ms)" by (simp add: s1(3) now_waits_def)
    from run_asleep [OF run s1(2) this] obtain v2 where v2: "sched_state s2 v2" "v_waiting v2 c = Some (now + ms)" by blast
    from check_refines [OF v2(1) none, of t] obtain s3 v3 ds where s3: "check_timeout_coroutine t s2 = Some (Ret s3)" "sched_state s3 v3"
      "due t v2 ds" "v3 = expire ds v2" "active_by_timeout s3 = (\<lambda>c. c \<in> set ds \<or> active_by_timeout s2 c)" by (auto simp: refines_def ret_def)
    have "c \<in> set ds \<longleftrightarrow> now + ms \<le> t" using s3(3) v2(2) by (auto simp: due_def)
    with s3 v2(2) show ?thesis by (auto simp: expire_def)
  qed
  with s1(1,4) show ?thesis by blast
qed

text \<open>A state in which a coroutine runs: the first one, dispatched and switched to.\<close>

lemma test_dispatch:
  "\<exists>s. dispatch_coro True 7 test_started = ret (0, s) \<and> cache s = cache test_started \<and> heap s = \<lparr>a_supply = [4096, 8192], a_live = [2048, 1024]\<rparr>"
proof -
  have "list_empty (idle test_started) (lists test_started)"
    by (simp add: test_started_def test_sched_def list_empty_def list_op_defs)
  then show ?thesis
    by (simp add: dispatch_coro_def get_coroutine_def create_coroutine_def run_bind_def ret_def malloc_def coroutine_init_def
        in_lists_def move_to_active_list_tail_direct_def test_started_def Let_def)
qed

lemma test_ready:
  "\<exists>(s :: nat coro_schedule) v c. sched_state s v \<and> runner s = None \<and> v_ready v = [c] \<and> ran (v_waiting v) = {} \<and> cache s = cache test_started \<and>
    heap s = \<lparr>a_supply = [4096, 8192], a_live = [2048, 1024]\<rparr>"
proof -
  from test_dispatch obtain s where d: "dispatch_coro True (7 :: nat) test_started = ret (0, s)" "cache s = cache test_started"
    "heap s = \<lparr>a_supply = [4096, 8192], a_live = [2048, 1024]\<rparr>" by blast
  have "sched_rep test_started empty_view" using test_started_state by (simp add: sched_state_def)
  from dispatch_view [OF this, of True 7 None] d(1) obtain v c where v: "sched_rep s v" "same_static test_started s"
    "sched_spec (Dispatch True (7 :: nat)) (empty_view, None) (v, None)" "v_ready v = [c]" by (auto simp: ret_def empty_view_def)
  have w: "ran (v_waiting v) = {}" using v(3) by (auto elim: spec_DispatchE simp: empty_view_def)
  have n: "runner s = None" using runner_static [OF v(2)] test_started_runner by simp
  with v(1) have "sched_state s v" by (simp add: sched_state_def)
  with n v(4) w d(2,3) show ?thesis by blast
qed

lemma test_running:
  "\<exists>(s :: nat coro_schedule) v c. sched_state s v \<and> runner s = Some c \<and> ran (v_waiting v) = {} \<and> fst (memcache_alloc (cache s) (heap s)) \<noteq> 0"
proof -
  from test_ready obtain s :: "nat coro_schedule" and v c where s: "sched_state s v" "v_ready v = [c]" "ran (v_waiting v) = {}" "cache s = cache test_started"
    "heap s = \<lparr>a_supply = [4096, 8192], a_live = [2048, 1024]\<rparr>" by blast
  from next_step [of s v c "[]"] s(1,2) obtain s' where s': "run_next s = Some s'" "sched_state s' (v\<lparr>v_ready := [], v_out := c # v_out v\<rparr>)"
    "runner s' = Some c" by (auto simp: sched_state_def)
  from s'(1) have "cache s' = cache s" "heap s' = heap s"
    by (auto simp: run_next_def get_active_coroutine_def coroutine_switch_def in_lists_def Let_def split: if_splits)
  then have "fst (memcache_alloc (cache s') (heap s')) \<noteq> 0" by (simp add: s(4,5) test_started_def memcache_alloc_def malloc_def)
  moreover have "ran (v_waiting (v\<lparr>v_ready := [], v_out := c # v_out v\<rparr>)) = {}" using s(3) by simp
  ultimately show ?thesis using s'(2,3) by blast
qed

theorem sleeper_is_woken_witness:
  "\<exists>(s :: nat coro_schedule) s1 s2 s3 c v3. runner s = Some c \<and> schedule_timeout 1000 200 s = Some (Ret s1) \<and>
    check_timeout_coroutine 1100 s1 = Some (Ret s2) \<and> check_timeout_coroutine 1200 s2 = Some (Ret s3) \<and>
    sched_state s3 v3 \<and> c \<in> set (v_ready v3) \<and> active_by_timeout s3 c"
proof -
  from test_running obtain s :: "nat coro_schedule" and v c where s: "sched_state s v" "runner s = Some c" "ran (v_waiting v) = {}"
    "fst (memcache_alloc (cache s) (heap s)) \<noteq> 0" by blast
  have near: "timers_near (1000 + 200) v" by (simp add: timers_near_def s(3))
  from sleeper_is_woken [OF s(1,2) near, of 1200] s(4) obtain s1 where s1: "schedule_timeout 1000 200 s = Some (Ret s1)" "runner s1 = None"
    "\<forall>ops s2. sched_run ops s1 s2 \<and> (\<forall>op \<in> set ops. leaves_asleep c 1200 op) \<and> runner s2 = None \<longrightarrow>
      (\<exists>s3 v3. check_timeout_coroutine 1200 s2 = Some (Ret s3) \<and> sched_state s3 v3 \<and> c \<in> set (v_ready v3) \<and> active_by_timeout s3 c)" by auto
  from timeout_refines [OF s(1,2) near] s1(1) obtain v1 where v1: "sched_state s1 v1" by (auto simp: refines_def ret_def)
  from check_refines [OF v1 s1(2), of 1100] s1(2) obtain s2 where s2: "check_timeout_coroutine 1100 s1 = Some (Ret s2)" "runner s2 = None"
    by (auto simp: refines_def ret_def elim: spec_CheckE)
  have "sched_run [Check 1100] s1 s2" by (rule run_cons [OF v1 _ _ run_nil]) (use s1(2) s2(1) in simp_all)
  moreover have "\<forall>op \<in> set [Check 1100]. leaves_asleep c 1200 op" by simp
  ultimately obtain s3 v3 where "check_timeout_coroutine 1200 s2 = Some (Ret s3)" "sched_state s3 v3" "c \<in> set (v_ready v3)" "active_by_timeout s3 c"
    using s1(3) s2(2) by blast
  with s(2) s1(1) s2(1) show ?thesis by blast
qed

text \<open>C14. The ready coroutines run in turn. While \<open>run_active_coroutine\<close> runs - coroutines are switched to, dispatch others,
  go to sleep or return; timers and events are handled by the main loop outside of it -, the coroutine at position \<open>n\<close> of the ready list is at its
  head after \<open>n\<close> switches, and the next switch gives it the processor: coroutines dispatched meanwhile do not overtake it. (A wake-up with
  \<open>wakeup_coro_priority\<close>, between two such phases, does put a coroutine in front.)\<close>

theorem ready_run_in_turn:
  assumes "sched_state s v" and "v_ready v = xs @ c # ys"
    and "sched_run ops s s'" and "\<forall>op \<in> set ops. run_phase op" and "length (filter is_next ops) = length xs"
  shows "\<exists>s''. run_next s' = Some s'' \<and> runner s'' = Some c"
proof -
  from run_ready [OF assms(3,4,1,2,5)] obtain v' zs where v': "sched_state s' v'" "v_ready v' = c # zs" by blast
  with next_step [of s' v' c zs] show ?thesis by (auto simp: sched_state_def)
qed

text \<open>One coroutine is ready, another one is dispatched: the first is switched to.\<close>

theorem ready_run_in_turn_witness:
  "\<exists>(s :: nat coro_schedule) v c s' s''. sched_state s v \<and> v_ready v = [c] \<and> sched_exec (Dispatch True 8) s = Some (Ret s') \<and>
    run_next s' = Some s'' \<and> runner s'' = Some c"
proof -
  from test_ready obtain s :: "nat coro_schedule" and v c where s: "sched_state s v" "v_ready v = [c]" by blast
  from dispatch_refines [OF s(1), of True 8] obtain s' where s': "sched_exec (Dispatch True 8) s = Some (Ret s')" by (auto simp: refines_def ret_def)
  have "sched_run [Dispatch True 8] s s'" by (rule run_cons [OF s(1) _ s' run_nil]) simp
  from ready_run_in_turn [OF s(1) _ this, of "[]" c "[]"] s(2) obtain s'' where "run_next s' = Some s''" "runner s'' = Some c" by auto
  with s s' show ?thesis by blast
qed

text \<open>The main loop never sleeps past a timer: the time \<open>get_recent_timespan\<close> gives to \<open>epoll_wait\<close> is ten seconds when no
  coroutine waits, and otherwise the time to the earliest instant, or zero when it has passed.\<close>

theorem timespan_is_earliest:
  assumes "sched_state s v" and "\<forall>d \<in> ran (v_waiting v). in_int32 (d - now)"
  shows "\<exists>w. get_recent_timespan now s = Some w \<and>
    (if ran (v_waiting v) = {} then w = 10000
     else 0 \<le> w \<and> (\<exists>d \<in> ran (v_waiting v). w = max 0 (d - now)) \<and> (\<forall>d \<in> ran (v_waiting v). w \<le> max 0 (d - now)))"
proof -
  from assms(1) obtain ts rest where rep: "timers_rep s ts rest" "v_waiting v = deadlines s ts"
    by (auto simp: sched_state_def sched_rep_def)
  have ok: "timers_ok s ts" using rep(1) by (simp add: timers_rep_def)
  note recent = recent_timer [OF ok]
  show ?thesis
  proof (cases ts)
    case Nil
    then have "ran (v_waiting v) = {}" by (simp add: rep(2) deadlines_def)
    with Nil recent show ?thesis by (simp add: get_recent_timespan_def)
  next
    case (Cons t us)
    obtain tm cs where t: "t = (tm, cs)" by fastforce
    have tm: "timer_ok s tm cs" "tm \<noteq> 0" using timers_member [OF ok, of tm cs] timers_distinct [OF ok] by (auto simp: Cons t)
    then obtain c where c: "c \<in> set cs" "coro_timeout s c = tm_timeout s tm" by (cases cs) (auto simp: timer_ok_def)
    then have first: "tm_timeout s tm \<in> ran (v_waiting v)" by (auto simp: rep(2) deadlines_def ran_def Cons t)
    have least: "tm_timeout s tm \<le> d" if "d \<in> ran (v_waiting v)" for d
      using deadlines_nodes [OF ok] that ok by (fastforce simp: rep(2) Cons t timers_ok_def)
    have "get_recent_timespan now s = Some (max 0 (tm_timeout s tm - now))"
      using recent tm(2) assms(2) first by (simp add: get_recent_timespan_def Cons t to_int32_exact max_def)
    then show ?thesis using first least by force
  qed
qed

theorem timespan_is_earliest_witness: "\<exists>w. get_recent_timespan 0 test_started = Some w \<and> w = 10000"
  using timespan_is_earliest [OF test_started_state] by (simp add: empty_view_def)

end
