(* ===== verification/Event.thy ===== *)
theory Event
  imports Sched_Run
begin

text \<open>
  \<open>event.c\<close>: the table of descriptors a worker waits for, and the call of their callbacks. The kernel's
  side of \<open>epoll\<close> is the table \<open>interest\<close> of registered descriptors with their events: adding one that is
  registered and changing or removing one that is not fail, as \<open>epoll_ctl\<close> documents; the argument \<open>able\<close>
  of a call says whether the kernel has the resources for it. The elements of \<open>array\<close> beyond \<open>max_conn\<close> or
  below 0 do not exist. A callback is of a type \<open>'p\<close>; \<open>None\<close> is \<open>NULL\<close>.
\<close>

record 'p fd_event =
  fe_mask :: nat
  fe_proc :: "'p option"
  fe_args :: ptr

record 'p event_loop =
  max_conn :: int
  fd_array :: "int \<Rightarrow> 'p fd_event"
  interest :: "int \<Rightarrow> nat option"

definition EVENT_NONE :: nat where "EVENT_NONE = 0"

definition EVENT_READABLE :: nat where "EVENT_READABLE = 1"

definition EVENT_WRITABLE :: nat where "EVENT_WRITABLE = 2"

definition EPOLLIN :: nat where "EPOLLIN = 1"

definition EPOLLOUT :: nat where "EPOLLOUT = 4"

datatype epoll_op = EPOLL_CTL_ADD | EPOLL_CTL_MOD | EPOLL_CTL_DEL

fun epoll_ctl :: "bool \<Rightarrow> epoll_op \<Rightarrow> int \<Rightarrow> nat \<Rightarrow> 'p event_loop \<Rightarrow> int \<times> 'p event_loop" where
  "epoll_ctl able EPOLL_CTL_ADD fd events e =
     (if \<not> able \<or> interest e fd \<noteq> None then (-1, e) else (0, e\<lparr>interest := (interest e)(fd \<mapsto> events)\<rparr>))"
| "epoll_ctl able EPOLL_CTL_MOD fd events e =
     (if \<not> able \<or> interest e fd = None then (-1, e) else (0, e\<lparr>interest := (interest e)(fd \<mapsto> events)\<rparr>))"
| "epoll_ctl able EPOLL_CTL_DEL fd events e =
     (if \<not> able \<or> interest e fd = None then (-1, e) else (0, e\<lparr>interest := (interest e)(fd := None)\<rparr>))"

text \<open>The events of a mask, as both functions compute them.\<close>

definition epoll_events :: "nat \<Rightarrow> nat" where
  "epoll_events msk =
     (let events = 0;
          events = (if msk AND EVENT_READABLE \<noteq> 0 then events OR EPOLLIN else events)
      in if msk AND EVENT_WRITABLE \<noteq> 0 then events OR EPOLLOUT else events)"

definition add_fd_event :: "bool \<Rightarrow> int \<Rightarrow> nat \<Rightarrow> 'p \<Rightarrow> ptr \<Rightarrow> 'p event_loop \<Rightarrow> (int \<times> 'p event_loop) cres" where
  "add_fd_event able fd what proc args e =
     (if fd \<ge> max_conn e then Ret (-1, e)
      else if fd < 0 then UB
      else
        let fe = fd_array e fd;
            op = (if EVENT_NONE = fe_mask fe then EPOLL_CTL_ADD else EPOLL_CTL_MOD);
            msk = what OR fe_mask fe
        in case epoll_ctl able op fd (epoll_events msk) e of (res, e1) \<Rightarrow>
             if -1 = res then Ret (-2, e1)
             else Ret (0, e1\<lparr>fd_array := (fd_array e1)(fd := fe\<lparr>fe_mask := fe_mask fe OR what, fe_proc := Some proc, fe_args := args\<rparr>)\<rparr>))"

text \<open>\<open>mask & ~what\<close> is written as \<open>mask - (mask AND what)\<close>.\<close>

definition del_fd_event :: "bool \<Rightarrow> int \<Rightarrow> nat \<Rightarrow> 'p event_loop \<Rightarrow> 'p event_loop cres" where
  "del_fd_event able fd what e =
     (if fd \<ge> max_conn e then Ret e
      else if fd < 0 then UB
      else
        let fe = fd_array e fd in
        if EVENT_NONE = fe_mask fe then Ret e
        else
          let msk = fe_mask fe - (fe_mask fe AND what);
              e1 = e\<lparr>fd_array := (fd_array e)(fd := fe\<lparr>fe_mask := msk\<rparr>)\<rparr>
          in Ret (snd (epoll_ctl able (if msk = EVENT_NONE then EPOLL_CTL_DEL else EPOLL_CTL_MOD) fd (epoll_events msk) e1)))"

text \<open>\<open>fds\<close> are the descriptors that \<open>epoll_wait\<close> reports; \<open>call\<close> runs a callback, which does not change the table.\<close>

fun event_cycle :: "('p \<Rightarrow> ptr \<Rightarrow> 's \<Rightarrow> 's run) \<Rightarrow> int list \<Rightarrow> 'p event_loop \<Rightarrow> 's \<Rightarrow> 's run" where
  "event_cycle call [] e s = ret s"
| "event_cycle call (fd # fds) e s =
     (case fe_proc (fd_array e fd) of
        None \<Rightarrow> Some UB
      | Some proc \<Rightarrow> run_bind (call proc (fe_args (fd_array e fd)) s) (event_cycle call fds e))"

text \<open>The arguments say whether \<open>calloc\<close>, \<open>epoll_create\<close> and \<open>malloc\<close> succeed.\<close>

definition event_loop_init :: "bool \<Rightarrow> bool \<Rightarrow> bool \<Rightarrow> int \<Rightarrow> 'p event_loop cres" where
  "event_loop_init array_ok epoll_ok ev_ok n =
     (if n + 128 > INT_MAX then UB
      else if \<not> array_ok then Exit 0
      else if \<not> epoll_ok then Exit 0
      else if \<not> ev_ok then Exit 0
      else Ret \<lparr>max_conn = n + 128, fd_array = (\<lambda>_. \<lparr>fe_mask = EVENT_NONE, fe_proc = None, fe_args = 0\<rparr>), interest = (\<lambda>_. None)\<rparr>)"

subsection \<open>The table and the kernel agree\<close>

definition watched :: "'p event_loop \<Rightarrow> int \<Rightarrow> bool" where
  "watched e fd \<longleftrightarrow> fe_mask (fd_array e fd) \<noteq> EVENT_NONE"

definition fd_ok :: "int \<Rightarrow> int \<Rightarrow> 'p fd_event \<Rightarrow> nat option \<Rightarrow> bool" where
  "fd_ok n fd fe events \<longleftrightarrow>
     (if fe_mask fe \<noteq> EVENT_NONE then 0 \<le> fd \<and> fd < n \<and> fe_proc fe \<noteq> None \<and> events = Some (epoll_events (fe_mask fe))
      else events = None)"

definition loop_ok :: "'p event_loop \<Rightarrow> bool" where
  "loop_ok e \<longleftrightarrow> (\<forall>fd. fd_ok (max_conn e) fd (fd_array e fd) (interest e fd))"

lemma loop_okD: "loop_ok e \<Longrightarrow> fd_ok (max_conn e) fd (fd_array e fd) (interest e fd)"
  by (simp add: loop_ok_def)

text \<open>Changing one entry, here and in the kernel.\<close>

lemma loop_ok_upd:
  assumes "loop_ok e" and "fd_ok (max_conn e) fd fe ev"
  shows "loop_ok (e\<lparr>interest := (interest e)(fd := ev), fd_array := (fd_array e)(fd := fe)\<rparr>)"
  using assms by (simp add: loop_ok_def)

lemma or_zero_nat: "(a OR b = 0) \<longleftrightarrow> a = 0 \<and> b = (0 :: nat)"
  by (metis or.right_neutral or_eq_0_iff)

lemma fd_event_upd: "(fe :: 'p fd_event)\<lparr>fe_mask := m, fe_proc := p, fe_args := a\<rparr> = \<lparr>fe_mask = m, fe_proc = p, fe_args = a\<rparr>"
  by (cases fe) simp

text \<open>Adding: the mask is merged, and the callback is the last one given.\<close>

lemma add_fd_event_cases:
  assumes "loop_ok e" and "0 \<le> fd" and "what \<noteq> EVENT_NONE"
  shows "add_fd_event able fd what proc args e =
    (if fd \<ge> max_conn e then Ret (-1, e) else if \<not> able then Ret (-2, e)
     else Ret (0, e\<lparr>interest := (interest e)(fd \<mapsto> epoll_events (fe_mask (fd_array e fd) OR what)),
       fd_array := (fd_array e)(fd := \<lparr>fe_mask = fe_mask (fd_array e fd) OR what, fe_proc = Some proc, fe_args = args\<rparr>)\<rparr>))"
proof -
  have i: "interest e fd = None \<longleftrightarrow> fe_mask (fd_array e fd) = EVENT_NONE"
    using loop_okD [OF assms(1), of fd] by (auto simp: fd_ok_def split: if_splits)
  show ?thesis using assms(2) i by (auto simp: add_fd_event_def Let_def or.commute [of what] fd_event_upd)
qed

lemma add_fd_event_loop:
  assumes "loop_ok e" and "0 \<le> fd" and "what \<noteq> EVENT_NONE" and "add_fd_event able fd what proc args e = Ret (r, e')"
  shows "loop_ok e'"
proof (cases "fd \<ge> max_conn e \<or> \<not> able")
  case True
  with assms add_fd_event_cases [OF assms(1-3), of able proc args] show ?thesis by (auto split: if_splits)
next
  case False
  let ?fe = "\<lparr>fe_mask = fe_mask (fd_array e fd) OR what, fe_proc = Some proc, fe_args = args\<rparr>"
  have "fd_ok (max_conn e) fd ?fe (Some (epoll_events (fe_mask ?fe)))"
    using assms(2,3) False by (simp add: fd_ok_def or_zero_nat EVENT_NONE_def)
  from loop_ok_upd [OF assms(1) this] assms(4) False add_fd_event_cases [OF assms(1-3), of able proc args] show ?thesis by simp
qed

lemma del_fd_event_cases:
  assumes "loop_ok e" and "watched e fd"
  defines "e' \<equiv> e\<lparr>interest := (interest e)(fd := None), fd_array := (fd_array e)(fd := (fd_array e fd)\<lparr>fe_mask := EVENT_NONE\<rparr>)\<rparr>"
  shows "del_fd_event True fd (fe_mask (fd_array e fd)) e = Ret e'" and "loop_ok e'"
proof -
  have "fd_ok (max_conn e) fd (fd_array e fd) (interest e fd)" "fe_mask (fd_array e fd) \<noteq> 0"
    using loop_okD [OF assms(1)] assms(2) by (simp_all add: watched_def EVENT_NONE_def)
  then show "del_fd_event True fd (fe_mask (fd_array e fd)) e = Ret e'"
    by (simp add: del_fd_event_def e'_def fd_ok_def EVENT_NONE_def Let_def)
  show "loop_ok e'" unfolding e'_def by (rule loop_ok_upd [OF assms(1)]) (simp add: fd_ok_def)
qed

lemma event_loop_init_ok: "event_loop_init a b c n = Ret e \<Longrightarrow> loop_ok e \<and> max_conn e = n + 128"
  by (auto simp: event_loop_init_def loop_ok_def fd_ok_def split: if_splits)

end
