(* ===== verification/Syscall_Hook.thy ===== *)
theory Syscall_Hook
  imports Event
begin

text \<open>
  \<open>syscall_hook.c\<close>: \<open>connect\<close>, \<open>accept\<close>, \<open>read\<close>, \<open>recv\<close>, \<open>write\<close> and \<open>send\<close> as a coroutine calls them. A hook
  tries the real call; when the descriptor is not ready it registers for the event, goes to sleep, and
  tries again when it is woken. A coroutine that sleeps in a hook has a continuation: \<open>hook_try\<close> is the code up to
  the switch in \<open>schedule_timeout\<close> (or a \<open>return\<close>), \<open>hook_resume\<close> the code after it.

  The results of the real calls are a list, consumed one by one; an empty list is a call that does not
  return. \<open>EWOULDBLOCK\<close> equals \<open>EAGAIN\<close>.
\<close>

datatype errno = EINTR | EAGAIN | EINPROGRESS | EOTHER int

datatype sys = Sys_ok nat | Sys_err errno

definition fd_not_ready :: "errno \<Rightarrow> bool" where
  "fd_not_ready e \<longleftrightarrow> e = EAGAIN"

datatype hook_proc = event_rw_callback | event_conn_callback

fun hook_call :: "hook_proc \<Rightarrow> ptr \<Rightarrow> 'f coro_schedule \<Rightarrow> 'f coro_schedule run" where
  "hook_call event_rw_callback args s = wakeup_coro args s"
| "hook_call event_conn_callback args s = wakeup_coro_priority args s"

record 'f runtime =
  rt_sched :: "'f coro_schedule"
  rt_loop :: "hook_proc event_loop"

text \<open>What a hook waits for.\<close>

record hook =
  hk_fd :: int
  hk_what :: nat
  hk_proc :: hook_proc
  hk_timeout :: int

definition CONN_TIMEOUT :: int where "CONN_TIMEOUT = 10 * 1000"

definition ACCEPT_TIMEOUT :: int where "ACCEPT_TIMEOUT = 3 * 1000"

definition RW_TIMEOUT :: int where "RW_TIMEOUT = 10 * 1000"

datatype hook_out = Hook_ret int | Hook_wait

text \<open>Registration and the switch: the part of all hooks up to \<open>schedule_timeout\<close>. \<open>able\<close> is the outcome of
  \<open>epoll_ctl\<close>, \<open>now\<close> the clock.\<close>

definition hook_sleep :: "hook \<Rightarrow> bool \<Rightarrow> int \<Rightarrow> 'f runtime \<Rightarrow> (hook_out \<times> 'f runtime) run" where
  "hook_sleep hk able now rt =
     (case add_fd_event able (hk_fd hk) (hk_what hk) (hk_proc hk) (current_coro (rt_sched rt)) (rt_loop rt) of
        Ret (res, e) \<Rightarrow>
          if res \<noteq> 0 then ret (Hook_ret (-2), rt\<lparr>rt_loop := e\<rparr>)
          else run_bind (schedule_timeout now (hk_timeout hk) (rt_sched rt)) (\<lambda>s. ret (Hook_wait, \<lparr>rt_sched = s, rt_loop = e\<rparr>))
      | UB \<Rightarrow> Some UB | Abort \<Rightarrow> Some Abort | Exit n \<Rightarrow> Some (Exit n))"

text \<open>The loop of \<open>accept\<close>, \<open>read\<close>, \<open>recv\<close>, \<open>write\<close> and \<open>send\<close>, from its head to the switch.\<close>

fun hook_try :: "hook \<Rightarrow> bool \<Rightarrow> int \<Rightarrow> sys list \<Rightarrow> 'f runtime \<Rightarrow> (hook_out \<times> sys list \<times> 'f runtime) run" where
  "hook_try hk able now [] rt = None"
| "hook_try hk able now (Sys_ok n # rs) rt = ret (Hook_ret (int n), rs, rt)"
| "hook_try hk able now (Sys_err err # rs) rt =
     (if err = EINTR then hook_try hk able now rs rt
      else if \<not> fd_not_ready err then ret (Hook_ret (-1), rs, rt)
      else run_bind (hook_sleep hk able now rt) (\<lambda>(out, rt'). ret (out, rs, rt')))"

text \<open>The part after the switch: deregistration, and whether the timer has woken the coroutine. The switch back is the
  first event of the part.\<close>

definition hook_wake :: "hook \<Rightarrow> bool \<Rightarrow> 'f runtime \<Rightarrow> (bool \<times> 'f runtime) cres" where
  "hook_wake hk able rt =
     cbind (del_fd_event able (hk_fd hk) (hk_what hk) (rt_loop rt)) (\<lambda>e.
       case is_wakeup_by_timeout (rt_sched rt) of (timeout, s) \<Rightarrow> Ret (timeout, \<lparr>rt_sched = s, rt_loop = e\<rparr>))"

definition hook_resume :: "hook \<Rightarrow> bool \<Rightarrow> bool \<Rightarrow> int \<Rightarrow> sys list \<Rightarrow> 'f runtime \<Rightarrow> (hook_out \<times> sys list \<times> 'f runtime) run" where
  "hook_resume hk del_able able now rs rt =
     run_bind (Some (hook_wake hk del_able rt)) (\<lambda>(timeout, rt1).
       if timeout then ret (Hook_ret (-3), rs, rt1) else hook_try hk able now rs rt1)"

definition read_hook :: "int \<Rightarrow> hook" where
  "read_hook fd = \<lparr>hk_fd = fd, hk_what = EVENT_READABLE, hk_proc = event_rw_callback, hk_timeout = RW_TIMEOUT\<rparr>"

definition recv_hook :: "int \<Rightarrow> hook" where
  "recv_hook sockfd = \<lparr>hk_fd = sockfd, hk_what = EVENT_READABLE, hk_proc = event_rw_callback, hk_timeout = RW_TIMEOUT\<rparr>"

definition write_hook :: "int \<Rightarrow> hook" where
  "write_hook fd = \<lparr>hk_fd = fd, hk_what = EVENT_WRITABLE, hk_proc = event_rw_callback, hk_timeout = RW_TIMEOUT\<rparr>"

definition send_hook :: "int \<Rightarrow> hook" where
  "send_hook sockfd = \<lparr>hk_fd = sockfd, hk_what = EVENT_WRITABLE, hk_proc = event_rw_callback, hk_timeout = RW_TIMEOUT\<rparr>"

definition accept_hook :: "int \<Rightarrow> hook" where
  "accept_hook sockfd = \<lparr>hk_fd = sockfd, hk_what = EVENT_READABLE, hk_proc = event_conn_callback, hk_timeout = ACCEPT_TIMEOUT\<rparr>"

text \<open>The rest of \<open>accept\<close>: the options of the new socket. The result and whether the socket was closed.\<close>

definition accept_options :: "bool \<Rightarrow> bool \<Rightarrow> bool \<Rightarrow> int \<Rightarrow> int \<times> bool" where
  "accept_options nonblock_ok no_delay_ok keep_alive_ok connfd =
     (if \<not> nonblock_ok then (-4, True)
      else if \<not> no_delay_ok then (-5, True)
      else if \<not> keep_alive_ok then (-6, True)
      else (connfd, False))"

text \<open>\<open>connect\<close> is not a loop. \<open>getsockopt\<close> gives its result, \<open>flags\<close> and \<open>len\<close>.\<close>

definition connect_hook :: "int \<Rightarrow> hook" where
  "connect_hook sockfd = \<lparr>hk_fd = sockfd, hk_what = EVENT_WRITABLE, hk_proc = event_conn_callback, hk_timeout = CONN_TIMEOUT\<rparr>"

definition connect_try :: "int \<Rightarrow> bool \<Rightarrow> int \<Rightarrow> sys \<Rightarrow> 'f runtime \<Rightarrow> (hook_out \<times> 'f runtime) run" where
  "connect_try sockfd able now res rt =
     (case res of
        Sys_ok n \<Rightarrow> if n = 0 then ret (Hook_ret 0, rt) else hook_sleep (connect_hook sockfd) able now rt
      | Sys_err err \<Rightarrow> if err \<noteq> EINPROGRESS then ret (Hook_ret (-1), rt) else hook_sleep (connect_hook sockfd) able now rt)"

definition connect_resume :: "int \<Rightarrow> bool \<Rightarrow> int \<times> int \<times> nat \<Rightarrow> 'f runtime \<Rightarrow> (int \<times> 'f runtime) cres" where
  "connect_resume sockfd able opt rt =
     cbind (hook_wake (connect_hook sockfd) able rt) (\<lambda>(timeout, rt1).
       if timeout then Ret (-3, rt1)
       else case opt of (res, flags, len) \<Rightarrow>
         if res = -1 \<or> flags \<noteq> 0 \<or> len = 0 then Ret (-4, rt1) else Ret (0, rt1))"

text \<open>The hooks do not change which function a coroutine runs.\<close>

lemma hook_sleep_keeps: "hook_sleep hk able now rt = ret (out, rt') \<Longrightarrow> same_code (rt_sched rt) (rt_sched rt')"
  using keepsD [OF schedule_timeout_keeps, of now "hk_timeout hk" "rt_sched rt"]
  by (auto simp: hook_sleep_def run_bind_def ret_def split: cres.splits option.splits if_splits)

lemma hook_try_keeps: "hook_try hk able now rs rt = ret (out, rs', rt') \<Longrightarrow> same_code (rt_sched rt) (rt_sched rt')"
proof (induction hk able now rs rt rule: hook_try.induct)
  case (3 hk able now err rs rt)
  then show ?case using hook_sleep_keeps [of hk able now rt]
    by (auto simp: run_bind_def ret_def split: if_splits option.splits cres.splits)
qed (auto simp: ret_def)

lemma hook_wake_keeps: "hook_wake hk able rt = Ret (b, rt') \<Longrightarrow> same_code (rt_sched rt) (rt_sched rt')"
  by (cases "del_fd_event able (hk_fd hk) (hk_what hk) (rt_loop rt)") (auto simp: hook_wake_def is_wakeup_by_timeout_def)

lemma hook_resume_keeps:
  assumes "hook_resume hk del_able able now rs rt = ret (out, rs', rt')"
  shows "same_code (rt_sched rt) (rt_sched rt')"
proof -
  from assms obtain b rt1 where w: "hook_wake hk del_able rt = Ret (b, rt1)"
    and "if b then rt' = rt1 else hook_try hk able now rs rt1 = ret (out, rs', rt')"
    by (cases "hook_wake hk del_able rt") (auto simp: hook_resume_def run_bind_def ret_def split: if_splits)
  then have "same_code (rt_sched rt1) (rt_sched rt')" by (auto dest: hook_try_keeps split: if_splits)
  with hook_wake_keeps [OF w] show ?thesis by (rule same_code_trans)
qed

lemma event_cycle_keeps: "keeps s (event_cycle hook_call fds e s)"
proof (induction fds arbitrary: s)
  case (Cons fd fds)
  have "keeps s (hook_call p c s)" for p c using wakeup_keeps by (cases p) simp_all
  with Cons show ?case by (auto split: option.splits intro!: keeps_bind intro: keeps_trans)
qed simp

subsection \<open>Coroutines that sleep in hooks\<close>

text \<open>\<open>pend c\<close> is the hook in which the coroutine \<open>c\<close> sleeps. The table of descriptors holds exactly the registrations
  of these hooks; such a coroutine is ready, waits or is lost, but it is neither idle nor running. A coroutine that
  is not idle is busy.\<close>

definition busy :: "sched_view \<Rightarrow> ptr set" where
  "busy v = coroutines v - set (v_idle v)"

definition pending :: "hook_proc event_loop \<Rightarrow> sched_view \<Rightarrow> ptr option \<Rightarrow> (ptr \<Rightarrow> hook option) \<Rightarrow> bool" where
  "pending e v r pend \<longleftrightarrow>
     (\<forall>fd. watched e fd \<longrightarrow> (\<exists>hk. pend (fe_args (fd_array e fd)) = Some hk \<and> hk_fd hk = fd)) \<and>
     (\<forall>c hk. pend c = Some hk \<longrightarrow> watched e (hk_fd hk) \<and>
        fd_array e (hk_fd hk) = \<lparr>fe_mask = hk_what hk, fe_proc = Some (hk_proc hk), fe_args = c\<rparr> \<and>
        c \<in> coroutines v \<and> c \<notin> set (v_idle v) \<and> r \<noteq> Some c)"

definition runtime_ok :: "'f runtime \<Rightarrow> sched_view \<Rightarrow> (ptr \<Rightarrow> hook option) \<Rightarrow> bool" where
  "runtime_ok rt v pend \<longleftrightarrow> sched_state (rt_sched rt) v \<and> loop_ok (rt_loop rt) \<and> pending (rt_loop rt) v (runner (rt_sched rt)) pend"

lemma pendingD:
  assumes "pending e v r pend" and "pend c = Some hk"
  shows "watched e (hk_fd hk)" "fd_array e (hk_fd hk) = \<lparr>fe_mask = hk_what hk, fe_proc = Some (hk_proc hk), fe_args = c\<rparr>"
    "c \<in> coroutines v" "c \<notin> set (v_idle v)" "r \<noteq> Some c"
  using assms by (auto simp: pending_def)

lemma pending_watched:
  assumes "pending e v r pend" and "watched e fd"
  shows "\<exists>hk. pend (fe_args (fd_array e fd)) = Some hk \<and> hk_fd hk = fd"
  using assms unfolding pending_def by blast

text \<open>Two coroutines do not sleep on one descriptor.\<close>

lemma pending_inj: "pending e v r pend \<Longrightarrow> pend c = Some hk \<Longrightarrow> pend d = Some hk' \<Longrightarrow> hk_fd hk = hk_fd hk' \<Longrightarrow> c = d"
  by (metis pendingD(2) fd_event.ext_inject)

text \<open>The registrations do not depend on where the coroutines are, as long as the pending ones are neither idle nor running.\<close>

lemma pending_view:
  assumes "pending e v r pend" and "coroutines v \<subseteq> coroutines v'"
    and "\<And>c hk. pend c = Some hk \<Longrightarrow> c \<notin> set (v_idle v') \<and> r' \<noteq> Some c"
  shows "pending e v' r' pend"
  using assms unfolding pending_def by blast

lemma sched_state_out:
  assumes "sched_state s v" and "runner s = Some c"
  shows "sched_rep s v" "current s = c" "c \<in> set (v_out v)" "c \<in> coroutines v" "c \<notin> set (v_idle v)"
proof -
  show rep: "sched_rep s v" and out: "c \<in> set (v_out v)" using assms by (auto simp: sched_state_def)
  show "current s = c" by (rule runnerD [OF assms(2)])
  show "c \<in> coroutines v" using out by (simp add: coroutines_def)
  show "c \<notin> set (v_idle v)" using rep out by (auto simp: sched_rep_def sched_inv_def one_place_def)
qed

definition hook_ok :: "hook \<Rightarrow> bool" where
  "hook_ok hk \<longleftrightarrow> 0 \<le> hk_fd hk \<and> hk_what hk \<noteq> EVENT_NONE"

text \<open>A new registration.\<close>

lemma pending_add:
  assumes "pending e v r pend" and "\<not> watched e (hk_fd hk)" and "pend c = None" and "hk_what hk \<noteq> EVENT_NONE"
    and e': "fd_array e' = (fd_array e)(hk_fd hk := \<lparr>fe_mask = hk_what hk, fe_proc = Some (hk_proc hk), fe_args = c\<rparr>)"
    and v': "coroutines v \<subseteq> coroutines v'" "v_idle v' = v_idle v" "c \<in> coroutines v'" "c \<notin> set (v_idle v')"
  shows "pending e' v' None (pend(c \<mapsto> hk))"
proof -
  have "hk_fd hk' \<noteq> hk_fd hk" if "pend d = Some hk'" for d hk' using pendingD(1) [OF assms(1) that] assms(2) by auto
  moreover have "watched e' fd \<longleftrightarrow> fd = hk_fd hk \<or> watched e fd" for fd using assms(4) by (simp add: watched_def e')
  moreover have "fe_args (fd_array e fd) \<noteq> c" if "watched e fd" for fd using pending_watched [OF assms(1) that] assms(3) by auto
  ultimately show ?thesis using assms(1) v' unfolding pending_def e' by auto
qed

lemma hook_sleep_correct:
  assumes ok: "runtime_ok rt v pend" and c: "runner (rt_sched rt) = Some c" "pend c = None" and hk: "hook_ok hk"
    and free: "\<not> watched (rt_loop rt) (hk_fd hk)" and near: "timers_near (now + hk_timeout hk) v"
  shows "\<exists>out rt'. hook_sleep hk able now rt = ret (out, rt') \<and>
    (out = Hook_ret (-2) \<and> rt' = rt \<and> (\<not> able \<or> max_conn (rt_loop rt) \<le> hk_fd hk) \<or>
     out = Hook_wait \<and> runner (rt_sched rt') = None \<and> able \<and> hk_fd hk < max_conn (rt_loop rt) \<and>
       (\<exists>v'. runtime_ok rt' v' (pend(c \<mapsto> hk)) \<and> sleeps c v' \<and> v_ready v' = v_ready v \<and> busy v' = busy v \<and>
         (v' = now_waits c (now + hk_timeout hk) v \<or> v' = v)))"
proof -
  let ?s = "rt_sched rt" and ?e = "rt_loop rt"
  have st: "sched_state ?s v" "loop_ok ?e" "pending ?e v (Some c) pend" using ok c(1) by (auto simp: runtime_ok_def)
  have mask: "fe_mask (fd_array ?e (hk_fd hk)) = 0" using free by (simp add: watched_def EVENT_NONE_def)
  have "0 \<le> hk_fd hk" "hk_what hk \<noteq> EVENT_NONE" using hk by (auto simp: hook_ok_def)
  note add = add_fd_event_cases [OF st(2) this, of able "hk_proc hk" "current_coro ?s"]
  show ?thesis
  proof (cases "hk_fd hk \<ge> max_conn ?e \<or> \<not> able")
    case True
    then have "hook_sleep hk able now rt = ret (Hook_ret (-2), rt)" using add by (auto simp: hook_sleep_def)
    with True show ?thesis by blast
  next
    case False
    define e where "e = ?e\<lparr>interest := (interest ?e)(hk_fd hk \<mapsto> epoll_events (hk_what hk)),
      fd_array := (fd_array ?e)(hk_fd hk := \<lparr>fe_mask = hk_what hk, fe_proc = Some (hk_proc hk), fe_args = c\<rparr>)\<rparr>"
    note o = sched_state_out [OF st(1) c(1)]
    have add': "add_fd_event able (hk_fd hk) (hk_what hk) (hk_proc hk) (current_coro ?s) ?e = Ret (0, e)"
      using add False mask o(2) by (simp add: e_def current_coro_def)
    from schedule_timeout_correct [OF o(1,2,3) near] obtain s' v' where
      s': "schedule_timeout now (hk_timeout hk) ?s = ret s'" "sched_rep s' v'" "same_frame ?s s'" "current s' = main_coro ?s"
        "v' = now_waits c (now + hk_timeout hk) v \<or> v' = v" by (metis (no_types, lifting))
    let ?rt = "\<lparr>rt_sched = s', rt_loop = e\<rparr>"
    have run: "hook_sleep hk able now rt = ret (Hook_wait, ?rt)"
      using add' s'(1) by (simp add: hook_sleep_def run_bind_def ret_def)
    have none: "runner s' = None" using s'(3,4) by (intro main_idle) (simp add: same_frame_def)
    have inv: "\<exists>rest. sched_inv ?s v rest" using o(1) by (auto simp: sched_rep_def)
    have v': "coroutines v' = coroutines v" "v_idle v' = v_idle v" "sleeps c v'" "v_ready v' = v_ready v"
      using s'(5) inv now_waits_view(1) [of ?s v _ c] o(3) by (auto simp: now_waits_def sleeps_def)
    have "loop_ok e" using add_fd_event_loop [OF st(2) _ _ add'] hk by (simp add: hook_ok_def)
    moreover have "pending e v' None (pend(c \<mapsto> hk))"
      by (rule pending_add [OF st(3) free c(2)]) (use hk v' o(4,5) in \<open>simp_all add: e_def hook_ok_def\<close>)
    ultimately have "runtime_ok ?rt v' (pend(c \<mapsto> hk))" using s'(2) none by (simp add: runtime_ok_def sched_state_def)
    moreover have "busy v' = busy v" by (simp add: busy_def v'(1,2))
    ultimately show ?thesis using run none v'(3,4) s'(5) False
      by (intro exI [of _ Hook_wait] exI [of _ ?rt]) (auto intro: exI [of _ v'])
  qed
qed

text \<open>After the switch back: the coroutine \<open>c\<close> runs, with its registration still in the table.\<close>

lemma hook_wake_correct:
  assumes st: "sched_state (rt_sched rt) v" "loop_ok (rt_loop rt)" "pending (rt_loop rt) v None pend"
    and c: "runner (rt_sched rt) = Some c" "pend c = Some hk"
  shows "\<exists>rt'. hook_wake hk True rt = Ret (active_by_timeout (rt_sched rt) c, rt') \<and> runtime_ok rt' v (pend(c := None)) \<and>
    runner (rt_sched rt') = Some c \<and> \<not> watched (rt_loop rt') (hk_fd hk) \<and> \<not> active_by_timeout (rt_sched rt') c \<and>
    max_conn (rt_loop rt') = max_conn (rt_loop rt)"
proof -
  let ?s = "rt_sched rt" and ?e = "rt_loop rt"
  note o = sched_state_out [OF st(1) c(1)] and p = pendingD [OF st(3) c(2)]
  define e where "e = ?e\<lparr>interest := (interest ?e)(hk_fd hk := None),
    fd_array := (fd_array ?e)(hk_fd hk := (fd_array ?e (hk_fd hk))\<lparr>fe_mask := EVENT_NONE\<rparr>)\<rparr>"
  let ?rt = "\<lparr>rt_sched = snd (is_wakeup_by_timeout ?s), rt_loop = e\<rparr>"
  have del: "del_fd_event True (hk_fd hk) (hk_what hk) ?e = Ret e" "loop_ok e"
    using del_fd_event_cases [OF st(2) p(1)] p(2) by (simp_all add: e_def)
  then have run: "hook_wake hk True rt = Ret (active_by_timeout ?s c, ?rt)"
    using o(2) by (simp add: hook_wake_def is_wakeup_by_timeout_def)
  have other: "hk_fd hk' \<noteq> hk_fd hk" if "pend d = Some hk'" "d \<noteq> c" for d hk' using pending_inj [OF st(3) that(1) c(2)] that(2) by blast
  have w: "watched e fd \<longleftrightarrow> watched ?e fd \<and> fd \<noteq> hk_fd hk" for fd by (simp add: watched_def e_def)
  have "pending e v (Some c) (pend(c := None))"
    unfolding pending_def
  proof (intro conjI allI impI)
    fix fd assume "watched e fd"
    with w have fd: "watched ?e fd" "fd \<noteq> hk_fd hk" by auto
    from pending_watched [OF st(3) fd(1)] obtain hk' where hk': "pend (fe_args (fd_array ?e fd)) = Some hk'" "hk_fd hk' = fd" by blast
    with c(2) fd(2) have "fe_args (fd_array ?e fd) \<noteq> c" by auto
    with hk' fd(2) show "\<exists>hk. (pend(c := None)) (fe_args (fd_array e fd)) = Some hk \<and> hk_fd hk = fd" by (simp add: e_def)
  next
    fix d hk' assume "(pend(c := None)) d = Some hk'"
    then have d: "pend d = Some hk'" "d \<noteq> c" by (auto split: if_splits)
    note pd = pendingD [OF st(3) d(1)]
    show "watched e (hk_fd hk')" using pd(1) other [OF d] by (simp add: w)
    show "fd_array e (hk_fd hk') = \<lparr>fe_mask = hk_what hk', fe_proc = Some (hk_proc hk'), fe_args = d\<rparr>"
      using pd(2) other [OF d] by (simp add: e_def)
    show "d \<in> coroutines v" "d \<notin> set (v_idle v)" "Some c \<noteq> Some d" using pd(3,4) d(2) by auto
  qed
  then have "runtime_ok ?rt v (pend(c := None))"
    using st(1) c(1) del(2) by (simp add: runtime_ok_def sched_state_def is_wakeup_by_timeout_def)
  moreover have "\<not> watched e (hk_fd hk)" "max_conn e = max_conn ?e" by (simp_all add: w) (simp add: e_def)
  ultimately show ?thesis using run c(1) o(2)
    by (intro exI [of _ ?rt]) (simp add: is_wakeup_by_timeout_def)
qed

text \<open>What a hook returns, given the first result of the real call that is not an interruption.\<close>

definition first_result :: "sys list \<Rightarrow> sys option" where
  "first_result rs = (case dropWhile (\<lambda>r. r = Sys_err EINTR) rs of [] \<Rightarrow> None | r # _ \<Rightarrow> Some r)"

lemma hook_try_result:
  assumes "first_result rs = Some r"
  shows "\<exists>rs'. hook_try hk able now rs rt =
    (case r of Sys_ok n \<Rightarrow> ret (Hook_ret (int n), rs', rt)
     | Sys_err err \<Rightarrow> if fd_not_ready err then run_bind (hook_sleep hk able now rt) (\<lambda>(out, rt'). ret (out, rs', rt'))
         else ret (Hook_ret (-1), rs', rt))"
  using assms
proof (induction rs)
  case (Cons x rs)
  show ?case
  proof (cases "x = Sys_err EINTR")
    case True
    with Cons show ?thesis by (simp add: first_result_def)
  next
    case False
    with Cons.prems show ?thesis by (cases x) (auto simp: first_result_def)
  qed
qed (simp add: first_result_def)

subsection \<open>Events wake the coroutines that sleep\<close>

lemma sleeps_unplaced: "sleeps d v \<Longrightarrow> d \<noteq> c \<Longrightarrow> sleeps d (unplaced c v\<lparr>v_ready := ys\<rparr>)"
  by (auto simp: sleeps_def unplaced_def)

text \<open>One callback.\<close>

lemma hook_call_wakes:
  fixes s :: "'f coro_schedule"
  assumes "sched_state s v" and "runner s = None" and "sleeps c v"
  shows "\<exists>s' v'. hook_call proc c s = ret s' \<and> sched_state s' v' \<and> runner s' = None \<and> coroutines v' = coroutines v \<and>
    v_idle v' = v_idle v \<and> set (v_ready v') = insert c (set (v_ready v)) \<and> v_waiting v' = (v_waiting v)(c := None) \<and>
    (\<forall>d. sleeps d v \<and> d \<noteq> c \<longrightarrow> sleeps d v')"
proof -
  have rep: "sched_rep s v" using assms(1) by (simp add: sched_state_def)
  then obtain rest where inv: "sched_inv s v rest" by (auto simp: sched_rep_def)
  let ?op = "(case proc of event_rw_callback \<Rightarrow> Wake c | event_conn_callback \<Rightarrow> Wake_first c) :: 'f sched_op"
  have "refines ?op s v" using wake_refines [OF rep assms(2,3)] by (cases proc) simp_all
  then obtain s' v' where s': "sched_exec ?op s = ret s'" "sched_state s' v'" "sched_spec ?op (v, None) (v', runner s')"
    unfolding refines_def assms(2) by blast
  from s'(3) have v': "runner s' = None" "v' = unplaced c v\<lparr>v_ready := v_ready v @ [c]\<rparr> \<or> v' = unplaced c v\<lparr>v_ready := c # v_ready v\<rparr>"
    by (cases proc; auto elim!: spec_WakeE spec_Wake_firstE)+
  from wake_view(1) [OF inv assms(3) v'(2)] have "coroutines v' = coroutines v" .
  moreover have "v_idle v' = v_idle v" "set (v_ready v') = insert c (set (v_ready v))" "v_waiting v' = (v_waiting v)(c := None)"
    using v'(2) by (auto simp: unplaced_def)
  moreover have "sleeps d v'" if "sleeps d v" "d \<noteq> c" for d using v'(2) sleeps_unplaced [OF that] by auto
  moreover have "hook_call proc c s = ret s'" using s'(1) by (cases proc) simp_all
  ultimately show ?thesis using s'(2) v'(1) by blast
qed

lemma event_cycle_wakes:
  assumes "sched_state s v" and "runner s = None" and "pending e v None pend" and "distinct fds"
    and "\<forall>fd \<in> set fds. watched e fd \<and> sleeps (fe_args (fd_array e fd)) v"
  shows "\<exists>s' v'. event_cycle hook_call fds e s = ret s' \<and> sched_state s' v' \<and> runner s' = None \<and> pending e v' None pend \<and> busy v' = busy v \<and>
    set (v_ready v') = set (v_ready v) \<union> (\<lambda>fd. fe_args (fd_array e fd)) ` set fds \<and>
    v_waiting v' = v_waiting v |` (- (\<lambda>fd. fe_args (fd_array e fd)) ` set fds)"
  using assms
proof (induction fds arbitrary: s v)
  case Nil
  then show ?case by (intro exI [of _ s] exI [of _ v]) simp
next
  case (Cons fd fds)
  let ?arg = "\<lambda>fd. fe_args (fd_array e fd)"
  from Cons.prems(5) have fd: "watched e fd" "sleeps (?arg fd) v" by auto
  from pending_watched [OF Cons.prems(3) fd(1)] obtain hk where hk: "pend (?arg fd) = Some hk" "hk_fd hk = fd" by blast
  have proc: "fe_proc (fd_array e fd) = Some (hk_proc hk)" 
    using pendingD(2) [OF Cons.prems(3) hk(1)] unfolding hk(2) by (metis fd_event.select_convs(2))
  from hook_call_wakes [OF Cons.prems(1,2) fd(2), of "hk_proc hk"] obtain s1 v1 where
    s1: "hook_call (hk_proc hk) (?arg fd) s = ret s1" "sched_state s1 v1" "runner s1 = None" "coroutines v1 = coroutines v"
      "v_idle v1 = v_idle v" "set (v_ready v1) = insert (?arg fd) (set (v_ready v))" "v_waiting v1 = (v_waiting v)(?arg fd := None)"
    and others: "\<forall>d. sleeps d v \<and> d \<noteq> ?arg fd \<longrightarrow> sleeps d v1" by blast
  have p1: "pending e v1 None pend"
    by (rule pending_view [OF Cons.prems(3)]) (use s1(4,5) pendingD(4) [OF Cons.prems(3)] in auto)
  have "watched e fd' \<and> sleeps (?arg fd') v1" if "fd' \<in> set fds" for fd'
  proof -
    have w: "watched e fd'" "sleeps (?arg fd') v" "fd' \<noteq> fd" using Cons.prems(4,5) that by auto
    from pending_watched [OF Cons.prems(3) w(1)] hk w(3) have "?arg fd' \<noteq> ?arg fd" by auto
    with w others show ?thesis by blast
  qed
  with Cons.IH [OF s1(2,3) p1] Cons.prems(4) obtain s' v' where
    s': "event_cycle hook_call fds e s1 = ret s'" "sched_state s' v'" "runner s' = None" "pending e v' None pend"
      "busy v' = busy v1" "set (v_ready v') = set (v_ready v1) \<union> ?arg ` set fds" "v_waiting v' = v_waiting v1 |` (- ?arg ` set fds)" by auto
  have "event_cycle hook_call (fd # fds) e s = ret s'" using proc s1(1) s'(1) by (simp add: run_bind_def ret_def)
  moreover have "v_waiting v' = v_waiting v |` (- ?arg ` set (fd # fds))" by (auto simp: s'(7) s1(7) restrict_map_def fun_eq_iff)
  moreover have "set (v_ready v') = set (v_ready v) \<union> ?arg ` set (fd # fds)" by (auto simp: s'(6) s1(6))
  moreover have "busy v' = busy v" using s'(5) s1(4,5) by (simp add: busy_def)
  ultimately show ?case using s'(2,3,4) by blast
qed

end
