(* ===== verification/Runtime.thy ===== *)
theory Runtime
  imports Syscall_Hook
begin

text \<open>
  The scheduler, the event loop and the hooks of a worker together: what \<open>schedule_cycle\<close> and the coroutines it switches to
  do, step by step. A step is a call of the scheduler, a hook up to the point where the coroutine sleeps, a switch to
  the next ready coroutine (which continues the hook it sleeps in, if any), or a round of the event loop.
  The event loop runs when no coroutine is ready: \<open>schedule_cycle\<close> calls it after \<open>run_active_coroutine\<close>. A coroutine that continues a hook
  removes a registration that exists; the kernel is taken to have the resources for that.
\<close>

datatype 'f rt_op = Rt_call "'f sched_op" | Rt_hook hook bool int "sys list" | Rt_run bool int "sys list" | Rt_poll "int list"

fun rt_exec :: "'f rt_op \<Rightarrow> 'f runtime \<times> (ptr \<Rightarrow> hook option) \<Rightarrow> ('f runtime \<times> (ptr \<Rightarrow> hook option)) run" where
  "rt_exec (Rt_call op) (rt, pend) = run_bind (sched_exec op (rt_sched rt)) (\<lambda>s. ret (rt\<lparr>rt_sched := s\<rparr>, pend))"
| "rt_exec (Rt_hook hk able now rs) (rt, pend) =
     run_bind (hook_try hk able now rs rt) (\<lambda>(out, rs', rt').
       ret (rt', if out = Hook_wait then pend(current (rt_sched rt) \<mapsto> hk) else pend))"
| "rt_exec (Rt_run able now rs) (rt, pend) =
     (case run_next (rt_sched rt) of
        None \<Rightarrow> ret (rt, pend)
      | Some s \<Rightarrow>
          (case pend (current s) of
             None \<Rightarrow> ret (rt\<lparr>rt_sched := s\<rparr>, pend)
           | Some hk \<Rightarrow>
               run_bind (hook_resume hk True able now rs (rt\<lparr>rt_sched := s\<rparr>)) (\<lambda>(out, rs', rt').
                 ret (rt', if out = Hook_wait then pend else pend(current s := None)))))"
| "rt_exec (Rt_poll fds) (rt, pend) =
     run_bind (event_cycle hook_call fds (rt_loop rt) (rt_sched rt)) (\<lambda>s. ret (rt\<lparr>rt_sched := s\<rparr>, pend))"

fun own_call :: "'f sched_op \<Rightarrow> bool" where
  "own_call Next \<longleftrightarrow> False"
| "own_call (Wake c) \<longleftrightarrow> False"
| "own_call (Wake_first c) \<longleftrightarrow> False"
| "own_call _ \<longleftrightarrow> True"

text \<open>When a step may happen. A coroutine calls a hook on a descriptor no other coroutine waits for; \<open>epoll_wait\<close> reports
  registered descriptors, each at most once; the instants of timers are near.\<close>

fun rt_allowed :: "'f rt_op \<Rightarrow> 'f runtime \<Rightarrow> sched_view \<Rightarrow> (ptr \<Rightarrow> hook option) \<Rightarrow> bool" where
  "rt_allowed (Rt_call op) rt v pend \<longleftrightarrow> own_call op \<and> allowed op (v, runner (rt_sched rt))"
| "rt_allowed (Rt_hook hk able now rs) rt v pend \<longleftrightarrow> runner (rt_sched rt) \<noteq> None \<and> hook_ok hk \<and>
     \<not> watched (rt_loop rt) (hk_fd hk) \<and> timers_near (now + hk_timeout hk) v \<and> first_result rs \<noteq> None"
| "rt_allowed (Rt_run able now rs) rt v pend \<longleftrightarrow> runner (rt_sched rt) = None \<and> first_result rs \<noteq> None \<and>
     (\<forall>c hk. pend c = Some hk \<longrightarrow> hook_ok hk \<and> timers_near (now + hk_timeout hk) v)"
| "rt_allowed (Rt_poll fds) rt v pend \<longleftrightarrow> runner (rt_sched rt) = None \<and> run_next (rt_sched rt) = None \<and> distinct fds \<and>
     (\<forall>fd \<in> set fds. watched (rt_loop rt) fd)"

definition rt_goes :: "'f rt_op \<Rightarrow> 'f runtime \<Rightarrow> (ptr \<Rightarrow> hook option) \<Rightarrow> bool" where
  "rt_goes op rt pend \<longleftrightarrow> (\<exists>rt' v' pend'. rt_exec op (rt, pend) = ret (rt', pend') \<and> runtime_ok rt' v' pend')"

subsection \<open>Calls of the scheduler\<close>

lemma spec_coroutines:
  assumes "sched_spec op (v, r) (v', r')" and "one_place v" and "\<And>c. r = Some c \<Longrightarrow> c \<in> set (v_out v)" and "own_call op"
  shows "coroutines v \<subseteq> coroutines v'" and "set (v_idle v') \<subseteq> set (v_idle v) \<union> set_option r" and "r' \<noteq> None \<Longrightarrow> r' = r"
proof -
  have out: "set (remove1 c (v_out v)) = set (v_out v) - {c}" for c using assms(2) by (simp add: one_place_def)
  have due: "set ds \<subseteq> dom (v_waiting v)" if "due now v ds" for now ds using that by (auto simp: due_def)
  from assms(1,3,4) show "coroutines v \<subseteq> coroutines v'"
    by cases (auto simp: coroutines_def now_waits_def expire_def out restrict_map_def)
  from assms(1,4) show "set (v_idle v') \<subseteq> set (v_idle v) \<union> set_option r" by cases (auto simp: now_waits_def expire_def)
  from assms(1,4) show "r' \<noteq> None \<Longrightarrow> r' = r" by cases auto
qed

lemma spec_busy:
  assumes "one_place v" and "\<And>c. r = Some c \<Longrightarrow> c \<in> set (v_out v)"
  shows "sched_spec (Check now) (v, r) (v', r') \<Longrightarrow> busy v' = busy v"
    and "sched_spec (Timeout now ms) (v, r) (v', r') \<Longrightarrow> busy v' = busy v"
    and "sched_spec Return (v, Some c) (v', r') \<Longrightarrow> r = Some c \<Longrightarrow> busy v' = busy v - {c}"
    and "sched_spec (Dispatch ok f) (v, r) (v', r') \<Longrightarrow> v_ready v' = v_ready v @ [d] \<Longrightarrow> busy v' = insert d (busy v) \<and> d \<notin> busy v"
proof -
  have out: "set (remove1 c (v_out v)) = set (v_out v) - {c}" for c using assms(1) by (simp add: one_place_def)
  have idle: "c \<notin> set (v_idle v)" if "r = Some c" for c using assms(1) assms(2) [OF that] by (auto simp: one_place_def)
  show "busy v' = busy v" if "sched_spec (Check now) (v, r) (v', r')"
    using that by (auto elim!: spec_CheckE simp: busy_def coroutines_def expire_def due_def restrict_map_def)
  show "busy v' = busy v" if "sched_spec (Timeout now ms) (v, r) (v', r')"
  proof -
    have "busy (now_waits c t v) = busy v" if "r = Some c" for c t
      using assms(2) [OF that] idle [OF that] unfolding busy_def coroutines_def now_waits_def by (simp add: out) blast
    with that show ?thesis by (auto elim!: spec_TimeoutE)
  qed
  show "busy v' = busy v - {c}" if "sched_spec Return (v, Some c) (v', r')" "r = Some c"
    using that(1) assms(2) [OF that(2)] by (auto elim!: spec_ReturnE simp: busy_def coroutines_def out)
  show "busy v' = insert d (busy v) \<and> d \<notin> busy v"
    if "sched_spec (Dispatch ok f) (v, r) (v', r')" "v_ready v' = v_ready v @ [d]"
    using that assms(1) by (auto elim!: spec_DispatchE simp: busy_def coroutines_def one_place_def)
qed

lemma runtime_okD:
  assumes "runtime_ok rt v pend"
  shows "sched_state (rt_sched rt) v" "loop_ok (rt_loop rt)" "pending (rt_loop rt) v (runner (rt_sched rt)) pend" "one_place v"
    "runner (rt_sched rt) = Some c \<Longrightarrow> c \<in> set (v_out v)" "sched_rep (rt_sched rt) v"
  using assms by (auto simp: runtime_ok_def sched_state_def sched_rep_def sched_inv_def)

text \<open>The registrations outlive a call of the scheduler.\<close>

lemma call_keeps:
  assumes ok: "runtime_ok rt v pend" and "own_call op" and s': "sched_state s' v'" "sched_spec op (v, runner (rt_sched rt)) (v', runner s')"
  shows "runtime_ok (rt\<lparr>rt_sched := s'\<rparr>) v' pend"
proof -
  let ?r = "runner (rt_sched rt)"
  note st = runtime_okD [OF ok]
  note sp = spec_coroutines [OF s'(2) st(4,5) assms(2)]
  have free: "c \<notin> set (v_idle v') \<and> runner s' \<noteq> Some c" if "pend c = Some hk" for c hk
    using sp(2,3) pendingD(4,5) [OF st(3) that] by (cases ?r) auto
  have "pending (rt_loop rt) v' (runner s') pend" by (rule pending_view [OF st(3) sp(1) free])
  then show ?thesis using s'(1) st(2) by (simp add: runtime_ok_def)
qed

lemma call_runs:
  assumes ok: "runtime_ok rt v pend" and al: "own_call op" "allowed op (v, runner (rt_sched rt))"
  shows "\<exists>s' v'. sched_exec op (rt_sched rt) = ret s' \<and> runtime_ok (rt\<lparr>rt_sched := s'\<rparr>) v' pend \<and>
    sched_spec op (v, runner (rt_sched rt)) (v', runner s')"
proof -
  from op_refines [OF runtime_okD(1) [OF ok] al(2)] obtain s' v' where
    s': "sched_exec op (rt_sched rt) = ret s'" "sched_state s' v'" "sched_spec op (v, runner (rt_sched rt)) (v', runner s')"
    by (auto simp: refines_def)
  from s'(1,3) call_keeps [OF ok al(1) s'(2,3)] show ?thesis by blast
qed

lemma call_goes:
  assumes "runtime_ok rt v pend" and "own_call op" and "allowed op (v, runner (rt_sched rt))"
  shows "rt_goes (Rt_call op) rt pend"
  using call_runs [OF assms] by (auto simp: rt_goes_def run_bind_def ret_def)

subsection \<open>Hooks\<close>

text \<open>A hook called by the running coroutine.\<close>

lemma hook_try_correct:
  assumes ok: "runtime_ok rt v pend" and c: "runner (rt_sched rt) = Some c" "pend c = None" and hk: "hook_ok hk"
    and free: "\<not> watched (rt_loop rt) (hk_fd hk)" and near: "timers_near (now + hk_timeout hk) v" and r: "first_result rs = Some r"
  shows "\<exists>out rs' rt'. hook_try hk able now rs rt = ret (out, rs', rt') \<and>
    (case r of
       Sys_ok n \<Rightarrow> out = Hook_ret (int n) \<and> rt' = rt
     | Sys_err err \<Rightarrow>
         if fd_not_ready err
         then out = Hook_ret (-2) \<and> rt' = rt \<or>
           out = Hook_wait \<and> runner (rt_sched rt') = None \<and>
             (\<exists>v'. runtime_ok rt' v' (pend(c \<mapsto> hk)) \<and> sleeps c v' \<and> v_ready v' = v_ready v \<and> busy v' = busy v)
         else out = Hook_ret (-1) \<and> rt' = rt)"
proof -
  from hook_try_result [OF r, of hk able now rt] obtain rs' where run: "hook_try hk able now rs rt =
    (case r of Sys_ok n \<Rightarrow> ret (Hook_ret (int n), rs', rt)
     | Sys_err err \<Rightarrow> if fd_not_ready err then run_bind (hook_sleep hk able now rt) (\<lambda>(out, rt'). ret (out, rs', rt'))
         else ret (Hook_ret (-1), rs', rt))" by blast
  from hook_sleep_correct [OF ok c hk free near, of able] obtain out rt' where sl: "hook_sleep hk able now rt = ret (out, rt')"
    "out = Hook_ret (-2) \<and> rt' = rt \<or> out = Hook_wait \<and> runner (rt_sched rt') = None \<and>
       (\<exists>v'. runtime_ok rt' v' (pend(c \<mapsto> hk)) \<and> sleeps c v' \<and> v_ready v' = v_ready v \<and> busy v' = busy v)" by blast
  show ?thesis using run sl by (cases r) (auto simp: run_bind_def ret_def)
qed

lemma hook_goes:
  assumes ok: "runtime_ok rt v pend" and al: "rt_allowed (Rt_hook hk able now rs) rt v pend"
  shows "rt_goes (Rt_hook hk able now rs) rt pend"
proof -
  from al obtain c r where c: "runner (rt_sched rt) = Some c" and r: "first_result rs = Some r" by auto
  have st: "sched_state (rt_sched rt) v" "pending (rt_loop rt) v (Some c) pend" using ok c by (auto simp: runtime_ok_def)
  have p: "pend c = None" using pendingD(5) [OF st(2), of c] by (cases "pend c") auto
  note cur = sched_state_out(2) [OF st(1) c]
  have hk: "hook_ok hk" "\<not> watched (rt_loop rt) (hk_fd hk)" "timers_near (now + hk_timeout hk) v" using al by auto
  from hook_try_correct [OF ok c p hk r, of able] obtain out rs' rt' where
    run: "hook_try hk able now rs rt = ret (out, rs', rt')"
    and res: "case r of
       Sys_ok n \<Rightarrow> out = Hook_ret (int n) \<and> rt' = rt
     | Sys_err err \<Rightarrow> if fd_not_ready err
         then out = Hook_ret (-2) \<and> rt' = rt \<or> out = Hook_wait \<and> runner (rt_sched rt') = None \<and>
           (\<exists>v'. runtime_ok rt' v' (pend(c \<mapsto> hk)) \<and> sleeps c v' \<and> v_ready v' = v_ready v \<and> busy v' = busy v)
         else out = Hook_ret (-1) \<and> rt' = rt" by blast
  from res have "out \<noteq> Hook_wait \<and> rt' = rt \<or> out = Hook_wait \<and> (\<exists>v'. runtime_ok rt' v' (pend(c \<mapsto> hk)))"
    by (auto split: sys.splits if_splits)
  with run show ?thesis using ok cur by (auto simp: rt_goes_def run_bind_def ret_def)
qed

text \<open>The switch to a coroutine that sleeps in a hook.\<close>

lemma hook_resume_correct:
  assumes st: "sched_state (rt_sched rt) v" "loop_ok (rt_loop rt)" "pending (rt_loop rt) v None pend"
    and c: "runner (rt_sched rt) = Some c" "pend c = Some hk" and hk: "hook_ok hk"
    and near: "timers_near (now + hk_timeout hk) v" and r: "first_result rs = Some r"
  shows "\<exists>out rs' rt' v'. hook_resume hk True able now rs rt = ret (out, rs', rt') \<and>
    runtime_ok rt' v' (if out = Hook_wait then pend else pend(c := None)) \<and> busy v' = busy v \<and>
    (active_by_timeout (rt_sched rt) c \<longrightarrow> out = Hook_ret (-3)) \<and>
    (\<not> active_by_timeout (rt_sched rt) c \<longrightarrow> (case r of
       Sys_ok n \<Rightarrow> out = Hook_ret (int n)
     | Sys_err err \<Rightarrow> if fd_not_ready err then out = Hook_ret (-2) \<or> out = Hook_wait else out = Hook_ret (-1))) \<and>
    (out \<noteq> Hook_wait \<longrightarrow> runner (rt_sched rt') = Some c \<and> \<not> watched (rt_loop rt') (hk_fd hk)) \<and>
    (out = Hook_wait \<longrightarrow> runner (rt_sched rt') = None \<and> sleeps c v')"
proof -
  from hook_wake_correct [OF st c] obtain rt1 where
    w: "hook_wake hk True rt = Ret (active_by_timeout (rt_sched rt) c, rt1)" "runtime_ok rt1 v (pend(c := None))"
      "runner (rt_sched rt1) = Some c" "\<not> watched (rt_loop rt1) (hk_fd hk)" by blast
  have run: "hook_resume hk True able now rs rt = (if active_by_timeout (rt_sched rt) c then ret (Hook_ret (-3), rs, rt1)
      else hook_try hk able now rs rt1)" using w(1) by (simp add: hook_resume_def run_bind_def)
  show ?thesis
  proof (cases "active_by_timeout (rt_sched rt) c")
    case True
    with run w(2-4) show ?thesis by (intro exI [of _ "Hook_ret (-3)"] exI [of _ rs] exI [of _ rt1] exI [of _ v]) simp
  next
    case False
    have p: "(pend(c := None)) c = None" by simp
    from hook_try_correct [OF w(2,3) p hk w(4) near r, of able] obtain out rs' rt' where
      t: "hook_try hk able now rs rt1 = ret (out, rs', rt')" and res: "case r of
         Sys_ok n \<Rightarrow> out = Hook_ret (int n) \<and> rt' = rt1
       | Sys_err err \<Rightarrow> if fd_not_ready err
           then out = Hook_ret (-2) \<and> rt' = rt1 \<or> out = Hook_wait \<and> runner (rt_sched rt') = None \<and>
             (\<exists>v'. runtime_ok rt' v' ((pend(c := None))(c \<mapsto> hk)) \<and> sleeps c v' \<and> v_ready v' = v_ready v \<and> busy v' = busy v)
           else out = Hook_ret (-1) \<and> rt' = rt1" by blast
    have same: "(pend(c := None))(c \<mapsto> hk) = pend" using c(2) by auto
    from res obtain v' where
      "out \<noteq> Hook_wait \<and> rt' = rt1 \<and> v' = v \<or> out = Hook_wait \<and> runner (rt_sched rt') = None \<and> runtime_ok rt' v' pend \<and> sleeps c v' \<and> busy v' = busy v"
      unfolding same by (auto split: sys.splits if_splits)
    with run False t w(2-4) res show ?thesis
      by (intro exI [of _ out] exI [of _ rs'] exI [of _ rt'] exI [of _ v']) (auto split: sys.splits if_splits)
  qed
qed

lemma run_goes:
  assumes ok: "runtime_ok rt v pend" and al: "rt_allowed (Rt_run able now rs) rt v pend"
  shows "rt_goes (Rt_run able now rs) rt pend"
proof -
  have none: "runner (rt_sched rt) = None" using al by simp
  have st: "sched_state (rt_sched rt) v" "loop_ok (rt_loop rt)" "pending (rt_loop rt) v None pend" using ok none by (auto simp: runtime_ok_def)
  have rep: "sched_rep (rt_sched rt) v" using st(1) by (simp add: sched_state_def)
  show ?thesis
  proof (cases "v_ready v")
    case Nil
    with run_next_view(1) [OF rep] ok show ?thesis by (auto simp: rt_goes_def)
  next
    case (Cons c ys)
    let ?v = "v\<lparr>v_ready := ys, v_out := c # v_out v\<rparr>"
    from next_step [OF rep Cons] obtain s where s: "run_next (rt_sched rt) = Some s" "sched_state s ?v" "runner s = Some c" by blast
    have cur: "current s = c" by (rule runnerD [OF s(3)])
    have "coroutines v \<subseteq> coroutines ?v" by (auto simp: coroutines_def Cons)
    then have p: "pending (rt_loop rt) ?v None pend"
      by (rule pending_view [OF st(3)]) (use pendingD(4) [OF st(3)] in auto)
    show ?thesis
    proof (cases "pend c")
      case None
      have "pending (rt_loop rt) ?v (Some c) pend" by (rule pending_view [OF p]) (use pendingD(4) [OF p] None in auto)
      then have "runtime_ok (rt\<lparr>rt_sched := s\<rparr>) ?v pend" using s(2,3) st(2) by (simp add: runtime_ok_def)
      with s(1) cur None show ?thesis by (auto simp: rt_goes_def)
    next
      case (Some hk)
      from al obtain r where r: "first_result rs = Some r" by auto
      have hk: "hook_ok hk" "timers_near (now + hk_timeout hk) ?v" using al Some by (auto simp: timers_near_def)
      have st': "sched_state (rt_sched (rt\<lparr>rt_sched := s\<rparr>)) ?v" "loop_ok (rt_loop (rt\<lparr>rt_sched := s\<rparr>))"
        "pending (rt_loop (rt\<lparr>rt_sched := s\<rparr>)) ?v None pend" "runner (rt_sched (rt\<lparr>rt_sched := s\<rparr>)) = Some c"
        using s st(2) p by simp_all
      from hook_resume_correct [OF st' Some hk r, of able] obtain out rs' rt' v' where
        "hook_resume hk True able now rs (rt\<lparr>rt_sched := s\<rparr>) = ret (out, rs', rt')"
        "runtime_ok rt' v' (if out = Hook_wait then pend else pend(c := None))" by blast
      with s(1) cur Some show ?thesis by (auto simp: rt_goes_def run_bind_def ret_def)
    qed
  qed
qed

lemma poll_wakes:
  assumes ok: "runtime_ok rt v pend" and al: "rt_allowed (Rt_poll fds) rt v pend"
  shows "\<exists>s' v'. event_cycle hook_call fds (rt_loop rt) (rt_sched rt) = ret s' \<and> runtime_ok (rt\<lparr>rt_sched := s'\<rparr>) v' pend \<and> busy v' = busy v \<and>
    set (v_ready v') = (\<lambda>fd. fe_args (fd_array (rt_loop rt) fd)) ` set fds \<and>
    v_waiting v' = v_waiting v |` (- (\<lambda>fd. fe_args (fd_array (rt_loop rt) fd)) ` set fds)"
proof -
  have al1: "runner (rt_sched rt) = None" using al by simp
  have st: "sched_state (rt_sched rt) v" "loop_ok (rt_loop rt)" "pending (rt_loop rt) v None pend" using ok al1 by (auto simp: runtime_ok_def)
  have "v_ready v = []" using al next_step [of "rt_sched rt" v] st(1) by (cases "v_ready v") (auto simp: sched_state_def)
  with al have al': "runner (rt_sched rt) = None" "v_ready v = []" "distinct fds" "\<forall>fd \<in> set fds. watched (rt_loop rt) fd" by auto
  have "sleeps (fe_args (fd_array (rt_loop rt) fd)) v" if "fd \<in> set fds" for fd
  proof -
    from pending_watched [OF st(3)] al'(4) that obtain hk where "pend (fe_args (fd_array (rt_loop rt) fd)) = Some hk" by blast
    from pendingD(3,4) [OF st(3) this] al'(2) show ?thesis by (auto simp: coroutines_def sleeps_def)
  qed
  with event_cycle_wakes [OF st(1) al'(1) st(3) al'(3)] al'(2,4) obtain s' v' where
    "event_cycle hook_call fds (rt_loop rt) (rt_sched rt) = ret s'" "sched_state s' v'" "runner s' = None" "pending (rt_loop rt) v' None pend" "busy v' = busy v"
    "set (v_ready v') = (\<lambda>fd. fe_args (fd_array (rt_loop rt) fd)) ` set fds"
    "v_waiting v' = v_waiting v |` (- (\<lambda>fd. fe_args (fd_array (rt_loop rt) fd)) ` set fds)" by auto
  moreover from this(2-4) st(2) have "runtime_ok (rt\<lparr>rt_sched := s'\<rparr>) v' pend" by (simp add: runtime_ok_def)
  ultimately show ?thesis by blast
qed

lemma op_goes: "runtime_ok rt v pend \<Longrightarrow> rt_allowed op rt v pend \<Longrightarrow> rt_goes op rt pend"
proof (cases op)
  case (Rt_poll fds)
  assume "runtime_ok rt v pend" "rt_allowed op rt v pend"
  with poll_wakes [of rt v pend fds] Rt_poll obtain s' v' where
    "event_cycle hook_call fds (rt_loop rt) (rt_sched rt) = ret s'" "runtime_ok (rt\<lparr>rt_sched := s'\<rparr>) v' pend" by blast
  then show ?thesis by (auto simp: Rt_poll rt_goes_def run_bind_def ret_def)
qed (auto intro: call_goes hook_goes run_goes)

subsection \<open>The main loop\<close>

text \<open>Where \<open>schedule_cycle\<close> is, and where it goes with a step; a running coroutine does its own steps in between.\<close>

datatype phase = At_check | Run_first | At_policy | Run_second

fun coro_op :: "'f rt_op \<Rightarrow> bool" where
  "coro_op (Rt_call op) \<longleftrightarrow> own_call op \<and> (\<forall>now. op \<noteq> Check now)"
| "coro_op (Rt_hook hk able now rs) \<longleftrightarrow> True"
| "coro_op _ \<longleftrightarrow> False"

definition schedule_cycle :: "phase \<Rightarrow> 'f rt_op \<Rightarrow> 'f runtime \<Rightarrow> phase option" where
  "schedule_cycle ph op rt =
     (if runner (rt_sched rt) \<noteq> None then if coro_op op then Some ph else None
      else case (ph, op) of
        (At_check, Rt_call (Check now)) \<Rightarrow> Some Run_first
      | (Run_first, Rt_run able now rs) \<Rightarrow> Some (if run_next (rt_sched rt) = None then At_policy else Run_first)
      | (At_policy, Rt_poll fds) \<Rightarrow> Some Run_second
      | (Run_second, Rt_run able now rs) \<Rightarrow> Some (if run_next (rt_sched rt) = None then At_check else Run_second)
      | _ \<Rightarrow> None)"

text \<open>What the steps take from outside: real calls return, timers are near, descriptors are not shared, and \<open>epoll_wait\<close>
  reports registered descriptors once.\<close>

fun outside_ok :: "'f rt_op \<Rightarrow> 'f runtime \<Rightarrow> sched_view \<Rightarrow> (ptr \<Rightarrow> hook option) \<Rightarrow> bool" where
  "outside_ok (Rt_call (Timeout now ms)) rt v pend \<longleftrightarrow> timers_near (now + ms) v"
| "outside_ok (Rt_call op) rt v pend \<longleftrightarrow> True"
| "outside_ok (Rt_hook hk able now rs) rt v pend \<longleftrightarrow> hook_ok hk \<and> \<not> watched (rt_loop rt) (hk_fd hk) \<and>
     timers_near (now + hk_timeout hk) v \<and> first_result rs \<noteq> None"
| "outside_ok (Rt_run able now rs) rt v pend \<longleftrightarrow> first_result rs \<noteq> None \<and>
     (\<forall>c hk. pend c = Some hk \<longrightarrow> hook_ok hk \<and> timers_near (now + hk_timeout hk) v)"
| "outside_ok (Rt_poll fds) rt v pend \<longleftrightarrow> distinct fds \<and> (\<forall>fd \<in> set fds. watched (rt_loop rt) fd)"

definition outside :: "'f rt_op \<Rightarrow> 'f runtime \<Rightarrow> (ptr \<Rightarrow> hook option) \<Rightarrow> bool" where
  "outside op rt pend \<longleftrightarrow> (\<forall>v. runtime_ok rt v pend \<longrightarrow> outside_ok op rt v pend)"

inductive loop_reach :: "'f runtime \<times> (ptr \<Rightarrow> hook option) \<Rightarrow> 'f runtime \<times> (ptr \<Rightarrow> hook option) \<Rightarrow> phase \<Rightarrow> bool" for x where
  loop_start: "loop_reach x x At_check"
| loop_step: "loop_reach x (rt, pend) ph \<Longrightarrow> schedule_cycle ph op rt = Some ph' \<Longrightarrow>
    outside op rt pend \<Longrightarrow> rt_exec op (rt, pend) = Some (Ret y) \<Longrightarrow> loop_reach x y ph'"

text \<open>Between the runs of coroutines the main loop has the processor, and nothing is ready when the event loop is called.\<close>

definition phase_ok :: "'f runtime \<Rightarrow> phase \<Rightarrow> bool" where
  "phase_ok rt ph \<longleftrightarrow> (ph \<in> {At_check, At_policy} \<longrightarrow> runner (rt_sched rt) = None) \<and>
     (ph = At_policy \<longrightarrow> run_next (rt_sched rt) = None)"

lemma cycle_allowed:
  assumes "schedule_cycle ph op rt = Some ph'" and "phase_ok rt ph" and "outside_ok op rt v pend"
  shows "rt_allowed op rt v pend"
proof (cases "runner (rt_sched rt)")
  case None
  with assms show ?thesis
    by (auto simp: schedule_cycle_def phase_ok_def split: phase.splits rt_op.splits sched_op.splits)
next
  case (Some c)
  with assms(1) have "coro_op op" by (auto simp: schedule_cycle_def split: if_splits)
  with Some assms(3) show ?thesis
  proof (cases op)
    case (Rt_call o')
    with \<open>coro_op op\<close> Some assms(3) show ?thesis by (cases o') auto
  qed auto
qed

lemma cycle_phase:
  assumes "schedule_cycle ph op rt = Some ph'" and "phase_ok rt ph" and "rt_exec op (rt, pend) = Some (Ret (rt', pend'))"
  shows "phase_ok rt' ph'"
proof (cases "ph' \<in> {At_check, At_policy}")
  case True
  have none: "runner (rt_sched rt) = None"
    using True assms(1,2) by (auto simp: schedule_cycle_def phase_ok_def split: if_splits phase.splits rt_op.splits sched_op.splits)
  with True assms(1) have "run_next (rt_sched rt) = None" "\<exists>able now rs. op = Rt_run able now rs"
    by (auto simp: schedule_cycle_def split: if_splits phase.splits rt_op.splits sched_op.splits)
  with assms(3) have "rt' = rt" by (auto simp: ret_def)
  with none \<open>run_next (rt_sched rt) = None\<close> show ?thesis by (simp add: phase_ok_def)
qed (simp add: phase_ok_def)

lemma loop_state:
  assumes "runtime_ok rt0 v0 pend0" and "runner (rt_sched rt0) = None" and "loop_reach (rt0, pend0) (rt, pend) ph"
  shows "\<exists>v. runtime_ok rt v pend \<and> phase_ok rt ph"
proof -
  have "\<exists>v. runtime_ok (fst y) v (snd y) \<and> phase_ok (fst y) ph" if "loop_reach (rt0, pend0) y ph" for y
    using that
  proof (induction rule: loop_reach.induct)
    case loop_start
    with assms(1,2) show ?case by (auto simp: phase_ok_def)
  next
    case (loop_step rt pend ph op ph' y)
    obtain rt' pend' where y: "y = (rt', pend')" by fastforce
    from loop_step.IH obtain v where ok: "runtime_ok rt v pend" and ph: "phase_ok rt ph" by auto
    have "outside_ok op rt v pend" using loop_step.hyps(3) ok by (simp add: outside_def)
    then have "rt_goes op rt pend" by (rule op_goes [OF ok cycle_allowed [OF loop_step.hyps(2) ph]])
    then have "\<exists>v'. runtime_ok rt' v' pend'" using loop_step.hyps(4) by (auto simp: rt_goes_def ret_def y)
    moreover have "phase_ok rt' ph'" using cycle_phase [OF loop_step.hyps(2) ph] loop_step.hyps(4) by (simp add: y)
    ultimately show ?case by (simp add: y)
  qed
  from this [OF assms(3)] show ?thesis by simp
qed

lemma runtime_start:
  assumes "sched_state s empty_view" and "event_loop_init a b c n = Ret e"
  shows "runtime_ok \<lparr>rt_sched = s, rt_loop = e\<rparr> empty_view (\<lambda>_. None)"
proof -
  from assms(2) have "\<not> watched e fd" for fd by (auto simp: event_loop_init_def watched_def split: if_splits)
  with assms event_loop_init_ok [OF assms(2)] show ?thesis by (simp add: runtime_ok_def pending_def)
qed

subsection \<open>Properties\<close>

text \<open>C15. The worker's main loop and its coroutines keep the invariant of the runtime: however coroutines, timers and events
  follow each other in the order of \<open>schedule_cycle\<close>, every step returns; the descriptors registered with the
  kernel are exactly those on which a coroutine sleeps in a hook, each with that coroutine; an event never
  wakes a coroutine that is ready, running or idle.\<close>

theorem worker_loop_invariant:
  assumes "runtime_ok rt0 v0 pend0" and "runner (rt_sched rt0) = None" and "loop_reach (rt0, pend0) (rt, pend) ph"
  shows "\<exists>v. runtime_ok rt v pend \<and> (ph = At_policy \<longrightarrow> v_ready v = []) \<and>
    (\<forall>op ph'. schedule_cycle ph op rt = Some ph' \<and> outside op rt pend \<longrightarrow>
       (\<exists>rt' pend'. rt_exec op (rt, pend) = Some (Ret (rt', pend')) \<and> loop_reach (rt0, pend0) (rt', pend') ph'))"
proof -
  from loop_state [OF assms] obtain v where v: "runtime_ok rt v pend" "phase_ok rt ph" by blast
  have "v_ready v = []" if "ph = At_policy"
    using v that next_step [of "rt_sched rt" v] by (cases "v_ready v") (auto simp: phase_ok_def runtime_ok_def sched_state_def)
  moreover have "\<exists>rt' pend'. rt_exec op (rt, pend) = Some (Ret (rt', pend')) \<and> loop_reach (rt0, pend0) (rt', pend') ph'"
    if "schedule_cycle ph op rt = Some ph'" "outside op rt pend" for op ph'
    using op_goes [OF v(1) cycle_allowed [OF that(1) v(2)]] that(2) v(1) loop_step [OF assms(3) that]
    by (auto simp: rt_goes_def ret_def outside_def)
  ultimately show ?thesis using v(1) by blast
qed

definition test_loop :: "hook_proc event_loop" where
  "test_loop = \<lparr>max_conn = 132, fd_array = (\<lambda>_. \<lparr>fe_mask = EVENT_NONE, fe_proc = None, fe_args = 0\<rparr>), interest = (\<lambda>_. None)\<rparr>"

lemma test_runtime: "runtime_ok \<lparr>rt_sched = test_started, rt_loop = test_loop\<rparr> empty_view (\<lambda>_. None)"
  by (rule runtime_start [OF test_started_state, of True True True 4]) (simp add: event_loop_init_def test_loop_def INT_MAX_def)

theorem worker_loop_invariant_witness:
  "\<exists>rt' pend'. rt_exec (Rt_call (Check 1000)) (\<lparr>rt_sched = test_started, rt_loop = test_loop\<rparr>, \<lambda>_. None) = Some (Ret (rt', pend')) \<and>
    loop_reach (\<lparr>rt_sched = test_started, rt_loop = test_loop\<rparr>, \<lambda>_. None) (rt', pend') Run_first"
proof -
  let ?rt = "\<lparr>rt_sched = test_started, rt_loop = test_loop\<rparr>"
  have n: "runner (rt_sched ?rt) = None" using test_started_runner by simp
  have c: "schedule_cycle At_check (Rt_call (Check 1000)) ?rt = Some Run_first" using n by (simp add: schedule_cycle_def)
  have o: "outside (Rt_call (Check 1000)) ?rt (\<lambda>_. None)" by (simp add: outside_def)
  from worker_loop_invariant [OF test_runtime n loop_start] c o show ?thesis by blast
qed

text \<open>C17. A round of the event loop: for descriptors that \<open>epoll_wait\<close> reports, \<open>event_cycle\<close> makes ready exactly the coroutines
  that sleep in hooks on them, and takes these, and no others, out of the timers.\<close>

theorem events_wake_sleepers:
  assumes "runtime_ok rt v pend" and "runner (rt_sched rt) = None" and "v_ready v = []" and "distinct fds"
    and "\<forall>fd \<in> set fds. watched (rt_loop rt) fd"
  shows "\<exists>s' v'. event_cycle hook_call fds (rt_loop rt) (rt_sched rt) = Some (Ret s') \<and>
    runtime_ok (rt\<lparr>rt_sched := s'\<rparr>) v' pend \<and> set (v_ready v') = {c. \<exists>hk. pend c = Some hk \<and> hk_fd hk \<in> set fds} \<and>
    v_waiting v' = v_waiting v |` (- set (v_ready v'))"
proof -
  have p: "pending (rt_loop rt) v None pend" and rep: "sched_rep (rt_sched rt) v"
    using assms(1,2) by (auto simp: runtime_ok_def sched_state_def)
  have "rt_allowed (Rt_poll fds) rt v pend" using assms run_next_view(1) [OF rep] by simp
  from poll_wakes [OF assms(1) this] obtain s' v' where
    s': "event_cycle hook_call fds (rt_loop rt) (rt_sched rt) = ret s'" "runtime_ok (rt\<lparr>rt_sched := s'\<rparr>) v' pend"
      "set (v_ready v') = (\<lambda>fd. fe_args (fd_array (rt_loop rt) fd)) ` set fds"
      "v_waiting v' = v_waiting v |` (- (\<lambda>fd. fe_args (fd_array (rt_loop rt) fd)) ` set fds)" by blast
  have "(\<lambda>fd. fe_args (fd_array (rt_loop rt) fd)) ` set fds = {c. \<exists>hk. pend c = Some hk \<and> hk_fd hk \<in> set fds}"
  proof (intro equalityI subsetI)
    fix c assume "c \<in> (\<lambda>fd. fe_args (fd_array (rt_loop rt) fd)) ` set fds"
    with assms(5) pending_watched [OF p] show "c \<in> {c. \<exists>hk. pend c = Some hk \<and> hk_fd hk \<in> set fds}" by fastforce
  next
    fix c assume "c \<in> {c. \<exists>hk. pend c = Some hk \<and> hk_fd hk \<in> set fds}"
    then obtain hk where hk: "pend c = Some hk" "hk_fd hk \<in> set fds" by blast
    from pendingD(2) [OF p hk(1)] have "fe_args (fd_array (rt_loop rt) (hk_fd hk)) = c" by simp
    with hk(2) show "c \<in> (\<lambda>fd. fe_args (fd_array (rt_loop rt) fd)) ` set fds" by (metis imageI)
  qed
  with s' show ?thesis by (auto simp: ret_def)
qed

text \<open>A runtime in which one coroutine sleeps in \<open>recv\<close>.\<close>

lemma test_asleep:
  "\<exists>(rt :: nat runtime) v c. runtime_ok rt v [c \<mapsto> recv_hook 5] \<and> runner (rt_sched rt) = None \<and> v_ready v = [] \<and>
    watched (rt_loop rt) 5 \<and> ran (v_waiting v) \<subseteq> {11000} \<and> sleeps c v"
proof -
  from test_ready obtain s :: "nat coro_schedule" and v c where s: "sched_state s v" "v_ready v = [c]" "ran (v_waiting v) = {}" by blast
  let ?v = "v\<lparr>v_ready := [], v_out := c # v_out v\<rparr>" and ?hk = "recv_hook 5"
  have rep: "sched_rep s v" using s(1) by (simp add: sched_state_def)
  from next_step [OF rep s(2)] obtain s' :: "nat coro_schedule" where s': "sched_state s' ?v" "runner s' = Some c" by blast
  let ?rt = "\<lparr>rt_sched = s', rt_loop = test_loop\<rparr>"
  have loop: "loop_ok test_loop" "\<And>fd. \<not> watched test_loop fd" by (simp_all add: test_loop_def loop_ok_def fd_ok_def watched_def)
  then have ok: "runtime_ok ?rt ?v (\<lambda>_. None)" using s' by (simp add: runtime_ok_def pending_def)
  have hk: "hook_ok ?hk" by (simp add: hook_ok_def recv_hook_def EVENT_READABLE_def EVENT_NONE_def)
  have near: "timers_near (1000 + hk_timeout ?hk) ?v" using s(3) by (simp add: timers_near_def)
  have fd: "hk_fd ?hk = 5" "hk_timeout ?hk = 10000" by (simp_all add: recv_hook_def RW_TIMEOUT_def)
  have runner: "runner (rt_sched ?rt) = Some c" using s'(2) by simp
  have free: "\<not> watched (rt_loop ?rt) (hk_fd ?hk)" and room: "\<not> (\<not> True \<or> max_conn (rt_loop ?rt) \<le> hk_fd ?hk)"
    using loop(2) by (simp_all add: fd test_loop_def)
  from hook_sleep_correct [OF ok runner refl hk free near, of True] room obtain rt' :: "nat runtime" and v' where
    v': "runner (rt_sched rt') = None" "runtime_ok rt' v' [c \<mapsto> ?hk]" "sleeps c v'" "v_ready v' = v_ready ?v"
      "v' = now_waits c (1000 + hk_timeout ?hk) ?v \<or> v' = ?v" by blast
  have "ran (v_waiting v') \<subseteq> {11000}" using v'(5) s(3) by (auto simp: fd now_waits_def ran_def split: if_splits)
  moreover have "watched (rt_loop rt') 5" using v'(2) pendingD(1) [of "rt_loop rt'" v' _ "[c \<mapsto> ?hk]" c ?hk] by (auto simp: runtime_ok_def fd)
  ultimately show ?thesis using v' by (intro exI [of _ rt'] exI [of _ v'] exI [of _ c]) simp
qed

theorem events_wake_sleepers_witness:
  "\<exists>(rt :: nat runtime) c s' v'. event_cycle hook_call [5] (rt_loop rt) (rt_sched rt) = Some (Ret s') \<and>
    sched_state s' v' \<and> set (v_ready v') = {c}"
proof -
  from test_asleep obtain rt :: "nat runtime" and v c where rt: "runtime_ok rt v [c \<mapsto> recv_hook 5]" "runner (rt_sched rt) = None"
    "v_ready v = []" "watched (rt_loop rt) 5" by blast
  from events_wake_sleepers [OF rt(1-3), of "[5]"] rt(4) obtain s' v' where
    "event_cycle hook_call [5] (rt_loop rt) (rt_sched rt) = Some (Ret s')" "runtime_ok (rt\<lparr>rt_sched := s'\<rparr>) v' [c \<mapsto> recv_hook 5]"
    "set (v_ready v') = {d. \<exists>hk. [c \<mapsto> recv_hook 5] d = Some hk \<and> hk_fd hk \<in> set [5]}" by auto
  then show ?thesis by (intro exI [of _ rt] exI [of _ c] exI [of _ s'] exI [of _ v']) (auto simp: runtime_ok_def recv_hook_def split: if_splits)
qed

text \<open>C16. A coroutine that continues in the hook it slept in (\<open>read\<close>, \<open>recv\<close>, \<open>write\<close>, \<open>send\<close>, \<open>accept\<close>) first takes its
  descriptor out of the event loop. When the timer woke it, the hook returns -3. Otherwise it tries the real
  call again: its result is returned unchanged (interruptions are skipped, an error gives -1); when the
  descriptor is still not ready the coroutine sleeps again, or gets -2 when it cannot be registered. So a
  hook returns with no registration left.\<close>

theorem woken_hook_returns:
  assumes "sched_state (rt_sched rt) v" and "loop_ok (rt_loop rt)" and "pending (rt_loop rt) v None pend"
    and "runner (rt_sched rt) = Some c" and "pend c = Some hk" and "hook_ok hk" and "timers_near (now + hk_timeout hk) v"
    and "first_result rs = Some r"
  shows "\<exists>out rs' rt' v'. hook_resume hk True able now rs rt = Some (Ret (out, rs', rt')) \<and>
    runtime_ok rt' v' (if out = Hook_wait then pend else pend(c := None)) \<and>
    (if active_by_timeout (rt_sched rt) c then out = Hook_ret (-3)
     else case r of
       Sys_ok n \<Rightarrow> out = Hook_ret (int n)
     | Sys_err err \<Rightarrow> if err = EAGAIN then out = Hook_ret (-2) \<or> out = Hook_wait else out = Hook_ret (-1)) \<and>
    (if out = Hook_wait then runner (rt_sched rt') = None \<and> sleeps c v'
     else runner (rt_sched rt') = Some c \<and> \<not> watched (rt_loop rt') (hk_fd hk))"
proof -
  from hook_resume_correct [OF assms, of able] obtain out rs' rt' v' where
    1: "hook_resume hk True able now rs rt = ret (out, rs', rt')"
    and 2: "runtime_ok rt' v' (if out = Hook_wait then pend else pend(c := None))"
    and 3: "active_by_timeout (rt_sched rt) c \<longrightarrow> out = Hook_ret (-3)"
    and 4: "\<not> active_by_timeout (rt_sched rt) c \<longrightarrow> (case r of
       Sys_ok n \<Rightarrow> out = Hook_ret (int n)
     | Sys_err err \<Rightarrow> if fd_not_ready err then out = Hook_ret (-2) \<or> out = Hook_wait else out = Hook_ret (-1))"
    and 5: "out \<noteq> Hook_wait \<longrightarrow> runner (rt_sched rt') = Some c \<and> \<not> watched (rt_loop rt') (hk_fd hk)"
      "out = Hook_wait \<longrightarrow> runner (rt_sched rt') = None \<and> sleeps c v'" by blast
  from 1 2 3 4 5 show ?thesis
    by (intro exI [of _ out] exI [of _ rs'] exI [of _ rt'] exI [of _ v']) (auto simp: ret_def fd_not_ready_def split: sys.splits)
qed

theorem woken_hook_returns_witness:
  "\<exists>(rt :: nat runtime) c out rs' rt'. runner (rt_sched rt) = Some c \<and> watched (rt_loop rt) 5 \<and>
    hook_resume (recv_hook 5) True True 1000 [Sys_ok 42] rt = Some (Ret (out, rs', rt')) \<and> \<not> watched (rt_loop rt') 5 \<and>
    out = Hook_ret (if active_by_timeout (rt_sched rt) c then -3 else 42)"
proof -
  from test_asleep obtain rt :: "nat runtime" and v c where rt: "runtime_ok rt v [c \<mapsto> recv_hook 5]" "runner (rt_sched rt) = None"
    "v_ready v = []" "watched (rt_loop rt) 5" "ran (v_waiting v) \<subseteq> {11000}" by blast
  have p: "pending (rt_loop rt) v None [c \<mapsto> recv_hook 5]" using rt(1,2) by (simp add: runtime_ok_def)
  have rep: "sched_rep (rt_sched rt) v" using rt(1) by (simp add: runtime_ok_def sched_state_def)
  have "fd_array (rt_loop rt) 5 = \<lparr>fe_mask = EVENT_READABLE, fe_proc = Some event_rw_callback, fe_args = c\<rparr>"
    using pendingD(2) [OF p, of c] by (simp add: recv_hook_def)
  then have args: "(\<lambda>fd. fe_args (fd_array (rt_loop rt) fd)) ` set [5] = {c}" by simp
  have "rt_allowed (Rt_poll [5]) rt v [c \<mapsto> recv_hook 5]" using rt(2-4) run_next_view(1) [OF rep] by simp
  from poll_wakes [OF rt(1) this] obtain s :: "nat coro_schedule" and v1 where
    s: "runtime_ok (rt\<lparr>rt_sched := s\<rparr>) v1 [c \<mapsto> recv_hook 5]" "set (v_ready v1) = {c}"
      "v_waiting v1 = v_waiting v |` (- {c})" unfolding args by blast
  then obtain ys where ys: "v_ready v1 = c # ys" by (cases "v_ready v1") auto
  have rep1: "sched_rep s v1" and ok1: "loop_ok (rt_loop rt)" "pending (rt_loop rt) v1 (runner s) [c \<mapsto> recv_hook 5]"
    using s(1) by (simp_all add: runtime_ok_def sched_state_def)
  let ?v = "v1\<lparr>v_ready := ys, v_out := c # v_out v1\<rparr>"
  from next_step [OF rep1 ys] obtain s' :: "nat coro_schedule" where s': "sched_state s' ?v" "runner s' = Some c" by blast
  let ?rt = "rt\<lparr>rt_sched := s'\<rparr>"
  have "coroutines v1 \<subseteq> coroutines ?v" by (auto simp: coroutines_def ys)
  then have p': "pending (rt_loop rt) ?v None [c \<mapsto> recv_hook 5]"
    by (rule pending_view [OF ok1(2)]) (use pendingD(4) [OF ok1(2)] in auto)
  have hk: "hook_ok (recv_hook 5)" by (simp add: hook_ok_def recv_hook_def EVENT_READABLE_def EVENT_NONE_def)
  have "ran (v_waiting ?v) \<subseteq> {11000}" using rt(5) s(3) by (auto simp: ran_def restrict_map_def split: if_splits)
  then have near: "timers_near (1000 + hk_timeout (recv_hook 5)) ?v"
    by (auto simp: timers_near_def in_int32_def recv_hook_def RW_TIMEOUT_def)
  have "sched_state (rt_sched ?rt) ?v" "loop_ok (rt_loop ?rt)" "pending (rt_loop ?rt) ?v None [c \<mapsto> recv_hook 5]"
    "runner (rt_sched ?rt) = Some c" "[c \<mapsto> recv_hook 5] c = Some (recv_hook 5)" using s' ok1(1) p' by simp_all
  note w = woken_hook_returns [OF this hk near, of "[Sys_ok 42]" "Sys_ok 42" True]
  have "first_result [Sys_ok 42] = Some (Sys_ok 42)" by (simp add: first_result_def)
  from w [OF this] obtain out rs' rt' where
    r: "hook_resume (recv_hook 5) True True 1000 [Sys_ok 42] ?rt = Some (Ret (out, rs', rt'))"
      "if active_by_timeout s' c then out = Hook_ret (-3) else out = Hook_ret 42"
      "out = Hook_wait \<or> \<not> watched (rt_loop rt') (hk_fd (recv_hook 5))"
    unfolding sys.case of_nat_numeral runtime.select_convs runtime.update_convs by (simp split: if_splits) metis
  then have "\<not> watched (rt_loop rt') 5" by (auto simp: recv_hook_def split: if_splits)
  with r(1,2) show ?thesis using rt(4) s'(2)
    by (intro exI [of _ ?rt] exI [of _ c] exI [of _ out] exI [of _ rs'] exI [of _ rt']) (auto split: if_splits)
qed

end
