(* ===== verification/Worker_Process.thy ===== *)
theory Worker_Process
  imports Runtime Env
begin

text \<open>
  The worker's side of \<open>process.c\<close> and \<open>signal.c\<close>: the accept loop and the handlers of connections as coroutines of one
  process, on top of the scheduler, the event loop and the hooks. A coroutine that is switched to continues
  the hook it sleeps in (\<open>w_pend\<close>); otherwise the accept loop is at the head of its loop. What a
  request handler does is any sequence of \<open>recv\<close> and \<open>send\<close> on its connection.
\<close>

datatype coro_body = Accept_cycle | Handle int

text \<open>\<open>w_lock\<close>: this process holds \<open>accept_lock\<close>. \<open>w_conns\<close>: the open descriptors of accepted connections.\<close>

record worker_state =
  w_rt :: "coro_body runtime"
  w_pend :: "ptr \<Rightarrow> hook option"
  connection_count :: int
  g_shall_stop :: int
  g_shall_exit :: int
  w_lock :: bool
  w_conns :: "int set"

definition w_sched :: "worker_state \<Rightarrow> coro_body coro_schedule" where
  "w_sched w = rt_sched (w_rt w)"

definition with_sched :: "coro_body coro_schedule \<Rightarrow> worker_state \<Rightarrow> worker_state" where
  "with_sched s w = w\<lparr>w_rt := (w_rt w)\<lparr>rt_sched := s\<rparr>\<rparr>"

subsection \<open>Counting connections\<close>

definition increase_conn :: "worker_state \<Rightarrow> worker_state cres" where
  "increase_conn w =
     (if connection_count w = INT_MAX then UB else Ret (w\<lparr>connection_count := connection_count w + 1\<rparr>))"

definition decrease_conn_and_check :: "worker_state \<Rightarrow> worker_state cres" where
  "decrease_conn_and_check w =
     (if connection_count w = - INT_MAX - 1 then UB
      else let w1 = w\<lparr>connection_count := connection_count w - 1\<rparr>
           in if connection_count w1 = 0 then Exit 0 else Ret w1)"

definition close_conn :: "int \<Rightarrow> worker_state \<Rightarrow> worker_state" where
  "close_conn connfd w = w\<lparr>w_conns := w_conns w - {connfd}\<rparr>"

text \<open>The function of a coroutine returns: the end of \<open>coro_routine_proxy\<close>.\<close>

definition coro_returns :: "worker_state \<Rightarrow> worker_state" where
  "coro_returns w = with_sched (coro_routine_end (w_sched w)) w"

text \<open>After the call of \<open>request_handler\<close>.\<close>

definition handle_connection :: "int \<Rightarrow> worker_state \<Rightarrow> worker_state run" where
  "handle_connection connfd w =
     run_bind (Some (decrease_conn_and_check (close_conn connfd w))) (\<lambda>w1. ret (coro_returns w1))"

subsection \<open>Accepting\<close>

definition worker_can_accept :: "env \<Rightarrow> worker_state \<Rightarrow> bool" where
  "worker_can_accept e w \<longleftrightarrow> connection_count w < g_worker_connections e"

text \<open>\<open>accept\<close> up to its switch or its return.\<close>

definition accept_call :: "int \<Rightarrow> bool \<Rightarrow> int \<Rightarrow> sys list \<Rightarrow> worker_state \<Rightarrow> (hook_out \<times> worker_state) run" where
  "accept_call listen_fd able now rs w =
     run_bind (hook_try (accept_hook listen_fd) able now rs (w_rt w)) (\<lambda>(out, rs', rt').
       ret (out, w\<lparr>w_rt := rt',
                   w_pend := if out = Hook_wait then (w_pend w)(current (w_sched w) \<mapsto> accept_hook listen_fd) else w_pend w\<rparr>))"

text \<open>The rest of \<open>accept\<close> and of \<open>worker_accept\<close> when the loop of \<open>accept\<close> ends with \<open>n\<close>. \<open>opts\<close>: whether the three socket
  options can be set.\<close>

definition unlock_accept :: "env \<Rightarrow> worker_state \<Rightarrow> worker_state" where
  "unlock_accept e w = (if g_worker_processes e > 1 then w\<lparr>w_lock := False\<rparr> else w)"

definition accept_ends :: "env \<Rightarrow> bool \<times> bool \<times> bool \<Rightarrow> int \<Rightarrow> worker_state \<Rightarrow> int \<times> worker_state" where
  "accept_ends e opts n w =
     (let (connfd, w1) =
        (if n < 0 then (n, w)
         else case opts of (nonblock_ok, no_delay_ok, keep_alive_ok) \<Rightarrow>
           (case accept_options nonblock_ok no_delay_ok keep_alive_ok n of (r, closed) \<Rightarrow>
              (r, if closed then w else w\<lparr>w_conns := insert n (w_conns w)\<rparr>)))
      in (connfd, unlock_accept e w1))"

definition worker_accept ::
  "env \<Rightarrow> int \<Rightarrow> bool \<Rightarrow> bool \<Rightarrow> int \<Rightarrow> sys list \<Rightarrow> bool \<times> bool \<times> bool \<Rightarrow> worker_state \<Rightarrow> (hook_out \<times> worker_state) run" where
  "worker_accept e listen_fd trylock able now rs opts w =
     (let finish = (\<lambda>(out, w1). case out of
            Hook_wait \<Rightarrow> ret (Hook_wait, w1)
          | Hook_ret n \<Rightarrow> (case accept_ends e opts n w1 of (connfd, w2) \<Rightarrow> ret (Hook_ret connfd, w2)))
      in if g_worker_processes e > 1 then
           if worker_can_accept e w \<and> trylock
           then run_bind (accept_call listen_fd able now rs (w\<lparr>w_lock := True\<rparr>)) finish
           else ret (Hook_ret 0, w)
         else run_bind (accept_call listen_fd able now rs w) finish)"

text \<open>The body of the loop after \<open>worker_accept\<close> has returned.\<close>

definition accepted :: "bool \<Rightarrow> int \<Rightarrow> int \<Rightarrow> worker_state \<Rightarrow> worker_state run" where
  "accepted stack_ok now connfd w =
     (if connfd > 0 then
        run_bind (dispatch_coro stack_ok (Handle connfd) (w_sched w)) (\<lambda>(r, s).
          if r \<noteq> 0 then ret (close_conn connfd (with_sched s w)) else Some (increase_conn (with_sched s w)))
      else if connfd = 0 then run_bind (schedule_timeout now 200 (w_sched w)) (\<lambda>s. ret (with_sched s w))
      else ret w)"

text \<open>One round of the loop, to the next switch or the head of the loop.\<close>

definition worker_accept_cycle ::
  "env \<Rightarrow> int \<Rightarrow> bool \<Rightarrow> bool \<Rightarrow> int \<Rightarrow> sys list \<Rightarrow> bool \<times> bool \<times> bool \<Rightarrow> bool \<Rightarrow> worker_state \<Rightarrow> worker_state run" where
  "worker_accept_cycle e listen_fd trylock able now rs opts stack_ok w =
     (if g_shall_stop w \<noteq> 0 then run_bind (Some (decrease_conn_and_check w)) (\<lambda>w1. ret (coro_returns w1))
      else if g_shall_exit w \<noteq> 0 then Some (Exit 0)
      else run_bind (worker_accept e listen_fd trylock able now rs opts w) (\<lambda>(out, w1).
        case out of Hook_wait \<Rightarrow> ret w1 | Hook_ret connfd \<Rightarrow> accepted stack_ok now connfd w1))"

text \<open>A switch to the next ready coroutine, which goes on where it sleeps.\<close>

definition worker_switch ::
  "env \<Rightarrow> bool \<Rightarrow> int \<Rightarrow> sys list \<Rightarrow> bool \<times> bool \<times> bool \<Rightarrow> bool \<Rightarrow> worker_state \<Rightarrow> worker_state run" where
  "worker_switch e able now rs opts stack_ok w =
     (case run_next (w_sched w) of
        None \<Rightarrow> ret w
      | Some s \<Rightarrow>
          (case w_pend w (current s) of
             None \<Rightarrow> ret (with_sched s w)
           | Some hk \<Rightarrow>
               run_bind (hook_resume hk True able now rs ((w_rt w)\<lparr>rt_sched := s\<rparr>)) (\<lambda>(out, rs', rt').
                 case out of
                   Hook_wait \<Rightarrow> ret (w\<lparr>w_rt := rt'\<rparr>)
                 | Hook_ret n \<Rightarrow>
                     let w1 = w\<lparr>w_rt := rt', w_pend := (w_pend w)(current s := None)\<rparr> in
                     (case coro_func s (current s) of
                        Handle connfd \<Rightarrow> ret w1
                      | Accept_cycle \<Rightarrow> (case accept_ends e opts n w1 of (connfd, w2) \<Rightarrow> accepted stack_ok now connfd w2)))))"

subsection \<open>Signals\<close>

datatype signal = SIGQUIT | SIGTERM | SIGINT | SIGHUP | SIGCHLD | SIGSYS | SIGPIPE

fun worker_signal_handler :: "signal \<Rightarrow> worker_state \<Rightarrow> worker_state" where
  "worker_signal_handler SIGQUIT w = w\<lparr>g_shall_stop := 1\<rparr>"
| "worker_signal_handler SIGTERM w = w\<lparr>g_shall_exit := 1\<rparr>"
| "worker_signal_handler SIGINT w = w\<lparr>g_shall_exit := 1\<rparr>"
| "worker_signal_handler _ w = w"

subsection \<open>The steps of a worker\<close>

datatype worker_op =
  W_check int | W_switch bool int "sys list" "bool \<times> bool \<times> bool" bool | W_poll "int list"
| W_accept bool bool int "sys list" "bool \<times> bool \<times> bool" bool | W_call hook bool int "sys list" | W_finish
| W_signal signal

fun worker_exec :: "env \<Rightarrow> int \<Rightarrow> worker_op \<Rightarrow> worker_state \<Rightarrow> worker_state run" where
  "worker_exec e listen_fd (W_check now) w = run_bind (check_timeout_coroutine now (w_sched w)) (\<lambda>s. ret (with_sched s w))"
| "worker_exec e listen_fd (W_switch able now rs opts stack_ok) w = worker_switch e able now rs opts stack_ok w"
| "worker_exec e listen_fd (W_poll fds) w =
     run_bind (event_cycle hook_call fds (rt_loop (w_rt w)) (w_sched w)) (\<lambda>s. ret (with_sched s w))"
| "worker_exec e listen_fd (W_accept trylock able now rs opts stack_ok) w =
     worker_accept_cycle e listen_fd trylock able now rs opts stack_ok w"
| "worker_exec e listen_fd (W_call hk able now rs) w =
     run_bind (hook_try hk able now rs (w_rt w)) (\<lambda>(out, rs', rt').
       ret (w\<lparr>w_rt := rt', w_pend := if out = Hook_wait then (w_pend w)(current (w_sched w) \<mapsto> hk) else w_pend w\<rparr>))"
| "worker_exec e listen_fd W_finish w =
     (case coro_func (w_sched w) (current (w_sched w)) of Handle connfd \<Rightarrow> handle_connection connfd w | Accept_cycle \<Rightarrow> ret w)"
| "worker_exec e listen_fd (W_signal signo) w = ret (worker_signal_handler signo w)"


subsection \<open>The invariant\<close>

text \<open>The hooks a coroutine calls.\<close>

fun hook_for :: "int \<Rightarrow> coro_body \<Rightarrow> hook \<Rightarrow> bool" where
  "hook_for listen_fd Accept_cycle hk \<longleftrightarrow> hk = accept_hook listen_fd"
| "hook_for listen_fd (Handle connfd) hk \<longleftrightarrow> hk = recv_hook connfd \<or> hk = send_hook connfd"

text \<open>\<open>B\<close> are the busy coroutines, \<open>f\<close> what they run: at most one accept loop, and one handler for each open connection;
  \<open>connection_count\<close> is their number. The lock is held exactly while the accept loop sleeps in \<open>accept\<close>.\<close>

definition crew :: "env \<Rightarrow> int \<Rightarrow> worker_state \<Rightarrow> ptr set \<Rightarrow> (ptr \<Rightarrow> coro_body) \<Rightarrow> bool" where
  "crew e listen_fd w B f \<longleftrightarrow>
     finite B \<and> B \<noteq> {} \<and> int (card B) = connection_count w \<and> inj_on f B \<and> f ` B - {Accept_cycle} = Handle ` w_conns w \<and>
     (\<forall>fd \<in> w_conns w. 0 < fd \<and> fd \<noteq> listen_fd) \<and>
     (\<forall>c hk. w_pend w c = Some hk \<longrightarrow> hook_for listen_fd (f c) hk) \<and>
     (w_lock w \<longleftrightarrow> g_worker_processes e > 1 \<and> (\<exists>c hk. w_pend w c = Some hk \<and> f c = Accept_cycle)) \<and>
     (w_lock w \<longrightarrow> connection_count w < g_worker_connections e) \<and>
     (Accept_cycle \<notin> f ` B \<longrightarrow> g_shall_stop w \<noteq> 0)"

definition worker_inv :: "env \<Rightarrow> int \<Rightarrow> worker_state \<Rightarrow> sched_view \<Rightarrow> bool" where
  "worker_inv e listen_fd w v \<longleftrightarrow>
     runtime_ok (w_rt w) v (w_pend w) \<and> crew e listen_fd w (busy v) (coro_func (w_sched w)) \<and>
     int (max_coro_size (w_sched w)) = g_worker_connections e \<and> g_worker_connections e \<le> INT_MAX \<and> 0 \<le> listen_fd"

lemma with_sched_sel [simp]:
  "w_rt (with_sched s w) = (w_rt w)\<lparr>rt_sched := s\<rparr>" "w_sched (with_sched s w) = s" "w_pend (with_sched s w) = w_pend w"
  "connection_count (with_sched s w) = connection_count w" "w_conns (with_sched s w) = w_conns w" "w_lock (with_sched s w) = w_lock w"
  "g_shall_stop (with_sched s w) = g_shall_stop w" "g_shall_exit (with_sched s w) = g_shall_exit w"
  by (simp_all add: with_sched_def w_sched_def)

lemma close_conn_sel:
  "w_rt (close_conn n w) = w_rt w" "w_pend (close_conn n w) = w_pend w" "w_sched (close_conn n w) = w_sched w"
  "connection_count (close_conn n w) = connection_count w" "w_lock (close_conn n w) = w_lock w"
  "w_conns (close_conn n w) = w_conns w - {n}" "g_shall_stop (close_conn n w) = g_shall_stop w"
  by (simp_all add: close_conn_def w_sched_def)

lemma crew_rt [simp]: "crew e l (w\<lparr>w_rt := rt\<rparr>) B f = crew e l w B f" "crew e l (with_sched s w) B f = crew e l w B f"
  by (simp_all add: crew_def)

lemma worker_invD:
  assumes "worker_inv e l w v"
  shows "runtime_ok (w_rt w) v (w_pend w)" "crew e l w (busy v) (coro_func (w_sched w))" "int (max_coro_size (w_sched w)) = g_worker_connections e"
    "g_worker_connections e \<le> INT_MAX" "0 \<le> l"
  using assms by (auto simp: worker_inv_def)

lemma crewD:
  assumes "crew e l w B f"
  shows "finite B" "B \<noteq> {}" "int (card B) = connection_count w" "inj_on f B" "f ` B - {Accept_cycle} = Handle ` w_conns w"
    "fd \<in> w_conns w \<Longrightarrow> 0 < fd \<and> fd \<noteq> l" "w_pend w c = Some hk \<Longrightarrow> hook_for l (f c) hk"
    "w_lock w \<longleftrightarrow> g_worker_processes e > 1 \<and> (\<exists>c hk. w_pend w c = Some hk \<and> f c = Accept_cycle)"
    "w_lock w \<Longrightarrow> connection_count w < g_worker_connections e" "Accept_cycle \<notin> f ` B \<Longrightarrow> g_shall_stop w \<noteq> 0"
  using assms by (auto simp: crew_def)

text \<open>A coroutine that sleeps in a hook is busy.\<close>

lemma pend_busy: "worker_inv e l w v \<Longrightarrow> w_pend w c = Some hk \<Longrightarrow> c \<in> busy v"
  using pendingD(3,4) [OF runtime_okD(3) [OF worker_invD(1)]] by (simp add: busy_def)

lemma runner_busy:
  assumes "worker_inv e l w v" and "runner (w_sched w) = Some c"
  shows "c \<in> busy v" "w_pend w c = None" "current (w_sched w) = c"
proof -
  note ok = runtime_okD [OF worker_invD(1) [OF assms(1)]]
  from sched_state_out [OF ok(1)] assms(2) show "c \<in> busy v" "current (w_sched w) = c" by (auto simp: busy_def w_sched_def)
  show "w_pend w c = None" using pendingD(5) [OF ok(3), of c] assms(2) by (cases "w_pend w c") (auto simp: w_sched_def)
qed

lemma busy_card: "worker_inv e l w v \<Longrightarrow> connection_count w \<le> g_worker_connections e"
proof -
  assume inv: "worker_inv e l w v"
  from runtime_okD(6) [OF worker_invD(1) [OF inv]] have "finite (coroutines v)" "card (coroutines v) \<le> max_coro_size (w_sched w)"
    by (auto simp: sched_rep_def sched_inv_def w_sched_def)
  then have "card (busy v) \<le> max_coro_size (w_sched w)" using card_mono [of "coroutines v" "busy v"] by (auto simp: busy_def)
  with worker_invD(2,3) [OF inv] show ?thesis by (simp add: crew_def)
qed

text \<open>Steps that leave the crew alone.\<close>

lemma worker_inv_rt:
  assumes "worker_inv e l w v" and "runtime_ok rt v' (w_pend w)" and "busy v' = busy v" and "same_code (w_sched w) (rt_sched rt)"
  shows "worker_inv e l (w\<lparr>w_rt := rt\<rparr>) v'"
  using assms by (simp add: worker_inv_def same_code_def w_sched_def)

lemma worker_inv_sched:
  assumes "worker_inv e l w v" and "runtime_ok ((w_rt w)\<lparr>rt_sched := s\<rparr>) v' (w_pend w)" and "busy v' = busy v" and "same_code (w_sched w) s"
  shows "worker_inv e l (with_sched s w) v'"
  using worker_inv_rt [OF assms(1,2,3)] assms(4) by (simp add: with_sched_def)

subsection \<open>A coroutine ends\<close>

text \<open>A coroutine that does not sleep leaves the crew.\<close>

lemma crew_leaves:
  assumes crew: "crew e l w B f" and c: "c \<in> B" "w_pend w c = None" and left: "B \<noteq> {c}"
    and w': "w_pend w' = w_pend w" "w_lock w' = w_lock w" "connection_count w' = connection_count w - 1" "g_shall_stop w' = g_shall_stop w"
    and conns: "case f c of Handle fd \<Rightarrow> w_conns w' = w_conns w - {fd} | Accept_cycle \<Rightarrow> w_conns w' = w_conns w \<and> g_shall_stop w \<noteq> 0"
  shows "crew e l w' (B - {c}) f"
proof -
  note d = crewD [OF crew]
  have img: "f ` (B - {c}) = f ` B - {f c}" using d(4) c(1) by (auto dest: inj_onD)
  have "f ` (B - {c}) - {Accept_cycle} = Handle ` w_conns w'"
  proof (cases "f c")
    case (Handle fd)
    have "f ` (B - {c}) - {Accept_cycle} = Handle ` w_conns w - {Handle fd}" unfolding img Handle d(5) [symmetric] by blast
    moreover have "w_conns w' = w_conns w - {fd}" using conns Handle by simp
    ultimately show ?thesis by auto
  next
    case Accept_cycle
    with conns have "w_conns w' = w_conns w" by simp
    then show ?thesis using d(5) unfolding img Accept_cycle by auto
  qed
  moreover have "int (card (B - {c})) = connection_count w'" using d(1,3) c(1) w'(3) card_Suc_Diff1 [OF d(1) c(1)] by simp
  moreover have "w_lock w' \<longrightarrow> connection_count w' < g_worker_connections e" using d(9) w'(2,3) by auto
  moreover have "Accept_cycle \<notin> f ` (B - {c}) \<longrightarrow> g_shall_stop w' \<noteq> 0"
  proof (cases "f c = Accept_cycle")
    case False
    then have "Accept_cycle \<notin> f ` (B - {c}) \<Longrightarrow> Accept_cycle \<notin> f ` B" unfolding img by auto
    with d(10) w'(4) show ?thesis by auto
  qed (use conns w'(4) in simp)
  moreover have "\<forall>fd \<in> w_conns w'. 0 < fd \<and> fd \<noteq> l" using d(6) conns by (cases "f c") auto
  moreover have "B - {c} \<noteq> {}" using left c(1) by auto
  ultimately show ?thesis using d(1,4,7,8) w'(1,2) unfolding crew_def by (simp add: inj_on_diff)
qed

lemma crew_count: "crew e l w B f \<Longrightarrow> c \<in> B \<Longrightarrow> connection_count w = 1 \<longleftrightarrow> B = {c}"
proof -
  assume a: "crew e l w B f" "c \<in> B"
  then have "finite B" "int (card B) = connection_count w" by (simp_all add: crew_def)
  with a(2) card_1_singleton_iff [of B] show ?thesis by auto
qed

lemma returns_inv:
  assumes inv: "worker_inv e l w v" and c: "runner (w_sched w) = Some c"
    and w': "w_rt w' = w_rt w" "w_pend w' = w_pend w" and crew: "crew e l w' (busy v - {c}) (coro_func (w_sched w))"
  shows "\<exists>v'. worker_inv e l (coro_returns w') v' \<and> busy v' = busy v - {c}"
proof -
  note d = worker_invD [OF inv] and o = runtime_okD [OF worker_invD(1) [OF inv]]
  have r: "runner (rt_sched (w_rt w)) = Some c" using c by (simp add: w_sched_def)
  from call_runs [OF d(1), of Return] r obtain v' :: sched_view where
    v': "runtime_ok ((w_rt w)\<lparr>rt_sched := coro_routine_end (rt_sched (w_rt w))\<rparr>) v' (w_pend w)"
      "sched_spec (Return :: coro_body sched_op) (v, Some c) (v', runner (coro_routine_end (rt_sched (w_rt w))))" by (auto simp: ret_def)
  have b: "busy v' = busy v - {c}" using spec_busy(3) [OF o(4,5) v'(2)] r by simp
  have same: "w_sched w' = w_sched w" using w'(1) by (simp add: w_sched_def)
  have "worker_inv e l (coro_returns w') v'"
    using v'(1) crew d(3-5) b w' coro_routine_end_keeps [of "w_sched w"] same
    by (simp add: worker_inv_def coro_returns_def same_code_def w_sched_def)
  with b show ?thesis by blast
qed

text \<open>The last coroutine ends the process; otherwise the others go on.\<close>

lemma ends_inv:
  assumes inv: "worker_inv e l w v" and c: "runner (w_sched w) = Some c"
    and w': "w_rt w' = w_rt w" "w_pend w' = w_pend w" "w_lock w' = w_lock w" "connection_count w' = connection_count w"
      "g_shall_stop w' = g_shall_stop w"
    and conns: "case coro_func (w_sched w) c of Handle fd \<Rightarrow> w_conns w' = w_conns w - {fd} | Accept_cycle \<Rightarrow> w_conns w' = w_conns w \<and> g_shall_stop w \<noteq> 0"
  shows "if busy v = {c} then decrease_conn_and_check w' = Exit 0
    else \<exists>w1 v'. decrease_conn_and_check w' = Ret w1 \<and> worker_inv e l (coro_returns w1) v' \<and> busy v' = busy v - {c} \<and>
      w_conns (coro_returns w1) = w_conns w' \<and> coro_func (w_sched (coro_returns w1)) = coro_func (w_sched w)"
proof -
  note d = worker_invD [OF inv] and b = runner_busy [OF inv c]
  have pos: "0 < connection_count w" using crewD(1-3) [OF d(2)] card_gt_0_iff [of "busy v"] by simp
  have dec: "decrease_conn_and_check w' = (if busy v = {c} then Exit 0 else Ret (w'\<lparr>connection_count := connection_count w - 1\<rparr>))"
    using crew_count [OF d(2) b(1)] pos by (auto simp: decrease_conn_and_check_def w'(4) INT_MAX_def)
  show ?thesis
  proof (cases "busy v = {c}")
    case False
    let ?w = "w'\<lparr>connection_count := connection_count w - 1\<rparr>"
    have "crew e l ?w (busy v - {c}) (coro_func (w_sched w))"
      by (rule crew_leaves [OF d(2) b(1,2) False]) (use w' conns in \<open>simp_all split: coro_body.splits\<close>)
    moreover have "coro_func (w_sched (coro_returns ?w)) = coro_func (w_sched w)"
      using coro_routine_end_keeps [of "w_sched w"] w'(1) by (simp add: coro_returns_def w_sched_def same_code_def)
    ultimately show ?thesis using returns_inv [OF inv c, of ?w] w' dec False by (auto simp: coro_returns_def)
  qed (use dec in simp)
qed

subsection \<open>Hooks of the crew\<close>

lemma handles:
  assumes "worker_inv e l w v" and "x \<in> busy v" "coro_func (w_sched w) x = Handle fd"
  shows "fd \<in> w_conns w"
proof -
  have "Handle fd \<in> coro_func (w_sched w) ` busy v - {Accept_cycle}" using assms(2,3) by (metis DiffI coro_body.distinct(1) image_eqI singletonD)
  then show ?thesis unfolding crewD(5) [OF worker_invD(2) [OF assms(1)]] by auto
qed

lemma hook_for_ok:
  assumes inv: "worker_inv e l w v" and c: "c \<in> busy v" and hk: "hook_for l (coro_func (w_sched w) c) hk"
  shows "hook_ok hk"
proof -
  note d = worker_invD [OF inv] and crew = crewD [OF worker_invD(2) [OF inv]]
  show ?thesis using hk handles [OF inv c] d(5)
    by (cases "coro_func (w_sched w) c") (auto simp: hook_ok_def accept_hook_def recv_hook_def send_hook_def EVENT_READABLE_def EVENT_WRITABLE_def
      EVENT_NONE_def dest: crew(6))
qed

text \<open>No other coroutine is registered for the descriptor of a hook that a coroutine may call.\<close>

lemma hook_free:
  assumes inv: "worker_inv e l w v" and c: "runner (w_sched w) = Some c" and hk: "hook_for l (coro_func (w_sched w) c) hk"
  shows "hook_ok hk" "\<not> watched (rt_loop (w_rt w)) (hk_fd hk)"
proof -
  note d = worker_invD [OF inv] and b = runner_busy [OF inv c]
  note crew = crewD [OF d(2)]
  let ?f = "coro_func (w_sched w)"
  note conn = handles [OF inv]
  show "hook_ok hk" by (rule hook_for_ok [OF inv b(1) hk])
  show "\<not> watched (rt_loop (w_rt w)) (hk_fd hk)"
  proof
    assume "watched (rt_loop (w_rt w)) (hk_fd hk)"
    from pending_watched [OF runtime_okD(3) [OF d(1)] this] obtain x hk' where x: "w_pend w x = Some hk'" "hk_fd hk' = hk_fd hk" by blast
    have xb: "x \<in> busy v" by (rule pend_busy [OF inv x(1)])
    have "l \<notin> w_conns w" using crew(6) [of l] by blast
    then have "?f x = ?f c"
      using crew(7) [OF x(1)] hk x(2) conn [OF b(1)] conn [OF xb]
      by (cases "?f x"; cases "?f c") (auto simp: accept_hook_def recv_hook_def send_hook_def)
    then have "x = c" using crew(4) xb b(1) by (auto dest: inj_onD)
    with x(1) b(2) show False by simp
  qed
qed

text \<open>A coroutine goes to sleep in a hook.\<close>

lemma crew_sleeps:
  assumes crew: "crew e l w B f" and c: "hook_for l (f c) hk" "w_pend w c = None"
    and w': "w_pend w' = (w_pend w)(c \<mapsto> hk)" "connection_count w' = connection_count w" "w_conns w' = w_conns w" "g_shall_stop w' = g_shall_stop w"
    and lock: "if f c = Accept_cycle then (w_lock w' \<longleftrightarrow> g_worker_processes e > 1) \<and> (w_lock w' \<longrightarrow> connection_count w < g_worker_connections e)
      else w_lock w' = w_lock w"
  shows "crew e l w' B f"
proof -
  note d = crewD [OF crew]
  have "(\<exists>x h. w_pend w' x = Some h \<and> f x = Accept_cycle) \<longleftrightarrow> f c = Accept_cycle \<or> (\<exists>x h. w_pend w x = Some h \<and> f x = Accept_cycle)"
    unfolding w'(1) using c(2) by (metis fun_upd_apply option.distinct(1))
  then have "w_lock w' \<longleftrightarrow> g_worker_processes e > 1 \<and> (\<exists>x h. w_pend w' x = Some h \<and> f x = Accept_cycle)"
    using d(8) lock by (cases "f c = Accept_cycle") auto
  moreover have "w_lock w' \<longrightarrow> connection_count w' < g_worker_connections e" using d(9) lock w'(2) by (auto split: if_splits)
  moreover have "hook_for l (f x) h" if "w_pend w' x = Some h" for x h using that d(7) c(1) w'(1) by (auto split: if_splits)
  ultimately show ?thesis using d(1-6,10) w'(2-4) unfolding crew_def by auto
qed

text \<open>A coroutine goes on after a hook; the accept loop gives the lock back.\<close>

lemma crew_wakes:
  assumes crew: "crew e l w B f" and c: "w_pend w c = Some hk" "c \<in> B" "dom (w_pend w) \<subseteq> B"
    and w': "w_pend w' = (w_pend w)(c := None)" "connection_count w' = connection_count w" "w_conns w' = w_conns w" "g_shall_stop w' = g_shall_stop w"
    and lock: "if f c = Accept_cycle then \<not> w_lock w' else w_lock w' = w_lock w"
  shows "crew e l w' B f"
proof -
  note d = crewD [OF crew]
  have one: "x = c" if "w_pend w x = Some h" "f x = Accept_cycle" "f c = Accept_cycle" for x h
    using inj_onD [OF d(4), of x c] c(2,3) that by auto
  have "(\<exists>x h. w_pend w' x = Some h \<and> f x = Accept_cycle) \<longleftrightarrow> f c \<noteq> Accept_cycle \<and> (\<exists>x h. w_pend w x = Some h \<and> f x = Accept_cycle)"
    unfolding w'(1) using one by (metis fun_upd_apply option.distinct(1))
  then have "w_lock w' \<longleftrightarrow> g_worker_processes e > 1 \<and> (\<exists>x h. w_pend w' x = Some h \<and> f x = Accept_cycle)"
    using d(8) lock by (cases "f c = Accept_cycle") auto
  moreover have "w_lock w' \<longrightarrow> connection_count w' < g_worker_connections e" using d(9) lock w'(2) by (auto split: if_splits)
  moreover have "hook_for l (f x) h" if "w_pend w' x = Some h" for x h using that d(7) w'(1) by (auto split: if_splits)
  ultimately show ?thesis using d(1-6,10) w'(2-4) unfolding crew_def by auto
qed

subsection \<open>Accepted connections\<close>

text \<open>A handler joins the crew.\<close>

lemma crew_joins:
  assumes crew: "crew e l w B f" and d: "d \<notin> B" "dom (w_pend w) \<subseteq> B" and n: "0 < n" "n \<noteq> l" "n \<notin> w_conns w" and lock: "\<not> w_lock w"
    and w': "w_pend w' = w_pend w" "w_lock w' = w_lock w" "connection_count w' = connection_count w + 1" "g_shall_stop w' = g_shall_stop w"
      "w_conns w' = insert n (w_conns w)"
  shows "crew e l w' (insert d B) (f(d := Handle n))"
proof -
  note c = crewD [OF crew]
  let ?f = "f(d := Handle n)"
  have pend: "w_pend w d = None" using d by blast
  have same: "?f ` B = f ` B" using d(1) by (auto simp: image_def)
  have "Handle n \<notin> f ` B" using c(5) n(3) by blast
  moreover have "inj_on ?f B" using c(4) d(1) by (subst inj_on_cong [of B ?f f]) auto
  ultimately have "inj_on ?f (insert d B)" using d(1) same by (simp add: inj_on_insert)
  moreover have ins: "?f ` insert d B = insert (Handle n) (f ` B)" unfolding image_insert same fun_upd_same ..
  then have "?f ` insert d B - {Accept_cycle} = Handle ` w_conns w'" using c(5) unfolding w'(5) by auto
  moreover have "?f x = f x" if "w_pend w x = Some hk" for x hk using that pend by auto
  moreover have "Accept_cycle \<notin> ?f ` insert d B \<longrightarrow> g_shall_stop w' \<noteq> 0" using c(10) unfolding w'(4) ins by auto
  ultimately show ?thesis
    using c(1,3,6,7,8) d(1) n(1,2) lock pend w' unfolding crew_def by (auto split: if_splits)
qed

lemma dispatch_inv:
  assumes inv: "worker_inv e l (close_conn n w) v" and n: "0 < n" "n \<noteq> l" "n \<in> w_conns w" and lock: "\<not> w_lock w"
    and c: "runner (w_sched w) = Some c"
  shows "\<exists>w' v'. accepted ok now n w = ret w' \<and> worker_inv e l w' v' \<and>
    (if n \<in> w_conns w' then w_conns w' = w_conns w \<and> connection_count w' = connection_count w + 1 \<and>
       (\<exists>d. v_ready v' = v_ready v @ [d] \<and> coro_func (w_sched w') d = Handle n)
     else w_conns w' = w_conns w - {n} \<and> connection_count w' = connection_count w \<and>
       (connection_count w = g_worker_connections e \<or> fst (malloc (heap (w_sched w))) = 0 \<or> \<not> ok))"
proof -
  note d = worker_invD [OF inv]
  let ?w = "close_conn n w" and ?s = "w_sched w"
  note same = close_conn_sel [of n w]
  note o = runtime_okD [OF d(1)]
  have st: "sched_state ?s v" "sched_rep ?s v" using o(1,6) same(1) by (simp_all add: w_sched_def)
  from dispatch_view [OF st(2), of ok "Handle n" "Some c"] obtain r s' v' where
    s': "dispatch_coro ok (Handle n) ?s = ret (r, s')" "sched_rep s' v'" "same_static ?s s'" "v_out v' = v_out v"
      "sched_spec (Dispatch ok (Handle n)) (v, Some c) (v', Some c)"
    and res: "r = -1 \<and> v' = v \<and> v_idle v = [] \<and> same_code ?s s' \<and> (curr_coro_size ?s = max_coro_size ?s \<or> fst (malloc (heap ?s)) = 0 \<or> \<not> ok) \<or>
     r = 0 \<and> (\<exists>x. v_ready v' = v_ready v @ [x] \<and> coro_func s' = (coro_func ?s)(x := Handle n))" by blast
  have run': "runner s' = Some c" using runner_static [OF s'(3)] c by simp
  have "sched_state s' v'" using s'(2,4) run' st(1) c by (auto simp: sched_state_def)
  from call_keeps [OF d(1) _ this, of "Dispatch ok (Handle n)"] s'(5) run' c same
  have ok': "runtime_ok ((w_rt w)\<lparr>rt_sched := s'\<rparr>) v' (w_pend w)" by (simp add: w_sched_def)
  have max: "max_coro_size s' = max_coro_size ?s" using s'(3) by (simp add: same_static_def)
  from res consider "r = -1" "v' = v" "v_idle v = []" "same_code ?s s'" "curr_coro_size ?s = max_coro_size ?s \<or> fst (malloc (heap ?s)) = 0 \<or> \<not> ok"
    | x where "r = 0" "v_ready v' = v_ready v @ [x]" "coro_func s' = (coro_func ?s)(x := Handle n)" by blast
  then show ?thesis
  proof cases
    case f: 1
    have "with_sched s' ?w = close_conn n (with_sched s' w)" by (simp add: close_conn_def with_sched_def)
    moreover have "worker_inv e l (with_sched s' ?w) v" using worker_inv_sched [OF inv] ok' f(2,4) same by simp
    ultimately have "worker_inv e l (close_conn n (with_sched s' w)) v" by simp
    moreover have "connection_count w = g_worker_connections e" if "curr_coro_size ?s = max_coro_size ?s"
    proof -
      have "busy v = coroutines v" using f(3) by (simp add: busy_def)
      moreover have "card (coroutines v) = curr_coro_size ?s" using st(2) by (auto simp: sched_rep_def sched_inv_def)
      ultimately show ?thesis using crewD(3) [OF d(2)] d(3) that same by simp
    qed
    ultimately show ?thesis using s'(1) n(1) f(1,5)
      by (intro exI [of _ "close_conn n (with_sched s' w)"] exI [of _ v]) (auto simp: accepted_def run_bind_def ret_def close_conn_sel)
  next
    case f: 2
    from spec_busy(4) [OF o(4) _ s'(5) f(2)] o(5) c same have b: "busy v' = insert x (busy v)" "x \<notin> busy v" by (auto simp: w_sched_def)
    let ?w' = "(with_sched s' w)\<lparr>connection_count := connection_count w + 1\<rparr>"
    have crew: "crew e l ?w (busy v) (coro_func ?s)" using d(2) same by simp
    have "crew e l ?w' (insert x (busy v)) ((coro_func ?s)(x := Handle n))"
    proof (rule crew_joins [OF crew b(2) _ n(1,2)])
      show "dom (w_pend ?w) \<subseteq> busy v" using pend_busy [OF inv] by auto
    qed (use lock n(3) same in auto)
    then have inv': "worker_inv e l ?w' v'" using ok' d(3-5) b(1) f(3) max same by (simp add: worker_inv_def w_sched_def)
    have "connection_count w < INT_MAX" using busy_card [OF inv'] d(4) by (simp add: same)
    then have "accepted ok now n w = ret ?w'"
      using s'(1) n(1) f(1) by (simp add: accepted_def run_bind_def ret_def increase_conn_def)
    with inv' n(3) f(2,3) show ?thesis
      by (intro exI [of _ ?w'] exI [of _ v']) (auto simp: w_sched_def with_sched_def)
  qed
qed

text \<open>What \<open>accept\<close> may have returned: an error or a descriptor that was not in use.\<close>

definition fresh_fd :: "int \<Rightarrow> worker_state \<Rightarrow> int \<Rightarrow> bool" where
  "fresh_fd listen_fd w n \<longleftrightarrow> n < 0 \<or> 0 < n \<and> n \<noteq> listen_fd \<and> n \<notin> w_conns w"

lemma unlock_sel [simp]:
  "w_rt (unlock_accept e w) = w_rt w" "w_pend (unlock_accept e w) = w_pend w" "w_sched (unlock_accept e w) = w_sched w"
  "connection_count (unlock_accept e w) = connection_count w" "w_conns (unlock_accept e w) = w_conns w"
  "g_shall_stop (unlock_accept e w) = g_shall_stop w" "w_lock (unlock_accept e w) \<longleftrightarrow> g_worker_processes e \<le> 1 \<and> w_lock w"
  by (auto simp: unlock_accept_def w_sched_def)

lemma accept_ends_cases:
  "accept_ends e opts n w =
     (if n < 0 then (n, unlock_accept e w)
      else if opts = (True, True, True) then (n, unlock_accept e (w\<lparr>w_conns := insert n (w_conns w)\<rparr>))
      else (if \<not> fst opts then -4 else if \<not> fst (snd opts) then -5 else -6, unlock_accept e w))"
  by (cases opts) (auto simp: accept_ends_def accept_options_def)

lemma after_accept:
  assumes inv: "worker_inv e l (unlock_accept e w) v" and c: "runner (w_sched w) = Some c" and n: "fresh_fd l w n"
  shows "\<exists>w' v'. (case accept_ends e opts n w of (connfd, w2) \<Rightarrow> accepted ok now connfd w2) = ret w' \<and> worker_inv e l w' v' \<and>
    (0 < n \<and> opts = (True, True, True) \<longrightarrow>
       (if n \<in> w_conns w' then connection_count w' = connection_count w + 1 \<and> w_conns w' = insert n (w_conns w)
        else connection_count w' = connection_count w \<and> w_conns w' = w_conns w \<and>
          (connection_count w = g_worker_connections e \<or> fst (malloc (heap (w_sched w))) = 0 \<or> \<not> ok)))"
proof (cases "0 \<le> n \<and> opts = (True, True, True)")
  case True
  let ?w = "unlock_accept e (w\<lparr>w_conns := insert n (w_conns w)\<rparr>)"
  have n': "0 < n" "n \<noteq> l" "n \<notin> w_conns w" using n True by (auto simp: fresh_fd_def)
  have "close_conn n ?w = unlock_accept e w" using n'(3) by (simp add: close_conn_def unlock_accept_def)
  then have inv': "worker_inv e l (close_conn n ?w) v" using inv by simp
  have lock: "\<not> w_lock ?w" using crewD(8) [OF worker_invD(2) [OF inv]] by auto
  have s: "w_sched ?w = w_sched w" by (simp add: w_sched_def)
  from dispatch_inv [OF inv' n'(1,2) _ lock, of c ok now] c s obtain w' v' where
    w': "accepted ok now n ?w = ret w'" "worker_inv e l w' v'"
      "if n \<in> w_conns w' then w_conns w' = insert n (w_conns w) \<and> connection_count w' = connection_count w + 1
       else w_conns w' = insert n (w_conns w) - {n} \<and> connection_count w' = connection_count w \<and>
         (connection_count w = g_worker_connections e \<or> fst (malloc (heap (w_sched w))) = 0 \<or> \<not> ok)"
    by (auto split: if_splits)
  then show ?thesis using True n'(3) by (intro exI [of _ w'] exI [of _ v']) (auto simp: accept_ends_cases split: if_splits)
next
  case False
  then have "\<exists>m<0. accept_ends e opts n w = (m, unlock_accept e w)" by (auto simp: accept_ends_cases)
  with inv False show ?thesis by (auto simp: accepted_def ret_def intro: exI [of _ "unlock_accept e w"])
qed

lemma no_lock:
  assumes inv: "worker_inv e l w v" and c: "runner (w_sched w) = Some c" "coro_func (w_sched w) c = Accept_cycle"
  shows "\<not> w_lock w"
proof
  note d = crewD [OF worker_invD(2) [OF inv]] and b = runner_busy [OF inv c(1)]
  assume "w_lock w"
  then obtain x hk where x: "w_pend w x = Some hk" "coro_func (w_sched w) x = Accept_cycle" using d(8) by blast
  have "x = c" using inj_onD [OF d(4), of x c] pend_busy [OF inv x(1)] b(1) x(2) c(2) by simp
  with x(1) b(2) show False by simp
qed

text \<open>\<open>accept\<close> called by the accept loop, with the lock taken when there are several workers.\<close>

lemma accept_call_inv:
  assumes inv: "worker_inv e l w v" and c: "runner (w_sched w) = Some c" "coro_func (w_sched w) c = Accept_cycle"
    and near: "timers_near (now + ACCEPT_TIMEOUT) v" and r: "first_result rs = Some r"
    and w1: "w1 = (if g_worker_processes e > 1 then w\<lparr>w_lock := True\<rparr> else w)"
    and can: "g_worker_processes e > 1 \<longrightarrow> worker_can_accept e w"
  shows "\<exists>out w2. accept_call l able now rs w1 = ret (out, w2) \<and>
    (case out of Hook_ret n \<Rightarrow> w2 = w1 \<and> unlock_accept e w2 = w \<and> (n < 0 \<or> r = Sys_ok (nat n) \<and> 0 \<le> n) \<and> (\<forall>k. r = Sys_ok k \<longrightarrow> n = int k)
     | Hook_wait \<Rightarrow> (\<exists>v'. worker_inv e l w2 v' \<and> busy v' = busy v \<and> w_conns w2 = w_conns w) \<and> (\<forall>k. r \<noteq> Sys_ok k))"
proof -
  note d = worker_invD [OF inv] and b = runner_busy [OF inv c(1)]
  let ?hk = "accept_hook l"
  have sel: "w_rt w1 = w_rt w" "w_pend w1 = w_pend w" "w_sched w1 = w_sched w" by (simp_all add: w1 w_sched_def)
  have hk: "hook_for l (coro_func (w_sched w) c) ?hk" using c(2) by simp
  have r': "runner (rt_sched (w_rt w)) = Some c" using c(1) by (simp add: w_sched_def)
  have near': "timers_near (now + hk_timeout ?hk) v" using near by (simp add: accept_hook_def)
  from hook_try_correct [OF d(1) r' b(2) hook_free [OF inv c(1) hk] near' r, of able] obtain out rs' rt' where
    run: "hook_try ?hk able now rs (w_rt w) = ret (out, rs', rt')"
    and res: "case r of Sys_ok n \<Rightarrow> out = Hook_ret (int n) \<and> rt' = w_rt w
     | Sys_err err \<Rightarrow> if fd_not_ready err
         then out = Hook_ret (-2) \<and> rt' = w_rt w \<or> out = Hook_wait \<and> runner (rt_sched rt') = None \<and>
           (\<exists>v'. runtime_ok rt' v' ((w_pend w)(c \<mapsto> ?hk)) \<and> sleeps c v' \<and> v_ready v' = v_ready v \<and> busy v' = busy v)
         else out = Hook_ret (-1) \<and> rt' = w_rt w" by blast
  let ?w2 = "w1\<lparr>w_rt := rt', w_pend := if out = Hook_wait then (w_pend w1)(current (w_sched w1) \<mapsto> ?hk) else w_pend w1\<rparr>"
  have call: "accept_call l able now rs w1 = ret (out, ?w2)" using run sel by (simp add: accept_call_def run_bind_def ret_def)
  show ?thesis
  proof (cases out)
    case (Hook_ret n)
    with res have rt: "rt' = w_rt w" by (auto split: sys.splits if_splits)
    then have w2: "?w2 = w1" using Hook_ret sel by simp
    have lock: "w_lock w = False" using no_lock [OF inv c] by simp
    have "unlock_accept e w1 = w" using lock by (simp add: unlock_accept_def w1)
    moreover have "n < 0 \<or> r = Sys_ok (nat n) \<and> 0 \<le> n" "\<forall>k. r = Sys_ok k \<longrightarrow> n = int k"
      using res Hook_ret by (auto split: sys.splits if_splits)
    ultimately show ?thesis using call w2 Hook_ret by (intro exI [of _ out] exI [of _ w1]) simp
  next
    case Hook_wait
    with res obtain v' where v': "runtime_ok rt' v' ((w_pend w)(c \<mapsto> ?hk))" "busy v' = busy v" "\<forall>k. r \<noteq> Sys_ok k"
      by (auto split: sys.splits if_splits)
    let ?w' = "w1\<lparr>w_rt := rt', w_pend := (w_pend w)(c \<mapsto> ?hk)\<rparr>"
    have eq: "?w2 = ?w'" using Hook_wait sel b(3) by simp
    have "crew e l ?w' (busy v) (coro_func (w_sched w))"
      by (rule crew_sleeps [OF d(2) hk b(2)]) (use can no_lock [OF inv c] c(2) in \<open>auto simp: w1 worker_can_accept_def\<close>)
    moreover have "same_code (w_sched w) (rt_sched rt')" using hook_try_keeps [OF run] by (simp add: w_sched_def)
    ultimately have "worker_inv e l ?w' v'" using v'(1,2) d(3-5) by (simp add: worker_inv_def same_code_def w_sched_def)
    moreover have "w_conns ?w' = w_conns w" by (simp add: w1)
    ultimately show ?thesis using call eq v'(2,3) Hook_wait by (intro exI [of _ out] exI [of _ ?w']) auto
  qed
qed

subsection \<open>Every step keeps the invariant\<close>

text \<open>When a step may happen, and what it takes from outside: real calls return, \<open>accept\<close> returns descriptors that are
  not in use, \<open>epoll_wait\<close> reports registered descriptors once, the instants of timers are near.\<close>

fun worker_allowed :: "int \<Rightarrow> worker_op \<Rightarrow> worker_state \<Rightarrow> sched_view \<Rightarrow> bool" where
  "worker_allowed l (W_check now) w v \<longleftrightarrow> runner (w_sched w) = None"
| "worker_allowed l (W_switch able now rs opts stack_ok) w v \<longleftrightarrow> runner (w_sched w) = None \<and> first_result rs \<noteq> None \<and>
     (\<forall>c hk. w_pend w c = Some hk \<longrightarrow> timers_near (now + hk_timeout hk) v) \<and>
     (\<forall>c ys n. v_ready v = c # ys \<and> coro_func (w_sched w) c = Accept_cycle \<and> first_result rs = Some (Sys_ok n) \<longrightarrow> fresh_fd l w (int n))"
| "worker_allowed l (W_poll fds) w v \<longleftrightarrow> runner (w_sched w) = None \<and> v_ready v = [] \<and> distinct fds \<and>
     (\<forall>fd \<in> set fds. watched (rt_loop (w_rt w)) fd)"
| "worker_allowed l (W_accept trylock able now rs opts stack_ok) w v \<longleftrightarrow>
     (\<exists>c. runner (w_sched w) = Some c \<and> coro_func (w_sched w) c = Accept_cycle) \<and> first_result rs \<noteq> None \<and>
     timers_near (now + ACCEPT_TIMEOUT) v \<and> timers_near (now + 200) v \<and>
     (\<forall>n. first_result rs = Some (Sys_ok n) \<longrightarrow> fresh_fd l w (int n))"
| "worker_allowed l (W_call hk able now rs) w v \<longleftrightarrow>
     (\<exists>c connfd. runner (w_sched w) = Some c \<and> coro_func (w_sched w) c = Handle connfd \<and> hook_for l (Handle connfd) hk) \<and>
     first_result rs \<noteq> None \<and> timers_near (now + hk_timeout hk) v"
| "worker_allowed l W_finish w v \<longleftrightarrow> (\<exists>c connfd. runner (w_sched w) = Some c \<and> coro_func (w_sched w) c = Handle connfd)"
| "worker_allowed l (W_signal signo) w v \<longleftrightarrow> True"

text \<open>When the process may end: forced, or by the last coroutine after a stop signal.\<close>

definition may_exit :: "worker_state \<Rightarrow> bool" where
  "may_exit w \<longleftrightarrow> g_shall_stop w = 0 \<and> g_shall_exit w \<noteq> 0 \<or>
     g_shall_stop w \<noteq> 0 \<and> w_conns w = (case coro_func (w_sched w) (current (w_sched w)) of Accept_cycle \<Rightarrow> {} | Handle connfd \<Rightarrow> {connfd})"

fun may_end :: "worker_op \<Rightarrow> bool" where
  "may_end W_finish \<longleftrightarrow> True"
| "may_end (W_accept trylock able now rs opts stack_ok) \<longleftrightarrow> True"
| "may_end _ \<longleftrightarrow> False"

definition worker_goes :: "env \<Rightarrow> int \<Rightarrow> worker_op \<Rightarrow> worker_state \<Rightarrow> bool" where
  "worker_goes e l op w \<longleftrightarrow>
     (\<exists>w' v'. worker_exec e l op w = ret w' \<and> worker_inv e l w' v') \<or>
     may_end op \<and> worker_exec e l op w = Some (Exit 0) \<and> may_exit w"

lemma last_of_crew:
  assumes inv: "worker_inv e l w v" and c: "runner (w_sched w) = Some c" and last: "busy v = {c}" and stop: "g_shall_stop w \<noteq> 0 \<or> coro_func (w_sched w) c \<noteq> Accept_cycle"
  shows "may_exit w"
proof -
  note d = crewD [OF worker_invD(2) [OF inv]]
  have "Handle ` w_conns w = {coro_func (w_sched w) c} - {Accept_cycle}" using d(5) last by simp
  then have "w_conns w = (case coro_func (w_sched w) c of Accept_cycle \<Rightarrow> {} | Handle connfd \<Rightarrow> {connfd})"
    by (cases "coro_func (w_sched w) c") auto
  moreover have "g_shall_stop w \<noteq> 0" using stop d(10) last by auto
  ultimately show ?thesis using runner_busy(3) [OF inv c] by (simp add: may_exit_def)
qed

lemma check_goes: "worker_inv e l w v \<Longrightarrow> worker_allowed l (W_check now) w v \<Longrightarrow> worker_goes e l (W_check now) w"
proof -
  assume inv: "worker_inv e l w v" and al: "worker_allowed l (W_check now) w v"
  note d = worker_invD [OF inv]
  have r: "runner (rt_sched (w_rt w)) = None" using al by (simp add: w_sched_def)
  from call_runs [OF d(1), of "Check now"] r obtain s' :: "coro_body coro_schedule" and v' where
    s': "check_timeout_coroutine now (w_sched w) = ret s'" "runtime_ok ((w_rt w)\<lparr>rt_sched := s'\<rparr>) v' (w_pend w)"
      "sched_spec (Check now :: coro_body sched_op) (v, None) (v', runner s')" by (auto simp: w_sched_def)
  have "busy v' = busy v" using spec_busy(1) [OF runtime_okD(4) [OF d(1)] _ s'(3)] by simp
  from worker_inv_sched [OF inv s'(2) this keepsD [OF check_timeout_keeps s'(1)]] s'(1) show ?thesis
    by (auto simp: worker_goes_def run_bind_def ret_def)
qed

lemma poll_goes: "worker_inv e l w v \<Longrightarrow> worker_allowed l (W_poll fds) w v \<Longrightarrow> worker_goes e l (W_poll fds) w"
proof -
  assume inv: "worker_inv e l w v" and al: "worker_allowed l (W_poll fds) w v"
  note d = worker_invD [OF inv]
  have "rt_allowed (Rt_poll fds) (w_rt w) v (w_pend w)"
    using al run_next_view(1) [OF runtime_okD(6) [OF d(1)]] by (simp add: w_sched_def)
  from poll_wakes [OF d(1) this] obtain s' v' where
    s': "event_cycle hook_call fds (rt_loop (w_rt w)) (w_sched w) = ret s'" "runtime_ok ((w_rt w)\<lparr>rt_sched := s'\<rparr>) v' (w_pend w)" "busy v' = busy v"
    by (auto simp: w_sched_def)
  from worker_inv_sched [OF inv s'(2,3) keepsD [OF event_cycle_keeps s'(1)]] s'(1) show ?thesis
    by (auto simp: worker_goes_def run_bind_def ret_def)
qed

lemma finish_goes: "worker_inv e l w v \<Longrightarrow> worker_allowed l W_finish w v \<Longrightarrow> worker_goes e l W_finish w"
proof -
  assume inv: "worker_inv e l w v" and al: "worker_allowed l W_finish w v"
  from al obtain c fd where c: "runner (w_sched w) = Some c" "coro_func (w_sched w) c = Handle fd" by auto
  note b = runner_busy [OF inv c(1)]
  have run: "worker_exec e l W_finish w = run_bind (Some (decrease_conn_and_check (close_conn fd w))) (\<lambda>w1. ret (coro_returns w1))"
    using c(2) b(3) by (simp add: handle_connection_def)
  have e: "if busy v = {c} then decrease_conn_and_check (close_conn fd w) = Exit 0
    else \<exists>w1 v'. decrease_conn_and_check (close_conn fd w) = Ret w1 \<and> worker_inv e l (coro_returns w1) v' \<and> busy v' = busy v - {c} \<and>
      w_conns (coro_returns w1) = w_conns (close_conn fd w) \<and> coro_func (w_sched (coro_returns w1)) = coro_func (w_sched w)"
    by (rule ends_inv [OF inv c(1)]) (use c(2) in \<open>simp_all add: close_conn_sel\<close>)
  show ?thesis
  proof (cases "busy v = {c}")
    case True
    with e run last_of_crew [OF inv c(1)] c(2) show ?thesis by (simp add: worker_goes_def run_bind_def)
  next
    case False
    with e run show ?thesis by (auto simp: worker_goes_def run_bind_def)
  qed
qed

lemma signal_inv: "worker_inv e l w v \<Longrightarrow> worker_inv e l (worker_signal_handler signo w) v"
  by (cases signo) (auto simp: worker_inv_def crew_def w_sched_def)

lemma signal_goes: "worker_inv e l w v \<Longrightarrow> worker_goes e l (W_signal signo) w"
  using signal_inv [of e l w v signo] by (auto simp: worker_goes_def)

lemma hook_call_goes: "worker_inv e l w v \<Longrightarrow> worker_allowed l (W_call hk able now rs) w v \<Longrightarrow> worker_goes e l (W_call hk able now rs) w"
proof -
  assume inv: "worker_inv e l w v" and al: "worker_allowed l (W_call hk able now rs) w v"
  from al obtain c fd r where c: "runner (w_sched w) = Some c" "coro_func (w_sched w) c = Handle fd" "hook_for l (coro_func (w_sched w) c) hk"
    and r: "first_result rs = Some r" and near: "timers_near (now + hk_timeout hk) v" by auto
  note d = worker_invD [OF inv] and b = runner_busy [OF inv c(1)]
  have r': "runner (rt_sched (w_rt w)) = Some c" using c(1) by (simp add: w_sched_def)
  from hook_try_correct [OF d(1) r' b(2) hook_free [OF inv c(1,3)] near r, of able] obtain out rs' rt' where
    run: "hook_try hk able now rs (w_rt w) = ret (out, rs', rt')"
    and out: "case r of Sys_ok n \<Rightarrow> out = Hook_ret (int n) \<and> rt' = w_rt w
     | Sys_err err \<Rightarrow> if fd_not_ready err
         then out = Hook_ret (-2) \<and> rt' = w_rt w \<or> out = Hook_wait \<and> runner (rt_sched rt') = None \<and>
           (\<exists>v'. runtime_ok rt' v' ((w_pend w)(c \<mapsto> hk)) \<and> sleeps c v' \<and> v_ready v' = v_ready v \<and> busy v' = busy v)
         else out = Hook_ret (-1) \<and> rt' = w_rt w" by blast
  have res: "out \<noteq> Hook_wait \<and> rt' = w_rt w \<or> out = Hook_wait \<and> (\<exists>v'. runtime_ok rt' v' ((w_pend w)(c \<mapsto> hk)) \<and> busy v' = busy v)"
    using out by (cases r) (auto split: if_splits)
  let ?w = "w\<lparr>w_rt := rt', w_pend := if out = Hook_wait then (w_pend w)(current (w_sched w) \<mapsto> hk) else w_pend w\<rparr>"
  have exec: "worker_exec e l (W_call hk able now rs) w = ret ?w" using run by (simp add: run_bind_def ret_def)
  have "\<exists>v'. worker_inv e l ?w v'"
  proof (cases "out = Hook_wait")
    case True
    with res obtain v' where v': "runtime_ok rt' v' ((w_pend w)(c \<mapsto> hk))" "busy v' = busy v" by blast
    let ?w' = "w\<lparr>w_rt := rt', w_pend := (w_pend w)(c \<mapsto> hk)\<rparr>"
    have "crew e l ?w' (busy v) (coro_func (w_sched w))" by (rule crew_sleeps [OF d(2) c(3) b(2)]) (use c(2) in simp_all)
    then have "worker_inv e l ?w' v'" using v' d(3-5) hook_try_keeps [OF run] by (simp add: worker_inv_def same_code_def w_sched_def)
    with True b(3) show ?thesis by auto
  qed (use res inv in auto)
  with exec show ?thesis unfolding worker_goes_def by blast
qed

lemma round_calls:
  assumes "g_shall_stop w = 0" "g_shall_exit w = 0" "g_worker_processes e > 1 \<longrightarrow> worker_can_accept e w \<and> trylock"
    and "accept_call l able now rs (if g_worker_processes e > 1 then w\<lparr>w_lock := True\<rparr> else w) = ret (out, w2)"
  shows "worker_accept_cycle e l trylock able now rs opts ok w =
    (case out of Hook_wait \<Rightarrow> ret w2 | Hook_ret n \<Rightarrow> (case accept_ends e opts n w2 of (connfd, w3) \<Rightarrow> accepted ok now connfd w3))"
  using assms by (auto simp: worker_accept_cycle_def worker_accept_def run_bind_def ret_def split: hook_out.splits prod.splits if_splits)

text \<open>A round of the acceptor, by what it finds: a stop request, no right to accept, or a call of \<open>accept\<close>.\<close>

lemma round_stops:
  assumes inv: "worker_inv e l w v" and c: "runner (w_sched w) = Some c" "coro_func (w_sched w) c = Accept_cycle" and stop: "g_shall_stop w \<noteq> 0"
  shows "worker_goes e l (W_accept trylock able now rs opts ok) w"
proof -
  have e: "if busy v = {c} then decrease_conn_and_check w = Exit 0
    else \<exists>w1 v'. decrease_conn_and_check w = Ret w1 \<and> worker_inv e l (coro_returns w1) v' \<and> busy v' = busy v - {c} \<and> w_conns (coro_returns w1) = w_conns w \<and>
      coro_func (w_sched (coro_returns w1)) = coro_func (w_sched w)"
    by (rule ends_inv [OF inv c(1)]) (use c(2) stop in simp_all)
  show ?thesis
  proof (cases "busy v = {c}")
    case True
    with e stop last_of_crew [OF inv c(1)] show ?thesis by (simp add: worker_goes_def worker_accept_cycle_def run_bind_def)
  next
    case False
    with e stop show ?thesis by (auto simp: worker_goes_def worker_accept_cycle_def run_bind_def)
  qed
qed

lemma round_rests:
  assumes inv: "worker_inv e l w v" and c: "runner (w_sched w) = Some c" and near: "timers_near (now + 200) v"
    and no: "g_shall_stop w = 0" "g_shall_exit w = 0" "g_worker_processes e > 1" "\<not> (worker_can_accept e w \<and> trylock)"
  shows "worker_goes e l (W_accept trylock able now rs opts ok) w"
proof -
  note d = worker_invD [OF inv]
  have r': "runner (rt_sched (w_rt w)) = Some c" using c by (simp add: w_sched_def)
  from call_runs [OF d(1), of "Timeout now 200"] r' near obtain s' :: "coro_body coro_schedule" and v' where
    s': "schedule_timeout now 200 (w_sched w) = ret s'" "runtime_ok ((w_rt w)\<lparr>rt_sched := s'\<rparr>) v' (w_pend w)"
      "sched_spec (Timeout now 200 :: coro_body sched_op) (v, Some c) (v', runner s')" by (auto simp: w_sched_def)
  have "c \<in> set (v_out v)" by (rule runtime_okD(5) [OF d(1) r'])
  then have "busy v' = busy v" using spec_busy(2) [OF runtime_okD(4) [OF d(1)] _ s'(3)] by simp
  from worker_inv_sched [OF inv s'(2) this keepsD [OF schedule_timeout_keeps s'(1)]] s'(1) no show ?thesis
    by (auto simp: worker_goes_def worker_accept_cycle_def worker_accept_def accepted_def run_bind_def ret_def)
qed

lemma round_takes:
  assumes inv: "worker_inv e l w v" and c: "runner (w_sched w) = Some c" "coro_func (w_sched w) c = Accept_cycle" and near: "timers_near (now + ACCEPT_TIMEOUT) v"
    and r: "first_result rs = Some r" and fresh: "\<And>n. r = Sys_ok n \<Longrightarrow> fresh_fd l w (int n)"
    and call: "g_shall_stop w = 0" "g_shall_exit w = 0" "g_worker_processes e > 1 \<longrightarrow> worker_can_accept e w \<and> trylock"
  shows "worker_goes e l (W_accept trylock able now rs opts ok) w"
proof -
  let ?exec = "worker_accept_cycle e l trylock able now rs opts ok w"
  let ?w1 = "if g_worker_processes e > 1 then w\<lparr>w_lock := True\<rparr> else w"
  have can: "g_worker_processes e > 1 \<longrightarrow> worker_can_accept e w" using call(3) by blast
  from accept_call_inv [OF inv c near r refl can, of able] obtain out w2 where
    w2: "accept_call l able now rs ?w1 = ret (out, w2)"
    and res: "case out of
       Hook_ret n \<Rightarrow> w2 = ?w1 \<and> unlock_accept e w2 = w \<and> (n < 0 \<or> r = Sys_ok (nat n) \<and> 0 \<le> n) \<and> (\<forall>k. r = Sys_ok k \<longrightarrow> n = int k)
     | Hook_wait \<Rightarrow> (\<exists>v'. worker_inv e l w2 v' \<and> busy v' = busy v \<and> w_conns w2 = w_conns w) \<and> (\<forall>k. r \<noteq> Sys_ok k)" by blast
  have acc: "?exec = (case out of Hook_wait \<Rightarrow> ret w2 | Hook_ret n \<Rightarrow> (case accept_ends e opts n w2 of (connfd, w3) \<Rightarrow> accepted ok now connfd w3))"
    by (rule round_calls [OF call w2])
  show ?thesis
  proof (cases out)
    case (Hook_ret n)
    with res have n: "w2 = ?w1" "unlock_accept e w2 = w" "n < 0 \<or> r = Sys_ok (nat n) \<and> 0 \<le> n" by auto
    have "w_sched w2 = w_sched w" "w_conns w2 = w_conns w" by (simp_all add: n(1) w_sched_def)
    then have "runner (w_sched w2) = Some c" "fresh_fd l w2 n" using c(1) n(3) fresh [of "nat n"] by (auto simp: fresh_fd_def)
    from after_accept [where e = e and v = v and opts = opts and ok = ok and now = now, OF _ this] inv n(2) obtain w' v' where
      "(case accept_ends e opts n w2 of (connfd, w3) \<Rightarrow> accepted ok now connfd w3) = ret w'" "worker_inv e l w' v'" by auto
    with acc Hook_ret show ?thesis by (auto simp: worker_goes_def)
  next
    case Hook_wait
    with res acc show ?thesis by (auto simp: worker_goes_def)
  qed
qed

lemma round_goes:
  assumes inv: "worker_inv e l w v" and al: "worker_allowed l (W_accept trylock able now rs opts ok) w v"
  shows "worker_goes e l (W_accept trylock able now rs opts ok) w"
proof -
  from al obtain c r where c: "runner (w_sched w) = Some c" "coro_func (w_sched w) c = Accept_cycle" and r: "first_result rs = Some r"
    and near: "timers_near (now + ACCEPT_TIMEOUT) v" "timers_near (now + 200) v" and fresh: "\<And>n. r = Sys_ok n \<Longrightarrow> fresh_fd l w (int n)" by auto
  consider (stop) "g_shall_stop w \<noteq> 0" | (exit) "g_shall_stop w = 0" "g_shall_exit w \<noteq> 0"
    | (no) "g_shall_stop w = 0" "g_shall_exit w = 0" "g_worker_processes e > 1" "\<not> (worker_can_accept e w \<and> trylock)"
    | (call) "g_shall_stop w = 0" "g_shall_exit w = 0" "g_worker_processes e > 1 \<longrightarrow> worker_can_accept e w \<and> trylock" by blast
  then show ?thesis
  proof cases
    case stop
    then show ?thesis by (rule round_stops [OF inv c])
  next
    case exit
    then show ?thesis by (simp add: worker_goes_def worker_accept_cycle_def may_exit_def)
  next
    case no
    then show ?thesis by (rule round_rests [OF inv c(1) near(2)])
  next
    case call
    from round_takes [OF inv c near(1) r fresh this] show ?thesis .
  qed
qed

text \<open>A hook that returns has not touched the heap.\<close>

lemma hook_try_returns: "hook_try hk able now rs rt = ret (Hook_ret n, rs', rt') \<Longrightarrow> rt_sched rt' = rt_sched rt"
proof (induction hk able now rs rt rule: hook_try.induct)
  case (3 hk able now err rs rt)
  then show ?case by (auto simp: hook_sleep_def run_bind_def ret_def split: if_splits option.splits cres.splits)
qed (auto simp: ret_def)

lemma hook_resume_heap:
  assumes "hook_resume hk del_able able now rs rt = ret (Hook_ret n, rs', rt')"
  shows "heap (rt_sched rt') = heap (rt_sched rt)"
proof -
  from assms obtain b rt1 where w: "hook_wake hk del_able rt = Ret (b, rt1)"
    and "if b then rt' = rt1 else hook_try hk able now rs rt1 = ret (Hook_ret n, rs', rt')"
    by (cases "hook_wake hk del_able rt") (auto simp: hook_resume_def run_bind_def ret_def split: if_splits)
  then have "rt_sched rt' = rt_sched rt1" by (auto dest: hook_try_returns split: if_splits)
  moreover have "heap (rt_sched rt1) = heap (rt_sched rt)"
    using w by (cases "del_fd_event del_able (hk_fd hk) (hk_what hk) (rt_loop rt)") (auto simp: hook_wake_def is_wakeup_by_timeout_def)
  ultimately show ?thesis by simp
qed

text \<open>The switch to a ready coroutine.\<close>

lemma switch_state:
  assumes inv: "worker_inv e l w v" and r: "runner (w_sched w) = None" and ready: "v_ready v = c # ys"
  shows "\<exists>s. run_next (w_sched w) = Some s \<and> sched_state s (v\<lparr>v_ready := ys, v_out := c # v_out v\<rparr>) \<and> runner s = Some c \<and> current s = c \<and>
      same_code (w_sched w) s \<and> heap s = heap (w_sched w) \<and> active_by_timeout s = active_by_timeout (w_sched w) \<and>
      Syscall_Hook.pending (rt_loop (w_rt w)) (v\<lparr>v_ready := ys, v_out := c # v_out v\<rparr>) None (w_pend w)"
    and "busy (v\<lparr>v_ready := ys, v_out := c # v_out v\<rparr>) = busy v"
proof -
  note o = runtime_okD [OF worker_invD(1) [OF inv]]
  let ?v = "v\<lparr>v_ready := ys, v_out := c # v_out v\<rparr>"
  from next_step [OF o(6) ready] obtain s where s: "run_next (w_sched w) = Some s" "sched_state s ?v" "runner s = Some c" by (auto simp: w_sched_def)
  have "heap s = heap (w_sched w)" "active_by_timeout s = active_by_timeout (w_sched w)"
    using s(1) by (auto simp: run_next_def get_active_coroutine_def coroutine_switch_def in_lists_def Let_def split: if_splits)
  moreover have b: "coroutines ?v = coroutines v" by (auto simp: coroutines_def ready)
  moreover have "Syscall_Hook.pending (rt_loop (w_rt w)) ?v None (w_pend w)"
    by (rule pending_view [OF o(3)]) (use pendingD(4) [OF o(3)] b in auto)
  ultimately show "\<exists>s. run_next (w_sched w) = Some s \<and> sched_state s ?v \<and> runner s = Some c \<and> current s = c \<and> same_code (w_sched w) s \<and>
      heap s = heap (w_sched w) \<and> active_by_timeout s = active_by_timeout (w_sched w) \<and> Syscall_Hook.pending (rt_loop (w_rt w)) ?v None (w_pend w)"
    using s run_next_keeps [OF s(1)] runnerD [OF s(3)] by blast
  show "busy ?v = busy v" by (auto simp: busy_def coroutines_def ready)
qed

lemma switch_starts:
  assumes inv: "worker_inv e l w v" and r: "runner (w_sched w) = None" and ready: "v_ready v = c # ys" and none: "w_pend w c = None"
  shows "\<exists>s. worker_switch e able now rs opts ok w = ret (with_sched s w) \<and>
    worker_inv e l (with_sched s w) (v\<lparr>v_ready := ys, v_out := c # v_out v\<rparr>) \<and> runner s = Some c \<and> same_code (w_sched w) s \<and> heap s = heap (w_sched w)"
proof -
  let ?v = "v\<lparr>v_ready := ys, v_out := c # v_out v\<rparr>"
  from switch_state(1) [OF inv r ready] obtain s where s: "run_next (w_sched w) = Some s" "sched_state s ?v" "runner s = Some c" "current s = c"
    "same_code (w_sched w) s" "Syscall_Hook.pending (rt_loop (w_rt w)) ?v None (w_pend w)" "heap s = heap (w_sched w)" by blast
  have "Syscall_Hook.pending (rt_loop (w_rt w)) ?v (Some c) (w_pend w)" by (rule pending_view [OF s(6)]) (use pendingD(4) [OF s(6)] none in auto)
  then have "runtime_ok ((w_rt w)\<lparr>rt_sched := s\<rparr>) ?v (w_pend w)"
    using s(2,3) runtime_okD(2) [OF worker_invD(1) [OF inv]] by (simp add: runtime_ok_def)
  from worker_inv_sched [OF inv this switch_state(2) [OF inv r ready] s(5)] s none show ?thesis
    by (auto simp: worker_switch_def)
qed

text \<open>What the coroutine finds when it goes on in its hook.\<close>

lemma switch_resumes:
  assumes inv: "worker_inv e l w v" and al: "worker_allowed l (W_switch able now rs opts ok) w v"
    and ready: "v_ready v = c # ys" and hk: "w_pend w c = Some hk" and r: "first_result rs = Some r"
  shows "\<exists>out rt' v'. runtime_ok rt' v' (if out = Hook_wait then w_pend w else (w_pend w)(c := None)) \<and> busy v' = busy v \<and>
    same_code (w_sched w) (rt_sched rt') \<and>
    (\<forall>n. out = Hook_ret n \<longrightarrow> runner (rt_sched rt') = Some c \<and> heap (rt_sched rt') = heap (w_sched w) \<and> (n < 0 \<or> r = Sys_ok (nat n) \<and> 0 \<le> n)) \<and>
    (\<forall>k. r = Sys_ok k \<and> \<not> active_by_timeout (w_sched w) c \<longrightarrow> out = Hook_ret (int k)) \<and>
    worker_switch e able now rs opts ok w = (case out of
        Hook_wait \<Rightarrow> ret (w\<lparr>w_rt := rt'\<rparr>)
      | Hook_ret n \<Rightarrow> let w1 = w\<lparr>w_rt := rt', w_pend := (w_pend w)(c := None)\<rparr> in
          (case coro_func (w_sched w) c of
             Handle connfd \<Rightarrow> ret w1
           | Accept_cycle \<Rightarrow> (case accept_ends e opts n w1 of (connfd, w2) \<Rightarrow> accepted ok now connfd w2)))"
proof -
  note d = worker_invD [OF inv]
  let ?v = "v\<lparr>v_ready := ys, v_out := c # v_out v\<rparr>"
  have none: "runner (w_sched w) = None" using al by simp
  from switch_state(1) [OF inv none ready] obtain s where s: "run_next (w_sched w) = Some s" "sched_state s ?v" "runner s = Some c" "current s = c"
    "same_code (w_sched w) s" "heap s = heap (w_sched w)" "active_by_timeout s = active_by_timeout (w_sched w)"
    "Syscall_Hook.pending (rt_loop (w_rt w)) ?v None (w_pend w)" by blast
  let ?rt = "(w_rt w)\<lparr>rt_sched := s\<rparr>"
  have near: "timers_near (now + hk_timeout hk) ?v" using al hk by (auto simp: timers_near_def)
  have hook: "hook_ok hk" by (rule hook_for_ok [OF inv pend_busy [OF inv hk] crewD(7) [OF d(2) hk]])
  have st: "sched_state (rt_sched ?rt) ?v" "loop_ok (rt_loop ?rt)" "Syscall_Hook.pending (rt_loop ?rt) ?v None (w_pend w)" "runner (rt_sched ?rt) = Some c"
    using s runtime_okD(2) [OF d(1)] by simp_all
  from hook_resume_correct [OF st hk hook near r, of able] obtain out rs' rt' v' where
    run: "hook_resume hk True able now rs ?rt = ret (out, rs', rt')"
    and ok': "runtime_ok rt' v' (if out = Hook_wait then w_pend w else (w_pend w)(c := None))" and b': "busy v' = busy ?v"
    and res: "active_by_timeout (rt_sched ?rt) c \<longrightarrow> out = Hook_ret (-3)" "\<not> active_by_timeout (rt_sched ?rt) c \<longrightarrow> (case r of
         Sys_ok n \<Rightarrow> out = Hook_ret (int n)
       | Sys_err err \<Rightarrow> if fd_not_ready err then out = Hook_ret (-2) \<or> out = Hook_wait else out = Hook_ret (-1))"
      "out \<noteq> Hook_wait \<longrightarrow> runner (rt_sched rt') = Some c" by blast
  have "n < 0 \<or> r = Sys_ok (nat n) \<and> 0 \<le> n" if "out = Hook_ret n" for n using res(1,2) that by (cases r) (auto split: if_splits)
  moreover have "heap (rt_sched rt') = heap (w_sched w)" if "out = Hook_ret n" for n using hook_resume_heap [of hk True able now rs ?rt n rs' rt'] run that s(6) by simp
  moreover have "out = Hook_ret (int k)" if "r = Sys_ok k" "\<not> active_by_timeout (w_sched w) c" for k using res(2) that s(7) by simp
  moreover have "same_code (w_sched w) (rt_sched rt')" using same_code_trans [OF s(5)] hook_resume_keeps [OF run] by simp
  moreover have "busy v' = busy v" using b' switch_state(2) [OF inv none ready] by simp
  ultimately show ?thesis using ok' res(3) s(1,4,5) hk run
    by (intro exI [of _ out] exI [of _ rt'] exI [of _ v'])
      (auto simp: worker_switch_def run_bind_def ret_def same_code_def split: hook_out.splits coro_body.splits)
qed

lemma woken_inv:
  assumes inv: "worker_inv e l w v" and hk: "w_pend w c = Some hk"
    and rt: "runtime_ok (w_rt w') v' ((w_pend w)(c := None))" "busy v' = busy v" "same_code (w_sched w) (w_sched w')"
    and w': "w_pend w' = (w_pend w)(c := None)" "connection_count w' = connection_count w" "w_conns w' = w_conns w" "g_shall_stop w' = g_shall_stop w"
      "if coro_func (w_sched w) c = Accept_cycle then \<not> w_lock w' else w_lock w' = w_lock w"
  shows "worker_inv e l w' v'"
proof -
  note d = worker_invD [OF inv]
  have "dom (w_pend w) \<subseteq> busy v" using pend_busy [OF inv] by auto
  from crew_wakes [OF d(2) hk pend_busy [OF inv hk] this w'] rt d(3-5) w'(1) show ?thesis
    by (simp add: worker_inv_def same_code_def w_sched_def)
qed

text \<open>The accept loop goes on after \<open>accept\<close>.\<close>

lemma acceptor_resumes:
  assumes inv: "worker_inv e l w v" and hk: "w_pend w c = Some hk" and c: "coro_func (w_sched w) c = Accept_cycle"
    and rt: "runtime_ok rt' v' ((w_pend w)(c := None))" "busy v' = busy v" "same_code (w_sched w) (rt_sched rt')" "runner (rt_sched rt') = Some c"
    and n: "fresh_fd l w n"
  shows "\<exists>w' v''. (case accept_ends e opts n (w\<lparr>w_rt := rt', w_pend := (w_pend w)(c := None)\<rparr>) of (connfd, w2) \<Rightarrow> accepted ok now connfd w2) = ret w' \<and>
    worker_inv e l w' v'' \<and> (0 < n \<and> opts = (True, True, True) \<longrightarrow>
       (if n \<in> w_conns w' then connection_count w' = connection_count w + 1 \<and> w_conns w' = insert n (w_conns w)
        else connection_count w' = connection_count w \<and> w_conns w' = w_conns w \<and>
          (connection_count w = g_worker_connections e \<or> fst (malloc (heap (rt_sched rt'))) = 0 \<or> \<not> ok)))"
proof -
  let ?w1 = "w\<lparr>w_rt := rt', w_pend := (w_pend w)(c := None)\<rparr>"
  have s: "w_sched ?w1 = rt_sched rt'" and sel: "connection_count ?w1 = connection_count w" "w_conns ?w1 = w_conns w" by (simp_all add: w_sched_def)
  have "\<not> w_lock (unlock_accept e ?w1)" using crewD(8) [OF worker_invD(2) [OF inv]] by auto
  then have inv': "worker_inv e l (unlock_accept e ?w1) v'" using rt c s by (intro woken_inv [OF inv hk]) simp_all
  have "runner (w_sched ?w1) = Some c" "fresh_fd l ?w1 n" using rt(4) n s by (simp_all add: fresh_fd_def)
  from after_accept [OF inv' this, where opts = opts and ok = ok and now = now] show ?thesis unfolding s sel .
qed

lemma switch_goes:
  "worker_inv e l w v \<Longrightarrow> worker_allowed l (W_switch able now rs opts ok) w v \<Longrightarrow> worker_goes e l (W_switch able now rs opts ok) w"
proof -
  assume inv: "worker_inv e l w v" and al: "worker_allowed l (W_switch able now rs opts ok) w v"
  note d = worker_invD [OF inv]
  have none: "runner (w_sched w) = None" using al by simp
  show ?thesis
  proof (cases "v_ready v")
    case Nil
    with run_next_view(1) [OF runtime_okD(6) [OF d(1)]] inv show ?thesis by (auto simp: worker_goes_def worker_switch_def w_sched_def)
  next
    case (Cons c ys)
    let ?v = "v\<lparr>v_ready := ys, v_out := c # v_out v\<rparr>"
    show ?thesis
    proof (cases "w_pend w c")
      case None
      from switch_starts [OF inv none Cons None] show ?thesis unfolding worker_goes_def by (metis worker_exec.simps(2))
    next
      case (Some hk)
      from al obtain r where r: "first_result rs = Some r" by auto
      from switch_resumes [OF inv al Cons Some r] obtain out rt' v' where
        rt: "runtime_ok rt' v' (if out = Hook_wait then w_pend w else (w_pend w)(c := None))" "busy v' = busy v" "same_code (w_sched w) (rt_sched rt')"
        and res: "\<forall>n. out = Hook_ret n \<longrightarrow> runner (rt_sched rt') = Some c \<and> heap (rt_sched rt') = heap (w_sched w) \<and> (n < 0 \<or> r = Sys_ok (nat n) \<and> 0 \<le> n)"
        and exec: "worker_switch e able now rs opts ok w = (case out of
            Hook_wait \<Rightarrow> ret (w\<lparr>w_rt := rt'\<rparr>)
          | Hook_ret n \<Rightarrow> let w1 = w\<lparr>w_rt := rt', w_pend := (w_pend w)(c := None)\<rparr> in
              (case coro_func (w_sched w) c of
                 Handle connfd \<Rightarrow> ret w1
               | Accept_cycle \<Rightarrow> (case accept_ends e opts n w1 of (connfd, w2) \<Rightarrow> accepted ok now connfd w2)))" by blast
      show ?thesis
      proof (cases out)
        case Hook_wait
        with worker_inv_rt [OF inv _ rt(2,3)] rt(1) exec show ?thesis by (auto simp: worker_goes_def)
      next
        case (Hook_ret n)
        show ?thesis
        proof (cases "coro_func (w_sched w) c")
          case (Handle fd)
          have "worker_inv e l (w\<lparr>w_rt := rt', w_pend := (w_pend w)(c := None)\<rparr>) v'"
            by (rule woken_inv [OF inv Some]) (use rt Hook_ret Handle in \<open>simp_all add: w_sched_def\<close>)
          with exec Handle Hook_ret show ?thesis by (auto simp: worker_goes_def)
        next
          case Accept_cycle
          have "fresh_fd l w n" using res Hook_ret al Cons Accept_cycle r by (auto simp: fresh_fd_def)
          from acceptor_resumes [OF inv Some Accept_cycle _ rt(2,3) _ this, where opts = opts and ok = ok and now = now] rt(1) res Hook_ret obtain w' v'' where
            "(case accept_ends e opts n (w\<lparr>w_rt := rt', w_pend := (w_pend w)(c := None)\<rparr>) of (connfd, w2) \<Rightarrow> accepted ok now connfd w2) = ret w'"
            "worker_inv e l w' v''" by auto
          with exec Accept_cycle Hook_ret show ?thesis by (auto simp: worker_goes_def)
        qed
      qed
    qed
  qed
qed

lemma worker_step: "worker_inv e l w v \<Longrightarrow> worker_allowed l op w v \<Longrightarrow> worker_goes e l op w"
  by (cases op) (simp_all only: check_goes switch_goes poll_goes round_goes hook_call_goes finish_goes signal_goes)

end
