(* ===== verification/Worker_Life.thy ===== *)
theory Worker_Life
  imports Worker_Process
begin

text \<open>
  The life of a worker process, from \<open>worker_process_cycle\<close> to its end: the properties of the accept loop, the connection
  count and the shutdown.
\<close>

text \<open>\<open>init\<close> is the result of the service's \<open>worker_init_proc\<close>; the loop \<open>schedule_cycle\<close> at the end are the steps of \<open>worker_exec\<close>.
  The result of \<open>dispatch_coro\<close> is not looked at.\<close>

definition worker_process_cycle :: "env \<Rightarrow> int \<Rightarrow> bool \<Rightarrow> bool \<Rightarrow> bool \<Rightarrow> bool \<Rightarrow> worker_state \<Rightarrow> worker_state run" where
  "worker_process_cycle e init array_ok epoll_ok ev_ok stack_ok w =
     (if init \<noteq> 0 then Some (Exit 0)
      else run_bind (schedule_init (nat (g_coro_stack_kbytes e)) (nat (g_worker_connections e)) (w_sched w)) (\<lambda>s.
        run_bind (Some (event_loop_init array_ok epoll_ok ev_ok (g_worker_connections e))) (\<lambda>lp.
          run_bind (dispatch_coro stack_ok Accept_cycle s) (\<lambda>(_, s').
            ret (w\<lparr>w_rt := \<lparr>rt_sched = s', rt_loop = lp\<rparr>\<rparr>)))))"

definition new_worker :: "worker_state \<Rightarrow> bool" where
  "new_worker w \<longleftrightarrow> sched_memory (w_sched w) \<and> connection_count w = 1 \<and> w_pend w = (\<lambda>_. None) \<and> w_conns w = {} \<and> \<not> w_lock w"

text \<open>A worker without any coroutine.\<close>

definition deaf :: "worker_state \<Rightarrow> bool" where
  "deaf w \<longleftrightarrow> sched_state (w_sched w) empty_view \<and> runner (w_sched w) = None \<and> connection_count w = 1"

lemma dispatch_acceptor:
  assumes w: "new_worker w" and s: "sched_state s empty_view" "runner s = None" "max_coro_size s = nat (g_worker_connections e)" "0 < max_coro_size s"
    and lp: "event_loop_init a b c (g_worker_connections e) = Ret lp" and cfg: "g_worker_connections e \<le> INT_MAX" "0 \<le> l"
  shows "\<exists>r s'. dispatch_coro ok Accept_cycle s = ret (r, s') \<and>
    (if fst (malloc (heap s)) \<noteq> 0 \<and> ok
     then r = 0 \<and> (\<exists>v d. worker_inv e l (w\<lparr>w_rt := \<lparr>rt_sched = s', rt_loop = lp\<rparr>\<rparr>) v \<and> runner s' = None \<and> v_ready v = [d] \<and>
       coro_func s' d = Accept_cycle \<and> ran (v_waiting v) = {})
     else r = -1 \<and> deaf (w\<lparr>w_rt := \<lparr>rt_sched = s', rt_loop = lp\<rparr>\<rparr>))"
proof -
  have rep: "sched_rep s empty_view" using s(1) by (simp add: sched_state_def)
  from dispatch_view [OF rep, of ok Accept_cycle None] obtain r s' v where
    d: "dispatch_coro ok Accept_cycle s = ret (r, s')" "sched_rep s' v" "same_static s s'"
      "sched_spec (Dispatch ok Accept_cycle) (empty_view, None) (v, None)"
    and res: "r = -1 \<and> v = empty_view \<and> (curr_coro_size s = max_coro_size s \<or> fst (malloc (heap s)) = 0 \<or> \<not> ok) \<or>
      r = 0 \<and> \<not> (v_idle empty_view = [] \<and> (curr_coro_size s = max_coro_size s \<or> fst (malloc (heap s)) = 0 \<or> \<not> ok)) \<and> (\<exists>x. v_ready v = v_ready empty_view @ [x] \<and> coro_func s' = (coro_func s)(x := Accept_cycle))" by blast
  have run: "runner s' = None" using runner_static [OF d(3)] s(2) by simp
  have st: "sched_state s' v" using d(2) run by (simp add: sched_state_def)
  have curr: "curr_coro_size s = 0" using rep by (auto simp: sched_rep_def sched_inv_def empty_view_def coroutines_def)
  show ?thesis
  proof (cases "r = 0")
    case True
    with res have mem: "fst (malloc (heap s)) \<noteq> 0 \<and> ok" by (auto simp: empty_view_def)
    from True res obtain x where x: "v_ready v = [x]" "coro_func s' = (coro_func s)(x := Accept_cycle)" by (auto simp: empty_view_def)
    have "one_place empty_view" by (simp add: one_place_def empty_view_def)
    from spec_busy(4) [OF this _ d(4), of x] x(1) have busy: "busy v = {x}" by (simp add: empty_view_def busy_def coroutines_def)
    have "runtime_ok (\<lparr>rt_sched = s, rt_loop = lp\<rparr>\<lparr>rt_sched := s'\<rparr>) v (\<lambda>_. None)"
      by (rule call_keeps [OF runtime_start [OF s(1) lp], of "Dispatch ok Accept_cycle"]) (use st d(4) run s(2) in simp_all)
    moreover have "crew e l (w\<lparr>w_rt := \<lparr>rt_sched = s', rt_loop = lp\<rparr>\<rparr>) (busy v) (coro_func s')"
      using w busy x(2) by (auto simp: crew_def new_worker_def)
    moreover have "max_coro_size s' = max_coro_size s" using d(3) by (simp add: same_static_def)
    ultimately have "worker_inv e l (w\<lparr>w_rt := \<lparr>rt_sched = s', rt_loop = lp\<rparr>\<rparr>) v"
      using w s(3,4) cfg by (auto simp: worker_inv_def w_sched_def new_worker_def)
    moreover have "ran (v_waiting v) = {}" using d(4) by (auto elim: spec_DispatchE simp: empty_view_def)
    ultimately show ?thesis using d(1) True x run mem by (intro exI [of _ r] exI [of _ s']) auto
  next
    case False
    with res curr s(4) have "v = empty_view" "fst (malloc (heap s)) = 0 \<or> \<not> ok" "r = -1" by auto
    then show ?thesis using d(1) st run w by (intro exI [of _ r] exI [of _ s']) (auto simp: deaf_def w_sched_def new_worker_def)
  qed
qed

text \<open>The worker with the accept loop as its one coroutine, ready to run.\<close>

definition accepts_soon :: "env \<Rightarrow> int \<Rightarrow> worker_state \<Rightarrow> bool" where
  "accepts_soon e l w \<longleftrightarrow> (\<exists>v d. worker_inv e l w v \<and> runner (w_sched w) = None \<and> v_ready v = [d] \<and>
     coro_func (w_sched w) d = Accept_cycle \<and> ran (v_waiting v) = {})"

lemma start_cases:
  assumes w: "new_worker w" and cfg: "g_worker_connections e + 128 \<le> INT_MAX" "4 \<le> g_worker_connections e" "0 \<le> l"
  shows "\<exists>oc h. memcache_create sizeof_timer_node (g_worker_connections e div 2) (heap (w_sched w)) = Some (Ret (oc, h)) \<and>
    (if oc = None \<or> \<not> a \<or> \<not> b \<or> \<not> c then worker_process_cycle e 0 a b c ok w = Some (Exit 0)
     else \<exists>w'. worker_process_cycle e 0 a b c ok w = Some (Ret w') \<and> (if fst (malloc h) \<noteq> 0 \<and> ok then accepts_soon e l w' else deaf w'))"
proof -
  let ?n = "nat (g_worker_connections e)" and ?start = "schedule_init (nat (g_coro_stack_kbytes e)) (nat (g_worker_connections e)) (w_sched w)"
  have n: "\<not> ?n < 4" "int (?n div 2) = g_worker_connections e div 2" using cfg(2) by (simp_all add: zdiv_int)
  from schedule_init_exact [of "w_sched w" ?n "nat (g_coro_stack_kbytes e)"] w n obtain oc h where
    mc: "memcache_create sizeof_timer_node (g_worker_connections e div 2) (heap (w_sched w)) = Some (Ret (oc, h))"
    and s: "case oc of None \<Rightarrow> ?start = Some (Exit 0)
      | Some c \<Rightarrow> \<exists>s'. ?start = Some (Ret s') \<and> sched_state s' empty_view \<and> max_coro_size s' = ?n \<and> heap s' = h"
    by (auto simp: new_worker_def)
  show ?thesis
  proof (cases oc)
    case None
    with s mc show ?thesis by (simp add: worker_process_cycle_def run_bind_def)
  next
    case (Some k)
    with s obtain s1 where s1: "?start = Some (Ret s1)" "sched_state s1 empty_view" "max_coro_size s1 = ?n" "heap s1 = h" by auto
    have none: "runner s1 = None" using s1(2) by (cases "runner s1") (auto simp: sched_state_def empty_view_def)
    show ?thesis
    proof (cases "event_loop_init a b c (g_worker_connections e) :: hook_proc event_loop cres")
      case (Ret lp)
      then have ok: "a \<and> b \<and> c" by (auto simp: event_loop_init_def split: if_splits)
      have "0 < max_coro_size s1" "g_worker_connections e \<le> INT_MAX" using cfg s1(3) by simp_all
      from dispatch_acceptor [OF w s1(2) none s1(3) this(1) Ret this(2) cfg(3), of ok] obtain q s' where
        d: "dispatch_coro ok Accept_cycle s1 = ret (q, s')"
          "if fst (malloc h) \<noteq> 0 \<and> ok
           then q = 0 \<and> (\<exists>v d. worker_inv e l (w\<lparr>w_rt := \<lparr>rt_sched = s', rt_loop = lp\<rparr>\<rparr>) v \<and> runner s' = None \<and> v_ready v = [d] \<and>
             coro_func s' d = Accept_cycle \<and> ran (v_waiting v) = {})
           else q = -1 \<and> deaf (w\<lparr>w_rt := \<lparr>rt_sched = s', rt_loop = lp\<rparr>\<rparr>)"
        unfolding s1(4) by blast
      then have "if fst (malloc h) \<noteq> 0 \<and> ok then accepts_soon e l (w\<lparr>w_rt := \<lparr>rt_sched = s', rt_loop = lp\<rparr>\<rparr>)
           else deaf (w\<lparr>w_rt := \<lparr>rt_sched = s', rt_loop = lp\<rparr>\<rparr>)"
        by (auto simp: accepts_soon_def w_sched_def)
      moreover have "worker_process_cycle e 0 a b c ok w = Some (Ret (w\<lparr>w_rt := \<lparr>rt_sched = s', rt_loop = lp\<rparr>\<rparr>))"
        using s1(1) Ret d(1) by (simp add: worker_process_cycle_def run_bind_def ret_def)
      ultimately show ?thesis using mc Some ok by simp
    qed (use mc Some s1(1) cfg in \<open>auto simp: worker_process_cycle_def run_bind_def event_loop_init_def split: if_splits\<close>)
  qed
qed

subsection \<open>Runs\<close>

inductive worker_reach :: "env \<Rightarrow> int \<Rightarrow> worker_state \<Rightarrow> worker_state \<Rightarrow> bool" for e l w0 where
  worker_start: "worker_reach e l w0 w0"
| worker_next: "worker_reach e l w0 w \<Longrightarrow> (\<forall>v. worker_inv e l w v \<longrightarrow> worker_allowed l op w v) \<Longrightarrow> worker_exec e l op w = Some (Ret w') \<Longrightarrow>
    worker_reach e l w0 w'"

lemma reach_inv: "worker_reach e l w0 w \<Longrightarrow> \<exists>v. worker_inv e l w0 v \<Longrightarrow> \<exists>v. worker_inv e l w v"
proof (induction rule: worker_reach.induct)
  case (worker_next w op w')
  then obtain v where "worker_inv e l w v" "worker_allowed l op w v" by blast
  from worker_step [OF this] worker_next.hyps(3) show ?case by (auto simp: worker_goes_def ret_def)
qed

definition accepting :: "worker_state \<Rightarrow> sched_view \<Rightarrow> bool" where
  "accepting w v \<longleftrightarrow> Accept_cycle \<in> coro_func (w_sched w) ` busy v"

text \<open>The count, spelled out.\<close>

lemma inv_count:
  assumes "worker_inv e l w v"
  shows "finite (w_conns w)" "connection_count w = int (card (w_conns w)) + (if accepting w v then 1 else 0)"
proof -
  note d = crewD [OF worker_invD(2) [OF assms]]
  let ?I = "coro_func (w_sched w) ` busy v"
  have inj: "inj_on Handle (w_conns w)" by (simp add: inj_on_def)
  have "finite (Handle ` w_conns w)" using d(1,5) by (metis finite_Diff finite_imageI)
  then show fin: "finite (w_conns w)" using inj by (rule finite_imageD)
  have "?I = Handle ` w_conns w \<union> (if accepting w v then {Accept_cycle} else {})" unfolding d(5) [symmetric] accepting_def by auto
  then have "card ?I = card (w_conns w) + (if accepting w v then 1 else 0)"
    using fin card_image [OF inj] by (auto simp: card_insert_if image_iff)
  then have "card (busy v) = card (w_conns w) + (if accepting w v then 1 else 0)" using card_image [OF d(4)] by simp
  then show "connection_count w = int (card (w_conns w)) + (if accepting w v then 1 else 0)" using d(3) by auto
qed

text \<open>The ends of coroutines.\<close>

lemma handle_connection_ends:
  "handle_connection fd w = Some (Exit n) \<longleftrightarrow> connection_count w = 1 \<and> n = 0"
  by (auto simp: handle_connection_def decrease_conn_and_check_def close_conn_def run_bind_def ret_def INT_MAX_def)

lemma acceptor_stops:
  assumes inv: "worker_inv e l w v" and c: "runner (w_sched w) = Some c" "coro_func (w_sched w) c = Accept_cycle" and stop: "g_shall_stop w \<noteq> 0"
  shows "if w_conns w = {} then decrease_conn_and_check w = Exit 0
    else \<exists>w1 v'. decrease_conn_and_check w = Ret w1 \<and> worker_inv e l (coro_returns w1) v' \<and> \<not> accepting (coro_returns w1) v' \<and>
      w_conns (coro_returns w1) = w_conns w"
proof -
  note d = crewD [OF worker_invD(2) [OF inv]] and b = runner_busy [OF inv c(1)]
  have "accepting w v" using b(1) c(2) by (force simp: accepting_def)
  then have "w_conns w = {} \<longleftrightarrow> connection_count w = 1" using inv_count [OF inv] by simp
  then have last: "w_conns w = {} \<longleftrightarrow> busy v = {c}" using crew_count [OF worker_invD(2) [OF inv] b(1)] by simp
  have "if busy v = {c} then decrease_conn_and_check w = Exit 0
    else \<exists>w1 v'. decrease_conn_and_check w = Ret w1 \<and> worker_inv e l (coro_returns w1) v' \<and> busy v' = busy v - {c} \<and>
      w_conns (coro_returns w1) = w_conns w \<and> coro_func (w_sched (coro_returns w1)) = coro_func (w_sched w)"
    by (rule ends_inv [OF inv c(1)]) (use c(2) stop in simp_all)
  note ends = this
  have gone: "Accept_cycle \<notin> coro_func (w_sched w) ` (busy v - {c})" 
  proof
    assume "Accept_cycle \<in> coro_func (w_sched w) ` (busy v - {c})"
    then obtain x where "x \<in> busy v - {c}" "Accept_cycle = coro_func (w_sched w) x" by (rule imageE)
    with inj_onD [OF d(4), of x c] b(1) c(2) show False by simp
  qed
  show ?thesis
  proof (cases "busy v = {c}")
    case False
    with ends obtain w1 v' where "decrease_conn_and_check w = Ret w1" "worker_inv e l (coro_returns w1) v'" "busy v' = busy v - {c}"
      "w_conns (coro_returns w1) = w_conns w" "coro_func (w_sched (coro_returns w1)) = coro_func (w_sched w)" by auto
    moreover from this(3,5) gone have "\<not> accepting (coro_returns w1) v'" by (simp add: accepting_def)
    ultimately show ?thesis using False last by auto
  qed (use ends last in simp)
qed

subsection \<open>Properties\<close>

text \<open>C5. The connection count of a worker, whatever signals arrive and however its coroutines, timers and events interleave: it is the
  number of open connections, plus one for the accept loop; it never exceeds \<open>worker_connections\<close> and does not reach 0
  while the process lives; the accept loop is only given up after a stop signal, and the accept lock is only held while
  the accept loop sleeps in \<open>accept\<close> with room for one more connection. Every further step returns, or ends
  the process when it may.\<close>

theorem worker_counts_connections:
  assumes "worker_inv e listen_fd w0 v0" and "worker_reach e listen_fd w0 w"
  shows "\<exists>v. worker_inv e listen_fd w v \<and> finite (w_conns w) \<and>
    connection_count w = int (card (w_conns w)) + (if accepting w v then 1 else 0) \<and>
    0 < connection_count w \<and> connection_count w \<le> g_worker_connections e \<and>
    (\<not> accepting w v \<longrightarrow> g_shall_stop w \<noteq> 0) \<and>
    (w_lock w \<longrightarrow> connection_count w < g_worker_connections e \<and> (\<exists>c. w_pend w c = Some (accept_hook listen_fd))) \<and>
    (\<forall>op. worker_allowed listen_fd op w v \<longrightarrow>
       (\<exists>w' v'. worker_exec e listen_fd op w = Some (Ret w') \<and> worker_inv e listen_fd w' v') \<or>
       worker_exec e listen_fd op w = Some (Exit 0) \<and> may_exit w)"
proof -
  from reach_inv [OF assms(2)] assms(1) obtain v where v: "worker_inv e listen_fd w v" by blast
  note d = crewD [OF worker_invD(2) [OF v]]
  have "0 < connection_count w" using d(1-3) card_gt_0_iff [of "busy v"] by simp
  moreover have "\<exists>c. w_pend w c = Some (accept_hook listen_fd)" if "w_lock w" using that d(8) by (metis d(7) hook_for.simps(1))
  moreover have "\<not> accepting w v \<longrightarrow> g_shall_stop w \<noteq> 0" using d(10) by (simp add: accepting_def)
  moreover have "(\<exists>w' v'. worker_exec e listen_fd op w = Some (Ret w') \<and> worker_inv e listen_fd w' v') \<or>
      worker_exec e listen_fd op w = Some (Exit 0) \<and> may_exit w" if "worker_allowed listen_fd op w v" for op
    using worker_step [OF v that] by (auto simp: worker_goes_def ret_def)
  ultimately show ?thesis using v inv_count [OF v] busy_card [OF v] d(9) by blast
qed

text \<open>A worker process to start with, and the state in which its accept loop runs.\<close>

definition test_worker :: worker_state where
  "test_worker = \<lparr>w_rt = \<lparr>rt_sched = \<lparr>max_coro_size = 0, curr_coro_size = 0, next_coro_id = 0, stack_bytes = 0, main_coro = 8, current = 0, idle = 16,
     active = 20, inactive = 36, cache = \<lparr>mc_addr = 0, mc_elements = [], mc_obj_size = 0, mc_cache_size = 0, mc_curr = 0\<rparr>,
     heap = \<lparr>a_supply = [1024, 2048, 4096, 8192], a_live = []\<rparr>, lists = \<lparr>l_next = (\<lambda>_. 0), l_prev = (\<lambda>_. 0)\<rparr>, trees = empty_rb,
     coro_id = (\<lambda>_. 0), coro_timeout = (\<lambda>_. 0), active_by_timeout = (\<lambda>_. False), coro_func = (\<lambda>_. Accept_cycle), tm_timeout = (\<lambda>_. 0)\<rparr>,
     rt_loop = test_loop\<rparr>, w_pend = (\<lambda>_. None), connection_count = 1, g_shall_stop = 0, g_shall_exit = 0, w_lock = False, w_conns = {}\<rparr>"

definition test_env :: env where
  "test_env = \<lparr>g_log_path = [], g_log_strlevel = [], g_worker_processes = 2, g_worker_connections = 4, g_coro_stack_kbytes = 64,
     g_server_addr = None, g_server_port = 8080\<rparr>"

lemma test_new_worker: "new_worker test_worker"
  by (auto simp: new_worker_def test_worker_def w_sched_def sched_memory_def alloc_ok_def blocks_apart_def blocks_def node_of_def root_at_def)

lemma test_worker_started:
  "\<exists>w v d. worker_process_cycle test_env 0 True True True True test_worker = Some (Ret w) \<and> worker_inv test_env 3 w v \<and> runner (w_sched w) = None \<and>
    v_ready v = [d] \<and> coro_func (w_sched w) d = Accept_cycle \<and> ran (v_waiting v) = {} \<and> w_pend w = (\<lambda>_. None) \<and> g_shall_stop w = 0 \<and> g_shall_exit w = 0 \<and>
    w_conns w = {} \<and> connection_count w = 1 \<and> fst (malloc (heap (w_sched w))) \<noteq> 0"
proof -
  let ?lp = "\<lparr>max_conn = 132, fd_array = (\<lambda>_. \<lparr>fe_mask = EVENT_NONE, fe_proc = None, fe_args = 0\<rparr>), interest = (\<lambda>_. None)\<rparr> :: hook_proc event_loop"
  define s where "s = (w_sched test_worker)\<lparr>max_coro_size := 4, curr_coro_size := 0, next_coro_id := 0, stack_bytes := 65536, current := 0,
     lists := INIT_LIST_HEAD 20 (INIT_LIST_HEAD 16 (lists (w_sched test_worker))), trees := RB_ROOT 36 empty_rb,
     cache := \<lparr>mc_addr = 1024, mc_elements = [0, 0], mc_obj_size = 40, mc_cache_size = 2, mc_curr = 0\<rparr>,
     heap := \<lparr>a_supply = [2048, 4096, 8192], a_live = [1024]\<rparr>\<rparr>"
  have init: "schedule_init 64 4 (w_sched test_worker) = Some (Ret s)"
    by (simp add: schedule_init_def s_def test_worker_def w_sched_def memcache_create_def malloc_def memcache_fill.simps run_bind_def
      ret_def drop_bit_eq_div sizeof_timer_node_def two_slots)
  have lp: "event_loop_init True True True (g_worker_connections test_env) = Ret ?lp"
    by (simp add: event_loop_init_def test_env_def INT_MAX_def)
  from schedule_init_cases [of "w_sched test_worker" 64 4] test_new_worker init have st: "sched_state s empty_view" by (simp add: new_worker_def)
  have none: "runner s = None" and max: "max_coro_size s = nat (g_worker_connections test_env)" "0 < max_coro_size s" and m: "fst (malloc (heap s)) \<noteq> 0"
    by (simp_all add: s_def runner_def test_env_def malloc_def)
  have "list_empty (idle s) (lists s)" by (simp add: s_def test_worker_def w_sched_def list_empty_def list_op_defs)
  then have heap: "\<exists>s'. dispatch_coro True Accept_cycle s = ret (0, s') \<and> fst (malloc (heap s')) \<noteq> 0"
    by (simp add: dispatch_coro_def get_coroutine_def create_coroutine_def run_bind_def ret_def malloc_def coroutine_init_def
        in_lists_def move_to_active_list_tail_direct_def s_def Let_def)
  have cfg: "g_worker_connections test_env \<le> INT_MAX" "(0 :: int) \<le> 3" by (simp_all add: test_env_def INT_MAX_def)
  from dispatch_acceptor [OF test_new_worker st none max lp cfg, of True] heap m obtain s' v d where
    s': "dispatch_coro True Accept_cycle s = ret (0, s')" "fst (malloc (heap s')) \<noteq> 0" "worker_inv test_env 3 (test_worker\<lparr>w_rt := \<lparr>rt_sched = s', rt_loop = ?lp\<rparr>\<rparr>) v"
      "runner s' = None" "v_ready v = [d]" "coro_func s' d = Accept_cycle" "ran (v_waiting v) = {}" by (auto simp: ret_def)
  have "worker_process_cycle test_env 0 True True True True test_worker = Some (Ret (test_worker\<lparr>w_rt := \<lparr>rt_sched = s', rt_loop = ?lp\<rparr>\<rparr>))"
    using init lp s'(1) by (simp add: worker_process_cycle_def run_bind_def ret_def test_env_def)
  with s' show ?thesis
    by (intro exI [of _ "test_worker\<lparr>w_rt := \<lparr>rt_sched = s', rt_loop = ?lp\<rparr>\<rparr>"] exI [of _ v] exI [of _ d]) (simp add: w_sched_def test_worker_def)
qed

theorem worker_counts_connections_witness:
  "\<exists>w v w'. worker_inv test_env 3 w v \<and> connection_count w = 1 \<and> worker_exec test_env 3 (W_check 1000) w = Some (Ret w')"
proof -
  from test_worker_started obtain w v where w: "worker_inv test_env 3 w v" "runner (w_sched w) = None" "connection_count w = 1"
    "g_shall_stop w = 0" "g_shall_exit w = 0" by blast
  from worker_counts_connections [OF w(1) worker_start] w(2) obtain v' where
    "\<forall>op. worker_allowed 3 op w v' \<longrightarrow> (\<exists>w' v'. worker_exec test_env 3 op w = Some (Ret w') \<and> worker_inv test_env 3 w' v') \<or>
       worker_exec test_env 3 op w = Some (Exit 0) \<and> may_exit w" by blast
  moreover have "worker_allowed 3 (W_check 1000) w v'" using w(2) by simp
  moreover have "\<not> may_exit w" using w(4,5) by (simp add: may_exit_def)
  ultimately show ?thesis using w(1,3) by blast
qed

text \<open>C6. A worker stops gracefully. The process ends only when it is forced to, or, after a stop signal, with its last coroutine: then no
  connection is open but the one that has just been served. A stop signal ends the accept loop at its next round, with
  every connection left open, or at once when there is none; and once the accept loop is gone, the end of the last
  connection ends the process.\<close>

theorem worker_stops_gracefully:
  assumes "worker_inv e listen_fd w v" and "worker_allowed listen_fd op w v"
  shows "(\<forall>n. worker_exec e listen_fd op w = Some (Exit n) \<longrightarrow>
      n = 0 \<and> (g_shall_stop w = 0 \<and> g_shall_exit w \<noteq> 0 \<or> g_shall_stop w \<noteq> 0 \<and>
        (op = W_finish \<and> (\<exists>connfd. w_conns w = {connfd}) \<and> \<not> accepting w v \<or> op \<noteq> W_finish \<and> w_conns w = {}))) \<and>
    (\<forall>trylock able now rs opts ok. op = W_accept trylock able now rs opts ok \<and> g_shall_stop w \<noteq> 0 \<longrightarrow>
      (if w_conns w = {} then worker_exec e listen_fd op w = Some (Exit 0)
       else \<exists>w' v'. worker_exec e listen_fd op w = Some (Ret w') \<and> worker_inv e listen_fd w' v' \<and> \<not> accepting w' v' \<and> w_conns w' = w_conns w)) \<and>
    (op = W_finish \<and> \<not> accepting w v \<and> card (w_conns w) = 1 \<longrightarrow> worker_exec e listen_fd op w = Some (Exit 0))"
proof -
  note inv = assms(1)
  have "n = 0 \<and> (g_shall_stop w = 0 \<and> g_shall_exit w \<noteq> 0 \<or> g_shall_stop w \<noteq> 0 \<and>
      (op = W_finish \<and> (\<exists>connfd. w_conns w = {connfd}) \<and> \<not> accepting w v \<or> op \<noteq> W_finish \<and> w_conns w = {}))"
    if exit: "worker_exec e listen_fd op w = Some (Exit n)" for n
  proof -
    have ends: "n = 0" "may_end op" "may_exit w" using worker_step [OF assms] exit by (auto simp: worker_goes_def ret_def)
    show ?thesis
    proof (cases "op = W_finish")
      case True
      with assms(2) obtain c fd where c: "runner (w_sched w) = Some c" "coro_func (w_sched w) c = Handle fd" by auto
      have "connection_count w = 1" using exit True c(2) runner_busy(3) [OF inv c(1)] by (auto simp: handle_connection_ends split: if_splits)
      then have "\<not> accepting w v" if "w_conns w = {fd}" using inv_count(2) [OF inv] that by auto
      then show ?thesis using ends c(2) runner_busy(3) [OF inv c(1)] True by (auto simp: may_exit_def)
    next
      case False
      with ends(2) assms(2) obtain c where c: "runner (w_sched w) = Some c" "coro_func (w_sched w) c = Accept_cycle" by (cases op) auto
      then show ?thesis using ends False runner_busy(3) [OF inv c(1)] by (auto simp: may_exit_def)
    qed
  qed
  moreover have "if w_conns w = {} then worker_exec e listen_fd op w = Some (Exit 0)
      else \<exists>w' v'. worker_exec e listen_fd op w = Some (Ret w') \<and> worker_inv e listen_fd w' v' \<and> \<not> accepting w' v' \<and> w_conns w' = w_conns w"
    if op: "op = W_accept trylock able now rs opts ok" and stop: "g_shall_stop w \<noteq> 0" for trylock able now rs opts ok
  proof -
    from assms(2) op obtain c where c: "runner (w_sched w) = Some c" "coro_func (w_sched w) c = Accept_cycle" by auto
    from acceptor_stops [OF inv c stop] show ?thesis using stop op by (auto simp: worker_accept_cycle_def run_bind_def ret_def split: if_splits)
  qed
  moreover have "worker_exec e listen_fd op w = Some (Exit 0)" if op: "op = W_finish" "\<not> accepting w v" "card (w_conns w) = 1"
  proof -
    from assms(2) op(1) obtain c fd where c: "runner (w_sched w) = Some c" "coro_func (w_sched w) c = Handle fd" by auto
    have "connection_count w = 1" using inv_count(2) [OF inv] op(2,3) by simp
    then show ?thesis using c runner_busy(3) [OF inv c(1)] op(1) by (simp add: handle_connection_ends)
  qed
  ultimately show ?thesis by blast
qed

text \<open>The accept loop of a started worker runs.\<close>

lemma test_acceptor:
  "\<exists>w v c. worker_inv test_env 3 w v \<and> runner (w_sched w) = Some c \<and> coro_func (w_sched w) c = Accept_cycle \<and> ran (v_waiting v) = {} \<and>
    g_shall_stop w = 0 \<and> g_shall_exit w = 0 \<and> w_conns w = {} \<and> connection_count w = 1 \<and> fst (malloc (heap (w_sched w))) \<noteq> 0"
proof -
  from test_worker_started obtain w v c where w: "worker_inv test_env 3 w v" "runner (w_sched w) = None" "v_ready v = [c]"
    "coro_func (w_sched w) c = Accept_cycle" "ran (v_waiting v) = {}" "w_pend w = (\<lambda>_. None)" "g_shall_stop w = 0" "g_shall_exit w = 0" "w_conns w = {}"
    "connection_count w = 1" "fst (malloc (heap (w_sched w))) \<noteq> 0" by blast
  have "w_pend w c = None" using w(6) by simp
  from switch_starts [OF w(1-3) this] obtain s where s: "worker_inv test_env 3 (with_sched s w) (v\<lparr>v_ready := [], v_out := c # v_out v\<rparr>)"
    "runner s = Some c" "same_code (w_sched w) s" "heap s = heap (w_sched w)" by blast
  then show ?thesis using w by (intro exI [of _ "with_sched s w"] exI [of _ "v\<lparr>v_ready := [], v_out := c # v_out v\<rparr>"] exI [of _ c]) (simp add: same_code_def)
qed

theorem worker_stops_gracefully_witness:
  "\<exists>w v. worker_inv test_env 3 w v \<and> g_shall_stop w \<noteq> 0 \<and>
    worker_exec test_env 3 (W_accept True True 1000 [Sys_ok 5] (True, True, True) True) w = Some (Exit 0)"
proof -
  from test_acceptor obtain w v c where w: "worker_inv test_env 3 w v" "runner (w_sched w) = Some c" "coro_func (w_sched w) c = Accept_cycle"
    "ran (v_waiting v) = {}" "w_conns w = {}" by blast
  let ?w = "worker_signal_handler SIGQUIT w" and ?op = "W_accept True True 1000 [Sys_ok 5] (True, True, True) True"
  have inv: "worker_inv test_env 3 ?w v" by (rule signal_inv [OF w(1)])
  have s: "w_sched ?w = w_sched w" "w_conns ?w = {}" "g_shall_stop ?w \<noteq> 0" using w(5) by (simp_all add: w_sched_def)
  then have al: "worker_allowed 3 ?op ?w v" using w(2-5) by (auto simp: timers_near_def first_result_def fresh_fd_def)
  from worker_stops_gracefully [OF inv al] s(2,3) have "worker_exec test_env 3 ?op ?w = Some (Exit 0)" by auto
  with inv s(3) show ?thesis by blast
qed

lemma accept_call_returns:
  assumes "worker_inv e l w v" and "runner (w_sched w) = Some c" "coro_func (w_sched w) c = Accept_cycle" and "timers_near (now + ACCEPT_TIMEOUT) v"
    and "first_result rs = Some (Sys_ok n)" and w1: "w1 = (if g_worker_processes e > 1 then w\<lparr>w_lock := True\<rparr> else w)"
    and "g_worker_processes e > 1 \<longrightarrow> worker_can_accept e w"
  shows "accept_call l able now rs w1 = ret (Hook_ret (int n), w1)" "unlock_accept e w1 = w"
proof -
  from accept_call_inv [OF assms, of able] obtain out w2 where w2: "accept_call l able now rs w1 = ret (out, w2)"
    "case out of
       Hook_ret k \<Rightarrow> w2 = w1 \<and> unlock_accept e w2 = w \<and> (k < 0 \<or> Sys_ok n = Sys_ok (nat k) \<and> 0 \<le> k) \<and> (\<forall>m. Sys_ok n = Sys_ok m \<longrightarrow> k = int m)
     | Hook_wait \<Rightarrow> (\<exists>v'. worker_inv e l w2 v' \<and> busy v' = busy v \<and> w_conns w2 = w_conns w) \<and> (\<forall>m. Sys_ok n \<noteq> Sys_ok m)" by blast
  then show "accept_call l able now rs w1 = ret (Hook_ret (int n), w1)" "unlock_accept e w1 = w" by (cases out; simp)+
qed

text \<open>C7. With several workers a connection is not accepted and then dropped for lack of room: the room that \<open>worker_accept\<close> has checked is still
  there when \<open>accept\<close> returns, also after it slept. The handler of the connection is dispatched and counted, unless memory
  for a new coroutine is missing.\<close>

theorem accepted_connection_is_served:
  assumes "worker_inv e listen_fd w v" and "worker_allowed listen_fd op w v" and "1 < g_worker_processes e"
    and "first_result rs = Some (Sys_ok n)" and "fst (malloc (heap (w_sched w))) \<noteq> 0"
    and "op = W_accept True able now rs (True, True, True) True \<and> worker_can_accept e w \<and> g_shall_stop w = 0 \<and> g_shall_exit w = 0 \<or>
      op = W_switch able now rs (True, True, True) True \<and>
        (\<exists>c ys. v_ready v = c # ys \<and> coro_func (w_sched w) c = Accept_cycle \<and> w_pend w c \<noteq> None \<and> \<not> active_by_timeout (w_sched w) c)"
  shows "\<exists>w' v'. worker_exec e listen_fd op w = Some (Ret w') \<and> worker_inv e listen_fd w' v' \<and>
    w_conns w' = insert (int n) (w_conns w) \<and> connection_count w' = connection_count w + 1"
proof -
  note inv = assms(1)
  from assms(6) show ?thesis
  proof (elim disjE conjE exE)
    assume op: "op = W_accept True able now rs (True, True, True) True" and can: "worker_can_accept e w" "g_shall_stop w = 0" "g_shall_exit w = 0"
    from assms(2,4) op obtain c where c: "runner (w_sched w) = Some c" "coro_func (w_sched w) c = Accept_cycle"
      and near: "timers_near (now + ACCEPT_TIMEOUT) v" and n: "fresh_fd listen_fd w (int n)" by auto
    let ?w1 = "if g_worker_processes e > 1 then w\<lparr>w_lock := True\<rparr> else w"
    have call: "accept_call listen_fd able now rs ?w1 = ret (Hook_ret (int n), ?w1)" "unlock_accept e ?w1 = w"
      using accept_call_returns [OF inv c near assms(4) refl] can(1) by blast+
    have sel: "w_sched ?w1 = w_sched w" "w_conns ?w1 = w_conns w" "connection_count ?w1 = connection_count w" by (simp_all add: w_sched_def)
    then have "runner (w_sched ?w1) = Some c" "fresh_fd listen_fd ?w1 (int n)" using c(1) n by (simp_all add: fresh_fd_def)
    from after_accept [OF _ this, where e = e and v = v and opts = "(True, True, True)" and ok = True and now = now] inv call(2) n can(1) assms(5) sel
    show ?thesis using round_calls [OF can(2,3) _ call(1), where trylock = True and opts = "(True, True, True)" and ok = True] can(1) op
      by (auto simp: fresh_fd_def worker_can_accept_def ret_def split: if_splits)
  next
    fix c ys assume op: "op = W_switch able now rs (True, True, True) True"
      and c: "v_ready v = c # ys" "coro_func (w_sched w) c = Accept_cycle" "w_pend w c \<noteq> None" "\<not> active_by_timeout (w_sched w) c"
    then obtain hk where hk: "w_pend w c = Some hk" by auto
    note d = crewD [OF worker_invD(2) [OF inv]]
    have room: "connection_count w < g_worker_connections e" using d(8,9) hk c(2) assms(3) by blast
    have n: "fresh_fd listen_fd w (int n)" using assms(2,4) op c(1,2) by auto
    have al: "worker_allowed listen_fd (W_switch able now rs (True, True, True) True) w v" using assms(2) unfolding op .
    from switch_resumes [OF inv al c(1) hk assms(4)] c(2,4) obtain rt' v' where
      rt: "runtime_ok rt' v' ((w_pend w)(c := None))" "busy v' = busy v" "same_code (w_sched w) (rt_sched rt')" "runner (rt_sched rt') = Some c"
        "heap (rt_sched rt') = heap (w_sched w)"
      and exec: "worker_switch e able now rs (True, True, True) True w =
        (case accept_ends e (True, True, True) (int n) (w\<lparr>w_rt := rt', w_pend := (w_pend w)(c := None)\<rparr>) of (connfd, w2) \<Rightarrow> accepted True now connfd w2)"
      by auto
    from acceptor_resumes [OF inv hk c(2) rt(1-4) n, where opts = "(True, True, True)" and ok = True and now = now] exec op n room assms(5) rt(5)
    show ?thesis by (auto simp: fresh_fd_def ret_def split: if_splits)
  qed
qed

theorem accepted_connection_is_served_witness:
  "\<exists>w w' v'. worker_exec test_env 3 (W_accept True True 1000 [Sys_ok 5] (True, True, True) True) w = Some (Ret w') \<and> worker_inv test_env 3 w' v' \<and>
    w_conns w = {} \<and> w_conns w' = {5} \<and> connection_count w' = 2"
proof -
  from test_acceptor obtain w v c where w: "worker_inv test_env 3 w v" "runner (w_sched w) = Some c" "coro_func (w_sched w) c = Accept_cycle"
    "ran (v_waiting v) = {}" "g_shall_stop w = 0" "g_shall_exit w = 0" "w_conns w = {}" "connection_count w = 1" "fst (malloc (heap (w_sched w))) \<noteq> 0" by blast
  let ?op = "W_accept True True 1000 [Sys_ok 5] (True, True, True) True"
  have al: "worker_allowed 3 ?op w v" using w(2-7) by (auto simp: timers_near_def first_result_def fresh_fd_def)
  have "1 < g_worker_processes test_env" "worker_can_accept test_env w" using w(8) by (simp_all add: test_env_def worker_can_accept_def)
  then have "\<exists>w' v'. worker_exec test_env 3 ?op w = Some (Ret w') \<and> worker_inv test_env 3 w' v' \<and>
      w_conns w' = insert (int 5) (w_conns w) \<and> connection_count w' = connection_count w + 1"
    using w(5,6) by (intro accepted_connection_is_served [OF w(1) al _ _ w(9)]) (simp_all add: first_result_def)
  then show ?thesis using w(7,8) by auto
qed

text \<open>C38. The start of a worker, outcome by cause. When the service cannot be initialised, it ends. Fewer than four connections fail an assertion
  (the pool of timer nodes needs two slots). It ends when there is no memory for that pool, for the event table, or no \<open>epoll\<close>
  descriptor; never otherwise. When there is memory for the coroutine of the accept loop it starts with its invariant and that coroutine ready, as the only
  one, to run \<open>worker_accept_cycle\<close>; and when there is none it lives on without any coroutine, as the result of \<open>dispatch_coro\<close> is not looked at: it
  never accepts and never ends.\<close>

theorem worker_starts:
  assumes "new_worker w" and "g_worker_connections e + 128 \<le> INT_MAX" and "0 \<le> listen_fd"
  shows "if init \<noteq> 0 then worker_process_cycle e init array_ok epoll_ok ev_ok stack_ok w = Some (Exit 0)
    else if g_worker_connections e < 4 then worker_process_cycle e init array_ok epoll_ok ev_ok stack_ok w = Some Abort
    else \<exists>pool h. memcache_create sizeof_timer_node (g_worker_connections e div 2) (heap (w_sched w)) = Some (Ret (pool, h)) \<and>
      (if pool = None \<or> \<not> array_ok \<or> \<not> epoll_ok \<or> \<not> ev_ok
       then worker_process_cycle e init array_ok epoll_ok ev_ok stack_ok w = Some (Exit 0)
       else \<exists>w'. worker_process_cycle e init array_ok epoll_ok ev_ok stack_ok w = Some (Ret w') \<and>
         (if fst (malloc h) \<noteq> 0 \<and> stack_ok then accepts_soon e listen_fd w' else deaf w'))"
proof (cases "init = 0 \<and> 4 \<le> g_worker_connections e")
  case True
  then have z: "init = 0" "\<not> (0 :: int) \<noteq> 0" "\<not> g_worker_connections e < 4" "4 \<le> g_worker_connections e" by simp_all
  show ?thesis
    unfolding z(1) if_not_P [OF z(2)] if_not_P [OF z(3)] by (rule start_cases [OF assms(1,2) z(4) assms(3)])
next
  case False
  have "schedule_init (nat (g_coro_stack_kbytes e)) (nat (g_worker_connections e)) (w_sched w) = Some Abort" if "g_worker_connections e < 4"
    using schedule_init_exact [of "w_sched w" "nat (g_worker_connections e)" "nat (g_coro_stack_kbytes e)"] assms(1) that by (simp add: new_worker_def)
  with False show ?thesis by (auto simp: worker_process_cycle_def run_bind_def)
qed

lemma worker_rep: "worker_inv e l w v \<Longrightarrow> sched_rep (w_sched w) v"
  using runtime_okD(1) [OF worker_invD(1), of e l w v] by (simp add: sched_state_def w_sched_def)

theorem worker_starts_witness:
  "\<exists>w'. worker_process_cycle test_env 0 True True True True test_worker = Some (Ret w') \<and> accepts_soon test_env 3 w'"
proof -
  from test_worker_started obtain w where w: "worker_process_cycle test_env 0 True True True True test_worker = Some (Ret w)" "\<not> deaf w"
    using view_unique(2) [OF _ worker_rep] by (fastforce simp: deaf_def sched_state_def empty_view_def)
  from worker_starts [OF test_new_worker, of test_env 3 0 True True True True] w show ?thesis
    by (auto simp: test_env_def INT_MAX_def split: if_splits)
qed

end
