(* ===== verification/Master.thy ===== *)
theory Master
  imports Worker_Life
begin

text \<open>
  The master's side of \<open>process.c\<close> and \<open>signal.c\<close>: the table of workers, forking, and the loop of \<open>master_process_cycle\<close> with signal
  handlers that may run between any two of its steps. The processes themselves are part of the state: the
  children that live, each with the information whether it has been told to stop, and those that have exited and
  are not yet waited for. A child starts with a copy of the master's flags.
\<close>

definition INVALID_PID :: int where "INVALID_PID = -1"

record process =
  p_pid :: int
  p_cpuid :: int

text \<open>Where the master is: before each \<open>if\<close> of the loop, between sending a signal and clearing the request, in the loop of
  \<open>spawn_worker_process\<close> before slot \<open>i\<close>, and between \<open>fork\<close> and the assignment of the new pid.\<close>

datatype master_pc =
  M_stop | M_stop_sent | M_exit | M_exit_sent | M_all | M_create | M_spawn nat | M_assign nat int | M_sleep | M_done

record master_state =
  m_worker :: "process list"
  m_shall_stop :: int
  m_shall_exit :: int
  all_workers_exit :: bool
  shall_create_worker :: bool
  m_kids :: "int \<Rightarrow> bool option"
  m_zombies :: "int set"
  m_pc :: master_pc

definition worker_empty :: "master_state \<Rightarrow> bool" where
  "worker_empty m \<longleftrightarrow> (\<forall>p \<in> set (m_worker m). p_pid p = INVALID_PID)"

text \<open>\<open>fork\<close> gives \<open>None\<close> when it fails. The part of \<open>fork_worker\<close> in the child, which goes on in \<open>worker_process_cycle\<close>: \<open>log_worker_alloc\<close>
  and \<open>bind_cpu\<close> may fail.\<close>

definition fork_worker :: "int option \<Rightarrow> nat \<Rightarrow> master_state \<Rightarrow> master_state" where
  "fork_worker pid i m =
     (case pid of
        None \<Rightarrow> m\<lparr>m_pc := M_spawn (i + 1)\<rparr>
      | Some p \<Rightarrow> m\<lparr>m_kids := (m_kids m)(p \<mapsto> m_shall_stop m \<noteq> 0 \<or> m_shall_exit m \<noteq> 0), m_pc := M_assign i p\<rparr>)"

definition fork_child :: "int \<Rightarrow> int \<Rightarrow> unit cres" where
  "fork_child log_alloc bind_res = (if log_alloc < 0 then Exit 0 else if bind_res \<noteq> 0 then Exit 0 else Ret ())"

text \<open>One round of the loop of \<open>spawn_worker_process\<close>.\<close>

definition spawn_worker_process :: "int option \<Rightarrow> nat \<Rightarrow> master_state \<Rightarrow> master_state" where
  "spawn_worker_process pid i m =
     (if i < length (m_worker m) then
        if p_pid (m_worker m ! i) \<noteq> INVALID_PID then m\<lparr>m_pc := M_spawn (i + 1)\<rparr> else fork_worker pid i m
      else m\<lparr>m_pc := M_sleep\<rparr>)"

text \<open>Both signals tell a worker to end. \<open>kill\<close> fails for a process that no longer exists.\<close>

definition send_signal_to_workers :: "master_state \<Rightarrow> master_state" where
  "send_signal_to_workers m =
     m\<lparr>m_kids := (\<lambda>pid. if pid \<noteq> INVALID_PID \<and> pid \<in> p_pid ` set (m_worker m) then map_option (\<lambda>_. True) (m_kids m pid) else m_kids m pid)\<rparr>"

text \<open>\<open>master_process_cycle\<close>, one step; \<open>pid\<close> is what \<open>fork\<close> gives if it is called.\<close>

fun master_process_cycle :: "int option \<Rightarrow> master_state \<Rightarrow> master_state" where
  "master_process_cycle pid m =
     (case m_pc m of
        M_stop \<Rightarrow> if m_shall_stop m = 1 then (send_signal_to_workers m)\<lparr>m_pc := M_stop_sent\<rparr> else m\<lparr>m_pc := M_exit\<rparr>
      | M_stop_sent \<Rightarrow> m\<lparr>m_shall_stop := 2, m_pc := M_exit\<rparr>
      | M_exit \<Rightarrow> if m_shall_exit m = 1 then (send_signal_to_workers m)\<lparr>m_pc := M_exit_sent\<rparr> else m\<lparr>m_pc := M_all\<rparr>
      | M_exit_sent \<Rightarrow> m\<lparr>m_shall_exit := 2, m_pc := M_all\<rparr>
      | M_all \<Rightarrow> if all_workers_exit m then m\<lparr>m_pc := M_done\<rparr> else m\<lparr>m_pc := M_create\<rparr>
      | M_create \<Rightarrow> if shall_create_worker m then m\<lparr>shall_create_worker := False, m_pc := M_spawn 0\<rparr> else m\<lparr>m_pc := M_sleep\<rparr>
      | M_spawn i \<Rightarrow> spawn_worker_process pid i m
      | M_assign i p \<Rightarrow> m\<lparr>m_worker := (m_worker m)[i := (m_worker m ! i)\<lparr>p_pid := p\<rparr>], m_pc := M_spawn (i + 1)\<rparr>
      | M_sleep \<Rightarrow> m\<lparr>m_pc := M_stop\<rparr>
      | M_done \<Rightarrow> m)"

subsection \<open>Signals of the master\<close>

definition worker_exit_handler :: "int \<Rightarrow> master_state \<Rightarrow> master_state" where
  "worker_exit_handler pid m =
     (let m1 = m\<lparr>m_worker := map (\<lambda>p. if p_pid p = pid then p\<lparr>p_pid := INVALID_PID\<rparr> else p) (m_worker m)\<rparr>;
          m2 = if m_shall_stop m1 = 0 \<and> m_shall_exit m1 = 0 then m1\<lparr>shall_create_worker := True\<rparr> else m1
      in if worker_empty m2 \<and> (m_shall_stop m2 \<noteq> 0 \<or> m_shall_exit m2 \<noteq> 0) then m2\<lparr>all_workers_exit := True\<rparr> else m2)"

text \<open>\<open>waitpid\<close> gives the exited children one by one; \<open>pids\<close> are its results.\<close>

fun worker_process_get_status :: "int list \<Rightarrow> master_state \<Rightarrow> master_state" where
  "worker_process_get_status [] m = m"
| "worker_process_get_status (pid # pids) m =
     worker_process_get_status pids (worker_exit_handler pid (m\<lparr>m_zombies := m_zombies m - {pid}\<rparr>))"

fun master_signal_handler :: "int list \<Rightarrow> signal \<Rightarrow> master_state \<Rightarrow> master_state" where
  "master_signal_handler pids SIGQUIT m = m\<lparr>m_shall_stop := 1\<rparr>"
| "master_signal_handler pids SIGTERM m = m\<lparr>m_shall_exit := 1\<rparr>"
| "master_signal_handler pids SIGINT m = m\<lparr>m_shall_exit := 1\<rparr>"
| "master_signal_handler pids SIGCHLD m = worker_process_get_status pids m"
| "master_signal_handler pids _ m = m"

subsection \<open>The start of the master\<close>

definition process_init :: "env \<Rightarrow> int \<Rightarrow> int \<Rightarrow> master_state cres" where
  "process_init e log_alloc ncpu =
     (if log_alloc < 0 then Exit 0
      else if ncpu = 0 \<and> g_worker_processes e > 0 then UB
      else Ret \<lparr>m_worker = map (\<lambda>i. \<lparr>p_pid = INVALID_PID, p_cpuid = int i mod \<bar>ncpu\<bar>\<rparr>) [0..<nat (g_worker_processes e)],
                m_shall_stop = 0, m_shall_exit = 0, all_workers_exit = False, shall_create_worker = True,
                m_kids = (\<lambda>_. None), m_zombies = {}, m_pc = M_stop\<rparr>)"

subsection \<open>Runs\<close>

text \<open>The loop of the master, a signal (for \<open>SIGCHLD\<close> with the exited children in the order of \<open>waitpid\<close>), and the end of a child.\<close>

datatype master_op = Cycle "int option" | Signal signal "int list" | Child_exits int

fun master_exec :: "master_op \<Rightarrow> master_state \<Rightarrow> master_state" where
  "master_exec (Cycle pid) m = master_process_cycle pid m"
| "master_exec (Signal signo pids) m = (if m_pc m = M_done then m else master_signal_handler pids signo m)"
| "master_exec (Child_exits pid) m = m\<lparr>m_kids := (m_kids m)(pid := None), m_zombies := insert pid (m_zombies m)\<rparr>"

text \<open>\<open>fork\<close> gives a positive pid that no child has; \<open>waitpid\<close> reports every exited child once. A child is not reaped before the master has
  noted its pid.\<close>

fun master_allowed :: "master_op \<Rightarrow> master_state \<Rightarrow> bool" where
  "master_allowed (Cycle pid) m \<longleftrightarrow> (\<forall>p. pid = Some p \<longrightarrow> 0 < p \<and> m_kids m p = None \<and> p \<notin> m_zombies m)"
| "master_allowed (Signal signo pids) m \<longleftrightarrow>
     (signo = SIGCHLD \<longrightarrow> distinct pids \<and> set pids = m_zombies m \<and> (\<forall>i p. m_pc m = M_assign i p \<longrightarrow> p \<notin> m_zombies m))"
| "master_allowed (Child_exits pid) m \<longleftrightarrow> m_kids m pid \<noteq> None"

inductive master_reach :: "master_state \<Rightarrow> master_state \<Rightarrow> bool" for m0 where
  master_start: "master_reach m0 m0"
| master_next: "master_reach m0 m \<Longrightarrow> master_allowed op m \<Longrightarrow> master_reach m0 (master_exec op m)"

subsection \<open>The invariant\<close>

definition pids_of :: "process list \<Rightarrow> int list" where
  "pids_of ps = filter (\<lambda>p. p \<noteq> INVALID_PID) (map p_pid ps)"

definition children :: "master_state \<Rightarrow> int set" where
  "children m = dom (m_kids m) \<union> m_zombies m"

text \<open>The pid that \<open>fork\<close> has given and that is not yet in the table.\<close>

definition unnoted :: "master_state \<Rightarrow> int set" where
  "unnoted m = (case m_pc m of M_assign i p \<Rightarrow> {p} | _ \<Rightarrow> {})"

definition told :: "master_state \<Rightarrow> bool" where
  "told m \<longleftrightarrow> (\<forall>pid b. m_kids m pid = Some b \<longrightarrow> b)"

text \<open>The table holds exactly the children; once a request has been passed on, every living child knows.\<close>

definition master_inv :: "master_state \<Rightarrow> bool" where
  "master_inv m \<longleftrightarrow>
     distinct (pids_of (m_worker m)) \<and> children m = set (pids_of (m_worker m)) \<union> unnoted m \<and> set (pids_of (m_worker m)) \<inter> unnoted m = {} \<and>
     (\<forall>p \<in> children m. 0 < p) \<and> dom (m_kids m) \<inter> m_zombies m = {} \<and>
     (\<forall>i p. m_pc m = M_assign i p \<longrightarrow> i < length (m_worker m) \<and> p_pid (m_worker m ! i) = INVALID_PID) \<and>
     (m_shall_stop m = 2 \<or> m_pc m = M_stop_sent \<longrightarrow> told m) \<and> (m_shall_exit m = 2 \<or> m_pc m = M_exit_sent \<longrightarrow> told m) \<and>
     m_shall_stop m \<in> {0, 1, 2} \<and> m_shall_exit m \<in> {0, 1, 2} \<and>
     (all_workers_exit m \<longrightarrow> m_shall_stop m \<noteq> 0 \<or> m_shall_exit m \<noteq> 0) \<and> (m_pc m = M_done \<longrightarrow> all_workers_exit m)"

lemma pids_of_mem: "p \<in> set (pids_of ps) \<longleftrightarrow> p \<noteq> INVALID_PID \<and> p \<in> p_pid ` set ps"
  by (auto simp: pids_of_def)

lemma pids_of_assign:
  assumes "i < length ps" and "p_pid (ps ! i) = INVALID_PID" and "p \<noteq> INVALID_PID"
  shows "set (pids_of (ps[i := (ps ! i)\<lparr>p_pid := p\<rparr>])) = insert p (set (pids_of ps))"
    and "distinct (pids_of ps) \<Longrightarrow> p \<notin> set (pids_of ps) \<Longrightarrow> distinct (pids_of (ps[i := (ps ! i)\<lparr>p_pid := p\<rparr>]))"
proof -
  obtain as x bs where ps: "ps = as @ x # bs" "length as = i" using assms(1) id_take_nth_drop [of i ps] by (metis length_take min.absorb4)
  then have x: "p_pid x = INVALID_PID" "ps ! i = x" using assms(2) by auto
  have old: "pids_of ps = pids_of as @ pids_of bs" using x(1) by (simp add: ps(1) pids_of_def)
  have "ps[i := y] = as @ y # bs" for y by (simp add: ps(1) flip: ps(2))
  then have new: "pids_of (ps[i := (ps ! i)\<lparr>p_pid := p\<rparr>]) = pids_of as @ p # pids_of bs" using assms(3) by (simp add: pids_of_def)
  show "set (pids_of (ps[i := (ps ! i)\<lparr>p_pid := p\<rparr>])) = insert p (set (pids_of ps))" unfolding old new by auto
  show "distinct (pids_of ps) \<Longrightarrow> p \<notin> set (pids_of ps) \<Longrightarrow> distinct (pids_of (ps[i := (ps ! i)\<lparr>p_pid := p\<rparr>]))" unfolding old new by auto
qed

lemma pids_of_clear: "pids_of (map (\<lambda>p. if p_pid p = pid then p\<lparr>p_pid := INVALID_PID\<rparr> else p) ps) = filter (\<lambda>p. p \<noteq> pid) (pids_of ps)"
  by (induction ps) (auto simp: pids_of_def)

lemma worker_empty_pids: "worker_empty m \<longleftrightarrow> pids_of (m_worker m) = []"
  by (auto simp: worker_empty_def pids_of_def filter_empty_conv)

lemma master_invD:
  assumes "master_inv m"
  shows "distinct (pids_of (m_worker m))" "children m = set (pids_of (m_worker m)) \<union> unnoted m" "set (pids_of (m_worker m)) \<inter> unnoted m = {}"
    "p \<in> children m \<Longrightarrow> 0 < p" "dom (m_kids m) \<inter> m_zombies m = {}"
    "m_pc m = M_assign i p \<Longrightarrow> i < length (m_worker m) \<and> p_pid (m_worker m ! i) = INVALID_PID"
    "m_shall_stop m = 2 \<or> m_pc m = M_stop_sent \<Longrightarrow> told m" "m_shall_exit m = 2 \<or> m_pc m = M_exit_sent \<Longrightarrow> told m"
    "m_shall_stop m \<in> {0, 1, 2}" "m_shall_exit m \<in> {0, 1, 2}"
    "all_workers_exit m \<Longrightarrow> m_shall_stop m \<noteq> 0 \<or> m_shall_exit m \<noteq> 0" "m_pc m = M_done \<Longrightarrow> all_workers_exit m"
  using assms by (simp_all add: master_inv_def)

text \<open>After \<open>send_signal_to_workers\<close> every child knows.\<close>

lemma send_tells:
  assumes "master_inv m" and "unnoted m = {}"
  shows "told (send_signal_to_workers m)" "dom (m_kids (send_signal_to_workers m)) = dom (m_kids m)"
proof -
  have "pid \<noteq> INVALID_PID \<and> pid \<in> p_pid ` set (m_worker m)" if "m_kids m pid = Some b" for pid b
    using master_invD(2) [OF assms(1)] assms(2) that pids_of_mem [of pid "m_worker m"] by (auto simp: children_def)
  then show "told (send_signal_to_workers m)" by (auto simp: told_def send_signal_to_workers_def split: if_splits)
  show "dom (m_kids (send_signal_to_workers m)) = dom (m_kids m)" by (auto simp: send_signal_to_workers_def split: if_splits)
qed

lemma frame_upd [simp]:
  "told (m\<lparr>m_pc := pc\<rparr>) = told m" "children (m\<lparr>m_pc := pc\<rparr>) = children m"
  by (simp_all add: told_def children_def)

lemma send_inv:
  assumes inv: "master_inv m" and pc: "m_pc m = M_stop \<or> m_pc m = M_exit" "pc = M_stop_sent \<or> pc = M_exit_sent"
  shows "master_inv ((send_signal_to_workers m)\<lparr>m_pc := pc\<rparr>)"
proof -
  note d = master_invD [OF inv]
  let ?m = "send_signal_to_workers m"
  have u: "unnoted m = {}" using pc(1) by (auto simp: unnoted_def)
  note s = send_tells [OF inv u]
  have sel: "m_worker ?m = m_worker m" "m_zombies ?m = m_zombies m" "m_shall_stop ?m = m_shall_stop m" "m_shall_exit ?m = m_shall_exit m"
    "all_workers_exit ?m = all_workers_exit m" by (simp_all add: send_signal_to_workers_def)
  have c: "children ?m = children m" using s(2) sel(2) by (simp add: children_def)
  have "unnoted (?m\<lparr>m_pc := pc\<rparr>) = {}" using pc(2) by (auto simp: unnoted_def)
  then show ?thesis using d u s c sel pc unfolding master_inv_def by auto
qed

lemma cycle_inv:
  assumes inv: "master_inv m" and new: "\<And>p. pid = Some p \<Longrightarrow> 0 < p \<and> m_kids m p = None \<and> p \<notin> m_zombies m"
  shows "master_inv (master_process_cycle pid m)"
proof -
  note d = master_invD [OF inv]
  show ?thesis
  proof (cases "m_pc m")
    case M_stop
    with send_inv [OF inv, of M_stop_sent] inv show ?thesis
      by (cases "m_shall_stop m = 1") (auto simp: master_inv_def unnoted_def)
  next
    case M_exit
    with send_inv [OF inv, of M_exit_sent] inv show ?thesis
      by (cases "m_shall_exit m = 1") (auto simp: master_inv_def unnoted_def)
  next
    case (M_spawn i)
    show ?thesis
    proof (cases "i < length (m_worker m) \<and> p_pid (m_worker m ! i) = INVALID_PID")
      case True
      then show ?thesis
      proof (cases pid)
        case (Some p)
        have "children (fork_worker pid i m) = insert p (children m)" by (auto simp: fork_worker_def Some children_def)
        moreover have "p \<notin> children m" "0 < p" using new [OF Some] by (auto simp: children_def)
        moreover have "told (fork_worker pid i m)" if "told m" "m_shall_stop m \<noteq> 0 \<or> m_shall_exit m \<noteq> 0"
          using that by (auto simp: told_def fork_worker_def Some)
        ultimately show ?thesis using True M_spawn d(1,2,5,7-12) new [OF Some] d(4)
          by (auto simp: master_inv_def spawn_worker_process_def fork_worker_def Some unnoted_def)
      qed (use True M_spawn inv in \<open>auto simp: master_inv_def children_def unnoted_def told_def spawn_worker_process_def fork_worker_def\<close>)
    qed (use M_spawn inv in \<open>auto simp: master_inv_def children_def unnoted_def told_def spawn_worker_process_def\<close>)
  next
    case (M_assign i p)
    have i: "i < length (m_worker m)" "p_pid (m_worker m ! i) = INVALID_PID" using d(6) [OF M_assign] by auto
    have u: "unnoted m = {p}" by (simp add: unnoted_def M_assign)
    have "0 < p" using d(2,4) u by auto
    then have p: "p \<noteq> INVALID_PID" by (simp add: INVALID_PID_def)
    show ?thesis using M_assign d u pids_of_assign [OF i p] by (auto simp: master_inv_def children_def unnoted_def told_def)
  qed (use inv in \<open>auto simp: master_inv_def children_def unnoted_def told_def\<close>)
qed

lemma exit_handler_inv:
  assumes inv: "master_inv m" and pid: "pid \<in> m_zombies m" "pid \<notin> unnoted m"
  shows "master_inv (worker_exit_handler pid (m\<lparr>m_zombies := m_zombies m - {pid}\<rparr>))"
    and "m_zombies (worker_exit_handler pid (m\<lparr>m_zombies := m_zombies m - {pid}\<rparr>)) = m_zombies m - {pid}"
    and "m_pc (worker_exit_handler pid (m\<lparr>m_zombies := m_zombies m - {pid}\<rparr>)) = m_pc m"
    and "m_kids (worker_exit_handler pid (m\<lparr>m_zombies := m_zombies m - {pid}\<rparr>)) = m_kids m"
proof -
  note d = master_invD [OF inv]
  let ?m = "worker_exit_handler pid (m\<lparr>m_zombies := m_zombies m - {pid}\<rparr>)"
  show sel: "m_zombies ?m = m_zombies m - {pid}" "m_pc ?m = m_pc m" "m_kids ?m = m_kids m"
    by (simp_all add: worker_exit_handler_def Let_def)
  have w: "m_worker ?m = map (\<lambda>p. if p_pid p = pid then p\<lparr>p_pid := INVALID_PID\<rparr> else p) (m_worker m)"
    and f: "m_shall_stop ?m = m_shall_stop m" "m_shall_exit ?m = m_shall_exit m"
    and a: "all_workers_exit ?m \<Longrightarrow> all_workers_exit m \<or> m_shall_stop m \<noteq> 0 \<or> m_shall_exit m \<noteq> 0"
      "all_workers_exit m \<Longrightarrow> all_workers_exit ?m"
    by (auto simp: worker_exit_handler_def Let_def split: if_splits)
  have pids: "pids_of (m_worker ?m) = filter (\<lambda>p. p \<noteq> pid) (pids_of (m_worker m))" unfolding w by (rule pids_of_clear)
  have "pid \<notin> dom (m_kids m)" using d(5) pid(1) by auto
  then have c: "children ?m = children m - {pid}" using sel by (auto simp: children_def)
  have u: "unnoted ?m = unnoted m" "told ?m = told m" using sel by (simp_all add: unnoted_def told_def)
  have "p_pid (m_worker ?m ! i) = INVALID_PID" if "i < length (m_worker m)" "p_pid (m_worker m ! i) = INVALID_PID" for i using that by (simp add: w)
  moreover have "length (m_worker ?m) = length (m_worker m)" by (simp add: w)
  ultimately show "master_inv ?m"
    using d pid(2) a f c u pids sel unfolding master_inv_def by auto
qed

lemma get_status_inv:
  assumes "master_inv m" and "distinct pids" and "set pids \<subseteq> m_zombies m" and "set pids \<inter> unnoted m = {}"
  shows "let m' = worker_process_get_status pids m in
    master_inv m' \<and> m_zombies m' = m_zombies m - set pids \<and> m_kids m' = m_kids m \<and> m_pc m' = m_pc m"
  using assms
proof (induction pids arbitrary: m)
  case (Cons pid pids)
  let ?m = "worker_exit_handler pid (m\<lparr>m_zombies := m_zombies m - {pid}\<rparr>)"
  have pid: "pid \<in> m_zombies m" "pid \<notin> unnoted m" using Cons.prems by auto
  note e = exit_handler_inv [OF Cons.prems(1) pid]
  have "unnoted ?m = unnoted m" by (simp add: unnoted_def e(3))
  then have "distinct pids" "set pids \<subseteq> m_zombies ?m" "set pids \<inter> unnoted ?m = {}" using Cons.prems(2-4) e(2) by auto
  from Cons.IH [OF e(1) this] e(2-4) show ?case by (auto simp: Let_def)
qed simp

lemma master_step_inv:
  assumes inv: "master_inv m" and al: "master_allowed op m"
  shows "master_inv (master_exec op m)"
proof (cases op)
  case (Cycle pid)
  then have new: "0 < p \<and> m_kids m p = None \<and> p \<notin> m_zombies m" if "pid = Some p" for p using al that by simp
  show ?thesis unfolding Cycle master_exec.simps(1) by (rule cycle_inv [OF inv new])
next
  case (Signal signo pids)
  show ?thesis
  proof (cases "signo = SIGCHLD \<and> m_pc m \<noteq> M_done")
    case True
    with Signal al have "distinct pids" "set pids \<subseteq> m_zombies m" "set pids \<inter> unnoted m = {}" by (auto simp: unnoted_def split: master_pc.splits)
    from get_status_inv [OF inv this] True Signal show ?thesis by (simp add: Let_def)
  next
    case False
    with inv Signal show ?thesis by (cases signo) (auto simp: master_inv_def children_def unnoted_def told_def)
  qed
next
  case (Child_exits pid)
  with al obtain b where pid: "m_kids m pid = Some b" by auto
  note d = master_invD [OF inv]
  let ?m = "m\<lparr>m_kids := (m_kids m)(pid := None), m_zombies := insert pid (m_zombies m)\<rparr>"
  have "children ?m = children m" using pid by (auto simp: children_def)
  moreover have "told ?m" if "told m" using that by (auto simp: told_def)
  moreover have "dom (m_kids ?m) \<inter> m_zombies ?m = {}" using d(5) by auto
  ultimately show ?thesis using inv unfolding Child_exits by (auto simp: master_inv_def unnoted_def)
qed

lemma master_reach_inv: "master_reach m0 m \<Longrightarrow> master_inv m0 \<Longrightarrow> master_inv m"
  by (induction rule: master_reach.induct) (auto intro: master_step_inv)

lemma process_init_inv: "process_init e log_alloc ncpu = Ret m \<Longrightarrow> master_inv m"
  by (auto simp: process_init_def master_inv_def pids_of_def children_def unnoted_def split: if_splits)

subsection \<open>The end of the master\<close>

text \<open>When the last child is reaped after a request, the master is told to exit.\<close>

lemma get_status_ends:
  assumes "pids \<noteq> []" and "m_shall_stop m \<noteq> 0 \<or> m_shall_exit m \<noteq> 0" and "worker_empty (worker_process_get_status pids m)"
  shows "all_workers_exit (worker_process_get_status pids m)"
proof -
  show ?thesis using assms
  proof (induction pids arbitrary: m)
    case (Cons pid pids)
    let ?m = "worker_exit_handler pid (m\<lparr>m_zombies := m_zombies m - {pid}\<rparr>)"
    have f: "m_shall_stop ?m \<noteq> 0 \<or> m_shall_exit ?m \<noteq> 0" using Cons.prems(2) by (simp add: worker_exit_handler_def Let_def)
    show ?case
    proof (cases "pids = []")
      case True
      have e: "worker_empty (x\<lparr>all_workers_exit := b\<rparr>) = worker_empty x" for x b by (simp add: worker_empty_def)
      from True Cons.prems(2,3) show ?thesis by (auto simp: worker_exit_handler_def Let_def e split: if_splits)
    next
      case False
      with Cons.IH [OF False f] Cons.prems(3) show ?thesis by simp
    qed
  qed simp
qed

text \<open>How many steps are left to the check of \<open>all_workers_exit\<close>.\<close>

fun steps_left :: "nat \<Rightarrow> master_pc \<Rightarrow> nat" where
  "steps_left n M_done = 0"
| "steps_left n M_all = 1"
| "steps_left n M_exit_sent = 2"
| "steps_left n M_exit = 3"
| "steps_left n M_stop_sent = 4"
| "steps_left n M_stop = 5"
| "steps_left n M_sleep = 6"
| "steps_left n (M_spawn i) = 7 + 2 * (n - i)"
| "steps_left n (M_assign i p) = 8 + 2 * (n - i - 1)"
| "steps_left n M_create = 8 + 2 * n"

lemma steps_left_less:
  assumes "all_workers_exit m" and "master_inv m" and "m_pc m \<noteq> M_done"
  shows "all_workers_exit (master_process_cycle pid m)" "length (m_worker (master_process_cycle pid m)) = length (m_worker m)"
    "steps_left (length (m_worker m)) (m_pc (master_process_cycle pid m)) < steps_left (length (m_worker m)) (m_pc m)"
proof -
  let ?m = "master_process_cycle pid m" and ?n = "length (m_worker m)"
  have "all_workers_exit ?m \<and> length (m_worker ?m) = ?n \<and> steps_left ?n (m_pc ?m) < steps_left ?n (m_pc m)"
  proof (cases "m_pc m")
    case (M_spawn i)
    with assms(1) show ?thesis by (cases pid) (auto simp: spawn_worker_process_def fork_worker_def)
  next
    case (M_assign i p)
    with assms(1) master_invD(6) [OF assms(2) M_assign] show ?thesis by simp
  qed (use assms(1,3) in \<open>simp_all add: send_signal_to_workers_def\<close>)
  then show "all_workers_exit ?m" "length (m_worker ?m) = ?n" "steps_left ?n (m_pc ?m) < steps_left ?n (m_pc m)" by auto
qed

text \<open>The loop without signals, with what \<open>fork\<close> gives in each step.\<close>

fun master_run :: "int option list \<Rightarrow> master_state \<Rightarrow> master_state" where
  "master_run [] m = m"
| "master_run (pid # pids) m = master_run pids (master_process_cycle pid m)"

fun forks_ok :: "int option list \<Rightarrow> master_state \<Rightarrow> bool" where
  "forks_ok [] m \<longleftrightarrow> True"
| "forks_ok (pid # pids) m \<longleftrightarrow> master_allowed (Cycle pid) m \<and> forks_ok pids (master_process_cycle pid m)"

text \<open>With \<open>all_workers_exit\<close> set, the loop leaves.\<close>

lemma master_finishes:
  assumes "all_workers_exit m" and "master_inv m" and "steps_left (length (m_worker m)) (m_pc m) \<le> length pids" and "forks_ok pids m"
  shows "m_pc (master_run pids m) = M_done"
  using assms
proof (induction pids arbitrary: m)
  case Nil
  then show ?case by (cases "m_pc m") auto
next
  case (Cons pid pids)
  show ?case
  proof (cases "m_pc m = M_done")
    case True
    then have "m_pc (master_run ps m) = M_done" for ps by (induction ps) auto
    then show ?thesis by blast
  next
    case False
    note s = steps_left_less [OF Cons.prems(1,2) False, of pid]
    have "master_inv (master_process_cycle pid m)" using Cons.prems(2,4) cycle_inv [of m pid] by simp
    from Cons.IH [OF s(1) this] s(2,3) Cons.prems(3,4) show ?thesis by simp
  qed
qed

subsection \<open>Properties\<close>

text \<open>C8. The master knows its workers, as long as no child is reaped in the window between \<open>fork\<close> and the store of its pid into the table
  (\<open>master_allowed\<close> leaves this one interleaving out; C39 shows that it breaks the table). Then, whatever other signals arrive between the steps of
  its loop and whenever workers end, the table holds exactly
  the pids of the children that live or wait to be reaped (and the one just forked), each once; and as soon as a request to
  stop or to exit has been passed on, every living worker has been told, also those forked afterwards.\<close>

theorem master_tracks_workers:
  assumes "process_init e log_alloc ncpu = Ret m0" and "master_reach m0 m"
  shows "set (pids_of (m_worker m)) \<union> unnoted m = dom (m_kids m) \<union> m_zombies m \<and> distinct (pids_of (m_worker m)) \<and>
    (m_shall_stop m = 2 \<or> m_shall_exit m = 2 \<longrightarrow> (\<forall>pid b. m_kids m pid = Some b \<longrightarrow> b)) \<and>
    (m_pc m = M_done \<longrightarrow> m_shall_stop m \<noteq> 0 \<or> m_shall_exit m \<noteq> 0)"
proof -
  have "master_inv m" by (rule master_reach_inv [OF assms(2) process_init_inv [OF assms(1)]])
  from master_invD [OF this] show ?thesis unfolding children_def told_def by blast
qed

text \<open>C9. The master ends after its workers: when it has been asked to stop or to exit and \<open>SIGCHLD\<close> reaps the last of its children, its loop
  leaves within \<open>2 n + 8\<close> steps, \<open>n\<close> the number of slots, whatever the loop was doing.\<close>

theorem master_ends_after_workers:
  assumes "master_inv m" and "m_shall_stop m \<noteq> 0 \<or> m_shall_exit m \<noteq> 0" and "m_kids m = (\<lambda>_. None)"
    and "distinct pids" and "set pids = m_zombies m" and "pids \<noteq> []" and "unnoted m = {}"
    and "length forks = 2 * length (m_worker m) + 8" and "forks_ok forks (worker_process_get_status pids m)"
  shows "m_pc (master_run forks (worker_process_get_status pids m)) = M_done"
proof -
  let ?m = "worker_process_get_status pids m"
  have m: "master_inv ?m" "m_zombies ?m = {}" "m_kids ?m = (\<lambda>_. None)" "m_pc ?m = m_pc m"
    using get_status_inv [OF assms(1,4)] assms(3,5,7) by (auto simp: Let_def)
  have len: "length (m_worker ?m) = length (m_worker m)"
    by (induction pids m rule: worker_process_get_status.induct) (auto simp: worker_exit_handler_def Let_def)
  have "set (pids_of (m_worker ?m)) = {}" using master_invD(2) [OF m(1)] m(2,3) by (auto simp: children_def)
  then have all: "all_workers_exit ?m" by (intro get_status_ends assms) (simp add: worker_empty_pids)
  have "steps_left (length (m_worker ?m)) (m_pc ?m) \<le> length forks" using len assms(8) by (cases "m_pc ?m") auto
  from master_finishes [OF all m(1) this assms(9)] show ?thesis .
qed

lemma reach_run: "master_reach m0 m \<Longrightarrow> forks_ok pids m \<Longrightarrow> master_reach m0 (master_run pids m)"
proof (induction pids arbitrary: m)
  case (Cons pid pids)
  have "master_reach m0 (master_exec (Cycle pid) m)" by (rule master_next [OF Cons.prems(1)]) (use Cons.prems(2) in simp)
  with Cons.IH Cons.prems(2) show ?case by simp
qed simp

lemma no_forks: "forks_ok (replicate n None) m"
  by (induction n arbitrary: m) auto

definition test_master :: master_state where
  "test_master = \<lparr>m_worker = [\<lparr>p_pid = -1, p_cpuid = 0\<rparr>, \<lparr>p_pid = -1, p_cpuid = 1\<rparr>], m_shall_stop = 0, m_shall_exit = 0, all_workers_exit = False,
     shall_create_worker = True, m_kids = (\<lambda>_. None), m_zombies = {}, m_pc = M_stop\<rparr>"

theorem master_tracks_workers_witness:
  "\<exists>m. master_reach test_master m \<and> map p_pid (m_worker m) = [100, 101] \<and> dom (m_kids m) \<union> m_zombies m = {100, 101}"
proof -
  let ?forks = "[None, None, None, None, Some 100, None, Some 101, None]"
  have init: "process_init test_env 0 2 = Ret test_master"
    by (simp add: process_init_def test_env_def test_master_def INVALID_PID_def numeral_2_eq_2)
  have ok: "forks_ok ?forks test_master"
    by (simp add: test_master_def spawn_worker_process_def fork_worker_def INVALID_PID_def)
  define m where "m = master_run ?forks test_master"
  have "map p_pid (m_worker (master_run ?forks test_master)) = [100, 101]" "m_pc (master_run ?forks test_master) = M_spawn 2" by code_simp+
  then have m: "map p_pid (m_worker m) = [100, 101]" "m_pc m = M_spawn 2" by (simp_all only: m_def)
  have reach: "master_reach test_master m" unfolding m_def by (rule reach_run [OF master_start ok])
  from master_tracks_workers [OF init reach] m have "dom (m_kids m) \<union> m_zombies m = {100, 101}" by (simp add: pids_of_def unnoted_def INVALID_PID_def)
  with m(1) reach show ?thesis by (intro exI [of _ m]) simp
qed

theorem master_ends_after_workers_witness:
  "\<exists>m. m_pc (master_run (replicate 12 None) (worker_process_get_status [101, 100] m)) = M_done \<and> m_zombies m = {100, 101} \<and> m_pc m = M_sleep"
proof -
  let ?m = "test_master\<lparr>m_worker := [\<lparr>p_pid = 100, p_cpuid = 0\<rparr>, \<lparr>p_pid = 101, p_cpuid = 1\<rparr>], m_shall_stop := 2, shall_create_worker := False,
    m_zombies := {100, 101}, m_pc := M_sleep\<rparr>"
  have "master_inv ?m" by (auto simp: master_inv_def test_master_def pids_of_def children_def unnoted_def told_def INVALID_PID_def)
  moreover have "m_kids ?m = (\<lambda>_. None)" "unnoted ?m = {}" by (simp_all add: test_master_def unnoted_def)
  ultimately have "m_pc (master_run (replicate 12 None) (worker_process_get_status [101, 100] ?m)) = M_done"
    by (intro master_ends_after_workers no_forks) (auto simp: test_master_def)
  then show ?thesis by (intro exI [of _ ?m]) simp
qed

text \<open>A run in which \<open>SIGCHLD\<close> comes between \<open>fork\<close> and the assignment of the pid, and where it leads.\<close>

definition one_worker :: master_state where
  "one_worker = test_master\<lparr>m_worker := [\<lparr>p_pid = -1, p_cpuid = 0\<rparr>]\<rparr>"

definition race :: "master_op list" where
  "race = [Cycle None, Cycle None, Cycle None, Cycle None, Cycle (Some 100), Child_exits 100, Signal SIGCHLD [100], Cycle None, Signal SIGQUIT []]"

definition abandoned :: "master_state \<Rightarrow> bool" where
  "abandoned m \<longleftrightarrow> m_kids m = (\<lambda>_. None) \<and> m_zombies m = {} \<and> map p_pid (m_worker m) = [100] \<and> \<not> all_workers_exit m \<and> m_shall_stop m \<noteq> 0 \<and>
     (case m_pc m of M_done \<Rightarrow> False | M_assign i p \<Rightarrow> False | _ \<Rightarrow> True)"

lemma abandoned_step: "abandoned m \<Longrightarrow> master_allowed op m \<Longrightarrow> abandoned (master_exec op m)"
proof (cases op)
  case (Cycle pid)
  assume "abandoned m"
  then show ?thesis unfolding Cycle
    by (cases "m_pc m") (auto simp: abandoned_def send_signal_to_workers_def spawn_worker_process_def INVALID_PID_def less_Suc_eq)
next
  case (Signal signo pids)
  assume "abandoned m" "master_allowed op m"
  then show ?thesis unfolding Signal by (cases signo) (auto simp: abandoned_def)
next
  case (Child_exits pid)
  assume "abandoned m" "master_allowed op m"
  then show ?thesis unfolding Child_exits by (simp add: abandoned_def)
qed

text \<open>C39. The assumption on reaping cannot be dropped. With one worker: when the worker ends and \<open>SIGCHLD\<close> is handled between the return of
  \<open>fork\<close> and the assignment \<open>p->pid = pid\<close>, the table keeps the pid of a process that no longer exists. No worker is ever started
  again, and after a request to stop the master never ends.\<close>

theorem fork_race_loses_slot:
  "abandoned (fold master_exec race one_worker) \<and>
   (\<forall>m. master_reach (fold master_exec race one_worker) m \<longrightarrow> m_pc m \<noteq> M_done \<and> m_kids m = (\<lambda>_. None) \<and> m_shall_stop m \<noteq> 0)"
proof -
  have "abandoned (fold master_exec race one_worker)"
    by (simp add: race_def one_worker_def test_master_def abandoned_def spawn_worker_process_def fork_worker_def INVALID_PID_def
        worker_exit_handler_def Let_def worker_empty_def fun_eq_iff)
  moreover have "abandoned m" if "master_reach (fold master_exec race one_worker) m" for m
    using that calculation by (induction rule: master_reach.induct) (auto intro: abandoned_step)
  moreover have "m_pc m \<noteq> M_done \<and> m_kids m = (\<lambda>_. None) \<and> m_shall_stop m \<noteq> 0" if "abandoned m" for m
    using that by (cases "m_pc m") (simp_all add: abandoned_def)
  ultimately show ?thesis by blast
qed

theorem fork_race_loses_slot_witness: "m_pc (fold master_exec race one_worker) \<noteq> M_done \<and> m_shall_stop (fold master_exec race one_worker) \<noteq> 0"
  using fork_race_loses_slot master_start [of "fold master_exec race one_worker"] by blast

end
