(* ===== verification/Cirbuf.thy ===== *)
theory Cirbuf
  imports Prelude
begin

text \<open>
  \<open>util/cirbuf.h\<close>: a ring of \<open>elem_count\<close> slots with one slot kept free. The slots live in a typed
  heap that maps the address of a slot to its contents; a callback is a function on the contents of
  the slot it is given. \<open>elem_count\<close>, \<open>start\<close> and \<open>end\<close> are C \<open>int\<close>s that never leave
  \<open>[0, elem_count]\<close>, so naturals represent them; \<open>elem_count\<close> is at least 1 in every theorem (0
  would be a division by zero).

  The first part shows that the ring is a bounded FIFO queue. The second part is about the way the
  logger uses it: a worker process writes and the master process reads the same ring in shared
  memory without a lock. The loads and stores of the two sides are interleaved one by one.
\<close>

record ('e, 'a, 'w) cirbuf =
  q_elem_count :: nat
  q_elem_size :: size_t
  q_start :: nat
  q_end :: nat
  q_read_cb :: "'e \<Rightarrow> 'a \<Rightarrow> 'w \<Rightarrow> 'w"
  q_write_cb :: "'e \<Rightarrow> 'a \<Rightarrow> 'e"
  q_elem :: ptr

type_synonym 'e slots = "ptr \<Rightarrow> 'e"

subsection \<open>Operations\<close>

definition cirbuf_is_empty :: "('e, 'a, 'w) cirbuf \<Rightarrow> bool" where
  "cirbuf_is_empty queue \<longleftrightarrow> q_start queue = q_end queue"

definition cirbuf_is_full :: "('e, 'a, 'w) cirbuf \<Rightarrow> bool" where
  "cirbuf_is_full queue \<longleftrightarrow> (q_end queue + 1) mod q_elem_count queue = q_start queue"

definition slot_addr :: "('e, 'a, 'w) cirbuf \<Rightarrow> nat \<Rightarrow> ptr" where
  "slot_addr queue i = q_elem queue + i * q_elem_size queue"

definition cirbuf_write ::
  "('e, 'a, 'w) cirbuf \<Rightarrow> 'a \<Rightarrow> 'e slots \<Rightarrow> int \<times> ('e, 'a, 'w) cirbuf \<times> 'e slots" where
  "cirbuf_write queue args h =
     (if cirbuf_is_full queue then (-1, queue, h)
      else let data = slot_addr queue (q_end queue);
               h' = h(data := q_write_cb queue (h data) args)
           in (0, queue\<lparr>q_end := (q_end queue + 1) mod q_elem_count queue\<rparr>, h'))"

definition cirbuf_read ::
  "('e, 'a, 'w) cirbuf \<Rightarrow> 'a \<Rightarrow> 'e slots \<Rightarrow> 'w \<Rightarrow> int \<times> ('e, 'a, 'w) cirbuf \<times> 'w" where
  "cirbuf_read queue args h w =
     (if cirbuf_is_empty queue then (-1, queue, w)
      else let data = slot_addr queue (q_start queue);
               w' = q_read_cb queue (h data) args w
           in (0, queue\<lparr>q_start := (q_start queue + 1) mod q_elem_count queue\<rparr>, w'))"

definition cirbuf_init ::
  "('e, 'a, 'w) cirbuf \<Rightarrow> nat \<Rightarrow> size_t \<Rightarrow> ('e \<Rightarrow> 'a \<Rightarrow> 'w \<Rightarrow> 'w) \<Rightarrow> ('e \<Rightarrow> 'a \<Rightarrow> 'e) \<Rightarrow>
    ('e, 'a, 'w) cirbuf" where
  "cirbuf_init queue elem_count elem_size read_cb write_cb =
     queue\<lparr>q_elem_count := elem_count, q_elem_size := elem_size, q_start := 0, q_end := 0,
       q_read_cb := read_cb, q_write_cb := write_cb\<rparr>"

subsection \<open>The queue a ring represents\<close>

definition ring_len :: "nat \<Rightarrow> nat \<Rightarrow> nat \<Rightarrow> nat" where
  "ring_len n s e = (e + n - s) mod n"

definition ring_list :: "nat \<Rightarrow> nat \<Rightarrow> nat \<Rightarrow> (nat \<Rightarrow> 'e) \<Rightarrow> 'e list" where
  "ring_list n s e f = map (\<lambda>i. f ((s + i) mod n)) [0..<ring_len n s e]"

definition cirbuf_ok :: "('e, 'a, 'w) cirbuf \<Rightarrow> bool" where
  "cirbuf_ok q \<longleftrightarrow> q_start q < q_elem_count q \<and> q_end q < q_elem_count q \<and> 0 < q_elem_size q"

definition cirbuf_list :: "('e, 'a, 'w) cirbuf \<Rightarrow> 'e slots \<Rightarrow> 'e list" where
  "cirbuf_list q h = ring_list (q_elem_count q) (q_start q) (q_end q) (\<lambda>i. h (slot_addr q i))"

lemma ring_len_less: "0 < n \<Longrightarrow> ring_len n s e < n"
  by (simp add: ring_len_def)

lemma ring_len_if: "s < n \<Longrightarrow> e < n \<Longrightarrow> ring_len n s e = (if s \<le> e then e - s else e + n - s)"
  by (auto simp: ring_len_def mod_if)

lemma succ_mod: "i < n \<Longrightarrow> Suc i mod n = (if Suc i = n then 0 else Suc i)"
  by auto

lemma ring_len_0: "s < n \<Longrightarrow> e < n \<Longrightarrow> ring_len n s e = 0 \<longleftrightarrow> s = e"
  by (auto simp: ring_len_if)

lemma ring_len_end: "s < n \<Longrightarrow> e < n \<Longrightarrow> (s + ring_len n s e) mod n = e"
  by (auto simp: ring_len_if)

lemma ring_len_full: "s < n \<Longrightarrow> e < n \<Longrightarrow> (e + 1) mod n = s \<longleftrightarrow> ring_len n s e = n - 1"
  by (auto simp: ring_len_if succ_mod)

lemma ring_len_write:
  "s < n \<Longrightarrow> e < n \<Longrightarrow> (e + 1) mod n \<noteq> s \<Longrightarrow> ring_len n s ((e + 1) mod n) = ring_len n s e + 1"
  by (auto simp: ring_len_if succ_mod split: if_splits)

lemma ring_len_read:
  "s < n \<Longrightarrow> e < n \<Longrightarrow> s \<noteq> e \<Longrightarrow> ring_len n s e = ring_len n ((s + 1) mod n) e + 1"
  by (auto simp: ring_len_if succ_mod split: if_splits)

lemma length_ring_list [simp]: "length (ring_list n s e f) = ring_len n s e"
  by (simp add: ring_list_def)

text \<open>No index of the queue is the free slot \<open>e\<close>.\<close>

lemma ring_index_neq:
  assumes "s < n" "e < n" "i < ring_len n s e"
  shows "(s + i) mod n \<noteq> e"
proof -
  have "i < n" using assms ring_len_less [of n s e] by simp
  then have "(s + i) mod n = (if s + i < n then s + i else s + i - n)" using assms(1) by (simp add: mod_if)
  with assms show ?thesis by (auto simp: ring_len_if split: if_splits)
qed

lemma ring_list_cong:
  assumes "s < n" "e < n" "\<And>i. i < n \<Longrightarrow> i \<noteq> e \<Longrightarrow> f i = g i"
  shows "ring_list n s e f = ring_list n s e g"
  unfolding ring_list_def using assms ring_index_neq [OF assms(1,2)] by (intro map_cong) auto

lemma ring_list_write:
  assumes "s < n" "e < n" "(e + 1) mod n \<noteq> s"
  shows "ring_list n s ((e + 1) mod n) f = ring_list n s e f @ [f e]"
  using ring_len_write [OF assms] ring_len_end [OF assms(1,2)] by (simp add: ring_list_def)

lemma ring_list_read:
  assumes "s < n" "e < n" "s \<noteq> e"
  shows "ring_list n s e f = f s # ring_list n ((s + 1) mod n) e f"
proof -
  have "ring_list n s e f = map (\<lambda>i. f ((s + i) mod n)) (0 # map Suc [0..<ring_len n ((s + 1) mod n) e])"
    using ring_len_read [OF assms] by (simp add: ring_list_def upt_conv_Cons map_Suc_upt del: upt_Suc)
  also have "\<dots> = f s # ring_list n ((s + 1) mod n) e f"
    using assms(1) by (simp add: ring_list_def comp_def mod_add_left_eq)
  finally show ?thesis .
qed

lemma slot_addr_inj [simp]: "0 < q_elem_size q \<Longrightarrow> slot_addr q i = slot_addr q j \<longleftrightarrow> i = j"
  by (simp add: slot_addr_def)

lemma slot_addr_fields [simp]:
  "slot_addr (q\<lparr>q_start := x\<rparr>) i = slot_addr q i" "slot_addr (q\<lparr>q_end := y\<rparr>) i = slot_addr q i"
  by (simp_all add: slot_addr_def)

lemma cirbuf_is_empty_iff: "cirbuf_ok q \<Longrightarrow> cirbuf_is_empty q \<longleftrightarrow> cirbuf_list q h = []"
  using ring_len_0 [of "q_start q" "q_elem_count q" "q_end q"]
  by (auto simp: cirbuf_is_empty_def cirbuf_ok_def cirbuf_list_def ring_list_def)

lemma cirbuf_is_full_iff:
  "cirbuf_ok q \<Longrightarrow> cirbuf_is_full q \<longleftrightarrow> length (cirbuf_list q h) = q_elem_count q - 1"
  using ring_len_full [of "q_start q" "q_elem_count q" "q_end q"]
  by (simp add: cirbuf_is_full_def cirbuf_ok_def cirbuf_list_def)

lemma length_cirbuf_list: "cirbuf_ok q \<Longrightarrow> length (cirbuf_list q h) \<le> q_elem_count q - 1"
  using ring_len_less [of "q_elem_count q" "q_start q" "q_end q"]
  by (simp add: cirbuf_ok_def cirbuf_list_def)

lemma cirbuf_write_list:
  assumes ok: "cirbuf_ok q" and room: "\<not> cirbuf_is_full q"
  shows "\<exists>q' h'. cirbuf_write q args h = (0, q', h') \<and> cirbuf_ok q' \<and>
    q' = q\<lparr>q_end := q_end q'\<rparr> \<and>
    cirbuf_list q' h' = cirbuf_list q h @ [q_write_cb q (h (slot_addr q (q_end q))) args]"
proof -
  let ?n = "q_elem_count q" and ?s = "q_start q" and ?e = "q_end q"
  let ?v = "q_write_cb q (h (slot_addr q ?e)) args"
  let ?h = "h(slot_addr q ?e := ?v)"
  from ok have le: "?s < ?n" "?e < ?n" "0 < q_elem_size q" by (auto simp: cirbuf_ok_def)
  have "ring_list ?n ?s ?e (\<lambda>i. ?h (slot_addr q i)) = ring_list ?n ?s ?e (\<lambda>i. h (slot_addr q i))"
    using le by (intro ring_list_cong) auto
  then have "ring_list ?n ?s ((?e + 1) mod ?n) (\<lambda>i. ?h (slot_addr q i)) =
      ring_list ?n ?s ?e (\<lambda>i. h (slot_addr q i)) @ [?v]"
    using le room by (simp add: ring_list_write [simplified] cirbuf_is_full_def)
  then show ?thesis using ok room le
    by (simp add: cirbuf_write_def Let_def cirbuf_ok_def cirbuf_list_def cong: if_cong)
qed

lemma cirbuf_read_list:
  assumes ok: "cirbuf_ok q" and x: "cirbuf_list q h = x # xs"
  shows "\<exists>q'. cirbuf_read q args h w = (0, q', q_read_cb q x args w) \<and> cirbuf_ok q' \<and>
    q' = q\<lparr>q_start := q_start q'\<rparr> \<and> cirbuf_list q' h = xs"
proof -
  let ?n = "q_elem_count q" and ?s = "q_start q" and ?e = "q_end q"
  from ok have le: "?s < ?n" "?e < ?n" by (auto simp: cirbuf_ok_def)
  have ne: "?s \<noteq> ?e" using cirbuf_is_empty_iff [OF ok, of h] x by (auto simp: cirbuf_is_empty_def)
  from ring_list_read [OF le ne, of "\<lambda>i. h (slot_addr q i)"] x
  have "x = h (slot_addr q ?s)" "xs = ring_list ?n ((?s + 1) mod ?n) ?e (\<lambda>i. h (slot_addr q i))"
    by (simp_all add: cirbuf_list_def)
  then show ?thesis using ok ne le
    by (simp add: cirbuf_read_def Let_def cirbuf_ok_def cirbuf_list_def cirbuf_is_empty_def)
qed

subsection \<open>The interface\<close>

text \<open>A loop that reads until the queue reports that it is empty, as the logger's does.\<close>

partial_function (option) drain :: "('q \<Rightarrow> 'w \<Rightarrow> int \<times> 'q \<times> 'w) \<Rightarrow> 'q \<Rightarrow> 'w \<Rightarrow> ('q \<times> 'w) option" where
  "drain get q w =
     (case get q w of (ret, q', w') \<Rightarrow> if ret \<noteq> -1 then drain get q' w' else Some (q', w'))"

text \<open>What a client of a bounded queue relies on: \<open>rep q xs\<close> relates the state to the queued
  elements, oldest first; \<open>enc\<close> is the element made of an argument, \<open>rd\<close> the effect of reading.\<close>

locale bounded_queue =
  fixes rep :: "'q \<Rightarrow> 'e list \<Rightarrow> bool" and cap :: nat
    and put :: "'a \<Rightarrow> 'q \<Rightarrow> int \<times> 'q" and get :: "'q \<Rightarrow> 'w \<Rightarrow> int \<times> 'q \<times> 'w"
    and enc :: "'a \<Rightarrow> 'e" and rd :: "'e \<Rightarrow> 'w \<Rightarrow> 'w"
  assumes bound: "rep q xs \<Longrightarrow> length xs \<le> cap"
    and put_room: "rep q xs \<Longrightarrow> length xs < cap \<Longrightarrow> \<exists>q'. put a q = (0, q') \<and> rep q' (xs @ [enc a])"
    and put_full: "rep q xs \<Longrightarrow> length xs = cap \<Longrightarrow> put a q = (-1, q)"
    and get_empty: "rep q [] \<Longrightarrow> get q w = (-1, q, w)"
    and get_first: "rep q (x # xs) \<Longrightarrow> \<exists>q'. get q w = (0, q', rd x w) \<and> rep q' xs"
begin

text \<open>Draining always ends, visits every element once in the order of insertion, and leaves the
  queue empty.\<close>

lemma drain_all:
  assumes "rep q xs"
  shows "\<exists>q'. drain get q w = Some (q', fold rd xs w) \<and> rep q' []"
  using assms
proof (induction xs arbitrary: q w)
  case Nil
  then show ?case by (simp add: drain.simps [of get q w] get_empty)
next
  case (Cons x xs)
  from get_first [OF Cons.prems] obtain q' where "get q w = (0, q', rd x w)" "rep q' xs" by blast
  with Cons.IH [of q' "rd x w"] show ?case by (simp add: drain.simps [of get q w])
qed

text \<open>Writing a batch: what does not fit is dropped, the rest is queued in order.\<close>

lemma put_all:
  assumes "rep q xs"
  shows "rep (fold (\<lambda>a q. snd (put a q)) as q) (xs @ map enc (take (cap - length xs) as))"
  using assms
proof (induction as arbitrary: q xs)
  case (Cons a as)
  show ?case
  proof (cases "length xs < cap")
    case True
    with put_room [OF Cons.prems] obtain q' where q': "put a q = (0, q')" "rep q' (xs @ [enc a])" by blast
    have "cap - length xs = Suc (cap - Suc (length xs))" using True by simp
    with Cons.IH [OF q'(2)] q'(1) True show ?thesis by simp
  next
    case False
    with bound [OF Cons.prems] have "length xs = cap" by simp
    with put_full [OF Cons.prems this] Cons.IH [OF Cons.prems] show ?thesis by simp
  qed
qed simp

end

definition cirbuf_rep ::
  "nat \<Rightarrow> ('a \<Rightarrow> 'e) \<Rightarrow> ('e \<Rightarrow> 'a \<Rightarrow> 'w \<Rightarrow> 'w) \<Rightarrow> ('e, 'a, 'w) cirbuf \<times> 'e slots \<Rightarrow> 'e list \<Rightarrow> bool" where
  "cirbuf_rep cap enc rd qh xs \<longleftrightarrow> (case qh of (q, h) \<Rightarrow> cirbuf_ok q \<and> q_elem_count q = Suc cap \<and>
     q_write_cb q = (\<lambda>_. enc) \<and> q_read_cb q = rd \<and> cirbuf_list q h = xs)"

definition cirbuf_put :: "'a \<Rightarrow> ('e, 'a, 'w) cirbuf \<times> 'e slots \<Rightarrow> int \<times> ('e, 'a, 'w) cirbuf \<times> 'e slots" where
  "cirbuf_put a qh = (case qh of (q, h) \<Rightarrow> cirbuf_write q a h)"

definition cirbuf_get ::
  "'a \<Rightarrow> ('e, 'a, 'w) cirbuf \<times> 'e slots \<Rightarrow> 'w \<Rightarrow> int \<times> (('e, 'a, 'w) cirbuf \<times> 'e slots) \<times> 'w" where
  "cirbuf_get args qh w = (case qh of (q, h) \<Rightarrow> case cirbuf_read q args h w of (ret, q', w') \<Rightarrow> (ret, (q', h), w'))"

interpretation cb: bounded_queue "cirbuf_rep cap enc rd" cap cirbuf_put "cirbuf_get args" enc "\<lambda>e. rd e args"
  for cap enc rd args
proof unfold_locales
  fix qh xs a x w
  assume rep: "cirbuf_rep cap enc rd qh xs"
  obtain q h where qh: "qh = (q, h)" by fastforce
  with rep have q: "cirbuf_ok q" "q_elem_count q = Suc cap" "q_write_cb q = (\<lambda>_. enc)" "q_read_cb q = rd"
    "cirbuf_list q h = xs" by (simp_all add: cirbuf_rep_def)
  show "length xs \<le> cap" using length_cirbuf_list [OF q(1), of h] q by simp
  show "\<exists>q'. cirbuf_put a qh = (0, q') \<and> cirbuf_rep cap enc rd q' (xs @ [enc a])" if "length xs < cap"
  proof -
    have "\<not> cirbuf_is_full q" using cirbuf_is_full_iff [OF q(1), of h] q that by simp
    from cirbuf_write_list [OF q(1) this, of a h] obtain q' h' where
      w: "cirbuf_write q a h = (0, q', h')" "cirbuf_ok q'" "q' = q\<lparr>q_end := q_end q'\<rparr>"
      "cirbuf_list q' h' = xs @ [enc a]" using q by auto
    have "q_elem_count q' = Suc cap" "q_write_cb q' = (\<lambda>_. enc)" "q_read_cb q' = rd"
      by (subst w(3); simp add: q)+
    with w show ?thesis by (auto simp: cirbuf_put_def cirbuf_rep_def qh)
  qed
  show "cirbuf_put a qh = (-1, qh)" if "length xs = cap"
    using cirbuf_is_full_iff [OF q(1), of h] q that by (simp add: cirbuf_put_def cirbuf_write_def qh)
next
  fix qh w
  assume rep: "cirbuf_rep cap enc rd qh []"
  obtain q h where qh: "qh = (q, h)" by fastforce
  with rep cirbuf_is_empty_iff [of q h] show "cirbuf_get args qh w = (-1, qh, w)"
    by (simp add: cirbuf_rep_def cirbuf_get_def cirbuf_read_def)
next
  fix qh x xs w
  assume rep: "cirbuf_rep cap enc rd qh (x # xs)"
  obtain q h where qh: "qh = (q, h)" by fastforce
  with rep have q: "cirbuf_ok q" "q_elem_count q = Suc cap" "q_write_cb q = (\<lambda>_. enc)" "q_read_cb q = rd"
    "cirbuf_list q h = x # xs" by (simp_all add: cirbuf_rep_def)
  from cirbuf_read_list [OF q(1,5), of args w] obtain q' where
    r: "cirbuf_read q args h w = (0, q', rd x args w)" "cirbuf_ok q'" "q' = q\<lparr>q_start := q_start q'\<rparr>"
    "cirbuf_list q' h = xs" using q by auto
  have "q_elem_count q' = Suc cap" "q_write_cb q' = (\<lambda>_. enc)" "q_read_cb q' = rd"
    by (subst r(3); simp add: q)+
  with r show "\<exists>q'. cirbuf_get args qh w = (0, q', rd x args w) \<and> cirbuf_rep cap enc rd q' xs"
    by (auto simp: cirbuf_get_def cirbuf_rep_def qh)
qed

subsection \<open>One writer, one reader, no lock\<close>

text \<open>
  The same two operations as sequences of single accesses to the shared structure: the check of
  full or empty, the access to the slot, the store of the new index. Each side only stores its own
  index. \<open>sp_written\<close> and \<open>sp_seen\<close> record the values the writer has published and the reader has
  taken. Memory is sequentially consistent here; the program itself uses no barriers.
\<close>

datatype 'e writer = W_idle | W_store 'e | W_publish 'e

datatype reader = R_idle | R_load | R_release

record 'e spsc =
  sp_start :: nat
  sp_end :: nat
  sp_slots :: "nat \<Rightarrow> 'e"
  sp_writer :: "'e writer"
  sp_reader :: reader
  sp_written :: "'e list"
  sp_seen :: "'e list"

definition spsc_init :: "(nat \<Rightarrow> 'e) \<Rightarrow> 'e spsc" where
  "spsc_init f = \<lparr>sp_start = 0, sp_end = 0, sp_slots = f, sp_writer = W_idle, sp_reader = R_idle,
     sp_written = [], sp_seen = []\<rparr>"

inductive spsc_step :: "nat \<Rightarrow> 'e spsc \<Rightarrow> 'e spsc \<Rightarrow> bool" for n where
  write_check: "sp_writer s = W_idle \<Longrightarrow> (sp_end s + 1) mod n \<noteq> sp_start s \<Longrightarrow>
    spsc_step n s (s\<lparr>sp_writer := W_store v\<rparr>)"
| write_store: "sp_writer s = W_store v \<Longrightarrow>
    spsc_step n s (s\<lparr>sp_slots := (sp_slots s)(sp_end s := v), sp_writer := W_publish v\<rparr>)"
| write_publish: "sp_writer s = W_publish v \<Longrightarrow>
    spsc_step n s (s\<lparr>sp_end := (sp_end s + 1) mod n, sp_writer := W_idle, sp_written := sp_written s @ [v]\<rparr>)"
| read_check: "sp_reader s = R_idle \<Longrightarrow> sp_start s \<noteq> sp_end s \<Longrightarrow> spsc_step n s (s\<lparr>sp_reader := R_load\<rparr>)"
| read_load: "sp_reader s = R_load \<Longrightarrow>
    spsc_step n s (s\<lparr>sp_reader := R_release, sp_seen := sp_seen s @ [sp_slots s (sp_start s)]\<rparr>)"
| read_release: "sp_reader s = R_release \<Longrightarrow>
    spsc_step n s (s\<lparr>sp_start := (sp_start s + 1) mod n, sp_reader := R_idle\<rparr>)"

definition spsc_taken :: "'e spsc \<Rightarrow> 'e list" where
  "spsc_taken s = (if sp_reader s = R_release then [sp_slots s (sp_start s)] else [])"

definition spsc_inv :: "nat \<Rightarrow> 'e spsc \<Rightarrow> bool" where
  "spsc_inv n s \<longleftrightarrow> sp_start s < n \<and> sp_end s < n \<and>
     (sp_writer s \<noteq> W_idle \<longrightarrow> (sp_end s + 1) mod n \<noteq> sp_start s) \<and>
     (\<forall>v. sp_writer s = W_publish v \<longrightarrow> sp_slots s (sp_end s) = v) \<and>
     (sp_reader s \<noteq> R_idle \<longrightarrow> sp_start s \<noteq> sp_end s) \<and>
     (\<exists>c. sp_seen s = c @ spsc_taken s \<and>
        sp_written s = c @ ring_list n (sp_start s) (sp_end s) (sp_slots s))"

lemma spsc_inv_init: "0 < n \<Longrightarrow> spsc_inv n (spsc_init f)"
  by (simp add: spsc_inv_def spsc_init_def spsc_taken_def ring_list_def ring_len_def)

lemma room_after_read:
  assumes "s < n" "e < n" "s \<noteq> e" "(e + 1) mod n \<noteq> (s :: nat)"
  shows "(e + 1) mod n \<noteq> (s + 1) mod n"
  using assms by (auto simp: succ_mod split: if_splits)

lemma spsc_step_inv:
  assumes "spsc_step n s s'" and inv: "spsc_inv n s"
  shows "spsc_inv n s'"
  using assms(1)
proof cases
  case (write_store v)
  have "ring_list n (sp_start s) (sp_end s) ((sp_slots s)(sp_end s := v)) =
      ring_list n (sp_start s) (sp_end s) (sp_slots s)"
    using inv by (intro ring_list_cong) (auto simp: spsc_inv_def)
  with inv write_store show ?thesis by (auto simp: spsc_inv_def spsc_taken_def)
next
  case (write_publish v)
  with inv ring_list_write [of "sp_start s" n "sp_end s" "sp_slots s"] show ?thesis
    by (auto simp: spsc_inv_def spsc_taken_def)
next
  case read_release
  from inv read_release have le: "sp_start s < n" "sp_end s < n" "sp_start s \<noteq> sp_end s"
    by (auto simp: spsc_inv_def)
  from inv read_release obtain c where c: "sp_seen s = c @ [sp_slots s (sp_start s)]"
    "sp_written s = c @ ring_list n (sp_start s) (sp_end s) (sp_slots s)"
    by (auto simp: spsc_inv_def spsc_taken_def)
  with ring_list_read [OF le, of "sp_slots s"] room_after_read [OF le] inv read_release le show ?thesis
    by (auto simp: spsc_inv_def spsc_taken_def)
qed (use inv in \<open>auto simp: spsc_inv_def spsc_taken_def\<close>)

lemma spsc_reachable_inv:
  "(spsc_step n)\<^sup>*\<^sup>* s s' \<Longrightarrow> spsc_inv n s \<Longrightarrow> spsc_inv n s'"
  by (induction rule: rtranclp_induct) (auto intro: spsc_step_inv)

lemma spsc_inv_prefix:
  assumes "spsc_inv n s"
  shows "\<exists>rest. sp_written s = sp_seen s @ rest \<and> length rest < n"
proof -
  from assms have le: "sp_start s < n" "sp_end s < n" by (auto simp: spsc_inv_def)
  let ?q = "ring_list n (sp_start s) (sp_end s) (sp_slots s)"
  have len: "length ?q < n" using ring_len_less [of n] le by simp
  from assms obtain c where c: "sp_seen s = c @ spsc_taken s" "sp_written s = c @ ?q"
    by (auto simp: spsc_inv_def)
  show ?thesis
  proof (cases "sp_reader s = R_release")
    case True
    with assms have "sp_start s \<noteq> sp_end s" by (simp add: spsc_inv_def)
    from ring_list_read [OF le this, of "sp_slots s"] c True len show ?thesis by (simp add: spsc_taken_def)
  next
    case False
    with c len show ?thesis by (simp add: spsc_taken_def)
  qed
qed

subsection \<open>Properties\<close>

text \<open>The ring is a bounded FIFO queue of \<open>elem_count - 1\<close> elements: after \<open>cirbuf_init\<close>, writing any batch
  keeps the first \<open>elem_count - 1\<close> elements and drops the rest, and reading until -1 ends, hands
  exactly these elements to the read callback in the order they were written, and leaves the
  ring empty.\<close>

theorem cirbuf_fifo:
  fixes q :: "('e, 'a, 'w) cirbuf" and enc rd cap
  assumes "0 < elem_size"
  defines "q0 \<equiv> cirbuf_init q (Suc cap) elem_size rd (\<lambda>_. enc)"
  shows "\<exists>q'. drain (cirbuf_get args) (fold (\<lambda>a qh. snd (cirbuf_put a qh)) as (q0, h)) w =
      Some (q', fold (\<lambda>e. rd e args) (map enc (take cap as)) w) \<and> cirbuf_list (fst q') (snd q') = []"
proof -
  have "cirbuf_rep cap enc rd (q0, h) []"
    using assms(1)
    by (simp add: q0_def cirbuf_rep_def cirbuf_init_def cirbuf_ok_def cirbuf_list_def ring_list_def
        ring_len_def)
  from cb.put_all [OF this, of as]
  have "cirbuf_rep cap enc rd (fold (\<lambda>a qh. snd (cirbuf_put a qh)) as (q0, h)) (map enc (take cap as))"
    by simp
  from cb.drain_all [OF this, of args w] show ?thesis by (auto simp: cirbuf_rep_def split: prod.splits)
qed

definition test_ring :: "(nat, nat, nat list) cirbuf" where
  "test_ring = \<lparr>q_elem_count = 9, q_elem_size = 9, q_start = 5, q_end = 7, q_read_cb = (\<lambda>e a w. w),
     q_write_cb = (\<lambda>e a. e), q_elem = 4096\<rparr>"

theorem cirbuf_fifo_witness:
  "\<exists>q'. drain (cirbuf_get 0) (fold (\<lambda>a qh. snd (cirbuf_put a qh)) [1, 2, 3]
      (cirbuf_init test_ring 3 1024 (\<lambda>e a w. w @ [e]) (\<lambda>_ a. 10 * a), \<lambda>_. 0)) [] = Some (q', [10, 20])"
  using cirbuf_fifo [of 1024 0 "[1, 2, 3]" test_ring 2 "\<lambda>e a w. w @ [e]" "\<lambda>a. 10 * a" "\<lambda>_. 0" "[]"]
  by (auto simp: numeral_eq_Suc)

text \<open>C26. Lock-free use by one writer and one reader: in every interleaving of the single steps of
  \<open>cirbuf_write\<close> and \<open>cirbuf_read\<close>, what the reader has taken is a prefix of what the writer has
  published (nothing lost, duplicated, reordered or read half-written), and fewer than
  \<open>elem_count\<close> elements are in flight.\<close>

theorem cirbuf_single_writer_reader:
  assumes "0 < n" and "(spsc_step n)\<^sup>*\<^sup>* (spsc_init f) s"
  shows "\<exists>rest. sp_written s = sp_seen s @ rest \<and> length rest < n"
  using spsc_inv_prefix [OF spsc_reachable_inv [OF assms(2) spsc_inv_init [OF assms(1)]]] .

lemma spsc_run_example: "\<exists>s. (spsc_step 2)\<^sup>*\<^sup>* (spsc_init (\<lambda>_. 0 :: nat)) s \<and> sp_seen s = [7]"
proof -
  let ?s0 = "spsc_init (\<lambda>_. 0 :: nat)"
  let ?s1 = "?s0\<lparr>sp_writer := W_store 7\<rparr>"
  let ?s2 = "?s1\<lparr>sp_slots := (sp_slots ?s1)(sp_end ?s1 := 7), sp_writer := W_publish 7\<rparr>"
  let ?s3 = "?s2\<lparr>sp_end := (sp_end ?s2 + 1) mod 2, sp_writer := W_idle, sp_written := sp_written ?s2 @ [7]\<rparr>"
  let ?s4 = "?s3\<lparr>sp_reader := R_load\<rparr>"
  let ?s5 = "?s4\<lparr>sp_reader := R_release, sp_seen := sp_seen ?s4 @ [sp_slots ?s4 (sp_start ?s4)]\<rparr>"
  have "spsc_step 2 ?s0 ?s1" by (rule spsc_step.write_check) (simp_all add: spsc_init_def)
  moreover have "spsc_step 2 ?s1 ?s2" by (rule spsc_step.write_store) simp
  moreover have "spsc_step 2 ?s2 ?s3" by (rule spsc_step.write_publish) simp
  moreover have "spsc_step 2 ?s3 ?s4" by (rule spsc_step.read_check) (simp_all add: spsc_init_def)
  moreover have "spsc_step 2 ?s4 ?s5" by (rule spsc_step.read_load) simp
  ultimately have "(spsc_step 2)\<^sup>*\<^sup>* ?s0 ?s5" by (meson converse_rtranclp_into_rtranclp rtranclp.rtrancl_refl)
  moreover have "sp_seen ?s5 = [7]" by (simp add: spsc_init_def)
  ultimately show ?thesis by blast
qed

theorem cirbuf_single_writer_reader_witness:
  "\<exists>s rest. (spsc_step 2)\<^sup>*\<^sup>* (spsc_init (\<lambda>_. 0 :: nat)) s \<and> sp_seen s = [7] \<and>
    sp_written s = [7] @ rest \<and> length rest < 2"
proof -
  obtain s where s: "(spsc_step 2)\<^sup>*\<^sup>* (spsc_init (\<lambda>_. 0 :: nat)) s" "sp_seen s = [7]"
    using spsc_run_example by blast
  from cirbuf_single_writer_reader [OF _ s(1)] s show ?thesis by auto
qed

end
