(* ===== verification/Spinlock.thy ===== *)
theory Spinlock
  imports Prelude
begin

text \<open>
  \<open>util/spinlock.h\<close>: the ticket lock that guards \<open>accept\<close>, the shared-memory allocator and the
  logger table. Its counters are 32-bit words and wrap. First the operations as one process alone
  sees them, then any number of processes whose single accesses to the lock are interleaved.

  Each process is at one of the points of \<open>lock_pc\<close>. The numbers some of them carry, and
  \<open>ls_served\<close> and \<open>ls_taken\<close>, are histories (how many tickets had been taken or served); no
  guard looks at them.
\<close>

record spinlock_t =
  sl_start :: u32
  sl_ticket :: u32

subsection \<open>Operations without contention\<close>

definition spin_lock_init :: "spinlock_t \<Rightarrow> spinlock_t" where
  "spin_lock_init l = l\<lparr>sl_start := 0, sl_ticket := 0\<rparr>"

definition spin_trylock :: "spinlock_t \<Rightarrow> bool \<times> spinlock_t" where
  "spin_trylock l =
     (let ticket = sl_start l
      in if sl_ticket l = ticket then (True, l\<lparr>sl_ticket := ticket + 1\<rparr>) else (False, l))"

text \<open>\<open>None\<close>: the caller spins, since nobody else runs to serve its ticket.\<close>

definition spin_lock :: "spinlock_t \<Rightarrow> spinlock_t option" where
  "spin_lock l =
     (let ticket = sl_ticket l; l' = l\<lparr>sl_ticket := ticket + 1\<rparr>
      in if sl_start l' = ticket then Some l' else None)"

definition spin_unlock :: "spinlock_t \<Rightarrow> spinlock_t" where
  "spin_unlock l = l\<lparr>sl_start := sl_start l + 1\<rparr>"

definition lock_free :: "spinlock_t \<Rightarrow> bool" where
  "lock_free l \<longleftrightarrow> sl_start l = sl_ticket l"

lemma spin_lock_unlock:
  assumes "lock_free l"
  shows "\<exists>l'. spin_lock l = Some l' \<and> \<not> lock_free l' \<and> \<not> fst (spin_trylock l') \<and> lock_free (spin_unlock l')"
  using assms by (simp add: spin_lock_def spin_unlock_def spin_trylock_def lock_free_def)

lemma lock_free_init [simp]: "lock_free (spin_lock_init l)"
  by (simp add: lock_free_def spin_lock_init_def)

subsection \<open>Interleaved processes\<close>

datatype lock_pc =
    L_out
  | L_try u32 nat      \<comment> \<open>in \<open>spin_trylock\<close>, after the load of \<open>start\<close>\<close>
  | L_wait u32 nat     \<comment> \<open>in \<open>spin_lock\<close>, holding a ticket\<close>
  | L_in nat           \<comment> \<open>in the critical section\<close>
  | L_unlock u32 nat   \<comment> \<open>in \<open>spin_unlock\<close>, after the load of \<open>start\<close>\<close>

record lock_state =
  ls_lock :: spinlock_t
  ls_pc :: "nat \<Rightarrow> lock_pc"
  ls_served :: nat
  ls_taken :: nat

definition lock_init :: "spinlock_t \<Rightarrow> lock_state" where
  "lock_init l = \<lparr>ls_lock = spin_lock_init l, ls_pc = (\<lambda>_. L_out), ls_served = 0, ls_taken = 0\<rparr>"

definition put_pc :: "nat \<Rightarrow> lock_pc \<Rightarrow> lock_state \<Rightarrow> lock_state" where
  "put_pc p x s = s\<lparr>ls_pc := (ls_pc s)(p := x)\<rparr>"

text \<open>\<open>atomic_fetch_add\<close> on \<open>ticket\<close>, and a successful compare-and-exchange that stores \<open>t + 1\<close>.\<close>

definition take_ticket :: "u32 \<Rightarrow> lock_state \<Rightarrow> lock_state" where
  "take_ticket t s = s\<lparr>ls_lock := (ls_lock s)\<lparr>sl_ticket := t + 1\<rparr>, ls_taken := ls_taken s + 1\<rparr>"

inductive lock_step :: "nat \<Rightarrow> lock_state \<Rightarrow> lock_state \<Rightarrow> bool" for n where
  fetch_add: "p < n \<Longrightarrow> ls_pc s p = L_out \<Longrightarrow>
    lock_step n s (put_pc p (L_wait (sl_ticket (ls_lock s)) (ls_taken s))
      (take_ticket (sl_ticket (ls_lock s)) s))"
| enter: "p < n \<Longrightarrow> ls_pc s p = L_wait t g \<Longrightarrow> sl_start (ls_lock s) = t \<Longrightarrow> lock_step n s (put_pc p (L_in g) s)"
| spin: "p < n \<Longrightarrow> ls_pc s p = L_wait t g \<Longrightarrow> sl_start (ls_lock s) \<noteq> t \<Longrightarrow> lock_step n s s"
| try_load: "p < n \<Longrightarrow> ls_pc s p = L_out \<Longrightarrow>
    lock_step n s (put_pc p (L_try (sl_start (ls_lock s)) (ls_served s)) s)"
| try_success: "p < n \<Longrightarrow> ls_pc s p = L_try t g \<Longrightarrow> sl_ticket (ls_lock s) = t \<Longrightarrow>
    lock_step n s (put_pc p (L_in (ls_taken s)) (take_ticket t s))"
| try_failure: "p < n \<Longrightarrow> ls_pc s p = L_try t g \<Longrightarrow> sl_ticket (ls_lock s) \<noteq> t \<Longrightarrow>
    lock_step n s (put_pc p L_out s)"
| unlock_load: "p < n \<Longrightarrow> ls_pc s p = L_in g \<Longrightarrow>
    lock_step n s (put_pc p (L_unlock (sl_start (ls_lock s)) g) s)"
| unlock_store: "p < n \<Longrightarrow> ls_pc s p = L_unlock v g \<Longrightarrow>
    lock_step n s (put_pc p L_out (s\<lparr>ls_lock := (ls_lock s)\<lparr>sl_start := v + 1\<rparr>, ls_served := ls_served s + 1\<rparr>))"

text \<open>The ticket a process holds, if any, and whether it is inside.\<close>

fun pc_ticket :: "lock_pc \<Rightarrow> nat option" where
  "pc_ticket (L_wait t g) = Some g"
| "pc_ticket (L_in g) = Some g"
| "pc_ticket (L_unlock v g) = Some g"
| "pc_ticket _ = None"

fun pc_inside :: "lock_pc \<Rightarrow> bool" where
  "pc_inside (L_in g) = True"
| "pc_inside (L_unlock v g) = True"
| "pc_inside _ = False"

text \<open>The only assumption: no process stays between the load and the compare-and-exchange of
  \<open>spin_trylock\<close> while \<open>2 ^ 32\<close> tickets are taken.\<close>

definition try_prompt :: "nat \<Rightarrow> lock_state \<Rightarrow> bool" where
  "try_prompt n s \<longleftrightarrow> (\<forall>p < n. \<forall>t g. ls_pc s p = L_try t g \<longrightarrow> ls_taken s < g + 2 ^ 32)"

definition prompt_step :: "nat \<Rightarrow> lock_state \<Rightarrow> lock_state \<Rightarrow> bool" where
  "prompt_step n s s' \<longleftrightarrow> try_prompt n s \<and> lock_step n s s'"

subsection \<open>The invariant\<close>

fun pc_ok :: "nat \<Rightarrow> nat \<Rightarrow> lock_pc \<Rightarrow> bool" where
  "pc_ok served taken L_out \<longleftrightarrow> True"
| "pc_ok served taken (L_try t g) \<longleftrightarrow> t = word_of_nat g \<and> g \<le> served"
| "pc_ok served taken (L_wait t g) \<longleftrightarrow> t = word_of_nat g \<and> served \<le> g \<and> g < taken"
| "pc_ok served taken (L_in g) \<longleftrightarrow> g = served \<and> served < taken"
| "pc_ok served taken (L_unlock v g) \<longleftrightarrow> v = word_of_nat g \<and> g = served \<and> served < taken"

text \<open>\<open>holds f n S\<close>: the processes below \<open>n\<close> hold exactly the tickets \<open>S\<close>, each by one process.\<close>

definition holds :: "(nat \<Rightarrow> nat option) \<Rightarrow> nat \<Rightarrow> nat set \<Rightarrow> bool" where
  "holds f n S \<longleftrightarrow> (\<forall>p < n. \<forall>q < n. \<forall>g. f p = Some g \<longrightarrow> f q = Some g \<longrightarrow> p = q) \<and>
     {g. \<exists>p < n. f p = Some g} = S"

definition lock_inv :: "nat \<Rightarrow> lock_state \<Rightarrow> bool" where
  "lock_inv n s \<longleftrightarrow> ls_served s \<le> ls_taken s \<and>
     sl_start (ls_lock s) = word_of_nat (ls_served s) \<and> sl_ticket (ls_lock s) = word_of_nat (ls_taken s) \<and>
     (\<forall>p < n. pc_ok (ls_served s) (ls_taken s) (ls_pc s p)) \<and>
     holds (pc_ticket \<circ> ls_pc s) n {ls_served s..<ls_taken s}"

lemma holds_same: "holds f n S \<Longrightarrow> x = f p \<Longrightarrow> holds (f(p := x)) n S"
  by (simp add: holds_def)

lemma holds_inj: "holds f n S \<Longrightarrow> p < n \<Longrightarrow> q < n \<Longrightarrow> f p = Some g \<Longrightarrow> f q = Some g \<Longrightarrow> p = q"
  unfolding holds_def by blast

lemma holds_iff: "holds f n S \<Longrightarrow> g \<in> S \<longleftrightarrow> (\<exists>p < n. f p = Some g)"
  unfolding holds_def by blast

lemma holdsI:
  assumes "\<And>p q g. p < n \<Longrightarrow> q < n \<Longrightarrow> f p = Some g \<Longrightarrow> f q = Some g \<Longrightarrow> p = q"
    and "\<And>g. g \<in> S \<longleftrightarrow> (\<exists>p < n. f p = Some g)"
  shows "holds f n S"
  unfolding holds_def using assms by blast

lemma holds_take:
  assumes h: "holds f n S" and p: "p < n" "f p = None" and g: "g \<notin> S"
  shows "holds (f(p := Some g)) n (insert g S)"
proof (rule holdsI)
  fix a b x
  assume ab: "a < n" "b < n" "(f(p := Some g)) a = Some x" "(f(p := Some g)) b = Some x"
  have "f c \<noteq> Some g" if "c < n" for c using g holds_iff [OF h] that by blast
  with ab holds_inj [OF h ab(1,2)] show "a = b" by (auto split: if_splits)
next
  fix x
  show "x \<in> insert g S \<longleftrightarrow> (\<exists>q < n. (f(p := Some g)) q = Some x)"
    unfolding insert_iff holds_iff [OF h] using p by (metis fun_upd_apply option.distinct(1) option.inject)
qed

lemma holds_release:
  assumes h: "holds f n S" and p: "p < n" "f p = Some g"
  shows "holds (f(p := None)) n (S - {g})"
proof (rule holdsI)
  fix a b x
  assume "a < n" "b < n" "(f(p := None)) a = Some x" "(f(p := None)) b = Some x"
  with holds_inj [OF h] show "a = b" by (auto split: if_splits)
next
  fix x
  show "x \<in> S - {g} \<longleftrightarrow> (\<exists>q < n. (f(p := None)) q = Some x)"
    unfolding Diff_iff singleton_iff holds_iff [OF h] using p holds_inj [OF h p(1)]
    by (metis fun_upd_apply option.distinct(1) option.inject)
qed

lemma card_holds:
  assumes "holds f n S"
  shows "card S \<le> n"
proof -
  have "S \<subseteq> (\<lambda>p. the (f p)) ` {..<n}"
  proof
    fix g
    assume "g \<in> S"
    with holds_iff [OF assms, of g] obtain p where "p < n" "f p = Some g" by blast
    then show "g \<in> (\<lambda>p. the (f p)) ` {..<n}" by (intro image_eqI [of _ _ p]) auto
  qed
  then have "card S \<le> card ((\<lambda>p. the (f p)) ` {..<n})" by (rule card_mono [rotated]) simp
  also have "\<dots> \<le> n" using card_image_le [of "{..<n}" "\<lambda>p. the (f p)"] by simp
  finally show ?thesis .
qed

text \<open>At most one ticket per process is outstanding, so two outstanding numbers differ as words.\<close>

lemma outstanding: "lock_inv n s \<Longrightarrow> ls_taken s \<le> ls_served s + n"
  using card_holds [of "pc_ticket \<circ> ls_pc s" n] by (fastforce simp: lock_inv_def)

lemma pc_ok_take: "pc_ok served taken x \<Longrightarrow> pc_ok served (Suc taken) x"
  by (cases x) auto

lemma pc_ok_serve: "pc_ok served taken x \<Longrightarrow> pc_ticket x \<noteq> Some served \<Longrightarrow> pc_ok (Suc served) taken x"
  by (cases x) auto

lemma put_pc_sel [simp]:
  "ls_lock (put_pc p x s) = ls_lock s" "ls_served (put_pc p x s) = ls_served s"
  "ls_taken (put_pc p x s) = ls_taken s" "ls_pc (put_pc p x s) q = (if q = p then x else ls_pc s q)"
  "pc_ticket \<circ> ls_pc (put_pc p x s) = (pc_ticket \<circ> ls_pc s)(p := pc_ticket x)"
  by (auto simp: put_pc_def fun_eq_iff)

lemma take_ticket_sel [simp]:
  "sl_start (ls_lock (take_ticket t s)) = sl_start (ls_lock s)"
  "sl_ticket (ls_lock (take_ticket t s)) = t + 1" "ls_pc (take_ticket t s) = ls_pc s"
  "ls_served (take_ticket t s) = ls_served s" "ls_taken (take_ticket t s) = Suc (ls_taken s)"
  by (simp_all add: take_ticket_def)

lemma word_of_nat_near:
  assumes "word_of_nat a = (word_of_nat b :: u32)" "a \<le> b" "b < a + 2 ^ 32"
  shows "a = b"
proof -
  have "unat (word_of_nat b :: u32) = unat (word_of_nat a :: u32)" using assms(1) by simp
  then have "b mod 2 ^ 32 = a mod 2 ^ 32" by (simp only: unat_of_nat len_bit0 len_num1) simp
  then have "2 ^ 32 dvd b - a" using assms(2) mod_eq_dvd_iff_nat by blast
  moreover have "b - a < 2 ^ 32" using assms(2,3) by linarith
  ultimately have "b - a = 0" using nat_dvd_not_less by blast
  with assms(2) show ?thesis by simp
qed

text \<open>A step that keeps the ticket of its process and the counters.\<close>

lemma lock_inv_put_pc:
  assumes "lock_inv n s" "pc_ticket x = pc_ticket (ls_pc s p)" "pc_ok (ls_served s) (ls_taken s) x"
  shows "lock_inv n (put_pc p x s)"
  using assms holds_same [of "pc_ticket \<circ> ls_pc s" n _ "pc_ticket x" p] by (simp add: lock_inv_def)

text \<open>A step that takes the next ticket.\<close>

lemma lock_inv_take:
  assumes inv: "lock_inv n s" and p: "p < n" "pc_ticket (ls_pc s p) = None"
    and t: "t = sl_ticket (ls_lock s)"
    and x: "pc_ticket x = Some (ls_taken s)" "pc_ok (ls_served s) (Suc (ls_taken s)) x"
  shows "lock_inv n (put_pc p x (take_ticket t s))"
proof -
  have "{ls_served s..<Suc (ls_taken s)} = insert (ls_taken s) {ls_served s..<ls_taken s}"
    using inv by (auto simp: lock_inv_def)
  moreover have "holds ((pc_ticket \<circ> ls_pc s)(p := Some (ls_taken s))) n
      (insert (ls_taken s) {ls_served s..<ls_taken s})"
    using inv p by (intro holds_take) (auto simp: lock_inv_def)
  ultimately show ?thesis
    using inv x t by (auto simp: lock_inv_def pc_ok_take add.commute)
qed

lemma lock_step_inv:
  assumes "prompt_step n s s'" and inv: "lock_inv n s" and n: "n < 2 ^ 32"
  shows "lock_inv n s'"
proof -
  from assms(1) have prompt: "try_prompt n s" and "lock_step n s s'" by (simp_all add: prompt_step_def)
  note near = outstanding [OF inv]
  from \<open>lock_step n s s'\<close> show ?thesis
  proof cases
    case (fetch_add p)
    from inv have "sl_ticket (ls_lock s) = word_of_nat (ls_taken s)" "ls_served s \<le> ls_taken s"
      by (simp_all add: lock_inv_def)
    with fetch_add inv show ?thesis by (auto intro!: lock_inv_take)
  next
    case (enter p t g)
    with inv have "word_of_nat (ls_served s) = (word_of_nat g :: u32)" "ls_served s \<le> g" "g < ls_taken s"
      by (auto simp: lock_inv_def)
    with word_of_nat_near [of "ls_served s" g] near n have "g = ls_served s" by simp
    with enter inv \<open>g < ls_taken s\<close> show ?thesis by (auto intro!: lock_inv_put_pc)
  next
    case (try_load p)
    with inv show ?thesis by (auto intro!: lock_inv_put_pc simp: lock_inv_def [of n s])
  next
    case (try_success p t g)
    with inv have "word_of_nat g = (word_of_nat (ls_taken s) :: u32)" "g \<le> ls_served s"
      "ls_served s \<le> ls_taken s" by (auto simp: lock_inv_def)
    moreover have "ls_taken s < g + 2 ^ 32" using prompt try_success by (auto simp: try_prompt_def)
    ultimately have "g = ls_taken s" using word_of_nat_near [of g "ls_taken s"] by simp
    then have "ls_served s = ls_taken s" using \<open>g \<le> ls_served s\<close> \<open>ls_served s \<le> ls_taken s\<close> by simp
    with try_success inv show ?thesis by (auto intro!: lock_inv_take)
  next
    case (try_failure p t g)
    with inv show ?thesis by (auto intro!: lock_inv_put_pc)
  next
    case (unlock_load p g)
    with inv have "g = ls_served s" "ls_served s < ls_taken s"
      "sl_start (ls_lock s) = word_of_nat (ls_served s)" by (auto simp: lock_inv_def)
    with unlock_load inv show ?thesis by (auto intro!: lock_inv_put_pc)
  next
    case (unlock_store p v g)
    with inv have g: "v = word_of_nat g" "g = ls_served s" "ls_served s < ls_taken s"
      by (auto simp: lock_inv_def)
    have ticket: "pc_ticket (ls_pc s p) = Some (ls_served s)" using unlock_store g by simp
    have h: "holds (pc_ticket \<circ> ls_pc s) n {ls_served s..<ls_taken s}" using inv by (simp add: lock_inv_def)
    have other: "pc_ok (Suc (ls_served s)) (ls_taken s) (ls_pc s q)" if "q < n" "q \<noteq> p" for q
    proof (rule pc_ok_serve)
      show "pc_ok (ls_served s) (ls_taken s) (ls_pc s q)" using inv that by (simp add: lock_inv_def)
      show "pc_ticket (ls_pc s q) \<noteq> Some (ls_served s)"
        using holds_inj [OF h that(1) unlock_store(2)] that(2) ticket by auto
    qed
    have "holds ((pc_ticket \<circ> ls_pc s)(p := None)) n ({ls_served s..<ls_taken s} - {ls_served s})"
      using h unlock_store(2) ticket by (intro holds_release) auto
    moreover have "{ls_served s..<ls_taken s} - {ls_served s} = {Suc (ls_served s)..<ls_taken s}" by auto
    ultimately show ?thesis
      using unlock_store inv g other by (auto simp: lock_inv_def add.commute)
  qed (use inv in simp)
qed

lemma lock_inv_init: "lock_inv n (lock_init l)"
  by (simp add: lock_inv_def lock_init_def spin_lock_init_def holds_def comp_def)

lemma lock_reachable_inv:
  assumes "(prompt_step n)\<^sup>*\<^sup>* (lock_init l) s" "n < 2 ^ 32"
  shows "lock_inv n s"
  using assms(1) by (induction rule: rtranclp_induct) (auto intro: lock_step_inv lock_inv_init assms(2))

subsection \<open>The interface\<close>

text \<open>What a client that runs alone relies on, such as the shared-memory allocator at start-up.\<close>

locale exclusive_lock =
  fixes acquire :: "'l \<Rightarrow> 'l option" and release :: "'l \<Rightarrow> 'l" and unlocked :: "'l \<Rightarrow> bool"
  assumes acquire_release: "unlocked l \<Longrightarrow> \<exists>l'. acquire l = Some l' \<and> unlocked (release l')"
begin

text \<open>A critical section that leaves the lock alone always completes and leaves it free.\<close>

lemma critical_section:
  assumes "unlocked l"
  shows "\<exists>l'. map_option release (acquire l) = Some l' \<and> unlocked l'"
  using acquire_release [OF assms] by auto

end

interpretation sl: exclusive_lock spin_lock spin_unlock lock_free
  by unfold_locales (use spin_lock_unlock in blast)

subsection \<open>Why promptness is assumed\<close>

lemma lock_round:
  assumes "p < n" "ls_pc s p = L_out" "lock_free (ls_lock s)"
  shows "\<exists>s'. (lock_step n)\<^sup>*\<^sup>* s s' \<and> ls_pc s' = ls_pc s \<and> lock_free (ls_lock s') \<and>
    sl_start (ls_lock s') = sl_start (ls_lock s) + 1"
proof -
  let ?t = "sl_ticket (ls_lock s)" and ?g = "ls_taken s"
  let ?s1 = "put_pc p (L_wait ?t ?g) (take_ticket ?t s)"
  let ?s2 = "put_pc p (L_in ?g) ?s1"
  let ?s3 = "put_pc p (L_unlock (sl_start (ls_lock ?s2)) ?g) ?s2"
  let ?s4 = "put_pc p L_out (?s3\<lparr>ls_lock := (ls_lock ?s3)\<lparr>sl_start := sl_start (ls_lock ?s2) + 1\<rparr>,
    ls_served := ls_served ?s3 + 1\<rparr>)"
  have "lock_step n s ?s1" using assms by (intro lock_step.fetch_add)
  moreover have "lock_step n ?s1 ?s2"
    using assms by (intro lock_step.enter [of p n ?s1 ?t ?g]) (simp_all add: lock_free_def)
  moreover have "lock_step n ?s2 ?s3" using assms by (intro lock_step.unlock_load) simp_all
  moreover have "lock_step n ?s3 ?s4"
    using assms by (intro lock_step.unlock_store [of p n ?s3 _ ?g]) simp_all
  ultimately have "(lock_step n)\<^sup>*\<^sup>* s ?s4" by (meson converse_rtranclp_into_rtranclp rtranclp.rtrancl_refl)
  moreover have "ls_pc ?s4 = ls_pc s" using assms(2) by (auto simp: put_pc_def take_ticket_def fun_eq_iff)
  moreover have "lock_free (ls_lock ?s4)" "sl_start (ls_lock ?s4) = sl_start (ls_lock s) + 1"
    using assms(3) by (simp_all add: lock_free_def take_ticket_def)
  ultimately show ?thesis by blast
qed

lemma lock_rounds:
  assumes "p < n" "ls_pc s p = L_out" "lock_free (ls_lock s)"
  shows "\<exists>s'. (lock_step n)\<^sup>*\<^sup>* s s' \<and> ls_pc s' = ls_pc s \<and> lock_free (ls_lock s') \<and>
    sl_start (ls_lock s') = sl_start (ls_lock s) + word_of_nat k"
proof (induction k)
  case 0
  show ?case using assms(3) by (intro exI [of _ s]) simp
next
  case (Suc k)
  then obtain s1 where s1: "(lock_step n)\<^sup>*\<^sup>* s s1" "ls_pc s1 = ls_pc s" "lock_free (ls_lock s1)"
    "sl_start (ls_lock s1) = sl_start (ls_lock s) + word_of_nat k" by blast
  from lock_round [OF assms(1) _ s1(3)] s1(2) assms(2) obtain s2 where
    "(lock_step n)\<^sup>*\<^sup>* s1 s2" "ls_pc s2 = ls_pc s" "lock_free (ls_lock s2)"
    "sl_start (ls_lock s2) = sl_start (ls_lock s1) + 1" by auto
  with s1 show ?case by (intro exI [of _ s2]) (auto simp: add.assoc add.commute)
qed

lemma lock_wrap_run:
  "\<exists>s. (lock_step 2)\<^sup>*\<^sup>* (lock_init l) s \<and> pc_inside (ls_pc s 0) \<and> pc_inside (ls_pc s 1)"
proof -
  let ?s0 = "lock_init l"
  let ?s1 = "put_pc 0 (L_try (sl_start (ls_lock ?s0)) (ls_served ?s0)) ?s0"
  have start: "sl_start (ls_lock ?s0) = 0" "lock_free (ls_lock ?s0)"
    by (simp_all add: lock_init_def spin_lock_init_def lock_free_def)
  have s1: "lock_step 2 ?s0 ?s1" by (rule lock_step.try_load) (simp_all add: lock_init_def)
  have "ls_pc ?s1 1 = L_out" by (simp add: lock_init_def)
  from lock_rounds [of 1 2 ?s1 "2 ^ 32 - 1"] this start(2) obtain s2 where
    s2: "(lock_step 2)\<^sup>*\<^sup>* ?s1 s2" "ls_pc s2 = ls_pc ?s1" "lock_free (ls_lock s2)"
      "sl_start (ls_lock s2) = -1" using start(1) by auto
  let ?s3 = "put_pc 1 (L_wait (-1) (ls_taken s2)) (take_ticket (-1) s2)"
  have t2: "sl_ticket (ls_lock s2) = -1" using s2(3,4) by (simp add: lock_free_def)
  have s3: "lock_step 2 s2 ?s3"
    using lock_step.fetch_add [of 1 2 s2] s2(2) \<open>ls_pc ?s1 1 = L_out\<close> by (simp add: t2)
  let ?s4 = "put_pc 1 (L_in (ls_taken s2)) ?s3"
  have s4: "lock_step 2 ?s3 ?s4"
    by (rule lock_step.enter [of 1 2 ?s3 "-1"]) (simp_all add: s2(4))
  let ?s5 = "put_pc 0 (L_in (ls_taken ?s4)) (take_ticket 0 ?s4)"
  have "ls_pc s2 0 = ls_pc ?s1 0" by (rule fun_cong [OF s2(2)])
  also have "\<dots> = L_try 0 0" by (simp add: lock_init_def spin_lock_init_def)
  finally have pc2: "ls_pc s2 0 = L_try 0 0" .
  have s5: "lock_step 2 ?s4 ?s5"
    by (rule lock_step.try_success [of 0 2 ?s4 0 0]) (simp_all add: pc2)
  from s1 s2(1) s3 s4 s5 have "(lock_step 2)\<^sup>*\<^sup>* ?s0 ?s5"
    by (meson converse_rtranclp_into_rtranclp rtranclp.rtrancl_into_rtrancl)
  moreover have "pc_inside (ls_pc ?s5 0)" "pc_inside (ls_pc ?s5 1)" by simp_all
  ultimately show ?thesis by blast
qed

subsection \<open>Properties\<close>

text \<open>C25. Mutual exclusion, as long as no process sleeps between the load and the compare-and-exchange of \<open>spin_trylock\<close> while
  \<open>2 ^ 32\<close> tickets are taken (\<open>prompt_step\<close>; without this it fails, as the counters wrap, which is shown below): fewer than \<open>2 ^ 32\<close> processes
  use the lock through \<open>spin_lock\<close>, \<open>spin_trylock\<close> and \<open>spin_unlock\<close>, and in all other interleavings of their single accesses, with 32-bit
  counters that wrap, never two of them are in the critical section.\<close>

theorem spinlock_mutual_exclusion:
  assumes "(prompt_step n)\<^sup>*\<^sup>* (lock_init l) s" and "n < 2 ^ 32"
    and "p < n" and "q < n" and "pc_inside (ls_pc s p)" and "pc_inside (ls_pc s q)"
  shows "p = q"
proof -
  from lock_reachable_inv [OF assms(1,2)] have inv: "lock_inv n s" .
  have "pc_ticket (ls_pc s r) = Some (ls_served s)" if "r < n" "pc_inside (ls_pc s r)" for r
    using inv that by (cases "ls_pc s r") (auto simp: lock_inv_def)
  with inv assms(3-) show ?thesis by (auto simp: lock_inv_def intro: holds_inj)
qed

lemma lock_run_example:
  "\<exists>s. (prompt_step 3)\<^sup>*\<^sup>* (lock_init \<lparr>sl_start = 5, sl_ticket = 9\<rparr>) s \<and> pc_inside (ls_pc s 1)"
proof -
  let ?s0 = "lock_init \<lparr>sl_start = 5, sl_ticket = 9\<rparr>"
  let ?s1 = "put_pc 1 (L_try (sl_start (ls_lock ?s0)) (ls_served ?s0)) ?s0"
  let ?s2 = "put_pc 1 (L_in (ls_taken ?s1)) (take_ticket (sl_start (ls_lock ?s0)) ?s1)"
  have "lock_step 3 ?s0 ?s1" by (rule lock_step.try_load) (simp_all add: lock_init_def)
  then have "prompt_step 3 ?s0 ?s1" by (simp add: prompt_step_def try_prompt_def lock_init_def)
  moreover have "lock_step 3 ?s1 ?s2"
    by (rule lock_step.try_success [of 1 3 ?s1]) (simp_all add: lock_init_def spin_lock_init_def)
  then have "prompt_step 3 ?s1 ?s2" by (simp add: prompt_step_def try_prompt_def lock_init_def)
  ultimately have "(prompt_step 3)\<^sup>*\<^sup>* ?s0 ?s2" by (meson converse_rtranclp_into_rtranclp rtranclp.rtrancl_refl)
  moreover have "pc_inside (ls_pc ?s2 1)" by simp
  ultimately show ?thesis by blast
qed

theorem spinlock_mutual_exclusion_witness:
  "\<exists>s. (prompt_step 3)\<^sup>*\<^sup>* (lock_init \<lparr>sl_start = 5, sl_ticket = 9\<rparr>) s \<and> pc_inside (ls_pc s 1) \<and>
    \<not> pc_inside (ls_pc s 0) \<and> \<not> pc_inside (ls_pc s 2)"
proof -
  obtain s where s: "(prompt_step 3)\<^sup>*\<^sup>* (lock_init \<lparr>sl_start = 5, sl_ticket = 9\<rparr>) s" "pc_inside (ls_pc s 1)"
    using lock_run_example by blast
  have "\<not> pc_inside (ls_pc s 0)" using spinlock_mutual_exclusion [OF s(1), of 0 1] s(2) by auto
  moreover have "\<not> pc_inside (ls_pc s 2)" using spinlock_mutual_exclusion [OF s(1), of 2 1] s(2) by auto
  ultimately show ?thesis using s by blast
qed

text \<open>No deadlock and no overtaking: under the same conditions, whenever a process holds a ticket,
  some process is in the critical section or the check of the process with the oldest ticket
  succeeds; and a waiting process whose check succeeds is the one with the oldest ticket.\<close>

theorem spinlock_fifo:
  assumes "(prompt_step n)\<^sup>*\<^sup>* (lock_init l) s" and "n < 2 ^ 32" and "p < n" and "ls_pc s p = L_wait t g"
  shows "(\<exists>q < n. pc_inside (ls_pc s q) \<or> (\<exists>g'. ls_pc s q = L_wait (sl_start (ls_lock s)) g')) \<and>
    (sl_start (ls_lock s) = t \<longrightarrow> (\<forall>q < n. \<forall>g'. pc_ticket (ls_pc s q) = Some g' \<longrightarrow> g \<le> g'))"
proof -
  from lock_reachable_inv [OF assms(1,2)] have inv: "lock_inv n s" .
  then have h: "holds (pc_ticket \<circ> ls_pc s) n {ls_served s..<ls_taken s}" by (simp add: lock_inv_def)
  from inv assms(3,4) have g: "t = word_of_nat g" "ls_served s \<le> g" "g < ls_taken s"
    by (force simp: lock_inv_def)+
  then have "ls_served s \<in> {ls_served s..<ls_taken s}" by simp
  with holds_iff [OF h] obtain q where q: "q < n" "pc_ticket (ls_pc s q) = Some (ls_served s)" by auto
  have "pc_inside (ls_pc s q) \<or> (\<exists>g'. ls_pc s q = L_wait (sl_start (ls_lock s)) g')"
    using inv q by (cases "ls_pc s q") (force simp: lock_inv_def)+
  moreover have "g \<le> g'" if "sl_start (ls_lock s) = t" "r < n" "pc_ticket (ls_pc s r) = Some g'" for r g'
  proof -
    have "word_of_nat (ls_served s) = (word_of_nat g :: u32)" using inv that g by (simp add: lock_inv_def)
    with word_of_nat_near [of "ls_served s" g] outstanding [OF inv] g assms(2) have "g = ls_served s" by simp
    moreover have "g' \<in> {ls_served s..<ls_taken s}" using holds_iff [OF h] that by auto
    ultimately show ?thesis by simp
  qed
  ultimately show ?thesis using q(1) by blast
qed

theorem spinlock_fifo_witness:
  "\<exists>s t g. (prompt_step 1)\<^sup>*\<^sup>* (lock_init \<lparr>sl_start = 5, sl_ticket = 9\<rparr>) s \<and> ls_pc s 0 = L_wait t g \<and>
    (\<exists>q < 1. pc_inside (ls_pc s q) \<or> (\<exists>g'. ls_pc s q = L_wait (sl_start (ls_lock s)) g'))"
proof -
  let ?s0 = "lock_init \<lparr>sl_start = 5, sl_ticket = 9\<rparr>"
  let ?s1 = "put_pc 0 (L_wait (sl_ticket (ls_lock ?s0)) (ls_taken ?s0)) (take_ticket (sl_ticket (ls_lock ?s0)) ?s0)"
  have "lock_step 1 ?s0 ?s1" by (rule lock_step.fetch_add) (simp_all add: lock_init_def)
  then have "prompt_step 1 ?s0 ?s1" by (simp add: prompt_step_def try_prompt_def lock_init_def)
  then have run: "(prompt_step 1)\<^sup>*\<^sup>* ?s0 ?s1" by (rule r_into_rtranclp)
  moreover have pc: "ls_pc ?s1 0 = L_wait (sl_ticket (ls_lock ?s0)) (ls_taken ?s0)" by simp
  ultimately show ?thesis using spinlock_fifo [OF run _ _ pc] by (intro exI conjI) auto
qed

text \<open>The condition on \<open>spin_trylock\<close> cannot be dropped: two processes reach a state in which both are in
  the critical section, because a process that loaded \<open>start\<close> compares it with a \<open>ticket\<close> that has
  wrapped around in the meantime.\<close>

theorem spin_trylock_wraps:
  "\<exists>s. (lock_step 2)\<^sup>*\<^sup>* (lock_init l) s \<and> pc_inside (ls_pc s 0) \<and> pc_inside (ls_pc s 1)"
  by (rule lock_wrap_run)

end
