(* ===== verification/Shm.thy ===== *)
theory Shm
  imports Spinlock
begin

text \<open>
  \<open>util/shm.c\<close>: one page of memory shared by all processes and a bump allocator in it that never
  reclaims. The allocator's own header is at the start of the page. Sizes are \<open>size_t\<close>, so the
  arithmetic of \<open>ROUND_UP\<close> and of the bounds check is on 64-bit words. The lock is taken as in the
  source; \<open>None\<close> means the caller spins on a lock that somebody else holds.
\<close>

type_synonym u64 = "64 word"

definition MEM_ALIGN :: u64 where "MEM_ALIGN = 8"

definition ROUND_UP :: "u64 \<Rightarrow> u64 \<Rightarrow> u64" where
  "ROUND_UP x y = ((x + (y - 1)) div y) * y"

definition sizeof_spinlock_t :: u64 where "sizeof_spinlock_t = 72"

definition sizeof_shm :: u64 where "sizeof_shm = 96"

record shm =
  sh_addr :: ptr
  sh_size :: u64
  sh_offset :: u64
  sh_lock :: spinlock_t

subsection \<open>Operations\<close>

definition shm_alloc :: "u64 \<Rightarrow> shm \<Rightarrow> (ptr \<times> shm) option" where
  "shm_alloc size_bytes0 s =
     (let size_bytes = ROUND_UP size_bytes0 MEM_ALIGN in
      case spin_lock (sh_lock s) of
        None \<Rightarrow> None
      | Some l \<Rightarrow>
          if sh_offset s + size_bytes > sh_size s then Some (0, s\<lparr>sh_lock := spin_unlock l\<rparr>)
          else let addr = sh_addr s + unat (sh_offset s)
               in Some (addr, s\<lparr>sh_offset := sh_offset s + size_bytes, sh_lock := spin_unlock l\<rparr>))"

text \<open>Whole pages: \<open>mmap\<close> returns \<open>None\<close> for \<open>MAP_FAILED\<close>; the number of bytes is computed as an \<open>unsigned int\<close>. The second function gives what is
  unmapped.\<close>

definition shm_pages_alloc :: "(u32 \<Rightarrow> ptr option) \<Rightarrow> u32 \<Rightarrow> u32 \<Rightarrow> ptr" where
  "shm_pages_alloc mmap page_size pg_count = (case mmap (pg_count * page_size) of None \<Rightarrow> 0 | Some addr \<Rightarrow> addr)"

definition shm_pages_free :: "u32 \<Rightarrow> ptr \<Rightarrow> u32 \<Rightarrow> ptr \<times> u32" where
  "shm_pages_free page_size addr pg_count = (addr, pg_count * page_size)"

text \<open>\<open>shm_init\<close> on the address \<open>mmap\<close> returned (\<open>None\<close> for a failure, after which the process
  exits) and the page size.\<close>

definition shm_init :: "ptr option \<Rightarrow> u64 \<Rightarrow> shm cres" where
  "shm_init page page_size =
     (case page of
        None \<Rightarrow> Exit 0
      | Some addr \<Rightarrow> Ret \<lparr>sh_addr = addr, sh_size = page_size, sh_offset = ROUND_UP sizeof_shm MEM_ALIGN,
          sh_lock = spin_lock_init \<lparr>sl_start = 0, sl_ticket = 0\<rparr>\<rparr>)"

fun shm_allocs :: "u64 list \<Rightarrow> shm \<Rightarrow> (ptr list \<times> shm) option" where
  "shm_allocs [] s = Some ([], s)"
| "shm_allocs (n # ns) s =
     (case shm_alloc n s of
        None \<Rightarrow> None
      | Some (p, s1) \<Rightarrow> map_option (apfst ((#) p)) (shm_allocs ns s1))"

subsection \<open>Rounding\<close>

definition round8 :: "nat \<Rightarrow> nat" where
  "round8 n = (n + 7) div 8 * 8"

lemma round8_ge: "n \<le> round8 n" and round8_less: "round8 n < n + 8" and round8_dvd: "8 dvd round8 n"
  unfolding round8_def by presburger+

lemma unat_add_64: "unat x + unat y < 2 ^ 64 \<Longrightarrow> unat (x + y :: u64) = unat x + unat y"
  using unat_add_lem [of x y] by simp

lemma unat_ROUND_UP:
  assumes "unat n \<le> 2 ^ 63"
  shows "unat (ROUND_UP n MEM_ALIGN) = round8 (unat n)"
proof -
  have "unat (n + 7) = unat n + 7" using unat_add_64 [of n 7] assms by simp
  then have d: "unat ((n + 7) div 8) = (unat n + 7) div 8" by (simp add: unat_div)
  have "(unat n + 7) div 8 * 8 \<le> unat n + 7" by simp
  then have "unat ((n + 7) div 8) * unat (8 :: u64) < 2 ^ LENGTH(64)" using assms d by simp
  with unat_mult_lem [of "(n + 7) div 8" 8] d show ?thesis
    by (simp add: ROUND_UP_def MEM_ALIGN_def round8_def)
qed

subsection \<open>One allocation\<close>

definition shm_wf :: "shm \<Rightarrow> bool" where
  "shm_wf s \<longleftrightarrow> lock_free (sh_lock s) \<and> 0 < sh_addr s \<and> unat (sh_offset s) \<le> unat (sh_size s) \<and>
     unat (sh_size s) \<le> 2 ^ 63 - 8 \<and> 8 dvd unat (sh_offset s)"

lemma shm_alloc_spec:
  assumes wf: "shm_wf s" and n: "unat n \<le> 2 ^ 63 - 8"
  shows "\<exists>p s'. shm_alloc n s = Some (p, s') \<and> shm_wf s' \<and> sh_addr s' = sh_addr s \<and> sh_size s' = sh_size s \<and>
    (if unat (sh_offset s) + round8 (unat n) \<le> unat (sh_size s)
     then p = sh_addr s + unat (sh_offset s) \<and> unat (sh_offset s') = unat (sh_offset s) + round8 (unat n)
     else p = 0 \<and> sh_offset s' = sh_offset s)"
proof -
  from wf have "lock_free (sh_lock s)" by (simp add: shm_wf_def)
  from sl.acquire_release [OF this] obtain l where
    l: "spin_lock (sh_lock s) = Some l" "lock_free (spin_unlock l)" by blast
  have r: "unat (ROUND_UP n MEM_ALIGN) = round8 (unat n)" using unat_ROUND_UP n by simp
  moreover have "round8 (unat n) \<le> 2 ^ 63" using round8_less [of "unat n"] n by simp
  ultimately have sum: "unat (sh_offset s + ROUND_UP n MEM_ALIGN) = unat (sh_offset s) + round8 (unat n)"
    using unat_add_64 [of "sh_offset s" "ROUND_UP n MEM_ALIGN"] wf by (simp add: shm_wf_def)
  then have cmp: "sh_offset s + ROUND_UP n MEM_ALIGN > sh_size s \<longleftrightarrow>
      \<not> unat (sh_offset s) + round8 (unat n) \<le> unat (sh_size s)"
    by (simp add: word_less_nat_alt not_le)
  show ?thesis
  proof (cases "unat (sh_offset s) + round8 (unat n) \<le> unat (sh_size s)")
    case True
    have "8 dvd unat (sh_offset s) + round8 (unat n)"
      using wf round8_dvd [of "unat n"] by (auto simp: shm_wf_def)
    with True cmp l sum wf show ?thesis by (simp add: shm_alloc_def Let_def shm_wf_def)
  next
    case False
    with cmp l wf show ?thesis by (simp add: shm_alloc_def Let_def shm_wf_def)
  qed
qed

subsection \<open>Sequences of allocations\<close>

text \<open>The blocks that were returned, at increasing addresses from \<open>lo\<close>, each with room for the size that
  was asked for before the next one, all below \<open>hi\<close>.\<close>

fun blocks_ok :: "ptr \<Rightarrow> nat \<Rightarrow> nat \<Rightarrow> ptr list \<Rightarrow> u64 list \<Rightarrow> bool" where
  "blocks_ok base lo hi [] [] \<longleftrightarrow> lo \<le> hi"
| "blocks_ok base lo hi (p # ps) (n # ns) \<longleftrightarrow>
     (if p = 0 then blocks_ok base lo hi ps ns
      else base + lo \<le> p \<and> 8 dvd p - base \<and> blocks_ok base (p - base + unat n) hi ps ns)"
| "blocks_ok base lo hi _ _ \<longleftrightarrow> False"

lemma blocks_ok_mono: "blocks_ok base lo hi ps ns \<Longrightarrow> lo' \<le> lo \<Longrightarrow> blocks_ok base lo' hi ps ns"
  by (induction base lo hi ps ns rule: blocks_ok.induct) auto

lemma shm_allocs_spec:
  assumes "shm_wf s" "\<forall>n \<in> set ns. unat n \<le> 2 ^ 63 - 8"
  shows "\<exists>ps s'. shm_allocs ns s = Some (ps, s') \<and>
    blocks_ok (sh_addr s) (unat (sh_offset s)) (unat (sh_size s)) ps ns"
  using assms
proof (induction ns arbitrary: s)
  case Nil
  then show ?case by (simp add: shm_wf_def)
next
  case (Cons n ns)
  from shm_alloc_spec [OF Cons.prems(1), of n] Cons.prems(2) obtain p s1 where
    s1: "shm_alloc n s = Some (p, s1)" "shm_wf s1" "sh_addr s1 = sh_addr s" "sh_size s1 = sh_size s"
    and res: "if unat (sh_offset s) + round8 (unat n) \<le> unat (sh_size s)
     then p = sh_addr s + unat (sh_offset s) \<and> unat (sh_offset s1) = unat (sh_offset s) + round8 (unat n)
     else p = 0 \<and> sh_offset s1 = sh_offset s" by auto
  from Cons.IH [OF s1(2)] Cons.prems(2) s1(3,4) obtain ps s2 where
    rest: "shm_allocs ns s1 = Some (ps, s2)"
    "blocks_ok (sh_addr s) (unat (sh_offset s1)) (unat (sh_size s)) ps ns" by auto
  have "blocks_ok (sh_addr s) (unat (sh_offset s)) (unat (sh_size s)) (p # ps) (n # ns)"
  proof (cases "unat (sh_offset s) + round8 (unat n) \<le> unat (sh_size s)")
    case True
    have "blocks_ok (sh_addr s) (unat (sh_offset s) + unat n) (unat (sh_size s)) ps ns"
      using rest(2) True res round8_ge [of "unat n"] by (intro blocks_ok_mono [OF rest(2)]) simp
    with True res Cons.prems(1) show ?thesis by (simp add: shm_wf_def)
  next
    case False
    with res rest(2) show ?thesis by simp
  qed
  with s1(1) rest(1) show ?case by simp
qed

lemma shm_init_wf:
  assumes "0 < addr" "96 \<le> unat page_size" "unat page_size \<le> 2 ^ 63 - 8"
  shows "\<exists>s. shm_init (Some addr) page_size = Ret s \<and> shm_wf s \<and> sh_addr s = addr \<and> sh_size s = page_size \<and>
    sh_offset s = 96"
  using assms by (simp add: shm_init_def shm_wf_def sizeof_shm_def ROUND_UP_def MEM_ALIGN_def)

subsection \<open>Properties\<close>

text \<open>C35. After \<open>shm_init\<close>, a sequence of calls of \<open>shm_alloc\<close> never blocks, and the blocks it returns (the results that
  are not \<open>NULL\<close>) are 8-byte aligned, behind the header, inside the page, and do not overlap:
  each ends before the next one starts.\<close>

theorem shm_allocs_disjoint:
  assumes "0 < addr" and "96 \<le> unat page_size" and "unat page_size \<le> 2 ^ 63 - 8"
    and "\<forall>n \<in> set ns. unat n \<le> 2 ^ 63 - 8" and "shm_init (Some addr) page_size = Ret s"
  shows "\<exists>ps s'. shm_allocs ns s = Some (ps, s') \<and> blocks_ok addr 96 (unat page_size) ps ns"
  using shm_init_wf [OF assms(1-3)] shm_allocs_spec [OF _ assms(4), of s] assms(5) by auto

theorem shm_allocs_disjoint_witness:
  "\<exists>s ps s'. shm_init (Some 8192) 4096 = Ret s \<and> shm_allocs [72, 4000, 10] s = Some (ps, s') \<and>
    blocks_ok 8192 96 4096 ps [72, 4000, 10]"
proof -
  obtain s where s: "shm_init (Some 8192) 4096 = Ret s" using shm_init_wf [of 8192 4096] by auto
  from shm_allocs_disjoint [OF _ _ _ _ s, of "[72, 4000, 10]"] s show ?thesis by auto
qed

text \<open>One page of 4096 bytes is enough for everything the program allocates from it at start-up, for every
  worker count that \<open>set_worker_env\<close> accepts (up to \<open>MAX_WORKER_PROCESS\<close> = 64): the logger's lock,
  one \<open>struct logger\<close> (56 bytes) per worker and the master, and the accept lock. No call returns
  \<open>NULL\<close>.\<close>

theorem shm_startup_fits:
  assumes "0 < addr" and "workers \<le> 64" and "shm_init (Some addr) 4096 = Ret s"
  shows "\<exists>lock loggers accept_lock s'.
    shm_allocs [sizeof_spinlock_t, 56 * (word_of_nat workers + 1), sizeof_spinlock_t] s =
      Some ([lock, loggers, accept_lock], s') \<and> lock \<noteq> 0 \<and> loggers \<noteq> 0 \<and> accept_lock \<noteq> 0"
proof -
  from shm_init_wf [OF assms(1), of 4096] assms(3) have s: "shm_wf s" "sh_addr s = addr" "sh_size s = 4096"
    "sh_offset s = 96" by auto
  let ?n = "56 * (word_of_nat workers + 1) :: u64"
  have "?n = word_of_nat (56 * (workers + 1))" by simp
  then have n: "unat ?n = 56 * (workers + 1)"
    using assms(2) by (simp only: unat_of_nat) simp
  have r: "round8 72 = 72" "round8 (56 * (workers + 1)) = 56 * (workers + 1)" unfolding round8_def by presburger+
  from shm_alloc_spec [OF s(1), of 72] s r obtain s1 where
    s1: "shm_alloc 72 s = Some (addr + 96, s1)" "shm_wf s1" "sh_addr s1 = addr" "sh_size s1 = 4096"
      "unat (sh_offset s1) = 168" by auto
  from shm_alloc_spec [OF s1(2), of ?n] s1 n r assms(2) obtain s2 where
    s2: "shm_alloc ?n s1 = Some (addr + 168, s2)" "shm_wf s2" "sh_addr s2 = addr" "sh_size s2 = 4096"
      "unat (sh_offset s2) = 168 + 56 * (workers + 1)" by auto
  from shm_alloc_spec [OF s2(2), of 72] s2 r assms(2) obtain s3 where
    "shm_alloc 72 s2 = Some (addr + (168 + 56 * (workers + 1)), s3)" by auto
  with s1(1) s2(1) assms(1) show ?thesis by (simp add: sizeof_spinlock_t_def)
qed

theorem shm_startup_fits_witness:
  "\<exists>s lock loggers accept_lock s'. shm_init (Some 8192) 4096 = Ret s \<and>
    shm_allocs [sizeof_spinlock_t, 56 * (word_of_nat 64 + 1), sizeof_spinlock_t] s =
      Some ([lock, loggers, accept_lock], s') \<and> accept_lock \<noteq> 0"
proof -
  obtain s where s: "shm_init (Some 8192) 4096 = Ret s" using shm_init_wf [of 8192 4096] by auto
  from shm_startup_fits [OF _ _ s, of 64] s show ?thesis by auto
qed

end
