(* ===== verification/Logger.thy ===== *)
theory Logger
  imports Cirbuf Shm Env
begin

text \<open>
  \<open>logger.c\<close>: every process writes its log lines into a ring of its own in shared memory; the master collects them in a page and
  writes the page to the log file. The rings are those of \<open>Cirbuf\<close> (there also with reader and writer interleaved);
  here the operations run one after the other.

  Outside the model are the formatting of the arguments of a message (\<open>ld_msg\<close> is its result), the clock (\<open>ld_now\<close>, the
  formatted time) and the file: \<open>wr n\<close> bytes of a write of \<open>n\<close> bytes arrive. \<open>page_size\<close> is a parameter.
\<close>

subsection \<open>Data\<close>

datatype LOG_LEVEL = LEVEL_CRIT | LEVEL_ERR | LEVEL_WARN | LEVEL_INFO

fun level_num :: "LOG_LEVEL \<Rightarrow> nat" where
  "level_num LEVEL_CRIT = 0"
| "level_num LEVEL_ERR = 1"
| "level_num LEVEL_WARN = 2"
| "level_num LEVEL_INFO = 3"

text \<open>Levels are compared as numbers.\<close>

instantiation LOG_LEVEL :: linorder
begin

definition less_eq_LOG_LEVEL :: "LOG_LEVEL \<Rightarrow> LOG_LEVEL \<Rightarrow> bool" where
  "less_eq_LOG_LEVEL l l' \<longleftrightarrow> level_num l \<le> level_num l'"

definition less_LOG_LEVEL :: "LOG_LEVEL \<Rightarrow> LOG_LEVEL \<Rightarrow> bool" where
  "less_LOG_LEVEL l l' \<longleftrightarrow> level_num l < level_num l'"

instance
proof
  fix l l' :: LOG_LEVEL
  show "l = l'" if "l \<le> l'" "l' \<le> l" using that by (cases l; cases l') (simp_all add: less_eq_LOG_LEVEL_def)
qed (auto simp: less_eq_LOG_LEVEL_def less_LOG_LEVEL_def)

end

fun STR_LOG_LEVEL :: "LOG_LEVEL \<Rightarrow> u8 list" where
  "STR_LOG_LEVEL LEVEL_CRIT = lit ''CRIT''"
| "STR_LOG_LEVEL LEVEL_ERR = lit ''ERR''"
| "STR_LOG_LEVEL LEVEL_WARN = lit ''WARN''"
| "STR_LOG_LEVEL LEVEL_INFO = lit ''INFO''"

record log_desc =
  ld_msg :: "u8 list"
  ld_pid :: nat
  ld_file :: "u8 list"
  ld_line :: nat
  ld_level :: LOG_LEVEL
  ld_now :: "u8 list"

text \<open>\<open>lb_buff\<close> is what \<open>snprintf\<close> has written into the 1016 bytes of \<open>buff\<close>.\<close>

record log_buff =
  lb_len :: nat
  lb_buff :: "u8 list"

definition LOG_SIZE :: nat where "LOG_SIZE = 1024 * 1024"

definition sizeof_log_buff :: nat where "sizeof_log_buff = 1024"

definition BUFF_SIZE :: nat where "BUFF_SIZE = 1016"

definition MSG_SIZE :: nat where "MSG_SIZE = 1024"

text \<open>\<open>flush_page\<close> with the first \<open>flush_page_len\<close> bytes in use, and the log file.\<close>

record flush =
  fl_page :: "u8 list"
  fl_file :: "u8 list"
  fl_fd :: int

type_synonym log_queue = "(log_buff, log_desc option, flush cres) cirbuf"

record logger =
  lg_pid :: nat
  lg_need_init :: bool
  lg_queue :: log_queue
  lg_slots :: "log_buff slots"

record log_state =
  log_object :: "logger list"
  logger_lock :: spinlock_t
  log_flushing :: flush
  log_level :: LOG_LEVEL

subsection \<open>Operations\<close>

definition log_str_level :: "u8 list \<Rightarrow> LOG_LEVEL cres" where
  "log_str_level level =
     (if str_equal level (STR_LOG_LEVEL LEVEL_CRIT) then Ret LEVEL_CRIT
      else if str_equal level (STR_LOG_LEVEL LEVEL_ERR) then Ret LEVEL_ERR
      else if str_equal level (STR_LOG_LEVEL LEVEL_WARN) then Ret LEVEL_WARN
      else if str_equal level (STR_LOG_LEVEL LEVEL_INFO) then Ret LEVEL_INFO
      else Exit 0)"

definition log_flush :: "(nat \<Rightarrow> nat) \<Rightarrow> flush \<Rightarrow> flush" where
  "log_flush wr f =
     (if length (fl_page f) = 0 then f
      else let f1 = (if fl_fd f > 0 then f\<lparr>fl_file := fl_file f @ take (wr (length (fl_page f))) (fl_page f)\<rparr> else f)
           in f1\<lparr>fl_page := []\<rparr>)"

text \<open>The copy reads \<open>len\<close> bytes of \<open>buff\<close> and stores them behind those in the page.\<close>

definition log_read :: "nat \<Rightarrow> (nat \<Rightarrow> nat) \<Rightarrow> log_buff \<Rightarrow> log_desc option \<Rightarrow> flush cres \<Rightarrow> flush cres" where
  "log_read page_size wr buff args w =
     cbind w (\<lambda>f.
       let f1 = (if lb_len buff > page_size - length (fl_page f) then log_flush wr f else f)
       in if lb_len buff > BUFF_SIZE \<or> length (fl_page f1) + lb_len buff > page_size then UB
          else Ret (f1\<lparr>fl_page := fl_page f1 @ take (lb_len buff) (lb_buff buff)\<rparr>))"

text \<open>\<open>"(%d)%s %s:%d [%s]: %s\n"\<close>\<close>

definition log_text :: "log_desc \<Rightarrow> u8 list" where
  "log_text d = lit ''('' @ dec_digits (ld_pid d) @ lit '')'' @ ld_now d @ lit '' '' @ ld_file d @ lit '':'' @ dec_digits (ld_line d) @
     lit '' ['' @ STR_LOG_LEVEL (ld_level d) @ lit '']: '' @ ld_msg d @ [10]"

text \<open>\<open>snprintf\<close> returns the length of the whole text and stores at most 1015 bytes and a NUL.\<close>

definition log_write :: "log_desc option \<Rightarrow> log_buff" where
  "log_write args =
     (case args of
        Some desc \<Rightarrow> \<lparr>lb_len = length (log_text desc), lb_buff = take (BUFF_SIZE - 1) (log_text desc) @ [0]\<rparr>
      | None \<Rightarrow> \<lparr>lb_len = 0, lb_buff = []\<rparr>)"

definition copy_to_cache :: "logger \<Rightarrow> flush \<Rightarrow> (logger \<times> flush) cres option" where
  "copy_to_cache log f =
     map_option (\<lambda>((q, h), w). cbind w (\<lambda>f'.
         let log1 = log\<lparr>lg_queue := q, lg_slots := h\<rparr>
         in Ret (if lg_need_init log1 then log1\<lparr>lg_pid := 0, lg_need_init := False\<rparr> else log1, f')))
       (drain (cirbuf_get None) (lg_queue log, lg_slots log) (Ret f))"

fun scan_loop :: "logger list \<Rightarrow> flush \<Rightarrow> (logger list \<times> flush) cres option" where
  "scan_loop [] f = Some (Ret ([], f))"
| "scan_loop (log # logs) f =
     (if lg_pid log = 0
      then map_option (\<lambda>r. cbind r (\<lambda>(logs', f'). Ret (log # logs', f'))) (scan_loop logs f)
      else case copy_to_cache log f of
        None \<Rightarrow> None
      | Some (Ret (log', f1)) \<Rightarrow> map_option (\<lambda>r. cbind r (\<lambda>(logs', f'). Ret (log' # logs', f'))) (scan_loop logs f1)
      | Some UB \<Rightarrow> Some UB | Some Abort \<Rightarrow> Some Abort | Some (Exit n) \<Rightarrow> Some (Exit n))"

definition log_scan_write :: "(nat \<Rightarrow> nat) \<Rightarrow> log_state \<Rightarrow> log_state cres option" where
  "log_scan_write wr st =
     map_option (\<lambda>r. cbind r (\<lambda>(logs, f). Ret (st\<lparr>log_object := logs, log_flushing := log_flush wr f\<rparr>)))
       (scan_loop (log_object st) (log_flushing st))"

text \<open>The free slot the loop finds, if any.\<close>

fun free_slot :: "logger list \<Rightarrow> nat \<Rightarrow> nat option" where
  "free_slot [] i = None"
| "free_slot (log # logs) i = (if lg_pid log = 0 then Some i else free_slot logs (Suc i))"

text \<open>The result and the new \<open>logger_id\<close> of the process.\<close>

definition log_worker_alloc :: "nat \<Rightarrow> (nat \<Rightarrow> nat) \<Rightarrow> nat \<Rightarrow> log_state \<Rightarrow> ((int \<times> nat) \<times> log_state) option" where
  "log_worker_alloc page_size wr pid st =
     (case spin_lock (logger_lock st) of
        None \<Rightarrow> None
      | Some l \<Rightarrow>
          (case free_slot (log_object st) 0 of
             Some i \<Rightarrow>
               let log = log_object st ! i;
                   log1 = log\<lparr>lg_pid := pid, lg_need_init := False,
                     lg_queue := cirbuf_init (lg_queue log) (LOG_SIZE div sizeof_log_buff) sizeof_log_buff (log_read page_size wr) (\<lambda>_. log_write)\<rparr>
               in Some ((0, i), st\<lparr>log_object := (log_object st)[i := log1], logger_lock := spin_unlock l\<rparr>)
           | None \<Rightarrow> Some ((-1, 0), st\<lparr>logger_lock := spin_unlock l\<rparr>)))"

definition log_worker_flush_and_reset :: "nat \<Rightarrow> log_state \<Rightarrow> log_state option" where
  "log_worker_flush_and_reset pid st =
     (case spin_lock (logger_lock st) of
        None \<Rightarrow> None
      | Some l \<Rightarrow> Some (st\<lparr>log_object := map (\<lambda>log. if lg_pid log = pid then log\<lparr>lg_need_init := True\<rparr> else log) (log_object st),
          logger_lock := spin_unlock l\<rparr>))"

text \<open>\<open>msg\<close> is the text that \<open>vsnprintf\<close> makes of the format and the arguments; it keeps 1023 bytes. The result of \<open>cirbuf_write\<close> is
  not looked at.\<close>

definition log_out :: "nat \<Rightarrow> LOG_LEVEL \<Rightarrow> u8 list \<Rightarrow> nat \<Rightarrow> u8 list \<Rightarrow> u8 list \<Rightarrow> log_state \<Rightarrow> log_state" where
  "log_out logger_id level file line now msg st =
     (if level > log_level st then st
      else
        let log = log_object st ! logger_id;
            logdesc = \<lparr>ld_msg = take (MSG_SIZE - 1) msg, ld_pid = lg_pid log, ld_file = file, ld_line = line, ld_level = level, ld_now = now\<rparr>;
            (_, q, h) = cirbuf_write (lg_queue log) (Some logdesc) (lg_slots log)
        in st\<lparr>log_object := (log_object st)[logger_id := log\<lparr>lg_queue := q, lg_slots := h\<rparr>]\<rparr>)"

text \<open>\<open>accessible\<close> is whether \<open>access\<close> returns 0, \<open>fd_old\<close> and \<open>fd_new\<close> are the results of the two calls of \<open>open\<close>.\<close>

definition gen_logfile_fd :: "bool \<Rightarrow> int \<Rightarrow> int \<Rightarrow> int cres" where
  "gen_logfile_fd accessible fd_old fd_new =
     (let fd = (if accessible then fd_old else fd_new) in if fd = -1 then Exit 0 else Ret fd)"

definition sizeof_logger :: nat where "sizeof_logger = 56"

text \<open>\<open>logfile\<close> are the results of \<open>access\<close> and \<open>open\<close>, \<open>pages\<close> those of \<open>shm_pages_alloc\<close>, and \<open>q0\<close> and \<open>h0\<close> the
  contents of fresh shared memory. \<open>spin_lock_init\<close> follows a null pointer when \<open>shm_alloc\<close> fails. The \<open>mmap\<close> of the page for
  flushing is taken to succeed.\<close>

definition log_init :: "env \<Rightarrow> bool \<times> int \<times> int \<Rightarrow> ptr list \<Rightarrow> log_queue \<Rightarrow> log_buff slots \<Rightarrow> shm \<Rightarrow> (log_state \<times> shm) cres option" where
  "log_init e logfile pages q0 h0 sh =
     (case (case logfile of (accessible, fd_old, fd_new) \<Rightarrow> gen_logfile_fd accessible fd_old fd_new) of
        Ret d \<Rightarrow>
          (case log_str_level (g_log_strlevel e) of
             Ret level \<Rightarrow>
               (case shm_alloc sizeof_spinlock_t sh of
                  None \<Rightarrow> None
                | Some (lock, sh1) \<Rightarrow>
                    if lock = 0 then Some UB
                    else let logger_num = nat (g_worker_processes e + 1)
                         in (case shm_alloc (word_of_nat (sizeof_logger * logger_num)) sh1 of
                               None \<Rightarrow> None
                             | Some (obj, sh2) \<Rightarrow>
                                 if obj = 0 then Some (Exit 0)
                                 else if 0 \<in> set (take logger_num pages) then Some (Exit 0)
                                 else Some (Ret (\<lparr>log_object = map (\<lambda>p. \<lparr>lg_pid = 0, lg_need_init = False, lg_queue = q0\<lparr>q_elem := p\<rparr>, lg_slots = h0\<rparr>)
                                                    (take logger_num pages),
                                                  logger_lock = spin_lock_init \<lparr>sl_start = 0, sl_ticket = 0\<rparr>,
                                                  log_flushing = \<lparr>fl_page = [], fl_file = [], fl_fd = d\<rparr>, log_level = level\<rparr>, sh2))))
           | UB \<Rightarrow> Some UB | Abort \<Rightarrow> Some Abort | Exit n \<Rightarrow> Some (Exit n))
      | UB \<Rightarrow> Some UB | Abort \<Rightarrow> Some Abort | Exit n \<Rightarrow> Some (Exit n))"

subsection \<open>Collecting lines\<close>

definition CAP :: nat where "CAP = 1023"

lemma slots_per_logger: "LOG_SIZE div sizeof_log_buff = Suc CAP"
  by (simp add: LOG_SIZE_def sizeof_log_buff_def CAP_def)

definition logger_rep :: "nat \<Rightarrow> (nat \<Rightarrow> nat) \<Rightarrow> logger \<Rightarrow> log_buff list \<Rightarrow> bool" where
  "logger_rep page_size wr log xs \<longleftrightarrow> cirbuf_rep CAP log_write (log_read page_size wr) (lg_queue log, lg_slots log) xs"

definition line_of :: "log_buff \<Rightarrow> u8 list" where
  "line_of e = take (lb_len e) (lb_buff e)"

text \<open>Entries whose text fits.\<close>

definition entry_ok :: "log_buff \<Rightarrow> bool" where
  "entry_ok e \<longleftrightarrow> lb_len e \<le> BUFF_SIZE \<and> lb_len e \<le> length (lb_buff e)"

text \<open>What has been collected: in the file and in the page.\<close>

definition collected :: "flush \<Rightarrow> u8 list" where
  "collected f = fl_file f @ fl_page f"

definition flush_ok :: "nat \<Rightarrow> (nat \<Rightarrow> nat) \<Rightarrow> flush \<Rightarrow> bool" where
  "flush_ok page_size wr f \<longleftrightarrow> length (fl_page f) \<le> page_size \<and> BUFF_SIZE \<le> page_size \<and> fl_fd f > 0 \<and> (\<forall>n. n \<le> wr n)"

lemma log_flush_collected:
  assumes "flush_ok page_size wr f"
  shows "collected (log_flush wr f) = collected f" "fl_page (log_flush wr f) = []" "flush_ok page_size wr (log_flush wr f)"
  using assms by (auto simp: log_flush_def collected_def flush_ok_def Let_def)

lemma log_read_line:
  assumes "flush_ok page_size wr f" and "entry_ok e"
  shows "\<exists>f'. log_read page_size wr e a (Ret f) = Ret f' \<and> flush_ok page_size wr f' \<and> collected f' = collected f @ line_of e"
proof -
  let ?f = "if lb_len e > page_size - length (fl_page f) then log_flush wr f else f"
  let ?f' = "?f\<lparr>fl_page := fl_page ?f @ take (lb_len e) (lb_buff e)\<rparr>"
  have f: "flush_ok page_size wr ?f" "collected ?f = collected f" using log_flush_collected [OF assms(1)] assms(1) by auto
  have room: "length (fl_page ?f) + lb_len e \<le> page_size"
    using log_flush_collected(2) [OF assms(1)] assms by (auto simp: flush_ok_def entry_ok_def)
  with assms(2) have "log_read page_size wr e a (Ret f) = Ret ?f'" by (simp add: log_read_def entry_ok_def Let_def)
  moreover have "flush_ok page_size wr ?f'" using f(1) room assms(2) by (simp add: flush_ok_def entry_ok_def)
  moreover have "collected ?f' = collected f @ line_of e" using f(2) by (simp add: collected_def line_of_def)
  ultimately show ?thesis by blast
qed

lemma log_read_lines:
  assumes "flush_ok page_size wr f" and "list_all entry_ok xs"
  shows "\<exists>f'. fold (\<lambda>e. log_read page_size wr e a) xs (Ret f) = Ret f' \<and> flush_ok page_size wr f' \<and> collected f' = collected f @ concat (map line_of xs)"
  using assms
proof (induction xs arbitrary: f)
  case (Cons x xs)
  from log_read_line [OF Cons.prems(1), of x a] Cons.prems(2) obtain f1 where
    f1: "log_read page_size wr x a (Ret f) = Ret f1" "flush_ok page_size wr f1" "collected f1 = collected f @ line_of x" by auto
  from Cons.IH [OF f1(2)] Cons.prems(2) f1(1,3) show ?case by auto
qed simp

text \<open>A logger after its ring has been emptied.\<close>

definition emptied :: "nat \<Rightarrow> (nat \<Rightarrow> nat) \<Rightarrow> logger \<Rightarrow> logger \<Rightarrow> bool" where
  "emptied page_size wr log log' \<longleftrightarrow> logger_rep page_size wr log' [] \<and> lg_pid log' = (if lg_need_init log then 0 else lg_pid log) \<and> \<not> lg_need_init log'"

lemma copy_to_cache_lines:
  assumes "logger_rep page_size wr log xs" and "list_all entry_ok xs" and "flush_ok page_size wr f"
  shows "\<exists>log' f'. copy_to_cache log f = Some (Ret (log', f')) \<and> emptied page_size wr log log' \<and> flush_ok page_size wr f' \<and>
    collected f' = collected f @ concat (map line_of xs)"
proof -
  from log_read_lines [OF assms(3,2), of None] obtain f' where
    f': "fold (\<lambda>e. log_read page_size wr e None) xs (Ret f) = Ret f'" "flush_ok page_size wr f'" "collected f' = collected f @ concat (map line_of xs)" by blast
  from cb.drain_all [OF assms(1) [unfolded logger_rep_def], of None "Ret f"] obtain q h where
    "drain (cirbuf_get None) (lg_queue log, lg_slots log) (Ret f) = Some ((q, h), Ret f')" "cirbuf_rep CAP log_write (log_read page_size wr) (q, h) []"
    using f'(1) by auto
  with f'(2,3) show ?thesis by (auto simp: copy_to_cache_def emptied_def logger_rep_def Let_def)
qed

text \<open>What a scan takes from a logger: nothing from a free one.\<close>

definition lines_of :: "logger \<times> log_buff list \<Rightarrow> u8 list" where
  "lines_of p = (if lg_pid (fst p) = 0 then [] else concat (map line_of (snd p)))"

definition scannable :: "nat \<Rightarrow> (nat \<Rightarrow> nat) \<Rightarrow> logger \<Rightarrow> log_buff list \<Rightarrow> bool" where
  "scannable page_size wr log xs \<longleftrightarrow> lg_pid log \<noteq> 0 \<longrightarrow> logger_rep page_size wr log xs \<and> list_all entry_ok xs"

definition scanned :: "nat \<Rightarrow> (nat \<Rightarrow> nat) \<Rightarrow> logger \<Rightarrow> logger \<Rightarrow> bool" where
  "scanned page_size wr log log' \<longleftrightarrow> (if lg_pid log = 0 then log' = log else emptied page_size wr log log')"

lemma scan_loop_lines:
  assumes "list_all2 (scannable page_size wr) logs xss" and "flush_ok page_size wr f"
  shows "\<exists>logs' f'. scan_loop logs f = Some (Ret (logs', f')) \<and> list_all2 (scanned page_size wr) logs logs' \<and> flush_ok page_size wr f' \<and>
    collected f' = collected f @ concat (map lines_of (zip logs xss))"
  using assms
proof (induction logs xss arbitrary: f rule: list_all2_induct)
  case (Cons log logs xs xss)
  show ?case
  proof (cases "lg_pid log = 0")
    case True
    then have "scanned page_size wr log log" "lines_of (log, xs) = []" by (simp_all add: scanned_def lines_of_def)
    with Cons.IH [OF Cons.prems] True show ?thesis by auto
  next
    case False
    with Cons.hyps(1) have "logger_rep page_size wr log xs" "list_all entry_ok xs" by (auto simp: scannable_def)
    from copy_to_cache_lines [OF this Cons.prems] obtain log' f1 where
      "copy_to_cache log f = Some (Ret (log', f1))" "emptied page_size wr log log'" and f1: "flush_ok page_size wr f1"
      "collected f1 = collected f @ concat (map line_of xs)" by blast
    moreover from this(2) False have "scanned page_size wr log log'" "lines_of (log, xs) = concat (map line_of xs)" by (simp_all add: scanned_def lines_of_def)
    ultimately show ?thesis using Cons.IH [OF f1(1)] False by auto
  qed
qed simp

lemma scan_lines:
  assumes "list_all2 (scannable page_size wr) (log_object st) xss" and "flush_ok page_size wr (log_flushing st)"
  shows "\<exists>st'. log_scan_write wr st = Some (Ret st') \<and> list_all2 (scanned page_size wr) (log_object st) (log_object st') \<and>
    fl_file (log_flushing st') = collected (log_flushing st) @ concat (map lines_of (zip (log_object st) xss)) \<and> fl_page (log_flushing st') = [] \<and>
    flush_ok page_size wr (log_flushing st')"
proof -
  from scan_loop_lines [OF assms] obtain logs' f' where s: "scan_loop (log_object st) (log_flushing st) = Some (Ret (logs', f'))"
    "list_all2 (scanned page_size wr) (log_object st) logs'" "flush_ok page_size wr f'"
    "collected f' = collected (log_flushing st) @ concat (map lines_of (zip (log_object st) xss))" by blast
  with log_flush_collected [OF s(3)] show ?thesis by (auto simp: log_scan_write_def collected_def)
qed

subsection \<open>Writing lines\<close>

text \<open>A call of \<open>log_out\<close>: the slot of the calling process, and the arguments.\<close>

type_synonym log_call = "nat \<times> LOG_LEVEL \<times> u8 list \<times> nat \<times> u8 list \<times> u8 list"

fun log_call :: "log_call \<Rightarrow> log_state \<Rightarrow> log_state" where
  "log_call (i, level, file, line, now, msg) st = log_out i level file line now msg st"

text \<open>The messages of slot \<open>i\<close> that are not above the level.\<close>

fun desc_of :: "log_state \<Rightarrow> log_call \<Rightarrow> log_desc" where
  "desc_of st (i, level, file, line, now, msg) =
     \<lparr>ld_msg = take (MSG_SIZE - 1) msg, ld_pid = lg_pid (log_object st ! i), ld_file = file, ld_line = line, ld_level = level, ld_now = now\<rparr>"

definition logged :: "log_state \<Rightarrow> nat \<Rightarrow> log_call list \<Rightarrow> log_desc list" where
  "logged st i calls = map (desc_of st) (filter (\<lambda>c. fst c = i \<and> fst (snd c) \<le> log_level st) calls)"

definition log_calls :: "log_call list \<Rightarrow> log_state \<Rightarrow> log_state" where
  "log_calls calls st = fold log_call calls st"

definition entry_of :: "log_desc \<Rightarrow> log_buff" where
  "entry_of d = log_write (Some d)"

lemma logger_rep_upd: "logger_rep page_size wr (log\<lparr>lg_queue := q, lg_slots := h\<rparr>) xs = cirbuf_rep CAP log_write (log_read page_size wr) (q, h) xs"
  by (simp add: logger_rep_def)

lemma log_out_rep:
  assumes "logger_rep page_size wr log xs"
  shows "\<exists>r q h. cirbuf_write (lg_queue log) (Some d) (lg_slots log) = (r, q, h) \<and>
    logger_rep page_size wr (log\<lparr>lg_queue := q, lg_slots := h\<rparr>) (if length xs < CAP then xs @ [entry_of d] else xs)"
proof -
  note rep = assms [unfolded logger_rep_def]
  have w: "cirbuf_put (Some d) (lg_queue log, lg_slots log) = cirbuf_write (lg_queue log) (Some d) (lg_slots log)" by (simp add: cirbuf_put_def)
  show ?thesis
  proof (cases "length xs < CAP")
    case True
    from cb.put_room [OF rep True, of "Some d", folded entry_of_def] w obtain q h where "cirbuf_write (lg_queue log) (Some d) (lg_slots log) = (0, q, h)"
      "cirbuf_rep CAP log_write (log_read page_size wr) (q, h) (xs @ [entry_of d])" by auto
    with True show ?thesis by (auto simp: logger_rep_upd)
  next
    case False
    with cb.bound [OF rep] have "length xs = CAP" by simp
    from cb.put_full [OF rep this, of "Some d", folded entry_of_def] w rep False show ?thesis by (auto simp: logger_rep_upd)
  qed
qed

text \<open>After any sequence of calls each ring holds the first messages of its process.\<close>

lemma log_calls_rep:
  assumes "\<forall>i < length (log_object st). lg_pid (log_object st ! i) \<noteq> 0 \<longrightarrow> logger_rep page_size wr (log_object st ! i) []"
    and "\<forall>c \<in> set calls. fst c < length (log_object st) \<and> lg_pid (log_object st ! fst c) \<noteq> 0"
  shows "let st' = log_calls calls st in
    length (log_object st') = length (log_object st) \<and> log_level st' = log_level st \<and> log_flushing st' = log_flushing st \<and>
    (\<forall>i < length (log_object st). lg_pid (log_object st' ! i) = lg_pid (log_object st ! i) \<and> lg_need_init (log_object st' ! i) = lg_need_init (log_object st ! i) \<and>
       (lg_pid (log_object st ! i) \<noteq> 0 \<longrightarrow> logger_rep page_size wr (log_object st' ! i) (map entry_of (take CAP (logged st i calls)))))"
  using assms(2)
proof (induction calls rule: rev_induct)
  case Nil
  with assms(1) show ?case by (simp add: log_calls_def logged_def)
next
  case (snoc c calls)
  obtain i level src line now msg where c: "c = (i, level, src, line, now, msg)" by (cases c)
  let ?st = "log_calls calls st"
  from snoc have IH: "length (log_object ?st) = length (log_object st)" "log_level ?st = log_level st" "log_flushing ?st = log_flushing st"
    "\<And>j. j < length (log_object st) \<Longrightarrow> lg_pid (log_object ?st ! j) = lg_pid (log_object st ! j) \<and> lg_need_init (log_object ?st ! j) = lg_need_init (log_object st ! j)"
    "\<And>j. j < length (log_object st) \<Longrightarrow> lg_pid (log_object st ! j) \<noteq> 0 \<Longrightarrow> logger_rep page_size wr (log_object ?st ! j) (map entry_of (take CAP (logged st j calls)))"
    by (auto simp: Let_def)
  have i: "i < length (log_object st)" "lg_pid (log_object st ! i) \<noteq> 0" using snoc.prems c by auto
  have step: "log_calls (calls @ [c]) st = log_out i level src line now msg ?st" by (simp add: log_calls_def c)
  show ?case
  proof (cases "level \<le> log_level st")
    case False
    then have "logged st j (calls @ [c]) = logged st j calls" for j by (simp add: logged_def c)
    moreover have "log_out i level src line now msg ?st = ?st" using False IH(2) by (simp add: log_out_def not_le)
    ultimately show ?thesis using IH unfolding step by simp
  next
    case True
    let ?xs = "map entry_of (take CAP (logged st i calls))" and ?d = "desc_of st c"
    from log_out_rep [OF IH(5) [OF i], of ?d] obtain r q h where w: "cirbuf_write (lg_queue (log_object ?st ! i)) (Some ?d) (lg_slots (log_object ?st ! i)) = (r, q, h)"
      "logger_rep page_size wr ((log_object ?st ! i)\<lparr>lg_queue := q, lg_slots := h\<rparr>) (if length ?xs < CAP then ?xs @ [entry_of ?d] else ?xs)" by blast
    have run: "log_out i level src line now msg ?st = ?st\<lparr>log_object := (log_object ?st)[i := (log_object ?st ! i)\<lparr>lg_queue := q, lg_slots := h\<rparr>]\<rparr>"
      using True IH(2) IH(4) [OF i(1)] w(1) by (simp add: log_out_def Let_def c)
    have lg: "logged st j (calls @ [c]) = logged st j calls @ (if j = i then [?d] else [])" for j using True by (simp add: logged_def c)
    have "(if length ?xs < CAP then ?xs @ [entry_of ?d] else ?xs) = map entry_of (take CAP (logged st i (calls @ [c])))"
      by (auto simp: lg min_def)
    with w(2) IH i lg show ?thesis unfolding step run Let_def by (auto simp: nth_list_update split: if_splits)
  qed
qed

subsection \<open>A logger that is ready\<close>

text \<open>Nobody holds the lock, the rings in use are empty, and writes to the file are complete.\<close>

definition log_ready :: "nat \<Rightarrow> (nat \<Rightarrow> nat) \<Rightarrow> log_state \<Rightarrow> bool" where
  "log_ready page_size wr st \<longleftrightarrow> lock_free (logger_lock st) \<and> flush_ok page_size wr (log_flushing st) \<and>
     (\<forall>i < length (log_object st). lg_pid (log_object st ! i) \<noteq> 0 \<longrightarrow> logger_rep page_size wr (log_object st ! i) [])"

text \<open>The calls come from processes that have a slot, and their lines fit into the buffer with its NUL.\<close>

definition calls_ok :: "log_state \<Rightarrow> log_call list \<Rightarrow> bool" where
  "calls_ok st calls \<longleftrightarrow> (\<forall>c \<in> set calls. fst c < length (log_object st) \<and> lg_pid (log_object st ! fst c) \<noteq> 0 \<and>
     length (log_text (desc_of st c)) < BUFF_SIZE)"

text \<open>The text a scan finds in slot \<open>i\<close>.\<close>

definition slot_text :: "log_state \<Rightarrow> log_call list \<Rightarrow> nat \<Rightarrow> u8 list" where
  "slot_text st calls i = concat (map log_text (take CAP (logged st i calls)))"

lemma entry_of_fits:
  assumes "length (log_text d) < BUFF_SIZE"
  shows "entry_ok (entry_of d)" "line_of (entry_of d) = log_text d"
  using assms by (simp_all add: entry_of_def log_write_def entry_ok_def line_of_def BUFF_SIZE_def)

lemma logged_fits:
  assumes "calls_ok st calls"
  shows "list_all entry_ok (map entry_of (take CAP (logged st i calls)))"
    and "concat (map line_of (map entry_of (take CAP (logged st i calls)))) = slot_text st calls i"
proof -
  have "length (log_text d) < BUFF_SIZE" if "d \<in> set (take CAP (logged st i calls))" for d
    using set_take_subset that assms unfolding logged_def calls_ok_def by fastforce
  then show "list_all entry_ok (map entry_of (take CAP (logged st i calls)))"
    "concat (map line_of (map entry_of (take CAP (logged st i calls)))) = slot_text st calls i"
    by (auto simp: list_all_iff entry_of_fits slot_text_def intro!: arg_cong [of _ _ concat])
qed

lemma log_calls_frame [simp]:
  "logger_lock (log_calls calls st) = logger_lock st"
  by (induction calls arbitrary: st) (auto simp: log_calls_def log_out_def Let_def split: prod.splits)

text \<open>Calls and then a scan, with a step \<open>mark\<close> between them that changes at most which slots are to be freed.\<close>

lemma calls_then_scan:
  assumes ready: "log_ready page_size wr st" and calls: "calls_ok st calls"
    and st1: "length (log_object st1) = length (log_object st)" "log_flushing st1 = log_flushing st" "lock_free (logger_lock st1)"
    and st1_log: "\<And>i. i < length (log_object st) \<Longrightarrow> lg_pid (log_object st1 ! i) = lg_pid (log_object st ! i) \<and>
      lg_queue (log_object st1 ! i) = lg_queue (log_object (log_calls calls st) ! i) \<and>
      lg_slots (log_object st1 ! i) = lg_slots (log_object (log_calls calls st) ! i)"
  shows "\<exists>st'. log_scan_write wr st1 = Some (Ret st') \<and> log_ready page_size wr st' \<and> length (log_object st') = length (log_object st) \<and>
    fl_file (log_flushing st') = collected (log_flushing st) @
      concat (map (\<lambda>i. if lg_pid (log_object st ! i) = 0 then [] else slot_text st calls i) [0..<length (log_object st)]) \<and>
    fl_page (log_flushing st') = [] \<and>
    (\<forall>i < length (log_object st). lg_pid (log_object st' ! i) =
       (if lg_pid (log_object st ! i) \<noteq> 0 \<and> lg_need_init (log_object st1 ! i) then 0 else lg_pid (log_object st ! i)))"
proof -
  let ?n = "length (log_object st)" and ?xs = "\<lambda>i. map entry_of (take CAP (logged st i calls))"
  have rep: "logger_rep page_size wr (log_object st1 ! i) (?xs i)" if "i < ?n" "lg_pid (log_object st ! i) \<noteq> 0" for i
    using log_calls_rep [of st page_size wr calls] ready calls that st1_log [OF that(1)]
    by (simp add: log_ready_def calls_ok_def logger_rep_def Let_def)
  have scannable: "list_all2 (scannable page_size wr) (log_object st1) (map ?xs [0..<?n])"
    using st1(1) st1_log rep logged_fits(1) [OF calls] by (simp add: list_all2_conv_all_nth scannable_def)
  have flush: "flush_ok page_size wr (log_flushing st1)" using ready st1(2) by (simp add: log_ready_def)
  have lines: "map lines_of (zip (log_object st1) (map ?xs [0..<?n])) =
      map (\<lambda>i. if lg_pid (log_object st ! i) = 0 then [] else slot_text st calls i) [0..<?n]"
    using st1(1) st1_log logged_fits(2) [OF calls] by (intro nth_equalityI) (auto simp: lines_of_def)
  from scan_lines [OF scannable flush] obtain st' where st': "log_scan_write wr st1 = Some (Ret st')"
    "list_all2 (scanned page_size wr) (log_object st1) (log_object st')" "fl_page (log_flushing st') = []" "flush_ok page_size wr (log_flushing st')"
    "fl_file (log_flushing st') = collected (log_flushing st1) @ concat (map lines_of (zip (log_object st1) (map ?xs [0..<?n])))" by blast
  have sc: "scanned page_size wr (log_object st1 ! i) (log_object st' ! i)" if "i < ?n" for i
    using st'(2) that st1(1) by (simp add: list_all2_conv_all_nth)
  have len: "length (log_object st') = ?n" using st'(2) st1(1) by (simp add: list_all2_conv_all_nth)
  have lock: "lock_free (logger_lock st')" using st'(1) st1(3) by (auto simp: log_scan_write_def elim!: cbind.elims)
  have pid: "lg_pid (log_object st' ! i) = (if lg_pid (log_object st ! i) \<noteq> 0 \<and> lg_need_init (log_object st1 ! i) then 0 else lg_pid (log_object st ! i))"
    if "i < ?n" for i using sc [OF that] st1_log [OF that] by (auto simp: scanned_def emptied_def split: if_splits)
  have "logger_rep page_size wr (log_object st' ! i) []" if "i < ?n" "lg_pid (log_object st' ! i) \<noteq> 0" for i
    using sc [OF that(1)] that by (auto simp: scanned_def emptied_def split: if_splits)
  with lock st'(4) len have "log_ready page_size wr st'" by (simp add: log_ready_def)
  with st' pid len lines st1(2) show ?thesis by auto
qed

subsection \<open>Slots\<close>

lemma cirbuf_init_rep:
  "cirbuf_rep CAP log_write (log_read page_size wr)
     (cirbuf_init q (LOG_SIZE div sizeof_log_buff) sizeof_log_buff (log_read page_size wr) (\<lambda>_. log_write), h) []"
  by (simp add: cirbuf_rep_def cirbuf_init_def cirbuf_ok_def cirbuf_list_def ring_list_def ring_len_def LOG_SIZE_def sizeof_log_buff_def CAP_def)

lemma free_slot_Some:
  "free_slot logs k = Some i \<Longrightarrow> \<exists>j < length logs. i = k + j \<and> lg_pid (logs ! j) = 0 \<and> (\<forall>j' < j. lg_pid (logs ! j') \<noteq> 0)"
proof (induction logs arbitrary: k)
  case (Cons log logs)
  show ?case
  proof (cases "lg_pid log = 0")
    case True
    with Cons.prems show ?thesis by auto
  next
    case False
    with Cons.prems have "free_slot logs (Suc k) = Some i" by simp
    from Cons.IH [OF this] obtain j where "j < length logs" "i = Suc k + j" "lg_pid (logs ! j) = 0" "\<forall>j' < j. lg_pid (logs ! j') \<noteq> 0" by blast
    with False show ?thesis by (intro exI [of _ "Suc j"]) (auto simp: less_Suc_eq_0_disj)
  qed
qed simp

lemma free_slot_None: "free_slot logs k = None \<longleftrightarrow> (\<forall>log \<in> set logs. lg_pid log \<noteq> 0)"
  by (induction logs arbitrary: k) simp_all

lemma log_worker_alloc_free:
  assumes "log_ready page_size wr st" and "free_slot (log_object st) 0 = Some i" and "pid \<noteq> 0"
  shows "\<exists>st'. log_worker_alloc page_size wr pid st = Some ((0, i), st') \<and> log_ready page_size wr st' \<and> i < length (log_object st) \<and>
    length (log_object st') = length (log_object st) \<and> lg_pid (log_object st ! i) = 0 \<and> (\<forall>j < i. lg_pid (log_object st ! j) \<noteq> 0) \<and>
    lg_pid (log_object st' ! i) = pid \<and> \<not> lg_need_init (log_object st' ! i) \<and> (\<forall>j. j \<noteq> i \<longrightarrow> log_object st' ! j = log_object st ! j) \<and>
    log_flushing st' = log_flushing st \<and> log_level st' = log_level st"
proof -
  from assms(1) have "lock_free (logger_lock st)" by (simp add: log_ready_def)
  from spin_lock_unlock [OF this] obtain l where l: "spin_lock (logger_lock st) = Some l" "lock_free (spin_unlock l)" by blast
  from free_slot_Some [OF assms(2)] have i: "i < length (log_object st)" "lg_pid (log_object st ! i) = 0" "\<forall>j < i. lg_pid (log_object st ! j) \<noteq> 0" by auto
  show ?thesis using assms i l
    by (auto simp: log_worker_alloc_def Let_def log_ready_def nth_list_update logger_rep_def cirbuf_init_rep)
qed

lemma log_worker_alloc_none:
  assumes "log_ready page_size wr st" and "free_slot (log_object st) 0 = None"
  shows "\<exists>st'. log_worker_alloc page_size wr pid st = Some ((-1, 0), st') \<and> log_ready page_size wr st' \<and> log_object st' = log_object st \<and>
    log_flushing st' = log_flushing st \<and> (\<forall>log \<in> set (log_object st). lg_pid log \<noteq> 0)"
proof -
  from assms(1) have "lock_free (logger_lock st)" by (simp add: log_ready_def)
  from spin_lock_unlock [OF this] obtain l where l: "spin_lock (logger_lock st) = Some l" "lock_free (spin_unlock l)" by blast
  from assms(2) have "\<forall>log \<in> set (log_object st). lg_pid log \<noteq> 0" by (simp add: free_slot_None)
  with assms l show ?thesis by (auto simp: log_worker_alloc_def log_ready_def)
qed

lemma flush_and_reset_marks:
  assumes "lock_free (logger_lock st)"
  shows "\<exists>st'. log_worker_flush_and_reset pid st = Some st' \<and> lock_free (logger_lock st') \<and> log_flushing st' = log_flushing st \<and>
    log_object st' = map (\<lambda>log. if lg_pid log = pid then log\<lparr>lg_need_init := True\<rparr> else log) (log_object st)"
proof -
  from spin_lock_unlock [OF assms] obtain l where l: "spin_lock (logger_lock st) = Some l" "lock_free (spin_unlock l)" by blast
  then show ?thesis by (simp add: log_worker_flush_and_reset_def)
qed

lemma concat_single:
  assumes "i < n" and "\<And>j. j < n \<Longrightarrow> j \<noteq> i \<Longrightarrow> f j = []"
  shows "concat (map f [0..<n]) = f i"
proof -
  have "[0..<i + (n - i)] = [0..<i] @ [i..<i + (n - i)]" by (rule upt_add_eq_append) simp
  with assms(1) have "[0..<n] = [0..<i] @ i # [Suc i..<n]" by (simp add: upt_conv_Cons)
  then have "concat (map f [0..<n]) = concat (map f [0..<i]) @ f i @ concat (map f [Suc i..<n])" by simp
  moreover have "concat (map f [0..<i]) = []" "concat (map f [Suc i..<n]) = []" using assms by (auto simp: concat_eq_Nil_conv)
  ultimately show ?thesis by (simp only: append_Nil append_Nil2)
qed

lemma reset_then_scan:
  assumes ready: "log_ready page_size wr st" and calls: "calls_ok st calls" "\<forall>c \<in> set calls. fst c = i"
    and i: "i < length (log_object st)" "lg_pid (log_object st ! i) = pid" and pid: "pid \<noteq> 0"
  shows "\<exists>st2 st3. log_worker_flush_and_reset pid (log_calls calls st) = Some st2 \<and> lg_pid (log_object st2 ! i) = pid \<and>
    log_scan_write wr st2 = Some (Ret st3) \<and> log_ready page_size wr st3 \<and>
    fl_file (log_flushing st3) = collected (log_flushing st) @ slot_text st calls i \<and>
    (\<forall>j < length (log_object st). lg_pid (log_object st3 ! j) =
       (if lg_pid (log_object st ! j) = pid \<or> lg_need_init (log_object st ! j) then 0 else lg_pid (log_object st ! j)))"
proof -
  let ?st = "log_calls calls st" and ?n = "length (log_object st)"
  from log_calls_rep [of st page_size wr calls] ready calls(1) have
    c: "length (log_object ?st) = ?n" "log_flushing ?st = log_flushing st"
      "\<And>j. j < ?n \<Longrightarrow> lg_pid (log_object ?st ! j) = lg_pid (log_object st ! j) \<and> lg_need_init (log_object ?st ! j) = lg_need_init (log_object st ! j)"
    by (auto simp: log_ready_def calls_ok_def Let_def)
  have "lock_free (logger_lock ?st)" using ready by (simp add: log_ready_def)
  from flush_and_reset_marks [OF this, of pid] obtain st2 where st2: "log_worker_flush_and_reset pid ?st = Some st2" "lock_free (logger_lock st2)"
    "log_flushing st2 = log_flushing ?st" "log_object st2 = map (\<lambda>log. if lg_pid log = pid then log\<lparr>lg_need_init := True\<rparr> else log) (log_object ?st)" by blast
  have len: "length (log_object st2) = ?n" "log_flushing st2 = log_flushing st" using st2 c by simp_all
  from calls_then_scan [OF ready calls(1) len st2(2)] obtain st3 where st3: "log_scan_write wr st2 = Some (Ret st3)" "log_ready page_size wr st3"
    "fl_file (log_flushing st3) = collected (log_flushing st) @ concat (map (\<lambda>i. if lg_pid (log_object st ! i) = 0 then [] else slot_text st calls i) [0..<?n])"
    "\<forall>j < ?n. lg_pid (log_object st3 ! j) = (if lg_pid (log_object st ! j) \<noteq> 0 \<and> lg_need_init (log_object st2 ! j) then 0 else lg_pid (log_object st ! j))"
    using c st2(4) by force
  have "logged st j calls = []" if "j \<noteq> i" for j using calls(2) that by (auto simp: logged_def filter_empty_conv)
  then have "concat (map (\<lambda>i. if lg_pid (log_object st ! i) = 0 then [] else slot_text st calls i) [0..<?n]) = slot_text st calls i"
    using concat_single [OF i(1), of "\<lambda>i. if lg_pid (log_object st ! i) = 0 then [] else slot_text st calls i"] i(2) pid by (simp add: slot_text_def)
  with st2(1) st3 show ?thesis using i st2(4) c by (intro exI [of _ st2] exI [of _ st3]) auto
qed

text \<open>When every slot is taken, the successor of a process that has ended gets a slot only after the next scan.\<close>

lemma replacement_waits:
  assumes ready: "log_ready page_size wr st" and full: "free_slot (log_object st) 0 = None" and pid: "pid \<noteq> 0" and dead: "dead \<in> lg_pid ` set (log_object st)"
  shows "\<exists>st2 st3 st4 i st5. log_worker_flush_and_reset dead st = Some st2 \<and> log_worker_alloc page_size wr pid st2 = Some ((-1, 0), st3) \<and>
    log_scan_write wr st3 = Some (Ret st4) \<and> log_worker_alloc page_size wr pid st4 = Some ((0, i), st5) \<and>
    i < length (log_object st) \<and> (lg_pid (log_object st ! i) = dead \<or> lg_need_init (log_object st ! i))"
proof -
  let ?mark = "\<lambda>log. if lg_pid log = dead then log\<lparr>lg_need_init := True\<rparr> else log" and ?n = "length (log_object st)"
  have lock: "lock_free (logger_lock st)" using ready by (simp add: log_ready_def)
  have taken: "lg_pid (log_object st ! i) \<noteq> 0" if "i < ?n" for i using full that by (simp add: free_slot_None)
  from flush_and_reset_marks [OF lock, of dead] obtain st2 where st2: "log_worker_flush_and_reset dead st = Some st2" "lock_free (logger_lock st2)"
    "log_flushing st2 = log_flushing st" "log_object st2 = map ?mark (log_object st)" by blast
  have "log_ready page_size wr st2" using ready st2(2-4) by (simp add: log_ready_def logger_rep_def)
  moreover have "free_slot (log_object st2) 0 = None" using full st2(4) by (auto simp: free_slot_None)
  ultimately obtain st3 where st3: "log_worker_alloc page_size wr pid st2 = Some ((-1, 0), st3)" "log_ready page_size wr st3" "log_object st3 = log_object st2"
    "log_flushing st3 = log_flushing st2" using log_worker_alloc_none by blast
  have len3: "length (log_object st3) = ?n" "log_flushing st3 = log_flushing st" using st3(3,4) st2(3,4) by simp_all
  have lock3: "lock_free (logger_lock st3)" using st3(2) by (simp add: log_ready_def)
  have none: "calls_ok st []" "log_calls [] st = st" by (simp_all add: calls_ok_def log_calls_def)
  have log3: "lg_pid (log_object st3 ! i) = lg_pid (log_object st ! i) \<and> lg_queue (log_object st3 ! i) = lg_queue (log_object (log_calls [] st) ! i) \<and>
      lg_slots (log_object st3 ! i) = lg_slots (log_object (log_calls [] st) ! i)" if "i < ?n" for i
    using that st3(3) st2(4) none(2) by simp
  from calls_then_scan [OF ready none(1) len3 lock3 log3] obtain st4 where st4: "log_scan_write wr st3 = Some (Ret st4)" "log_ready page_size wr st4"
    "length (log_object st4) = ?n" "\<forall>i < ?n. lg_pid (log_object st4 ! i) =
      (if lg_pid (log_object st ! i) \<noteq> 0 \<and> lg_need_init (log_object st3 ! i) then 0 else lg_pid (log_object st ! i))" by blast
  from dead obtain j where j: "j < ?n" "lg_pid (log_object st ! j) = dead" by (auto simp: in_set_conv_nth)
  then have "lg_pid (log_object st4 ! j) = 0" using st4(4) st3(3) st2(4) by simp
  with j(1) st4(3) have "free_slot (log_object st4) 0 \<noteq> None" by (auto simp: free_slot_None)
  then obtain i where i: "free_slot (log_object st4) 0 = Some i" by blast
  from log_worker_alloc_free [OF st4(2) i pid] obtain st5 where st5: "log_worker_alloc page_size wr pid st4 = Some ((0, i), st5)"
    "i < length (log_object st4)" "lg_pid (log_object st4 ! i) = 0" by blast
  have n: "i < ?n" using st5(2) st4(3) by simp
  with taken [OF n] st5(3) st4(4) st3(3) st2(4) have "lg_pid (log_object st ! i) = dead \<or> lg_need_init (log_object st ! i)" by (auto split: if_splits)
  with n st2(1) st3(1) st4(1) st5(1) show ?thesis by blast
qed

text \<open>\<open>log_init\<close> leaves as many free slots as there are workers and the master, if it returns.\<close>

lemma log_init_ready:
  assumes "log_init e logfile pages q0 h0 sh = Some (Ret (st, sh'))" and "nat (g_worker_processes e + 1) \<le> length pages"
    and "fst (snd logfile) > 0" "snd (snd logfile) > 0" and "BUFF_SIZE \<le> page_size" and "\<And>n. n \<le> wr n"
  shows "log_ready page_size wr st" "length (log_object st) = nat (g_worker_processes e + 1)" "\<forall>log \<in> set (log_object st). lg_pid log = 0"
    "fl_file (log_flushing st) = []" "STR_LOG_LEVEL (log_level st) = g_log_strlevel e"
  using assms
  by (auto simp: log_init_def gen_logfile_fd_def log_str_level_def str_equal_def Let_def log_ready_def flush_ok_def
      split: cres.splits option.splits prod.splits if_splits)

subsection \<open>Lines that do not fit\<close>

lemma fold_log_read_UB: "fold (\<lambda>e. log_read page_size wr e a) xs UB = UB"
  by (induction xs) (simp_all add: log_read_def)

lemma copy_to_cache_UB:
  assumes "logger_rep page_size wr log [e]" and "lb_len e > BUFF_SIZE"
  shows "copy_to_cache log f = Some UB"
proof -
  have "fold (\<lambda>e. log_read page_size wr e None) [e] (Ret f) = UB" using assms(2) by (simp add: log_read_def Let_def)
  with cb.drain_all [OF assms(1) [unfolded logger_rep_def], of None "Ret f"] show ?thesis by (auto simp: copy_to_cache_def)
qed

lemma scan_loop_UB:
  assumes "list_all2 (scannable page_size wr) logs xss" and "flush_ok page_size wr f" and "lg_pid log \<noteq> 0"
    and "\<And>f. copy_to_cache log f = Some UB"
  shows "scan_loop (logs @ log # rest) f = Some UB"
  using assms(1,2)
proof (induction logs xss arbitrary: f rule: list_all2_induct)
  case Nil
  with assms(3,4) show ?case by simp
next
  case (Cons x logs xs xss)
  show ?case
  proof (cases "lg_pid x = 0")
    case True
    with Cons.IH [OF Cons.prems] show ?thesis by simp
  next
    case False
    with Cons.hyps(1) have "logger_rep page_size wr x xs" "list_all entry_ok xs" by (auto simp: scannable_def)
    from copy_to_cache_lines [OF this Cons.prems] obtain x' f1 where "copy_to_cache x f = Some (Ret (x', f1))" "flush_ok page_size wr f1" by blast
    with Cons.IH [of f1] False show ?thesis by simp
  qed
qed

subsection \<open>Properties\<close>

text \<open>C20. What the processes log reaches the file, as long as every formatted line is shorter than 1016 bytes (\<open>calls_ok\<close>; C40 shows
  what a longer one does): after any sequence of such calls of \<open>log_out\<close> by processes that have a slot, in any interleaving,
  a scan ends and appends to the file, slot by slot, the texts of the first 1023 messages of each process that are not above
  the level, in the order of its calls; the page for flushing is empty again, however often it was flushed in between, the slots
  and the processes that own them are as before (those marked for reset are freed) and the logger is ready for more calls.
\<close>

theorem log_lines_reach_file:
  assumes "log_ready page_size wr st" and "calls_ok st calls"
  shows "\<exists>st'. log_scan_write wr (log_calls calls st) = Some (Ret st') \<and> log_ready page_size wr st' \<and>
    fl_file (log_flushing st') = fl_file (log_flushing st) @ fl_page (log_flushing st) @
      concat (map (\<lambda>i. if lg_pid (log_object st ! i) = 0 then [] else slot_text st calls i) [0..<length (log_object st)]) \<and>
    fl_page (log_flushing st') = [] \<and>
    (\<forall>i < length (log_object st). lg_pid (log_object st' ! i) =
       (if lg_pid (log_object st ! i) \<noteq> 0 \<and> lg_need_init (log_object st ! i) then 0 else lg_pid (log_object st ! i)))"
proof -
  let ?st = "log_calls calls st"
  from log_calls_rep [of st page_size wr calls] assms have
    c: "length (log_object ?st) = length (log_object st)" "log_flushing ?st = log_flushing st"
      "\<And>i. i < length (log_object st) \<Longrightarrow> lg_pid (log_object ?st ! i) = lg_pid (log_object st ! i) \<and> lg_need_init (log_object ?st ! i) = lg_need_init (log_object st ! i)"
    by (auto simp: log_ready_def calls_ok_def Let_def)
  have lock: "lock_free (logger_lock ?st)" using assms(1) by (simp add: log_ready_def)
  have "\<exists>st'. log_scan_write wr ?st = Some (Ret st') \<and> log_ready page_size wr st' \<and> length (log_object st') = length (log_object st) \<and>
    fl_file (log_flushing st') = collected (log_flushing st) @
      concat (map (\<lambda>i. if lg_pid (log_object st ! i) = 0 then [] else slot_text st calls i) [0..<length (log_object st)]) \<and>
    fl_page (log_flushing st') = [] \<and>
    (\<forall>i < length (log_object st). lg_pid (log_object st' ! i) =
       (if lg_pid (log_object st ! i) \<noteq> 0 \<and> lg_need_init (log_object ?st ! i) then 0 else lg_pid (log_object st ! i)))"
    by (rule calls_then_scan [OF assms c(1,2) lock]) (simp add: c(3))
  then obtain st' where "log_scan_write wr ?st = Some (Ret st')" "log_ready page_size wr st'" "fl_page (log_flushing st') = []"
    "fl_file (log_flushing st') = collected (log_flushing st) @
      concat (map (\<lambda>i. if lg_pid (log_object st ! i) = 0 then [] else slot_text st calls i) [0..<length (log_object st)])"
    "\<forall>i < length (log_object st). lg_pid (log_object st' ! i) =
       (if lg_pid (log_object st ! i) \<noteq> 0 \<and> lg_need_init (log_object ?st ! i) then 0 else lg_pid (log_object st ! i))" by blast
  with c(3) show ?thesis by (intro exI [of _ st']) (simp add: collected_def)
qed

definition ring0 :: log_queue where
  "ring0 = cirbuf_init \<lparr>q_elem_count = 0, q_elem_size = 0, q_start = 0, q_end = 0, q_read_cb = \<lambda>_ _ w. w, q_write_cb = \<lambda>e _. e, q_elem = 4096\<rparr>
     1024 1024 (log_read 4096 (\<lambda>n. n)) (\<lambda>_. log_write)"

definition log_state0 :: log_state where
  "log_state0 = \<lparr>log_object = [\<lparr>lg_pid = 7, lg_need_init = False, lg_queue = ring0, lg_slots = \<lambda>_. \<lparr>lb_len = 0, lb_buff = []\<rparr>\<rparr>,
       \<lparr>lg_pid = 0, lg_need_init = False, lg_queue = ring0, lg_slots = \<lambda>_. \<lparr>lb_len = 0, lb_buff = []\<rparr>\<rparr>],
     logger_lock = \<lparr>sl_start = 0, sl_ticket = 0\<rparr>, log_flushing = \<lparr>fl_page = [], fl_file = [], fl_fd = 3\<rparr>, log_level = LEVEL_WARN\<rparr>"

lemma log_state0_ready: "log_ready 4096 (\<lambda>n. n) log_state0"
  using cirbuf_init_rep [of 4096 "\<lambda>n. n"]
  by (simp add: log_ready_def log_state0_def lock_free_def flush_ok_def BUFF_SIZE_def ring0_def logger_rep_def LOG_SIZE_def sizeof_log_buff_def less_Suc_eq numeral_2_eq_2)

definition log_calls0 :: "log_call list" where
  "log_calls0 = [(0, LEVEL_ERR, lit ''a.c'', 12, lit ''now'', lit ''hi''), (0, LEVEL_INFO, lit ''a.c'', 13, lit ''now'', lit ''unseen''),
     (0, LEVEL_CRIT, lit ''b.c'', 7, lit ''later'', lit ''ho'')]"

lemma log_calls0_ok: "calls_ok log_state0 log_calls0"
  by (simp add: calls_ok_def log_calls0_def log_state0_def log_text_def lit_def dec_digits.simps MSG_SIZE_def BUFF_SIZE_def)

theorem log_lines_reach_file_witness:
  "log_ready 4096 (\<lambda>n. n) log_state0 \<and> calls_ok log_state0 log_calls0 \<and>
    (\<exists>st'. log_scan_write (\<lambda>n. n) (log_calls log_calls0 log_state0) = Some (Ret st') \<and>
      fl_file (log_flushing st') = lit ''(7)now a.c:12 [ERR]: hi'' @ [10] @ lit ''(7)later b.c:7 [CRIT]: ho'' @ [10])"
proof -
  have "concat (map (\<lambda>i. if lg_pid (log_object log_state0 ! i) = 0 then [] else slot_text log_state0 log_calls0 i)
      [0..<length (log_object log_state0)]) = lit ''(7)now a.c:12 [ERR]: hi'' @ [10] @ lit ''(7)later b.c:7 [CRIT]: ho'' @ [10]"
    by (simp add: slot_text_def CAP_def log_state0_def log_calls0_def logged_def less_eq_LOG_LEVEL_def log_text_def lit_def dec_digits.simps MSG_SIZE_def upt_conv_Cons)
  moreover have "fl_file (log_flushing log_state0) @ fl_page (log_flushing log_state0) = []" by (simp add: log_state0_def)
  ultimately show ?thesis using log_lines_reach_file [OF log_state0_ready log_calls0_ok] log_state0_ready log_calls0_ok by auto
qed



text \<open>C40. A line that is longer than the buffer of an entry: \<open>log_write\<close> stores the length that \<open>snprintf\<close> wanted to write, and the next scan copies
  that many bytes out of the 1016 bytes of the entry, which is undefined behaviour.
\<close>

theorem log_line_too_long:
  assumes "log_ready page_size wr st" and "i < length (log_object st)" and "lg_pid (log_object st ! i) \<noteq> 0"
    and "level \<le> log_level st"
    and "length (log_text (desc_of st (i, level, src, line, now, msg))) > BUFF_SIZE"
  shows "log_scan_write wr (log_out i level src line now msg st) = Some UB"
proof -
  let ?d = "desc_of st (i, level, src, line, now, msg)" and ?log = "log_object st ! i"
  have rep: "logger_rep page_size wr (log_object st ! j) []" if "j < length (log_object st)" "lg_pid (log_object st ! j) \<noteq> 0" for j
    using assms(1) that by (simp add: log_ready_def)
  from log_out_rep [OF rep [OF assms(2,3)], of ?d] obtain r q h where w: "cirbuf_write (lg_queue ?log) (Some ?d) (lg_slots ?log) = (r, q, h)"
    "logger_rep page_size wr (?log\<lparr>lg_queue := q, lg_slots := h\<rparr>) [entry_of ?d]" by (auto simp: CAP_def)
  let ?log' = "?log\<lparr>lg_queue := q, lg_slots := h\<rparr>"
  have run: "log_out i level src line now msg st = st\<lparr>log_object := (log_object st)[i := ?log']\<rparr>" using assms(4) w(1) by (simp add: log_out_def Let_def)
  have "lb_len (entry_of ?d) > BUFF_SIZE" using assms(5) by (simp add: entry_of_def log_write_def)
  from copy_to_cache_UB [OF w(2) this] have UB: "copy_to_cache ?log' f = Some UB" for f .
  have "list_all2 (scannable page_size wr) (take i (log_object st)) (replicate i [])"
    using assms(2) rep by (simp add: list_all2_conv_all_nth scannable_def)
  moreover have "flush_ok page_size wr (log_flushing st)" using assms(1) by (simp add: log_ready_def)
  ultimately have "scan_loop (take i (log_object st) @ ?log' # drop (Suc i) (log_object st)) (log_flushing st) = Some UB"
    using scan_loop_UB UB assms(3) by simp
  then show ?thesis unfolding run using assms(2) by (simp add: log_scan_write_def upd_conv_take_nth_drop)
qed

theorem log_line_too_long_witness:
  "log_scan_write (\<lambda>n. n) (log_out 0 LEVEL_ERR (lit ''a.c'') 12 (lit ''now'') (replicate 1023 65) log_state0) = Some UB"
  by (rule log_line_too_long [OF log_state0_ready])
    (simp_all add: log_state0_def less_eq_LOG_LEVEL_def log_text_def lit_def dec_digits.simps MSG_SIZE_def BUFF_SIZE_def)

end
