(* ===== verification/Http_Request.thy ===== *)
theory Http_Request
  imports Str
begin

text \<open>
  The data of \<open>http/request.h\<close>: the method enumeration with its bit values and \<open>struct
  http_request\<close>, field by field. Bit fields of 16 bits are 16-bit words, so that arithmetic on
  them is truncated as the compiler truncates it; \<open>unsigned\<close> fields are 32-bit words; one-bit
  fields are booleans. \<open>r_state\<close> is the \<open>int\<close> both state machines of \<open>http/parse.c\<close> keep their
  state in between two calls.
\<close>

datatype http_method =
    HTTP_UNKNOWN | HTTP_GET | HTTP_HEAD | HTTP_POST | HTTP_PUT | HTTP_DELETE | HTTP_MKCOL
  | HTTP_COPY | HTTP_MOVE | HTTP_OPTIONS | HTTP_PROPFIND | HTTP_PROPPATCH | HTTP_LOCK
  | HTTP_UNLOCK | HTTP_PATCH | HTTP_TRACE

fun method_value :: "http_method \<Rightarrow> u32" where
  "method_value HTTP_UNKNOWN = 0x0001"
| "method_value HTTP_GET = 0x0002"
| "method_value HTTP_HEAD = 0x0004"
| "method_value HTTP_POST = 0x0008"
| "method_value HTTP_PUT = 0x0010"
| "method_value HTTP_DELETE = 0x0020"
| "method_value HTTP_MKCOL = 0x0040"
| "method_value HTTP_COPY = 0x0080"
| "method_value HTTP_MOVE = 0x0100"
| "method_value HTTP_OPTIONS = 0x0200"
| "method_value HTTP_PROPFIND = 0x0400"
| "method_value HTTP_PROPPATCH = 0x0800"
| "method_value HTTP_LOCK = 0x1000"
| "method_value HTTP_UNLOCK = 0x2000"
| "method_value HTTP_PATCH = 0x4000"
| "method_value HTTP_TRACE = 0x8000"

definition HTTP_VER_10 :: int where "HTTP_VER_10 = 1000"

definition HTTP_LC_HEADER_LEN :: nat where "HTTP_LC_HEADER_LEN = 32"

record http_request =
  r_fd :: int
  r_header :: buffer
  r_state :: int
  r_request_line :: str_t
  r_method_name :: str_t
  r_method :: http_method
  r_schema :: str_t
  r_host :: str_t
  r_port :: str_t
  r_uri :: str_t
  r_args :: ptr
  r_exten :: str_t
  r_http_protocol :: str_t
  r_http_major :: u16
  r_http_minor :: u16
  r_http_version :: int
  r_complex_uri :: bool
  r_quoted_uri :: bool
  r_plus_in_uri :: bool
  r_space_in_uri :: bool
  r_content_len :: int
  r_content :: str_t
  r_header_name :: str_t
  r_header_value :: str_t
  r_invalid_header :: bool
  r_header_hash :: u32
  r_lowcase_index :: u32
  r_lowcase_header :: "u8 list"

text \<open>\<open>sizeof(struct http_request)\<close> on the supported 64-bit ABIs: the receive buffer starts this
  many bytes after the structure.\<close>

definition sizeof_http_request :: nat where "sizeof_http_request = 304"

text \<open>Assigning one member of a counted string, as \<open>r->uri.p = p\<close> does.\<close>

definition set_p :: "ptr \<Rightarrow> str_t \<Rightarrow> str_t" where
  "set_p p s = s\<lparr>str_p := p\<rparr>"

definition set_len :: "size_t \<Rightarrow> str_t \<Rightarrow> str_t" where
  "set_len n s = s\<lparr>str_len := n\<rparr>"

lemma set_p_sel [simp]: "str_p (set_p p s) = p" "str_len (set_p p s) = str_len s"
  by (simp_all add: set_p_def)

lemma set_len_sel [simp]: "str_p (set_len n s) = str_p s" "str_len (set_len n s) = n"
  by (simp_all add: set_len_def)

lemma set_len_set_p: "set_len n (set_p p s) = \<lparr>str_p = p, str_len = n\<rparr>"
  by (simp add: set_len_def set_p_def)

lemma method_value_unknown [simp]:
  "(1 AND method_value m = 0) = (m \<noteq> HTTP_UNKNOWN)"
  by (cases m) simp_all

text \<open>A request whose fields are all zero, and a buffer that holds given bytes at address 1000: the
  concrete inputs of the witnesses.\<close>

definition zero_request :: http_request where
  "zero_request = \<lparr>r_fd = 0, r_header = bind_buffer 0 0, r_state = 0, r_request_line = str_init,
     r_method_name = str_init, r_method = HTTP_UNKNOWN, r_schema = str_init, r_host = str_init,
     r_port = str_init, r_uri = str_init, r_args = 0, r_exten = str_init,
     r_http_protocol = str_init, r_http_major = 0, r_http_minor = 0, r_http_version = 0,
     r_complex_uri = False, r_quoted_uri = False, r_plus_in_uri = False, r_space_in_uri = False,
     r_content_len = 0, r_content = str_init, r_header_name = str_init, r_header_value = str_init,
     r_invalid_header = False, r_header_hash = 0, r_lowcase_index = 0,
     r_lowcase_header = replicate 32 0\<rparr>"

definition test_mem :: "u8 list \<Rightarrow> mem" where
  "test_mem bs = mem_write (\<lambda>_. 0) 1000 bs"

definition test_buffer :: "nat \<Rightarrow> buffer" where
  "test_buffer n = \<lparr>b_start = 1000, b_end = 3000, b_pos = 1000, b_last = 1000 + n\<rparr>"

lemma test_buffer_wf [simp]: "n \<le> 2000 \<Longrightarrow> buffer_wf (test_buffer n)"
  by (simp add: buffer_wf_def test_buffer_def)

lemma pending_test [simp]: "n = length bs \<Longrightarrow> pending (test_mem bs) (test_buffer n) = bs"
  by (simp add: pending_def test_mem_def test_buffer_def)

lemma test_buffer_sel [simp]:
  "b_pos (test_buffer n) = 1000" "b_last (test_buffer n) = 1000 + n" "b_end (test_buffer n) = 3000"
  "b_start (test_buffer n) = 1000"
  by (simp_all add: test_buffer_def)

end
