(* ===== verification/Parse_Line.thy ===== *)
theory Parse_Line
  imports Http_Request
begin

text \<open>
  The request-line state machine of \<open>http/parse.c\<close>: \<open>get_request_method\<close> and
  \<open>http_parse_request_line\<close>. Every \<open>case\<close> label of the \<open>switch\<close> is one definition, in the order of
  the source; \<open>rl_switch\<close> is the \<open>switch\<close>, \<open>rl_done\<close> the code at the label \<open>done\<close>.

  Two cases re-read the current byte in another state (\<open>p--\<close> before \<open>break\<close>, so that the \<open>p++\<close> of
  the loop comes back to it). Since the byte is there, the loop condition holds again and the new
  state's case runs on the same byte: the model calls that case directly. The \<open>fallthrough\<close>s are
  calls too.
\<close>

datatype http_request_line_status =
    S_start | S_method | S_spaces_before_uri | S_schema | S_schema_slash | S_schema_slash_slash
  | S_host_start | S_host | S_host_end | S_host_ip_literal | S_port | S_host_http_09
  | S_after_slash_in_uri | S_check_uri | S_check_uri_http_09 | S_uri | S_http_09 | S_http_H
  | S_http_HT | S_http_HTT | S_http_HTTP | S_first_major_digit | S_major_digit
  | S_first_minor_digit | S_minor_digit | S_spaces_after_digit | S_almost_done

text \<open>The enumerators in the order of the source, hence with the values 0, 1, 2, \<dots>.\<close>

definition rl_states :: "http_request_line_status list" where
  "rl_states =
    [S_start, S_method, S_spaces_before_uri, S_schema, S_schema_slash, S_schema_slash_slash,
     S_host_start, S_host, S_host_end, S_host_ip_literal, S_port, S_host_http_09,
     S_after_slash_in_uri, S_check_uri, S_check_uri_http_09, S_uri, S_http_09, S_http_H,
     S_http_HT, S_http_HTT, S_http_HTTP, S_first_major_digit, S_major_digit,
     S_first_minor_digit, S_minor_digit, S_spaces_after_digit, S_almost_done]"

fun index_of :: "'a \<Rightarrow> 'a list \<Rightarrow> nat" where
  "index_of x [] = 0"
| "index_of x (y # ys) = (if x = y then 0 else Suc (index_of x ys))"

definition rl_code :: "http_request_line_status \<Rightarrow> int" where
  "rl_code st = int (index_of st rl_states)"

definition rl_decode :: "int \<Rightarrow> http_request_line_status option" where
  "rl_decode i = (if 0 \<le> i \<and> i < int (length rl_states) then Some (rl_states ! nat i) else None)"

subsection \<open>The character table\<close>

definition usual :: "u32 list" where
  "usual = [0xffffdbfe, 0x7fff37d6, 0xffffffff, 0xffffffff,
            0xffffffff, 0xffffffff, 0xffffffff, 0xffffffff]"

text \<open>\<open>usual[ch >> 5] & (1 << (ch & 0x1f))\<close>\<close>

definition is_usual :: "u8 \<Rightarrow> bool" where
  "is_usual ch = bit (usual ! unat (drop_bit 5 ch)) (unat (ch AND 0x1f))"

subsection \<open>The request method\<close>

text \<open>The macros \<open>CMP3\<close> to \<open>CMP9\<close> compare the bytes from \<open>p\<close> on with the given characters;
  \<open>CMP30\<close> leaves out index 1.\<close>

definition CMP :: "mem \<Rightarrow> ptr \<Rightarrow> string \<Rightarrow> bool" where
  "CMP m p s = (bytes_at m p (length s) = lit s)"

definition CMP30 :: "mem \<Rightarrow> ptr \<Rightarrow> string \<Rightarrow> bool" where
  "CMP30 m p s = (m p = c8 (s ! 0) \<and> m (p + 2) = c8 (s ! 2) \<and> m (p + 3) = c8 (s ! 3))"

definition get_request_method :: "mem \<Rightarrow> str_t \<Rightarrow> http_method" where
  "get_request_method m method_name =
    (let p = str_p method_name; n = str_len method_name in
     if n = 3 then
       (if CMP m p ''GET'' then HTTP_GET
        else if CMP m p ''PUT'' then HTTP_PUT
        else HTTP_UNKNOWN)
     else if n = 4 then
       (if m (p + 1) = c8 CHR ''O'' then
          (if CMP30 m p ''POST'' then HTTP_POST
           else if CMP30 m p ''COPY'' then HTTP_COPY
           else if CMP30 m p ''MOVE'' then HTTP_MOVE
           else if CMP30 m p ''LOCK'' then HTTP_LOCK
           else HTTP_UNKNOWN)
        else if CMP m p ''HEAD'' then HTTP_HEAD
        else HTTP_UNKNOWN)
     else if n = 5 then
       (if CMP m p ''MKCOL'' then HTTP_MKCOL
        else if CMP m p ''PATCH'' then HTTP_PATCH
        else if CMP m p ''TRACE'' then HTTP_TRACE
        else HTTP_UNKNOWN)
     else if n = 6 then
       (if CMP m p ''DELETE'' then HTTP_DELETE
        else if CMP m p ''UNLOCK'' then HTTP_UNLOCK
        else HTTP_UNKNOWN)
     else if n = 7 then (if CMP m p ''OPTIONS'' then HTTP_OPTIONS else HTTP_UNKNOWN)
     else if n = 8 then (if CMP m p ''PROPFIND'' then HTTP_PROPFIND else HTTP_UNKNOWN)
     else if n = 9 then (if CMP m p ''PROPPATCH'' then HTTP_PROPPATCH else HTTP_UNKNOWN)
     else HTTP_UNKNOWN)"

subsection \<open>The cases of the switch\<close>

type_synonym rl_out =
  "(http_request_line_status \<times> http_request, int \<times> http_request + ptr \<times> http_request) step"

text \<open>\<open>break\<close> with the next state, \<open>return\<close> of an error code, \<open>goto done\<close> at the current byte.\<close>

abbreviation Next :: "http_request_line_status \<Rightarrow> http_request \<Rightarrow> rl_out" where
  "Next st r \<equiv> Cont (st, r)"
abbreviation Fail :: "int \<Rightarrow> http_request \<Rightarrow> rl_out" where
  "Fail e r \<equiv> Stop (Inl (e, r))"
abbreviation Goto_done :: "ptr \<Rightarrow> http_request \<Rightarrow> rl_out" where
  "Goto_done p r \<equiv> Stop (Inr (p, r))"

definition is_upper_or_underscore :: "u8 \<Rightarrow> bool" where
  "is_upper_or_underscore ch = (\<not> ((ch < ch_A \<or> ch > ch_Z) \<and> ch \<noteq> ch_underscore))"

text \<open>\<open>c = ch | 0x20; c >= 'a' && c <= 'z'\<close>\<close>

definition is_alpha :: "u8 \<Rightarrow> bool" where
  "is_alpha ch = (let c = ch OR 0x20 in ch_a \<le> c \<and> c \<le> ch_z)"

definition rl_start :: "ptr \<Rightarrow> u8 \<Rightarrow> http_request \<Rightarrow> rl_out" where
  "rl_start p ch r0 =
    (let r = r0\<lparr>r_request_line := set_p p (r_request_line r0)\<rparr> in
     if ch = CR \<or> ch = LF then Next S_start r
     else if \<not> is_upper_or_underscore ch then Fail (-1) r
     else Next S_method (r\<lparr>r_method_name := set_p p (r_method_name r)\<rparr>))"

definition rl_method :: "mem \<Rightarrow> ptr \<Rightarrow> u8 \<Rightarrow> http_request \<Rightarrow> rl_out" where
  "rl_method m p ch r =
    (if ch = ch_space then
       (let r = r\<lparr>r_method_name := set_len (ptr_diff p (str_p (r_method_name r))) (r_method_name r)\<rparr>;
            r = r\<lparr>r_method := get_request_method m (r_method_name r)\<rparr>
        in if method_value HTTP_UNKNOWN AND method_value (r_method r) \<noteq> 0 then Fail (-2) r
           else Next S_spaces_before_uri r)
     else if \<not> is_upper_or_underscore ch then Fail (-3) r
     else Next S_method r)"

definition rl_spaces_before_uri :: "ptr \<Rightarrow> u8 \<Rightarrow> http_request \<Rightarrow> rl_out" where
  "rl_spaces_before_uri p ch r =
    (if ch = ch_slash then
       Next S_after_slash_in_uri
         (r\<lparr>r_uri := set_p p (r_uri r), r_schema := str_init, r_host := str_init, r_port := str_init\<rparr>)
     else if is_alpha ch then Next S_schema (r\<lparr>r_schema := set_p p (r_schema r)\<rparr>)
     else if ch = ch_space then Next S_spaces_before_uri r
     else Fail (-4) r)"

definition rl_schema :: "ptr \<Rightarrow> u8 \<Rightarrow> http_request \<Rightarrow> rl_out" where
  "rl_schema p ch r =
    (if is_alpha ch then Next S_schema r
     else if ch = ch_colon then
       Next S_schema_slash (r\<lparr>r_schema := set_len (ptr_diff p (str_p (r_schema r))) (r_schema r)\<rparr>)
     else Fail (-5) r)"

definition rl_schema_slash :: "u8 \<Rightarrow> http_request \<Rightarrow> rl_out" where
  "rl_schema_slash ch r = (if ch = ch_slash then Next S_schema_slash_slash r else Fail (-6) r)"

definition rl_schema_slash_slash :: "u8 \<Rightarrow> http_request \<Rightarrow> rl_out" where
  "rl_schema_slash_slash ch r = (if ch = ch_slash then Next S_host_start r else Fail (-7) r)"

text \<open>The empty path of \<open>http://host\<close> is taken from the first slash after the schema.\<close>

definition uri_after_schema :: "http_request \<Rightarrow> str_t" where
  "uri_after_schema r = \<lparr>str_p = str_p (r_schema r) + str_len (r_schema r) + 1, str_len = 1\<rparr>"

definition rl_host_end :: "ptr \<Rightarrow> u8 \<Rightarrow> http_request \<Rightarrow> rl_out" where
  "rl_host_end p ch r0 =
    (let r = r0\<lparr>r_host := set_len (ptr_diff p (str_p (r_host r0))) (r_host r0)\<rparr> in
     if ch = ch_colon then Next S_port (r\<lparr>r_port := set_p (p + 1) (r_port r)\<rparr>)
     else if ch = ch_slash then
       Next S_after_slash_in_uri (r\<lparr>r_port := str_init, r_uri := set_p p (r_uri r)\<rparr>)
     else if ch = ch_space then
       Next S_host_http_09 (r\<lparr>r_port := str_init, r_uri := uri_after_schema r\<rparr>)
     else Fail (-8) r)"

definition rl_host :: "ptr \<Rightarrow> u8 \<Rightarrow> http_request \<Rightarrow> rl_out" where
  "rl_host p ch r =
    (if is_alpha ch then Next S_host r
     else if is_digit ch \<or> ch = ch_dot \<or> ch = ch_dash then Next S_host r
     else rl_host_end p ch r)"

definition rl_host_start :: "ptr \<Rightarrow> u8 \<Rightarrow> http_request \<Rightarrow> rl_out" where
  "rl_host_start p ch r0 =
    (let r = r0\<lparr>r_host := set_p p (r_host r0)\<rparr> in
     if ch = ch_lbracket then Next S_host_ip_literal r else rl_host p ch r)"

text \<open>\<open>- . _ ~\<close> and the sub-delimiters \<open>! $ & ' ( ) * + , ; =\<close> of an IP literal.\<close>

definition ip_literal_chars :: "u8 list" where
  "ip_literal_chars = [45, 46, 95, 126, 33, 36, 38, 39, 40, 41, 42, 43, 44, 59, 61]"

definition rl_host_ip_literal :: "u8 \<Rightarrow> http_request \<Rightarrow> rl_out" where
  "rl_host_ip_literal ch r =
    (if is_digit ch \<or> is_alpha ch \<or> ch = ch_colon then Next S_host_ip_literal r
     else if ch = ch_rbracket then Next S_host_end r
     else if ch \<in> set ip_literal_chars then Next S_host_ip_literal r
     else Fail (-9) r)"

definition rl_port :: "ptr \<Rightarrow> u8 \<Rightarrow> http_request \<Rightarrow> rl_out" where
  "rl_port p ch r0 =
    (if is_digit ch then Next S_port r0
     else
       (let r = r0\<lparr>r_port := set_len (ptr_diff p (str_p (r_port r0))) (r_port r0)\<rparr> in
        if ch = ch_slash then Next S_after_slash_in_uri (r\<lparr>r_uri := set_p p (r_uri r)\<rparr>)
        else if ch = ch_space then Next S_host_http_09 (r\<lparr>r_uri := uri_after_schema r\<rparr>)
        else Fail (-10) r))"

text \<open>\<open>r->request_line.len = p - r->request_line.p\<close>, \<open>r->uri.len = p - r->uri.p\<close>,
  \<open>r->http_protocol.len = p - r->http_protocol.p\<close>\<close>

definition end_request_line :: "ptr \<Rightarrow> http_request \<Rightarrow> http_request" where
  "end_request_line p r =
     r\<lparr>r_request_line := set_len (ptr_diff p (str_p (r_request_line r))) (r_request_line r)\<rparr>"

definition end_uri :: "ptr \<Rightarrow> http_request \<Rightarrow> http_request" where
  "end_uri p r = r\<lparr>r_uri := set_len (ptr_diff p (str_p (r_uri r))) (r_uri r)\<rparr>"

definition end_protocol :: "ptr \<Rightarrow> http_request \<Rightarrow> http_request" where
  "end_protocol p r =
     r\<lparr>r_http_protocol := set_len (ptr_diff p (str_p (r_http_protocol r))) (r_http_protocol r)\<rparr>"

definition rl_host_http_09 :: "ptr \<Rightarrow> u8 \<Rightarrow> http_request \<Rightarrow> rl_out" where
  "rl_host_http_09 p ch r =
    (if ch = ch_space then Next S_host_http_09 r
     else if ch = CR then Next S_almost_done (r\<lparr>r_http_minor := 9\<rparr>)
     else if ch = LF then Goto_done p (end_request_line p (r\<lparr>r_http_minor := 9\<rparr>))
     else if ch = ch_H then Next S_http_H (r\<lparr>r_http_protocol := set_p p (r_http_protocol r)\<rparr>)
     else Fail (-11) r)"

definition rl_after_slash_in_uri :: "ptr \<Rightarrow> u8 \<Rightarrow> http_request \<Rightarrow> rl_out" where
  "rl_after_slash_in_uri p ch r =
    (if is_usual ch then Next S_check_uri r
     else if ch = ch_space then Next S_check_uri_http_09 (end_uri p r)
     else if ch = CR then Next S_almost_done ((end_uri p r)\<lparr>r_http_minor := 9\<rparr>)
     else if ch = LF then Goto_done p (end_request_line p ((end_uri p r)\<lparr>r_http_minor := 9\<rparr>))
     else if ch = ch_dot then Next S_uri (r\<lparr>r_complex_uri := True\<rparr>)
     else if ch = ch_percent then Next S_uri (r\<lparr>r_quoted_uri := True\<rparr>)
     else if ch = ch_slash then Next S_uri (r\<lparr>r_complex_uri := True\<rparr>)
     else if ch = ch_question then Next S_uri (r\<lparr>r_args := p + 1\<rparr>)
     else if ch = ch_hash then Next S_uri (r\<lparr>r_complex_uri := True\<rparr>)
     else if ch = ch_plus then Next S_after_slash_in_uri (r\<lparr>r_plus_in_uri := True\<rparr>)
     else if ch = 0 then Fail (-12) r
     else Next S_check_uri r)"

definition rl_check_uri :: "ptr \<Rightarrow> u8 \<Rightarrow> http_request \<Rightarrow> rl_out" where
  "rl_check_uri p ch r =
    (if is_usual ch then Next S_check_uri r
     else if ch = ch_slash then Next S_after_slash_in_uri (r\<lparr>r_exten := str_init\<rparr>)
     else if ch = ch_dot then Next S_check_uri (r\<lparr>r_exten := set_p (p + 1) (r_exten r)\<rparr>)
     else if ch = ch_space then Next S_check_uri_http_09 (end_uri p r)
     else if ch = CR then Next S_almost_done ((end_uri p r)\<lparr>r_http_minor := 9\<rparr>)
     else if ch = LF then Goto_done p (end_request_line p ((end_uri p r)\<lparr>r_http_minor := 9\<rparr>))
     else if ch = ch_percent then Next S_uri (r\<lparr>r_quoted_uri := True\<rparr>)
     else if ch = ch_question then Next S_uri (r\<lparr>r_args := p + 1\<rparr>)
     else if ch = ch_hash then Next S_uri (r\<lparr>r_complex_uri := True\<rparr>)
     else if ch = ch_plus then Next S_check_uri (r\<lparr>r_plus_in_uri := True\<rparr>)
     else if ch = 0 then Fail (-13) r
     else Next S_check_uri r)"

definition rl_check_uri_http_09 :: "ptr \<Rightarrow> u8 \<Rightarrow> http_request \<Rightarrow> rl_out" where
  "rl_check_uri_http_09 p ch r =
    (if ch = ch_space then Next S_check_uri_http_09 r
     else if ch = CR then Next S_almost_done (r\<lparr>r_http_minor := 9\<rparr>)
     else if ch = LF then Goto_done p (end_request_line p (r\<lparr>r_http_minor := 9\<rparr>))
     else if ch = ch_H then Next S_http_H (r\<lparr>r_http_protocol := set_p p (r_http_protocol r)\<rparr>)
     else rl_check_uri p ch (r\<lparr>r_space_in_uri := True\<rparr>))"

definition rl_uri :: "ptr \<Rightarrow> u8 \<Rightarrow> http_request \<Rightarrow> rl_out" where
  "rl_uri p ch r =
    (if is_usual ch then Next S_uri r
     else if ch = ch_space then Next S_http_09 (end_uri p r)
     else if ch = CR then Next S_almost_done ((end_uri p r)\<lparr>r_http_minor := 9\<rparr>)
     else if ch = LF then Goto_done p (end_request_line p ((end_uri p r)\<lparr>r_http_minor := 9\<rparr>))
     else if ch = ch_hash then Next S_uri (r\<lparr>r_complex_uri := True\<rparr>)
     else if ch = 0 then Fail (-14) r
     else Next S_uri r)"

definition rl_http_09 :: "ptr \<Rightarrow> u8 \<Rightarrow> http_request \<Rightarrow> rl_out" where
  "rl_http_09 p ch r =
    (if ch = ch_space then Next S_http_09 r
     else if ch = CR then Next S_almost_done (r\<lparr>r_http_minor := 9\<rparr>)
     else if ch = LF then Goto_done p (end_request_line p (r\<lparr>r_http_minor := 9\<rparr>))
     else if ch = ch_H then Next S_http_H (r\<lparr>r_http_protocol := set_p p (r_http_protocol r)\<rparr>)
     else rl_uri p ch (r\<lparr>r_space_in_uri := True\<rparr>))"

text \<open>The letters of \<open>HTTP/\<close> after the \<open>H\<close>.\<close>

definition rl_http_letters :: "http_request_line_status \<Rightarrow> u8 \<Rightarrow> http_request \<Rightarrow> rl_out" where
  "rl_http_letters st ch r =
    (case st of
       S_http_H \<Rightarrow> (if ch = ch_T then Next S_http_HT r else Fail (-15) r)
     | S_http_HT \<Rightarrow> (if ch = ch_T then Next S_http_HTT r else Fail (-16) r)
     | S_http_HTT \<Rightarrow> (if ch = ch_P then Next S_http_HTTP r else Fail (-17) r)
     | _ \<Rightarrow> (if ch = ch_slash then Next S_first_major_digit r else Fail (-18) r))"

definition rl_first_major_digit :: "u8 \<Rightarrow> http_request \<Rightarrow> rl_out" where
  "rl_first_major_digit ch r =
    (if ch < ch_1 \<or> ch > ch_9 then Fail (-19) r
     else Next S_major_digit (r\<lparr>r_http_major := ucast ch - 48\<rparr>))"

definition rl_major_digit :: "u8 \<Rightarrow> http_request \<Rightarrow> rl_out" where
  "rl_major_digit ch r =
    (if ch = ch_dot then Next S_first_minor_digit r
     else if \<not> is_digit ch then Fail (-20) r
     else Next S_major_digit (r\<lparr>r_http_major := r_http_major r * 10 + ucast ch - 48\<rparr>))"

definition rl_first_minor_digit :: "u8 \<Rightarrow> http_request \<Rightarrow> rl_out" where
  "rl_first_minor_digit ch r =
    (if \<not> is_digit ch then Fail (-21) r
     else Next S_minor_digit (r\<lparr>r_http_minor := ucast ch - 48\<rparr>))"

definition rl_minor_digit :: "ptr \<Rightarrow> u8 \<Rightarrow> http_request \<Rightarrow> rl_out" where
  "rl_minor_digit p ch r =
    (if ch = CR then Next S_almost_done (end_protocol p r)
     else if ch = LF then Goto_done p (end_protocol p (end_request_line p r))
     else if ch = ch_space then Next S_spaces_after_digit (end_protocol p r)
     else if \<not> is_digit ch then Fail (-22) r
     else Next S_minor_digit (r\<lparr>r_http_minor := r_http_minor r * 10 + ucast ch - 48\<rparr>))"

definition rl_spaces_after_digit :: "ptr \<Rightarrow> u8 \<Rightarrow> http_request \<Rightarrow> rl_out" where
  "rl_spaces_after_digit p ch r =
    (if ch = ch_space then Next S_spaces_after_digit r
     else if ch = CR then Next S_almost_done r
     else if ch = LF then Goto_done p (end_request_line p r)
     else Fail (-23) r)"

text \<open>\<open>r->request_line.len = p - r->request_line.p - 1\<close>: one byte less, for the CR.\<close>

definition rl_almost_done :: "ptr \<Rightarrow> u8 \<Rightarrow> http_request \<Rightarrow> rl_out" where
  "rl_almost_done p ch r0 =
    (let r = r0\<lparr>r_request_line :=
        set_len (ptr_diff p (str_p (r_request_line r0) + 1)) (r_request_line r0)\<rparr> in
     if ch = LF then Goto_done p r else Fail (-24) r)"

definition rl_switch ::
  "mem \<Rightarrow> ptr \<Rightarrow> u8 \<Rightarrow> http_request_line_status \<times> http_request \<Rightarrow> rl_out" where
  "rl_switch m p ch s =
    (case s of (st, r) \<Rightarrow>
      (case st of
         S_start \<Rightarrow> rl_start p ch r
       | S_method \<Rightarrow> rl_method m p ch r
       | S_spaces_before_uri \<Rightarrow> rl_spaces_before_uri p ch r
       | S_schema \<Rightarrow> rl_schema p ch r
       | S_schema_slash \<Rightarrow> rl_schema_slash ch r
       | S_schema_slash_slash \<Rightarrow> rl_schema_slash_slash ch r
       | S_host_start \<Rightarrow> rl_host_start p ch r
       | S_host \<Rightarrow> rl_host p ch r
       | S_host_end \<Rightarrow> rl_host_end p ch r
       | S_host_ip_literal \<Rightarrow> rl_host_ip_literal ch r
       | S_port \<Rightarrow> rl_port p ch r
       | S_host_http_09 \<Rightarrow> rl_host_http_09 p ch r
       | S_after_slash_in_uri \<Rightarrow> rl_after_slash_in_uri p ch r
       | S_check_uri \<Rightarrow> rl_check_uri p ch r
       | S_check_uri_http_09 \<Rightarrow> rl_check_uri_http_09 p ch r
       | S_uri \<Rightarrow> rl_uri p ch r
       | S_http_09 \<Rightarrow> rl_http_09 p ch r
       | S_http_H \<Rightarrow> rl_http_letters st ch r
       | S_http_HT \<Rightarrow> rl_http_letters st ch r
       | S_http_HTT \<Rightarrow> rl_http_letters st ch r
       | S_http_HTTP \<Rightarrow> rl_http_letters st ch r
       | S_first_major_digit \<Rightarrow> rl_first_major_digit ch r
       | S_major_digit \<Rightarrow> rl_major_digit ch r
       | S_first_minor_digit \<Rightarrow> rl_first_minor_digit ch r
       | S_minor_digit \<Rightarrow> rl_minor_digit p ch r
       | S_spaces_after_digit \<Rightarrow> rl_spaces_after_digit p ch r
       | S_almost_done \<Rightarrow> rl_almost_done p ch r))"

subsection \<open>The parser\<close>

definition rl_done :: "ptr \<Rightarrow> http_request \<Rightarrow> buffer \<Rightarrow> int \<times> http_request \<times> buffer" where
  "rl_done p r0 b =
    (let r1 = (if str_p (r_exten r0) \<noteq> 0
               then r0\<lparr>r_exten :=
                 set_len (ptr_diff (str_p (r_uri r0) + str_len (r_uri r0)) (str_p (r_exten r0)))
                   (r_exten r0)\<rparr>
               else r0);
         r2 = (if r_http_minor r1 = 9 then r1\<lparr>r_http_major := 0\<rparr> else r1);
         r3 = r2\<lparr>r_http_version := uint (r_http_major r2) * 1000 + uint (r_http_minor r2),
                 r_state := rl_code S_start\<rparr>;
         ret = (if r_http_version r3 = 9 \<and> r_method r3 \<noteq> HTTP_GET then -25 else 0)
     in (ret, r3, b\<lparr>b_pos := p + 1\<rparr>))"

text \<open>A value of \<open>state\<close> that is no enumerator matches no \<open>case\<close>: the loop runs over the bytes
  without doing anything.\<close>

definition http_parse_request_line ::
  "mem \<Rightarrow> http_request \<Rightarrow> buffer \<Rightarrow> int \<times> http_request \<times> buffer" where
  "http_parse_request_line m r b =
    (case rl_decode (r_state r) of
       None \<Rightarrow> (1, r, b\<lparr>b_pos := b_last b\<rparr>)
     | Some st \<Rightarrow>
         (case scan (rl_switch m) (b_pos b) (pending m b) (st, r) of
            Cont (st', r') \<Rightarrow> (1, r'\<lparr>r_state := rl_code st'\<rparr>, b\<lparr>b_pos := b_last b\<rparr>)
          | Stop (Inl (e, r')) \<Rightarrow> (e, r', b)
          | Stop (Inr (p, r')) \<Rightarrow> rl_done p r' b))"

end
