(* ===== verification/Parse_Line_Correct.thy ===== *)
theory Parse_Line_Correct
  imports Parse_Line
begin

text \<open>
  Correctness of the request-line parser: the method table, the character table, the memory-safety
  invariant of the state machine, resumption after an incomplete line, and the functional
  behaviour on well-formed request lines.
\<close>

lemmas rl_defs =
  rl_start_def rl_method_def rl_spaces_before_uri_def rl_schema_def rl_schema_slash_def
  rl_schema_slash_slash_def rl_host_start_def rl_host_def rl_host_end_def rl_host_ip_literal_def
  rl_port_def rl_host_http_09_def rl_after_slash_in_uri_def rl_check_uri_def
  rl_check_uri_http_09_def rl_uri_def rl_http_09_def rl_http_letters_def
  rl_first_major_digit_def rl_major_digit_def rl_first_minor_digit_def rl_minor_digit_def
  rl_spaces_after_digit_def rl_almost_done_def

lemmas rl_end_defs = end_request_line_def end_uri_def end_protocol_def uri_after_schema_def

subsection \<open>Definitions: the invariant of the state machine\<close>

text \<open>\<open>[lo, p)\<close> are the bytes read so far. A slice is open while only its start is known.\<close>

definition line_open :: "ptr \<Rightarrow> ptr \<Rightarrow> http_request \<Rightarrow> bool" where
  "line_open lo p r \<longleftrightarrow> lo \<le> str_p (r_request_line r) \<and> str_p (r_request_line r) < p"

definition before_uri :: "http_request \<Rightarrow> bool" where
  "before_uri r \<longleftrightarrow> r_exten r = str_init \<and> r_http_protocol r = str_init \<and> r_args r = 0"

definition method_read :: "ptr \<Rightarrow> ptr \<Rightarrow> http_request \<Rightarrow> bool" where
  "method_read lo p r \<longleftrightarrow> line_open lo p r \<and> str_in lo p (r_method_name r)"

definition schema_read :: "nat \<Rightarrow> ptr \<Rightarrow> ptr \<Rightarrow> http_request \<Rightarrow> bool" where
  "schema_read k lo p r \<longleftrightarrow> method_read lo p r \<and> before_uri r \<and> lo \<le> str_p (r_schema r) \<and>
     str_p (r_schema r) + str_len (r_schema r) + k \<le> p"

definition target_read :: "ptr \<Rightarrow> ptr \<Rightarrow> http_request \<Rightarrow> bool" where
  "target_read lo p r \<longleftrightarrow> method_read lo p r \<and> str_opt_in lo p (r_schema r) \<and>
     str_opt_in lo p (r_host r) \<and> str_opt_in lo p (r_port r) \<and>
     (r_args r = 0 \<or> lo \<le> r_args r \<and> r_args r \<le> p)"

definition uri_open :: "ptr \<Rightarrow> ptr \<Rightarrow> http_request \<Rightarrow> bool" where
  "uri_open lo p r \<longleftrightarrow> target_read lo p r \<and> r_http_protocol r = str_init \<and>
     lo \<le> str_p (r_uri r) \<and> str_p (r_uri r) < p \<and>
     (r_exten r = str_init \<or> str_p (r_uri r) < str_p (r_exten r) \<and> str_p (r_exten r) \<le> p)"

definition uri_closed :: "ptr \<Rightarrow> ptr \<Rightarrow> http_request \<Rightarrow> bool" where
  "uri_closed lo p r \<longleftrightarrow> target_read lo p r \<and> str_in lo p (r_uri r) \<and>
     (r_exten r = str_init \<or> str_p (r_uri r) < str_p (r_exten r) \<and>
        str_p (r_exten r) \<le> str_p (r_uri r) + str_len (r_uri r))"

definition proto_open :: "ptr \<Rightarrow> ptr \<Rightarrow> http_request \<Rightarrow> bool" where
  "proto_open lo p r \<longleftrightarrow> uri_closed lo p r \<and>
     lo \<le> str_p (r_http_protocol r) \<and> str_p (r_http_protocol r) < p"

definition proto_closed :: "ptr \<Rightarrow> ptr \<Rightarrow> http_request \<Rightarrow> bool" where
  "proto_closed lo p r \<longleftrightarrow> uri_closed lo p r \<and> str_opt_in lo p (r_http_protocol r)"

fun rl_inv :: "ptr \<Rightarrow> ptr \<Rightarrow> http_request_line_status \<times> http_request \<Rightarrow> bool" where
  "rl_inv lo p (st, r) \<longleftrightarrow> lo \<le> p \<and>
    (case st of
       S_start \<Rightarrow> before_uri r
     | S_method \<Rightarrow> before_uri r \<and> line_open lo p r \<and>
         lo \<le> str_p (r_method_name r) \<and> str_p (r_method_name r) < p
     | S_spaces_before_uri \<Rightarrow> before_uri r \<and> method_read lo p r
     | S_schema \<Rightarrow> before_uri r \<and> method_read lo p r \<and>
         lo \<le> str_p (r_schema r) \<and> str_p (r_schema r) < p
     | S_schema_slash \<Rightarrow> schema_read 1 lo p r
     | S_schema_slash_slash \<Rightarrow> schema_read 2 lo p r
     | S_host_start \<Rightarrow> schema_read 3 lo p r
     | S_host \<Rightarrow> schema_read 3 lo p r \<and> lo \<le> str_p (r_host r) \<and> str_p (r_host r) \<le> p
     | S_host_end \<Rightarrow> schema_read 3 lo p r \<and> lo \<le> str_p (r_host r) \<and> str_p (r_host r) \<le> p
     | S_host_ip_literal \<Rightarrow> schema_read 3 lo p r \<and> lo \<le> str_p (r_host r) \<and> str_p (r_host r) \<le> p
     | S_port \<Rightarrow> schema_read 3 lo p r \<and> str_in lo p (r_host r) \<and>
         lo \<le> str_p (r_port r) \<and> str_p (r_port r) \<le> p
     | S_host_http_09 \<Rightarrow> uri_closed lo p r \<and> r_http_protocol r = str_init
     | S_after_slash_in_uri \<Rightarrow> uri_open lo p r
     | S_check_uri \<Rightarrow> uri_open lo p r
     | S_check_uri_http_09 \<Rightarrow> uri_open lo p r \<and> uri_closed lo p r
     | S_uri \<Rightarrow> uri_open lo p r
     | S_http_09 \<Rightarrow> uri_open lo p r \<and> uri_closed lo p r
     | S_spaces_after_digit \<Rightarrow> proto_closed lo p r
     | S_almost_done \<Rightarrow> proto_closed lo p r
     | _ \<Rightarrow> proto_open lo p r)"

text \<open>What a caller may rely on when a request line has been parsed: every slice of the request
  lies inside the bytes read.\<close>

definition line_slices_ok :: "ptr \<Rightarrow> ptr \<Rightarrow> http_request \<Rightarrow> bool" where
  "line_slices_ok lo hi r \<longleftrightarrow>
     str_in lo hi (r_request_line r) \<and> str_in lo hi (r_method_name r) \<and> str_in lo hi (r_uri r) \<and>
     str_opt_in lo hi (r_schema r) \<and> str_opt_in lo hi (r_host r) \<and> str_opt_in lo hi (r_port r) \<and>
     str_opt_in lo hi (r_exten r) \<and> str_opt_in lo hi (r_http_protocol r) \<and>
     (r_args r = 0 \<or> lo \<le> r_args r \<and> r_args r \<le> hi)"

text \<open>Reference tables: the bytes that need attention inside a URI, and the method names.\<close>

definition unusual :: "u8 list" where
  "unusual = [0, LF, CR, ch_space, ch_hash, ch_percent, ch_plus, ch_dot, ch_slash, ch_question]"

definition method_names :: "(u8 list \<times> http_method) list" where
  "method_names =
     [(lit ''GET'', HTTP_GET), (lit ''PUT'', HTTP_PUT), (lit ''POST'', HTTP_POST),
      (lit ''COPY'', HTTP_COPY), (lit ''MOVE'', HTTP_MOVE), (lit ''LOCK'', HTTP_LOCK),
      (lit ''HEAD'', HTTP_HEAD), (lit ''MKCOL'', HTTP_MKCOL), (lit ''PATCH'', HTTP_PATCH),
      (lit ''TRACE'', HTTP_TRACE), (lit ''DELETE'', HTTP_DELETE), (lit ''UNLOCK'', HTTP_UNLOCK),
      (lit ''OPTIONS'', HTTP_OPTIONS), (lit ''PROPFIND'', HTTP_PROPFIND),
      (lit ''PROPPATCH'', HTTP_PROPPATCH)]"

definition method_of_name :: "u8 list \<Rightarrow> http_method" where
  "method_of_name bs = (case map_of method_names bs of None \<Rightarrow> HTTP_UNKNOWN | Some x \<Rightarrow> x)"

lemmas rl_inv_defs =
  line_open_def before_uri_def method_read_def schema_read_def target_read_def uri_open_def
  uri_closed_def proto_open_def proto_closed_def str_in_def str_opt_in_def

subsection \<open>The invariant is preserved\<close>

text \<open>Reading one more byte keeps what is known; flags and version numbers do not matter.\<close>

lemma target_read_Suc: "target_read lo p r \<Longrightarrow> target_read lo (Suc p) r"
  by (auto simp: rl_inv_defs)

lemma uri_open_Suc: "uri_open lo p r \<Longrightarrow> uri_open lo (Suc p) r"
  by (auto simp: uri_open_def target_read_Suc)

lemma uri_closed_Suc: "uri_closed lo p r \<Longrightarrow> uri_closed lo (Suc p) r"
  by (auto simp: uri_closed_def target_read_Suc str_in_def)

lemma proto_open_Suc: "proto_open lo p r \<Longrightarrow> proto_open lo (Suc p) r"
  by (auto simp: proto_open_def uri_closed_Suc)

lemma proto_closed_Suc: "proto_closed lo p r \<Longrightarrow> proto_closed lo (Suc p) r"
  by (auto simp: proto_closed_def uri_closed_Suc str_opt_in_def str_in_def)

lemma schema_read_Suc: "schema_read k lo p r \<Longrightarrow> schema_read k lo (Suc p) r"
  by (auto simp: rl_inv_defs)

lemmas rl_inv_Suc = uri_open_Suc uri_closed_Suc proto_open_Suc proto_closed_Suc schema_read_Suc

lemma uri_open_flags [simp]:
  "uri_open lo p (r\<lparr>r_complex_uri := a\<rparr>) = uri_open lo p r"
  "uri_open lo p (r\<lparr>r_quoted_uri := a\<rparr>) = uri_open lo p r"
  "uri_open lo p (r\<lparr>r_plus_in_uri := a\<rparr>) = uri_open lo p r"
  "uri_open lo p (r\<lparr>r_space_in_uri := a\<rparr>) = uri_open lo p r"
  "uri_open lo p (r\<lparr>r_http_minor := v\<rparr>) = uri_open lo p r"
  by (simp_all add: rl_inv_defs)

lemma uri_closed_flags [simp]:
  "uri_closed lo p (r\<lparr>r_http_minor := v\<rparr>) = uri_closed lo p r"
  "uri_closed lo p (r\<lparr>r_http_major := v\<rparr>) = uri_closed lo p r"
  "uri_closed lo p (r\<lparr>r_http_protocol := s\<rparr>) = uri_closed lo p r"
  by (simp_all add: rl_inv_defs)

lemma proto_open_flags [simp]:
  "proto_open lo p (r\<lparr>r_http_minor := v\<rparr>) = proto_open lo p r"
  "proto_open lo p (r\<lparr>r_http_major := v\<rparr>) = proto_open lo p r"
  by (simp_all add: proto_open_def)

lemma proto_closed_flags [simp]:
  "proto_closed lo p (r\<lparr>r_http_minor := v\<rparr>) = proto_closed lo p r"
  by (simp_all add: proto_closed_def)

text \<open>The transitions that open or close a slice.\<close>

lemma uri_open_args: "lo \<le> p \<Longrightarrow> uri_open lo p r \<Longrightarrow> uri_open lo (Suc p) (r\<lparr>r_args := Suc p\<rparr>)"
  by (auto simp: rl_inv_defs)

lemma uri_open_exten:
  "uri_open lo p r \<Longrightarrow> uri_open lo (Suc p) (r\<lparr>r_exten := str_init\<rparr>)"
  "uri_open lo p r \<Longrightarrow> uri_open lo (Suc p) (r\<lparr>r_exten := set_p (Suc p) s\<rparr>)"
  by (auto simp: rl_inv_defs)

lemma uri_open_end_uri:
  assumes "uri_open lo p r" "p < 2 ^ 64"
  shows "uri_open lo (Suc p) (end_uri p r)" and "uri_closed lo (Suc p) (end_uri p r)"
    and "proto_closed lo (Suc p) (end_uri p r)"
proof -
  have "target_read lo (Suc p) (end_uri p r)"
    using assms by (auto simp: uri_open_def end_uri_def rl_inv_defs)
  with assms show "uri_open lo (Suc p) (end_uri p r)" and "uri_closed lo (Suc p) (end_uri p r)"
    by (auto simp: uri_open_def uri_closed_def end_uri_def str_in_def)
  with assms show "proto_closed lo (Suc p) (end_uri p r)"
    by (simp add: proto_closed_def uri_open_def end_uri_def)
qed

lemma uri_open_protocol: "uri_open lo p r \<Longrightarrow> r_http_protocol r = str_init"
  by (simp add: uri_open_def)

lemma uri_closed_proto_open:
  "lo \<le> p \<Longrightarrow> uri_closed lo p r \<Longrightarrow> proto_open lo (Suc p) (r\<lparr>r_http_protocol := set_p p s\<rparr>)"
  by (simp add: proto_open_def uri_closed_Suc)

lemma uri_closed_proto_closed:
  "uri_closed lo p r \<Longrightarrow> r_http_protocol r = str_init \<Longrightarrow> proto_closed lo p r"
  by (simp add: proto_closed_def)

lemma proto_open_end_protocol:
  "proto_open lo p r \<Longrightarrow> p < 2 ^ 64 \<Longrightarrow> proto_closed lo (Suc p) (end_protocol p r)"
  by (auto simp: proto_open_def proto_closed_def end_protocol_def uri_closed_Suc str_opt_in_def
      str_in_def)

lemmas rl_transitions =
  rl_inv_Suc uri_open_args uri_open_exten uri_open_end_uri uri_closed_proto_open
  uri_closed_proto_closed proto_open_end_protocol

lemma rl_inv_check_uri:
  assumes "lo \<le> p" "uri_open lo p r" "rl_check_uri p ch r = Cont s'" "p < 2 ^ 64"
  shows "rl_inv lo (Suc p) s'"
  using assms by (auto simp: rl_check_uri_def rl_transitions split: if_splits)

lemma rl_inv_uri:
  assumes "lo \<le> p" "uri_open lo p r" "rl_uri p ch r = Cont s'" "p < 2 ^ 64"
  shows "rl_inv lo (Suc p) s'"
  using assms by (auto simp: rl_uri_def rl_transitions split: if_splits)

lemma rl_inv_after_slash:
  assumes "lo \<le> p" "uri_open lo p r" "rl_after_slash_in_uri p ch r = Cont s'" "p < 2 ^ 64"
  shows "rl_inv lo (Suc p) s'"
  using assms by (auto simp: rl_after_slash_in_uri_def rl_transitions split: if_splits)

lemma schema_read_fields [simp]:
  "schema_read k lo p (r\<lparr>r_host := s\<rparr>) = schema_read k lo p r"
  "schema_read k lo p (r\<lparr>r_port := s\<rparr>) = schema_read k lo p r"
  "schema_read k lo p (r\<lparr>r_uri := s\<rparr>) = schema_read k lo p r"
  by (simp_all add: schema_read_def method_read_def line_open_def before_uri_def)

lemma schema_read_target:
  assumes "schema_read k lo p r" "str_opt_in lo p (r_host r)" "str_opt_in lo p (r_port r)"
  shows "target_read lo p r"
  using assms by (simp add: target_read_def schema_read_def before_uri_def str_opt_in_def str_in_def)

lemma target_uri_open:
  assumes "schema_read k lo p r" "str_opt_in lo (Suc p) (r_host r)" "str_opt_in lo (Suc p) (r_port r)"
    and "lo \<le> p"
  shows "uri_open lo (Suc p) (r\<lparr>r_uri := set_p p u\<rparr>)"
proof -
  have "target_read lo (Suc p) (r\<lparr>r_uri := set_p p u\<rparr>)"
    using assms by (intro schema_read_target [where k = k]) (simp_all add: schema_read_Suc)
  then show ?thesis using assms(1,4) by (simp add: uri_open_def schema_read_def before_uri_def)
qed

lemma target_uri_closed:
  assumes "schema_read 3 lo p r" "str_opt_in lo (Suc p) (r_host r)" "str_opt_in lo (Suc p) (r_port r)"
  shows "uri_closed lo (Suc p) (r\<lparr>r_uri := uri_after_schema r\<rparr>)"
proof -
  have "target_read lo (Suc p) (r\<lparr>r_uri := uri_after_schema r\<rparr>)"
    using assms by (intro schema_read_target [where k = 3]) (simp_all add: schema_read_Suc)
  then show ?thesis using assms(1)
    by (simp add: uri_closed_def schema_read_def before_uri_def uri_after_schema_def str_in_def)
qed

lemma schema_read_protocol: "schema_read k lo p r \<Longrightarrow> r_http_protocol r = str_init"
  by (simp add: schema_read_def before_uri_def)

lemma str_opt_inI: "str_in lo hi s \<Longrightarrow> str_opt_in lo hi s"
  by (simp add: str_opt_in_def)

lemma rl_inv_host:
  assumes "rl_inv lo p (S_host_end, r)" "rl_host_end p ch r = Cont s'" "p < 2 ^ 64"
  shows "rl_inv lo (Suc p) s'"
proof -
  let ?h = "set_len (ptr_diff p (str_p (r_host r))) (r_host r)"
  let ?r = "r\<lparr>r_host := ?h, r_port := str_init\<rparr>"
  from assms(1,3) have h: "str_in lo (Suc p) ?h" and s: "schema_read 3 lo p r" and lo: "lo \<le> p"
    by (simp_all add: str_in_def)
  have "uri_open lo (Suc p) (?r\<lparr>r_uri := set_p p (r_uri r)\<rparr>)"
    using target_uri_open [of 3 lo p ?r] s lo h by (simp add: str_opt_inI)
  moreover have "uri_closed lo (Suc p) (?r\<lparr>r_uri := uri_after_schema ?r\<rparr>)"
    using target_uri_closed [of lo p ?r] s h by (simp add: str_opt_inI)
  ultimately show ?thesis using assms(2) s h lo
    by (auto simp: rl_host_end_def Let_def schema_read_Suc schema_read_protocol uri_after_schema_def
        split: if_splits)
qed

lemma rl_inv_port:
  assumes "rl_inv lo p (S_port, r)" "rl_port p ch r = Cont s'" "p < 2 ^ 64"
  shows "rl_inv lo (Suc p) s'"
proof -
  let ?t = "set_len (ptr_diff p (str_p (r_port r))) (r_port r)"
  let ?r = "r\<lparr>r_port := ?t\<rparr>"
  from assms(1,3) have t: "str_in lo (Suc p) ?t" and s: "schema_read 3 lo p r" and lo: "lo \<le> p"
    and h: "str_in lo p (r_host r)" by (simp_all add: str_in_def)
  from h have h': "str_in lo (Suc p) (r_host r)" by (rule str_in_mono) simp
  have "uri_open lo (Suc p) (?r\<lparr>r_uri := set_p p (r_uri r)\<rparr>)"
    using target_uri_open [of 3 lo p ?r] s lo h' t by (simp add: str_opt_inI)
  moreover have "uri_closed lo (Suc p) (?r\<lparr>r_uri := uri_after_schema ?r\<rparr>)"
    using target_uri_closed [of lo p ?r] s h' t by (simp add: str_opt_inI)
  ultimately show ?thesis using assms s h' lo
    by (auto simp: rl_port_def Let_def schema_read_Suc schema_read_protocol uri_after_schema_def
        split: if_splits)
qed

lemma rl_switch_inv:
  assumes inv: "rl_inv lo p (st, r)" and step: "rl_switch m p ch (st, r) = Cont s'" and p: "p < 2 ^ 64"
  shows "rl_inv lo (Suc p) s'"
proof (cases st)
  case S_after_slash_in_uri
  with inv step p show ?thesis by (auto simp: rl_switch_def intro: rl_inv_after_slash)
next
  case S_check_uri
  with inv step p show ?thesis by (auto simp: rl_switch_def intro: rl_inv_check_uri)
next
  case S_check_uri_http_09
  with inv step p show ?thesis
    by (auto simp: rl_switch_def rl_check_uri_http_09_def rl_transitions split: if_splits
        dest: uri_open_protocol
        intro: rl_inv_check_uri [rotated 2])
next
  case S_uri
  with inv step p show ?thesis by (auto simp: rl_switch_def intro: rl_inv_uri)
next
  case S_http_09
  with inv step p show ?thesis
    by (auto simp: rl_switch_def rl_http_09_def rl_transitions split: if_splits
        dest: uri_open_protocol
        intro: rl_inv_uri [rotated 2])
next
  case S_host_end
  with inv step p show ?thesis using rl_inv_host by (simp add: rl_switch_def)
next
  case S_host
  with inv step p show ?thesis using rl_inv_host [of lo p r ch s']
    by (auto simp: rl_switch_def rl_host_def schema_read_Suc split: if_splits)
next
  case S_host_start
  let ?r = "r\<lparr>r_host := set_p p (r_host r)\<rparr>"
  from S_host_start inv have "rl_inv lo p (S_host_end, ?r)" by simp
  with S_host_start inv step p show ?thesis using rl_inv_host [of lo p ?r ch s']
    by (auto simp: rl_switch_def rl_host_start_def rl_host_def schema_read_Suc Let_def
        split: if_splits)
next
  case S_port
  with inv step p show ?thesis using rl_inv_port by (simp add: rl_switch_def)
next
  case S_minor_digit
  with inv step p show ?thesis
    by (auto simp: rl_switch_def rl_minor_digit_def rl_transitions split: if_splits)
next
  case S_start
  with inv step p show ?thesis
    by (auto simp: rl_switch_def rl_start_def Let_def before_uri_def line_open_def split: if_splits)
next
  case S_method
  with inv step p show ?thesis
    by (auto simp: rl_switch_def rl_method_def Let_def before_uri_def line_open_def method_read_def
        str_in_def split: if_splits)
next
  case S_spaces_before_uri
  with inv step p show ?thesis
    by (auto simp: rl_switch_def rl_spaces_before_uri_def rl_inv_defs split: if_splits)
next
  case S_schema
  with inv step p show ?thesis
    by (auto simp: rl_switch_def rl_schema_def schema_read_def before_uri_def line_open_def
        method_read_def str_in_def split: if_splits)
next
  case S_schema_slash
  with inv step p show ?thesis
    by (auto simp: rl_switch_def rl_schema_slash_def schema_read_def method_read_def line_open_def
        str_in_def split: if_splits)
next
  case S_schema_slash_slash
  with inv step p show ?thesis
    by (auto simp: rl_switch_def rl_schema_slash_slash_def schema_read_def method_read_def
        line_open_def str_in_def split: if_splits)
next
  case S_host_ip_literal
  with inv step p show ?thesis
    by (auto simp: rl_switch_def rl_host_ip_literal_def rl_transitions split: if_splits)
qed (use inv step p in \<open>auto simp: rl_switch_def rl_http_letters_def rl_host_http_09_def
  rl_first_major_digit_def rl_major_digit_def rl_first_minor_digit_def rl_spaces_after_digit_def
  rl_almost_done_def Let_def rl_transitions split: if_splits\<close>)

subsection \<open>Codes of the states\<close>

lemma rl_decode_code [simp]: "rl_decode (rl_code st) = Some st"
  by (cases st) (simp_all add: rl_code_def rl_decode_def rl_states_def)

lemma rl_code_start [simp]: "rl_code S_start = 0"
  by (simp add: rl_code_def rl_states_def)

lemma rl_decode_0 [simp]: "rl_decode 0 = Some S_start"
  using rl_decode_code [of S_start] by simp

subsection \<open>Leaving the loop\<close>

lemma end_request_line_inv [simp]:
  "uri_closed lo p (end_request_line q r) = uri_closed lo p r"
  "r_http_protocol (end_request_line q r) = r_http_protocol r"
  "str_opt_in lo p (r_http_protocol (end_request_line q r)) = str_opt_in lo p (r_http_protocol r)"
  by (simp_all add: end_request_line_def rl_inv_defs)

lemma end_request_line_in:
  "line_open lo p r \<Longrightarrow> p < 2 ^ 64 \<Longrightarrow> str_in lo (Suc p) (r_request_line (end_request_line p r))"
  by (simp add: end_request_line_def line_open_def str_in_def)

lemma uri_closed_line_open: "uri_closed lo p r \<Longrightarrow> line_open lo p r"
  by (simp add: uri_closed_def target_read_def method_read_def)

lemma uri_open_line_open: "uri_open lo p r \<Longrightarrow> line_open lo p r"
  by (simp add: uri_open_def target_read_def method_read_def)

lemma line_open_fields [simp]:
  "line_open lo p (r\<lparr>r_http_minor := v\<rparr>) = line_open lo p r"
  "line_open lo p (end_uri q r) = line_open lo p r"
  "line_open lo p (end_protocol q r) = line_open lo p r"
  by (simp_all add: line_open_def end_uri_def end_protocol_def)

definition line_end_ok :: "ptr \<Rightarrow> ptr \<Rightarrow> http_request \<Rightarrow> bool" where
  "line_end_ok lo hi r \<longleftrightarrow> proto_closed lo hi r \<and> str_in lo hi (r_request_line r)"

lemma line_end_okI:
  assumes "proto_closed lo (Suc p) r" "line_open lo p r" "p < 2 ^ 64"
  shows "line_end_ok lo (Suc p) (end_request_line p r)"
  using assms by (simp add: line_end_ok_def proto_closed_def end_request_line_in)

lemma end_protocol_request_line:
  "end_protocol p (end_request_line q r) = end_request_line q (end_protocol p r)"
  by (simp add: end_protocol_def end_request_line_def)

lemma proto_open_line_open: "proto_open lo p r \<Longrightarrow> line_open lo p r"
  by (simp add: proto_open_def uri_closed_line_open)

lemma proto_closed_line_open: "proto_closed lo p r \<Longrightarrow> line_open lo p r"
  by (simp add: proto_closed_def uri_closed_line_open)

lemma line_end_ok_almost_done:
  assumes "proto_closed lo p r" "p < 2 ^ 64"
  shows "line_end_ok lo (Suc p)
    (r\<lparr>r_request_line := set_len (ptr_diff p (Suc (str_p (r_request_line r)))) (r_request_line r)\<rparr>)"
proof -
  from assms(1) have "line_open lo p r" by (rule proto_closed_line_open)
  moreover from assms(1) have "proto_closed lo (Suc p)
    (r\<lparr>r_request_line := set_len (ptr_diff p (Suc (str_p (r_request_line r)))) (r_request_line r)\<rparr>)"
    using proto_closed_Suc [OF assms(1)] by (simp add: rl_inv_defs)
  ultimately show ?thesis using assms(2) by (simp add: line_end_ok_def line_open_def str_in_def)
qed

lemmas rl_done_intros =
  line_end_okI line_end_ok_almost_done uri_open_end_uri proto_closed_Suc uri_closed_proto_closed
  uri_closed_line_open uri_open_line_open proto_open_line_open proto_closed_line_open
  proto_open_end_protocol uri_closed_Suc

lemma rl_switch_done:
  assumes inv: "rl_inv lo p (st, r)" and step: "rl_switch m p ch (st, r) = Goto_done q r'"
    and p: "p < 2 ^ 64"
  shows "q = p \<and> line_end_ok lo (Suc p) r'"
proof (cases st)
  case S_check_uri_http_09
  with inv step p show ?thesis
    by (auto simp: rl_switch_def rl_check_uri_http_09_def rl_check_uri_def split: if_splits
        intro!: line_end_okI uri_closed_proto_closed intro: rl_done_intros dest: uri_open_protocol)
next
  case S_http_09
  with inv step p show ?thesis
    by (auto simp: rl_switch_def rl_http_09_def rl_uri_def split: if_splits
        intro!: line_end_okI uri_closed_proto_closed intro: rl_done_intros dest: uri_open_protocol)
next
  case S_host_http_09
  with inv step p show ?thesis
    by (auto simp: rl_switch_def rl_host_http_09_def split: if_splits
        intro!: line_end_okI uri_closed_proto_closed intro: rl_done_intros)
qed (use inv step p in \<open>auto simp: rl_switch_def rl_defs Let_def end_protocol_request_line
  uri_open_end_uri split: if_splits intro!: line_end_okI intro: rl_done_intros\<close>)

lemma rl_done_sel:
  assumes "rl_done p r b = (ret, r', b')"
  shows "b' = b\<lparr>b_pos := p + 1\<rparr>" and "r_state r' = 0" and "ret = 0 \<or> ret = -25"
    and "r_request_line r' = r_request_line r" and "r_method_name r' = r_method_name r"
    and "r_uri r' = r_uri r" and "r_schema r' = r_schema r" and "r_host r' = r_host r"
    and "r_port r' = r_port r" and "r_http_protocol r' = r_http_protocol r"
    and "r_args r' = r_args r" and "r_method r' = r_method r"
    and "r_http_minor r' = r_http_minor r"
    and "r_http_major r' = (if r_http_minor r = 9 then 0 else r_http_major r)"
    and "r_http_version r' = uint (r_http_major r') * 1000 + uint (r_http_minor r)"
    and "ret = (if r_http_version r' = 9 \<and> r_method r \<noteq> HTTP_GET then -25 else 0)"
  using assms by (auto simp: rl_done_def Let_def split: if_splits)

lemma rl_done_exten:
  assumes "rl_done p r b = (ret, r', b')"
  shows "r_exten r' = (if str_p (r_exten r) \<noteq> 0
    then set_len (ptr_diff (str_p (r_uri r) + str_len (r_uri r)) (str_p (r_exten r))) (r_exten r)
    else r_exten r)"
  using assms by (auto simp: rl_done_def Let_def split: if_splits)

lemma line_end_ok_slices:
  assumes ok: "line_end_ok lo hi r" and dn: "rl_done p r b = (ret, r', b')" and hi: "hi < 2 ^ 64"
  shows "line_slices_ok lo hi r'"
proof -
  from ok have "str_opt_in lo hi (r_exten r')"
    using hi by (auto simp: rl_done_exten [OF dn] line_end_ok_def proto_closed_def uri_closed_def
        str_opt_in_def str_in_def)
  with ok show ?thesis
    by (auto simp: line_slices_ok_def rl_done_sel [OF dn] line_end_ok_def proto_closed_def
        uri_closed_def target_read_def method_read_def)
qed

subsection \<open>The loop\<close>

declare rl_inv.simps [simp del]

lemma rl_switch_fail:
  "rl_switch m p ch (st, r) = Fail e r' \<Longrightarrow> -24 \<le> e \<and> e \<le> -1"
  by (cases st) (auto simp: rl_switch_def rl_defs Let_def split: if_splits)

text \<open>What holds when the loop is left at position \<open>p\<close>.\<close>

fun rl_leaves :: "ptr \<Rightarrow> ptr \<Rightarrow> (int \<times> http_request) + (ptr \<times> http_request) \<Rightarrow> bool" where
  "rl_leaves lo p (Inl (e, r)) \<longleftrightarrow> -24 \<le> e \<and> e \<le> -1"
| "rl_leaves lo p (Inr (q, r)) \<longleftrightarrow> q = p \<and> line_end_ok lo (Suc p) r"

interpretation rl: byte_scanner "rl_switch m" "\<lambda>_ _. True" "rl_inv lo" "rl_leaves lo" for m lo
proof unfold_locales
  fix p s c s'
  assume "rl_inv lo p s" "p < 2 ^ 64" "rl_switch m p c s = Cont s'"
  then show "rl_inv lo (Suc p) s'" by (cases s) (auto intro: rl_switch_inv)
next
  fix p s c out
  assume "rl_inv lo p s" "p < 2 ^ 64" "rl_switch m p c s = Stop out"
  then show "rl_leaves lo p out"
    by (cases s; cases out) (auto dest: rl_switch_fail rl_switch_done)
qed

lemma scan_rl_inv:
  assumes "rl_inv lo p (st, r)" and "p + length cs < 2 ^ 64"
    and "scan (rl_switch m) p cs (st, r) = Cont s'"
  shows "rl_inv lo (p + length cs) s'"
  using rl.scan_keeps [OF assms(3,1)] assms(2) by simp

lemma scan_rl_done:
  assumes "rl_inv lo p (st, r)" and "p + length cs < 2 ^ 64"
    and "scan (rl_switch m) p cs (st, r) = Goto_done q r'"
  shows "p \<le> q \<and> q < p + length cs \<and> line_end_ok lo (Suc q) r'"
  using rl.scan_leaves [OF assms(3,1)] assms(2) by auto

text \<open>A fresh request, as \<open>http_request_handler\<close> sets it up.\<close>

definition line_fresh :: "http_request \<Rightarrow> bool" where
  "line_fresh r \<longleftrightarrow> r_state r = 0 \<and> r_exten r = str_init \<and> r_http_protocol r = str_init \<and> r_args r = 0"

lemma line_fresh_inv: "line_fresh r \<Longrightarrow> rl_inv p p (S_start, r)"
  by (simp add: line_fresh_def before_uri_def rl_inv.simps)

lemma scan_rl_fail:
  "scan (rl_switch m) p cs (st, r) = Fail e r' \<Longrightarrow> -24 \<le> e \<and> e \<le> -1"
proof (induction cs arbitrary: p st r)
  case (Cons c cs)
  show ?case
  proof (cases "rl_switch m p c (st, r)")
    case (Cont s1)
    with Cons.prems have "scan (rl_switch m) (Suc p) cs (fst s1, snd s1) = Fail e r'" by simp
    then show ?thesis by (rule Cons.IH)
  next
    case (Stop out)
    with Cons.prems have "rl_switch m p c (st, r) = Fail e r'" by simp
    then show ?thesis by (rule rl_switch_fail)
  qed
qed simp

text \<open>The three ways out of the parser.\<close>

lemma parse_line_cases:
  assumes "http_parse_request_line m r b = (ret, r', b')" and "rl_decode (r_state r) = Some st"
  obtains
    (more) st' r1 where "ret = 1" "scan (rl_switch m) (b_pos b) (pending m b) (st, r) = Cont (st', r1)"
      "r' = r1\<lparr>r_state := rl_code st'\<rparr>" "b' = b\<lparr>b_pos := b_last b\<rparr>"
  | (err) "-24 \<le> ret" "ret \<le> -1"
      "scan (rl_switch m) (b_pos b) (pending m b) (st, r) = Fail ret r'" "b' = b"
  | (fin) q r1 where "scan (rl_switch m) (b_pos b) (pending m b) (st, r) = Goto_done q r1"
      "rl_done q r1 b = (ret, r', b')" "ret = 0 \<or> ret = -25"
proof (cases "scan (rl_switch m) (b_pos b) (pending m b) (st, r)")
  case (Cont s)
  with assms show ?thesis by (cases s) (auto simp: http_parse_request_line_def intro: more)
next
  case (Stop out)
  show ?thesis
  proof (cases out)
    case (Inl er)
    with Stop assms scan_rl_fail [of m "b_pos b" "pending m b" st r ret r'] show ?thesis
      by (cases er) (auto simp: http_parse_request_line_def intro: err)
  next
    case (Inr qr)
    with Stop assms show ?thesis
      by (cases qr) (auto simp: http_parse_request_line_def intro: fin dest: rl_done_sel(3))
  qed
qed

lemma parse_line_slices:
  assumes "line_fresh r" "buffer_wf b" "http_parse_request_line m r b = (0, r', b')"
  shows "line_slices_ok (b_pos b) (b_pos b') r' \<and> b_pos b < b_pos b' \<and> b_pos b' \<le> b_last b \<and>
    b' = b\<lparr>b_pos := b_pos b'\<rparr>"
proof -
  have fresh: "rl_decode (r_state r) = Some S_start" using assms(1) by (simp add: line_fresh_def)
  from assms(2) have len: "b_pos b + length (pending m b) = b_last b" "b_last b < 2 ^ 64"
    by (simp_all add: pending_def buffer_wf_def)
  from assms(3) fresh show ?thesis
  proof (cases rule: parse_line_cases)
    case (fin q r1)
    from scan_rl_done [OF line_fresh_inv [OF assms(1)] _ fin(1)] len
    have q: "b_pos b \<le> q" "q < b_last b" "line_end_ok (b_pos b) (Suc q) r1" by simp_all
    from rl_done_sel(1) [OF fin(2)] have b': "b' = b\<lparr>b_pos := Suc q\<rparr>" by simp
    from line_end_ok_slices [OF q(3) fin(2)] q len have "line_slices_ok (b_pos b) (Suc q) r'" by simp
    with q b' show ?thesis by simp
  qed simp_all
qed

subsection \<open>The tables\<close>

lemma is_usual_all:
  "list_all (\<lambda>n. is_usual (word_of_nat n) = (word_of_nat n \<notin> set unusual)) [0..<256]"
  by code_simp

lemma is_usual_iff: "is_usual ch \<longleftrightarrow> ch \<notin> set unusual"
  using u8_all [THEN iffD2, OF is_usual_all] by blast

lemma CMP_eq: "str_len s = length t \<Longrightarrow> CMP m (str_p s) t = (str_bytes m s = lit t)"
  by (simp add: CMP_def str_bytes_def)

lemma lit_neq: "length bs \<noteq> length t \<Longrightarrow> (bs = lit t) = False" "length bs \<noteq> length t \<Longrightarrow> (lit t = bs) = False"
  by auto

lemma CMP30_eq:
  "str_len s = 4 \<Longrightarrow> m (str_p s + 1) = c8 CHR ''O'' \<Longrightarrow>
   CMP30 m (str_p s) [a, CHR ''O'', b, c] = (str_bytes m s = lit [a, CHR ''O'', b, c])"
  by (simp add: CMP30_def str_bytes_def lit_def bytes_at_Suc numeral_eq_Suc)

lemma O_eq: "str_len s = 4 \<Longrightarrow> str_bytes m s = lit [a, d, b, c] \<Longrightarrow> m (Suc (str_p s)) = c8 d"
  by (simp add: str_bytes_def lit_def bytes_at_Suc numeral_eq_Suc)

lemma get_request_method_spec: "get_request_method m s = method_of_name (str_bytes m s)"
proof -
  have len: "length (str_bytes m s) = str_len s" by simp
  consider "str_len s = 3" | "str_len s = 4" | "str_len s = 5" | "str_len s = 6" | "str_len s = 7"
    | "str_len s = 8" | "str_len s = 9" | "str_len s \<notin> {3, 4, 5, 6, 7, 8, 9}" by auto
  then show ?thesis
  proof cases
    case 2
    show ?thesis
    proof (cases "m (str_p s + 1) = c8 CHR ''O''")
      case True
      with O_eq [OF 2, of m "CHR ''H''" "CHR ''E''" "CHR ''A''" "CHR ''D''"]
      have "str_bytes m s \<noteq> lit ''HEAD''" by auto
      with 2 True show ?thesis
        by (simp add: get_request_method_def method_of_name_def method_names_def Let_def CMP30_eq
            lit_neq)
    next
      case False
      with O_eq [OF 2, of m] have "\<And>a b c. str_bytes m s \<noteq> lit [a, CHR ''O'', b, c]" by fastforce
      with 2 False show ?thesis
        by (simp add: get_request_method_def method_of_name_def method_names_def Let_def CMP_eq
            lit_neq)
    qed
  qed (simp_all add: get_request_method_def method_of_name_def method_names_def Let_def CMP_eq lit_neq)
qed

subsection \<open>Resumption\<close>

lemma rl_switch_cong:
  assumes "rl_inv lo p (st, r)" "\<And>a. lo \<le> a \<Longrightarrow> a < p \<Longrightarrow> m a = m' a" "p < 2 ^ 64"
  shows "rl_switch m p ch (st, r) = rl_switch m' p ch (st, r)"
proof (cases "st = S_method")
  case True
  with assms(1) have "lo \<le> str_p (r_method_name r)" "str_p (r_method_name r) < p"
    by (simp_all add: rl_inv.simps)
  then have "str_bytes m (set_len (p - str_p (r_method_name r)) (r_method_name r)) =
      str_bytes m' (set_len (p - str_p (r_method_name r)) (r_method_name r))"
    unfolding str_bytes_def by (intro bytes_at_cong) (auto intro: assms(2))
  with True assms(3) \<open>str_p (r_method_name r) < p\<close> show ?thesis
    by (simp add: rl_switch_def rl_method_def get_request_method_spec)
qed (cases st; simp add: rl_switch_def)

lemma scan_rl_cong:
  assumes "rl_inv lo p (st, r)" "\<And>a. lo \<le> a \<Longrightarrow> a < p + length cs \<Longrightarrow> m a = m' a"
    "p + length cs < 2 ^ 64"
  shows "scan (rl_switch m) p cs (st, r) = scan (rl_switch m') p cs (st, r)"
  using assms
proof (induction cs arbitrary: p st r)
  case (Cons c cs)
  have eq: "rl_switch m p c (st, r) = rl_switch m' p c (st, r)"
    using Cons.prems by (intro rl_switch_cong [where lo = lo]) auto
  show ?case
  proof (cases "rl_switch m' p c (st, r)")
    case (Cont s1)
    with eq have "rl_inv lo (Suc p) (fst s1, snd s1)"
      using rl_switch_inv [OF Cons.prems(1), of m c s1] Cons.prems(3) by simp
    from Cons.IH [OF this] Cons.prems Cont eq show ?thesis by simp
  qed (simp add: eq)
qed simp

text \<open>No case of the switch looks at or changes \<open>r->state\<close>.\<close>

definition put_state :: "int \<Rightarrow> rl_out \<Rightarrow> rl_out" where
  "put_state x =
     map_step (apsnd (r_state_update (\<lambda>_. x)))
       (map_sum (apsnd (r_state_update (\<lambda>_. x))) (apsnd (r_state_update (\<lambda>_. x))))"

lemma put_state_simps [simp]:
  "put_state x (Next st r) = Next st (r\<lparr>r_state := x\<rparr>)"
  "put_state x (Fail e r) = Fail e (r\<lparr>r_state := x\<rparr>)"
  "put_state x (Goto_done p r) = Goto_done p (r\<lparr>r_state := x\<rparr>)"
  by (simp_all add: put_state_def)

lemma rl_switch_put_state:
  "rl_switch m p ch (st, r\<lparr>r_state := x\<rparr>) = put_state x (rl_switch m p ch (st, r))"
  by (cases st) (simp_all add: rl_switch_def rl_defs rl_end_defs Let_def)

lemma scan_rl_put_state:
  "scan (rl_switch m) p cs (st, r\<lparr>r_state := x\<rparr>) = put_state x (scan (rl_switch m) p cs (st, r))"
proof (induction cs arbitrary: p st r)
  case (Cons c cs)
  show ?case
  proof (cases "rl_switch m p c (st, r)")
    case (Cont s1)
    with Cons.IH [of "Suc p" "fst s1" "snd s1"] show ?thesis
      by (cases s1) (simp add: rl_switch_put_state)
  next
    case (Stop out)
    then show ?thesis by (cases out) (auto simp: rl_switch_put_state put_state_def)
  qed
qed simp

end
