(* ===== verification/Parse_Line_Behaviour.thy ===== *)
theory Parse_Line_Behaviour
  imports Parse_Line_Correct
begin

text \<open>
  What the request-line parser does as a whole: it gives the same result however the bytes of a
  line are cut into chunks, and on a well-formed request line it returns the parts of that line.
\<close>

subsection \<open>Definitions\<close>

text \<open>The fields the bytes of a URI do not touch.\<close>

definition line_core :: "http_request \<Rightarrow> str_t list \<times> http_method" where
  "line_core r = ([r_request_line r, r_method_name r, r_schema r, r_host r, r_port r, r_uri r,
     r_http_protocol r], r_method r)"

definition uri_byte :: "u8 \<Rightarrow> bool" where
  "uri_byte c \<longleftrightarrow> c \<noteq> 0 \<and> c \<noteq> CR \<and> c \<noteq> LF \<and> c \<noteq> ch_space"

text \<open>\<open>METHOD SP /path SP HTTP/d.d\<close>, without the line end.\<close>

definition request_line_text :: "u8 list \<Rightarrow> u8 list \<Rightarrow> u8 \<Rightarrow> u8 \<Rightarrow> u8 list" where
  "request_line_text name path d1 d2 =
     name @ [ch_space] @ (ch_slash # path) @ [ch_space] @ lit ''HTTP/'' @ [d1, ch_dot, d2]"

subsection \<open>Resumption\<close>

lemma parse_line_resume:
  assumes st: "rl_decode (r_state r) = Some st" and inv: "rl_inv lo (b_pos b) (st, r)"
    and wf: "buffer_wf b" and l: "b_last b \<le> l" "l < 2 ^ 64"
    and agree: "\<And>a. lo \<le> a \<Longrightarrow> a < b_last b \<Longrightarrow> m a = m' a"
    and more: "http_parse_request_line m r b = (1, r1, b1)"
  shows "fst (http_parse_request_line m' r1 (b1\<lparr>b_last := l\<rparr>)) =
      fst (http_parse_request_line m' r (b\<lparr>b_last := l\<rparr>)) \<and>
    (fst (http_parse_request_line m' r (b\<lparr>b_last := l\<rparr>)) \<ge> 0 \<longrightarrow>
      http_parse_request_line m' r1 (b1\<lparr>b_last := l\<rparr>) = http_parse_request_line m' r (b\<lparr>b_last := l\<rparr>))"
proof -
  from wf have pos: "b_pos b \<le> b_last b" and lim: "b_last b < 2 ^ 64" by (simp_all add: buffer_wf_def)
  let ?new = "bytes_at m' (b_last b) (l - b_last b)"
  from more st obtain st1 rA where
    sc: "scan (rl_switch m) (b_pos b) (pending m b) (st, r) = Cont (st1, rA)"
    and r1: "r1 = rA\<lparr>r_state := rl_code st1\<rparr>" and b1: "b1 = b\<lparr>b_pos := b_last b\<rparr>"
    by (cases rule: parse_line_cases) auto
  have len: "b_pos b + length (pending m b) = b_last b" using pos by (simp add: pending_def)
  have same: "pending m' b = pending m b"
    unfolding pending_def using inv pos
    by (intro bytes_at_cong) (auto simp: rl_inv.simps agree)
  have "scan (rl_switch m') (b_pos b) (pending m b) (st, r) = Cont (st1, rA)"
    using scan_rl_cong [OF inv, of "pending m b" m m'] sc len lim agree by simp
  then have whole: "scan (rl_switch m') (b_pos b) (pending m' (b\<lparr>b_last := l\<rparr>)) (st, r) =
      scan (rl_switch m') (b_last b) ?new (st1, rA)"
    using len by (simp add: pending_upto pos l same scan_append)
  have pend: "pending m' (b\<lparr>b_pos := b_last b, b_last := l\<rparr>) = ?new" by (simp add: pending_def)
  show ?thesis
  proof (cases "scan (rl_switch m') (b_last b) ?new (st1, rA)")
    case (Cont s)
    then show ?thesis using whole pend st
      by (cases s) (simp add: http_parse_request_line_def r1 b1 scan_rl_put_state)
  next
    case (Stop out)
    show ?thesis
    proof (cases out)
      case (Inl er)
      with Stop whole pend st show ?thesis
        using scan_rl_fail [of m' "b_last b" ?new st1 rA "fst er" "snd er"]
        by (cases er) (simp add: http_parse_request_line_def r1 b1 scan_rl_put_state)
    next
      case (Inr qr)
      have "rl_done q (rB\<lparr>r_state := x\<rparr>) (b\<lparr>b_pos := b_last b, b_last := l\<rparr>) =
          rl_done q rB (b\<lparr>b_last := l\<rparr>)" for q rB x
        by (simp add: rl_done_def Let_def)
      with Stop Inr whole pend st show ?thesis
        by (cases qr) (simp add: http_parse_request_line_def r1 b1 scan_rl_put_state)
    qed
  qed
qed

lemma parse_line_more_inv:
  assumes "rl_decode (r_state r) = Some st" "rl_inv lo (b_pos b) (st, r)" "buffer_wf b"
    and "http_parse_request_line m r b = (1, r1, b1)"
  shows "\<exists>st1. rl_decode (r_state r1) = Some st1 \<and> rl_inv lo (b_pos b1) (st1, r1) \<and>
    b1 = b\<lparr>b_pos := b_last b\<rparr>"
proof -
  from assms(4,1) obtain st1 rA where
    sc: "scan (rl_switch m) (b_pos b) (pending m b) (st, r) = Cont (st1, rA)"
    and r1: "r1 = rA\<lparr>r_state := rl_code st1\<rparr>" and b1: "b1 = b\<lparr>b_pos := b_last b\<rparr>"
    by (cases rule: parse_line_cases) auto
  from assms(3) have "b_pos b + length (pending m b) = b_last b" "b_last b < 2 ^ 64"
    by (simp_all add: pending_def buffer_wf_def)
  with scan_rl_inv [OF assms(2) _ sc] have "rl_inv lo (b_last b) (st1, rA)" by simp
  then have "rl_inv lo (b_last b) (st1, r1)"
    by (cases st1) (simp_all add: r1 rl_inv.simps rl_inv_defs)
  with r1 b1 show ?thesis by simp
qed

subsection \<open>Well-formed request lines\<close>

lemma method_name_upper:
  assumes "method_of_name name \<noteq> HTTP_UNKNOWN"
  shows "name \<noteq> []" and "\<forall>c \<in> set name. is_upper_or_underscore c \<and> c \<noteq> ch_space \<and> c \<noteq> CR \<and> c \<noteq> LF"
proof -
  from assms obtain x where "map_of method_names name = Some x"
    by (auto simp: method_of_name_def split: option.splits)
  then have "name \<in> fst ` set method_names" by (force dest: map_of_SomeD)
  moreover have "list_all (\<lambda>n. n \<noteq> [] \<and>
      (\<forall>c \<in> set n. is_upper_or_underscore c \<and> c \<noteq> ch_space \<and> c \<noteq> CR \<and> c \<noteq> LF))
      (map fst method_names)"
    by (simp add: method_names_def lit_def is_upper_or_underscore_def)
  ultimately have "name \<noteq> [] \<and>
      (\<forall>c \<in> set name. is_upper_or_underscore c \<and> c \<noteq> ch_space \<and> c \<noteq> CR \<and> c \<noteq> LF)"
    unfolding list_all_iff by force
  then show "name \<noteq> []"
    and "\<forall>c \<in> set name. is_upper_or_underscore c \<and> c \<noteq> ch_space \<and> c \<noteq> CR \<and> c \<noteq> LF" by simp_all
qed

lemma scan_method:
  assumes known: "method_of_name name \<noteq> HTTP_UNKNOWN" and bytes: "bytes_at m p (length name) = name"
    and p: "p + length name < 2 ^ 64"
  shows "scan (rl_switch m) p (name @ [ch_space]) (S_start, r) =
    Next S_spaces_before_uri (r\<lparr>r_request_line := set_p p (r_request_line r),
      r_method_name := \<lparr>str_p = p, str_len = length name\<rparr>, r_method := method_of_name name\<rparr>)"
proof -
  let ?r = "r\<lparr>r_request_line := set_p p (r_request_line r), r_method_name := set_p p (r_method_name r)\<rparr>"
  from method_name_upper [OF known] obtain c cs where name: "name = c # cs"
    and up: "\<And>x. x \<in> set name \<Longrightarrow> is_upper_or_underscore x \<and> x \<noteq> ch_space \<and> x \<noteq> CR \<and> x \<noteq> LF"
    by (cases name) auto
  have first: "rl_switch m p c (S_start, r) = Next S_method ?r"
    using up name by (simp add: rl_switch_def rl_start_def Let_def)
  have skip: "scan (rl_switch m) (Suc p) cs (S_method, ?r) = Next S_method ?r"
    using up name by (intro scan_skip) (simp add: rl_switch_def rl_method_def)
  have "str_bytes m \<lparr>str_p = p, str_len = length name\<rparr> = name"
    using bytes by (simp add: str_bytes_def)
  then have "rl_switch m (p + length name) ch_space (S_method, ?r) =
    Next S_spaces_before_uri (r\<lparr>r_request_line := set_p p (r_request_line r),
      r_method_name := \<lparr>str_p = p, str_len = length name\<rparr>, r_method := method_of_name name\<rparr>)"
    using p known
    by (simp add: rl_switch_def rl_method_def Let_def get_request_method_spec set_len_set_p)
  with first skip show ?thesis by (simp add: name scan_append)
qed

text \<open>The bytes of a URI keep the parser in one of its three URI states.\<close>

definition in_uri :: "http_request_line_status \<Rightarrow> bool" where
  "in_uri st \<longleftrightarrow> st \<in> {S_after_slash_in_uri, S_check_uri, S_uri}"

lemma rl_switch_uri_byte:
  assumes "in_uri st" "uri_byte c"
  shows "\<exists>st' r'. rl_switch m p c (st, r) = Next st' r' \<and> in_uri st' \<and> line_core r' = line_core r"
  using assms
  by (auto simp: in_uri_def uri_byte_def rl_switch_def rl_after_slash_in_uri_def rl_check_uri_def
      rl_uri_def line_core_def)

lemma scan_uri:
  assumes "in_uri st" "\<forall>c \<in> set path. uri_byte c"
  shows "\<exists>st' r'. scan (rl_switch m) p path (st, r) = Next st' r' \<and> in_uri st' \<and>
    line_core r' = line_core r"
  using assms
proof (induction path arbitrary: p st r)
  case (Cons c path)
  from rl_switch_uri_byte [OF Cons.prems(1), of c m p r] Cons.prems(2) obtain st1 r1 where
    step: "rl_switch m p c (st, r) = Next st1 r1" "in_uri st1" "line_core r1 = line_core r" by auto
  from Cons.IH [OF step(2), of "Suc p" r1] Cons.prems(2) step show ?case by simp
qed simp

lemma not_usual [simp]: "\<not> is_usual ch_space"
  by (simp add: is_usual_iff unusual_def)

text \<open>The space that ends a URI, and the \<open>H\<close> of the protocol after it.\<close>

lemma scan_uri_end:
  assumes "in_uri st" "str_p (r_uri r) \<le> p" "p < 2 ^ 64"
  shows "scan (rl_switch m) p [ch_space, ch_H] (st, r) =
    Next S_http_H (r\<lparr>r_uri := set_len (p - str_p (r_uri r)) (r_uri r),
      r_http_protocol := set_p (Suc p) (r_http_protocol r)\<rparr>)"
  using assms
  by (auto simp: in_uri_def rl_switch_def rl_after_slash_in_uri_def rl_check_uri_def rl_uri_def
      end_uri_def rl_check_uri_http_09_def rl_http_09_def)

lemma scan_version:
  assumes d: "is_digit d1" "d1 \<noteq> ch_0" "is_digit d2" and p: "str_p (r_http_protocol r) \<le> p + 7"
    "str_p (r_request_line r) \<le> p + 7" "p + 9 < 2 ^ 64"
  shows "scan (rl_switch m) p (lit ''TTP/'' @ [d1, ch_dot, d2, CR, LF]) (S_http_H, r) =
    Goto_done (p + 8) (r\<lparr>r_http_major := ucast d1 - 48, r_http_minor := ucast d2 - 48,
      r_http_protocol := set_len (p + 7 - str_p (r_http_protocol r)) (r_http_protocol r),
      r_request_line := set_len (p + 7 - str_p (r_request_line r)) (r_request_line r)\<rparr>)"
proof -
  from d(1,2) have "\<not> (d1 < ch_1 \<or> d1 > ch_9)"
    by (simp add: is_digit_def word_less_nat_alt word_le_nat_alt word_unat_eq_iff)
  moreover from d(3) have "d2 \<noteq> CR" "d2 \<noteq> LF" "d2 \<noteq> ch_space" by (auto simp: is_digit_def)
  ultimately show ?thesis using d p
    by (simp add: rl_switch_def rl_http_letters_def rl_first_major_digit_def rl_major_digit_def
        rl_first_minor_digit_def rl_minor_digit_def rl_almost_done_def end_protocol_def lit_def
        Let_def)
qed

lemma digit_u16:
  assumes "is_digit d"
  shows "uint (ucast d - 48 :: u16) = digit_val d" and "(ucast d - 48 :: u16) = 9 \<longleftrightarrow> d = ch_9"
proof -
  have "list_all (\<lambda>n. is_digit (word_of_nat n) \<longrightarrow>
      uint (ucast (word_of_nat n :: u8) - 48 :: u16) = digit_val (word_of_nat n) \<and>
      ((ucast (word_of_nat n :: u8) - 48 :: u16) = 9 \<longleftrightarrow> word_of_nat n = ch_9)) [0..<256]"
    by code_simp
  from u8_all [THEN iffD2, OF this] assms
  show "uint (ucast d - 48 :: u16) = digit_val d" and "(ucast d - 48 :: u16) = 9 \<longleftrightarrow> d = ch_9"
    by blast+
qed

text \<open>The request after a line with a method of \<open>n\<close> bytes and a path of \<open>k\<close> bytes that starts at
  \<open>p\<close>.\<close>

definition line_parsed ::
  "ptr \<Rightarrow> nat \<Rightarrow> nat \<Rightarrow> http_method \<Rightarrow> u8 \<Rightarrow> u8 \<Rightarrow> http_request \<Rightarrow> bool" where
  "line_parsed p n k meth d1 d2 r \<longleftrightarrow>
     r_request_line r = \<lparr>str_p = p, str_len = n + k + 11\<rparr> \<and>
     r_method_name r = \<lparr>str_p = p, str_len = n\<rparr> \<and> r_method r = meth \<and>
     r_uri r = \<lparr>str_p = p + n + 1, str_len = k + 1\<rparr> \<and>
     r_http_protocol r = \<lparr>str_p = p + n + k + 3, str_len = 8\<rparr> \<and>
     r_http_major r = ucast d1 - 48 \<and> r_http_minor r = ucast d2 - 48 \<and>
     r_schema r = str_init \<and> r_host r = str_init \<and> r_port r = str_init"

lemma str_t_eqI: "str_p s = p \<Longrightarrow> str_len s = n \<Longrightarrow> s = \<lparr>str_p = p, str_len = n\<rparr>"
  by simp

lemma scan_line_text:
  fixes name path :: "u8 list"
  defines "n \<equiv> length name" and "k \<equiv> length path"
  assumes name: "bytes_at m p n = name" and lim: "p + n + k + 13 < 2 ^ 64"
    and known: "method_of_name name \<noteq> HTTP_UNKNOWN" and path: "\<forall>c \<in> set path. uri_byte c"
    and d: "is_digit d1" "d1 \<noteq> ch_0" "is_digit d2"
  shows "\<exists>r'. scan (rl_switch m) p (request_line_text name path d1 d2 @ [CR, LF] @ rest) (S_start, r) =
      Goto_done (p + n + k + 12) r' \<and> line_parsed p n k (method_of_name name) d1 d2 r'"
proof -
  define r1 where "r1 = r\<lparr>r_request_line := set_p p (r_request_line r),
    r_method_name := \<lparr>str_p = p, str_len = n\<rparr>, r_method := method_of_name name\<rparr>"
  define r2 where "r2 = r1\<lparr>r_uri := set_p (p + n + 1) (r_uri r1), r_schema := str_init,
    r_host := str_init, r_port := str_init\<rparr>"
  have s1: "scan (rl_switch m) p (name @ [ch_space]) (S_start, r) = Next S_spaces_before_uri r1"
    using scan_method [OF known, of m p r] name lim by (simp add: r1_def n_def)
  have s2: "scan (rl_switch m) (p + n + 1) [ch_slash] (S_spaces_before_uri, r1) =
      Next S_after_slash_in_uri r2"
    by (simp add: rl_switch_def rl_spaces_before_uri_def r2_def)
  obtain st3 r3 where s3: "scan (rl_switch m) (p + n + 2) path (S_after_slash_in_uri, r2) = Next st3 r3"
    "in_uri st3" "line_core r3 = line_core r2"
    using scan_uri [of S_after_slash_in_uri path m "p + n + 2" r2] path by (auto simp: in_uri_def)
  from s3(3) have core: "str_p (r_uri r3) = p + n + 1" "str_p (r_request_line r3) = p"
    "r_method_name r3 = \<lparr>str_p = p, str_len = n\<rparr>" "r_method r3 = method_of_name name"
    "r_schema r3 = str_init" "r_host r3 = str_init" "r_port r3 = str_init"
    by (simp_all add: line_core_def r2_def r1_def)
  define r4 where "r4 = r3\<lparr>r_uri := set_len (k + 1) (r_uri r3),
      r_http_protocol := set_p (p + n + k + 3) (r_http_protocol r3)\<rparr>"
  have s4: "scan (rl_switch m) (p + n + k + 2) [ch_space, ch_H] (st3, r3) = Next S_http_H r4"
    using scan_uri_end [OF s3(2), of r3 "p + n + k + 2" m] core lim by (simp add: r4_def)
  obtain r5 where s5: "scan (rl_switch m) (p + n + k + 4) (lit ''TTP/'' @ [d1, ch_dot, d2, CR, LF])
      (S_http_H, r4) = Goto_done (p + n + k + 12) r5" "line_parsed p n k (method_of_name name) d1 d2 r5"
    using scan_version [OF d, of r4 "p + n + k + 4" m] lim
    by (simp add: r4_def core line_parsed_def str_t_eqI)
  let ?v = "lit ''TTP/'' @ [d1, ch_dot, d2, CR, LF]"
  have "scan (rl_switch m) p ((name @ [ch_space]) @ [ch_slash] @ path @ [ch_space, ch_H] @ ?v @ rest)
      (S_start, r) = scan (rl_switch m) (p + n + 1) ([ch_slash] @ path @ [ch_space, ch_H] @ ?v @ rest)
      (S_spaces_before_uri, r1)"
    using scan_append_Cont [OF s1] by (simp add: n_def)
  also have "\<dots> = scan (rl_switch m) (p + n + 2) (path @ [ch_space, ch_H] @ ?v @ rest)
      (S_after_slash_in_uri, r2)"
    using scan_append_Cont [OF s2] by simp
  also have "\<dots> = scan (rl_switch m) (p + n + k + 2) ([ch_space, ch_H] @ ?v @ rest) (st3, r3)"
    using scan_append_Cont [OF s3(1)] by (simp add: k_def add_ac)
  also have "\<dots> = scan (rl_switch m) (p + n + k + 4) (?v @ rest) (S_http_H, r4)"
    using scan_append_Cont [OF s4] by (simp add: numeral_eq_Suc)
  also have "\<dots> = Goto_done (p + n + k + 12) r5" by (rule scan_append_Stop [OF s5(1)])
  finally have "scan (rl_switch m) p ((name @ [ch_space]) @ [ch_slash] @ path @ [ch_space, ch_H] @
      ?v @ rest) (S_start, r) = Goto_done (p + n + k + 12) r5" .
  with s5(2) show ?thesis by (auto simp: request_line_text_def lit_def)
qed

text \<open>The parser on a well-formed line, for any digits of the version.\<close>

lemma parse_line_text:
  assumes fresh: "line_fresh r" and wf: "buffer_wf b"
    and inp: "pending m b = request_line_text name path d1 d2 @ [CR, LF] @ rest"
    and known: "method_of_name name \<noteq> HTTP_UNKNOWN" and path: "\<forall>c \<in> set path. uri_byte c"
    and d: "is_digit d1" "d1 \<noteq> ch_0" "is_digit d2"
  shows "\<exists>r'. http_parse_request_line m r b =
      (if d2 = ch_9 \<and> method_of_name name \<noteq> HTTP_GET then -25 else 0, r',
       b\<lparr>b_pos := b_pos b + length (request_line_text name path d1 d2) + 2\<rparr>) \<and>
    r_method r' = method_of_name name \<and>
    str_bytes m (r_method_name r') = name \<and> str_bytes m (r_uri r') = ch_slash # path \<and>
    str_bytes m (r_http_protocol r') = lit ''HTTP/'' @ [d1, ch_dot, d2] \<and>
    str_bytes m (r_request_line r') = request_line_text name path d1 d2 \<and>
    r_http_version r' = (if d2 = ch_9 then 9 else digit_val d1 * 1000 + digit_val d2) \<and>
    r_schema r' = str_init \<and> r_host r' = str_init \<and> r_port r' = str_init"
proof -
  let ?line = "request_line_text name path d1 d2" and ?p = "b_pos b"
  let ?n = "length name" and ?k = "length path"
  have len: "length ?line = ?n + ?k + 11" by (simp add: request_line_text_def)
  have bytes: "bytes_at m ?p (b_last b - ?p) = ?line @ [CR, LF] @ rest"
    using inp by (simp add: pending_def)
  have "b_last b - ?p = ?n + ?k + 13 + length rest" using arg_cong [OF bytes, of length] len by simp
  then have lim: "?p + ?n + ?k + 13 < 2 ^ 64" using wf by (auto simp: buffer_wf_def)
  have name: "bytes_at m ?p ?n = name"
    using bytes_at_part [of m ?p _ "[]" name] bytes by (simp add: request_line_text_def)
  have uri: "bytes_at m (?p + ?n + 1) (?k + 1) = ch_slash # path"
    using bytes_at_part [of m ?p _ "name @ [ch_space]" "ch_slash # path"] bytes
    by (simp add: request_line_text_def)
  have proto: "bytes_at m (?p + ?n + ?k + 3) 8 = lit ''HTTP/'' @ [d1, ch_dot, d2]"
    using bytes_at_part [of m ?p _ "name @ ch_space # ch_slash # path @ [ch_space]"
        "lit ''HTTP/'' @ [d1, ch_dot, d2]"] bytes
    by (simp add: request_line_text_def numeral_eq_Suc add.assoc)
  have line: "bytes_at m ?p (?n + ?k + 11) = ?line"
    using bytes_at_part [of m ?p _ "[]" ?line] bytes len by simp
  obtain r5 where sc: "scan (rl_switch m) ?p (pending m b) (S_start, r) = Goto_done (?p + ?n + ?k + 12) r5"
    and parsed: "line_parsed ?p ?n ?k (method_of_name name) d1 d2 r5"
    using scan_line_text [OF name lim known path d, of rest r] inp by auto
  then have parse: "http_parse_request_line m r b = rl_done (?p + ?n + ?k + 12) r5 b"
    using fresh by (simp add: http_parse_request_line_def line_fresh_def)
  obtain ret r' b' where dn: "rl_done (?p + ?n + ?k + 12) r5 b = (ret, r', b')"
    by (metis prod.exhaust)
  note res = rl_done_sel [OF dn] parsed [unfolded line_parsed_def] digit_u16 [OF d(1)] digit_u16 [OF d(3)]
  have ver: "r_http_version r' = (if d2 = ch_9 then 9 else digit_val d1 * 1000 + digit_val d2)"
    using res by auto
  moreover have "digit_val d1 * 1000 + digit_val d2 \<noteq> 9"
    using digit_val_nonneg [OF d(3)] d(1,2) digit_val_nonneg [OF d(1)] digit_val_le [OF d(3)]
    by (auto simp: digit_val_def word_uint_eq_iff)
  ultimately show ?thesis
    using parse dn res len name uri proto line
    by (intro exI [of _ r']) (simp add: str_bytes_def add_ac)
qed

lemma line_fresh_zero [simp]: "line_fresh zero_request"
  by (simp add: line_fresh_def zero_request_def)

lemma method_of_GET: "method_of_name [71, 69, 84] = HTTP_GET"
  by (simp add: method_of_name_def method_names_def lit_def)

subsection \<open>Properties\<close>

text \<open>C22. On a well-formed origin-form request line (a known method, a path of bytes other than NUL,
  CR, LF and space, a version \<open>HTTP/d.d\<close> whose minor digit is not 9) the parser returns 0, consumes
  exactly the line, and the request holds the method, the bytes of the method name, the URI, the
  protocol and the line, and the version number \<open>major * 1000 + minor\<close>.\<close>

theorem request_line_parsed:
  assumes "line_fresh r" and "buffer_wf b"
    and "pending m b = request_line_text name path d1 d2 @ [CR, LF] @ rest"
    and "method_of_name name \<noteq> HTTP_UNKNOWN" and "\<forall>c \<in> set path. uri_byte c"
    and "is_digit d1" and "d1 \<noteq> ch_0" and "is_digit d2" and "d2 \<noteq> ch_9"
  shows "\<exists>r'. http_parse_request_line m r b =
      (0, r', b\<lparr>b_pos := b_pos b + length (request_line_text name path d1 d2) + 2\<rparr>) \<and>
    r_method r' = method_of_name name \<and>
    str_bytes m (r_method_name r') = name \<and> str_bytes m (r_uri r') = ch_slash # path \<and>
    str_bytes m (r_http_protocol r') = lit ''HTTP/'' @ [d1, ch_dot, d2] \<and>
    str_bytes m (r_request_line r') = request_line_text name path d1 d2 \<and>
    r_http_version r' = digit_val d1 * 1000 + digit_val d2 \<and>
    r_schema r' = str_init \<and> r_host r' = str_init \<and> r_port r' = str_init"
  using parse_line_text [OF assms(1-8)] assms(9) by simp

theorem request_line_parsed_witness:
  "\<exists>r'. http_parse_request_line (test_mem (lit ''GET /a.html?x HTTP/1.1'' @ [CR, LF])) zero_request
      (test_buffer 24) = (0, r', (test_buffer 24)\<lparr>b_pos := 1024\<rparr>) \<and>
    r_method r' = HTTP_GET \<and>
    str_bytes (test_mem (lit ''GET /a.html?x HTTP/1.1'' @ [CR, LF])) (r_uri r') = lit ''/a.html?x'' \<and>
    r_http_version r' = 1001"
proof -
  let ?line = "request_line_text (lit ''GET'') (lit ''a.html?x'') 49 49"
  show ?thesis
    using request_line_parsed [of zero_request "test_buffer 24" "test_mem (?line @ [CR, LF])"
        "lit ''GET''" "lit ''a.html?x''" 49 49 "[]"]
    by (auto simp: request_line_text_def method_of_GET is_digit_def digit_val_def uri_byte_def
        lit_def)
qed

text \<open>C27. Memory safety of a parsed request line: when the parser returns 0, every slice it put into
  the request (line, method, URI, schema, host, port, extension, protocol, arguments) lies inside
  the bytes of the line, the read position moved forward and stays inside the received bytes, and
  no other pointer of the buffer changed.\<close>

theorem request_line_slices_in_bounds:
  assumes "line_fresh r" and "buffer_wf b" and "http_parse_request_line m r b = (0, r', b')"
  shows "line_slices_ok (b_pos b) (b_pos b') r' \<and> b_pos b < b_pos b' \<and> b_pos b' \<le> b_last b \<and>
    b' = b\<lparr>b_pos := b_pos b'\<rparr>"
  using assms by (rule parse_line_slices)

theorem request_line_slices_in_bounds_witness:
  "\<exists>r' b'. http_parse_request_line (test_mem (lit ''GET /a HTTP/1.1'' @ [CR, LF])) zero_request
      (test_buffer 17) = (0, r', b') \<and> line_slices_ok 1000 (b_pos b') r' \<and> b_pos b' \<le> 1017"
proof -
  let ?line = "request_line_text (lit ''GET'') (lit ''a'') 49 49"
  have line: "lit ''GET /a HTTP/1.1'' = ?line" by (simp add: request_line_text_def lit_def)
  obtain r' b' where parse: "http_parse_request_line (test_mem (?line @ [CR, LF])) zero_request
      (test_buffer 17) = (0, r', b')"
    using parse_line_text [of zero_request "test_buffer 17" "test_mem (?line @ [CR, LF])"
        "lit ''GET''" "lit ''a''" 49 49 "[]"]
    by (auto simp: request_line_text_def method_of_GET is_digit_def uri_byte_def lit_def)
  from request_line_slices_in_bounds [OF _ _ parse] parse show ?thesis by (auto simp: line)
qed

text \<open>C31. Incremental parsing: when a line is incomplete (the parser returns 1) and more bytes arrive
  behind the ones already scanned, resuming gives the same return code as parsing the longer buffer
  from the beginning, and, unless that code is an error, the same request and the same buffer. The
  state of the machine between two calls is therefore exactly what \<open>r->state\<close> and the open slices
  record.\<close>

theorem request_line_resume:
  assumes "line_fresh r" and "buffer_wf b" and "b_last b \<le> l" and "l < 2 ^ 64"
    and "\<And>a. b_pos b \<le> a \<Longrightarrow> a < b_last b \<Longrightarrow> m a = m' a"
    and "http_parse_request_line m r b = (1, r1, b1)"
  shows "fst (http_parse_request_line m' r1 (b1\<lparr>b_last := l\<rparr>)) =
      fst (http_parse_request_line m' r (b\<lparr>b_last := l\<rparr>)) \<and>
    (fst (http_parse_request_line m' r (b\<lparr>b_last := l\<rparr>)) \<ge> 0 \<longrightarrow>
      http_parse_request_line m' r1 (b1\<lparr>b_last := l\<rparr>) = http_parse_request_line m' r (b\<lparr>b_last := l\<rparr>))"
proof -
  from assms(1) have "rl_decode (r_state r) = Some S_start" by (simp add: line_fresh_def)
  from parse_line_resume [OF this line_fresh_inv [OF assms(1)] assms(2-6)] show ?thesis .
qed

lemma parse_GE: "\<exists>r1 b1. http_parse_request_line (test_mem (lit ''GET /a HTTP/1.1'' @ [CR, LF]))
    zero_request (test_buffer 2) = (1, r1, b1)"
proof -
  have "pending (test_mem (lit ''GET /a HTTP/1.1'' @ [CR, LF])) (test_buffer 2) = lit ''GE''"
    by (simp add: pending_def test_mem_def numeral_eq_Suc bytes_at_Suc mem_write_out lit_def)
  then show ?thesis
    by (simp add: http_parse_request_line_def zero_request_def rl_switch_def rl_start_def rl_method_def
        is_upper_or_underscore_def lit_def)
qed

theorem request_line_resume_witness:
  "\<exists>r1 b1. http_parse_request_line (test_mem (lit ''GET /a HTTP/1.1'' @ [CR, LF])) zero_request
      (test_buffer 2) = (1, r1, b1) \<and>
    fst (http_parse_request_line (test_mem (lit ''GET /a HTTP/1.1'' @ [CR, LF])) r1
      (b1\<lparr>b_last := 1017\<rparr>)) =
    fst (http_parse_request_line (test_mem (lit ''GET /a HTTP/1.1'' @ [CR, LF])) zero_request
      ((test_buffer 2)\<lparr>b_last := 1017\<rparr>))"
proof -
  from parse_GE obtain r1 b1 where more: "http_parse_request_line
    (test_mem (lit ''GET /a HTTP/1.1'' @ [CR, LF])) zero_request (test_buffer 2) = (1, r1, b1)" by blast
  from request_line_resume [OF _ _ _ _ _ more, of 1017 "test_mem (lit ''GET /a HTTP/1.1'' @ [CR, LF])"]
    more show ?thesis by auto
qed

text \<open>The nested length and byte comparisons of \<open>get_request_method\<close> recognise exactly the fifteen
  method names: the result is the table entry of the bytes of the name, \<open>HTTP_UNKNOWN\<close> for every
  other byte string.\<close>

theorem request_method_table: "get_request_method m s = method_of_name (str_bytes m s)"
  by (rule get_request_method_spec)

text \<open>A minor version digit 9 is taken for HTTP/0.9 whatever the major version: a \<open>GET\<close> with
  version \<open>HTTP/d.9\<close> is accepted with version number 9 (below \<open>HTTP_VER_10\<close>, so its headers are
  never read), any other method is rejected with -25.\<close>

theorem minor_version_9_is_http_09:
  assumes "line_fresh r" and "buffer_wf b"
    and "pending m b = request_line_text name path d1 ch_9 @ [CR, LF] @ rest"
    and "method_of_name name \<noteq> HTTP_UNKNOWN" and "\<forall>c \<in> set path. uri_byte c"
    and "is_digit d1" and "d1 \<noteq> ch_0"
  shows "\<exists>ret r' b'. http_parse_request_line m r b = (ret, r', b') \<and>
    ret = (if method_of_name name = HTTP_GET then 0 else -25) \<and> r_http_version r' = 9 \<and>
    r_http_version r' < HTTP_VER_10"
proof -
  have "is_digit ch_9" by (simp add: is_digit_def)
  from parse_line_text [OF assms(1-7) this] show ?thesis by (auto simp: HTTP_VER_10_def)
qed

theorem minor_version_9_is_http_09_witness:
  "\<exists>r' b'. http_parse_request_line (test_mem (lit ''GET /a HTTP/1.9'' @ [CR, LF])) zero_request
      (test_buffer 17) = (0, r', b') \<and> r_http_version r' = 9"
proof -
  let ?line = "request_line_text (lit ''GET'') (lit ''a'') 49 ch_9"
  show ?thesis
    using minor_version_9_is_http_09 [of zero_request "test_buffer 17" "test_mem (?line @ [CR, LF])"
        "lit ''GET''" "lit ''a''" 49 "[]"]
    by (auto simp: request_line_text_def method_of_GET is_digit_def uri_byte_def lit_def)
qed

end
