(* ===== verification/Parse_Header.thy ===== *)
theory Parse_Header
  imports Http_Request
begin

text \<open>
  The header-line state machine of \<open>http/parse.c\<close>, \<open>http_parse_request_header\<close>: one definition per
  \<open>case\<close> label, \<open>hd_switch\<close> for the \<open>switch\<close>. The enumerators are local to the C function and share
  their names with those of the request line; here they carry the prefix \<open>H_\<close>. The local
  variables \<open>hash\<close> and \<open>i\<close> are part of the state of the loop.

  The store \<open>r->lowcase_header[i++] = c\<close> is not guarded: the index is masked only after the store.
  With an index beyond the array it is undefined behaviour, the outcome \<open>HUB\<close>.
\<close>

datatype header_status =
    H_start | H_name | H_space_before_value | H_value | H_space_after_value
  | H_almost_done | H_header_almost_done

definition hd_states :: "header_status list" where
  "hd_states = [H_start, H_name, H_space_before_value, H_value, H_space_after_value,
     H_almost_done, H_header_almost_done]"

fun hd_code :: "header_status \<Rightarrow> int" where
  "hd_code H_start = 0"
| "hd_code H_name = 1"
| "hd_code H_space_before_value = 2"
| "hd_code H_value = 3"
| "hd_code H_space_after_value = 4"
| "hd_code H_almost_done = 5"
| "hd_code H_header_almost_done = 6"

definition hd_decode :: "int \<Rightarrow> header_status option" where
  "hd_decode i = (if 0 \<le> i \<and> i < 7 then Some (hd_states ! nat i) else None)"

text \<open>The table \<open>lowcase\<close>: digits, the dash and letters, the latter in lower case; 0 elsewhere.\<close>

definition lowcase :: "u8 list" where
  "lowcase = replicate 45 0 @ lit ''-'' @ replicate 2 0 @ lit ''0123456789'' @ replicate 6 0 @
     [0] @ lit ''abcdefghijklmnopqrstuvwxyz'' @ replicate 5 0 @
     [0] @ lit ''abcdefghijklmnopqrstuvwxyz'' @ replicate 5 0 @ replicate 128 0"

text \<open>\<open>HASH(key, c)\<close> of \<open>util/hashtable.h\<close>, on \<open>unsigned\<close>.\<close>

definition HASH :: "u32 \<Rightarrow> u8 \<Rightarrow> u32" where
  "HASH key c = key * 31 + ucast c"

type_synonym hd_state = "header_status \<times> u32 \<times> u32 \<times> http_request"

datatype hd_stop = HFail int http_request | HUB | HDone ptr u32 u32 http_request
  | HHeader_done ptr http_request

type_synonym hd_out = "(hd_state, hd_stop) step"

definition hd_start :: "ptr \<Rightarrow> u8 \<Rightarrow> u32 \<Rightarrow> u32 \<Rightarrow> http_request \<Rightarrow> hd_out" where
  "hd_start p ch hash i r0 =
    (let r = r0\<lparr>r_header_name := set_p p (r_header_name r0), r_invalid_header := False\<rparr>;
         r' = r\<lparr>r_header_name := set_len (ptr_diff p (str_p (r_header_name r))) (r_header_name r)\<rparr>;
         c = lowcase ! unat ch in
     if ch = CR then Cont (H_header_almost_done, hash, i, r')
     else if ch = LF then Stop (HHeader_done p r')
     else if c \<noteq> 0 then
       Cont (H_name, HASH 0 c, 1, r\<lparr>r_lowcase_header := (r_lowcase_header r)[0 := c]\<rparr>)
     else if ch = 0 then Stop (HFail (-1) r)
     else Cont (H_name, hash, i, r\<lparr>r_invalid_header := True\<rparr>))"

text \<open>\<open>r->header_name.len = p - r->header_name.p\<close> and \<open>r->header_value.len = p - r->header_value.p\<close>\<close>

definition end_name :: "ptr \<Rightarrow> http_request \<Rightarrow> http_request" where
  "end_name p r = r\<lparr>r_header_name := set_len (ptr_diff p (str_p (r_header_name r))) (r_header_name r)\<rparr>"

definition end_value :: "ptr \<Rightarrow> http_request \<Rightarrow> http_request" where
  "end_value p r = r\<lparr>r_header_value := set_len (ptr_diff p (str_p (r_header_value r))) (r_header_value r)\<rparr>"

definition hd_name :: "ptr \<Rightarrow> u8 \<Rightarrow> u32 \<Rightarrow> u32 \<Rightarrow> http_request \<Rightarrow> hd_out" where
  "hd_name p ch hash i r =
    (let c = lowcase ! unat ch in
     if c \<noteq> 0 then
       (if unat i < HTTP_LC_HEADER_LEN then
          Cont (H_name, HASH hash c, (i + 1) AND (word_of_nat HTTP_LC_HEADER_LEN - 1),
            r\<lparr>r_lowcase_header := (r_lowcase_header r)[unat i := c]\<rparr>)
        else Stop HUB)
     else if ch = ch_colon then Cont (H_space_before_value, hash, i, end_name p r)
     else if ch = CR then
       Cont (H_almost_done, hash, i, (end_name p r)\<lparr>r_header_value := str_init\<rparr>)
     else if ch = LF then Stop (HDone p hash i ((end_name p r)\<lparr>r_header_value := str_init\<rparr>))
     else if ch = 0 then Stop (HFail (-2) r)
     else Cont (H_name, hash, i, r\<lparr>r_invalid_header := True\<rparr>))"

definition hd_space_before_value :: "ptr \<Rightarrow> u8 \<Rightarrow> u32 \<Rightarrow> u32 \<Rightarrow> http_request \<Rightarrow> hd_out" where
  "hd_space_before_value p ch hash i r =
    (if ch = ch_space then Cont (H_space_before_value, hash, i, r)
     else if ch = CR then Cont (H_almost_done, hash, i, r\<lparr>r_header_value := str_init\<rparr>)
     else if ch = LF then Stop (HDone p hash i (r\<lparr>r_header_value := str_init\<rparr>))
     else if ch = 0 then Stop (HFail (-3) r)
     else Cont (H_value, hash, i, r\<lparr>r_header_value := set_p p (r_header_value r)\<rparr>))"

definition hd_value :: "ptr \<Rightarrow> u8 \<Rightarrow> u32 \<Rightarrow> u32 \<Rightarrow> http_request \<Rightarrow> hd_out" where
  "hd_value p ch hash i r =
    (if ch = ch_space then Cont (H_space_after_value, hash, i, end_value p r)
     else if ch = CR then Cont (H_almost_done, hash, i, end_value p r)
     else if ch = LF then Stop (HDone p hash i (end_value p r))
     else if ch = 0 then Stop (HFail (-4) r)
     else Cont (H_value, hash, i, r))"

definition hd_space_after_value :: "ptr \<Rightarrow> u8 \<Rightarrow> u32 \<Rightarrow> u32 \<Rightarrow> http_request \<Rightarrow> hd_out" where
  "hd_space_after_value p ch hash i r =
    (if ch = ch_space then Cont (H_space_after_value, hash, i, r)
     else if ch = CR then Cont (H_almost_done, hash, i, r)
     else if ch = LF then Stop (HDone p hash i r)
     else if ch = 0 then Stop (HFail (-5) r)
     else Cont (H_value, hash, i, r))"

definition hd_almost_done :: "ptr \<Rightarrow> u8 \<Rightarrow> u32 \<Rightarrow> u32 \<Rightarrow> http_request \<Rightarrow> hd_out" where
  "hd_almost_done p ch hash i r =
    (if ch = LF then Stop (HDone p hash i r)
     else if ch = CR then Cont (H_almost_done, hash, i, r)
     else Stop (HFail (-6) r))"

definition hd_header_almost_done :: "ptr \<Rightarrow> u8 \<Rightarrow> http_request \<Rightarrow> hd_out" where
  "hd_header_almost_done p ch r =
    (if ch = LF then Stop (HHeader_done p r) else Stop (HFail (-7) r))"

definition hd_switch :: "ptr \<Rightarrow> u8 \<Rightarrow> hd_state \<Rightarrow> hd_out" where
  "hd_switch p ch s =
    (case s of (st, hash, i, r) \<Rightarrow>
      (case st of
         H_start \<Rightarrow> hd_start p ch hash i r
       | H_name \<Rightarrow> hd_name p ch hash i r
       | H_space_before_value \<Rightarrow> hd_space_before_value p ch hash i r
       | H_value \<Rightarrow> hd_value p ch hash i r
       | H_space_after_value \<Rightarrow> hd_space_after_value p ch hash i r
       | H_almost_done \<Rightarrow> hd_almost_done p ch hash i r
       | H_header_almost_done \<Rightarrow> hd_header_almost_done p ch r))"

text \<open>The loop, and the code after it and at the labels \<open>done\<close> and \<open>header_done\<close>.\<close>

definition http_parse_request_header ::
  "mem \<Rightarrow> http_request \<Rightarrow> buffer \<Rightarrow> (int \<times> http_request \<times> buffer) cres" where
  "http_parse_request_header m r b =
    (case hd_decode (r_state r) of
       None \<Rightarrow> Ret (1, r, b\<lparr>b_pos := b_last b\<rparr>)
     | Some st \<Rightarrow>
         (case scan hd_switch (b_pos b) (pending m b) (st, r_header_hash r, r_lowcase_index r, r) of
            Cont (st', hash, i, r') \<Rightarrow>
              Ret (1, r'\<lparr>r_state := hd_code st', r_header_hash := hash, r_lowcase_index := i\<rparr>,
                   b\<lparr>b_pos := b_last b\<rparr>)
          | Stop HUB \<Rightarrow> UB
          | Stop (HFail e r') \<Rightarrow> Ret (e, r', b)
          | Stop (HDone p hash i r') \<Rightarrow>
              Ret (0, r'\<lparr>r_state := hd_code H_start, r_header_hash := hash, r_lowcase_index := i\<rparr>,
                   b\<lparr>b_pos := p + 1\<rparr>)
          | Stop (HHeader_done p r') \<Rightarrow>
              Ret (100, r'\<lparr>r_state := hd_code H_start\<rparr>, b\<lparr>b_pos := p + 1\<rparr>)))"

subsection \<open>Reference: the hash of a header name\<close>

text \<open>\<open>hash_key_lc\<close> of \<open>http/request.c\<close>, which computes the key a handler is registered under.\<close>

definition hash_key_lc :: "u8 list \<Rightarrow> u32" where
  "hash_key_lc data = foldl (\<lambda>key c. HASH key (tolower c)) 0 data"

text \<open>The bytes a valid header name is made of.\<close>

definition name_byte :: "u8 \<Rightarrow> bool" where
  "name_byte c \<longleftrightarrow> is_digit c \<or> c = ch_dash \<or> ch_A \<le> c \<and> c \<le> ch_Z \<or> ch_a \<le> c \<and> c \<le> ch_z"

lemmas hd_defs =
  hd_start_def hd_name_def hd_space_before_value_def hd_value_def hd_space_after_value_def
  hd_almost_done_def hd_header_almost_done_def

subsection \<open>The table\<close>

lemma lowcase_eq:
  "lowcase = map (\<lambda>n. if name_byte (word_of_nat n) then tolower (word_of_nat n) else 0) [0..<256]"
  by code_simp

lemma lowcase_nth: "lowcase ! unat ch = (if name_byte ch then tolower ch else 0)"
proof -
  have "unat ch < 2 ^ LENGTH(8)" by (rule unsigned_less)
  then have "unat ch < 256" by simp
  then show ?thesis by (simp add: lowcase_eq)
qed

lemma tolower_all: "list_all (\<lambda>n. tolower (word_of_nat n) = 0 \<longrightarrow> n = 0) [0..<256]"
  by code_simp

lemma tolower_zero: "tolower ch = 0 \<Longrightarrow> ch = 0"
proof -
  have "list_all (\<lambda>n. tolower (word_of_nat n) = 0 \<longrightarrow> word_of_nat n = (0 :: u8)) [0..<256]"
    using tolower_all by (auto simp: list_all_iff)
  from u8_all [THEN iffD2, OF this] show "tolower ch = 0 \<Longrightarrow> ch = 0" by blast
qed

lemma tolower_name_byte [simp]: "name_byte ch \<Longrightarrow> tolower ch \<noteq> 0"
  by (auto simp: name_byte_def is_digit_def dest: tolower_zero)

lemma lowcase_zero_iff [simp]: "lowcase ! unat ch = 0 \<longleftrightarrow> \<not> name_byte ch"
  by (simp add: lowcase_nth)

lemma name_byte_neq: "name_byte c \<Longrightarrow> c \<noteq> CR \<and> c \<noteq> LF \<and> c \<noteq> 0 \<and> c \<noteq> ch_colon \<and> c \<noteq> ch_space"
  by (auto simp: name_byte_def is_digit_def)

lemma not_name_byte [simp]:
  "\<not> name_byte CR" "\<not> name_byte LF" "\<not> name_byte 0" "\<not> name_byte ch_colon" "\<not> name_byte ch_space"
  by (auto simp: name_byte_def is_digit_def)

lemma hash_key_lc_snoc: "hash_key_lc (cs @ [c]) = HASH (hash_key_lc cs) (tolower c)"
  by (simp add: hash_key_lc_def)

lemma hd_decode_code [simp]: "hd_decode (hd_code st) = Some st"
  by (cases st) (simp_all add: hd_decode_def hd_states_def)

lemma hd_decode_0 [simp]: "hd_decode 0 = Some H_start"
  using hd_decode_code [of H_start] by simp

text \<open>The mask keeps the index inside the array.\<close>

lemma mask_index: "unat ((i + 1) AND (word_of_nat HTTP_LC_HEADER_LEN - 1) :: u32) < HTTP_LC_HEADER_LEN"
proof -
  have "(i + 1) AND 31 \<le> (31 :: u32)" by (rule word_and_le1)
  then show ?thesis by (simp add: HTTP_LC_HEADER_LEN_def word_le_nat_alt)
qed

end
