(* ===== verification/Parse_Header_Correct.thy ===== *)
theory Parse_Header_Correct
  imports Parse_Header
begin

text \<open>
  Correctness of the header-line parser: the invariant of its state machine (slices in bounds, the
  index into \<open>lowcase_header\<close> in range, the running hash equal to the reference hash of the name
  read so far), absence of undefined behaviour when the index starts in range, resumption after an
  incomplete line, and the functional behaviour on well-formed header lines.
\<close>

subsection \<open>Definitions: the invariant\<close>

text \<open>\<open>http_request_handler\<close> does not initialise the index into \<open>lowcase_header\<close>. The flag \<open>B\<close> says that it is known to be in range: then it
  stays in range and nothing is undefined; without it the rest of the invariant holds, and the store out of bounds is possible.\<close>

definition name_hashed :: "mem \<Rightarrow> u32 \<Rightarrow> bool \<Rightarrow> u8 list \<Rightarrow> bool" where
  "name_hashed m hash invalid name \<longleftrightarrow>
     (\<not> invalid \<longrightarrow> name \<noteq> [] \<and> (\<forall>c \<in> set name. name_byte c) \<and> hash = hash_key_lc name)"

definition name_read :: "mem \<Rightarrow> ptr \<Rightarrow> ptr \<Rightarrow> u32 \<Rightarrow> http_request \<Rightarrow> bool" where
  "name_read m lo p hash r \<longleftrightarrow> str_in lo p (r_header_name r) \<and>
     name_hashed m hash (r_invalid_header r) (str_bytes m (r_header_name r))"

definition index_ok :: "u32 \<Rightarrow> http_request \<Rightarrow> bool" where
  "index_ok i r \<longleftrightarrow> unat i < HTTP_LC_HEADER_LEN \<and> length (r_lowcase_header r) = HTTP_LC_HEADER_LEN"

text \<open>The array \<open>lowcase_header\<close> of the structure has the length it is declared with.\<close>

definition lc_array :: "http_request \<Rightarrow> bool" where
  "lc_array r \<longleftrightarrow> length (r_lowcase_header r) = HTTP_LC_HEADER_LEN"

fun hd_inv :: "bool \<Rightarrow> mem \<Rightarrow> ptr \<Rightarrow> ptr \<Rightarrow> hd_state \<Rightarrow> bool" where
  "hd_inv B m lo p (st, hash, i, r) \<longleftrightarrow> lo \<le> p \<and> (B \<longrightarrow> index_ok i r) \<and>
    (case st of
       H_start \<Rightarrow> True
     | H_name \<Rightarrow> lo \<le> str_p (r_header_name r) \<and> str_p (r_header_name r) < p \<and>
         name_hashed m hash (r_invalid_header r)
           (bytes_at m (str_p (r_header_name r)) (p - str_p (r_header_name r)))
     | H_space_before_value \<Rightarrow> name_read m lo p hash r
     | H_value \<Rightarrow> name_read m lo p hash r \<and>
         lo \<le> str_p (r_header_value r) \<and> str_p (r_header_value r) < p
     | H_space_after_value \<Rightarrow> name_read m lo p hash r \<and> str_in lo p (r_header_value r)
     | H_almost_done \<Rightarrow> name_read m lo p hash r \<and> str_opt_in lo p (r_header_value r)
     | H_header_almost_done \<Rightarrow> True)"

declare hd_inv.simps [simp del]

text \<open>What holds of a parsed header line.\<close>

definition header_line_ok :: "bool \<Rightarrow> mem \<Rightarrow> ptr \<Rightarrow> ptr \<Rightarrow> u32 \<Rightarrow> u32 \<Rightarrow> http_request \<Rightarrow> bool" where
  "header_line_ok B m lo hi hash i r \<longleftrightarrow>
     name_read m lo hi hash r \<and> str_opt_in lo hi (r_header_value r) \<and> (B \<longrightarrow> index_ok i r)"

subsection \<open>One step\<close>

lemma index_ok_simps [simp]:
  "index_ok i (r\<lparr>r_header_name := s\<rparr>) = index_ok i r"
  "index_ok i (r\<lparr>r_header_value := s\<rparr>) = index_ok i r"
  "index_ok i (r\<lparr>r_invalid_header := x\<rparr>) = index_ok i r"
  "index_ok i (end_name p r) = index_ok i r"
  "index_ok i (end_value p r) = index_ok i r"
  by (simp_all add: index_ok_def end_name_def end_value_def)

lemma index_ok_store:
  "index_ok i r \<Longrightarrow> index_ok ((j + 1) AND (word_of_nat HTTP_LC_HEADER_LEN - 1))
     (r\<lparr>r_lowcase_header := (r_lowcase_header r)[k := c]\<rparr>)"
  using mask_index [of j] by (simp add: index_ok_def)

lemma name_read_Suc: "name_read m lo p hash r \<Longrightarrow> name_read m lo (Suc p) hash r"
  by (auto simp: name_read_def str_in_def)

lemma name_read_value [simp]:
  "name_read m lo p hash (r\<lparr>r_header_value := s\<rparr>) = name_read m lo p hash r"
  "name_read m lo p hash (end_value q r) = name_read m lo p hash r"
  by (simp_all add: name_read_def end_value_def)

lemma name_read_end_name:
  assumes "lo \<le> str_p (r_header_name r)" "str_p (r_header_name r) < p" "p < 2 ^ 64"
    "name_hashed m hash (r_invalid_header r)
       (bytes_at m (str_p (r_header_name r)) (p - str_p (r_header_name r)))"
  shows "name_read m lo (Suc p) hash (end_name p r)"
  using assms by (simp add: name_read_def end_name_def str_in_def str_bytes_def)

lemma bytes_at_snoc: "q \<le> p \<Longrightarrow> bytes_at m q (Suc p - q) = bytes_at m q (p - q) @ [m p]"
  using bytes_at_add [of m q "p - q" 1] by (simp add: Suc_diff_le bytes_at_Suc)

lemma bytes_at_1 [simp]: "bytes_at m p (Suc p - p) = [m p]" "bytes_at m p (Suc 0) = [m p]"
  by (simp_all add: bytes_at_Suc)

lemma hd_inv_start:
  assumes "hd_inv B m lo p (H_start, hash, i, r)" "hd_start p (m p) hash i r = Cont s'"
  shows "hd_inv B m lo (Suc p) s'"
  using assms
  by (auto simp: hd_start_def hd_inv.simps Let_def name_hashed_def lowcase_nth hash_key_lc_def
      index_ok_def HTTP_LC_HEADER_LEN_def split: if_splits)

lemma hd_inv_name:
  assumes "hd_inv B m lo p (H_name, hash, i, r)" "hd_name p (m p) hash i r = Cont s'" "p < 2 ^ 64"
  shows "hd_inv B m lo (Suc p) s'"
  using assms
  by (auto simp: hd_name_def hd_inv.simps Let_def name_hashed_def index_ok_store lowcase_nth
      bytes_at_snoc hash_key_lc_snoc name_read_end_name split: if_splits)

lemma end_value_sel:
  assumes "lo \<le> str_p (r_header_value r)" "str_p (r_header_value r) < p" "p < 2 ^ 64"
  shows "str_in lo (Suc p) (r_header_value (end_value p r))"
  using assms by (simp add: end_value_def str_in_def)

lemma str_opt_in_Suc: "str_opt_in lo p s \<Longrightarrow> str_opt_in lo (Suc p) s"
  by (erule str_opt_in_mono) simp

lemma str_in_Suc: "str_in lo p s \<Longrightarrow> str_in lo (Suc p) s"
  by (erule str_in_mono) simp

lemma str_in_opt: "str_in lo p s \<Longrightarrow> str_opt_in lo p s"
  by (simp add: str_opt_in_def)

lemmas hd_transitions =
  name_read_Suc end_value_sel str_opt_in_Suc str_in_Suc str_in_opt

lemma hd_switch_inv:
  assumes inv: "hd_inv B m lo p (st, hash, i, r)" and step: "hd_switch p (m p) (st, hash, i, r) = Cont s'"
    and p: "p < 2 ^ 64"
  shows "hd_inv B m lo (Suc p) s'"
proof (cases st)
  case H_start
  with inv step show ?thesis using hd_inv_start by (simp add: hd_switch_def)
next
  case H_name
  with inv step p show ?thesis using hd_inv_name by (simp add: hd_switch_def)
next
  case H_space_before_value
  with inv step show ?thesis
    by (auto simp: hd_switch_def hd_space_before_value_def hd_inv.simps hd_transitions split: if_splits)
next
  case H_value
  with inv step p show ?thesis
    by (auto simp: hd_switch_def hd_value_def hd_inv.simps hd_transitions split: if_splits)
next
  case H_space_after_value
  with inv step show ?thesis
    by (auto simp: hd_switch_def hd_space_after_value_def hd_inv.simps str_in_def name_read_Suc
        str_opt_in_def split: if_splits)
qed (use inv step in \<open>auto simp: hd_switch_def hd_almost_done_def hd_header_almost_done_def
  hd_inv.simps hd_transitions split: if_splits\<close>)

lemma hd_switch_no_UB:
  "hd_inv B m lo p (st, hash, i, r) \<Longrightarrow> B \<Longrightarrow> hd_switch p c (st, hash, i, r) \<noteq> Stop HUB"
  by (cases st) (auto simp: hd_switch_def hd_defs hd_inv.simps index_ok_def Let_def split: if_splits)

lemma hd_switch_done:
  assumes inv: "hd_inv B m lo p (st, hash, i, r)" and p: "p < 2 ^ 64"
    and step: "hd_switch p (m p) (st, hash, i, r) = Stop (HDone q hash' i' r')"
  shows "q = p \<and> header_line_ok B m lo (Suc p) hash' i' r'"
  using assms
  by (cases st) (auto simp: hd_switch_def hd_defs hd_inv.simps Let_def header_line_ok_def
      hd_transitions name_read_end_name split: if_splits)

lemma hd_switch_header_done:
  assumes "hd_inv B m lo p (st, hash, i, r)"
    "hd_switch p c (st, hash, i, r) = Stop (HHeader_done q r')"
  shows "q = p \<and> (B \<longrightarrow> length (r_lowcase_header r') = HTTP_LC_HEADER_LEN)"
  using assms
  by (cases st) (auto simp: hd_switch_def hd_defs hd_inv.simps Let_def index_ok_def split: if_splits)

lemma hd_switch_fail:
  "hd_switch p c (st, hash, i, r) = Stop (HFail e r') \<Longrightarrow> -7 \<le> e \<and> e \<le> -1"
  by (cases st) (auto simp: hd_switch_def hd_defs Let_def split: if_splits)

text \<open>What holds when the loop is left at position \<open>p\<close>.\<close>

fun hd_leaves :: "bool \<Rightarrow> mem \<Rightarrow> ptr \<Rightarrow> ptr \<Rightarrow> hd_stop \<Rightarrow> bool" where
  "hd_leaves B m lo p (HFail e r) \<longleftrightarrow> -7 \<le> e \<and> e \<le> -1"
| "hd_leaves B m lo p HUB \<longleftrightarrow> \<not> B"
| "hd_leaves B m lo p (HDone q hash i r) \<longleftrightarrow> q = p \<and> header_line_ok B m lo (Suc p) hash i r"
| "hd_leaves B m lo p (HHeader_done q r) \<longleftrightarrow> q = p \<and> (B \<longrightarrow> length (r_lowcase_header r) = HTTP_LC_HEADER_LEN)"

interpretation hd: byte_scanner hd_switch "\<lambda>p c. m p = c" "hd_inv B m lo" "hd_leaves B m lo" for B m lo
proof unfold_locales
  fix p s c s'
  assume "hd_inv B m lo p s" "m p = c" "p < 2 ^ 64" "hd_switch p c s = Cont s'"
  then show "hd_inv B m lo (Suc p) s'" by (cases s) (auto intro: hd_switch_inv)
next
  fix p s c out
  assume "hd_inv B m lo p s" "m p = c" "p < 2 ^ 64" "hd_switch p c s = Stop out"
  then show "hd_leaves B m lo p out"
    by (cases s; cases out)
      (auto dest: hd_switch_fail hd_switch_done hd_switch_header_done hd_switch_no_UB)
qed

text \<open>The parser as a whole. \<open>header_open\<close> is the condition on the request it may be called with.\<close>

definition header_open :: "bool \<Rightarrow> mem \<Rightarrow> ptr \<Rightarrow> http_request \<Rightarrow> buffer \<Rightarrow> bool" where
  "header_open B m lo r b \<longleftrightarrow> (\<exists>st. hd_decode (r_state r) = Some st \<and>
     hd_inv B m lo (b_pos b) (st, r_header_hash r, r_lowcase_index r, r))"

lemma hd_inv_put [simp]:
  "hd_inv B m lo p (st, hash, i, r\<lparr>r_state := x, r_header_hash := y, r_lowcase_index := z\<rparr>) =
     hd_inv B m lo p (st, hash, i, r)"
  by (cases st) (simp_all add: hd_inv.simps name_read_def index_ok_def)

lemma hd_inv_index: "hd_inv B m lo p (st, hash, i, r) \<Longrightarrow> B \<Longrightarrow> index_ok i r"
  by (simp add: hd_inv.simps)

lemma index_ok_put [simp]:
  "index_ok i (r\<lparr>r_state := x, r_header_hash := y, r_lowcase_index := z\<rparr>) = index_ok i r"
  by (simp add: index_ok_def)

lemma header_line_ok_put [simp]:
  "header_line_ok B m lo hi hash i (r\<lparr>r_state := x, r_header_hash := y, r_lowcase_index := z\<rparr>) =
     header_line_ok B m lo hi hash i r"
  by (simp add: header_line_ok_def name_read_def index_ok_def)

lemma parse_header_cases:
  assumes "header_open B m lo r b" and "buffer_wf b"
  obtains
    (more) r' where "http_parse_request_header m r b = Ret (1, r', b\<lparr>b_pos := b_last b\<rparr>)"
      "header_open B m lo r' (b\<lparr>b_pos := b_last b\<rparr>)" "B \<longrightarrow> index_ok (r_lowcase_index r') r'"
  | (line) q r' where "http_parse_request_header m r b = Ret (0, r', b\<lparr>b_pos := Suc q\<rparr>)"
      "b_pos b \<le> q" "q < b_last b" "r_state r' = 0"
      "header_line_ok B m lo (Suc q) (r_header_hash r') (r_lowcase_index r') r'"
  | (fin) q r' where "http_parse_request_header m r b = Ret (100, r', b\<lparr>b_pos := Suc q\<rparr>)"
      "b_pos b \<le> q" "q < b_last b" "r_state r' = 0"
  | (err) e r' where "http_parse_request_header m r b = Ret (e, r', b)" "-7 \<le> e" "e \<le> -1"
  | (ub) "http_parse_request_header m r b = UB" "\<not> B"
proof -
  let ?s = "\<lambda>st. (st, r_header_hash r, r_lowcase_index r, r)"
  from assms(1) obtain st where st: "hd_decode (r_state r) = Some st"
    and inv: "hd_inv B m lo (b_pos b) (?s st)"
    by (auto simp: header_open_def)
  from assms(2) have len: "b_pos b + length (pending m b) = b_last b" "b_last b \<le> 2 ^ 64"
    by (simp_all add: pending_def buffer_wf_def)
  have rd: "m (b_pos b + i) = pending m b ! i" if "i < length (pending m b)" for i
    using that by (simp add: pending_def)
  let ?scan = "scan hd_switch (b_pos b) (pending m b) (?s st)"
  show thesis
  proof (cases ?scan)
    case (Cont s)
    obtain st1 hash i r1 where s: "s = (st1, hash, i, r1)" by (metis prod.exhaust)
    from hd.scan_keeps [OF Cont inv rd] len s have "hd_inv B m lo (b_last b) (st1, hash, i, r1)" by simp
    then show thesis using Cont s st
      by (intro more [of "r1\<lparr>r_state := hd_code st1, r_header_hash := hash, r_lowcase_index := i\<rparr>"])
        (auto simp: http_parse_request_header_def header_open_def dest: hd_inv_index)
  next
    case (Stop out)
    from hd.scan_leaves [OF Stop inv rd] len obtain q where
      q: "b_pos b \<le> q" "q < b_last b" "hd_leaves B m lo q out" by auto
    show thesis
    proof (cases out)
      case (HFail e r1)
      with Stop st q show thesis by (intro err [of e r1]) (simp_all add: http_parse_request_header_def)
    next
      case HUB
      with Stop st q show thesis by (intro ub) (simp_all add: http_parse_request_header_def)
    next
      case (HDone q' hash i r1)
      with Stop st q show thesis
        by (intro line [of "r1\<lparr>r_state := 0, r_header_hash := hash, r_lowcase_index := i\<rparr>" q])
          (simp_all add: http_parse_request_header_def)
    next
      case (HHeader_done q' r1)
      with Stop st q show thesis
        by (intro fin [of "r1\<lparr>r_state := 0\<rparr>" q]) (simp_all add: http_parse_request_header_def)
    qed
  qed
qed

lemma header_openI:
  assumes "r_state r = 0" "B \<longrightarrow> index_ok (r_lowcase_index r) r"
  shows "header_open B m (b_pos b) r b"
  using assms by (simp add: header_open_def hd_inv.simps)

end
