(* ===== verification/Parse_Header_Behaviour.thy ===== *)
theory Parse_Header_Behaviour
  imports Parse_Header_Correct
begin

text \<open>
  What the header-line parser does as a whole: its result on a well-formed header line, the memory
  safety and the hash of every line it accepts, the absence of undefined behaviour when the index
  into \<open>lowcase_header\<close> starts in range (and its presence when it does not), and resumption after
  an incomplete line.
\<close>

subsection \<open>Definitions\<close>

definition value_byte :: "u8 \<Rightarrow> bool" where
  "value_byte c \<longleftrightarrow> c \<noteq> 0 \<and> c \<noteq> CR \<and> c \<noteq> LF"

text \<open>\<open>name:\<close>, \<open>a\<close> spaces, the value, \<open>k\<close> spaces.\<close>

definition header_line_text :: "u8 list \<Rightarrow> nat \<Rightarrow> u8 list \<Rightarrow> nat \<Rightarrow> u8 list" where
  "header_line_text name a val k =
     name @ [ch_colon] @ replicate a ch_space @ val @ replicate k ch_space"

definition valid_name :: "u8 list \<Rightarrow> bool" where
  "valid_name name \<longleftrightarrow> name \<noteq> [] \<and> (\<forall>c \<in> set name. name_byte c)"

definition trimmed_value :: "u8 list \<Rightarrow> bool" where
  "trimmed_value val \<longleftrightarrow> val \<noteq> [] \<and> (\<forall>c \<in> set val. value_byte c) \<and>
     hd val \<noteq> ch_space \<and> last val \<noteq> ch_space"

lemma length_header_line_text [simp]:
  "length (header_line_text name a val k) = length name + a + length val + k + 1"
  by (simp add: header_line_text_def)

subsection \<open>The name\<close>

lemma lowcase_colon: "lowcase ! 58 = 0"
  using lowcase_nth [of ch_colon] by simp

lemma set_len_set_len [simp]: "set_len n (set_len k s) = set_len n s"
  by (simp add: set_len_def)

lemma set_len_self [simp]: "set_len (str_len s) s = s"
  by (simp add: set_len_def)

lemma hd_name_byte:
  assumes "name_byte c" "index_ok i r"
  shows "hd_switch p c (H_name, hash, i, r) = Cont (H_name, HASH hash (tolower c),
    (i + 1) AND (word_of_nat HTTP_LC_HEADER_LEN - 1),
    r\<lparr>r_lowcase_header := (r_lowcase_header r)[unat i := tolower c]\<rparr>)"
  using assms by (simp add: hd_switch_def hd_name_def lowcase_nth index_ok_def Let_def)

text \<open>Reading the rest of a name changes only the hash, the index and the lower-case copy.\<close>

lemma scan_name_rest:
  assumes "\<forall>c \<in> set cs. name_byte c" "index_ok i r"
  shows "\<exists>i' l. scan hd_switch p cs (H_name, hash, i, r) =
      Cont (H_name, foldl (\<lambda>key c. HASH key (tolower c)) hash cs, i', r\<lparr>r_lowcase_header := l\<rparr>) \<and>
    index_ok i' (r\<lparr>r_lowcase_header := l\<rparr>)"
  using assms
proof (induction cs arbitrary: p hash i r)
  case Nil
  then show ?case by (intro exI [of _ i] exI [of _ "r_lowcase_header r"]) simp
next
  case (Cons c cs)
  let ?r = "r\<lparr>r_lowcase_header := (r_lowcase_header r)[unat i := tolower c]\<rparr>"
  let ?i = "(i + 1) AND (word_of_nat HTTP_LC_HEADER_LEN - 1)"
  have "index_ok ?i ?r" using Cons.prems(2) by (rule index_ok_store)
  with Cons.IH [of ?i ?r "Suc p" "HASH hash (tolower c)"] Cons.prems
  show ?case by (simp add: hd_name_byte)
qed

lemma scan_name:
  assumes "valid_name name" "lc_array r" "p + length name < 2 ^ 64"
  shows "\<exists>i' l. scan hd_switch p (name @ [ch_colon]) (H_start, hash, i, r) =
      Cont (H_space_before_value, hash_key_lc name, i', r\<lparr>r_header_name := \<lparr>str_p = p, str_len = length name\<rparr>,
        r_invalid_header := False, r_lowcase_header := l\<rparr>) \<and>
    index_ok i' (r\<lparr>r_lowcase_header := l\<rparr>)"
proof -
  from assms(1) obtain c cs where name: "name = c # cs" and c: "name_byte c"
    and cs: "\<forall>c \<in> set cs. name_byte c"
    by (cases name) (auto simp: valid_name_def)
  define r1 where "r1 = r\<lparr>r_header_name := set_p p (r_header_name r), r_invalid_header := False,
    r_lowcase_header := (r_lowcase_header r)[0 := tolower c]\<rparr>"
  from assms(2) have "index_ok 1 r1" by (simp add: index_ok_def lc_array_def r1_def HTTP_LC_HEADER_LEN_def)
  from scan_name_rest [OF cs this, of "Suc p" "HASH 0 (tolower c)"] obtain i' l where
    rest: "scan hd_switch (Suc p) cs (H_name, HASH 0 (tolower c), 1, r1) =
      Cont (H_name, hash_key_lc name, i', r1\<lparr>r_lowcase_header := l\<rparr>)"
    and ok: "index_ok i' (r1\<lparr>r_lowcase_header := l\<rparr>)"
    by (auto simp: hash_key_lc_def name)
  have first: "hd_switch p c (H_start, hash, i, r) = Cont (H_name, HASH 0 (tolower c), 1, r1)"
    using name_byte_neq [OF c] c by (simp add: hd_switch_def hd_start_def Let_def r1_def lowcase_nth)
  have colon: "hd_switch (p + length name) ch_colon (H_name, hash_key_lc name, i', r1\<lparr>r_lowcase_header := l\<rparr>) =
    Cont (H_space_before_value, hash_key_lc name, i', r\<lparr>r_header_name := \<lparr>str_p = p, str_len = length name\<rparr>,
      r_invalid_header := False, r_lowcase_header := l\<rparr>)"
    using assms(3) by (simp add: hd_switch_def hd_name_def Let_def end_name_def r1_def set_len_set_p lowcase_colon)
  from ok have "index_ok i' (r\<lparr>r_lowcase_header := l\<rparr>)" by (simp add: index_ok_def r1_def)
  with first rest colon show ?thesis by (auto simp: name scan_append)
qed

subsection \<open>The value\<close>

text \<open>The bytes of a value keep the parser in one of its two value states; the value read so far is
  the part up to the last space.\<close>

definition in_value :: "header_status \<Rightarrow> bool" where
  "in_value st \<longleftrightarrow> st \<in> {H_value, H_space_after_value}"

lemma hd_switch_value_byte:
  assumes "in_value st" "value_byte c"
  shows "\<exists>n. hd_switch p c (st, hash, i, r) =
    Cont (if c = ch_space then H_space_after_value else H_value, hash, i,
      r\<lparr>r_header_value := set_len n (r_header_value r)\<rparr>)"
proof (cases "st = H_value \<and> c = ch_space")
  case True
  then show ?thesis
    by (intro exI [of _ "ptr_diff p (str_p (r_header_value r))"])
      (simp add: hd_switch_def hd_value_def end_value_def)
next
  case False
  with assms show ?thesis
    by (intro exI [of _ "str_len (r_header_value r)"])
      (auto simp: in_value_def value_byte_def hd_switch_def hd_value_def hd_space_after_value_def)
qed

lemma scan_value_bytes:
  assumes "\<forall>c \<in> set cs. value_byte c" "in_value st" "cs \<noteq> []"
  shows "\<exists>n. scan hd_switch p cs (st, hash, i, r) =
    Cont (if last cs = ch_space then H_space_after_value else H_value, hash, i,
      r\<lparr>r_header_value := set_len n (r_header_value r)\<rparr>)"
  using assms
proof (induction cs arbitrary: p st r)
  case Nil
  then show ?case by blast
next
  case (Cons c cs)
  from hd_switch_value_byte [OF Cons.prems(2), of c p hash i r] Cons.prems(1) obtain n where
    step: "hd_switch p c (st, hash, i, r) = Cont (if c = ch_space then H_space_after_value else H_value,
      hash, i, r\<lparr>r_header_value := set_len n (r_header_value r)\<rparr>)"
    by auto
  show ?case
  proof (cases "cs = []")
    case True
    with step show ?thesis by auto
  next
    case False
    with Cons.IH [of "if c = ch_space then H_space_after_value else H_value" "Suc p"
        "r\<lparr>r_header_value := set_len n (r_header_value r)\<rparr>"] Cons.prems step show ?thesis
      by (auto simp: in_value_def)
  qed
qed

lemma scan_value:
  assumes "trimmed_value val"
  shows "\<exists>n. scan hd_switch p val (H_space_before_value, hash, i, r) =
    Cont (H_value, hash, i, r\<lparr>r_header_value := \<lparr>str_p = p, str_len = n\<rparr>\<rparr>)"
proof -
  from assms obtain c cs where val: "val = c # cs" and c: "value_byte c" "c \<noteq> ch_space"
    and cs: "\<forall>c \<in> set cs. value_byte c" and lst: "last val \<noteq> ch_space"
    by (cases val) (auto simp: trimmed_value_def)
  let ?r = "r\<lparr>r_header_value := set_p p (r_header_value r)\<rparr>"
  have first: "hd_switch p c (H_space_before_value, hash, i, r) = Cont (H_value, hash, i, ?r)"
    using c by (simp add: hd_switch_def hd_space_before_value_def value_byte_def)
  show ?thesis
  proof (cases "cs = []")
    case True
    have "set_p p (r_header_value r) = \<lparr>str_p = p, str_len = str_len (r_header_value r)\<rparr>"
      by (simp add: set_p_def)
    with True first have "scan hd_switch p val (H_space_before_value, hash, i, r) =
      Cont (H_value, hash, i, r\<lparr>r_header_value := \<lparr>str_p = p, str_len = str_len (r_header_value r)\<rparr>\<rparr>)"
      by (simp only: val scan.simps step.case)
    then show ?thesis by blast
  next
    case False
    with scan_value_bytes [OF cs, of H_value "Suc p" hash i ?r] lst obtain n where
      "scan hd_switch (Suc p) cs (H_value, hash, i, ?r) =
        Cont (H_value, hash, i, r\<lparr>r_header_value := \<lparr>str_p = p, str_len = n\<rparr>\<rparr>)"
      by (auto simp: in_value_def val set_len_set_p)
    with first show ?thesis by (auto simp: val)
  qed
qed

text \<open>The spaces after a value and the line end fix its length.\<close>

lemma scan_value_end:
  assumes "str_p (r_header_value r) \<le> p" "p + k < 2 ^ 64"
  shows "scan hd_switch p (replicate k ch_space @ [CR, LF]) (H_value, hash, i, r) =
    Stop (HDone (p + k + 1) hash i
      (r\<lparr>r_header_value := set_len (p - str_p (r_header_value r)) (r_header_value r)\<rparr>))"
proof (cases k)
  case 0
  with assms show ?thesis
    by (simp add: hd_switch_def hd_value_def hd_almost_done_def end_value_def)
next
  case (Suc k')
  let ?r = "r\<lparr>r_header_value := set_len (p - str_p (r_header_value r)) (r_header_value r)\<rparr>"
  have "hd_switch p ch_space (H_value, hash, i, r) = Cont (H_space_after_value, hash, i, ?r)"
    using assms by (simp add: hd_switch_def hd_value_def end_value_def)
  moreover have "scan hd_switch (Suc p) (replicate k' ch_space) (H_space_after_value, hash, i, ?r) =
      Cont (H_space_after_value, hash, i, ?r)"
    by (rule scan_skip) (simp add: hd_switch_def hd_space_after_value_def)
  ultimately show ?thesis
    by (simp add: Suc scan_append hd_switch_def hd_space_after_value_def hd_almost_done_def)
qed

lemma scan_spaces:
  "scan hd_switch p (replicate a ch_space) (H_space_before_value, hash, i, r) =
    Cont (H_space_before_value, hash, i, r)"
  by (rule scan_skip) (simp add: hd_switch_def hd_space_before_value_def)

subsection \<open>A whole header line\<close>

lemma parse_header_text:
  assumes st: "r_state r = 0" and arr: "lc_array r" and wf: "buffer_wf b"
    and inp: "pending m b = header_line_text name a val k @ [CR, LF] @ rest"
    and name: "valid_name name" and val: "trimmed_value val"
  shows "\<exists>r'. http_parse_request_header m r b =
      Ret (0, r', b\<lparr>b_pos := b_pos b + length (header_line_text name a val k) + 2\<rparr>) \<and>
    str_bytes m (r_header_name r') = name \<and> str_bytes m (r_header_value r') = val \<and>
    r_header_hash r' = hash_key_lc name \<and> \<not> r_invalid_header r' \<and> r_state r' = 0 \<and>
    index_ok (r_lowcase_index r') r'"
proof -
  let ?p = "b_pos b" and ?n = "length name" and ?v = "length val"
  have bytes: "bytes_at m ?p (b_last b - ?p) =
      name @ [ch_colon] @ replicate a ch_space @ val @ replicate k ch_space @ [CR, LF] @ rest"
    using inp by (simp add: pending_def header_line_text_def)
  have "b_last b - ?p = ?n + a + ?v + k + 3 + length rest" using arg_cong [OF bytes, of length] by simp
  then have lim: "?p + ?n + a + ?v + k + 3 < 2 ^ 64" using wf by (auto simp: buffer_wf_def)
  have name_at: "bytes_at m ?p ?n = name"
    using bytes_at_part [of m ?p _ "[]" name] bytes by simp
  have val_at: "bytes_at m (?p + ?n + 1 + a) ?v = val"
    using bytes_at_part [of m ?p _ "name @ ch_colon # replicate a ch_space" val] bytes
    by (simp add: add.assoc)
  obtain i1 l where s1: "scan hd_switch ?p (name @ [ch_colon])
      (H_start, r_header_hash r, r_lowcase_index r, r) =
    Cont (H_space_before_value, hash_key_lc name, i1, r\<lparr>r_header_name := \<lparr>str_p = ?p, str_len = ?n\<rparr>,
      r_invalid_header := False, r_lowcase_header := l\<rparr>)"
    and ok: "index_ok i1 (r\<lparr>r_lowcase_header := l\<rparr>)"
    using scan_name [OF name arr, of ?p "r_header_hash r" "r_lowcase_index r"] lim by auto
  define r1 where "r1 = r\<lparr>r_header_name := \<lparr>str_p = ?p, str_len = ?n\<rparr>, r_invalid_header := False,
    r_lowcase_header := l\<rparr>"
  obtain n where s2: "scan hd_switch (?p + ?n + 1 + a) val (H_space_before_value, hash_key_lc name, i1, r1) =
    Cont (H_value, hash_key_lc name, i1, r1\<lparr>r_header_value := \<lparr>str_p = ?p + ?n + 1 + a, str_len = n\<rparr>\<rparr>)"
    using scan_value [OF val] by blast
  define r2 where "r2 = r1\<lparr>r_header_value := \<lparr>str_p = ?p + ?n + 1 + a, str_len = ?v\<rparr>\<rparr>"
  have s3: "scan hd_switch (?p + ?n + 1 + a + ?v) (replicate k ch_space @ [CR, LF]) (H_value, hash_key_lc name, i1,
      r1\<lparr>r_header_value := \<lparr>str_p = ?p + ?n + 1 + a, str_len = n\<rparr>\<rparr>) =
    Stop (HDone (?p + ?n + 1 + a + ?v + k + 1) (hash_key_lc name) i1 r2)"
    using scan_value_end [of "r1\<lparr>r_header_value := \<lparr>str_p = ?p + ?n + 1 + a, str_len = n\<rparr>\<rparr>"] lim
    by (simp add: r2_def set_len_def)
  let ?fin = "replicate k ch_space @ [CR, LF]"
  have "scan hd_switch ?p ((name @ [ch_colon]) @ replicate a ch_space @ val @ ?fin @ rest)
      (H_start, r_header_hash r, r_lowcase_index r, r) =
    scan hd_switch (?p + ?n + 1) (replicate a ch_space @ val @ ?fin @ rest)
      (H_space_before_value, hash_key_lc name, i1, r1)"
    unfolding scan_append_Cont [OF s1] r1_def [symmetric] by simp
  also have "\<dots> = scan hd_switch (?p + ?n + 1 + a) (val @ ?fin @ rest)
      (H_space_before_value, hash_key_lc name, i1, r1)"
    unfolding scan_append_Cont [OF scan_spaces] by simp
  also have "\<dots> = Stop (HDone (?p + ?n + 1 + a + ?v + k + 1) (hash_key_lc name) i1 r2)"
    unfolding scan_append_Cont [OF s2] by (rule scan_append_Stop [OF s3])
  finally have "scan hd_switch ?p ((name @ [ch_colon]) @ replicate a ch_space @ val @ ?fin @ rest)
      (H_start, r_header_hash r, r_lowcase_index r, r) =
    Stop (HDone (?p + ?n + 1 + a + ?v + k + 1) (hash_key_lc name) i1 r2)" .
  then have "http_parse_request_header m r b = Ret (0, r2\<lparr>r_state := 0, r_header_hash := hash_key_lc name,
      r_lowcase_index := i1\<rparr>, b\<lparr>b_pos := ?p + length (header_line_text name a val k) + 2\<rparr>)"
    using st inp by (simp add: http_parse_request_header_def header_line_text_def numeral_eq_Suc add.assoc)
  with name_at val_at ok show ?thesis
    by (auto simp: r2_def r1_def str_bytes_def index_ok_def)
qed

subsection \<open>Resumption\<close>

text \<open>No case of the switch looks at or changes the three members the state of the loop is saved in.\<close>

abbreviation put_saved :: "int \<Rightarrow> u32 \<Rightarrow> u32 \<Rightarrow> http_request \<Rightarrow> http_request" where
  "put_saved x y z r \<equiv> r\<lparr>r_state := x, r_header_hash := y, r_lowcase_index := z\<rparr>"

fun put_stop :: "int \<Rightarrow> u32 \<Rightarrow> u32 \<Rightarrow> hd_stop \<Rightarrow> hd_stop" where
  "put_stop x y z (HFail e r) = HFail e (put_saved x y z r)"
| "put_stop x y z HUB = HUB"
| "put_stop x y z (HDone q hash i r) = HDone q hash i (put_saved x y z r)"
| "put_stop x y z (HHeader_done q r) = HHeader_done q (put_saved x y z r)"

fun put_out :: "int \<Rightarrow> u32 \<Rightarrow> u32 \<Rightarrow> hd_out \<Rightarrow> hd_out" where
  "put_out x y z (Cont (st, hash, i, r)) = Cont (st, hash, i, put_saved x y z r)"
| "put_out x y z (Stop out) = Stop (put_stop x y z out)"

lemma hd_switch_put:
  "hd_switch p c (st, hash, i, put_saved x y z r) = put_out x y z (hd_switch p c (st, hash, i, r))"
  by (cases st) (simp_all add: hd_switch_def hd_defs end_name_def end_value_def Let_def)

lemma scan_hd_put:
  "scan hd_switch p cs (st, hash, i, put_saved x y z r) =
     put_out x y z (scan hd_switch p cs (st, hash, i, r))"
proof (induction cs arbitrary: p st hash i r)
  case (Cons c cs)
  show ?case
  proof (cases "hd_switch p c (st, hash, i, r)")
    case (Cont s1)
    with Cons.IH show ?thesis by (cases s1) (simp add: hd_switch_put)
  qed (simp add: hd_switch_put)
qed simp

definition resumes :: "(int \<times> http_request \<times> buffer) cres \<Rightarrow> (int \<times> http_request \<times> buffer) cres \<Rightarrow> bool" where
  "resumes x y \<longleftrightarrow>
     (case (x, y) of
        (Ret (ret, r, b), Ret (ret', r', b')) \<Rightarrow>
          ret' = ret \<and> (0 \<le> ret \<longrightarrow> b' = b) \<and> (ret = 0 \<or> ret = 1 \<longrightarrow> r' = r)
      | (UB, UB) \<Rightarrow> True
      | _ \<Rightarrow> False)"

lemma parse_header_resume:
  assumes st: "hd_decode (r_state r) = Some st" and pos: "b_pos b \<le> b_last b" "b_last b \<le> l"
    and agree: "\<And>a. b_pos b \<le> a \<Longrightarrow> a < b_last b \<Longrightarrow> m a = m' a"
    and more: "http_parse_request_header m r b = Ret (1, r1, b1)"
  shows "resumes (http_parse_request_header m' r (b\<lparr>b_last := l\<rparr>))
    (http_parse_request_header m' r1 (b1\<lparr>b_last := l\<rparr>))"
proof -
  let ?new = "bytes_at m' (b_last b) (l - b_last b)"
  let ?s = "(st, r_header_hash r, r_lowcase_index r, r)"
  have fail: "e \<le> -1" if "scan hd_switch p cs s = Stop (HFail e r')" for p cs s e r'
    using that
  proof (induction cs arbitrary: p s)
    case (Cons c cs)
    then show ?case by (cases s) (auto split: step.splits dest: hd_switch_fail)
  qed simp
  obtain st1 hash i rA where
    sc: "scan hd_switch (b_pos b) (pending m b) ?s = Cont (st1, hash, i, rA)"
    and r1: "r1 = put_saved (hd_code st1) hash i rA" and b1: "b1 = b\<lparr>b_pos := b_last b\<rparr>"
  proof (cases "scan hd_switch (b_pos b) (pending m b) ?s")
    case (Cont s)
    with more st that show thesis
      by (cases s) (auto simp: http_parse_request_header_def)
  next
    case (Stop out)
    with more st show thesis
      by (cases out) (auto simp: http_parse_request_header_def dest: fail)
  qed
  have len: "b_pos b + length (pending m b) = b_last b" using pos by (simp add: pending_def)
  have same: "pending m' b = pending m b"
    unfolding pending_def using pos by (intro bytes_at_cong) (simp add: agree)
  have whole: "scan hd_switch (b_pos b) (pending m' (b\<lparr>b_last := l\<rparr>)) ?s =
      scan hd_switch (b_last b) ?new (st1, hash, i, rA)"
    using len sc by (simp add: pending_upto pos same scan_append)
  have pend: "pending m' (b\<lparr>b_pos := b_last b, b_last := l\<rparr>) = ?new" by (simp add: pending_def)
  show ?thesis
  proof (cases "scan hd_switch (b_last b) ?new (st1, hash, i, rA)")
    case (Cont s)
    then show ?thesis using whole pend st
      by (cases s) (simp add: http_parse_request_header_def r1 b1 scan_hd_put resumes_def)
  next
    case (Stop out)
    then show ?thesis using whole pend st fail [of "b_last b" ?new "(st1, hash, i, rA)"]
      by (cases out)
        (auto simp: http_parse_request_header_def r1 b1 scan_hd_put resumes_def)
  qed
qed

subsection \<open>The unguarded store\<close>

lemma parse_header_index_UB:
  assumes "r_state r = 0" and "\<not> unat (r_lowcase_index r) < HTTP_LC_HEADER_LEN"
    and "pending m b = c1 # c2 # rest"
    and "\<not> name_byte c1" "c1 \<noteq> CR" "c1 \<noteq> LF" "c1 \<noteq> 0" "name_byte c2"
  shows "http_parse_request_header m r b = UB"
  using assms
  by (simp add: http_parse_request_header_def hd_switch_def hd_start_def hd_name_def Let_def)

subsection \<open>Properties\<close>

text \<open>C23. A well-formed header line: a name of letters, digits and dashes, a colon, any number of
  spaces, a value without control bytes that neither starts nor ends with a space (inner spaces
  allowed), any number of spaces, CR LF. The parser returns 0, consumes exactly the line, the name and the
  value slices hold exactly the name and the trimmed value, the header is valid, and \<open>header_hash\<close>
  is the case-insensitive hash of the name that the handlers are registered under.\<close>

theorem header_line_parsed:
  assumes "r_state r = 0" and "index_ok (r_lowcase_index r) r" and "buffer_wf b"
    and "pending m b = header_line_text name a val k @ [CR, LF] @ rest"
    and "valid_name name" and "trimmed_value val"
  shows "\<exists>r'. http_parse_request_header m r b =
      Ret (0, r', b\<lparr>b_pos := b_pos b + length (header_line_text name a val k) + 2\<rparr>) \<and>
    str_bytes m (r_header_name r') = name \<and> str_bytes m (r_header_value r') = val \<and>
    r_header_hash r' = hash_key_lc name \<and> \<not> r_invalid_header r' \<and> r_state r' = 0 \<and>
    index_ok (r_lowcase_index r') r'"
proof -
  have "lc_array r" using assms(2) by (simp add: lc_array_def index_ok_def)
  with assms show ?thesis by (intro parse_header_text)
qed

lemma lc_array_zero [simp]: "lc_array zero_request"
  by (simp add: lc_array_def zero_request_def HTTP_LC_HEADER_LEN_def)

lemma index_ok_zero [simp]: "index_ok (r_lowcase_index zero_request) zero_request"
  by (simp add: index_ok_def zero_request_def HTTP_LC_HEADER_LEN_def)

lemma state_zero [simp]: "r_state zero_request = 0"
  by (simp add: zero_request_def)

lemma host_line_text: "lit ''Host:  a b '' = header_line_text (lit ''Host'') 2 (lit ''a b'') 1"
  by (simp add: header_line_text_def lit_def numeral_eq_Suc)

lemma host_line_valid: "valid_name (lit ''Host'')" "trimmed_value (lit ''a b'')"
  by (simp_all add: valid_name_def trimmed_value_def lit_def name_byte_def value_byte_def)

theorem header_line_parsed_witness:
  "\<exists>r'. http_parse_request_header (test_mem (lit ''Host:  a b '' @ [CR, LF])) zero_request
      (test_buffer 13) = Ret (0, r', (test_buffer 13)\<lparr>b_pos := 1013\<rparr>) \<and>
    str_bytes (test_mem (lit ''Host:  a b '' @ [CR, LF])) (r_header_value r') = lit ''a b'' \<and>
    r_header_hash r' = hash_key_lc (lit ''hOST'')"
proof -
  have hash: "hash_key_lc (lit ''hOST'') = hash_key_lc (lit ''Host'')" by code_simp
  show ?thesis
    using header_line_parsed [of zero_request "test_buffer 13" "test_mem (lit ''Host:  a b '' @ [CR, LF])"
        "lit ''Host''" 2 "lit ''a b''" 1 "[]"]
    by (auto simp: host_line_text host_line_valid hash)
qed

text \<open>C36. Every header line the parser accepts, whatever its bytes: the read position advances and stays inside
  the received bytes, the name and the value (unless absent) are slices of the bytes of this line,
  and a header that is not marked invalid has a non-empty name of letters, digits and dashes whose
  hash is \<open>header_hash\<close>.\<close>

theorem header_line_accepted:
  assumes "r_state r = 0" and "index_ok (r_lowcase_index r) r" and "buffer_wf b"
    and "http_parse_request_header m r b = Ret (0, r', b')"
  shows "b_pos b < b_pos b' \<and> b_pos b' \<le> b_last b \<and> b' = b\<lparr>b_pos := b_pos b'\<rparr> \<and> r_state r' = 0 \<and>
    str_in (b_pos b) (b_pos b') (r_header_name r') \<and> str_opt_in (b_pos b) (b_pos b') (r_header_value r') \<and>
    (\<not> r_invalid_header r' \<longrightarrow> valid_name (str_bytes m (r_header_name r')) \<and>
      r_header_hash r' = hash_key_lc (str_bytes m (r_header_name r')))"
  using assms(4)
  by (cases rule: parse_header_cases [OF header_openI [where B = True, OF assms(1) impI [OF assms(2)]] assms(3), of m])
    (auto simp: header_line_ok_def name_read_def name_hashed_def valid_name_def)

theorem header_line_accepted_witness:
  "\<exists>r' b'. http_parse_request_header (test_mem (lit ''Host:  a b '' @ [CR, LF])) zero_request
      (test_buffer 13) = Ret (0, r', b') \<and> str_opt_in 1000 (b_pos b') (r_header_value r')"
proof -
  obtain r' b' where parse: "http_parse_request_header (test_mem (lit ''Host:  a b '' @ [CR, LF]))
      zero_request (test_buffer 13) = Ret (0, r', b')"
    using parse_header_text [of zero_request "test_buffer 13" "test_mem (lit ''Host:  a b '' @ [CR, LF])"
        "lit ''Host''" 2 "lit ''a b''" 1 "[]"]
    by (auto simp: host_line_text host_line_valid)
  from header_line_accepted [OF _ _ _ parse] parse show ?thesis by auto
qed

text \<open>C28. When the index into \<open>lowcase_header\<close> starts inside the array, no input makes the parser store
  out of bounds: it returns 0, 1, 100 or one of its error codes -7 to -1, it leaves a well-formed
  buffer, and after 0 and 1 the index is inside the array again.\<close>

theorem header_parser_no_overflow:
  assumes "r_state r = 0" and "index_ok (r_lowcase_index r) r" and "buffer_wf b"
  shows "\<exists>ret r' b'. http_parse_request_header m r b = Ret (ret, r', b') \<and>
    (ret \<in> {0, 1, 100} \<or> -7 \<le> ret \<and> ret \<le> -1) \<and> buffer_wf b' \<and>
    (ret \<in> {0, 1} \<longrightarrow> index_ok (r_lowcase_index r') r')"
  by (cases rule: parse_header_cases [OF header_openI [where B = True, OF assms(1) impI [OF assms(2)]] assms(3), of m])
    (use assms(3) in \<open>auto simp: buffer_wf_def header_line_ok_def\<close>)

theorem header_parser_no_overflow_witness:
  "\<exists>ret r' b'. http_parse_request_header (test_mem (lit ''(a'')) zero_request (test_buffer 2) =
      Ret (ret, r', b') \<and> buffer_wf b'"
  using header_parser_no_overflow [of zero_request "test_buffer 2" "test_mem (lit ''(a'')"] by auto

text \<open>The store into \<open>lowcase_header\<close> trusts the index left in the structure: when that index is not
  below 32 (nothing in \<open>http_request_handler\<close> initialises it), a first header line that starts
  with a byte that is not allowed in names, followed by an allowed one, stores out of bounds.\<close>

theorem header_index_out_of_bounds:
  assumes "r_state r = 0" and "\<not> unat (r_lowcase_index r) < HTTP_LC_HEADER_LEN"
    and "pending m b = c1 # c2 # rest"
    and "\<not> name_byte c1" and "c1 \<noteq> CR" and "c1 \<noteq> LF" and "c1 \<noteq> 0" and "name_byte c2"
  shows "http_parse_request_header m r b = UB"
  using assms by (rule parse_header_index_UB)

theorem header_index_out_of_bounds_witness:
  "http_parse_request_header (test_mem (lit ''(a'')) (zero_request\<lparr>r_lowcase_index := 40\<rparr>)
     (test_buffer 2) = UB"
  by (rule header_index_out_of_bounds [of _ _ _ 40 97 "[]"])
    (simp_all add: HTTP_LC_HEADER_LEN_def name_byte_def is_digit_def lit_def)

text \<open>Incremental parsing of headers: when a line is incomplete and more bytes arrive, resuming gives
  the same return code as parsing the longer buffer at once, the same read position unless that
  code is an error, and the same request when a line was completed or is still incomplete.\<close>

theorem header_line_resume:
  assumes "hd_decode (r_state r) = Some st" and "b_pos b \<le> b_last b" and "b_last b \<le> l"
    and "\<And>a. b_pos b \<le> a \<Longrightarrow> a < b_last b \<Longrightarrow> m a = m' a"
    and "http_parse_request_header m r b = Ret (1, r1, b1)"
  shows "resumes (http_parse_request_header m' r (b\<lparr>b_last := l\<rparr>))
    (http_parse_request_header m' r1 (b1\<lparr>b_last := l\<rparr>))"
  using assms by (rule parse_header_resume)

lemma parse_Ho: "\<exists>r1 b1. http_parse_request_header (test_mem (lit ''Ho'')) zero_request (test_buffer 2) =
    Ret (1, r1, b1)"
proof -
  have "pending (test_mem (lit ''Ho'')) (test_buffer 2) = [72, 111]" by (simp add: lit_def)
  moreover have "name_byte 72" "name_byte 111" by (simp_all add: name_byte_def)
  ultimately show ?thesis
    using index_ok_zero
    by (simp add: http_parse_request_header_def hd_switch_def hd_start_def hd_name_def Let_def
        HTTP_LC_HEADER_LEN_def lowcase_nth [of 72, simplified] lowcase_nth [of 111, simplified])
qed

theorem header_line_resume_witness:
  "\<exists>r1 b1. http_parse_request_header (test_mem (lit ''Ho'')) zero_request (test_buffer 2) =
      Ret (1, r1, b1) \<and>
    resumes (http_parse_request_header (test_mem (lit ''Host: a'' @ [LF])) zero_request
        ((test_buffer 2)\<lparr>b_last := 1008\<rparr>))
      (http_parse_request_header (test_mem (lit ''Host: a'' @ [LF])) r1 (b1\<lparr>b_last := 1008\<rparr>))"
proof -
  obtain r1 b1 where more: "http_parse_request_header (test_mem (lit ''Ho'')) zero_request
      (test_buffer 2) = Ret (1, r1, b1)"
    using parse_Ho by blast
  have "test_mem (lit ''Ho'') a = test_mem (lit ''Host: a'' @ [LF]) a" if "1000 \<le> a" "a < 1002" for a
  proof -
    from that have "a = 1000 \<or> a = 1001" by linarith
    then show ?thesis by (auto simp: test_mem_def lit_def)
  qed
  then show ?thesis
    using header_line_resume [of zero_request H_start "test_buffer 2" 1008 "test_mem (lit ''Ho'')"
        "test_mem (lit ''Host: a'' @ [LF])"] more by auto
qed

end
