(* ===== verification/Hashtable.thy ===== *)
theory Hashtable
  imports Linked_List "HOL-Library.Monad_Syntax"
begin

text \<open>
  \<open>util/hashtable.c\<close>: a hash table of 32-bit keys whose buckets are linked lists sorted by key. The
  heap holds the links of \<open>util/list.h\<close>, the members \<open>key\<close> and \<open>object\<close> of every \<open>struct
  hash_element\<close> and the list of the blocks that were freed; the address \<open>malloc\<close> returned
  (0 when it failed) is an argument of the operation that calls it. The traversals follow the
  pointers of the heap: on a heap whose lists are not circular they do not return, the value
  \<open>None\<close>.

  \<open>ht_rep ht H U M\<close> says that the table occupies exactly the addresses \<open>U\<close> and represents the
  map \<open>M\<close>; the locale \<open>key_table\<close> states what the operations promise in terms of \<open>M\<close>.
\<close>

record ht_heap = links +
  e_key :: "ptr \<Rightarrow> u32"
  e_object :: "ptr \<Rightarrow> ptr"
  h_freed :: "ptr list"

record hash_table =
  ht_bucket_size :: u32
  ht_buckets :: ptr

definition sizeof_list_head :: nat where "sizeof_list_head = 16"

definition sizeof_hash_table :: nat where "sizeof_hash_table = 16"

subsection \<open>Operations\<close>

text \<open>\<open>&ht->buckets[k]\<close>\<close>

definition bucket_at :: "hash_table \<Rightarrow> nat \<Rightarrow> ptr" where
  "bucket_at ht k = ht_buckets ht + k * sizeof_list_head"

definition bucket :: "hash_table \<Rightarrow> u32 \<Rightarrow> ptr" where
  "bucket ht key = bucket_at ht (unat (key mod ht_bucket_size ht))"

partial_function (option) find_loop :: "ht_heap \<Rightarrow> ptr \<Rightarrow> u32 \<Rightarrow> ptr \<Rightarrow> ptr option" where
  "find_loop H bkt key loop =
     (if loop = bkt then Some 0
      else if e_key H loop < key then find_loop H bkt key (l_next H loop)
      else if e_key H loop = key then Some (e_object H loop)
      else Some 0)"

definition hash_table_find :: "hash_table \<Rightarrow> u32 \<Rightarrow> ht_heap \<Rightarrow> ptr option" where
  "hash_table_find ht key H =
     (let bkt = bucket ht key in find_loop H bkt key (l_next H bkt))"

definition free_elem :: "ptr \<Rightarrow> ht_heap \<Rightarrow> ht_heap" where
  "free_elem e H = H\<lparr>h_freed := e # h_freed H\<rparr>"

partial_function (option) remove_loop :: "ht_heap \<Rightarrow> ptr \<Rightarrow> u32 \<Rightarrow> ptr \<Rightarrow> (ptr \<times> ht_heap) option" where
  "remove_loop H bkt key loop =
     (if loop = bkt then Some (0, H)
      else if key = e_key H loop then
        (let H1 = list_del_init loop H; object = e_object H1 loop
         in Some (object, free_elem loop H1))
      else remove_loop H bkt key (l_next H loop))"

definition hash_table_remove :: "hash_table \<Rightarrow> u32 \<Rightarrow> ht_heap \<Rightarrow> (ptr \<times> ht_heap) option" where
  "hash_table_remove ht key H =
     (let bkt = bucket ht key in remove_loop H bkt key (l_next H bkt))"

partial_function (option) add_loop ::
  "ht_heap \<Rightarrow> ptr \<Rightarrow> u32 \<Rightarrow> ptr \<Rightarrow> ptr \<Rightarrow> (int \<times> ht_heap) option" where
  "add_loop H bkt key elem loop =
     (if loop = bkt then Some (0, list_add_tail elem loop H)
      else if e_key H loop < key then add_loop H bkt key elem (l_next H loop)
      else if e_key H loop = key then Some (-2, free_elem elem H)
      else Some (0, list_add_tail elem loop H))"

definition hash_table_add ::
  "hash_table \<Rightarrow> u32 \<Rightarrow> ptr \<Rightarrow> ptr \<Rightarrow> ht_heap \<Rightarrow> (int \<times> ht_heap) option" where
  "hash_table_add ht key object elem H =
     (let bkt = bucket ht key in
      if elem = 0 then Some (-1, H)
      else let H1 = H\<lparr>e_key := (e_key H)(elem := key), e_object := (e_object H)(elem := object)\<rparr>
           in add_loop H1 bkt key elem (l_next H1 bkt))"

fun init_buckets :: "hash_table \<Rightarrow> nat \<Rightarrow> ht_heap \<Rightarrow> ht_heap" where
  "init_buckets ht 0 H = H"
| "init_buckets ht (Suc n) H = init_buckets ht n (INIT_LIST_HEAD (bucket_at ht n) H)"

definition hash_table_create :: "u32 \<Rightarrow> ptr \<Rightarrow> ht_heap \<Rightarrow> hash_table option \<times> ht_heap" where
  "hash_table_create bucket_size addr H =
     (if bucket_size = 0 \<or> bucket_size AND (bucket_size - 1) \<noteq> 0 then (None, H)
      else if addr = 0 then (None, H)
      else let ht = \<lparr>ht_bucket_size = bucket_size, ht_buckets = addr + sizeof_hash_table\<rparr>
           in (Some ht, init_buckets ht (unat bucket_size) H))"

subsection \<open>Representation\<close>

definition kv :: "ht_heap \<Rightarrow> ptr list \<Rightarrow> (u32 \<times> ptr) list" where
  "kv H xs = map (\<lambda>e. (e_key H e, e_object H e)) xs"

text \<open>One bucket: a list, strictly sorted by key.\<close>

definition bucket_ok :: "ht_heap \<Rightarrow> ptr \<Rightarrow> ptr list \<Rightarrow> bool" where
  "bucket_ok H bkt xs \<longleftrightarrow> dll H bkt xs \<and> sorted_wrt (<) (map (e_key H) xs)"

definition ht_rel :: "hash_table \<Rightarrow> ht_heap \<Rightarrow> (nat \<Rightarrow> ptr list) \<Rightarrow> bool" where
  "ht_rel ht H B \<longleftrightarrow> ht_bucket_size ht \<noteq> 0 \<and>
     (\<forall>k < unat (ht_bucket_size ht). bucket_ok H (bucket_at ht k) (B k) \<and>
        (\<forall>e \<in> set (B k). unat (e_key H e mod ht_bucket_size ht) = k)) \<and>
     (\<forall>j < unat (ht_bucket_size ht). \<forall>k < unat (ht_bucket_size ht). j \<noteq> k \<longrightarrow>
        set (bucket_at ht j # B j) \<inter> set (bucket_at ht k # B k) = {})"

definition ht_addrs :: "hash_table \<Rightarrow> (nat \<Rightarrow> ptr list) \<Rightarrow> ptr set" where
  "ht_addrs ht B = (\<Union>k < unat (ht_bucket_size ht). set (bucket_at ht k # B k))"

definition ht_map :: "hash_table \<Rightarrow> ht_heap \<Rightarrow> (nat \<Rightarrow> ptr list) \<Rightarrow> u32 \<Rightarrow> ptr option" where
  "ht_map ht H B key = map_of (kv H (B (unat (key mod ht_bucket_size ht)))) key"

definition ht_rep :: "hash_table \<Rightarrow> ht_heap \<Rightarrow> ptr set \<Rightarrow> (u32 \<rightharpoonup> ptr) \<Rightarrow> bool" where
  "ht_rep ht H U M \<longleftrightarrow> (\<exists>B. ht_rel ht H B \<and> U = ht_addrs ht B \<and> M = ht_map ht H B)"

lemma kv_simps [simp]:
  "kv H [] = []" "kv H (x # xs) = (e_key H x, e_object H x) # kv H xs" "kv H (xs @ ys) = kv H xs @ kv H ys"
  by (simp_all add: kv_def)

lemma dom_kv: "fst ` set (kv H xs) = e_key H ` set xs"
  by (induction xs) auto

subsection \<open>Traversals of one bucket\<close>

lemma map_of_sorted_None:
  assumes "sorted_wrt (<) (map (e_key H) (x # xs))" "key < e_key H x"
  shows "map_of (kv H (x # xs)) key = None"
  using assms by (fastforce simp: map_of_eq_None_iff dom_kv)

lemma find_loop_seg:
  assumes "lseg H p xs bkt" "bkt \<notin> set xs" "sorted_wrt (<) (map (e_key H) xs)"
  shows "find_loop H bkt key (l_next H p) = Some (case map_of (kv H xs) key of None \<Rightarrow> 0 | Some v \<Rightarrow> v)"
  using assms
proof (induction xs arbitrary: p)
  case Nil
  then show ?case by (simp add: find_loop.simps)
next
  case (Cons x xs)
  from Cons.IH [of x] Cons.prems map_of_sorted_None [of H x xs key] show ?case
    by (auto simp: find_loop.simps [of H bkt key x] not_less)
qed

lemma remove_loop_seg:
  assumes "lseg H p xs bkt" "bkt \<notin> set xs"
  shows "remove_loop H bkt key (l_next H p) =
    (case dropWhile (\<lambda>e. e_key H e \<noteq> key) xs of
       [] \<Rightarrow> Some (0, H)
     | x # _ \<Rightarrow> Some (e_object H x, free_elem x (list_del_init x H)))"
  using assms
proof (induction xs arbitrary: p)
  case Nil
  then show ?case by (simp add: remove_loop.simps)
next
  case (Cons x xs)
  have "e_object (list_del_init x H) x = e_object H x"
    by (simp add: list_del_init_def list_op_defs)
  with Cons.IH [of x] Cons.prems show ?case
    by (auto simp: remove_loop.simps [of H bkt key x] Let_def)
qed

lemma add_loop_seg:
  assumes "lseg H p xs bkt" "bkt \<notin> set xs"
  shows "add_loop H bkt key elem (l_next H p) =
    (case dropWhile (\<lambda>e. e_key H e < key) xs of
       [] \<Rightarrow> Some (0, list_add_tail elem bkt H)
     | x # _ \<Rightarrow> if e_key H x = key then Some (-2, free_elem elem H)
                else Some (0, list_add_tail elem x H))"
  using assms
proof (induction xs arbitrary: p)
  case Nil
  then show ?case by (simp add: add_loop.simps)
next
  case (Cons x xs)
  then show ?case by (auto simp: add_loop.simps [of H bkt key elem x])
qed

subsection \<open>Updates of one bucket\<close>

lemma list_ops_payload [simp]:
  "e_key (list_add_tail n e H) = e_key H" "e_object (list_add_tail n e H) = e_object H"
  "e_key (list_del_init e H) = e_key H" "e_object (list_del_init e H) = e_object H"
  "e_key (INIT_LIST_HEAD e H) = e_key H" "e_object (INIT_LIST_HEAD e H) = e_object H"
  "h_freed (list_add_tail n e H) = h_freed H" "h_freed (list_del_init e H) = h_freed H"
  by (simp_all add: list_add_tail_def list_del_init_def list_op_defs)

lemma free_elem_sel [simp]:
  "e_key (free_elem e H) = e_key H" "e_object (free_elem e H) = e_object H"
  "h_freed (free_elem e H) = e # h_freed H"
  by (simp_all add: free_elem_def)

lemma dll_free [simp]: "dll (free_elem e H) head xs = dll H head xs"
  by (rule dll_cong) (simp add: free_elem_def)

lemma kv_cong: "(\<And>e. e \<in> set xs \<Longrightarrow> e_key H' e = e_key H e \<and> e_object H' e = e_object H e) \<Longrightarrow> kv H' xs = kv H xs"
  by (simp add: kv_def)

abbreviation below :: "ht_heap \<Rightarrow> u32 \<Rightarrow> ptr list \<Rightarrow> ptr list" where
  "below H key xs \<equiv> takeWhile (\<lambda>e. e_key H e < key) xs"

abbreviation upper :: "ht_heap \<Rightarrow> u32 \<Rightarrow> ptr list \<Rightarrow> ptr list" where
  "upper H key xs \<equiv> dropWhile (\<lambda>e. e_key H e < key) xs"

lemma above_greater:
  assumes "sorted_wrt (<) (map (e_key H) xs)" "key \<notin> e_key H ` set xs" "e \<in> set (upper H key xs)"
  shows "key < e_key H e"
proof -
  have sorted: "sorted_wrt (<) (map (e_key H) (upper H key xs))"
    using assms(1) by (induction xs) auto
  obtain x rest where ab: "upper H key xs = x # rest" using assms(3) by (cases "upper H key xs") auto
  from hd_dropWhile [of "\<lambda>e. e_key H e < key" xs] ab have "\<not> e_key H x < key" by simp
  moreover have "x \<in> set xs" using ab set_dropWhileD [of x "\<lambda>e. e_key H e < key" xs] by simp
  ultimately have "key < e_key H x" using assms(2) by (metis image_eqI linorder_less_linear)
  with sorted assms(3) ab show ?thesis by (auto intro: order.strict_trans)
qed

lemma hd_above_eq_iff:
  assumes "sorted_wrt (<) (map (e_key H) xs)" "upper H key xs = x # rest"
  shows "e_key H x = key \<longleftrightarrow> key \<in> e_key H ` set xs"
proof
  assume "e_key H x = key"
  moreover have "x \<in> set xs" using assms(2) set_dropWhileD [of x "\<lambda>e. e_key H e < key" xs] by simp
  ultimately show "key \<in> e_key H ` set xs" by blast
next
  assume "key \<in> e_key H ` set xs"
  then obtain e where e: "e \<in> set xs" "e_key H e = key" by blast
  have "xs = below H key xs @ x # rest" using assms(2) by (metis takeWhile_dropWhile_id)
  moreover have "e \<notin> set (below H key xs)" using e(2) by (auto dest: set_takeWhileD)
  ultimately have "e = x \<or> e \<in> set rest" using e(1) by (metis Un_iff set_append set_ConsD)
  moreover have "sorted_wrt (<) (map (e_key H) (x # rest))"
    using assms by (metis map_append sorted_wrt_append takeWhile_dropWhile_id)
  moreover have "\<not> e_key H x < key" using hd_dropWhile [of "\<lambda>e. e_key H e < key" xs] assms(2) by simp
  ultimately show "e_key H x = key" using e(2) by auto
qed

lemma above_Nil_notin: "upper H key xs = [] \<Longrightarrow> key \<notin> e_key H ` set xs"
  by (auto simp: dropWhile_eq_Nil_conv)

lemma bucket_insert:
  assumes ok: "bucket_ok H bkt xs" and new: "elem \<notin> set (bkt # xs)" "e_key H elem = key"
    "key \<notin> e_key H ` set xs"
  shows "bucket_ok (list_add_tail elem (hd (upper H key xs @ [bkt])) H) bkt
    (below H key xs @ elem # upper H key xs)"
proof -
  let ?ts = "below H key xs" and ?ds = "upper H key xs"
  have split: "xs = ?ts @ ?ds" by simp
  have dll: "dll (list_add_tail elem (hd (?ds @ [bkt])) H) bkt (?ts @ elem # ?ds)"
  proof (cases ?ds)
    case Nil
    with split have ts: "?ts = xs" by (metis append_Nil2)
    have "dll (list_add_tail elem bkt H) bkt (xs @ [elem])"
      using ok new(1) by (intro dll_add_tail) (auto simp: bucket_ok_def)
    then show ?thesis by (simp only: Nil ts append_Nil list.sel)
  next
    case (Cons x rest)
    have "dll (list_add_tail elem x H) bkt (?ts @ elem # x # rest)"
      using ok new(1) split Cons by (intro dll_add_before) (metis bucket_ok_def, metis)
    with Cons show ?thesis by simp
  qed
  have "sorted_wrt (<) (map (e_key H) (?ts @ ?ds))" using ok by (simp add: bucket_ok_def)
  then have sorted: "sorted_wrt (<) (map (e_key H) ?ts)" "sorted_wrt (<) (map (e_key H) ?ds)"
    by (simp_all only: map_append sorted_wrt_append)
  have "\<forall>e \<in> set ?ts. e_key H e < key" by (auto dest: set_takeWhileD)
  moreover have "\<forall>e \<in> set ?ds. key < e_key H e" using above_greater ok new(3) by (auto simp: bucket_ok_def)
  ultimately have "sorted_wrt (<) (map (e_key H) (?ts @ elem # ?ds))"
    using sorted new(2) by (auto simp: sorted_wrt_append intro: order.strict_trans)
  with dll show ?thesis by (simp add: bucket_ok_def)
qed

lemma map_of_insert:
  assumes "e_key H elem = key" "e_object H elem = object"
  shows "map_of (kv H (below H key xs @ elem # upper H key xs)) = (map_of (kv H xs))(key \<mapsto> object)"
proof -
  have "key \<notin> e_key H ` set (below H key xs)" by (auto dest: set_takeWhileD)
  then have none: "map_of (kv H (below H key xs)) key = None" by (simp add: map_of_eq_None_iff dom_kv)
  have "map_of (kv H xs) = map_of (kv H (below H key xs @ upper H key xs))" by simp
  also have "\<dots> = map_of (kv H (upper H key xs)) ++ map_of (kv H (below H key xs))"
    by (simp only: kv_simps map_of_append)
  finally have eq: "map_of (kv H xs) = \<dots>" .
  show ?thesis
  proof
    fix k
    show "map_of (kv H (below H key xs @ elem # upper H key xs)) k = ((map_of (kv H xs))(key \<mapsto> object)) k"
      using none assms unfolding eq by (auto simp: map_add_def split: option.splits)
  qed
qed

lemma bucket_remove:
  assumes ok: "bucket_ok H bkt (xs @ e # ys)"
  shows "bucket_ok (list_del_init e H) bkt (xs @ ys)"
  using ok dll_del_init(1) [of H bkt xs e ys] by (auto simp: bucket_ok_def sorted_wrt_append)

lemma map_of_remove:
  assumes "sorted_wrt (<) (map (e_key H) (xs @ e # ys))"
  shows "map_of (kv H (xs @ ys)) = (map_of (kv H (xs @ e # ys)))(e_key H e := None)"
proof -
  from assms have "e_key H e \<notin> e_key H ` set xs" "e_key H e \<notin> e_key H ` set ys"
    by (auto simp: sorted_wrt_append)
  then have "map_of (kv H xs) (e_key H e) = None" "map_of (kv H ys) (e_key H e) = None"
    by (simp_all add: map_of_eq_None_iff dom_kv)
  then show ?thesis by (auto simp: map_add_def fun_eq_iff split: option.splits)
qed

subsection \<open>The whole table\<close>

lemma ht_rel_bucket:
  assumes "ht_rel ht H B"
  shows "unat (key mod ht_bucket_size ht) < unat (ht_bucket_size ht)"
    and "bucket_ok H (bucket ht key) (B (unat (key mod ht_bucket_size ht)))"
proof -
  from assms have "ht_bucket_size ht \<noteq> 0" by (simp add: ht_rel_def)
  then show "unat (key mod ht_bucket_size ht) < unat (ht_bucket_size ht)"
    by (simp add: unat_mod_distrib unat_gt_0)
  with assms show "bucket_ok H (bucket ht key) (B (unat (key mod ht_bucket_size ht)))"
    by (simp add: ht_rel_def bucket_def)
qed

lemma bucket_okD:
  assumes "bucket_ok H bkt xs"
  shows "lseg H bkt xs bkt" "bkt \<notin> set xs" "sorted_wrt (<) (map (e_key H) xs)"
  using assms by (simp_all add: bucket_ok_def dll_def)

lemma hash_table_find_rep:
  assumes "ht_rep ht H U M"
  shows "hash_table_find ht key H = Some (case M key of None \<Rightarrow> 0 | Some v \<Rightarrow> v)"
proof -
  from assms obtain B where B: "ht_rel ht H B" "M = ht_map ht H B" by (auto simp: ht_rep_def)
  from find_loop_seg [OF bucket_okD [OF ht_rel_bucket(2) [OF B(1), of key]]] B(2) show ?thesis
    by (simp add: hash_table_find_def ht_map_def)
qed

text \<open>Replacing the contents of one bucket, all others being untouched.\<close>

lemma ht_rel_update:
  assumes rel: "ht_rel ht H B" and j: "j < unat (ht_bucket_size ht)"
    and ok: "bucket_ok H' (bucket_at ht j) xs"
      "\<And>e. e \<in> set xs \<Longrightarrow> unat (e_key H' e mod ht_bucket_size ht) = j"
    and fresh: "set xs \<subseteq> set (B j) \<union> E" "E \<inter> ht_addrs ht B = {}"
    and frame: "\<And>a. a \<notin> set (bucket_at ht j # B j) \<union> E \<Longrightarrow> l_next H' a = l_next H a \<and> l_prev H' a = l_prev H a"
      "\<And>a. a \<notin> E \<Longrightarrow> e_key H' a = e_key H a"
  shows "ht_rel ht H' (B(j := xs))"
proof -
  let ?n = "unat (ht_bucket_size ht)"
  have out: "set (bucket_at ht k # B k) \<inter> (set (bucket_at ht j # B j) \<union> E) = {}" if "k < ?n" "k \<noteq> j" for k
    using rel that j fresh(2) by (fastforce simp: ht_rel_def ht_addrs_def)
  have other: "bucket_ok H' (bucket_at ht k) (B k)" if "k < ?n" "k \<noteq> j" for k
  proof -
    have "dll H (bucket_at ht k) (B k) = dll H' (bucket_at ht k) (B k)"
      using out [OF that] frame(1) by (intro dll_cong) (metis disjoint_iff)
    moreover have "map (e_key H') (B k) = map (e_key H) (B k)"
      using out [OF that] frame(2) by (intro map_cong) auto
    moreover have "bucket_ok H (bucket_at ht k) (B k)" using rel that by (simp add: ht_rel_def)
    ultimately show ?thesis unfolding bucket_ok_def by metis
  qed
  have keys: "unat (e_key H' e mod ht_bucket_size ht) = k" if "k < ?n" "k \<noteq> j" "e \<in> set (B k)" for k e
    using rel out [OF that(1,2)] frame(2) [of e] that by (auto simp: ht_rel_def)
  have disj: "set (bucket_at ht k # B k) \<inter> set (bucket_at ht j # xs) = {}" if "k < ?n" "k \<noteq> j" for k
    using out [OF that] fresh(1) by auto
  have old: "set (bucket_at ht i # B i) \<inter> set (bucket_at ht k # B k) = {}"
    if "i < ?n" "k < ?n" "i \<noteq> k" for i k
    using rel that by (simp add: ht_rel_def)
  have "set (bucket_at ht i # (B(j := xs)) i) \<inter> set (bucket_at ht k # (B(j := xs)) k) = {}"
    if "i < ?n" "k < ?n" "i \<noteq> k" for i k
    using old [OF that] disj [of i] disj [of k] that j by (cases "i = j"; cases "k = j") auto
  then show ?thesis
    using rel ok other keys by (auto simp: ht_rel_def)
qed

lemma ht_addrs_update:
  "j < unat (ht_bucket_size ht) \<Longrightarrow>
   ht_addrs ht (B(j := xs)) = (\<Union>k \<in> {..<unat (ht_bucket_size ht)} - {j}. set (bucket_at ht k # B k)) \<union>
     set (bucket_at ht j # xs)"
  by (auto simp: ht_addrs_def split: if_splits)

lemma ht_addrs_split:
  "j < unat (ht_bucket_size ht) \<Longrightarrow>
   ht_addrs ht B = (\<Union>k \<in> {..<unat (ht_bucket_size ht)} - {j}. set (bucket_at ht k # B k)) \<union>
     set (bucket_at ht j # B j)"
  using ht_addrs_update [of j ht B "B j"] by simp

text \<open>The key is looked up in its own bucket only.\<close>

lemma ht_map_update:
  assumes "\<And>k e. k \<noteq> j \<Longrightarrow> e \<in> set (B k) \<Longrightarrow> k < unat (ht_bucket_size ht) \<Longrightarrow>
      e_key H' e = e_key H e \<and> e_object H' e = e_object H e"
    and "ht_bucket_size ht \<noteq> 0" "j = unat (key mod ht_bucket_size ht)"
    and "map_of (kv H' xs) = (map_of (kv H (B j)))(key := v)"
  shows "ht_map ht H' (B(j := xs)) = (ht_map ht H B)(key := v)"
proof
  fix k
  show "ht_map ht H' (B(j := xs)) k = ((ht_map ht H B)(key := v)) k"
  proof (cases "unat (k mod ht_bucket_size ht) = j")
    case True
    with assms(4) show ?thesis by (auto simp: ht_map_def)
  next
    case False
    have "unat (k mod ht_bucket_size ht) < unat (ht_bucket_size ht)"
      using assms(2) by (simp add: unat_mod_distrib unat_gt_0)
    with False assms(1) have "kv H' (B (unat (k mod ht_bucket_size ht))) = kv H (B (unat (k mod ht_bucket_size ht)))"
      by (intro kv_cong) blast
    with False assms(3) show ?thesis by (auto simp: ht_map_def)
  qed
qed

text \<open>Setting the payload of a block that is not in the table.\<close>

lemma ht_rel_payload:
  fixes key object
  assumes rel: "ht_rel ht H B" and e: "elem \<notin> ht_addrs ht B"
  defines "H1 \<equiv> H\<lparr>e_key := (e_key H)(elem := key), e_object := (e_object H)(elem := object)\<rparr>"
  shows "ht_rel ht H1 B" "ht_map ht H1 B = ht_map ht H B"
proof -
  have notin: "elem \<notin> set (B k)" if "k < unat (ht_bucket_size ht)" for k
    using e that by (auto simp: ht_addrs_def)
  have "dll H1 head xs = dll H head xs" for head xs by (rule dll_cong) (simp add: H1_def)
  moreover have "map (e_key H1) (B k) = map (e_key H) (B k)" if "k < unat (ht_bucket_size ht)" for k
    using notin [OF that] by (auto simp: H1_def)
  ultimately have "bucket_ok H1 (bucket_at ht k) (B k) = bucket_ok H (bucket_at ht k) (B k)"
    if "k < unat (ht_bucket_size ht)" for k
    using that unfolding bucket_ok_def by metis
  moreover have "e_key H1 e = e_key H e" if "k < unat (ht_bucket_size ht)" "e \<in> set (B k)" for k e
    using notin [OF that(1)] that(2) by (auto simp: H1_def)
  ultimately show "ht_rel ht H1 B" using rel by (simp add: ht_rel_def)
  show "ht_map ht H1 B = ht_map ht H B"
  proof
    fix k
    have "elem \<notin> set (B (unat (k mod ht_bucket_size ht)))" using notin ht_rel_bucket(1) [OF rel] by blast
    then have "kv H1 (B (unat (k mod ht_bucket_size ht))) = kv H (B (unat (k mod ht_bucket_size ht)))"
      by (intro kv_cong) (auto simp: H1_def)
    then show "ht_map ht H1 B k = ht_map ht H B k" by (simp add: ht_map_def)
  qed
qed

text \<open>The state after linking a new element into its bucket.\<close>

lemma ht_rep_link:
  assumes rel: "ht_rel ht H B" and new: "key \<notin> e_key H ` set (B (unat (key mod ht_bucket_size ht)))" and elem: "elem \<notin> ht_addrs ht B"
    and payload: "e_key H elem = key" "e_object H elem = object"
  shows "ht_rep ht (list_add_tail elem (hd (upper H key (B (unat (key mod ht_bucket_size ht))) @ [bucket ht key])) H)
    (insert elem (ht_addrs ht B)) ((ht_map ht H B)(key \<mapsto> object))"
proof -
  let ?j = "unat (key mod ht_bucket_size ht)" and ?bkt = "bucket ht key"
  let ?pos = "hd (upper H key (B ?j) @ [?bkt])" and ?xs = "below H key (B ?j) @ elem # upper H key (B ?j)"
  let ?H = "list_add_tail elem ?pos H"
  have j: "?j < unat (ht_bucket_size ht)" using ht_rel_bucket(1) [OF rel] .
  have ok: "bucket_ok H ?bkt (B ?j)" using ht_rel_bucket(2) [OF rel] .
  have notin: "elem \<notin> set (?bkt # B ?j)" using elem j by (auto simp: ht_addrs_def bucket_def)
  have okn: "bucket_ok ?H ?bkt ?xs" using new notin ok payload(1) by (intro bucket_insert) auto
  have xs: "set ?xs = insert elem (set (B ?j))"
    using set_append [of "below H key (B ?j)" "upper H key (B ?j)"] by auto
  have pos: "?pos \<in> set (?bkt # B ?j)"
  proof (cases "upper H key (B ?j)")
    case (Cons x rest)
    then have "x \<in> set (B ?j)" using set_dropWhileD [of x _ "B ?j"] by (metis list.set_intros(1))
    with Cons show ?thesis by simp
  next
    case Nil
    show ?thesis unfolding Nil by simp
  qed
  have prev: "l_prev H ?pos \<in> set (?bkt # B ?j)" using dll_closed(2) [OF _ pos, of H] ok by (simp add: bucket_ok_def)
  have own: "unat (e_key H e mod ht_bucket_size ht) = ?j" if "e \<in> set ?xs" for e
    using that xs rel j payload(1) by (cases "e = elem") (auto simp: ht_rel_def)
  have "ht_rel ht ?H (B(?j := ?xs))"
  proof (rule ht_rel_update [OF rel j, where E = "{elem}"])
    fix a
    assume "a \<notin> set (bucket_at ht ?j # B ?j) \<union> {elem}"
    then have "a \<noteq> elem" "a \<noteq> ?pos" "a \<noteq> l_prev H ?pos" using pos prev by (auto simp: bucket_def simp del: list.set)
    then show "l_next ?H a = l_next H a \<and> l_prev ?H a = l_prev H a" by (simp add: list_add_tail_def list_op_defs)
  qed (use okn own xs elem in \<open>auto simp: bucket_def\<close>)
  moreover have "ht_map ht ?H (B(?j := ?xs)) = (ht_map ht H B)(key \<mapsto> object)"
  proof (rule ht_map_update)
    show "map_of (kv ?H ?xs) = (map_of (kv H (B ?j)))(key \<mapsto> object)"
      using map_of_insert [of H elem key object "B ?j"] payload by (simp add: kv_def)
  qed (use rel in \<open>simp_all add: ht_rel_def\<close>)
  moreover have "ht_addrs ht (B(?j := ?xs)) = insert elem (ht_addrs ht B)"
    unfolding ht_addrs_update [OF j] ht_addrs_split [OF j, of B] list.set xs by auto
  ultimately show ?thesis unfolding ht_rep_def by metis
qed

lemma hash_table_add_rep:
  assumes rep: "ht_rep ht H U M" and elem: "elem \<noteq> 0" "elem \<notin> U"
  shows "\<exists>H'. hash_table_add ht key object elem H = Some (if M key = None then 0 else -2, H') \<and>
    (if M key = None then ht_rep ht H' (insert elem U) (M(key \<mapsto> object)) \<and> h_freed H' = h_freed H
     else ht_rep ht H' U M \<and> h_freed H' = elem # h_freed H)"
proof -
  from rep obtain B where rel: "ht_rel ht H B" and U: "U = ht_addrs ht B" and M: "M = ht_map ht H B"
    by (auto simp: ht_rep_def)
  define H1 where "H1 = H\<lparr>e_key := (e_key H)(elem := key), e_object := (e_object H)(elem := object)\<rparr>"
  let ?j = "unat (key mod ht_bucket_size ht)" and ?bkt = "bucket ht key"
  have rel1: "ht_rel ht H1 B" and M1: "M = ht_map ht H1 B"
    using ht_rel_payload [OF rel] elem(2) U M by (simp_all add: H1_def)
  have ok: "bucket_ok H1 ?bkt (B ?j)" using ht_rel_bucket(2) [OF rel1] .
  note seg = bucket_okD [OF ok]
  have Mkey: "M key = None \<longleftrightarrow> key \<notin> e_key H1 ` set (B ?j)"
    by (simp add: M1 ht_map_def map_of_eq_None_iff dom_kv)
  have add: "hash_table_add ht key object elem H = add_loop H1 ?bkt key elem (l_next H1 ?bkt)"
    using elem(1) by (simp add: hash_table_add_def H1_def Let_def)
  show ?thesis
  proof (cases "M key = None")
    case True
    let ?H = "list_add_tail elem (hd (upper H1 key (B ?j) @ [?bkt])) H1"
    have res: "hash_table_add ht key object elem H = Some (0, ?H)"
      using add_loop_seg [OF seg(1,2), of key elem] Mkey True add hd_above_eq_iff [OF seg(3)]
      by (cases "upper H1 key (B ?j)") (auto simp del: dropWhile_eq_Nil_conv)
    have "ht_rep ht ?H (insert elem U) (M(key \<mapsto> object))"
      unfolding U M1 by (rule ht_rep_link [OF rel1]) (use Mkey True elem(2) U in \<open>simp_all add: H1_def\<close>)
    with True res show ?thesis by (simp add: H1_def)
  next
    case False
    with Mkey have "key \<in> e_key H1 ` set (B ?j)" by simp
    then obtain x rest where up: "upper H1 key (B ?j) = x # rest" "e_key H1 x = key"
      using hd_above_eq_iff [OF seg(3)] above_Nil_notin by (metis neq_Nil_conv)
    then have "hash_table_add ht key object elem H = Some (-2, free_elem elem H1)"
      using add_loop_seg [OF seg(1,2), of key elem] add by simp
    moreover have "ht_rel ht (free_elem elem H1) B" using rel1 by (simp add: ht_rel_def bucket_ok_def)
    moreover have "ht_map ht (free_elem elem H1) B = M" by (simp add: M1 fun_eq_iff ht_map_def kv_def)
    ultimately show ?thesis using False U
      by (auto simp: ht_rep_def H1_def intro!: exI [of _ B])
  qed
qed

text \<open>The state after taking an element out of its bucket and freeing it.\<close>

lemma ht_rep_unlink:
  assumes rel: "ht_rel ht H B" and B: "B (unat (key mod ht_bucket_size ht)) = xs @ e # ys" and key: "e_key H e = key"
  shows "\<exists>U'. ht_rep ht (free_elem e (list_del_init e H)) U' ((ht_map ht H B)(key := None)) \<and> ht_addrs ht B - U' = {e} \<and> U' \<subseteq> ht_addrs ht B"
proof -
  let ?j = "unat (key mod ht_bucket_size ht)" and ?bkt = "bucket ht key" and ?H = "free_elem e (list_del_init e H)"
  have j: "?j < unat (ht_bucket_size ht)" using ht_rel_bucket(1) [OF rel] .
  have ok: "bucket_ok H ?bkt (B ?j)" using ht_rel_bucket(2) [OF rel] .
  note seg = bucket_okD [OF ok]
  have okB: "bucket_ok H ?bkt (xs @ e # ys)" using ok B by simp
  have inB: "e \<in> set (?bkt # B ?j)" using B by simp
  have near: "l_prev H e \<in> set (?bkt # B ?j)" "l_next H e \<in> set (?bkt # B ?j)"
    using dll_closed [OF _ inB, of H] ok by (simp_all add: bucket_ok_def)
  have "ht_rel ht ?H (B(?j := xs @ ys))"
  proof (rule ht_rel_update [OF rel j, where E = "{}"])
    show "bucket_ok ?H (bucket_at ht ?j) (xs @ ys)"
      using bucket_remove [OF okB] by (simp add: bucket_ok_def bucket_def)
    show "unat (e_key ?H a mod ht_bucket_size ht) = ?j" if "a \<in> set (xs @ ys)" for a
      using that rel j B by (auto simp: ht_rel_def)
    show "l_next ?H a = l_next H a \<and> l_prev ?H a = l_prev H a" if "a \<notin> set (bucket_at ht ?j # B ?j) \<union> {}" for a
    proof -
      from that near inB have "a \<noteq> e" "a \<noteq> l_prev H e" "a \<noteq> l_next H e" by (auto simp: bucket_def simp del: list.set)
      then show ?thesis by (simp add: free_elem_def list_del_init_def list_op_defs)
    qed
  qed (use B in auto)
  moreover have "ht_map ht ?H (B(?j := xs @ ys)) = (ht_map ht H B)(key := None)"
  proof (rule ht_map_update)
    show "map_of (kv ?H (xs @ ys)) = (map_of (kv H (B ?j)))(key := None)"
      using map_of_remove [of H xs e ys] seg(3) key B by (simp add: kv_def)
  qed (use rel in \<open>simp_all add: ht_rel_def\<close>)
  moreover have "e \<notin> (\<Union>k \<in> {..<unat (ht_bucket_size ht)} - {?j}. set (bucket_at ht k # B k))"
    using rel j B by (fastforce simp: ht_rel_def)
  moreover have "e \<notin> set (bucket_at ht ?j # xs @ ys)" using okB by (auto simp: bucket_ok_def dll_def bucket_def)
  ultimately have "ht_rep ht ?H (ht_addrs ht (B(?j := xs @ ys))) ((ht_map ht H B)(key := None))"
    "ht_addrs ht B - ht_addrs ht (B(?j := xs @ ys)) = {e}" "ht_addrs ht (B(?j := xs @ ys)) \<subseteq> ht_addrs ht B"
    unfolding ht_rep_def by (metis, unfold ht_addrs_update [OF j] ht_addrs_split [OF j, of B] B, auto)
  then show ?thesis by blast
qed

lemma hash_table_remove_rep:
  assumes rep: "ht_rep ht H U M"
  shows "\<exists>H' U'. hash_table_remove ht key H = Some (case M key of None \<Rightarrow> 0 | Some v \<Rightarrow> v, H') \<and>
    ht_rep ht H' U' (M(key := None)) \<and> U' \<subseteq> U \<and> set (h_freed H') = set (h_freed H) \<union> (U - U')"
proof -
  from rep obtain B where rel: "ht_rel ht H B" and U: "U = ht_addrs ht B" and M: "M = ht_map ht H B"
    by (auto simp: ht_rep_def)
  let ?j = "unat (key mod ht_bucket_size ht)" and ?bkt = "bucket ht key"
  note seg = bucket_okD [OF ht_rel_bucket(2) [OF rel, of key]]
  have rem: "hash_table_remove ht key H = remove_loop H ?bkt key (l_next H ?bkt)"
    by (simp add: hash_table_remove_def Let_def)
  show ?thesis
  proof (cases "dropWhile (\<lambda>e. e_key H e \<noteq> key) (B ?j)")
    case Nil
    then have "M key = None" by (auto simp: M ht_map_def map_of_eq_None_iff dom_kv dropWhile_eq_Nil_conv)
    moreover from this have "M(key := None) = M" by auto
    moreover have "hash_table_remove ht key H = Some (0, H)"
      using remove_loop_seg [OF seg(1,2), of key] rem unfolding Nil by simp
    ultimately show ?thesis using rep by auto
  next
    case (Cons e ys)
    define xs where "xs = takeWhile (\<lambda>e. e_key H e \<noteq> key) (B ?j)"
    have B: "B ?j = xs @ e # ys" using Cons by (metis takeWhile_dropWhile_id xs_def)
    have key: "e_key H e = key" using hd_dropWhile [of "\<lambda>e. e_key H e \<noteq> key" "B ?j"] Cons by simp
    have "key \<notin> e_key H ` set xs" by (auto simp: xs_def dest: set_takeWhileD)
    then have "map_of (kv H xs) key = None" by (simp add: map_of_eq_None_iff dom_kv)
    then have Mkey: "M key = Some (e_object H e)" using key by (simp add: M ht_map_def B map_add_def)
    have "hash_table_remove ht key H = Some (e_object H e, free_elem e (list_del_init e H))"
      using remove_loop_seg [OF seg(1,2), of key] rem Cons by simp
    with ht_rep_unlink [OF rel B key] Mkey show ?thesis unfolding U M by auto
  qed
qed

lemma init_buckets_other:
  "(\<And>k. k < n \<Longrightarrow> a \<noteq> bucket_at ht k) \<Longrightarrow>
   l_next (init_buckets ht n H) a = l_next H a \<and> l_prev (init_buckets ht n H) a = l_prev H a"
  by (induction n arbitrary: H) (auto simp: list_op_defs)

lemma bucket_at_inj [simp]: "bucket_at ht j = bucket_at ht k \<longleftrightarrow> j = k"
  by (simp add: bucket_at_def sizeof_list_head_def)

lemma init_buckets_dll: "k < n \<Longrightarrow> dll (init_buckets ht n H) (bucket_at ht k) []"
proof (induction n arbitrary: H)
  case (Suc n)
  show ?case
  proof (cases "k = n")
    case True
    have "dll (INIT_LIST_HEAD (bucket_at ht n) H) (bucket_at ht n) []" by (rule dll_INIT)
    then show ?thesis
      using init_buckets_other [of n "bucket_at ht n" ht "INIT_LIST_HEAD (bucket_at ht n) H"] True
      by (simp add: dll_def)
  next
    case False
    with Suc show ?thesis by simp
  qed
qed simp

lemma hash_table_create_rep:
  assumes "hash_table_create n addr H = (Some ht, H')"
  shows "\<exists>U. ht_rep ht H' U Map.empty \<and> U \<subseteq> {addr..<addr + sizeof_hash_table + unat n * sizeof_list_head}"
proof -
  from assms have n: "n \<noteq> 0" and ht: "ht_bucket_size ht = n"
    and addr: "ht_buckets ht = addr + sizeof_hash_table" and H': "H' = init_buckets ht (unat n) H"
    by (auto simp: hash_table_create_def Let_def split: if_splits)
  have "ht_rel ht H' (\<lambda>_. [])"
    using n ht by (auto simp: ht_rel_def bucket_ok_def H' init_buckets_dll)
  moreover have "ht_map ht H' (\<lambda>_. []) = Map.empty" by (auto simp: ht_map_def)
  moreover have "ht_addrs ht (\<lambda>_. []) \<subseteq> {addr..<addr + sizeof_hash_table + unat n * sizeof_list_head}"
    by (auto simp: ht_addrs_def bucket_at_def addr ht sizeof_list_head_def)
  ultimately show ?thesis unfolding ht_rep_def by metis
qed

subsection \<open>The interface\<close>

text \<open>
  What a client of the table relies on, in terms of the map it represents. \<open>rep s U M\<close>: the state
  \<open>s\<close> represents \<open>M\<close> and owns the addresses \<open>U\<close>; \<open>fresh\<close> is what \<open>malloc\<close> promises of a block.
\<close>

locale key_table =
  fixes rep :: "'s \<Rightarrow> ptr set \<Rightarrow> (u32 \<rightharpoonup> ptr) \<Rightarrow> bool"
    and find :: "u32 \<Rightarrow> 's \<Rightarrow> ptr option"
    and add :: "u32 \<Rightarrow> ptr \<Rightarrow> ptr \<Rightarrow> 's \<Rightarrow> (int \<times> 's) option"
    and rm :: "u32 \<Rightarrow> 's \<Rightarrow> (ptr \<times> 's) option"
  assumes find_rep: "rep s U M \<Longrightarrow> find k s = Some (case M k of None \<Rightarrow> 0 | Some v \<Rightarrow> v)"
    and add_new: "rep s U M \<Longrightarrow> e \<noteq> 0 \<Longrightarrow> e \<notin> U \<Longrightarrow> M k = None \<Longrightarrow>
      \<exists>s'. add k v e s = Some (0, s') \<and> rep s' (insert e U) (M(k \<mapsto> v))"
    and add_old: "rep s U M \<Longrightarrow> e \<noteq> 0 \<Longrightarrow> e \<notin> U \<Longrightarrow> M k \<noteq> None \<Longrightarrow>
      \<exists>s'. add k v e s = Some (-2, s') \<and> rep s' U M"
    and rm_rep: "rep s U M \<Longrightarrow>
      \<exists>s' U'. rm k s = Some (case M k of None \<Rightarrow> 0 | Some v \<Rightarrow> v, s') \<and> rep s' U' (M(k := None)) \<and> U' \<subseteq> U"
begin

lemma find_after_add:
  assumes "rep s U M" "e \<noteq> 0" "e \<notin> U" "M k = None" "add k v e s = Some (ret, s')"
  shows "ret = 0" "find k s' = Some v" "k' \<noteq> k \<Longrightarrow> find k' s' = find k' s"
proof -
  from add_new [OF assms(1-4), of v] assms(5) have s': "ret = 0" "rep s' (insert e U) (M(k \<mapsto> v))" by auto
  then show "ret = 0" by simp
  show "find k s' = Some v" using find_rep [OF s'(2)] by simp
  show "k' \<noteq> k \<Longrightarrow> find k' s' = find k' s" using find_rep [OF s'(2)] find_rep [OF assms(1)] by simp
qed

lemma find_after_remove:
  assumes "rep s U M" "rm k s = Some (v, s')"
  shows "Some v = find k s" "find k s' = Some 0" "k' \<noteq> k \<Longrightarrow> find k' s' = find k' s"
proof -
  from rm_rep [OF assms(1), of k] assms(2) obtain U' where
    s': "v = (case M k of None \<Rightarrow> 0 | Some v \<Rightarrow> v)" "rep s' U' (M(k := None))" by auto
  then show "Some v = find k s" using find_rep [OF assms(1)] by simp
  show "find k s' = Some 0" using find_rep [OF s'(2)] by simp
  show "k' \<noteq> k \<Longrightarrow> find k' s' = find k' s" using find_rep [OF s'(2)] find_rep [OF assms(1)] by simp
qed

end

interpretation ht: key_table "ht_rep t" "hash_table_find t" "hash_table_add t" "hash_table_remove t" for t
proof unfold_locales
  fix s U M e k v
  assume *: "ht_rep t s U M" "e \<noteq> 0" "e \<notin> U"
  show "\<exists>s'. hash_table_add t k v e s = Some (0, s') \<and> ht_rep t s' (insert e U) (M(k \<mapsto> v))" if "M k = None"
    using hash_table_add_rep [OF *, of k v] that by auto
  show "\<exists>s'. hash_table_add t k v e s = Some (-2, s') \<and> ht_rep t s' U M" if "M k \<noteq> None"
    using hash_table_add_rep [OF *, of k v] that by auto
qed (use hash_table_find_rep hash_table_remove_rep in blast)+

subsection \<open>Sequences of operations\<close>

text \<open>A sequence of calls and what the same calls do to a map.\<close>

datatype ht_op = Op_find u32 | Op_add u32 ptr ptr | Op_remove u32

datatype ht_result = Res_obj ptr | Res_int int

fun ht_exec :: "hash_table \<Rightarrow> ht_op \<Rightarrow> ht_heap \<Rightarrow> (ht_result \<times> ht_heap) option" where
  "ht_exec ht (Op_find k) H = map_option (\<lambda>v. (Res_obj v, H)) (hash_table_find ht k H)"
| "ht_exec ht (Op_add k v e) H = map_option (apfst Res_int) (hash_table_add ht k v e H)"
| "ht_exec ht (Op_remove k) H = map_option (apfst Res_obj) (hash_table_remove ht k H)"

fun ht_exec_all :: "hash_table \<Rightarrow> ht_op list \<Rightarrow> ht_heap \<Rightarrow> ht_result list option" where
  "ht_exec_all ht [] H = Some []"
| "ht_exec_all ht (opn # opns) H =
     do { (res, H') \<leftarrow> ht_exec ht opn H; ress \<leftarrow> ht_exec_all ht opns H'; Some (res # ress) }"

definition map_get :: "(u32 \<rightharpoonup> ptr) \<Rightarrow> u32 \<Rightarrow> ptr" where
  "map_get M k = (case M k of None \<Rightarrow> 0 | Some v \<Rightarrow> v)"

fun map_exec :: "ht_op \<Rightarrow> (u32 \<rightharpoonup> ptr) \<Rightarrow> ht_result \<times> (u32 \<rightharpoonup> ptr)" where
  "map_exec (Op_find k) M = (Res_obj (map_get M k), M)"
| "map_exec (Op_add k v e) M =
     (if M k = None then (Res_int 0, M(k \<mapsto> v)) else (Res_int (-2), M))"
| "map_exec (Op_remove k) M = (Res_obj (map_get M k), M(k := None))"

fun map_exec_all :: "ht_op list \<Rightarrow> (u32 \<rightharpoonup> ptr) \<Rightarrow> ht_result list" where
  "map_exec_all [] M = []"
| "map_exec_all (opn # opns) M = (case map_exec opn M of (res, M') \<Rightarrow> res # map_exec_all opns M')"

fun op_blocks :: "ht_op list \<Rightarrow> ptr list" where
  "op_blocks [] = []"
| "op_blocks (Op_add k v e # opns) = e # op_blocks opns"
| "op_blocks (opn # opns) = op_blocks opns"

lemma ht_exec_all_rep:
  assumes "ht_rep t H U M" "distinct (op_blocks opns)" "0 \<notin> set (op_blocks opns)"
    "set (op_blocks opns) \<inter> U = {}"
  shows "ht_exec_all t opns H = Some (map_exec_all opns M)"
  using assms
proof (induction opns arbitrary: H U M)
  case (Cons opn opns)
  show ?case
  proof (cases opn)
    case (Op_find k)
    with Cons.IH [OF Cons.prems(1)] Cons.prems(2-) show ?thesis
      by (simp add: ht.find_rep [OF Cons.prems(1)] map_get_def)
  next
    case (Op_add k v e)
    then have e: "e \<noteq> 0" "e \<notin> U" using Cons.prems by auto
    show ?thesis
    proof (cases "M k = None")
      case True
      with ht.add_new [OF Cons.prems(1) e, of k v] obtain H' where
        H': "hash_table_add t k v e H = Some (0, H')" "ht_rep t H' (insert e U) (M(k \<mapsto> v))" by blast
      from Cons.IH [OF H'(2)] Cons.prems Op_add H'(1) True show ?thesis by (auto simp: fun_upd_def)
    next
      case False
      with ht.add_old [OF Cons.prems(1) e, of k v] obtain H' where
        H': "hash_table_add t k v e H = Some (-2, H')" "ht_rep t H' U M" by blast
      from Cons.IH [OF H'(2)] Cons.prems Op_add H'(1) False show ?thesis by auto
    qed
  next
    case (Op_remove k)
    from ht.rm_rep [OF Cons.prems(1), of k] obtain H' U' where
      H': "hash_table_remove t k H = Some (map_get M k, H')" "ht_rep t H' U' (M(k := None))" "U' \<subseteq> U"
      by (auto simp: map_get_def)
    moreover have "set (op_blocks opns) \<inter> U' = {}" using Cons.prems(4) Op_remove H'(3) by auto
    ultimately show ?thesis using Cons.IH [OF H'(2)] Cons.prems(2,3) Op_remove
      by (simp add: fun_upd_def)
  qed
qed simp

subsection \<open>Properties\<close>

text \<open>C24. The hash table refines a finite map: on a table made by \<open>hash_table_create\<close>, any sequence of
  \<open>hash_table_find\<close>, \<open>hash_table_add\<close> and \<open>hash_table_remove\<close>, with blocks from \<open>malloc\<close>
  that are pairwise distinct and outside the table, terminates and returns exactly what the same
  sequence returns on a map that starts empty: the stored object or \<open>NULL\<close>, 0 for a new key, -2 for a
  key that is present (whose binding is kept).\<close>

theorem hash_table_refines_map:
  assumes "hash_table_create n addr H = (Some ht, H0)"
    and "distinct (op_blocks opns)" and "0 \<notin> set (op_blocks opns)"
    and "set (op_blocks opns) \<inter> {addr..<addr + sizeof_hash_table + unat n * sizeof_list_head} = {}"
  shows "ht_exec_all ht opns H0 = Some (map_exec_all opns Map.empty)"
proof -
  from hash_table_create_rep [OF assms(1)] obtain U where U: "ht_rep ht H0 U Map.empty"
    "U \<subseteq> {addr..<addr + sizeof_hash_table + unat n * sizeof_list_head}" by blast
  with assms(4) have "set (op_blocks opns) \<inter> U = {}" by auto
  from ht_exec_all_rep [OF U(1) assms(2,3) this] show ?thesis .
qed

definition empty_heap :: ht_heap where
  "empty_heap = \<lparr>l_next = (\<lambda>_. 0), l_prev = (\<lambda>_. 0), e_key = (\<lambda>_. 0), e_object = (\<lambda>_. 0), h_freed = []\<rparr>"

theorem hash_table_refines_map_witness:
  "\<exists>t H0. hash_table_create 4 4096 empty_heap = (Some t, H0) \<and>
    ht_exec_all t [Op_add 7 70 10, Op_add 3 30 20, Op_add 7 71 30, Op_find 3, Op_remove 7, Op_find 7] H0 =
      Some [Res_int 0, Res_int 0, Res_int (-2), Res_obj 30, Res_obj 70, Res_obj 0]"
proof -
  obtain t H0 where t: "hash_table_create 4 4096 empty_heap = (Some t, H0)"
    by (auto simp: hash_table_create_def Let_def)
  from hash_table_refines_map [OF t, of
      "[Op_add 7 70 10, Op_add 3 30 20, Op_add 7 71 30, Op_find 3, Op_remove 7, Op_find 7]"]
  show ?thesis using t by (auto simp: map_get_def sizeof_hash_table_def sizeof_list_head_def)
qed

lemma nat_and_pred:
  assumes "(x :: nat) AND (x - 1) = 0" "x \<noteq> 0"
  shows "\<exists>k. x = 2 ^ k"
proof -
  obtain k where k: "2 ^ k \<le> x" "x < 2 ^ (k + 1)"
    using ex_power_ivl1 [of 2 x] assms(2) by auto
  have one: "bit y k" if "2 ^ k \<le> y" "y < 2 ^ (k + 1)" for y :: nat
  proof -
    have "y div 2 ^ k = 1" using that by (intro div_nat_eqI) auto
    then show ?thesis by (simp add: bit_iff_odd)
  qed
  have "\<not> 2 ^ k \<le> x - 1"
  proof
    assume "2 ^ k \<le> x - 1"
    with one k assms(2) have "bit (x AND (x - 1)) k" by (simp add: bit_and_iff)
    with assms(1) show False by simp
  qed
  with k have "x = 2 ^ k" by simp
  then show ?thesis ..
qed

lemma power_two_check:
  "(n :: u32) \<noteq> 0 \<and> n AND (n - 1) = 0 \<longleftrightarrow> (\<exists>k < 32. n = 2 ^ k)"
proof
  assume n: "n \<noteq> 0 \<and> n AND (n - 1) = 0"
  then have "unat (n - 1) = unat n - 1" by (simp add: unat_minus_one)
  with n have "unat n AND (unat n - 1) = 0" by (metis unsigned_0 unsigned_and_eq)
  moreover have "unat n \<noteq> 0" using n by (simp add: unat_gt_0)
  ultimately obtain k where k: "unat n = 2 ^ k" using nat_and_pred by blast
  have "unat n < 2 ^ LENGTH(32)" by (rule unsigned_less)
  with k have "(2 :: nat) ^ k < 2 ^ 32" by simp
  then have "k < 32" by (rule power_less_imp_less_exp [rotated]) simp
  moreover have "n = word_of_nat (unat n)" by simp
  then have "n = 2 ^ k" unfolding k by simp
  ultimately show "\<exists>k < 32. n = 2 ^ k" by blast
next
  assume "\<exists>k < 32. n = 2 ^ k"
  moreover have "list_all (\<lambda>k. (2 ^ k :: u32) \<noteq> 0 \<and> (2 ^ k :: u32) AND (2 ^ k - 1) = 0) [0..<32]"
    by code_simp
  ultimately show "n \<noteq> 0 \<and> n AND (n - 1) = 0" by (auto simp: list_all_iff)
qed

text \<open>Creation succeeds exactly when the bucket count is a power of two and the allocation succeeds;
  otherwise it returns \<open>NULL\<close> and touches no memory.\<close>

theorem hash_table_create_spec:
  "hash_table_create n addr H =
     (if (\<exists>k < 32. n = 2 ^ k) \<and> addr \<noteq> 0
      then (let ht = \<lparr>ht_bucket_size = n, ht_buckets = addr + sizeof_hash_table\<rparr>
            in (Some ht, init_buckets ht (unat n) H))
      else (None, H))"
  unfolding hash_table_create_def power_two_check [symmetric] by auto

end
