(* ===== verification/Header_Handlers.thy ===== *)
theory Header_Handlers
  imports Parse_Header_Behaviour Hashtable
begin

text \<open>
  The header handlers of \<open>http/request.c\<close>: \<open>http_process_content_length\<close>, \<open>http_process_host\<close>
  (a scan over the value that also lower-cases it in place, in memory), the table
  \<open>http_headers_handler\<close>, its registration in the hash table and the dispatch of one parsed
  header line. A handler is a function from the memory and the request to a return code, the
  memory and the request; \<open>None\<close> in the table is a \<open>NULL\<close> function pointer.

  \<open>i - 1\<close> and \<open>host_len - 1\<close> are computed in \<open>size_t\<close> and wrap at 0, which is written out.
\<close>

type_synonym handler = "mem \<Rightarrow> http_request \<Rightarrow> (int \<times> mem \<times> http_request) cres"

subsection \<open>Content-Length\<close>

definition http_process_content_length :: handler where
  "http_process_content_length m r =
     (case str_atoi m (r_header_value r) of
        Ret n \<Rightarrow> let r' = r\<lparr>r_content_len := n\<rparr>
                 in Ret (if r_content_len r' \<le> 0 then -1 else 0, m, r')
      | UB \<Rightarrow> UB | Abort \<Rightarrow> Abort | Exit e \<Rightarrow> Exit e)"

subsection \<open>Host\<close>

datatype host_state = SW_usual | SW_literal | SW_rest

definition pred_size :: "size_t \<Rightarrow> size_t" where
  "pred_size i = (i + (2 ^ 64 - 1)) mod 2 ^ 64"

text \<open>The body of the loop: an error, or the new memory and local variables.\<close>

definition host_step :: "mem \<Rightarrow> ptr \<Rightarrow> size_t \<Rightarrow> host_state \<Rightarrow> size_t \<Rightarrow> size_t \<Rightarrow>
    int + (mem \<times> host_state \<times> size_t \<times> size_t)" where
  "host_step m p i st dot_pos host_len =
     (let ch = m (p + i) in
      if ch = ch_dot then
        (if dot_pos = pred_size i then Inl (-1) else Inr (m, st, i, host_len))
      else if ch = ch_colon then
        (if st = SW_usual then Inr (m, SW_rest, dot_pos, i) else Inr (m, st, dot_pos, host_len))
      else if ch = ch_lbracket then
        (if i = 0 then Inr (m, SW_literal, dot_pos, host_len) else Inr (m, st, dot_pos, host_len))
      else if ch = ch_rbracket then
        (if st = SW_literal then Inr (m, SW_rest, dot_pos, i + 1) else Inr (m, st, dot_pos, host_len))
      else if ch = 0 then Inl (-1)
      else if ch = ch_slash then Inl (-2)
      else if ch_A \<le> ch \<and> ch \<le> ch_Z then Inr (m(p + i := tolower ch), st, dot_pos, host_len)
      else Inr (m, st, dot_pos, host_len))"

fun host_loop :: "nat \<Rightarrow> mem \<Rightarrow> ptr \<Rightarrow> size_t \<Rightarrow> host_state \<Rightarrow> size_t \<Rightarrow> size_t \<Rightarrow>
    mem \<times> (int + (size_t \<times> size_t))" where
  "host_loop 0 m p i st dot_pos host_len = (m, Inr (dot_pos, host_len))"
| "host_loop (Suc n) m p i st dot_pos host_len =
     (case host_step m p i st dot_pos host_len of
        Inl e \<Rightarrow> (m, Inl e)
      | Inr (m', st', dot_pos', host_len') \<Rightarrow> host_loop n m' p (i + 1) st' dot_pos' host_len')"

definition http_process_host :: handler where
  "http_process_host m r =
     (let v = r_header_value r; r1 = r\<lparr>r_host := set_p (str_p v) (r_host r)\<rparr> in
      case host_loop (str_len v) m (str_p v) 0 SW_usual (str_len v) (str_len v) of
        (m', Inl e) \<Rightarrow> Ret (e, m', r1)
      | (m', Inr (dot_pos, host_len)) \<Rightarrow>
          let host_len1 = (if dot_pos = pred_size host_len then pred_size host_len else host_len)
          in if host_len1 = 0 then Ret (-3, m', r1)
             else Ret (0, m', r1\<lparr>r_host := set_len host_len1 (r_host r1)\<rparr>))"

subsection \<open>The table and its registration\<close>

definition http_headers_handler :: "(u8 list \<times> handler option) list" where
  "http_headers_handler = [
     (lit ''Host'', Some http_process_host),
     (lit ''Connection'', None),
     (lit ''If-Modified-Since'', None),
     (lit ''If-Unmodified-Since'', None),
     (lit ''If-Match'', None),
     (lit ''If-None-Match'', None),
     (lit ''User-Agent'', None),
     (lit ''Referer'', None),
     (lit ''Content-Length'', Some http_process_content_length),
     (lit ''Content-Type'', None),
     (lit ''Range'', None),
     (lit ''If-Range'', None),
     (lit ''Transfer-Encoding'', None),
     (lit ''Expect'', None),
     (lit ''Upgrade'', None),
     (lit ''Authorization'', None),
     (lit ''Keep-Alive'', None),
     (lit ''Cookie'', None),
     ([], None)]"

definition sizeof_handler :: nat where "sizeof_handler = 24"

text \<open>The registered handlers: the hash table, the heap it lives in, and the structures its objects
  point to.\<close>

record header_env =
  he_table :: hash_table
  he_heap :: ht_heap
  he_handler :: "ptr \<Rightarrow> handler option"

text \<open>\<open>add_client_header_handler\<close> on the array of structures at \<open>at\<close>; \<open>blocks\<close> are the results of the calls
  of \<open>malloc\<close> in \<open>hash_table_add\<close> (none left: \<open>NULL\<close>). The loop ends at the first entry
  with an empty name.\<close>

fun add_client_header_handler ::
  "(u8 list \<times> handler option) list \<Rightarrow> ptr \<Rightarrow> ptr list \<Rightarrow> header_env \<Rightarrow> (header_env \<times> ptr list) cres option" where
  "add_client_header_handler [] at blocks env = Some UB"
| "add_client_header_handler ((name, h) # hs) at blocks env =
     (if length name = 0 then Some (Ret (env, blocks))
      else case h of
        None \<Rightarrow> add_client_header_handler hs (at + sizeof_handler) blocks env
      | Some f \<Rightarrow>
          (case hash_table_add (he_table env) (hash_key_lc name) at
              (case blocks of [] \<Rightarrow> 0 | b # _ \<Rightarrow> b) (he_heap env) of
             None \<Rightarrow> None
           | Some (ret, H) \<Rightarrow>
               if ret \<noteq> 0 then Some (Exit (-1))
               else add_client_header_handler hs (at + sizeof_handler) (drop 1 blocks)
                 (env\<lparr>he_heap := H, he_handler := (he_handler env)(at := Some f)\<rparr>)))"

subsection \<open>Dispatch\<close>

definition handle_http_request_header ::
  "header_env \<Rightarrow> mem \<Rightarrow> http_request \<Rightarrow> (int \<times> mem \<times> http_request) cres option" where
  "handle_http_request_header env m r =
     (if r_invalid_header r then Some (Ret (0, m, r))
      else case hash_table_find (he_table env) (r_header_hash r) (he_heap env) of
             None \<Rightarrow> None
           | Some hh \<Rightarrow>
               if hh \<noteq> 0 then
                 (case he_handler env hh of
                    Some h \<Rightarrow> Some (h m r)
                  | None \<Rightarrow> Some (Ret (0, m, r)))
               else Some (Ret (0, m, r)))"

subsection \<open>The host name\<close>

text \<open>A byte that may occur in a host name or port, outside brackets.\<close>

definition host_byte :: "u8 \<Rightarrow> bool" where
  "host_byte c \<longleftrightarrow> c \<noteq> 0 \<and> c \<noteq> ch_slash \<and> c \<noteq> ch_colon \<and> c \<noteq> ch_lbracket \<and> c \<noteq> ch_rbracket"

fun no_dotdot :: "u8 list \<Rightarrow> bool" where
  "no_dotdot (a # b # cs) \<longleftrightarrow> \<not> (a = ch_dot \<and> b = ch_dot) \<and> no_dotdot (b # cs)"
| "no_dotdot _ \<longleftrightarrow> True"

definition strip_dot :: "u8 list \<Rightarrow> u8 list" where
  "strip_dot cs = (if cs \<noteq> [] \<and> last cs = ch_dot then butlast cs else cs)"

lemma strip_dot_take: "strip_dot cs = take (length (strip_dot cs)) cs"
  by (simp add: strip_dot_def butlast_conv_take)

text \<open>The last position of a dot, counting from \<open>i\<close>.\<close>

fun last_dot :: "size_t \<Rightarrow> size_t \<Rightarrow> u8 list \<Rightarrow> size_t" where
  "last_dot d i [] = d"
| "last_dot d i (c # cs) = last_dot (if c = ch_dot then i else d) (i + 1) cs"

lemma pred_size_Suc [simp]: "i < 2 ^ 64 \<Longrightarrow> pred_size (Suc i) = i"
  by (simp add: pred_size_def)

lemma pred_size_0 [simp]: "pred_size 0 = 2 ^ 64 - 1"
  by (simp add: pred_size_def)

lemma last_dot_snoc:
  assumes "cs \<noteq> []" "last cs = ch_dot"
  shows "last_dot d i cs = i + length cs - 1"
  using assms by (induction cs arbitrary: d i) (auto split: if_splits)

lemma last_dot_other:
  assumes "cs = [] \<or> last cs \<noteq> ch_dot"
  shows "last_dot d i cs = d \<or> last_dot d i cs + 1 < i + length cs"
  using assms
proof (induction cs arbitrary: d i)
  case (Cons c cs)
  show ?case
  proof (cases "cs = []")
    case False
    with Cons.prems Cons.IH [of "if c = ch_dot then i else d" "i + 1"] show ?thesis
      by (cases cs) (auto split: if_splits)
  qed (use Cons.prems in simp)
qed simp

text \<open>The loop over bytes of a host name or a port.\<close>

lemma host_loop_bytes:
  assumes "bytes_at m (p + i) (length cs) = cs" "\<forall>c \<in> set cs. host_byte c" "no_dotdot cs"
    and "i + length cs \<le> n" "n < 2 ^ 64 - 1" "d < i \<or> n \<le> d"
    and "d + 1 = i \<Longrightarrow> cs = [] \<or> hd cs \<noteq> ch_dot" "n \<le> d \<Longrightarrow> d < 2 ^ 64 - 1"
  shows "host_loop (length cs + k) m p i st d host =
    host_loop k (mem_write m (p + i) (map tolower cs)) p (i + length cs) st (last_dot d i cs) host"
  using assms
proof (induction cs arbitrary: m i d)
  case (Cons c cs)
  have c: "m (p + i) = c" and rest: "bytes_at m (p + Suc i) (length cs) = cs"
    using Cons.prems(1) by (simp_all add: bytes_at_Suc)
  have byte: "host_byte c" using Cons.prems(2) by simp
  define d' where "d' = (if c = ch_dot then i else d)"
  define m' where "m' = m(p + i := tolower c)"
  have m': "(if ch_A \<le> c \<and> c \<le> ch_Z then m(p + i := tolower c) else m) = m'"
    using c by (auto simp: m'_def tolower_def)
  have pred: "d \<noteq> pred_size i" if "c = ch_dot"
  proof (cases i)
    case 0
    with Cons.prems(6,8) show ?thesis by auto
  next
    case (Suc j)
    with Cons.prems(4-7) that show ?thesis by auto
  qed
  have step: "host_step m p i st d host = Inr (m', st, d', host)"
  proof (cases "c = ch_dot")
    case True
    then have "m' = m" using c by (auto simp: m'_def tolower_def)
    with True c pred show ?thesis by (simp add: host_step_def d'_def)
  next
    case False
    have "(if ch_A \<le> c \<and> c \<le> ch_Z then Inr (m(p + i := tolower c), st, d, host) else Inr (m, st, d, host)) =
        (Inr (m', st, d, host) :: int + _)"
      using m' by (auto split: if_splits)
    with False byte c show ?thesis by (simp add: host_step_def d'_def host_byte_def)
  qed
  have same: "bytes_at m' (p + Suc i) (length cs) = cs"
    using rest by (metis (no_types, lifting) bytes_at_cong fun_upd_other le_SucE m'_def not_less_eq_eq add_Suc_right order.refl)
  have "no_dotdot cs" using Cons.prems(3) by (cases cs) auto
  moreover have "d' + 1 = Suc i \<Longrightarrow> cs = [] \<or> hd cs \<noteq> ch_dot"
    using Cons.prems(3,4,6) by (cases cs) (auto simp: d'_def split: if_splits)
  moreover have "d' < Suc i \<or> n \<le> d'" using Cons.prems(6) by (auto simp: d'_def)
  moreover have "n \<le> d' \<Longrightarrow> d' < 2 ^ 64 - 1" using Cons.prems(4,8) by (auto simp: d'_def split: if_splits)
  ultimately have "host_loop (length cs + k) m' p (Suc i) st d' host =
      host_loop k (mem_write m' (p + Suc i) (map tolower cs)) p (Suc i + length cs) st (last_dot d' (Suc i) cs) host"
    using Cons.prems(2,4,5) same by (intro Cons.IH) auto
  then show ?case using step by (simp add: m'_def d'_def)
qed simp

lemma last_dot_nodot: "\<forall>c \<in> set cs. c \<noteq> ch_dot \<Longrightarrow> last_dot d i cs = d"
  by (induction cs arbitrary: d i) auto

lemma last_dot_bound: "last_dot d i cs = d \<or> i \<le> last_dot d i cs \<and> last_dot d i cs < i + length cs"
proof (induction cs arbitrary: d i)
  case (Cons c cs)
  show ?case using Cons.IH [of "if c = ch_dot then i else d" "i + 1"] by auto
qed simp

text \<open>A port: nothing, or a colon and digits.\<close>

definition port_text :: "u8 list \<Rightarrow> bool" where
  "port_text port \<longleftrightarrow> port = [] \<or> (\<exists>ds. port = ch_colon # ds \<and> (\<forall>c \<in> set ds. is_digit c))"

lemma digit_host_byte: "is_digit c \<Longrightarrow> host_byte c \<and> c \<noteq> ch_dot"
  by (auto simp: is_digit_def host_byte_def)

lemma no_dotdot_digits: "\<forall>c \<in> set ds. c \<noteq> ch_dot \<Longrightarrow> no_dotdot ds"
  by (induction ds rule: no_dotdot.induct) auto

lemma host_loop_text:
  assumes bytes: "bytes_at m p n = name @ port" and name: "\<forall>c \<in> set name. host_byte c" "no_dotdot name"
    and port: "port_text port" and n: "n < 2 ^ 64 - 1"
  shows "host_loop n m p 0 SW_usual n n =
    (mem_write m p (map tolower (name @ port)), Inr (last_dot n 0 name, length name))"
proof -
  have len: "n = length name + length port" using arg_cong [OF bytes, of length] by simp
  have name_at: "bytes_at m p (length name) = name" and port_at: "bytes_at m (p + length name) (length port) = port"
    using bytes len by (simp_all add: bytes_at_add)
  let ?m = "mem_write m p (map tolower name)" and ?d = "last_dot n 0 name"
  have one: "host_loop n m p 0 SW_usual n n = host_loop (length port) ?m p (length name) SW_usual ?d n"
    using host_loop_bytes [of m p 0 name n n "length port" SW_usual n] name_at name len n by simp
  show ?thesis
  proof (cases "port = []")
    case True
    with one len show ?thesis by simp
  next
    case False
    with port obtain ds where ds: "port = ch_colon # ds" "\<forall>c \<in> set ds. is_digit c"
      by (auto simp: port_text_def)
    let ?k = "length name"
    have colon: "?m (p + ?k) = ch_colon"
      using port_at ds by (simp add: bytes_at_Suc mem_write_out)
    have step: "host_step ?m p ?k SW_usual ?d n = Inr (?m, SW_rest, ?d, ?k)"
      by (simp add: host_step_def colon)
    have tl: "bytes_at m (p + Suc ?k) (length ds) = ds" using port_at ds by (simp add: bytes_at_Suc)
    moreover have "bytes_at ?m (p + Suc ?k) (length ds) = bytes_at m (p + Suc ?k) (length ds)"
      by (rule bytes_at_cong) (simp add: mem_write_out)
    ultimately have ds_at: "bytes_at ?m (p + Suc ?k) (length ds) = ds" by simp
    have d: "?d < Suc ?k \<or> n \<le> ?d" "n \<le> ?d \<Longrightarrow> ?d < 2 ^ 64 - 1"
      using last_dot_bound [of n 0 name] n len by auto
    have "host_loop (length ds + 0) ?m p (Suc ?k) SW_rest ?d ?k =
        host_loop 0 (mem_write ?m (p + Suc ?k) (map tolower ds)) p (Suc ?k + length ds) SW_rest
          (last_dot ?d (Suc ?k) ds) ?k"
    proof (rule host_loop_bytes [OF ds_at])
      show "ds = [] \<or> hd ds \<noteq> ch_dot" using ds(2) digit_host_byte by (cases ds) auto
    qed (use ds len n d digit_host_byte no_dotdot_digits in auto)
    moreover have "last_dot ?d (Suc ?k) ds = ?d" using ds(2) digit_host_byte last_dot_nodot by blast
    moreover have "mem_write ?m (p + Suc ?k) (map tolower ds) = mem_write m p (map tolower (name @ port))"
    proof -
      have "?m(p + ?k := tolower ch_colon) = ?m" using colon by (auto simp: tolower_def)
      then show ?thesis using ds(1) by (simp add: mem_write_append)
    qed
    ultimately show ?thesis using one step ds(1) by simp
  qed
qed

lemma http_process_host_text:
  fixes name
  assumes bytes: "str_bytes m (r_header_value r) = name @ port" and name: "\<forall>c \<in> set name. host_byte c"
      "no_dotdot name" "strip_dot name \<noteq> []"
    and port: "port_text port" and n: "str_len (r_header_value r) < 2 ^ 64 - 1"
  defines "v \<equiv> r_header_value r" and "k \<equiv> length (strip_dot name)"
  shows "http_process_host m r = Ret (0, mem_write m (str_p v) (map tolower (name @ port)),
    r\<lparr>r_host := \<lparr>str_p = str_p v, str_len = k\<rparr>\<rparr>)"
proof -
  let ?n = "str_len v" and ?d = "last_dot (str_len v) 0 name"
  have len: "?n = length name + length port"
    using arg_cong [OF bytes, of length] by (simp add: v_def)
  have loop: "host_loop ?n m (str_p v) 0 SW_usual ?n ?n =
      (mem_write m (str_p v) (map tolower (name @ port)), Inr (?d, length name))"
    using bytes name port n unfolding v_def by (intro host_loop_text) (simp_all add: str_bytes_def)
  have ne: "name \<noteq> []" using name(3) by (auto simp: strip_dot_def)
  then have pred: "pred_size (length name) = length name - 1"
    using len n by (cases name) (simp_all add: v_def)
  have k: "(if ?d = pred_size (length name) then pred_size (length name) else length name) = k"
  proof (cases "last name = ch_dot")
    case True
    with last_dot_snoc [OF ne, of ?n 0] ne show ?thesis by (simp add: pred k_def strip_dot_def)
  next
    case False
    then have "?d = ?n \<or> ?d + 1 < length name" using last_dot_other [of name ?n 0] by simp
    moreover have "0 < length name" using ne by simp
    ultimately have "?d \<noteq> length name - 1" using len by (elim disjE) linarith+
    with False show ?thesis by (simp add: pred k_def strip_dot_def)
  qed
  have "k \<noteq> 0" using name(3) by (simp add: k_def)
  then show ?thesis
    unfolding http_process_host_def v_def [symmetric] Let_def loop prod.case sum.case k
    by (simp add: set_len_def set_p_def)
qed

text \<open>Whatever the value is, the scan stays inside it and changes no other part of the request.\<close>

lemma host_step_frame:
  assumes "host_step m p i st d host = Inr (m', st', d', host')" "host \<le> n" "d \<le> n" "i < n"
  shows "host' \<le> n" "d' \<le> n" "a < p \<or> p + n \<le> a \<Longrightarrow> m' a = m a"
  using assms by (auto simp: host_step_def Let_def split: if_splits)

lemma host_loop_frame:
  assumes "host_loop j m p i st d host = (m', res)" "host \<le> n" "d \<le> n" "i + j \<le> n"
  shows "(\<forall>a. a < p \<or> p + n \<le> a \<longrightarrow> m' a = m a) \<and> (\<forall>d' host'. res = Inr (d', host') \<longrightarrow> d' \<le> n \<and> host' \<le> n)"
  using assms
proof (induction j arbitrary: m i st d host)
  case (Suc j)
  show ?case
  proof (cases "host_step m p i st d host")
    case (Inl e)
    with Suc.prems show ?thesis by auto
  next
    case (Inr x)
    obtain m1 st1 d1 host1 where x: "x = (m1, st1, d1, host1)" by (metis prod.exhaust)
    with Inr have step: "host_step m p i st d host = Inr (m1, st1, d1, host1)" by simp
    from Suc.prems(4) have "i < n" by simp
    note fr = host_step_frame [OF step Suc.prems(2,3) this]
    from Suc.prems step have "host_loop j m1 p (i + 1) st1 d1 host1 = (m', res)" by simp
    from Suc.IH [OF this fr(1,2)] Suc.prems(4) fr(3) show ?thesis by auto
  qed
qed auto

lemma host_step_error: "host_step m p i st d host = Inl e \<Longrightarrow> e \<noteq> 0"
  by (auto simp: host_step_def Let_def split: if_splits)

lemma host_loop_error: "host_loop j m p i st d host = (m', Inl e) \<Longrightarrow> e \<noteq> 0"
  by (induction j arbitrary: m i st d host) (auto split: sum.splits dest: host_step_error)

lemma pred_size_le: "pred_size k \<noteq> 0 \<Longrightarrow> k < 2 ^ 64 \<Longrightarrow> k \<noteq> 0 \<Longrightarrow> pred_size k \<le> k"
  by (cases k) simp_all

lemma http_process_host_frame:
  fixes r
  defines "v \<equiv> r_header_value r"
  assumes "str_len v < 2 ^ 64 - 1"
  shows "\<exists>e m' h. http_process_host m r = Ret (e, m', r\<lparr>r_host := h\<rparr>) \<and>
    (\<forall>a. a < str_p v \<or> str_p v + str_len v \<le> a \<longrightarrow> m' a = m a) \<and>
    (e = 0 \<longrightarrow> str_in (str_p v) (str_p v + str_len v) h \<and> str_len h \<noteq> 0)"
proof -
  obtain m' res where loop: "host_loop (str_len v) m (str_p v) 0 SW_usual (str_len v) (str_len v) = (m', res)"
    by fastforce
  from host_loop_frame [OF loop, of "str_len v"]
  have mem: "\<forall>a. a < str_p v \<or> str_p v + str_len v \<le> a \<longrightarrow> m' a = m a"
    and bound: "\<And>d host. res = Inr (d, host) \<Longrightarrow> d \<le> str_len v \<and> host \<le> str_len v" by auto
  show ?thesis
  proof (cases res)
    case (Inl e)
    with loop mem host_loop_error [of "str_len v" m "str_p v"] show ?thesis
      by (simp add: http_process_host_def v_def Let_def) blast
  next
    case (Inr dh)
    obtain d host where dh: "dh = (d, host)" by fastforce
    let ?k = "if d = pred_size host then pred_size host else host"
    have host: "d \<le> str_len v" "host \<le> str_len v" using bound Inr dh by simp_all
    have k: "?k \<le> host" using host assms(2) by (cases host) auto
    show ?thesis
    proof (cases "?k = 0")
      case True
      with loop Inr dh mem show ?thesis
        by (intro exI [of _ "-3"] exI [of _ m'] exI [of _ "set_p (str_p v) (r_host r)"])
          (auto simp: http_process_host_def v_def Let_def)
    next
      case False
      with loop Inr dh mem k host show ?thesis
        by (intro exI [of _ 0] exI [of _ m'] exI [of _ "\<lparr>str_p = str_p v, str_len = ?k\<rparr>"])
          (auto simp: http_process_host_def v_def Let_def set_len_set_p str_in_def)
    qed
  qed
qed

subsection \<open>The registered handlers\<close>

definition host_key :: u32 where "host_key = hash_key_lc (lit ''Host'')"

definition content_length_key :: u32 where "content_length_key = hash_key_lc (lit ''Content-Length'')"

lemma keys_differ: "host_key \<noteq> content_length_key"
  unfolding host_key_def content_length_key_def by code_simp

text \<open>The state of the table after the built-in handlers were registered from the array at \<open>at\<close>.\<close>

definition env_default :: "header_env \<Rightarrow> bool" where
  "env_default env \<longleftrightarrow> (\<exists>at U. at \<noteq> 0 \<and>
     ht_rep (he_table env) (he_heap env) U [host_key \<mapsto> at, content_length_key \<mapsto> at + 8 * sizeof_handler] \<and>
     he_handler env at = Some http_process_host \<and>
     he_handler env (at + 8 * sizeof_handler) = Some http_process_content_length)"

lemma add_default_handlers:
  assumes rep: "ht_rep (he_table env) (he_heap env) U Map.empty"
    and at: "at \<noteq> 0" and b: "b1 \<noteq> 0" "b2 \<noteq> 0" "b1 \<noteq> b2" "b1 \<notin> U" "b2 \<notin> U"
  shows "\<exists>env'. add_client_header_handler http_headers_handler at (b1 # b2 # bs) env = Some (Ret (env', bs)) \<and>
    env_default env'"
proof -
  from ht.add_new [OF rep b(1,4), of host_key at] obtain H1 where
    H1: "hash_table_add (he_table env) host_key at b1 (he_heap env) = Some (0, H1)"
    "ht_rep (he_table env) H1 (insert b1 U) [host_key \<mapsto> at]" by auto
  from ht.add_new [OF H1(2) b(2), of content_length_key "at + 8 * sizeof_handler"] b keys_differ obtain H2 where
    H2: "hash_table_add (he_table env) content_length_key (at + 8 * sizeof_handler) b2 H1 = Some (0, H2)"
    "ht_rep (he_table env) H2 (insert b2 (insert b1 U))
      [host_key \<mapsto> at, content_length_key \<mapsto> at + 8 * sizeof_handler]" by auto
  let ?env = "env\<lparr>he_heap := H2, he_handler := (he_handler env)(at := Some http_process_host,
    at + 8 * sizeof_handler := Some http_process_content_length)\<rparr>"
  have "add_client_header_handler http_headers_handler at (b1 # b2 # bs) env = Some (Ret (?env, bs))"
    using H1(1) H2(1)
    by (simp add: http_headers_handler_def host_key_def content_length_key_def sizeof_handler_def
        add.commute [of 192])
  moreover have "env_default ?env"
    unfolding env_default_def using H2(2) at
    by (intro exI [of _ at] exI [of _ "insert b2 (insert b1 U)"]) (simp add: sizeof_handler_def)
  ultimately show ?thesis by blast
qed

text \<open>Dispatch is by hash.\<close>

lemma handle_default:
  assumes "env_default env"
  shows "handle_http_request_header env m r =
    Some (if r_invalid_header r then Ret (0, m, r)
          else if r_header_hash r = host_key then http_process_host m r
          else if r_header_hash r = content_length_key then http_process_content_length m r
          else Ret (0, m, r))"
proof -
  from assms obtain at U where at: "at \<noteq> 0"
    "ht_rep (he_table env) (he_heap env) U [host_key \<mapsto> at, content_length_key \<mapsto> at + 8 * sizeof_handler]"
    "he_handler env at = Some http_process_host"
    "he_handler env (at + 8 * sizeof_handler) = Some http_process_content_length"
    by (auto simp: env_default_def)
  from ht.find_rep [OF at(2), of "r_header_hash r"] at(1,3,4) keys_differ show ?thesis
    by (auto simp: handle_http_request_header_def)
qed

lemma hash_key_lc_lower: "hash_key_lc (map tolower cs) = hash_key_lc cs"
proof -
  have idem: "tolower (tolower c) = tolower c" for c by (auto simp: tolower_def word_le_nat_alt unat_arith_simps)
  have "foldl (\<lambda>key c. HASH key (tolower c)) k (map tolower cs) = foldl (\<lambda>key c. HASH key (tolower c)) k cs" for k
    by (induction cs arbitrary: k) (simp_all add: idem)
  then show ?thesis by (simp add: hash_key_lc_def)
qed

lemma same_lower_same_key: "map tolower a = map tolower b \<Longrightarrow> hash_key_lc a = hash_key_lc b"
  by (metis hash_key_lc_lower)

lemma http_process_content_length_digits:
  assumes "str_bytes m (r_header_value r) = dec_digits n"
  shows "http_process_content_length m r =
    (if int n > INT_MAX then UB
     else Ret (if n = 0 then -1 else 0, m, r\<lparr>r_content_len := int n\<rparr>))"
  using str_atoi_dec_digits [of m "r_header_value r" n "[]"] assms
  by (simp add: http_process_content_length_def)

lemma str_atoi_loop_returns: "str_atoi_loop cs v \<noteq> Abort" "str_atoi_loop cs v \<noteq> Exit e"
  by (induction cs v rule: str_atoi_loop.induct) (auto simp: Let_def split: if_splits)

lemma http_process_content_length_cases:
  "http_process_content_length m r = UB \<or>
   (\<exists>e n. http_process_content_length m r = Ret (e, m, r\<lparr>r_content_len := n\<rparr>) \<and> (e = 0 \<longrightarrow> 0 < n))"
proof (cases "str_atoi m (r_header_value r)")
  case (Ret n)
  then show ?thesis by (auto simp: http_process_content_length_def)
next
  case UB
  then show ?thesis by (simp add: http_process_content_length_def)
qed (simp_all add: str_atoi_def str_atoi_loop_returns)

subsection \<open>Properties\<close>

text \<open>\<open>http_process_host\<close> normalises a host: for a value that is a name without empty labels (a
  trailing dot allowed), optionally followed by a colon and a decimal port, it returns 0, \<open>r->host\<close> is the name
  without the port and without the trailing dot, in lower case, and the whole value is
  lower-cased in place; nothing else in memory changes.\<close>

theorem host_header_normalised:
  assumes "str_bytes m (r_header_value r) = name @ port" and "\<forall>c \<in> set name. host_byte c"
    and "no_dotdot name" and "strip_dot name \<noteq> []" and "port_text port"
    and "str_len (r_header_value r) < 2 ^ 64 - 1"
  shows "\<exists>m' r'. http_process_host m r = Ret (0, m', r') \<and>
    str_bytes m' (r_host r') = map tolower (strip_dot name) \<and>
    str_bytes m' (r_header_value r) = map tolower (name @ port) \<and>
    (\<forall>a. a < str_p (r_header_value r) \<or> str_p (r_header_value r) + str_len (r_header_value r) \<le> a \<longrightarrow> m' a = m a)"
proof -
  let ?v = "r_header_value r"
  let ?m = "mem_write m (str_p ?v) (map tolower (name @ port))"
  have len: "str_len ?v = length name + length port" using arg_cong [OF assms(1), of length] by simp
  have all: "bytes_at ?m (str_p ?v) (length name + length port) = map tolower (name @ port)"
    using bytes_at_mem_write [of m "str_p ?v" "map tolower (name @ port)"] by simp
  have "strip_dot name @ drop (length (strip_dot name)) name = name"
    by (subst strip_dot_take) (rule append_take_drop_id)
  then have "map tolower (name @ port) =
      map tolower (strip_dot name) @ map tolower (drop (length (strip_dot name)) name @ port)"
    by (metis append.assoc map_append)
  with all have "bytes_at ?m (str_p ?v) (length (strip_dot name)) = map tolower (strip_dot name)"
    using bytes_at_part [of ?m "str_p ?v" "length name + length port" "[]" "map tolower (strip_dot name)"] by simp
  moreover have "\<forall>a. a < str_p ?v \<or> str_p ?v + str_len ?v \<le> a \<longrightarrow> ?m a = m a"
    by (simp add: mem_write_out len)
  ultimately show ?thesis
    using http_process_host_text [OF assms(1-6)] all len by (simp add: str_bytes_def)
qed

lemma str_bytes_test: "n = length bs \<Longrightarrow> str_bytes (test_mem bs) \<lparr>str_p = 1000, str_len = n\<rparr> = bs"
  by (simp add: str_bytes_def test_mem_def)

theorem host_header_normalised_witness:
  "\<exists>m' r'. http_process_host (test_mem (lit ''Ex.Org.:80'')) (zero_request\<lparr>r_header_value :=
      \<lparr>str_p = 1000, str_len = 10\<rparr>\<rparr>) = Ret (0, m', r') \<and> str_bytes m' (r_host r') = lit ''ex.org''"
proof -
  have "lit ''Ex.Org.:80'' = lit ''Ex.Org.'' @ lit '':80''" by (simp add: lit_def)
  then have "str_bytes (test_mem (lit ''Ex.Org.:80'')) \<lparr>str_p = 1000, str_len = 10\<rparr> = lit ''Ex.Org.'' @ lit '':80''"
    by (simp only: str_bytes_test length_lit list.size length_append)
  moreover have "\<forall>c \<in> set (lit ''Ex.Org.''). host_byte c" "no_dotdot (lit ''Ex.Org.'')"
    "strip_dot (lit ''Ex.Org.'') = lit ''Ex.Org''" "port_text (lit '':80'')"
    by (simp_all add: lit_def host_byte_def strip_dot_def port_text_def is_digit_def)
  moreover have "lit ''Ex.Org'' \<noteq> []" "map tolower (lit ''Ex.Org'') = lit ''ex.org''"
    by (simp_all add: lit_def tolower_def)
  ultimately show ?thesis
    using host_header_normalised [of "test_mem (lit ''Ex.Org.:80'')"
        "zero_request\<lparr>r_header_value := \<lparr>str_p = 1000, str_len = 10\<rparr>\<rparr>" "lit ''Ex.Org.''" "lit '':80''"]
    by auto
qed

text \<open>\<open>http_process_content_length\<close> on a decimal number: any length from 1 to \<open>INT_MAX\<close> is stored and
  accepted; a length of 0 is rejected with -1 (so a request with \<open>Content-Length: 0\<close> gets
  400 Bad Request), and a larger number overflows an \<open>int\<close>, which is undefined behaviour.\<close>

theorem content_length_header:
  assumes "str_bytes m (r_header_value r) = dec_digits n"
  shows "http_process_content_length m r =
    (if int n > INT_MAX then UB
     else if n = 0 then Ret (-1, m, r\<lparr>r_content_len := 0\<rparr>)
     else Ret (0, m, r\<lparr>r_content_len := int n\<rparr>))"
  using http_process_content_length_digits [OF assms] by simp

theorem content_length_header_witness:
  "http_process_content_length (test_mem (dec_digits 0)) (zero_request\<lparr>r_header_value :=
      \<lparr>str_p = 1000, str_len = 1\<rparr>\<rparr>) = Ret (-1, test_mem (dec_digits 0),
      zero_request\<lparr>r_header_value := \<lparr>str_p = 1000, str_len = 1\<rparr>, r_content_len := 0\<rparr>)"
proof -
  have "dec_digits 0 = [48]" by (simp add: dec_digits.simps)
  then have "str_bytes (test_mem (dec_digits 0)) \<lparr>str_p = 1000, str_len = 1\<rparr> = dec_digits 0"
    using bytes_at_mem_write [of "\<lambda>_. 0" 1000 "dec_digits 0"] by (simp add: str_bytes_def test_mem_def)
  then show ?thesis
    using content_length_header [of "test_mem (dec_digits 0)"
        "zero_request\<lparr>r_header_value := \<lparr>str_p = 1000, str_len = 1\<rparr>\<rparr>" 0] by (simp add: INT_MAX_def)
qed

text \<open>Header dispatch: once the built-in handlers are registered in a table of 128 buckets, a valid
  header line whose name is \<open>Host\<close> or \<open>Content-Length\<close> in any mixture of upper and lower case runs the
  corresponding handler; a name with another hash is ignored.\<close>

theorem header_dispatch:
  assumes "hash_table_create 128 addr H = (Some t, H0)" and "at \<noteq> 0"
    and "b1 \<noteq> 0" and "b2 \<noteq> 0" and "b1 \<noteq> b2"
    and "b1 < addr \<or> addr + 2064 \<le> b1" and "b2 < addr \<or> addr + 2064 \<le> b2"
    and "\<not> r_invalid_header r" and "r_header_hash r = hash_key_lc name"
  shows "\<exists>env. add_client_header_handler http_headers_handler at [b1, b2]
      \<lparr>he_table = t, he_heap = H0, he_handler = (\<lambda>_. None)\<rparr> = Some (Ret (env, [])) \<and>
    (map tolower name = lit ''host'' \<longrightarrow> handle_http_request_header env m r = Some (http_process_host m r)) \<and>
    (map tolower name = lit ''content-length'' \<longrightarrow>
      handle_http_request_header env m r = Some (http_process_content_length m r)) \<and>
    (hash_key_lc name \<notin> {host_key, content_length_key} \<longrightarrow>
      handle_http_request_header env m r = Some (Ret (0, m, r)))"
proof -
  from hash_table_create_rep [OF assms(1)] obtain U where U: "ht_rep t H0 U Map.empty"
    "U \<subseteq> {addr..<2064 + addr}" by (auto simp: sizeof_hash_table_def sizeof_list_head_def)
  with assms(6,7) have "b1 \<notin> U" "b2 \<notin> U" by auto
  with add_default_handlers [of "\<lparr>he_table = t, he_heap = H0, he_handler = (\<lambda>_. None)\<rparr>" U at b1 b2 "[]"] U(1) assms(2-5)
  obtain env where env: "add_client_header_handler http_headers_handler at [b1, b2]
      \<lparr>he_table = t, he_heap = H0, he_handler = (\<lambda>_. None)\<rparr> = Some (Ret (env, []))" "env_default env" by auto
  have "map tolower (lit ''Host'') = lit ''host''" "map tolower (lit ''Content-Length'') = lit ''content-length''"
    by (simp_all add: lit_def tolower_def)
  then have "map tolower name = lit ''host'' \<Longrightarrow> hash_key_lc name = host_key"
    "map tolower name = lit ''content-length'' \<Longrightarrow> hash_key_lc name = content_length_key"
    unfolding host_key_def content_length_key_def by (metis same_lower_same_key)+
  with env handle_default [OF env(2), of m r] assms(8,9) keys_differ show ?thesis by auto
qed

theorem header_dispatch_witness:
  "\<exists>t H0 env. hash_table_create 128 4096 empty_heap = (Some t, H0) \<and>
    add_client_header_handler http_headers_handler 500 [100, 200]
      \<lparr>he_table = t, he_heap = H0, he_handler = (\<lambda>_. None)\<rparr> = Some (Ret (env, [])) \<and>
    handle_http_request_header env (\<lambda>_. 0) (zero_request\<lparr>r_header_hash := hash_key_lc (lit ''hOsT'')\<rparr>) =
      Some (http_process_host (\<lambda>_. 0) (zero_request\<lparr>r_header_hash := hash_key_lc (lit ''hOsT'')\<rparr>))"
proof -
  obtain t H0 where t: "hash_table_create 128 4096 empty_heap = (Some t, H0)"
    by (auto simp: hash_table_create_def Let_def)
  have "map tolower (lit ''hOsT'') = lit ''host''" by (simp add: lit_def tolower_def)
  with header_dispatch [OF t, of 500 100 200 "zero_request\<lparr>r_header_hash := hash_key_lc (lit ''hOsT'')\<rparr>"
      "lit ''hOsT''" "\<lambda>_. 0"] t show ?thesis by (auto simp: zero_request_def)
qed

text \<open>Dispatch compares hashes only, never names: a header whose name has the same 32-bit hash as a
  registered one is taken for it. \<open>Hou6\<close> is such a name: it runs the handler of \<open>Host\<close>.\<close>

theorem header_hash_collision:
  assumes "env_default env" and "\<not> r_invalid_header r" and "r_header_hash r = hash_key_lc (lit ''Hou6'')"
  shows "handle_http_request_header env m r = Some (http_process_host m r)"
proof -
  have "hash_key_lc (lit ''Hou6'') = host_key" unfolding host_key_def by code_simp
  with handle_default [OF assms(1), of m r] assms(2,3) show ?thesis by simp
qed

theorem header_hash_collision_witness:
  "\<exists>env. env_default env \<and>
    handle_http_request_header env (\<lambda>_. 0) (zero_request\<lparr>r_header_hash := hash_key_lc (lit ''Hou6'')\<rparr>) =
      Some (http_process_host (\<lambda>_. 0) (zero_request\<lparr>r_header_hash := hash_key_lc (lit ''Hou6'')\<rparr>))"
proof -
  obtain t H0 where t: "hash_table_create 128 4096 empty_heap = (Some t, H0)"
    by (auto simp: hash_table_create_def Let_def)
  from hash_table_create_rep [OF t] obtain U where U: "ht_rep t H0 U Map.empty" "U \<subseteq> {4096..<4096 + 2064}"
    by (auto simp: sizeof_hash_table_def sizeof_list_head_def)
  have "(100 :: nat) \<notin> U" "(200 :: nat) \<notin> U" using U(2) by (auto dest: subsetD)
  with add_default_handlers [of "\<lparr>he_table = t, he_heap = H0, he_handler = (\<lambda>_. None)\<rparr>" U 500 100 200 "[]"] U(1)
  obtain env where env: "env_default env" by auto
  from header_hash_collision [OF env, of "zero_request\<lparr>r_header_hash := hash_key_lc (lit ''Hou6'')\<rparr>"] env
  show ?thesis by (auto simp: zero_request_def)
qed

end
