(* ===== verification/Response.thy ===== *)
theory Response
  imports Http_Request
begin

text \<open>
  \<open>http/response.c\<close>: the tables of status lines and of canned pages, the lookups with their offset
  arithmetic, and \<open>http_finalize_request\<close>, which assembles a response in the receive buffer and
  sends it. A table entry is \<open>None\<close> for \<open>NULL_STRING\<close>. The copies into the buffer are not checked
  by the code; a copy past the end of the buffer is undefined behaviour here. \<open>send\<close> is an output:
  the list of the descriptor and bytes of each call. Logging is left out.
\<close>

definition CRLF :: "u8 list" where "CRLF = [13, 10]"

subsection \<open>The tables\<close>

definition http_status_lines :: "u8 list option list" where
  "http_status_lines = [
    Some (lit ''200 OK''),
    Some (lit ''201 Created''),
    Some (lit ''202 Accepted''),
    None,
    Some (lit ''204 No Content''),
    None,
    Some (lit ''206 Partial Content''),
    Some (lit ''301 Moved Permanently''),
    Some (lit ''302 Moved Temporarily''),
    Some (lit ''303 See Other''),
    Some (lit ''304 Not Modified''),
    None,
    None,
    Some (lit ''307 Temporary Redirect''),
    Some (lit ''400 Bad Request''),
    Some (lit ''401 Unauthorized''),
    Some (lit ''402 Payment Required''),
    Some (lit ''403 Forbidden''),
    Some (lit ''404 Not Found''),
    Some (lit ''405 Not Allowed''),
    Some (lit ''406 Not Acceptable''),
    None,
    Some (lit ''408 Request Time-out''),
    Some (lit ''409 Conflict''),
    Some (lit ''410 Gone''),
    Some (lit ''411 Length Required''),
    Some (lit ''412 Precondition Failed''),
    Some (lit ''413 Request Entity Too Large''),
    Some (lit ''414 Request-URI Too Large''),
    Some (lit ''415 Unsupported Media Type''),
    Some (lit ''416 Requested Range Not Satisfiable''),
    Some (lit ''500 Internal Server Error''),
    Some (lit ''501 Not Implemented''),
    Some (lit ''502 Bad Gateway''),
    Some (lit ''503 Service Temporarily Unavailable''),
    Some (lit ''504 Gateway Time-out''),
    None,
    None,
    Some (lit ''507 Insufficient Storage'')]"

definition HTTP_OK :: int where "HTTP_OK = 200"
definition HTTP_MOVED_PERMANENTLY :: int where "HTTP_MOVED_PERMANENTLY = 301"
definition HTTP_BAD_REQUEST :: int where "HTTP_BAD_REQUEST = 400"
definition HTTP_INTERNAL_SERVER_ERROR :: int where "HTTP_INTERNAL_SERVER_ERROR = 500"
definition HTTP_INSUFFICIENT_STORAGE :: int where "HTTP_INSUFFICIENT_STORAGE = 507"
definition HTTP_STATUS_LAST_2XX :: int where "HTTP_STATUS_LAST_2XX = 207"
definition HTTP_STATUS_OFFSET_3XX :: int where "HTTP_STATUS_OFFSET_3XX = HTTP_STATUS_LAST_2XX - 200"
definition HTTP_STATUS_LAST_3XX :: int where "HTTP_STATUS_LAST_3XX = 308"
definition HTTP_STATUS_OFFSET_4XX :: int where
  "HTTP_STATUS_OFFSET_4XX = HTTP_STATUS_LAST_3XX - 301 + HTTP_STATUS_OFFSET_3XX"
definition HTTP_STATUS_LAST_4XX :: int where "HTTP_STATUS_LAST_4XX = 417"
definition HTTP_STATUS_OFFSET_5XX :: int where
  "HTTP_STATUS_OFFSET_5XX = HTTP_STATUS_LAST_4XX - 400 + HTTP_STATUS_OFFSET_4XX"
definition HTTP_STATUS_OFFSET_LAST :: int where "HTTP_STATUS_OFFSET_LAST = 508"

text \<open>The parts all pages share, and the pages.\<close>

definition page_head :: "u8 list" where
  "page_head = lit ''<html>'' @ CRLF @ lit ''<head><title>''"

definition page_middle :: "u8 list" where
  "page_middle = lit ''</title></head>'' @ CRLF @ lit ''<body bgcolor='' @ [34] @ lit ''white'' @ [34] @ lit ''>'' @
     CRLF @ lit ''<center><h1>''"

definition page_tail :: "u8 list" where
  "page_tail = lit ''</h1></center>'' @ CRLF"

definition http_error_200_page :: "u8 list" where
  "http_error_200_page =
     page_head @ lit ''cserv'' @ page_middle @ lit ''welcome to cserv'' @ page_tail"

definition http_error_301_page :: "u8 list" where
  "http_error_301_page =
     page_head @ lit ''301 Moved Permanently'' @ page_middle @ lit ''301 Moved Permanently'' @ page_tail"

definition http_error_302_page :: "u8 list" where
  "http_error_302_page =
     page_head @ lit ''302 Found'' @ page_middle @ lit ''302 Found'' @ page_tail"

definition http_error_303_page :: "u8 list" where
  "http_error_303_page =
     page_head @ lit ''303 See Other'' @ page_middle @ lit ''303 See Other'' @ page_tail"

definition http_error_307_page :: "u8 list" where
  "http_error_307_page =
     page_head @ lit ''307 Temporary Redirect'' @ page_middle @ lit ''307 Temporary Redirect'' @ page_tail"

definition http_error_400_page :: "u8 list" where
  "http_error_400_page =
     page_head @ lit ''400 Bad Request'' @ page_middle @ lit ''400 Bad Request'' @ page_tail"

definition http_error_401_page :: "u8 list" where
  "http_error_401_page =
     page_head @ lit ''401 Authorization Required'' @ page_middle @ lit ''401 Authorization Required'' @ page_tail"

definition http_error_402_page :: "u8 list" where
  "http_error_402_page =
     page_head @ lit ''402 Payment Required'' @ page_middle @ lit ''402 Payment Required'' @ page_tail"

definition http_error_403_page :: "u8 list" where
  "http_error_403_page =
     page_head @ lit ''403 Forbidden'' @ page_middle @ lit ''403 Forbidden'' @ page_tail"

definition http_error_404_page :: "u8 list" where
  "http_error_404_page =
     page_head @ lit ''404 Not Found'' @ page_middle @ lit ''404 Not Found'' @ page_tail"

definition http_error_405_page :: "u8 list" where
  "http_error_405_page =
     page_head @ lit ''405 Not Allowed'' @ page_middle @ lit ''405 Not Allowed'' @ page_tail"

definition http_error_406_page :: "u8 list" where
  "http_error_406_page =
     page_head @ lit ''406 Not Acceptable'' @ page_middle @ lit ''406 Not Acceptable'' @ page_tail"

definition http_error_408_page :: "u8 list" where
  "http_error_408_page =
     page_head @ lit ''408 Request Time-out'' @ page_middle @ lit ''408 Request Time-out'' @ page_tail"

definition http_error_409_page :: "u8 list" where
  "http_error_409_page =
     page_head @ lit ''409 Conflict'' @ page_middle @ lit ''409 Conflict'' @ page_tail"

definition http_error_410_page :: "u8 list" where
  "http_error_410_page =
     page_head @ lit ''410 Gone'' @ page_middle @ lit ''410 Gone'' @ page_tail"

definition http_error_411_page :: "u8 list" where
  "http_error_411_page =
     page_head @ lit ''411 Length Required'' @ page_middle @ lit ''411 Length Required'' @ page_tail"

definition http_error_412_page :: "u8 list" where
  "http_error_412_page =
     page_head @ lit ''412 Precondition Failed'' @ page_middle @ lit ''412 Precondition Failed'' @ page_tail"

definition http_error_413_page :: "u8 list" where
  "http_error_413_page =
     page_head @ lit ''413 Request Entity Too Large'' @ page_middle @ lit ''413 Request Entity Too Large'' @ page_tail"

definition http_error_414_page :: "u8 list" where
  "http_error_414_page =
     page_head @ lit ''414 Request-URI Too Large'' @ page_middle @ lit ''414 Request-URI Too Large'' @ page_tail"

definition http_error_415_page :: "u8 list" where
  "http_error_415_page =
     page_head @ lit ''415 Unsupported Media Type'' @ page_middle @ lit ''415 Unsupported Media Type'' @ page_tail"

definition http_error_416_page :: "u8 list" where
  "http_error_416_page =
     page_head @ lit ''416 Requested Range Not Satisfiable'' @ page_middle @ lit ''416 Requested Range Not Satisfiable'' @ page_tail"

definition http_error_494_page :: "u8 list" where
  "http_error_494_page =
     page_head @ lit ''400 Request Header Or Cookie Too Large'' @ page_middle @ lit ''400 Bad Request'' @ page_tail @
     lit ''<center>Request Header Or Cookie Too Large</center>'' @ CRLF"

definition http_error_495_page :: "u8 list" where
  "http_error_495_page =
     page_head @ lit ''400 The SSL certificate error'' @ page_middle @ lit ''400 Bad Request'' @ page_tail @
     lit ''<center>The SSL certificate error</center>'' @ CRLF"

definition http_error_496_page :: "u8 list" where
  "http_error_496_page =
     page_head @ lit ''400 No required SSL certificate was sent'' @ page_middle @ lit ''400 Bad Request'' @ page_tail @
     lit ''<center>No required SSL certificate was sent</center>'' @ CRLF"

definition http_error_497_page :: "u8 list" where
  "http_error_497_page =
     page_head @ lit ''400 The plain HTTP request was sent to HTTPS port'' @ page_middle @ lit ''400 Bad Request'' @ page_tail @
     lit ''<center>The plain HTTP request was sent to HTTPS port</center>'' @ CRLF"

definition http_error_500_page :: "u8 list" where
  "http_error_500_page =
     page_head @ lit ''500 Internal Server Error'' @ page_middle @ lit ''500 Internal Server Error'' @ page_tail"

definition http_error_501_page :: "u8 list" where
  "http_error_501_page =
     page_head @ lit ''501 Not Implemented'' @ page_middle @ lit ''501 Not Implemented'' @ page_tail"

definition http_error_502_page :: "u8 list" where
  "http_error_502_page =
     page_head @ lit ''502 Bad Gateway'' @ page_middle @ lit ''502 Bad Gateway'' @ page_tail"

definition http_error_503_page :: "u8 list" where
  "http_error_503_page =
     page_head @ lit ''503 Service Temporarily Unavailable'' @ page_middle @ lit ''503 Service Temporarily Unavailable'' @ page_tail"

definition http_error_504_page :: "u8 list" where
  "http_error_504_page =
     page_head @ lit ''504 Gateway Time-out'' @ page_middle @ lit ''504 Gateway Time-out'' @ page_tail"

definition http_error_507_page :: "u8 list" where
  "http_error_507_page =
     page_head @ lit ''507 Insufficient Storage'' @ page_middle @ lit ''507 Insufficient Storage'' @ page_tail"

definition http_error_pages :: "u8 list option list" where
  "http_error_pages = [
    Some http_error_301_page,
    Some http_error_302_page,
    Some http_error_303_page,
    None,
    None,
    None,
    Some http_error_307_page,
    Some http_error_400_page,
    Some http_error_401_page,
    Some http_error_402_page,
    Some http_error_403_page,
    Some http_error_404_page,
    Some http_error_405_page,
    Some http_error_406_page,
    None,
    Some http_error_408_page,
    Some http_error_409_page,
    Some http_error_410_page,
    Some http_error_411_page,
    Some http_error_412_page,
    Some http_error_413_page,
    Some http_error_414_page,
    Some http_error_415_page,
    Some http_error_416_page,
    Some http_error_494_page,
    Some http_error_495_page,
    Some http_error_496_page,
    Some http_error_497_page,
    Some http_error_404_page,
    None,
    Some http_error_500_page,
    Some http_error_501_page,
    Some http_error_502_page,
    Some http_error_503_page,
    Some http_error_504_page,
    None,
    None,
    Some http_error_507_page]"

definition HTTP_ERROR_LAST_3XX :: int where "HTTP_ERROR_LAST_3XX = 308"
definition HTTP_ERROR_OFFSET_4XX :: int where "HTTP_ERROR_OFFSET_4XX = HTTP_ERROR_LAST_3XX - 301"
definition HTTP_ERROR_LAST_4XX :: int where "HTTP_ERROR_LAST_4XX = 417"
definition HTTP_ERROR_OFFSET_494 :: int where
  "HTTP_ERROR_OFFSET_494 = HTTP_ERROR_LAST_4XX - 400 + HTTP_ERROR_OFFSET_4XX"
definition HTTP_ERROR_OFFSET_LAST :: int where "HTTP_ERROR_OFFSET_LAST = 508"

definition HTTP_ERROR_HEADER :: "u8 list" where
  "HTTP_ERROR_HEADER = lit ''Server: cserv/dev'' @ CRLF @ lit ''Content-Type: text/html'' @ CRLF @
     lit ''Connection: Close'' @ CRLF"

definition HTTP_INSUFFICIENT_STORAGE_PAGE :: "u8 list" where
  "HTTP_INSUFFICIENT_STORAGE_PAGE = lit ''HTTP/1.1 507 Insufficient Storage'' @ CRLF @ HTTP_ERROR_HEADER @ CRLF @
     page_head @ lit ''507 Insufficient Storage'' @ page_middle @ lit ''507 Insufficient Storage'' @ page_tail"

subsection \<open>Operations\<close>

definition get_http_status_line :: "int \<Rightarrow> u8 list option" where
  "get_http_status_line ret_code =
     (if ret_code \<ge> HTTP_OK \<and> ret_code < HTTP_STATUS_LAST_2XX then
        http_status_lines ! nat (ret_code - HTTP_OK)
      else if ret_code \<ge> HTTP_MOVED_PERMANENTLY \<and> ret_code < HTTP_STATUS_LAST_3XX then
        http_status_lines ! nat (ret_code - HTTP_MOVED_PERMANENTLY + HTTP_STATUS_OFFSET_3XX)
      else if ret_code \<ge> HTTP_BAD_REQUEST \<and> ret_code < HTTP_STATUS_LAST_4XX then
        http_status_lines ! nat (ret_code - HTTP_BAD_REQUEST + HTTP_STATUS_OFFSET_4XX)
      else if ret_code \<ge> HTTP_INTERNAL_SERVER_ERROR \<and> ret_code < HTTP_STATUS_OFFSET_LAST then
        http_status_lines ! nat (ret_code - HTTP_INTERNAL_SERVER_ERROR + HTTP_STATUS_OFFSET_5XX)
      else None)"

text \<open>The outer \<open>None\<close> is a \<open>NULL\<close> result, the inner one an entry without a page.\<close>

definition get_http_error_page :: "int \<Rightarrow> u8 list option option" where
  "get_http_error_page ret_code =
     (if ret_code \<ge> HTTP_MOVED_PERMANENTLY \<and> ret_code < HTTP_ERROR_LAST_3XX then
        Some (http_error_pages ! nat (ret_code - HTTP_MOVED_PERMANENTLY))
      else if ret_code \<ge> HTTP_BAD_REQUEST \<and> ret_code < HTTP_ERROR_LAST_4XX then
        Some (http_error_pages ! nat (ret_code - HTTP_BAD_REQUEST + HTTP_ERROR_OFFSET_4XX))
      else if ret_code \<ge> 494 \<and> ret_code < HTTP_ERROR_OFFSET_LAST then
        Some (http_error_pages ! nat (ret_code - 494 + HTTP_ERROR_OFFSET_494))
      else None)"

type_synonym sends = "(int \<times> u8 list) list"

definition http_fast_response :: "int \<Rightarrow> u8 list \<Rightarrow> sends" where
  "http_fast_response fd content = [(fd, content)]"

text \<open>\<open>memcpy(b->pos, bs, len); b->pos += len;\<close>\<close>

definition buf_put :: "u8 list \<Rightarrow> mem \<times> buffer \<Rightarrow> (mem \<times> buffer) cres" where
  "buf_put bs mb =
     (case mb of (m, b) \<Rightarrow>
        if b_pos b + length bs \<le> b_end b
        then Ret (mem_write m (b_pos b) bs, b\<lparr>b_pos := b_pos b + length bs\<rparr>)
        else UB)"

definition http_finalize_request ::
  "mem \<Rightarrow> http_request \<Rightarrow> int \<Rightarrow> (mem \<times> http_request \<times> sends) cres" where
  "http_finalize_request m r ret_code =
     (case get_http_status_line ret_code of
        None \<Rightarrow> Ret (m, r, [])
      | Some status_line \<Rightarrow>
          let b = r_header r; b0 = b\<lparr>b_last := b_start b, b_pos := b_start b\<rparr> in
          cbind (buf_put (lit ''HTTP/1.1 '') (m, b0)) (\<lambda>mb.
          cbind (buf_put status_line mb) (\<lambda>mb.
          cbind (buf_put (CRLF @ HTTP_ERROR_HEADER) mb) (\<lambda>mb.
          cbind (if ret_code = 200
                 then cbind (buf_put CRLF mb) (buf_put http_error_200_page)
                 else case get_http_error_page ret_code of
                        None \<Rightarrow> Ret mb
                      | Some error_page \<Rightarrow>
                          cbind (buf_put CRLF mb)
                            (buf_put (case error_page of None \<Rightarrow> [] | Some page \<Rightarrow> page)))
            (\<lambda>(m', b'). Ret (m', r\<lparr>r_header := b'\<rparr>,
               [(r_fd r, bytes_at m' (b_start b') (b_pos b' - b_start b'))]))))))"

lemmas page_defs' =
  http_error_200_page_def http_error_301_page_def http_error_302_page_def
  http_error_303_page_def http_error_307_page_def http_error_400_page_def
  http_error_401_page_def http_error_402_page_def http_error_403_page_def
  http_error_404_page_def http_error_405_page_def http_error_406_page_def
  http_error_408_page_def http_error_409_page_def http_error_410_page_def
  http_error_411_page_def http_error_412_page_def http_error_413_page_def
  http_error_414_page_def http_error_415_page_def http_error_416_page_def
  http_error_494_page_def http_error_495_page_def http_error_496_page_def
  http_error_497_page_def http_error_500_page_def http_error_501_page_def
  http_error_502_page_def http_error_503_page_def http_error_504_page_def
  http_error_507_page_def

lemmas status_consts = HTTP_OK_def HTTP_MOVED_PERMANENTLY_def HTTP_BAD_REQUEST_def
  HTTP_INTERNAL_SERVER_ERROR_def HTTP_STATUS_LAST_2XX_def HTTP_STATUS_OFFSET_3XX_def
  HTTP_STATUS_LAST_3XX_def HTTP_STATUS_OFFSET_4XX_def HTTP_STATUS_LAST_4XX_def
  HTTP_STATUS_OFFSET_5XX_def HTTP_STATUS_OFFSET_LAST_def HTTP_ERROR_LAST_3XX_def
  HTTP_ERROR_OFFSET_4XX_def HTTP_ERROR_LAST_4XX_def HTTP_ERROR_OFFSET_494_def
  HTTP_ERROR_OFFSET_LAST_def

subsection \<open>Reference\<close>

text \<open>The body of a response, with the blank line in front of it, and the whole response.\<close>

definition response_body :: "int \<Rightarrow> u8 list" where
  "response_body code =
     (if code = 200 then CRLF @ http_error_200_page
      else case get_http_error_page code of
             None \<Rightarrow> []
           | Some None \<Rightarrow> CRLF
           | Some (Some page) \<Rightarrow> CRLF @ page)"

definition response_text :: "int \<Rightarrow> u8 list \<Rightarrow> u8 list" where
  "response_text code status_line =
     lit ''HTTP/1.1 '' @ status_line @ CRLF @ HTTP_ERROR_HEADER @ response_body code"

text \<open>The size of the smallest receive buffer: one KiB less the request structure.\<close>

definition MIN_RESPONSE_BUFFER :: nat where
  "MIN_RESPONSE_BUFFER = 1024 - sizeof_http_request"

subsection \<open>Tables\<close>

definition status_codes :: "int list" where
  "status_codes = [200..206] @ [301..307] @ [400..416] @ [500..507]"

definition error_codes :: "int list" where
  "error_codes = [301..307] @ [400..416] @ [494..507]"

lemma length_status_lines: "length http_status_lines = 39" "length status_codes = 39"
  by (simp_all add: http_status_lines_def status_codes_def)

lemma length_error_pages: "length http_error_pages = 38" "length error_codes = 38"
  by (simp_all add: http_error_pages_def error_codes_def)

text \<open>The index computed for a code is the position of that code in the list of codes.\<close>

lemma get_http_status_line_nth:
  assumes "get_http_status_line code = Some l"
  shows "\<exists>i < 39. http_status_lines ! i = Some l \<and> status_codes ! i = code"
proof -
  consider "200 \<le> code" "code < 207" | "301 \<le> code" "code < 308" | "400 \<le> code" "code < 417"
    | "500 \<le> code" "code < 508"
    using assms by (auto simp: get_http_status_line_def status_consts split: if_splits)
  then show ?thesis
  proof cases
    case 1
    with assms show ?thesis
      by (intro exI [of _ "nat (code - 200)"])
        (auto simp: get_http_status_line_def status_consts status_codes_def nth_append nat_less_iff simp del: upto_rec_numeral)
  next
    case 2
    with assms show ?thesis
      by (intro exI [of _ "nat (code - 294)"])
        (auto simp: get_http_status_line_def status_consts status_codes_def nth_append nat_less_iff simp del: upto_rec_numeral)
  next
    case 3
    with assms show ?thesis
      by (intro exI [of _ "nat (code - 386)"])
        (auto simp: get_http_status_line_def status_consts status_codes_def nth_append nat_less_iff simp del: upto_rec_numeral)
  next
    case 4
    with assms show ?thesis
      by (intro exI [of _ "nat (code - 469)"])
        (auto simp: get_http_status_line_def status_consts status_codes_def nth_append nat_less_iff simp del: upto_rec_numeral)
  qed
qed

lemma get_http_error_page_nth:
  assumes "get_http_error_page code = Some e"
  shows "\<exists>i < 38. http_error_pages ! i = e \<and> error_codes ! i = code"
proof -
  consider "301 \<le> code" "code < 308" | "400 \<le> code" "code < 417" | "494 \<le> code" "code < 508"
    using assms by (auto simp: get_http_error_page_def status_consts split: if_splits)
  then show ?thesis
  proof cases
    case 1
    with assms show ?thesis
      by (intro exI [of _ "nat (code - 301)"])
        (auto simp: get_http_error_page_def status_consts error_codes_def nth_append nat_less_iff simp del: upto_rec_numeral)
  next
    case 2
    with assms show ?thesis
      by (intro exI [of _ "nat (code - 393)"])
        (auto simp: get_http_error_page_def status_consts error_codes_def nth_append nat_less_iff simp del: upto_rec_numeral)
  next
    case 3
    with assms show ?thesis
      by (intro exI [of _ "nat (code - 470)"])
        (auto simp: get_http_error_page_def status_consts error_codes_def nth_append nat_less_iff simp del: upto_rec_numeral)
  qed
qed

lemma take_lit: "take n (lit s) = lit (take n s)"
  by (simp add: lit_def take_map)

lemma dec_digits_3:
  assumes "100 \<le> n" "n < 1000"
  shows "dec_digits n = [word_of_nat (48 + n div 100), word_of_nat (48 + n div 10 mod 10), word_of_nat (48 + n mod 10)]"
proof -
  have "n div 10 div 10 = n div 100" by (simp add: div_mult2_eq [symmetric])
  moreover have "\<not> n < 10" "\<not> n div 10 < 10" "n div 100 < 10" using assms by auto
  ultimately show ?thesis by (simp add: dec_digits.simps)
qed

text \<open>Each entry of the table of status lines, against its code; its length.\<close>

definition status_entry_ok :: "int \<Rightarrow> u8 list option \<Rightarrow> bool" where
  "status_entry_ok code e =
     (case e of None \<Rightarrow> True | Some l \<Rightarrow> take 4 l = dec_digits (nat code) @ [ch_space] \<and> length l \<le> 35)"

lemma status_entries: "list_all2 status_entry_ok status_codes http_status_lines"
  by (simp add: status_codes_def http_status_lines_def status_entry_ok_def take_lit dec_digits_3 lit_def)

lemma status_entry:
  assumes "get_http_status_line code = Some l"
  shows "take 4 l = dec_digits (nat code) @ [ch_space]" "length l \<le> 35"
proof -
  from get_http_status_line_nth [OF assms] obtain i where
    i: "i < 39" "http_status_lines ! i = Some l" "status_codes ! i = code" by blast
  from list_all2_nthD [OF status_entries, of i] i length_status_lines have "status_entry_ok code (Some l)"
    by simp
  then show "take 4 l = dec_digits (nat code) @ [ch_space]" "length l \<le> 35"
    by (simp_all add: status_entry_ok_def)
qed

text \<open>Each page, against its code: the digits in its title, its length.\<close>

definition page_entry_ok :: "int \<Rightarrow> u8 list option \<Rightarrow> bool" where
  "page_entry_ok code e =
     (case e of
        None \<Rightarrow> True
      | Some page \<Rightarrow> take 21 page = page_head \<and> length page \<le> 250 \<and> take 3 (drop 21 page) =
          dec_digits (if code < 494 \<or> 500 \<le> code then nat code else if code = 498 then 404 else 400))"

lemma length_page_parts [simp]:
  "length page_head = 21" "length page_middle = 53" "length page_tail = 16" "length CRLF = 2"
  by (simp_all add: page_head_def page_middle_def page_tail_def CRLF_def)

lemma page_entries: "list_all2 page_entry_ok error_codes http_error_pages"
  by (simp add: error_codes_def http_error_pages_def page_entry_ok_def page_defs' take_lit dec_digits_3)
    (simp add: lit_def)

lemma page_entry:
  assumes "get_http_error_page code = Some (Some page)"
  shows "take 21 page = page_head" "length page \<le> 250" "take 3 (drop 21 page) =
    dec_digits (if code < 494 \<or> 500 \<le> code then nat code else if code = 498 then 404 else 400)"
proof -
  from get_http_error_page_nth [OF assms] obtain i where
    i: "i < 38" "http_error_pages ! i = Some page" "error_codes ! i = code" by blast
  from list_all2_nthD [OF page_entries, of i] i length_error_pages have "page_entry_ok code (Some page)"
    by simp
  then show "take 21 page = page_head" "length page \<le> 250" "take 3 (drop 21 page) =
    dec_digits (if code < 494 \<or> 500 \<le> code then nat code else if code = 498 then 404 else 400)"
    by (simp_all add: page_entry_ok_def)
qed

lemma response_text_length:
  assumes "get_http_status_line code = Some l"
  shows "length (response_text code l) \<le> MIN_RESPONSE_BUFFER"
proof -
  have body: "length (response_body code) \<le> 252"
    using page_entry(2) [of code]
    by (auto simp: response_body_def http_error_200_page_def split: option.splits)
  have "length HTTP_ERROR_HEADER = 63" by (simp add: HTTP_ERROR_HEADER_def)
  with body status_entry(2) [OF assms] show ?thesis
    by (simp add: response_text_def MIN_RESPONSE_BUFFER_def sizeof_http_request_def)
qed

text \<open>Which codes have a status line.\<close>

definition supported_codes :: "int list" where
  "supported_codes = [200, 201, 202, 204, 206, 301, 302, 303, 304, 307] @ [400..406] @ [408..416] @
     [500, 501, 502, 503, 504, 507]"

lemma supported_entries:
  "list_all2 (\<lambda>code e. e \<noteq> None \<longrightarrow> code \<in> set supported_codes) status_codes http_status_lines"
  by (simp add: status_codes_def http_status_lines_def supported_codes_def)

lemma supported_lines: "list_all (\<lambda>code. get_http_status_line code \<noteq> None) supported_codes"
  by (simp add: supported_codes_def get_http_status_line_def status_consts http_status_lines_def)

lemma status_line_present:
  "get_http_status_line code \<noteq> None \<longleftrightarrow> code \<in> set supported_codes"
proof
  assume "get_http_status_line code \<noteq> None"
  then obtain l where "get_http_status_line code = Some l" by auto
  from get_http_status_line_nth [OF this] obtain i where
    "i < 39" "http_status_lines ! i = Some l" "status_codes ! i = code" by blast
  with list_all2_nthD [OF supported_entries, of i] length_status_lines show "code \<in> set supported_codes"
    by simp
next
  assume "code \<in> set supported_codes"
  then show "get_http_status_line code \<noteq> None" using supported_lines by (auto simp: list_all_iff)
qed

subsection \<open>Assembling a response\<close>

lemma buf_put_append: "cbind (buf_put xs mb) (buf_put ys) = buf_put (xs @ ys) mb"
  by (cases mb) (simp add: buf_put_def mem_write_append)

lemma buf_put_append': "cbind (buf_put xs mb) (\<lambda>mb. cbind (buf_put ys mb) f) = cbind (buf_put (xs @ ys) mb) f"
  by (cases mb) (simp add: buf_put_def mem_write_append add.assoc)

lemma http_finalize_request_eq:
  assumes "get_http_status_line code = Some l"
  shows "http_finalize_request m r code =
    cbind (buf_put (response_text code l) (m, (r_header r)\<lparr>b_last := b_start (r_header r), b_pos := b_start (r_header r)\<rparr>))
      (\<lambda>(m', b'). Ret (m', r\<lparr>r_header := b'\<rparr>, [(r_fd r, bytes_at m' (b_start b') (b_pos b' - b_start b'))]))"
  using assms
  by (simp add: http_finalize_request_def Let_def buf_put_append buf_put_append' response_text_def
      response_body_def split: option.splits)

lemma http_finalize_request_sent:
  assumes line: "get_http_status_line code = Some l"
    and room: "MIN_RESPONSE_BUFFER \<le> b_end (r_header r) - b_start (r_header r)"
  shows "\<exists>b'. http_finalize_request m r code =
    Ret (mem_write m (b_start (r_header r)) (response_text code l), r\<lparr>r_header := b'\<rparr>,
      [(r_fd r, response_text code l)]) \<and>
    b_start b' = b_start (r_header r) \<and> b_end b' = b_end (r_header r)"
proof -
  from response_text_length [OF line] room have "b_start (r_header r) + length (response_text code l) \<le> b_end (r_header r)"
    by (simp add: MIN_RESPONSE_BUFFER_def sizeof_http_request_def)
  then show ?thesis
    by (intro exI [of _ "(r_header r)\<lparr>b_last := b_start (r_header r),
        b_pos := b_start (r_header r) + length (response_text code l)\<rparr>"])
      (simp add: http_finalize_request_eq [OF line] buf_put_def)
qed

subsection \<open>Properties\<close>

text \<open>The offset arithmetic of \<open>get_http_status_line\<close> stays in step with the table: the line it
  returns for a code starts with the three digits of that code and a space, and it returns a line for exactly
  the listed codes.\<close>

theorem status_line_matches_code:
  "(get_http_status_line code \<noteq> None \<longleftrightarrow> code \<in> set supported_codes) \<and>
   (\<forall>l. get_http_status_line code = Some l \<longrightarrow> take 4 l = dec_digits (nat code) @ [ch_space])"
  using status_line_present status_entry(1) by blast

theorem status_line_matches_code_witness:
  "get_http_status_line 404 \<noteq> None \<and> get_http_status_line 407 = None"
  using status_line_matches_code [of 404] status_line_matches_code [of 407]
  by (auto simp: supported_codes_def)

text \<open>The canned page of a code is the page of that code: every page starts with the common head
  followed by the digits of the code in its title, except 494 to 497, which carry the title
  of a 400 page, and 498, which reuses the 404 page.\<close>

theorem error_page_matches_code:
  assumes "get_http_error_page code = Some (Some page)"
  shows "take 21 page = page_head \<and> take 3 (drop 21 page) =
    dec_digits (if code < 494 \<or> 500 \<le> code then nat code else if code = 498 then 404 else 400)"
  using page_entry [OF assms] by simp

theorem error_page_matches_code_witness:
  "get_http_error_page 503 = Some (Some http_error_503_page) \<and>
    take 3 (drop 21 http_error_503_page) = dec_digits 503"
proof -
  have page: "get_http_error_page 503 = Some (Some http_error_503_page)"
    by (simp add: get_http_error_page_def status_consts http_error_pages_def)
  from error_page_matches_code [OF page] page show ?thesis by simp
qed

text \<open>\<open>http_finalize_request\<close> on a code that has a status line never writes outside the receive
  buffer, whatever the configured buffer size (at least one KiB including the request structure): it
  sends exactly the status line, the common headers and the body of that code in one call,
  changes no memory outside the bytes of the response, and keeps the bounds of the buffer.\<close>

theorem finalize_request_response:
  assumes "get_http_status_line code = Some l"
    and "MIN_RESPONSE_BUFFER \<le> b_end (r_header r) - b_start (r_header r)"
  shows "\<exists>m' r'. http_finalize_request m r code = Ret (m', r', [(r_fd r, response_text code l)]) \<and>
    b_start (r_header r') = b_start (r_header r) \<and> b_end (r_header r') = b_end (r_header r) \<and>
    (\<forall>a. a < b_start (r_header r) \<or> b_end (r_header r) \<le> a \<longrightarrow> m' a = m a)"
proof -
  from response_text_length [OF assms(1)] assms(2)
  have "b_start (r_header r) + length (response_text code l) \<le> b_end (r_header r)"
    by (simp add: MIN_RESPONSE_BUFFER_def sizeof_http_request_def)
  then have "mem_write m (b_start (r_header r)) (response_text code l) a = m a"
    if "a < b_start (r_header r) \<or> b_end (r_header r) \<le> a" for a
    using that by (auto intro!: mem_write_out)
  with http_finalize_request_sent [OF assms, of m] show ?thesis by auto
qed

theorem finalize_request_response_witness:
  "\<exists>m' r'. http_finalize_request (\<lambda>_. 0) (zero_request\<lparr>r_fd := 7, r_header := test_buffer 5\<rparr>) 400 =
    Ret (m', r', [(7, response_text 400 (lit ''400 Bad Request''))])"
proof -
  have "get_http_status_line 400 = Some (lit ''400 Bad Request'')"
    by (simp add: get_http_status_line_def status_consts http_status_lines_def)
  from finalize_request_response [OF this, of "zero_request\<lparr>r_fd := 7, r_header := test_buffer 5\<rparr>" "\<lambda>_. 0"]
  show ?thesis by (auto simp: MIN_RESPONSE_BUFFER_def sizeof_http_request_def)
qed

text \<open>For the codes 201, 202, 204 and 206 the response has no blank line after its headers: it
  ends with the last header line, so a client keeps waiting for more headers. For every other code with
  a status line the headers are followed by an empty line.\<close>

theorem response_blank_line:
  assumes "get_http_status_line code = Some l"
  shows "(response_body code = [] \<longleftrightarrow> code \<in> {201, 202, 204, 206}) \<and>
    (response_body code \<noteq> [] \<longrightarrow> take 2 (response_body code) = CRLF)"
proof -
  have "code \<in> set supported_codes" using status_line_present [of code] assms by simp
  then have "get_http_error_page code = None \<longleftrightarrow> code \<in> {200, 201, 202, 204, 206}"
    by (auto simp: supported_codes_def get_http_error_page_def status_consts)
  then show ?thesis by (auto simp: response_body_def CRLF_def split: option.splits)
qed

theorem response_blank_line_witness:
  "get_http_status_line 204 = Some (lit ''204 No Content'') \<and> response_body 204 = [] \<and>
    response_text 204 (lit ''204 No Content'') =
      lit ''HTTP/1.1 204 No Content'' @ CRLF @ HTTP_ERROR_HEADER"
proof -
  have line: "get_http_status_line 204 = Some (lit ''204 No Content'')"
    by (simp add: get_http_status_line_def status_consts http_status_lines_def)
  from response_blank_line [OF this] line show ?thesis by (simp add: response_text_def lit_def)
qed

end
