(* ===== verification/Request.thy ===== *)
theory Request
  imports Parse_Line_Behaviour Header_Handlers Response Memcache
begin

text \<open>
  The life of one request, \<open>http/request.c\<close>: receiving into the buffer behind the request structure,
  the three phases (request line, headers, body) and their loops, the handlers called between them,
  and \<open>http_request_handler\<close>, which takes the block from the pool and gives it back.

  \<open>recv\<close> is a parameter: it maps the state of the outside world, a descriptor and the room in the
  buffer to the bytes received or an error number, and a new state of the world. A connection in
  progress is the memory, the request, the world and the responses sent so far. The loops may
  depend on the peer for ever, so they are partial functions whose value \<open>None\<close> is divergence;
  that they always return is proved in \<open>Request_Correct\<close>.

  The request structure in a pooled block keeps what the previous request left there: a worker
  carries the contents of the structure of every block (\<open>wk_struct\<close>). Calls of the logging macros
  are left out.
\<close>

datatype recv_ret = Received "u8 list" | Recv_error int

type_synonym 'w recv_fun = "'w \<Rightarrow> int \<Rightarrow> size_t \<Rightarrow> recv_ret \<times> 'w"

definition ETIME :: int where "ETIME = 62"

record 'w conn =
  c_mem :: mem
  c_req :: http_request
  c_world :: 'w
  c_sent :: sends

subsection \<open>Receiving\<close>

definition recv_http_request ::
  "'w recv_fun \<Rightarrow> int \<Rightarrow> mem \<Rightarrow> buffer \<Rightarrow> 'w \<Rightarrow> int \<times> mem \<times> buffer \<times> 'w" where
  "recv_http_request recv fd m b w =
     (if b_last b = b_end b then (-1, m, b, w)
      else case recv w fd (b_end b - b_last b) of
             (Recv_error errno, w') \<Rightarrow> (if errno = ETIME then -2 else -3, m, b, w')
           | (Received bs, w') \<Rightarrow>
               if bs = [] then (-4, m, b, w')
               else (0, mem_write m (b_last b) bs, b\<lparr>b_last := b_last b + length bs\<rparr>, w'))"

text \<open>\<open>recv_http_request(r->fd, &r->header)\<close>\<close>

definition recv_step :: "'w recv_fun \<Rightarrow> 'w conn \<Rightarrow> int \<times> 'w conn" where
  "recv_step recv c =
     (case recv_http_request recv (r_fd (c_req c)) (c_mem c) (r_header (c_req c)) (c_world c) of
        (ret, m, b, w) \<Rightarrow> (ret, c\<lparr>c_mem := m, c_req := (c_req c)\<lparr>r_header := b\<rparr>, c_world := w\<rparr>))"

subsection \<open>The phases\<close>

partial_function (option) http_process_request_line ::
  "'w recv_fun \<Rightarrow> 'w conn \<Rightarrow> (int \<times> 'w conn) option" where
  "http_process_request_line recv c =
     (case recv_step recv c of (ret, c1) \<Rightarrow>
        if ret \<noteq> 0 then Some (-1, c1)
        else case http_parse_request_line (c_mem c1) (c_req c1) (r_header (c_req c1)) of (ret, r, b) \<Rightarrow>
          let c2 = c1\<lparr>c_req := r\<lparr>r_header := b\<rparr>\<rparr> in
          if ret = 0 then Some (0, c2)
          else if ret > 0 then http_process_request_line recv c2
          else Some (-2, c2))"

partial_function (option) http_process_request_header ::
  "'w recv_fun \<Rightarrow> header_env \<Rightarrow> 'w conn \<Rightarrow> (int \<times> 'w conn) cres option" where
  "http_process_request_header recv env c =
     (case http_parse_request_header (c_mem c) (c_req c) (r_header (c_req c)) of
        UB \<Rightarrow> Some UB | Abort \<Rightarrow> Some Abort | Exit e \<Rightarrow> Some (Exit e)
      | Ret (ret, r, b) \<Rightarrow>
          let c1 = c\<lparr>c_req := r\<lparr>r_header := b\<rparr>\<rparr> in
          if ret = 0 then
            (case handle_http_request_header env (c_mem c1) (c_req c1) of
               None \<Rightarrow> None
             | Some UB \<Rightarrow> Some UB | Some Abort \<Rightarrow> Some Abort | Some (Exit e) \<Rightarrow> Some (Exit e)
             | Some (Ret (e, m, r)) \<Rightarrow>
                 let c2 = c1\<lparr>c_mem := m, c_req := r\<rparr> in
                 if e \<noteq> 0 then Some (Ret (-1, c2)) else http_process_request_header recv env c2)
          else if ret = 1 then
            (case recv_step recv c1 of (ret, c2) \<Rightarrow>
               if ret \<noteq> 0 then Some (Ret (-2, c2)) else http_process_request_header recv env c2)
          else if ret = 100 then Some (Ret (0, c1))
          else Some (Ret (-3, c1)))"

partial_function (option) http_process_request_body ::
  "'w recv_fun \<Rightarrow> 'w conn \<Rightarrow> (int \<times> 'w conn) option" where
  "http_process_request_body recv c =
     (let r = c_req c; b = r_header r in
      if int (b_last b) - int (b_pos b) \<noteq> r_content_len r then
        (case recv_step recv c of (ret, c1) \<Rightarrow>
           if ret \<noteq> 0 then Some (-1, c1) else http_process_request_body recv c1)
      else Some (0, c\<lparr>c_req := r\<lparr>r_content := \<lparr>str_p = b_pos b, str_len = nat (r_content_len r)\<rparr>\<rparr>\<rparr>))"

subsection \<open>The request handler\<close>

type_synonym 'w line_handler = "'w conn \<Rightarrow> (int \<times> 'w conn) cres"
type_synonym 'w body_handler = "'w conn \<Rightarrow> 'w conn cres"

text \<open>\<open>http_finalize_request\<close> on a connection.\<close>

definition finalize :: "int \<Rightarrow> 'w conn \<Rightarrow> 'w conn cres" where
  "finalize code c =
     cbind (http_finalize_request (c_mem c) (c_req c) code)
       (\<lambda>(m, r, s). Ret (c\<lparr>c_mem := m, c_req := r, c_sent := c_sent c @ s\<rparr>))"

definition request_body_default_handler :: "'w body_handler" where
  "request_body_default_handler c = finalize 200 c"

record 'w request_line_handler =
  lh_method :: "'w line_handler option"
  lh_uri :: "'w line_handler option"
  lh_http :: "'w line_handler option"

text \<open>\<open>if (h && h(r)) return; rest\<close>\<close>

definition unless_handled ::
  "'w line_handler option \<Rightarrow> 'w conn \<Rightarrow> ('w conn \<Rightarrow> 'w conn cres option) \<Rightarrow> 'w conn cres option" where
  "unless_handled h c rest =
     (case h of
        None \<Rightarrow> rest c
      | Some f \<Rightarrow>
          (case f c of
             Ret (ret, c1) \<Rightarrow> if ret \<noteq> 0 then Some (Ret c1) else rest c1
           | UB \<Rightarrow> Some UB | Abort \<Rightarrow> Some Abort | Exit e \<Rightarrow> Some (Exit e)))"

text \<open>The code after the handlers of the request line.\<close>

definition after_request_line ::
  "'w recv_fun \<Rightarrow> header_env \<Rightarrow> 'w body_handler \<Rightarrow> 'w conn \<Rightarrow> 'w conn cres option" where
  "after_request_line recv env body c =
     (if r_http_version (c_req c) < HTTP_VER_10 then Some (body c)
      else case http_process_request_header recv env c of
        None \<Rightarrow> None
      | Some UB \<Rightarrow> Some UB | Some Abort \<Rightarrow> Some Abort | Some (Exit e) \<Rightarrow> Some (Exit e)
      | Some (Ret (ret, c1)) \<Rightarrow>
          if ret \<noteq> 0 then Some (finalize HTTP_BAD_REQUEST c1)
          else case http_process_request_body recv c1 of
            None \<Rightarrow> None
          | Some (ret, c2) \<Rightarrow>
              if ret \<noteq> 0 then Some (finalize HTTP_INSUFFICIENT_STORAGE c2) else Some (body c2))"

definition raw_http_request_handler ::
  "'w recv_fun \<Rightarrow> header_env \<Rightarrow> 'w request_line_handler \<Rightarrow> 'w body_handler \<Rightarrow> 'w conn \<Rightarrow>
   'w conn cres option" where
  "raw_http_request_handler recv env lh body c =
     (case http_process_request_line recv c of
        None \<Rightarrow> None
      | Some (ret, c1) \<Rightarrow>
          if ret \<noteq> 0 then Some (finalize HTTP_BAD_REQUEST c1)
          else unless_handled (lh_method lh) c1 (\<lambda>c2.
               unless_handled (lh_uri lh) c2 (\<lambda>c3.
               unless_handled (lh_http lh) c3 (after_request_line recv env body))))"

subsection \<open>A worker\<close>

record 'w worker =
  wk_client_header_size :: size_t
  wk_cache :: memcache
  wk_alloc :: allocator
  wk_headers :: header_env
  wk_line :: "'w request_line_handler"
  wk_body :: "'w body_handler"
  wk_mem :: mem
  wk_struct :: "ptr \<Rightarrow> http_request"

text \<open>The request as \<open>http_request_handler\<close> sets it up in the block at \<open>p\<close> whose structure holds
  \<open>old\<close>.\<close>

definition init_request :: "size_t \<Rightarrow> int \<Rightarrow> ptr \<Rightarrow> http_request \<Rightarrow> http_request" where
  "init_request client_header_size fd p old =
     old\<lparr>r_fd := fd, r_state := 0, r_request_line := str_init, r_args := 0, r_exten := str_init,
         r_http_protocol := str_init, r_content_len := 0,
         r_header := bind_buffer (p + sizeof_http_request)
           (ptr_diff client_header_size sizeof_http_request)\<rparr>"

definition http_request_handler ::
  "'w recv_fun \<Rightarrow> int \<Rightarrow> 'w worker \<Rightarrow> 'w \<Rightarrow> ('w worker \<times> 'w \<times> sends) cres option" where
  "http_request_handler recv fd wk w =
     (case memcache_alloc (wk_cache wk) (wk_alloc wk) of (p, cache, a) \<Rightarrow>
        let wk1 = wk\<lparr>wk_cache := cache, wk_alloc := a\<rparr> in
        if p = 0 then Some (Ret (wk1, w, http_fast_response fd HTTP_INSUFFICIENT_STORAGE_PAGE))
        else
          let c = \<lparr>c_mem = wk_mem wk,
                   c_req = init_request (wk_client_header_size wk) fd p (wk_struct wk p),
                   c_world = w, c_sent = []\<rparr> in
          case raw_http_request_handler recv (wk_headers wk) (wk_line wk) (wk_body wk) c of
            None \<Rightarrow> None
          | Some res \<Rightarrow> Some (cbind res (\<lambda>c1.
              cbind (memcache_free cache p a) (\<lambda>(cache', a').
                Ret (wk1\<lparr>wk_cache := cache', wk_alloc := a', wk_mem := c_mem c1,
                         wk_struct := (wk_struct wk)(p := c_req c1)\<rparr>, c_world c1, c_sent c1)))))"

text \<open>\<open>http_request_init\<close>, in a process whose handler structures are still the initial ones. \<open>addr\<close> is the
  block of the hash table (0 when \<open>malloc\<close> fails), \<open>blocks\<close> the blocks of its nodes, \<open>at\<close> and \<open>at'\<close> the
  arrays of handlers.\<close>

definition NULL_line_handler :: "'w request_line_handler" where
  "NULL_line_handler = \<lparr>lh_method = None, lh_uri = None, lh_http = None\<rparr>"

definition http_request_init ::
  "nat \<Rightarrow> 'w request_line_handler option \<Rightarrow> (u8 list \<times> handler option) list option \<Rightarrow>
   'w body_handler option \<Rightarrow> int \<Rightarrow> allocator \<Rightarrow> ptr \<Rightarrow> ht_heap \<Rightarrow> ptr list \<Rightarrow> ptr \<Rightarrow> ptr \<Rightarrow>
   mem \<Rightarrow> (ptr \<Rightarrow> http_request) \<Rightarrow> 'w worker cres option" where
  "http_request_init kbytes line_handler header_handler body_handler g_worker_connections
     a addr H blocks at at' m structs =
     (let client_header_size = push_bit 10 kbytes;
          line = (case line_handler of None \<Rightarrow> NULL_line_handler | Some h \<Rightarrow> h);
          body = (case body_handler of None \<Rightarrow> request_body_default_handler | Some h \<Rightarrow> h)
      in case memcache_create client_header_size g_worker_connections a of
           None \<Rightarrow> None
         | Some UB \<Rightarrow> Some UB | Some Abort \<Rightarrow> Some Abort | Some (Exit e) \<Rightarrow> Some (Exit e)
         | Some (Ret (None, a1)) \<Rightarrow> Some (Exit (-1))
         | Some (Ret (Some cache, a1)) \<Rightarrow>
             (case hash_table_create 128 addr H of
                (None, H1) \<Rightarrow> Some (Exit (-2))
              | (Some t, H1) \<Rightarrow>
                  let env = \<lparr>he_table = t, he_heap = H1, he_handler = (\<lambda>_. None)\<rparr>;
                      finish = (\<lambda>env. Ret \<lparr>wk_client_header_size = client_header_size, wk_cache = cache,
                        wk_alloc = a1, wk_headers = env, wk_line = line, wk_body = body,
                        wk_mem = m, wk_struct = structs\<rparr>) in
                  case add_client_header_handler http_headers_handler at blocks env of
                    None \<Rightarrow> None
                  | Some UB \<Rightarrow> Some UB | Some Abort \<Rightarrow> Some Abort | Some (Exit e) \<Rightarrow> Some (Exit e)
                  | Some (Ret (env1, blocks1)) \<Rightarrow>
                      (case header_handler of
                         None \<Rightarrow> Some (finish env1)
                       | Some hs \<Rightarrow>
                           (case add_client_header_handler hs at' blocks1 env1 of
                              None \<Rightarrow> None
                            | Some res \<Rightarrow> Some (cbind res (\<lambda>(env2, _). finish env2))))))"

end
