(* ===== verification/Request_Correct.thy ===== *)
theory Request_Correct
  imports Request
begin

text \<open>
  Safety and termination of request processing: whatever the peer sends and however \<open>recv\<close> cuts it
  into pieces, each phase returns, stays inside the receive buffer, and keeps the conditions the
  next phase needs.
\<close>

subsection \<open>Definitions: conditions\<close>

text \<open>What the documentation of \<open>recv\<close> promises: at most as many bytes as there is room for.\<close>

definition recv_ok :: "'w recv_fun \<Rightarrow> bool" where
  "recv_ok recv \<longleftrightarrow> (\<forall>w fd n bs w'. recv w fd n = (Received bs, w') \<longrightarrow> length bs \<le> n)"

text \<open>What a phase never changes: the bounds of the buffer, the memory outside it, the descriptor and the
  responses sent, and the room for the header index.\<close>

definition conn_frame :: "'w conn \<Rightarrow> 'w conn \<Rightarrow> bool" where
  "conn_frame c c' \<longleftrightarrow>
     buffer_wf (r_header (c_req c')) \<and>
     b_start (r_header (c_req c')) = b_start (r_header (c_req c)) \<and>
     b_end (r_header (c_req c')) = b_end (r_header (c_req c)) \<and>
     r_fd (c_req c') = r_fd (c_req c) \<and> c_sent c' = c_sent c \<and>
     (\<forall>a. a < b_start (r_header (c_req c)) \<or> b_end (r_header (c_req c)) \<le> a \<longrightarrow> c_mem c' a = c_mem c a) \<and>
     (lc_array (c_req c) \<longrightarrow> lc_array (c_req c')) \<and>
     (index_ok (r_lowcase_index (c_req c)) (c_req c) \<longrightarrow> index_ok (r_lowcase_index (c_req c')) (c_req c'))"

text \<open>The part of a request the parser of the request line does not touch.\<close>

definition line_rest :: "http_request \<Rightarrow> int \<times> int \<times> u32 \<times> u8 list \<times> buffer" where
  "line_rest r = (r_fd r, r_content_len r, r_lowcase_index r, r_lowcase_header r, r_header r)"

definition header_rest :: "http_request \<Rightarrow> int \<times> int \<times> u32 \<times> nat \<times> buffer" where
  "header_rest r = (r_fd r, r_content_len r, r_lowcase_index r, length (r_lowcase_header r), r_header r)"

definition line_step_open :: "ptr \<Rightarrow> http_request \<Rightarrow> buffer \<Rightarrow> bool" where
  "line_step_open lo r b \<longleftrightarrow> (\<exists>st. rl_decode (r_state r) = Some st \<and> rl_inv lo (b_pos b) (st, r))"

text \<open>The bytes still to be received and to be parsed: the measure of the loops.\<close>

definition conn_fuel :: "'w conn \<Rightarrow> nat" where
  "conn_fuel c = (let b = r_header (c_req c) in 2 * (b_end b - b_last b) + (b_last b - b_pos b))"

subsection \<open>Frames of the parsers\<close>

fun rl_req :: "rl_out \<Rightarrow> http_request" where
  "rl_req (Cont (st, r)) = r"
| "rl_req (Stop (Inl (e, r))) = r"
| "rl_req (Stop (Inr (p, r))) = r"

fun hd_req :: "hd_out \<Rightarrow> http_request option" where
  "hd_req (Cont (st, hash, i, r)) = Some r"
| "hd_req (Stop (HFail e r)) = Some r"
| "hd_req (Stop HUB) = None"
| "hd_req (Stop (HDone p hash i r)) = Some r"
| "hd_req (Stop (HHeader_done p r)) = Some r"

lemma line_rest_simps [simp]:
  "line_rest (r\<lparr>r_request_line := x1\<rparr>) = line_rest r" "line_rest (r\<lparr>r_method_name := x2\<rparr>) = line_rest r"
  "line_rest (r\<lparr>r_method := x3\<rparr>) = line_rest r" "line_rest (r\<lparr>r_schema := x4\<rparr>) = line_rest r"
  "line_rest (r\<lparr>r_host := x5\<rparr>) = line_rest r" "line_rest (r\<lparr>r_port := x6\<rparr>) = line_rest r"
  "line_rest (r\<lparr>r_uri := x7\<rparr>) = line_rest r" "line_rest (r\<lparr>r_args := x8\<rparr>) = line_rest r"
  "line_rest (r\<lparr>r_exten := x9\<rparr>) = line_rest r" "line_rest (r\<lparr>r_http_protocol := x10\<rparr>) = line_rest r"
  "line_rest (r\<lparr>r_http_major := x11\<rparr>) = line_rest r" "line_rest (r\<lparr>r_http_minor := x12\<rparr>) = line_rest r"
  "line_rest (r\<lparr>r_http_version := x13\<rparr>) = line_rest r" "line_rest (r\<lparr>r_complex_uri := x14\<rparr>) = line_rest r"
  "line_rest (r\<lparr>r_quoted_uri := x15\<rparr>) = line_rest r" "line_rest (r\<lparr>r_plus_in_uri := x16\<rparr>) = line_rest r"
  "line_rest (r\<lparr>r_space_in_uri := x17\<rparr>) = line_rest r" "line_rest (r\<lparr>r_state := x18\<rparr>) = line_rest r"
  by (simp_all add: line_rest_def)

lemma header_rest_simps [simp]:
  "header_rest (r\<lparr>r_header_name := x1\<rparr>) = header_rest r" "header_rest (r\<lparr>r_header_value := x2\<rparr>) = header_rest r"
  "header_rest (r\<lparr>r_invalid_header := x3\<rparr>) = header_rest r" "header_rest (r\<lparr>r_state := x4\<rparr>) = header_rest r"
  "header_rest (r\<lparr>r_header_hash := x5\<rparr>) = header_rest r"
  "header_rest (r\<lparr>r_lowcase_header := (r_lowcase_header r)[k := x6]\<rparr>) = header_rest r"
  by (simp_all add: header_rest_def)

lemma rl_switch_rest: "line_rest (rl_req (rl_switch m p ch (st, r))) = line_rest r"
  by (cases st) (simp_all add: rl_switch_def rl_defs rl_end_defs Let_def)

lemma hd_switch_rest: "hd_req (hd_switch p ch (st, hash, i, r)) = Some r' \<Longrightarrow> header_rest r' = header_rest r"
  by (cases st) (auto simp: hd_switch_def hd_defs end_name_def end_value_def header_rest_def Let_def
      split: if_splits)

lemma scan_rl_rest: "line_rest (rl_req (scan (rl_switch m) p cs (st, r))) = line_rest r"
proof (induction cs arbitrary: p st r)
  case (Cons c cs)
  show ?case
  proof (cases "rl_switch m p c (st, r)")
    case (Cont s)
    with Cons.IH [of "Suc p" "fst s" "snd s"] rl_switch_rest [of m p c st r] show ?thesis by (cases s) simp
  next
    case (Stop out)
    with rl_switch_rest [of m p c st r] show ?thesis by simp
  qed
qed simp

lemma scan_hd_rest:
  "hd_req (scan hd_switch p cs (st, hash, i, r)) = Some r' \<Longrightarrow> header_rest r' = header_rest r"
proof (induction cs arbitrary: p st hash i r)
  case (Cons c cs)
  show ?case
  proof (cases "hd_switch p c (st, hash, i, r)")
    case (Cont s)
    obtain st1 hash1 i1 r1 where s: "s = (st1, hash1, i1, r1)" by (metis prod.exhaust)
    with Cons Cont hd_switch_rest [of p c st hash i r r1] show ?thesis by simp
  next
    case (Stop out)
    with Cons.prems hd_switch_rest [of p c st hash i r r'] show ?thesis by simp
  qed
qed simp

lemma rl_done_rest: "rl_done p r b = (ret, r', b') \<Longrightarrow> line_rest r' = line_rest r \<and> r_state r' = 0"
  by (auto simp: rl_done_def Let_def line_rest_def split: if_splits)

lemma parse_line_rest:
  assumes "http_parse_request_line m r b = (ret, r', b')"
  shows "line_rest r' = line_rest r"
proof (cases "rl_decode (r_state r)")
  case (Some st)
  note fr = scan_rl_rest [of m "b_pos b" "pending m b" st r]
  from assms Some show ?thesis
    by (cases rule: parse_line_cases) (use fr rl_done_rest in auto)
qed (use assms in \<open>simp add: http_parse_request_line_def\<close>)

lemma parse_header_rest:
  assumes "http_parse_request_header m r b = Ret (ret, r', b')"
  shows "r_fd r' = r_fd r" "r_content_len r' = r_content_len r" "r_header r' = r_header r"
    "length (r_lowcase_header r') = length (r_lowcase_header r)"
    "ret \<noteq> 0 \<Longrightarrow> ret \<noteq> 1 \<Longrightarrow> r_lowcase_index r' = r_lowcase_index r"
proof -
  have "r_fd r' = r_fd r \<and> r_content_len r' = r_content_len r \<and> r_header r' = r_header r \<and>
    length (r_lowcase_header r') = length (r_lowcase_header r) \<and>
    (ret \<noteq> 0 \<longrightarrow> ret \<noteq> 1 \<longrightarrow> r_lowcase_index r' = r_lowcase_index r)"
  proof (cases "hd_decode (r_state r)")
    case (Some st)
    note fr = scan_hd_rest [of "b_pos b" "pending m b" st "r_header_hash r" "r_lowcase_index r" r]
    show ?thesis
    proof (cases "scan hd_switch (b_pos b) (pending m b) (st, r_header_hash r, r_lowcase_index r, r)")
      case (Cont s)
      obtain st1 hash1 i1 r1 where s: "s = (st1, hash1, i1, r1)" by (metis prod.exhaust)
      from Cont s fr [of r1] have "header_rest r1 = header_rest r" by simp
      moreover from assms Some Cont s
      have "r' = r1\<lparr>r_state := hd_code st1, r_header_hash := hash1, r_lowcase_index := i1\<rparr>" "ret = 1"
        by (simp_all add: http_parse_request_header_def)
      ultimately show ?thesis by (simp add: header_rest_def)
    next
      case (Stop out)
      show ?thesis
      proof (cases out)
        case (HFail e r1)
        with assms Some Stop fr [of r1] show ?thesis
          by (simp add: http_parse_request_header_def header_rest_def)
      next
        case HUB
        with assms Some Stop show ?thesis by (simp add: http_parse_request_header_def)
      next
        case (HDone q hash1 i1 r1)
        with Stop fr [of r1] have "header_rest r1 = header_rest r" by simp
        moreover from assms Some Stop HDone
        have "r' = r1\<lparr>r_state := 0, r_header_hash := hash1, r_lowcase_index := i1\<rparr>" "ret = 0"
          by (simp_all add: http_parse_request_header_def)
        ultimately show ?thesis by (simp add: header_rest_def)
      next
        case (HHeader_done q r1)
        with Stop fr [of r1] have "header_rest r1 = header_rest r" by simp
        moreover from assms Some Stop HHeader_done have "r' = r1\<lparr>r_state := 0\<rparr>"
          by (simp add: http_parse_request_header_def)
        ultimately show ?thesis by (simp add: header_rest_def)
      qed
    qed
  qed (use assms in \<open>simp add: http_parse_request_header_def\<close>)
  then show "r_fd r' = r_fd r" "r_content_len r' = r_content_len r" "r_header r' = r_header r"
    "length (r_lowcase_header r') = length (r_lowcase_header r)"
    "ret \<noteq> 0 \<Longrightarrow> ret \<noteq> 1 \<Longrightarrow> r_lowcase_index r' = r_lowcase_index r" by simp_all
qed

subsection \<open>One call of the request line parser\<close>

lemma rl_inv_state [simp]: "rl_inv lo p (st, r\<lparr>r_state := x\<rparr>) = rl_inv lo p (st, r)"
  by (cases st) (simp_all add: rl_inv.simps rl_inv_defs)

lemma parse_line_open_cases:
  assumes "line_step_open lo r b" and "buffer_wf b"
  obtains
    (more) r' where "http_parse_request_line m r b = (1, r', b\<lparr>b_pos := b_last b\<rparr>)"
      "line_step_open lo r' (b\<lparr>b_pos := b_last b\<rparr>)"
  | (fin) q r' where "http_parse_request_line m r b = (0, r', b\<lparr>b_pos := Suc q\<rparr>)"
      "b_pos b \<le> q" "q < b_last b" "r_state r' = 0" "line_slices_ok lo (Suc q) r'"
  | (err) e q r' where "http_parse_request_line m r b = (e, r', b\<lparr>b_pos := q\<rparr>)"
      "e < 0" "b_pos b \<le> q" "q \<le> b_last b"
proof -
  from assms(1) obtain st where st: "rl_decode (r_state r) = Some st" and inv: "rl_inv lo (b_pos b) (st, r)"
    by (auto simp: line_step_open_def)
  from assms(2) have len: "b_pos b + length (pending m b) = b_last b" "b_last b < 2 ^ 64" "b_pos b \<le> b_last b"
    by (simp_all add: pending_def buffer_wf_def)
  obtain ret r' b' where parse: "http_parse_request_line m r b = (ret, r', b')" by (metis prod.exhaust)
  from parse st show thesis
  proof (cases rule: parse_line_cases)
    case (more st1 r1)
    from rl.scan_keeps [OF more(2) inv] len have "rl_inv lo (b_last b) (st1, r1)" by simp
    then have "line_step_open lo r' (b\<lparr>b_pos := b_last b\<rparr>)" using more by (auto simp: line_step_open_def)
    with more parse show thesis by (intro that(1)) simp_all
  next
    case err
    then show thesis using parse len by (intro that(3) [of ret r' "b_pos b"]) simp_all
  next
    case (fin q r1)
    from scan_rl_done [OF inv _ fin(1)] len
    have q: "b_pos b \<le> q" "q < b_last b" "line_end_ok lo (Suc q) r1" by simp_all
    from rl_done_sel(1) [OF fin(2)] have b': "b' = b\<lparr>b_pos := Suc q\<rparr>" by simp
    show thesis
    proof (cases "ret = 0")
      case True
      from line_end_ok_slices [OF q(3)] fin(2) True q len have "line_slices_ok lo (Suc q) r'" by simp
      with True parse b' q rl_done_rest [OF fin(2)] show thesis by (intro that(2)) auto
    next
      case False
      with fin(3) parse b' q show thesis by (intro that(3) [of ret r' "Suc q"]) auto
    qed
  qed
qed

subsection \<open>Receiving\<close>

abbreviation conn_buf :: "'w conn \<Rightarrow> buffer" where "conn_buf c \<equiv> r_header (c_req c)"

lemma recv_step_cases:
  assumes "recv_ok recv" and "buffer_wf (conn_buf c)"
  obtains
    (error) ret w where "recv_step recv c = (ret, c\<lparr>c_world := w\<rparr>)" "ret \<noteq> 0"
  | (bytes) bs w where "recv_step recv c = (0, c\<lparr>c_mem := mem_write (c_mem c) (b_last (conn_buf c)) bs,
        c_req := (c_req c)\<lparr>r_header := (conn_buf c)\<lparr>b_last := b_last (conn_buf c) + length bs\<rparr>\<rparr>, c_world := w\<rparr>)"
      "bs \<noteq> []" "b_last (conn_buf c) + length bs \<le> b_end (conn_buf c)"
proof (cases "b_last (conn_buf c) = b_end (conn_buf c)")
  case True
  then show thesis
    by (intro error [of "-1" "c_world c"]) (simp_all add: recv_step_def recv_http_request_def)
next
  case False
  let ?n = "b_end (conn_buf c) - b_last (conn_buf c)"
  obtain ret w where recv: "recv (c_world c) (r_fd (c_req c)) ?n = (ret, w)" by fastforce
  show thesis
  proof (cases ret)
    case (Received bs)
    show thesis
    proof (cases "bs = []")
      case True
      with False recv Received show thesis
        by (intro error [of "-4" w]) (simp_all add: recv_step_def recv_http_request_def)
    next
      case nonempty: False
      from assms(1) recv Received have "length bs \<le> ?n" unfolding recv_ok_def by blast
      moreover from assms(2) have "b_last (conn_buf c) \<le> b_end (conn_buf c)" by (simp add: buffer_wf_def)
      ultimately show thesis using False recv Received nonempty
        by (intro bytes [where bs = bs and w = w]) (simp_all add: recv_step_def recv_http_request_def)
    qed
  next
    case (Recv_error errno)
    with False recv show thesis
      by (intro error [of "if errno = ETIME then -2 else -3" w])
        (simp_all add: recv_step_def recv_http_request_def)
  qed
qed

lemma conn_frame_refl: "buffer_wf (conn_buf c) \<Longrightarrow> conn_frame c c"
  by (simp add: conn_frame_def)

lemma conn_frame_trans [trans]: "conn_frame c c1 \<Longrightarrow> conn_frame c1 c2 \<Longrightarrow> conn_frame c c2"
  by (simp add: conn_frame_def)

lemma conn_frame_world [simp]: "conn_frame c (c'\<lparr>c_world := w\<rparr>) = conn_frame c c'"
  by (simp add: conn_frame_def)

lemma conn_frame_recv:
  assumes "buffer_wf (conn_buf c)" "b_last (conn_buf c) + length bs \<le> b_end (conn_buf c)"
  shows "conn_frame c (c\<lparr>c_mem := mem_write (c_mem c) (b_last (conn_buf c)) bs,
    c_req := (c_req c)\<lparr>r_header := (conn_buf c)\<lparr>b_last := b_last (conn_buf c) + length bs\<rparr>\<rparr>, c_world := w\<rparr>)"
  using assms by (auto simp: conn_frame_def buffer_wf_def index_ok_def lc_array_def intro!: mem_write_out)

text \<open>Replacing the request by one the parsers returned.\<close>

lemma conn_frame_req:
  assumes "buffer_wf (conn_buf c)" "b_pos (conn_buf c) \<le> q" "q \<le> b_last (conn_buf c)" "r_fd r = r_fd (c_req c)"
    "index_ok (r_lowcase_index (c_req c)) (c_req c) \<Longrightarrow> index_ok (r_lowcase_index r) r" "lc_array (c_req c) \<Longrightarrow> lc_array r"
  shows "conn_frame c (c\<lparr>c_req := r\<lparr>r_header := (conn_buf c)\<lparr>b_pos := q\<rparr>\<rparr>\<rparr>)"
  using assms by (auto simp: conn_frame_def buffer_wf_def index_ok_def lc_array_def)

lemma line_rest_sel:
  "line_rest r' = line_rest r \<Longrightarrow> r_fd r' = r_fd r \<and> r_content_len r' = r_content_len r \<and>
    r_header r' = r_header r \<and> r_lowcase_index r' = r_lowcase_index r \<and> r_lowcase_header r' = r_lowcase_header r"
  by (simp add: line_rest_def)

subsection \<open>The request line phase\<close>

lemma line_step_open_header [simp]: "line_step_open lo (r\<lparr>r_header := x\<rparr>) b = line_step_open lo r b"
proof -
  have "rl_inv lo p (st, r\<lparr>r_header := x\<rparr>) = rl_inv lo p (st, r)" for p st
    by (cases st) (simp_all add: rl_inv.simps rl_inv_defs)
  then show ?thesis by (simp add: line_step_open_def)
qed

lemma line_step_open_pos: "b_pos b = b_pos b' \<Longrightarrow> line_step_open lo r b = line_step_open lo r b'"
  by (simp add: line_step_open_def)

lemma line_slices_header [simp]: "line_slices_ok lo hi (r\<lparr>r_header := x\<rparr>) = line_slices_ok lo hi r"
  by (simp add: line_slices_ok_def)

text \<open>A round of the loop ends the phase, or leads to a next round with less room left in the buffer.\<close>

definition line_phase_ok :: "'w conn \<Rightarrow> nat \<Rightarrow> (int \<times> 'w conn) option \<Rightarrow> bool" where
  "line_phase_ok c lo res \<longleftrightarrow> (\<exists>ret c'. res = Some (ret, c') \<and> conn_frame c c' \<and>
      r_content_len (c_req c') = r_content_len (c_req c) \<and>
      (ret = 0 \<longrightarrow> r_state (c_req c') = 0 \<and> line_slices_ok lo (b_pos (conn_buf c')) (c_req c')))"

lemma line_phase_ok_trans:
  "conn_frame c c2 \<Longrightarrow> r_content_len (c_req c2) = r_content_len (c_req c) \<Longrightarrow> line_phase_ok c2 lo res \<Longrightarrow> line_phase_ok c lo res"
  by (auto simp: line_phase_ok_def intro: conn_frame_trans)

lemma line_round:
  assumes step: "recv_step recv c = (0, c1)" and fr1: "conn_frame c c1" and len1: "r_content_len (c_req c1) = r_content_len (c_req c)"
    and op1: "line_step_open lo (c_req c1) (conn_buf c1)"
  shows "line_phase_ok c lo (http_process_request_line recv c) \<or>
    (\<exists>c2. http_process_request_line recv c = http_process_request_line recv c2 \<and> conn_frame c c2 \<and>
       r_content_len (c_req c2) = r_content_len (c_req c) \<and> line_step_open lo (c_req c2) (conn_buf c2) \<and>
       b_end (conn_buf c2) = b_end (conn_buf c1) \<and> b_last (conn_buf c2) = b_last (conn_buf c1))"
proof -
  let ?put = "\<lambda>r' q. c1\<lparr>c_req := r'\<lparr>r_header := (conn_buf c1)\<lparr>b_pos := q\<rparr>\<rparr>\<rparr>"
  have wf1: "buffer_wf (conn_buf c1)" using fr1 by (simp add: conn_frame_def)
  note unfold = http_process_request_line.simps [of recv c]
  note rest = parse_line_rest [of "c_mem c1" "c_req c1" "conn_buf c1", THEN line_rest_sel]
  from op1 wf1 show ?thesis
  proof (cases rule: parse_line_open_cases [where m = "c_mem c1"])
    case (more r')
    have "conn_frame c1 (?put r' (b_last (conn_buf c1)))"
      by (rule conn_frame_req) (use wf1 rest [OF more(1)] in \<open>auto simp: buffer_wf_def index_ok_def lc_array_def\<close>)
    with fr1 have "conn_frame c (?put r' (b_last (conn_buf c1)))" by (rule conn_frame_trans)
    then show ?thesis using step more rest [OF more(1)] len1
      by (intro disjI2 exI [of _ "?put r' (b_last (conn_buf c1))"]) (simp add: unfold Let_def)
  next
    case (fin q r')
    have "conn_frame c1 (?put r' (Suc q))"
      by (rule conn_frame_req) (use fin wf1 rest [OF fin(1)] in \<open>auto simp: index_ok_def lc_array_def\<close>)
    with fr1 have "conn_frame c (?put r' (Suc q))" by (rule conn_frame_trans)
    then show ?thesis using step fin rest [OF fin(1)] len1 by (simp add: unfold line_phase_ok_def)
  next
    case (err e q r')
    have "conn_frame c1 (?put r' q)"
      by (rule conn_frame_req) (use err wf1 rest [OF err(1)] in \<open>auto simp: index_ok_def lc_array_def\<close>)
    with fr1 have "conn_frame c (?put r' q)" by (rule conn_frame_trans)
    then show ?thesis using step err(1,2) rest [OF err(1)] len1 by (simp add: unfold line_phase_ok_def)
  qed
qed

lemma process_line_phase_ok:
  assumes "recv_ok recv"
  shows "line_step_open lo (c_req c) (conn_buf c) \<Longrightarrow> buffer_wf (conn_buf c) \<Longrightarrow>
    line_phase_ok c lo (http_process_request_line recv c)"
proof (induction "b_end (conn_buf c) - b_last (conn_buf c)" arbitrary: c rule: less_induct)
  case less
  from assms less.prems(2) show ?case
  proof (cases rule: recv_step_cases)
    case (error ret w)
    then show ?thesis
      by (subst http_process_request_line.simps) (simp add: conn_frame_refl less.prems line_phase_ok_def)
  next
    case (bytes bs w)
    define c1 where "c1 = c\<lparr>c_mem := mem_write (c_mem c) (b_last (conn_buf c)) bs,
      c_req := (c_req c)\<lparr>r_header := (conn_buf c)\<lparr>b_last := b_last (conn_buf c) + length bs\<rparr>\<rparr>, c_world := w\<rparr>"
    have step: "recv_step recv c = (0, c1)" using bytes by (simp add: c1_def)
    have fr1: "conn_frame c c1" unfolding c1_def by (rule conn_frame_recv) (use bytes less.prems in simp_all)
    have op1: "line_step_open lo (c_req c1) (conn_buf c1)"
      using less.prems(1) line_step_open_pos [of "conn_buf c" "conn_buf c1" lo "c_req c"] by (simp add: c1_def)
    have less1: "b_end (conn_buf c1) - b_last (conn_buf c1) < b_end (conn_buf c) - b_last (conn_buf c)"
      using bytes by (cases bs) (simp_all add: c1_def)
    have len1: "r_content_len (c_req c1) = r_content_len (c_req c)" by (simp add: c1_def)
    from line_round [OF step fr1 len1 op1] show ?thesis
    proof (elim disjE exE conjE)
      fix c2
      assume c2: "http_process_request_line recv c = http_process_request_line recv c2" "conn_frame c c2"
        "r_content_len (c_req c2) = r_content_len (c_req c)" "line_step_open lo (c_req c2) (conn_buf c2)"
        "b_end (conn_buf c2) = b_end (conn_buf c1)" "b_last (conn_buf c2) = b_last (conn_buf c1)"
      from c2(2) have "buffer_wf (conn_buf c2)" by (simp add: conn_frame_def)
      with c2(4-6) less1 have "line_phase_ok c2 lo (http_process_request_line recv c2)" by (intro less.hyps) simp_all
      with c2(1-3) show ?thesis by (simp add: line_phase_ok_trans)
    qed
  qed
qed

lemmas process_line_total = process_line_phase_ok [unfolded line_phase_ok_def]

end
