(* ===== verification/Request_Safety.thy ===== *)
theory Request_Safety
  imports Request_Correct
begin

text \<open>
  The header phase, the body phase and the whole request: they always return, write only into
  the receive buffer, and end in exactly one response. Two kinds of undefined behaviour remain (\<open>header_ub\<close>): the
  signed overflow of \<open>str_atoi\<close> on an oversized \<open>Content-Length\<close> that was received, and a store through the index into
  \<open>lowcase_header\<close> when the block of the request came with an index out of range.
\<close>

subsection \<open>The header handlers\<close>

text \<open>The rounds of the loop of \<open>http_process_request_header\<close> that go on: a line is parsed and its handler accepts it, or more bytes are
  received.\<close>

inductive header_rounds :: "'w recv_fun \<Rightarrow> header_env \<Rightarrow> 'w conn \<Rightarrow> 'w conn \<Rightarrow> bool" for recv env where
  rounds_refl: "header_rounds recv env c c"
| rounds_line: "http_parse_request_header (c_mem c) (c_req c) (r_header (c_req c)) = Ret (0, r, b) \<Longrightarrow>
    handle_http_request_header env (c_mem c) (r\<lparr>r_header := b\<rparr>) = Some (Ret (0, m, r1)) \<Longrightarrow>
    header_rounds recv env (c\<lparr>c_mem := m, c_req := r1\<rparr>) c' \<Longrightarrow> header_rounds recv env c c'"
| rounds_recv: "http_parse_request_header (c_mem c) (c_req c) (r_header (c_req c)) = Ret (1, r, b) \<Longrightarrow>
    recv_step recv (c\<lparr>c_req := r\<lparr>r_header := b\<rparr>\<rparr>) = (0, c1) \<Longrightarrow>
    header_rounds recv env c1 c' \<Longrightarrow> header_rounds recv env c c'"

abbreviation in_range :: "'w conn \<Rightarrow> bool" where
  "in_range c \<equiv> index_ok (r_lowcase_index (c_req c)) (c_req c)"

text \<open>The next line of the received bytes is a header with the hash of \<open>Content-Length\<close> whose value overflows.\<close>

definition length_overflows :: "'w conn \<Rightarrow> bool" where
  "length_overflows c \<longleftrightarrow> (\<exists>r b. http_parse_request_header (c_mem c) (c_req c) (conn_buf c) = Ret (0, r, b) \<and>
     \<not> r_invalid_header r \<and> r_header_hash r = content_length_key \<and>
     str_in (b_start (conn_buf c)) (b_last (conn_buf c)) (r_header_value r) \<and> str_atoi (c_mem c) (r_header_value r) = UB)"

text \<open>The two ways into undefined behaviour, each on the bytes that were received: after some rounds a length overflows, or the parser
  stores outside the array, which needs an index that was out of range from the start.\<close>

definition header_ub :: "'w recv_fun \<Rightarrow> header_env \<Rightarrow> 'w conn \<Rightarrow> bool" where
  "header_ub recv env c \<longleftrightarrow> (\<exists>c1. header_rounds recv env c c1 \<and> (length_overflows c1 \<or>
     \<not> in_range c \<and> http_parse_request_header (c_mem c1) (c_req c1) (conn_buf c1) = UB))"

lemma header_ub_line:
  assumes "http_parse_request_header (c_mem c) (c_req c) (conn_buf c) = Ret (0, r, b)"
    and "handle_http_request_header env (c_mem c) (r\<lparr>r_header := b\<rparr>) = Some (Ret (0, m, r1))"
    and "conn_frame c (c\<lparr>c_mem := m, c_req := r1\<rparr>)" and "header_ub recv env (c\<lparr>c_mem := m, c_req := r1\<rparr>)"
  shows "header_ub recv env c"
  using assms(3,4) rounds_line [OF assms(1,2)] unfolding header_ub_def conn_frame_def by blast

lemma header_ub_recv:
  assumes "http_parse_request_header (c_mem c) (c_req c) (conn_buf c) = Ret (1, r, b)"
    and "recv_step recv (c\<lparr>c_req := r\<lparr>r_header := b\<rparr>\<rparr>) = (0, c1)" and "conn_frame c c1" and "header_ub recv env c1"
  shows "header_ub recv env c"
  using assms(3,4) rounds_recv [OF assms(1,2)] unfolding header_ub_def conn_frame_def by blast

lemma handle_default_cases:
  assumes "env_default env" and "header_line_ok B m lo hi hash i r" and "hi < 2 ^ 64 - 1"
  obtains
    (overflow) "handle_http_request_header env m r = Some UB" "str_in lo hi (r_header_value r)"
      "str_atoi m (r_header_value r) = UB" "\<not> r_invalid_header r" "r_header_hash r = content_length_key"
  | (ret) e m' h n where "handle_http_request_header env m r = Some (Ret (e, m', r\<lparr>r_host := h, r_content_len := n\<rparr>))"
      "\<forall>a. a < lo \<or> hi \<le> a \<longrightarrow> m' a = m a"
proof -
  let ?v = "r_header_value r"
  from assms(2) have v: "?v = str_init \<or> str_in lo hi ?v" by (simp add: header_line_ok_def str_opt_in_def)
  then have len: "str_len ?v < 2 ^ 64 - 1" using assms(3) by (auto simp: str_in_def)
  note eq = handle_default [OF assms(1), of m r]
  consider "r_invalid_header r \<or> r_header_hash r \<noteq> host_key \<and> r_header_hash r \<noteq> content_length_key"
    | "\<not> r_invalid_header r" "r_header_hash r = host_key"
    | "\<not> r_invalid_header r" "r_header_hash r = content_length_key" by blast
  then show thesis
  proof cases
    case 1
    then have "handle_http_request_header env m r = Some (Ret (0, m, r))" using eq by auto
    with that(2) [where e = 0 and m' = m and h = "r_host r" and n = "r_content_len r"] show thesis by simp
  next
    case 2
    from http_process_host_frame [OF len, of m] obtain e m' h where
      h: "http_process_host m r = Ret (e, m', r\<lparr>r_host := h\<rparr>)"
      "\<forall>a. a < str_p ?v \<or> str_p ?v + str_len ?v \<le> a \<longrightarrow> m' a = m a" by blast
    with v have "\<forall>a. a < lo \<or> hi \<le> a \<longrightarrow> m' a = m a" by (auto simp: str_in_def)
    with 2 eq h that(2) [where e = e and m' = m' and h = h and n = "r_content_len r"] show thesis by simp
  next
    case 3
    with eq keys_differ have run: "handle_http_request_header env m r = Some (http_process_content_length m r)" by simp
    show thesis
    proof (cases "http_process_content_length m r = UB")
      case True
      then have ub: "str_atoi m ?v = UB"
        using str_atoi_loop_returns by (auto simp: http_process_content_length_def str_atoi_def split: cres.splits)
      with v have "str_in lo hi ?v" by (auto simp: str_atoi_def str_bytes_def)
      with run True ub 3 that(1) show thesis by simp
    next
      case False
      with http_process_content_length_cases [of m r] obtain e n where
        "http_process_content_length m r = Ret (e, m, r\<lparr>r_content_len := n\<rparr>)" by blast
      with run that(2) [where e = e and m' = m and h = "r_host r" and n = n] show thesis by simp
    qed
  qed
qed

subsection \<open>The header phase\<close>

lemma hd_inv_mem:
  assumes "hd_inv B m lo p (st, hash, i, r)" "\<And>a. lo \<le> a \<Longrightarrow> a < p \<Longrightarrow> m' a = m a"
  shows "hd_inv B m' lo p (st, hash, i, r)"
proof -
  have "bytes_at m' q n = bytes_at m q n" if "lo \<le> q" "q + n \<le> p" for q n
    using that by (intro bytes_at_cong assms(2)) auto
  then have "str_in lo p s \<Longrightarrow> str_bytes m' s = str_bytes m s" for s
    by (auto simp: str_in_def str_bytes_def)
  then have "name_read m lo p hash r \<Longrightarrow> name_read m' lo p hash r"
    by (auto simp: name_read_def name_hashed_def)
  moreover have "name_hashed m' hash inv (bytes_at m' q (p - q)) = name_hashed m hash inv (bytes_at m q (p - q))"
    if "lo \<le> q" "q < p" for inv q
    using that \<open>\<And>n q. lo \<le> q \<Longrightarrow> q + n \<le> p \<Longrightarrow> bytes_at m' q n = bytes_at m q n\<close>
    by (simp add: name_hashed_def)
  ultimately show ?thesis using assms(1) by (cases st) (auto simp: hd_inv.simps)
qed

lemma hd_inv_header [simp]: "hd_inv B m lo p (st, hash, i, r\<lparr>r_header := x\<rparr>) = hd_inv B m lo p (st, hash, i, r)"
  by (cases st) (simp_all add: hd_inv.simps name_read_def index_ok_def)

lemma header_open_cong:
  assumes "header_open B m lo r b" "b_pos b' = b_pos b" "\<And>a. lo \<le> a \<Longrightarrow> a < b_pos b \<Longrightarrow> m' a = m a"
  shows "header_open B m' lo (r\<lparr>r_header := x\<rparr>) b'"
  using assms hd_inv_mem [of B m lo "b_pos b" _ _ _ r m'] by (auto simp: header_open_def)

lemma header_open_index: "header_open True m lo r b \<Longrightarrow> index_ok (r_lowcase_index r) r"
  by (auto simp: header_open_def dest: hd_inv_index)

text \<open>Only the range of the index depends on the flag.\<close>

lemma header_open_flag: "header_open B m lo r b \<Longrightarrow> (B' \<longrightarrow> index_ok (r_lowcase_index r) r) \<Longrightarrow> header_open B' m lo r b"
  by (auto simp: header_open_def hd_inv.simps)

text \<open>The outcome of a phase that may run into undefined behaviour.\<close>

definition phase_ok :: "'w recv_fun \<Rightarrow> header_env \<Rightarrow> 'w conn \<Rightarrow> (int \<times> 'w conn) cres \<Rightarrow> bool" where
  "phase_ok recv env c res \<longleftrightarrow> res = UB \<and> header_ub recv env c \<or> (\<exists>ret c'. res = Ret (ret, c') \<and> conn_frame c c')"

lemma phase_ok_trans:
  "conn_frame c c1 \<Longrightarrow> (header_ub recv env c1 \<Longrightarrow> header_ub recv env c) \<Longrightarrow> phase_ok recv env c1 res \<Longrightarrow> phase_ok recv env c res"
  by (auto simp: phase_ok_def intro: conn_frame_trans)

lemma phase_ok_Ret: "conn_frame c c' \<Longrightarrow> phase_ok recv env c (Ret (ret, c'))"
  by (simp add: phase_ok_def)

lemma header_call_frame:
  assumes parse: "http_parse_request_header (c_mem c) (c_req c) (conn_buf c) = Ret (ret, r', (conn_buf c)\<lparr>b_pos := q\<rparr>)"
    and wf: "buffer_wf (conn_buf c)" and q: "b_pos (conn_buf c) \<le> q" "q \<le> b_last (conn_buf c)"
    and idx: "ret = 0 \<or> ret = 1 \<Longrightarrow> in_range c \<Longrightarrow> index_ok (r_lowcase_index r') r'"
  shows "conn_frame c (c\<lparr>c_req := r'\<lparr>r_header := (conn_buf c)\<lparr>b_pos := q\<rparr>\<rparr>\<rparr>)"
proof (rule conn_frame_req [OF wf q])
  note rest = parse_header_rest [OF parse]
  show "r_fd r' = r_fd (c_req c)" by (rule rest)
  show "index_ok (r_lowcase_index r') r'" if "index_ok (r_lowcase_index (c_req c)) (c_req c)"
    using idx rest that by (cases "ret = 0 \<or> ret = 1") (auto simp: index_ok_def)
  show "lc_array r'" if "lc_array (c_req c)" using rest that by (auto simp: lc_array_def)
qed

lemma handler_frame:
  assumes "buffer_wf (conn_buf c)" "b_start (conn_buf c) \<le> lo" "hi \<le> b_end (conn_buf c)"
    "\<forall>a. a < lo \<or> hi \<le> a \<longrightarrow> m' a = c_mem c a"
  shows "conn_frame c (c\<lparr>c_mem := m', c_req := (c_req c)\<lparr>r_host := h, r_content_len := n\<rparr>\<rparr>)"
  using assms by (auto simp: conn_frame_def index_ok_def lc_array_def)

lemma header_line_ok_header [simp]:
  "header_line_ok B m lo hi hash i (r\<lparr>r_header := x\<rparr>) = header_line_ok B m lo hi hash i r"
  by (simp add: header_line_ok_def name_read_def index_ok_def)

text \<open>A round of the loop ends the phase, or leads to a next round that is closer to the end.\<close>

definition header_round_ok :: "'w recv_fun \<Rightarrow> header_env \<Rightarrow> 'w conn \<Rightarrow> bool" where
  "header_round_ok recv env c \<longleftrightarrow> (\<exists>res. http_process_request_header recv env c = Some res \<and> phase_ok recv env c res) \<or>
     (\<exists>c2 lo. http_process_request_header recv env c = http_process_request_header recv env c2 \<and> conn_frame c c2 \<and> conn_fuel c2 < conn_fuel c \<and>
        (header_ub recv env c2 \<longrightarrow> header_ub recv env c) \<and> header_open False (c_mem c2) lo (c_req c2) (conn_buf c2) \<and> b_start (conn_buf c2) \<le> lo \<and> lo \<le> b_pos (conn_buf c2))"

lemma header_round_more:
  assumes recv: "recv_ok recv" and wf: "buffer_wf (conn_buf c)" and lo: "b_start (conn_buf c) \<le> lo" "lo \<le> b_pos (conn_buf c)"
    and parse: "http_parse_request_header (c_mem c) (c_req c) (conn_buf c) = Ret (1, r', (conn_buf c)\<lparr>b_pos := b_last (conn_buf c)\<rparr>)"
    and opn: "header_open False (c_mem c) lo r' ((conn_buf c)\<lparr>b_pos := b_last (conn_buf c)\<rparr>)" and idx: "in_range c \<longrightarrow> index_ok (r_lowcase_index r') r'"
  shows "header_round_ok recv env c"
proof -
  let ?b = "conn_buf c" and ?c1 = "c\<lparr>c_req := r'\<lparr>r_header := (conn_buf c)\<lparr>b_pos := b_last (conn_buf c)\<rparr>\<rparr>\<rparr>"
  note unfold = http_process_request_header.simps [of recv env c]
  have ord: "b_pos ?b \<le> b_last ?b" "b_last ?b \<le> b_end ?b" using wf by (simp_all add: buffer_wf_def)
  have fr: "conn_frame c ?c1" by (rule header_call_frame [OF parse wf]) (use ord idx in auto)
  have wf1: "buffer_wf (conn_buf ?c1)" using fr by (simp add: conn_frame_def)
  from recv wf1 show ?thesis
  proof (cases rule: recv_step_cases)
    case (error ret w)
    then have "http_process_request_header recv env c = Some (Ret (-2, ?c1\<lparr>c_world := w\<rparr>))" using parse by (simp add: unfold Let_def)
    with fr show ?thesis by (simp add: phase_ok_Ret header_round_ok_def)
  next
    case (bytes bs w)
    define c2 where "c2 = ?c1\<lparr>c_mem := mem_write (c_mem ?c1) (b_last (conn_buf ?c1)) bs,
      c_req := (c_req ?c1)\<lparr>r_header := (conn_buf ?c1)\<lparr>b_last := b_last (conn_buf ?c1) + length bs\<rparr>\<rparr>, c_world := w\<rparr>"
    have loop: "http_process_request_header recv env c = http_process_request_header recv env c2"
      using parse bytes(1) by (simp add: unfold c2_def Let_def)
    have "conn_frame ?c1 c2" unfolding c2_def by (rule conn_frame_recv) (use bytes wf1 in simp_all)
    with fr have fr2: "conn_frame c c2" by (rule conn_frame_trans)
    have "0 < length bs" "b_last ?b + length bs \<le> b_end ?b" using bytes by simp_all
    then have "conn_fuel c2 < conn_fuel c" using ord by (simp add: conn_fuel_def Let_def c2_def del: length_greater_0_conv)
    moreover have "header_open False (c_mem c2) lo (c_req c2) (conn_buf c2)"
      unfolding c2_def using header_open_cong [OF opn] by (simp add: mem_write_out)
    moreover have "b_start (conn_buf c2) \<le> lo" "lo \<le> b_pos (conn_buf c2)" using lo ord by (simp_all add: c2_def)
    moreover have "header_ub recv env c2 \<Longrightarrow> header_ub recv env c"
      by (rule header_ub_recv [OF parse _ fr2]) (use bytes(1) in \<open>simp_all add: c2_def\<close>)
    ultimately show ?thesis using loop fr2 by (auto simp: header_round_ok_def)
  qed
qed

lemma header_round_line:
  assumes env: "env_default env" and wf: "buffer_wf (conn_buf c)" and lo: "b_start (conn_buf c) \<le> lo" and lim: "b_end (conn_buf c) < 2 ^ 64 - 1"
    and parse: "http_parse_request_header (c_mem c) (c_req c) (conn_buf c) = Ret (0, r', (conn_buf c)\<lparr>b_pos := Suc q\<rparr>)"
    and q: "b_pos (conn_buf c) \<le> q" "q < b_last (conn_buf c)" and st: "r_state r' = 0"
    and line: "header_line_ok (in_range c) (c_mem c) lo (Suc q) (r_header_hash r') (r_lowcase_index r') r'"
  shows "header_round_ok recv env c"
proof -
  let ?b = "conn_buf c" and ?c1 = "c\<lparr>c_req := r'\<lparr>r_header := (conn_buf c)\<lparr>b_pos := Suc q\<rparr>\<rparr>\<rparr>"
  note unfold = http_process_request_header.simps [of recv env c]
  have ord: "b_last ?b \<le> b_end ?b" using wf by (simp add: buffer_wf_def)
  have fr: "conn_frame c ?c1" by (rule header_call_frame [OF parse wf]) (use q line in \<open>auto simp: header_line_ok_def\<close>)
  have ok: "header_line_ok (in_range c) (c_mem c) lo (Suc q) (r_header_hash r') (r_lowcase_index r') (c_req ?c1)" using line by simp
  have hi: "Suc q < 2 ^ 64 - 1" using q ord lim by linarith
  from env ok hi show ?thesis
  proof (cases rule: handle_default_cases)
    case overflow
    have "str_in (b_start ?b) (b_last ?b) (r_header_value r')" using overflow(2) q lo by (auto simp: str_in_def)
    with overflow(3-5) parse have "length_overflows c" by (auto simp: length_overflows_def)
    with rounds_refl have "header_ub recv env c" unfolding header_ub_def by blast
    with overflow(1) parse show ?thesis by (simp add: unfold Let_def phase_ok_def header_round_ok_def)
  next
    case (ret e m' h n)
    define c2 where "c2 = ?c1\<lparr>c_mem := m', c_req := (c_req ?c1)\<lparr>r_host := h, r_content_len := n\<rparr>\<rparr>"
    have "conn_frame ?c1 c2" unfolding c2_def
      by (rule handler_frame) (use fr ret(2) q ord lo in \<open>auto simp: conn_frame_def\<close>)
    with fr have fr2: "conn_frame c c2" by (rule conn_frame_trans)
    show ?thesis
    proof (cases "e = 0")
      case False
      with parse ret(1) have "http_process_request_header recv env c = Some (Ret (-1, c2))" by (simp add: unfold c2_def Let_def)
      with fr2 show ?thesis by (simp add: phase_ok_Ret header_round_ok_def)
    next
      case True
      with parse ret(1) have loop: "http_process_request_header recv env c = http_process_request_header recv env c2"
        by (simp add: unfold c2_def Let_def)
      have "conn_fuel c2 < conn_fuel c" using q ord by (simp add: conn_fuel_def Let_def c2_def)
      moreover have "r_state (c_req c2) = 0" using st by (simp add: c2_def)
      then have "header_open False (c_mem c2) (b_pos (conn_buf c2)) (c_req c2) (conn_buf c2)" by (rule header_openI) simp
      moreover have "header_ub recv env c2 \<Longrightarrow> header_ub recv env c"
        by (rule header_ub_line [OF parse]) (use ret(1) True fr2 in \<open>simp_all add: c2_def\<close>)
      moreover have "b_start (conn_buf c2) \<le> b_pos (conn_buf c2)" using fr2 by (auto simp: conn_frame_def buffer_wf_def)
      ultimately show ?thesis using loop fr2 unfolding header_round_ok_def by blast
    qed
  qed
qed

lemma header_round:
  assumes recv: "recv_ok recv" and env: "env_default env" and opn: "header_open False (c_mem c) lo (c_req c) (conn_buf c)" and wf: "buffer_wf (conn_buf c)"
    and lo: "b_start (conn_buf c) \<le> lo" "lo \<le> b_pos (conn_buf c)" and lim: "b_end (conn_buf c) < 2 ^ 64 - 1"
  shows "header_round_ok recv env c"
proof -
  let ?b = "conn_buf c" and ?put = "\<lambda>r' q. c\<lparr>c_req := r'\<lparr>r_header := (conn_buf c)\<lparr>b_pos := q\<rparr>\<rparr>\<rparr>"
  note unfold = http_process_request_header.simps [of recv env c]
  have ord: "b_pos ?b \<le> b_last ?b" using wf by (simp add: buffer_wf_def)
  have "header_open (in_range c) (c_mem c) lo (c_req c) (conn_buf c)" by (rule header_open_flag [OF opn]) simp
  from this wf show ?thesis
  proof (cases rule: parse_header_cases)
    case (more r')
    from header_open_flag [OF more(2), of False] have "header_open False (c_mem c) lo r' (?b\<lparr>b_pos := b_last ?b\<rparr>)" by simp
    with more header_round_more [OF recv wf lo] show ?thesis by blast
  next
    case ub
    with rounds_refl have "header_ub recv env c" unfolding header_ub_def by blast
    with ub show ?thesis by (simp add: unfold phase_ok_def header_round_ok_def)
  next
    case (line q r')
    with header_round_line [OF env wf lo(1) lim] show ?thesis by blast
  next
    case (fin q r')
    have "conn_frame c (?put r' (Suc q))" by (rule header_call_frame [OF fin(1) wf]) (use fin in auto)
    with fin(1) show ?thesis by (simp add: unfold Let_def phase_ok_Ret header_round_ok_def)
  next
    case (err e r')
    have b: "?b\<lparr>b_pos := b_pos ?b\<rparr> = ?b" by simp
    have "conn_frame c (?put r' (b_pos ?b))" by (rule header_call_frame [of c e, OF _ wf]) (use err ord in auto)
    with err show ?thesis by (simp add: unfold Let_def phase_ok_Ret header_round_ok_def)
  qed
qed

lemma process_header_total:
  assumes "recv_ok recv" and "env_default env"
  shows "header_open False (c_mem c) lo (c_req c) (conn_buf c) \<Longrightarrow> buffer_wf (conn_buf c) \<Longrightarrow>
    b_start (conn_buf c) \<le> lo \<Longrightarrow> lo \<le> b_pos (conn_buf c) \<Longrightarrow> b_end (conn_buf c) < 2 ^ 64 - 1 \<Longrightarrow>
    \<exists>res. http_process_request_header recv env c = Some res \<and> phase_ok recv env c res"
proof (induction "conn_fuel c" arbitrary: c lo rule: less_induct)
  case less
  from header_round [OF assms less.prems] consider
    (finish) "\<exists>res. http_process_request_header recv env c = Some res \<and> phase_ok recv env c res"
  | (loop) c2 lo2 where "http_process_request_header recv env c = http_process_request_header recv env c2" "conn_frame c c2" "conn_fuel c2 < conn_fuel c"
      "header_ub recv env c2 \<longrightarrow> header_ub recv env c" "header_open False (c_mem c2) lo2 (c_req c2) (conn_buf c2)" "b_start (conn_buf c2) \<le> lo2" "lo2 \<le> b_pos (conn_buf c2)"
    unfolding header_round_ok_def by blast
  then show ?case
  proof cases
    case loop
    then have "buffer_wf (conn_buf c2)" "b_end (conn_buf c2) < 2 ^ 64 - 1" using less.prems(5) by (simp_all add: conn_frame_def)
    with less.hyps [OF loop(3,5) _ loop(6,7)] obtain res where "http_process_request_header recv env c2 = Some res" "phase_ok recv env c2 res" by blast
    with loop(1,4) phase_ok_trans [OF loop(2)] show ?thesis by auto
  qed
qed

subsection \<open>The body phase\<close>

text \<open>The connection after \<open>k\<close> successful receives, if there are so many.\<close>

fun recv_n :: "'w recv_fun \<Rightarrow> nat \<Rightarrow> 'w conn \<Rightarrow> 'w conn option" where
  "recv_n recv 0 c = Some c"
| "recv_n recv (Suc k) c = (case recv_step recv c of (ret, c1) \<Rightarrow> if ret = 0 then recv_n recv k c1 else None)"

text \<open>The bytes behind the headers are as many as announced.\<close>

definition body_complete :: "'w conn \<Rightarrow> bool" where
  "body_complete c \<longleftrightarrow> int (b_last (conn_buf c)) - int (b_pos (conn_buf c)) = r_content_len (c_req c)"

lemma recv_n_step:
  assumes "recv_step recv c = (0, c1)"
  shows "(\<exists>k c'. recv_n recv k c = Some c' \<and> P c') \<longleftrightarrow> P c \<or> (\<exists>k c'. recv_n recv k c1 = Some c' \<and> P c')"
proof
  assume "\<exists>k c'. recv_n recv k c = Some c' \<and> P c'"
  then obtain k c' where k: "recv_n recv k c = Some c'" "P c'" by blast
  with assms show "P c \<or> (\<exists>k c'. recv_n recv k c1 = Some c' \<and> P c')" by (cases k) auto
next
  assume "P c \<or> (\<exists>k c'. recv_n recv k c1 = Some c' \<and> P c')"
  then show "\<exists>k c'. recv_n recv k c = Some c' \<and> P c'"
  proof
    assume "P c"
    then have "recv_n recv 0 c = Some c \<and> P c" by simp
    then show ?thesis by blast
  next
    assume "\<exists>k c'. recv_n recv k c1 = Some c' \<and> P c'"
    then obtain k c' where "recv_n recv (Suc k) c = Some c' \<and> P c'" using assms by auto
    then show ?thesis by blast
  qed
qed

lemma recv_n_fails:
  assumes "recv_step recv c = (ret, c1)" "ret \<noteq> 0"
  shows "(\<exists>k c'. recv_n recv k c = Some c' \<and> P c') \<longleftrightarrow> P c"
proof
  assume "\<exists>k c'. recv_n recv k c = Some c' \<and> P c'"
  then obtain k c' where "recv_n recv k c = Some c'" "P c'" by blast
  with assms show "P c" by (cases k) auto
next
  assume "P c"
  then have "recv_n recv 0 c = Some c \<and> P c" by simp
  then show "\<exists>k c'. recv_n recv k c = Some c' \<and> P c'" by blast
qed

text \<open>How the phase ends.\<close>

definition body_end :: "'w recv_fun \<Rightarrow> 'w conn \<Rightarrow> int \<Rightarrow> 'w conn \<Rightarrow> bool" where
  "body_end recv c ret c' \<longleftrightarrow> conn_frame c c' \<and> (ret = 0 \<or> ret = -1) \<and>
     (ret = 0 \<longleftrightarrow> (\<exists>k c1. recv_n recv k c = Some c1 \<and> body_complete c1)) \<and>
     (ret \<noteq> 0 \<longrightarrow> (\<exists>k c1. recv_n recv k c = Some c1 \<and> fst (recv_step recv c1) \<noteq> 0)) \<and>
     (ret = 0 \<longrightarrow> r_content (c_req c') = \<lparr>str_p = b_pos (conn_buf c'), str_len = b_last (conn_buf c') - b_pos (conn_buf c')\<rparr> \<and>
        int (b_last (conn_buf c') - b_pos (conn_buf c')) = r_content_len (c_req c)) \<and>
     (r_content_len (c_req c) < int (b_last (conn_buf c)) - int (b_pos (conn_buf c)) \<longrightarrow> ret \<noteq> 0)"

lemma body_end_next:
  assumes step: "recv_step recv c = (0, c1)" and no: "\<not> body_complete c" and fr: "conn_frame c c1"
    and kept: "r_content_len (c_req c1) = r_content_len (c_req c)" "b_pos (conn_buf c1) = b_pos (conn_buf c)" "b_last (conn_buf c) \<le> b_last (conn_buf c1)"
    and fin: "body_end recv c1 ret c'"
  shows "body_end recv c ret c'"
proof -
  have "(\<exists>k c2. recv_n recv k c = Some c2 \<and> body_complete c2) \<longleftrightarrow> (\<exists>k c2. recv_n recv k c1 = Some c2 \<and> body_complete c2)"
    using recv_n_step [OF step, where P = body_complete] no by blast
  moreover have "(\<exists>k c2. recv_n recv k c1 = Some c2 \<and> fst (recv_step recv c2) \<noteq> 0) \<Longrightarrow> (\<exists>k c2. recv_n recv k c = Some c2 \<and> fst (recv_step recv c2) \<noteq> 0)"
    using recv_n_step [OF step, where P = "\<lambda>c. fst (recv_step recv c) \<noteq> 0"] by blast
  ultimately show ?thesis using fin kept conn_frame_trans [OF fr] unfolding body_end_def by auto
qed

lemma process_body_total:
  assumes "recv_ok recv"
  shows "buffer_wf (conn_buf c) \<Longrightarrow> \<exists>ret c'. http_process_request_body recv c = Some (ret, c') \<and> body_end recv c ret c'"
proof (induction "b_end (conn_buf c) - b_last (conn_buf c)" arbitrary: c rule: less_induct)
  case less
  let ?b = "conn_buf c"
  note unfold = http_process_request_body.simps [of recv c]
  have ord: "b_pos ?b \<le> b_last ?b" using less.prems by (simp add: buffer_wf_def)
  show ?case
  proof (cases "body_complete c")
    case True
    let ?c = "c\<lparr>c_req := (c_req c)\<lparr>r_content := \<lparr>str_p = b_pos ?b, str_len = nat (r_content_len (c_req c))\<rparr>\<rparr>\<rparr>"
    have "http_process_request_body recv c = Some (0, ?c)" using True by (simp add: unfold body_complete_def Let_def)
    moreover have "conn_frame c ?c" using less.prems by (simp add: conn_frame_def index_ok_def lc_array_def)
    moreover have "nat (r_content_len (c_req c)) = b_last ?b - b_pos ?b" using True ord unfolding body_complete_def by linarith
    moreover have "int (b_last ?b - b_pos ?b) = r_content_len (c_req c)" using True ord unfolding body_complete_def by linarith
    moreover have "recv_n recv 0 c = Some c" by simp
    then have "\<exists>k c1. recv_n recv k c = Some c1 \<and> body_complete c1" using True by blast
    ultimately show ?thesis using True unfolding body_end_def by (auto simp: body_complete_def)
  next
    case False
    from assms less.prems show ?thesis
    proof (cases rule: recv_step_cases)
      case (error ret w)
      have "http_process_request_body recv c = Some (-1, c\<lparr>c_world := w\<rparr>)" using False error by (simp add: unfold body_complete_def Let_def)
      moreover have "conn_frame c (c\<lparr>c_world := w\<rparr>)" using less.prems by (simp add: conn_frame_refl)
      moreover note recv_n_fails [OF error, where P = body_complete] recv_n_fails [OF error, where P = "\<lambda>c. fst (recv_step recv c) \<noteq> 0"]
      ultimately show ?thesis using False error unfolding body_end_def by simp
    next
      case (bytes bs w)
      define c1 where "c1 = c\<lparr>c_mem := mem_write (c_mem c) (b_last ?b) bs,
        c_req := (c_req c)\<lparr>r_header := ?b\<lparr>b_last := b_last ?b + length bs\<rparr>\<rparr>, c_world := w\<rparr>"
      have loop: "http_process_request_body recv c = http_process_request_body recv c1"
        using False bytes(1) by (simp add: unfold body_complete_def Let_def c1_def)
      have fr: "conn_frame c c1" unfolding c1_def by (rule conn_frame_recv) (use bytes less.prems in simp_all)
      have "0 < length bs" using bytes by simp
      then have "b_end (conn_buf c1) - b_last (conn_buf c1) < b_end ?b - b_last ?b"
        using bytes(3) by (simp add: c1_def del: length_greater_0_conv)
      moreover have "buffer_wf (conn_buf c1)" using fr by (simp add: conn_frame_def)
      ultimately obtain ret c' where run: "http_process_request_body recv c1 = Some (ret, c')" "body_end recv c1 ret c'"
        using less.hyps by blast
      have "body_end recv c ret c'"
        by (rule body_end_next [OF _ False fr _ _ _ run(2)]) (use bytes(1) in \<open>simp_all add: c1_def\<close>)
      with loop run(1) show ?thesis by simp
    qed
  qed
qed

subsection \<open>The response\<close>

text \<open>A request is answered: exactly one response with one of the three codes, nothing outside the buffer
  touched, and the structure left in a state the next request can start from.\<close>

definition answered :: "'w conn \<Rightarrow> 'w conn \<Rightarrow> bool" where
  "answered c c' \<longleftrightarrow>
     (\<exists>code l. code \<in> {200, 400, 507} \<and> get_http_status_line code = Some l \<and>
        c_sent c' = c_sent c @ [(r_fd (c_req c), response_text code l)]) \<and>
     (\<forall>a. a < b_start (conn_buf c) \<or> b_end (conn_buf c) \<le> a \<longrightarrow> c_mem c' a = c_mem c a) \<and>
     (lc_array (c_req c) \<longrightarrow> lc_array (c_req c'))"

lemma codes_present:
  "get_http_status_line 200 \<noteq> None" "get_http_status_line 400 \<noteq> None" "get_http_status_line 507 \<noteq> None"
  by (simp_all add: get_http_status_line_def status_consts http_status_lines_def)

lemma finalize_answers:
  assumes "code \<in> {200, 400, 507}" and "MIN_RESPONSE_BUFFER \<le> b_end (conn_buf c) - b_start (conn_buf c)"
  shows "\<exists>c'. finalize code c = Ret c' \<and> answered c c'"
proof -
  from codes_present assms(1) obtain l where l: "get_http_status_line code = Some l" by auto
  from http_finalize_request_sent [OF l assms(2), of "c_mem c"] obtain b' where
    fin: "http_finalize_request (c_mem c) (c_req c) code = Ret (mem_write (c_mem c) (b_start (conn_buf c)) (response_text code l),
      (c_req c)\<lparr>r_header := b'\<rparr>, [(r_fd (c_req c), response_text code l)])" by blast
  from response_text_length [OF l] assms(2)
  have "b_start (conn_buf c) + length (response_text code l) \<le> b_end (conn_buf c)"
    by (simp add: MIN_RESPONSE_BUFFER_def sizeof_http_request_def)
  then have "mem_write (c_mem c) (b_start (conn_buf c)) (response_text code l) a = c_mem c a"
    if "a < b_start (conn_buf c) \<or> b_end (conn_buf c) \<le> a" for a
    using that by (auto intro!: mem_write_out)
  with fin l assms(1) show ?thesis by (auto simp: finalize_def answered_def lc_array_def)
qed

lemma answered_frame: "conn_frame c c1 \<Longrightarrow> answered c1 c2 \<Longrightarrow> answered c c2"
  by (auto simp: answered_def conn_frame_def)

lemma finalize_after:
  assumes "conn_frame c c1" "code \<in> {200, 400, 507}" "MIN_RESPONSE_BUFFER \<le> b_end (conn_buf c) - b_start (conn_buf c)"
  shows "\<exists>c'. finalize code c1 = Ret c' \<and> answered c c'"
proof -
  from assms have "MIN_RESPONSE_BUFFER \<le> b_end (conn_buf c1) - b_start (conn_buf c1)" by (simp add: conn_frame_def)
  from finalize_answers [OF assms(2) this] answered_frame [OF assms(1)] show ?thesis by blast
qed

text \<open>The whole request, with the handlers the server installs.\<close>

lemma after_request_line_total:
  assumes recv: "recv_ok recv" and env: "env_default env" and wf: "buffer_wf (conn_buf c)"
    and st: "r_state (c_req c) = 0"
    and lim: "b_end (conn_buf c) < 2 ^ 64 - 1" and room: "MIN_RESPONSE_BUFFER \<le> b_end (conn_buf c) - b_start (conn_buf c)"
  shows "\<exists>res. after_request_line recv env request_body_default_handler c = Some res \<and>
    (res = UB \<and> header_ub recv env c \<or> (\<exists>c'. res = Ret c' \<and> answered c c'))"
proof (cases "r_http_version (c_req c) < HTTP_VER_10")
  case True
  with finalize_after [OF conn_frame_refl [OF wf] _ room, of 200] show ?thesis
    by (simp add: after_request_line_def request_body_default_handler_def)
next
  case False
  have "b_start (conn_buf c) \<le> b_pos (conn_buf c)" using wf by (simp add: buffer_wf_def)
  from process_header_total [OF recv env header_openI [OF st] wf this _ lim] obtain res where
    hd: "http_process_request_header recv env c = Some res" "phase_ok recv env c res" by auto
  show ?thesis
  proof (cases "res = UB")
    case True
    with hd False show ?thesis by (auto simp: after_request_line_def phase_ok_def)
  next
    case ok: False
    with hd obtain ret c1 where c1: "res = Ret (ret, c1)" "conn_frame c c1" by (auto simp: phase_ok_def)
    show ?thesis
    proof (cases "ret = 0")
      case False
      with finalize_after [OF c1(2) _ room, of HTTP_BAD_REQUEST] hd(1) c1(1) \<open>\<not> r_http_version _ < _\<close> show ?thesis
        by (auto simp: after_request_line_def HTTP_BAD_REQUEST_def)
    next
      case True
      have "buffer_wf (conn_buf c1)" using c1 by (simp add: conn_frame_def)
      from process_body_total [OF recv this] obtain ret2 c2 where
        c2: "http_process_request_body recv c1 = Some (ret2, c2)" "conn_frame c1 c2" by (auto simp: body_end_def)
      let ?code = "if ret2 = 0 then 200 else HTTP_INSUFFICIENT_STORAGE"
      have "after_request_line recv env request_body_default_handler c = Some (finalize ?code c2)"
        using False True hd(1) c1(1) c2(1)
        by (simp add: after_request_line_def request_body_default_handler_def)
      with finalize_after [OF conn_frame_trans [OF c1(2) c2(2)] _ room, of ?code] show ?thesis
        by (auto simp: HTTP_INSUFFICIENT_STORAGE_def)
    qed
  qed
qed

text \<open>The same, seen from the start of the request.\<close>

definition request_ub :: "'w recv_fun \<Rightarrow> header_env \<Rightarrow> 'w conn \<Rightarrow> bool" where
  "request_ub recv env c \<longleftrightarrow> (\<exists>c1. http_process_request_line recv c = Some (0, c1) \<and> header_ub recv env c1)"

lemma raw_handler_total:
  assumes recv: "recv_ok recv" and env: "env_default env" and wf: "buffer_wf (conn_buf c)"
    and fresh: "line_fresh (c_req c)"
    and lim: "b_end (conn_buf c) < 2 ^ 64 - 1" and room: "MIN_RESPONSE_BUFFER \<le> b_end (conn_buf c) - b_start (conn_buf c)"
  shows "\<exists>res. raw_http_request_handler recv env NULL_line_handler request_body_default_handler c = Some res \<and>
    (res = UB \<and> request_ub recv env c \<or> (\<exists>c'. res = Ret c' \<and> answered c c'))"
proof -
  have "line_step_open (b_pos (conn_buf c)) (c_req c) (conn_buf c)"
    using line_fresh_inv [OF fresh] fresh by (simp add: line_step_open_def line_fresh_def)
  from process_line_total [OF recv this wf] obtain ret c1 where
    c1: "http_process_request_line recv c = Some (ret, c1)" "conn_frame c c1" "ret = 0 \<longrightarrow> r_state (c_req c1) = 0"
    by blast
  note def = raw_http_request_handler_def unless_handled_def NULL_line_handler_def
  show ?thesis
  proof (cases "ret = 0")
    case False
    with c1 finalize_after [OF c1(2) _ room, of HTTP_BAD_REQUEST] show ?thesis
      by (auto simp: def HTTP_BAD_REQUEST_def)
  next
    case True
    have "buffer_wf (conn_buf c1)" "r_state (c_req c1) = 0"
      "b_end (conn_buf c1) < 2 ^ 64 - 1" "MIN_RESPONSE_BUFFER \<le> b_end (conn_buf c1) - b_start (conn_buf c1)"
      using c1 True lim room by (auto simp: conn_frame_def)
    from after_request_line_total [OF recv env this] obtain res where
      res: "after_request_line recv env request_body_default_handler c1 = Some res"
      "res = UB \<and> header_ub recv env c1 \<or> (\<exists>c'. res = Ret c' \<and> answered c1 c')" by blast
    have "header_ub recv env c1 \<Longrightarrow> request_ub recv env c" using c1(1) True by (auto simp: request_ub_def)
    with res answered_frame [OF c1(2)] c1(1) True show ?thesis by (auto simp: def)
  qed
qed

end
