(* ===== verification/Request_Delivery.thy ===== *)
theory Request_Delivery
  imports Request_Safety
begin

text \<open>
  End to end: a well-formed request that arrives in pieces of any size is answered with 200. The two
  parsers are resumable, so each phase sees the same lines as if the whole request had been in the
  buffer from the start; the proof follows the stream of bytes through the phases.
\<close>

subsection \<open>A peer that delivers a text\<close>

text \<open>Each call of \<open>recv\<close> returns a non-empty piece of what is left, at most as long as there is room.\<close>

inductive delivers :: "'w recv_fun \<Rightarrow> int \<Rightarrow> 'w \<Rightarrow> u8 list \<Rightarrow> bool" for recv fd where
  nothing: "delivers recv fd w []"
| piece: "bytes \<noteq> [] \<Longrightarrow>
    (\<And>n. 0 < n \<Longrightarrow> \<exists>bs w' rest. recv w fd n = (Received bs, w') \<and> bs \<noteq> [] \<and> length bs \<le> n \<and>
      bytes = bs @ rest \<and> delivers recv fd w' rest) \<Longrightarrow>
    delivers recv fd w bytes"

inductive_cases delivers_bytes: "delivers recv fd w bytes"

text \<open>A peer that sends a given list of pieces, and closes the connection at the end.\<close>

fun recv_pieces :: "u8 list list recv_fun" where
  "recv_pieces [] fd n = (Received [], [])"
| "recv_pieces (p # ps) fd n =
     (if length p \<le> n then (Received p, ps) else (Received (take n p), drop n p # ps))"

lemma delivers_pieces:
  assumes "\<forall>p \<in> set ps. p \<noteq> []"
  shows "delivers recv_pieces fd ps (concat ps)"
  using assms
proof (induction "length (concat ps)" arbitrary: ps rule: less_induct)
  case less
  show ?case
  proof (cases ps)
    case Nil
    then show ?thesis by (simp add: delivers.nothing)
  next
    case (Cons p qs)
    have p: "p \<noteq> []" using less.prems Cons by simp
    show ?thesis
    proof (rule delivers.piece)
      show "concat ps \<noteq> []" using p Cons by simp
      fix n :: nat
      assume n: "0 < n"
      show "\<exists>bs w' rest. recv_pieces ps fd n = (Received bs, w') \<and> bs \<noteq> [] \<and> length bs \<le> n \<and>
        concat ps = bs @ rest \<and> delivers recv_pieces fd w' rest"
      proof (cases "length p \<le> n")
        case True
        have "delivers recv_pieces fd qs (concat qs)" using less p Cons by (intro less.hyps) auto
        with True Cons p show ?thesis by auto
      next
        case False
        have "delivers recv_pieces fd (drop n p # qs) (concat (drop n p # qs))"
          using less.prems Cons n False by (intro less.hyps) auto
        with False Cons n p show ?thesis
          by (intro exI [of _ "take n p"] exI [of _ "drop n p # qs"] exI [of _ "concat (drop n p # qs)"]) auto
      qed
    qed
  qed
qed

subsection \<open>The parsers do not look at the buffer in the request\<close>

definition put_header :: "buffer \<Rightarrow> http_request \<Rightarrow> http_request" where
  "put_header x r = r\<lparr>r_header := x\<rparr>"

lemma put_header_simps [simp]:
  "r_state (put_header x r) = r_state r" "r_header_hash (put_header x r) = r_header_hash r"
  "r_lowcase_index (put_header x r) = r_lowcase_index r"
  "put_header x (r\<lparr>r_state := st\<rparr>) = (put_header x r)\<lparr>r_state := st\<rparr>"
  "put_header x (r\<lparr>r_header_hash := hash\<rparr>) = (put_header x r)\<lparr>r_header_hash := hash\<rparr>"
  "put_header x (r\<lparr>r_lowcase_index := i\<rparr>) = (put_header x r)\<lparr>r_lowcase_index := i\<rparr>"
  by (simp_all add: put_header_def)

lemma put_header_header [simp]:
  "r_header (put_header x r) = x" "put_header x (put_header y r) = put_header x r" "r_fd (put_header x r) = r_fd r"
  by (simp_all add: put_header_def)

fun put_header_out :: "buffer \<Rightarrow> rl_out \<Rightarrow> rl_out" where
  "put_header_out x (Cont (st, r)) = Cont (st, put_header x r)"
| "put_header_out x (Stop (Inl (e, r))) = Stop (Inl (e, put_header x r))"
| "put_header_out x (Stop (Inr (p, r))) = Stop (Inr (p, put_header x r))"

lemma rl_switch_header: "rl_switch m p ch (st, put_header x r) = put_header_out x (rl_switch m p ch (st, r))"
  by (cases st) (simp_all add: put_header_def rl_switch_def rl_defs rl_end_defs Let_def)

lemma scan_rl_header: "scan (rl_switch m) p cs (st, put_header x r) = put_header_out x (scan (rl_switch m) p cs (st, r))"
proof (induction cs arbitrary: p st r)
  case (Cons c cs)
  show ?case
  proof (cases "rl_switch m p c (st, r)")
    case (Cont s)
    with Cons.IH show ?thesis by (cases s) (simp add: rl_switch_header)
  next
    case (Stop out)
    then show ?thesis by (cases "(x, rl_switch m p c (st, r))" rule: put_header_out.cases) (auto simp: rl_switch_header)
  qed
qed simp

lemma rl_done_header:
  "rl_done q (put_header x r) b = (case rl_done q r b of (ret, r', b') \<Rightarrow> (ret, put_header x r', b'))"
  by (simp add: rl_done_def put_header_def Let_def)

lemma parse_line_header:
  "http_parse_request_line m (put_header x r) b =
     (case http_parse_request_line m r b of (ret, r', b') \<Rightarrow> (ret, put_header x r', b'))"
proof (cases "rl_decode (r_state r)")
  case (Some st)
  let ?s = "scan (rl_switch m) (b_pos b) (pending m b) (st, r)"
  show ?thesis
    by (cases "(x, ?s)" rule: put_header_out.cases)
      (use Some in \<open>auto simp: http_parse_request_line_def scan_rl_header rl_done_header\<close>)
qed (simp add: http_parse_request_line_def)

fun put_header_hd :: "buffer \<Rightarrow> hd_out \<Rightarrow> hd_out" where
  "put_header_hd x (Cont (st, hash, i, r)) = Cont (st, hash, i, put_header x r)"
| "put_header_hd x (Stop (HFail e r)) = Stop (HFail e (put_header x r))"
| "put_header_hd x (Stop HUB) = Stop HUB"
| "put_header_hd x (Stop (HDone q hash i r)) = Stop (HDone q hash i (put_header x r))"
| "put_header_hd x (Stop (HHeader_done q r)) = Stop (HHeader_done q (put_header x r))"

lemma hd_switch_header:
  "hd_switch p ch (st, hash, i, put_header x r) = put_header_hd x (hd_switch p ch (st, hash, i, r))"
  by (cases st) (simp_all add: put_header_def hd_switch_def hd_defs end_name_def end_value_def Let_def)

lemma scan_hd_header:
  "scan hd_switch p cs (st, hash, i, put_header x r) = put_header_hd x (scan hd_switch p cs (st, hash, i, r))"
proof (induction cs arbitrary: p st hash i r)
  case (Cons c cs)
  show ?case
  proof (cases "hd_switch p c (st, hash, i, r)")
    case (Cont s)
    with Cons.IH show ?thesis by (cases s) (simp add: hd_switch_header)
  next
    case (Stop out)
    then show ?thesis by (cases out) (auto simp: hd_switch_header)
  qed
qed simp

lemma parse_header_header:
  "http_parse_request_header m (put_header x r) b =
     cbind (http_parse_request_header m r b) (\<lambda>(ret, r', b'). Ret (ret, put_header x r', b'))"
proof (cases "hd_decode (r_state r)")
  case (Some st)
  let ?s = "scan hd_switch (b_pos b) (pending m b) (st, r_header_hash r, r_lowcase_index r, r)"
  show ?thesis
    by (cases "(x, ?s)" rule: put_header_hd.cases)
      (use Some in \<open>auto simp: http_parse_request_header_def scan_hd_header\<close>)
qed (simp add: http_parse_request_header_def)

subsection \<open>Prefixes of a line\<close>

text \<open>When the parser, given \<open>n\<close> bytes, completes a line of \<open>k\<close> bytes, it asks for more on every shorter prefix and
  completes the same line on every longer one.\<close>

lemma line_prefix:
  assumes fresh: "line_fresh r0" and pos: "b_pos b0 = p0" and lim: "p0 + n < 2 ^ 64"
    and whole: "http_parse_request_line M r0 (b0\<lparr>b_last := p0 + n\<rparr>) = (0, r', b0\<lparr>b_pos := p0 + k, b_last := p0 + n\<rparr>)"
    and j: "j \<le> n"
  shows "j < k \<Longrightarrow> \<exists>r1. http_parse_request_line M r0 (b0\<lparr>b_last := p0 + j\<rparr>) = (1, r1, b0\<lparr>b_pos := p0 + j, b_last := p0 + j\<rparr>)"
    and "k \<le> j \<Longrightarrow> http_parse_request_line M r0 (b0\<lparr>b_last := p0 + j\<rparr>) = (0, r', b0\<lparr>b_pos := p0 + k, b_last := p0 + j\<rparr>)"
proof -
  have dec: "rl_decode (r_state r0) = Some S_start" using fresh by (simp add: line_fresh_def)
  have inv: "rl_inv p0 p0 (S_start, r0)" by (rule line_fresh_inv [OF fresh])
  let ?scan = "\<lambda>j. scan (rl_switch M) p0 (bytes_at M p0 j) (S_start, r0)"
  have pend: "pending M (b0\<lparr>b_last := p0 + i\<rparr>) = bytes_at M p0 i" for i by (simp add: pending_def pos)
  obtain q r1 where full: "?scan n = Goto_done q r1" and fin: "rl_done q r1 (b0\<lparr>b_last := p0 + n\<rparr>) = (0, r', b0\<lparr>b_pos := p0 + k, b_last := p0 + n\<rparr>)"
  proof (cases rule: parse_line_cases [of M r0 "b0\<lparr>b_last := p0 + n\<rparr>" 0 r' _ S_start, OF whole dec])
    case (3 q r1)
    then show ?thesis using that pend pos by simp
  qed simp_all
  from arg_cong [OF rl_done_sel(1) [OF fin], of b_pos] have q: "Suc q = p0 + k" by simp
  have fin_j: "rl_done q r1 (b0\<lparr>b_last := p0 + j\<rparr>) = (0, r', b0\<lparr>b_pos := p0 + k, b_last := p0 + j\<rparr>)"
    using fin q by (auto simp: rl_done_def Let_def)
  have split: "bytes_at M p0 n = bytes_at M p0 j @ bytes_at M (p0 + j) (n - j)"
    using bytes_at_add [of M p0 j "n - j"] j by simp
  show "\<exists>r1. http_parse_request_line M r0 (b0\<lparr>b_last := p0 + j\<rparr>) = (1, r1, b0\<lparr>b_pos := p0 + j, b_last := p0 + j\<rparr>)" if "j < k"
  proof (cases "?scan j")
    case (Cont s)
    then show ?thesis using dec by (cases s) (simp add: http_parse_request_line_def pend pos)
  next
    case (Stop out)
    with full split have "?scan j = Goto_done q r1" by (simp add: scan_append)
    from scan_rl_done [OF inv _ this] lim j q that show ?thesis by simp
  qed
  show "http_parse_request_line M r0 (b0\<lparr>b_last := p0 + j\<rparr>) = (0, r', b0\<lparr>b_pos := p0 + k, b_last := p0 + j\<rparr>)" if "k \<le> j"
  proof (cases "?scan j")
    case (Cont s)
    obtain st2 r2 where s: "s = (st2, r2)" by fastforce
    from rl.scan_keeps [OF Cont inv] lim j s have inv2: "rl_inv p0 (p0 + j) (st2, r2)" by simp
    have sc: "scan (rl_switch M) (p0 + j) (bytes_at M (p0 + j) (n - j)) (st2, r2) = Goto_done q r1"
      using full split Cont s by (simp add: scan_append)
    from scan_rl_done [OF inv2 _ sc] lim j have "p0 + j \<le> q" by simp
    with q that show ?thesis by simp
  next
    case (Stop out)
    with full split have "?scan j = Goto_done q r1" by (simp add: scan_append)
    then show ?thesis using dec fin_j by (simp add: http_parse_request_line_def pend pos)
  qed
qed

lemma parse_line_mem:
  assumes "line_fresh r0" "b_pos b = p0" "p0 \<le> b_last b" "b_last b < 2 ^ 64" "\<And>a. p0 \<le> a \<Longrightarrow> a < b_last b \<Longrightarrow> m a = m' a"
  shows "http_parse_request_line m r0 b = http_parse_request_line m' r0 b"
proof -
  have "pending m b = pending m' b" unfolding pending_def using assms by (intro bytes_at_cong) auto
  moreover have "scan (rl_switch m) p0 (pending m' b) (S_start, r0) = scan (rl_switch m') p0 (pending m' b) (S_start, r0)"
    by (rule scan_rl_cong [OF line_fresh_inv [OF assms(1)]]) (use assms in \<open>auto simp: pending_def\<close>)
  moreover have "rl_decode (r_state r0) = Some S_start" using assms(1) by (simp add: line_fresh_def)
  ultimately show ?thesis by (simp add: http_parse_request_line_def assms(2))
qed

subsection \<open>Receiving a piece of the stream\<close>

text \<open>The state of a connection in the middle of a stream: the memory below \<open>b_last\<close> holds the text in \<open>M\<close> from
  \<open>p0\<close> on, and the peer will deliver the rest of it, up to \<open>e\<close>.\<close>

definition in_stream :: "'w recv_fun \<Rightarrow> mem \<Rightarrow> ptr \<Rightarrow> ptr \<Rightarrow> 'w conn \<Rightarrow> bool" where
  "in_stream recv M p0 e c \<longleftrightarrow>
     (let b = conn_buf c in
      buffer_wf b \<and> p0 \<le> b_pos b \<and> b_last b \<le> e \<and> e \<le> b_end b \<and>
      (\<forall>a. p0 \<le> a \<longrightarrow> a < b_last b \<longrightarrow> c_mem c a = M a) \<and>
      delivers recv (r_fd (c_req c)) (c_world c) (bytes_at M (b_last b) (e - b_last b)))"

lemma in_stream_recv:
  assumes st: "in_stream recv M p0 e c" and lt: "b_last (conn_buf c) < e"
  obtains m l w where
    "recv_step recv c = (0, c\<lparr>c_mem := m, c_req := put_header ((conn_buf c)\<lparr>b_last := l\<rparr>) (c_req c), c_world := w\<rparr>)"
    "b_last (conn_buf c) < l" "l \<le> e"
    "in_stream recv M p0 e (c\<lparr>c_mem := m, c_req := put_header ((conn_buf c)\<lparr>b_last := l\<rparr>) (c_req c), c_world := w\<rparr>)"
    "\<And>a. a < b_last (conn_buf c) \<or> e \<le> a \<Longrightarrow> m a = c_mem c a"
proof -
  let ?b = "conn_buf c"
  let ?rest = "bytes_at M (b_last ?b) (e - b_last ?b)"
  have wf: "buffer_wf ?b" "e \<le> b_end ?b" and mem: "\<And>a. p0 \<le> a \<Longrightarrow> a < b_last ?b \<Longrightarrow> c_mem c a = M a"
    and del: "delivers recv (r_fd (c_req c)) (c_world c) ?rest" and pos: "p0 \<le> b_pos ?b"
    using st by (auto simp: in_stream_def Let_def)
  have ne: "?rest \<noteq> []" using lt length_bytes_at [of M "b_last ?b" "e - b_last ?b"] by (metis list.size(3) zero_less_diff less_irrefl)
  have room: "0 < b_end ?b - b_last ?b" using lt wf by simp
  from del obtain bs w rest where bs: "recv (c_world c) (r_fd (c_req c)) (b_end ?b - b_last ?b) = (Received bs, w)"
    "bs \<noteq> []" "length bs \<le> b_end ?b - b_last ?b" "?rest = bs @ rest" "delivers recv (r_fd (c_req c)) w rest"
  proof (cases rule: delivers.cases)
    case nothing
    with ne show ?thesis by simp
  next
    case piece
    from piece(2) [OF room] show ?thesis using that by blast
  qed
  let ?l = "b_last ?b + length bs"
  have len: "length bs \<le> e - b_last ?b" using arg_cong [OF bs(4), of length] by simp
  then have le: "?l \<le> e" using lt by simp
  have split: "?rest = bytes_at M (b_last ?b) (length bs) @ bytes_at M ?l (e - ?l)"
    using bytes_at_add [of M "b_last ?b" "length bs" "e - ?l"] le by simp
  have "length (bytes_at M (b_last ?b) (length bs)) = length bs \<or> length (bytes_at M ?l (e - ?l)) = length rest"
    by simp
  note append_eq_append_conv [OF this, THEN iffD1, OF trans [OF split [symmetric] bs(4)]]
  then have parts: "bytes_at M (b_last ?b) (length bs) = bs" "bytes_at M ?l (e - ?l) = rest" by blast+
  let ?m = "mem_write (c_mem c) (b_last ?b) bs"
  have agree: "?m a = M a" if "p0 \<le> a" "a < ?l" for a
  proof (cases "a < b_last ?b")
    case True
    with mem that show ?thesis by (simp add: mem_write_out)
  next
    case False
    define i where "i = a - b_last ?b"
    have i: "a = b_last ?b + i" "i < length bs" using False that by (simp_all add: i_def)
    from arg_cong [OF parts(1), of "\<lambda>xs. xs ! i"] i show ?thesis by (simp add: mem_write_in)
  qed
  have ord: "b_last ?b < ?l" "b_pos ?b \<le> b_last ?b" using bs(2) wf by (simp_all add: buffer_wf_def)
  show thesis
  proof (rule that [where m = ?m and l = ?l and w = w])
    show "recv_step recv c = (0, c\<lparr>c_mem := ?m, c_req := put_header (?b\<lparr>b_last := ?l\<rparr>) (c_req c), c_world := w\<rparr>)"
      using lt wf bs(1,2) by (simp add: recv_step_def recv_http_request_def put_header_def)
    show "in_stream recv M p0 e (c\<lparr>c_mem := ?m, c_req := put_header (?b\<lparr>b_last := ?l\<rparr>) (c_req c), c_world := w\<rparr>)"
      using wf pos le agree parts(2) bs(5) ord by (simp add: in_stream_def Let_def put_header_def buffer_wf_def)
    show "?m a = c_mem c a" if "a < b_last ?b \<or> e \<le> a" for a using that le by (auto intro!: mem_write_out)
  qed (use ord le in simp_all)
qed

lemma buffer_swap: "b\<lparr>b_last := x, b_pos := y\<rparr> = b\<lparr>b_pos := y, b_last := x\<rparr>"
  by simp

lemma conn_swap: "c\<lparr>c_world := w, c_req := r\<rparr> = c\<lparr>c_req := r, c_world := w\<rparr>"
  by simp

lemma in_stream_put:
  assumes "in_stream recv M p0 e c" "r_fd r = r_fd (c_req c)" "b_pos (conn_buf c) \<le> q" "q \<le> b_last (conn_buf c)"
  shows "in_stream recv M p0 e (c\<lparr>c_req := put_header ((conn_buf c)\<lparr>b_pos := q\<rparr>) r\<rparr>)"
  using assms by (simp add: in_stream_def Let_def buffer_wf_def)

subsection \<open>The request line\<close>

lemma parse_line_1:
  assumes fresh: "line_fresh r0" and pos: "b_pos b0 = p0" and wf: "buffer_wf (b0\<lparr>b_last := l\<rparr>)" and l: "p0 \<le> l" "l \<le> l'" "l' < 2 ^ 64"
    and mem: "\<And>a. p0 \<le> a \<Longrightarrow> a < l' \<Longrightarrow> m a = M a"
    and more: "http_parse_request_line M r0 (b0\<lparr>b_last := l\<rparr>) = (1, r, b0\<lparr>b_pos := l, b_last := l\<rparr>)"
    and onw: "http_parse_request_line M r0 (b0\<lparr>b_last := l'\<rparr>) = (ret, r2, b2)" "0 \<le> ret"
  shows "http_parse_request_line m r (b0\<lparr>b_pos := l, b_last := l'\<rparr>) = (ret, r2, b2)"
proof -
  have dec: "rl_decode (r_state r0) = Some S_start" using fresh by (simp add: line_fresh_def)
  have inv: "rl_inv p0 (b_pos (b0\<lparr>b_last := l\<rparr>)) (S_start, r0)" using line_fresh_inv [OF fresh] by (simp add: pos)
  have agree: "M a = m a" if "p0 \<le> a" "a < b_last (b0\<lparr>b_last := l\<rparr>)" for a using mem that l by simp
  have same: "http_parse_request_line m r0 (b0\<lparr>b_last := l'\<rparr>) = (ret, r2, b2)"
    using parse_line_mem [OF fresh, of "b0\<lparr>b_last := l'\<rparr>" p0 m M] mem onw(1) pos l by simp
  from parse_line_resume [OF dec inv wf _ l(3) agree more] l same onw(2) show ?thesis by simp
qed

text \<open>One round of the loop: some more of the line is received, and the parser goes on where it was.\<close>

lemma line_piece:
  assumes fresh: "line_fresh r0" and b0: "b_pos b0 = p0"
    and whole: "http_parse_request_line M r0 (b0\<lparr>b_last := p0 + n\<rparr>) = (0, r', b0\<lparr>b_pos := p0 + k, b_last := p0 + n\<rparr>)"
    and strm: "in_stream recv M p0 (p0 + n) c" and buf: "conn_buf c = b0\<lparr>b_pos := p0 + j, b_last := p0 + j\<rparr>" and j: "j < k" "j \<le> n" "k \<le> n"
    and wf: "buffer_wf (b0\<lparr>b_last := p0 + j\<rparr>)"
    and so_far: "http_parse_request_line M r0 (b0\<lparr>b_last := p0 + j\<rparr>) = (1, r, b0\<lparr>b_pos := p0 + j, b_last := p0 + j\<rparr>)"
    and req: "c_req c = put_header (conn_buf c) r"
  shows "\<exists>m i w r2 done_k. j < i \<and> i \<le> n \<and> (\<forall>a. a < p0 \<or> p0 + n \<le> a \<longrightarrow> m a = c_mem c a) \<and> done_k = (if i < k then i else k) \<and>
    http_parse_request_line M r0 (b0\<lparr>b_last := p0 + i\<rparr>) = (if i < k then 1 else 0, r2, b0\<lparr>b_pos := p0 + done_k, b_last := p0 + i\<rparr>) \<and>
    (k \<le> i \<longrightarrow> r2 = r') \<and>
    (let c2 = c\<lparr>c_mem := m, c_req := put_header (b0\<lparr>b_pos := p0 + done_k, b_last := p0 + i\<rparr>) r2, c_world := w\<rparr> in
      http_process_request_line recv c = (if i < k then http_process_request_line recv c2 else Some (0, c2)) \<and> in_stream recv M p0 (p0 + n) c2)"
proof -
  let ?b = "conn_buf c"
  have lim: "p0 + n < 2 ^ 64" using strm by (auto simp: in_stream_def Let_def buffer_wf_def)
  have last: "b_last ?b = p0 + j" "b_pos ?b = p0 + j" using buf by simp_all
  with j have "b_last ?b < p0 + n" by simp
  from strm this obtain m l w where
    step: "recv_step recv c = (0, c\<lparr>c_mem := m, c_req := put_header (?b\<lparr>b_last := l\<rparr>) (c_req c), c_world := w\<rparr>)"
    and l: "b_last ?b < l" "l \<le> p0 + n"
    and st: "in_stream recv M p0 (p0 + n) (c\<lparr>c_mem := m, c_req := put_header (?b\<lparr>b_last := l\<rparr>) (c_req c), c_world := w\<rparr>)"
    and out: "\<And>a. a < b_last ?b \<or> p0 + n \<le> a \<Longrightarrow> m a = c_mem c a"
    by (rule in_stream_recv) blast
  define i where "i = l - p0"
  have i: "l = p0 + i" "j < i" "i \<le> n" using l last by (simp_all add: i_def)
  let ?c1 = "c\<lparr>c_mem := m, c_req := put_header (?b\<lparr>b_last := l\<rparr>) (c_req c), c_world := w\<rparr>" and ?k = "if i < k then i else k"
  have buf1: "conn_buf ?c1 = b0\<lparr>b_pos := p0 + j, b_last := p0 + i\<rparr>" using buf i by (simp add: put_header_def)
  have "put_header x (c_req c) = put_header x r" for x by (subst req) simp
  then have req1: "c_req ?c1 = put_header (conn_buf ?c1) r" by simp
  have mem: "m a = M a" if "p0 \<le> a" "a < p0 + i" for a using st that i by (simp add: in_stream_def Let_def)
  have lim2: "p0 + i < 2 ^ 64" using lim i by simp
  from line_prefix [OF fresh b0 lim whole i(3)] obtain r2 where
    r2: "http_parse_request_line M r0 (b0\<lparr>b_last := p0 + i\<rparr>) = (if i < k then 1 else 0, r2, b0\<lparr>b_pos := p0 + ?k, b_last := p0 + i\<rparr>)"
    and fin: "k \<le> i \<longrightarrow> r2 = r'" by (cases "i < k") auto
  have p: "http_parse_request_line m r (b0\<lparr>b_pos := p0 + j, b_last := p0 + i\<rparr>) = (if i < k then 1 else 0, r2, b0\<lparr>b_pos := p0 + ?k, b_last := p0 + i\<rparr>)"
    by (rule parse_line_1 [OF fresh b0 wf _ _ lim2 mem so_far r2]) (use i in auto)
  have fd: "r_fd r2 = r_fd (c_req c)"
    using parse_line_rest [OF r2] parse_line_rest [OF so_far] arg_cong [OF req, of r_fd] by (simp add: line_rest_def)
  let ?c2 = "c\<lparr>c_mem := m, c_req := put_header (b0\<lparr>b_pos := p0 + ?k, b_last := p0 + i\<rparr>) r2, c_world := w\<rparr>"
  have "http_process_request_line recv c = (if i < k then http_process_request_line recv ?c2 else Some (0, ?c2))"
    using step p buf1 req1 unfolding http_process_request_line.simps [of recv c]
    by (cases "i < k") (simp_all add: parse_line_header, simp_all add: put_header_def conn_swap)
  moreover have "in_stream recv M p0 (p0 + n) ?c2"
    using in_stream_put [OF st, of r2 "p0 + ?k"] fd i last j(1) by (simp add: buf buffer_swap conn_swap)
  moreover have "\<forall>a. a < p0 \<or> p0 + n \<le> a \<longrightarrow> m a = c_mem c a" using out last by auto
  ultimately show ?thesis using i r2 fin unfolding Let_def by blast
qed

lemma line_delivered:
  assumes fresh: "line_fresh r0" and b0: "b_pos b0 = p0"
    and whole: "http_parse_request_line M r0 (b0\<lparr>b_last := p0 + n\<rparr>) = (0, r', b0\<lparr>b_pos := p0 + k, b_last := p0 + n\<rparr>)"
  shows "in_stream recv M p0 (p0 + n) c \<Longrightarrow> conn_buf c = b0\<lparr>b_pos := p0 + j, b_last := p0 + j\<rparr> \<Longrightarrow> j < k \<Longrightarrow> j \<le> n \<Longrightarrow> k \<le> n \<Longrightarrow>
    buffer_wf (b0\<lparr>b_last := p0 + j\<rparr>) \<Longrightarrow>
    http_parse_request_line M r0 (b0\<lparr>b_last := p0 + j\<rparr>) = (1, r, b0\<lparr>b_pos := p0 + j, b_last := p0 + j\<rparr>) \<Longrightarrow>
    c_req c = put_header (conn_buf c) r \<Longrightarrow>
    \<exists>m i w. http_process_request_line recv c = Some (0, c\<lparr>c_mem := m,
        c_req := put_header (b0\<lparr>b_pos := p0 + k, b_last := p0 + i\<rparr>) r', c_world := w\<rparr>) \<and> k \<le> i \<and> i \<le> n \<and>
      in_stream recv M p0 (p0 + n) (c\<lparr>c_mem := m, c_req := put_header (b0\<lparr>b_pos := p0 + k, b_last := p0 + i\<rparr>) r', c_world := w\<rparr>) \<and>
      (\<forall>a. a < p0 \<or> p0 + n \<le> a \<longrightarrow> m a = c_mem c a)"
proof (induction "n - j" arbitrary: c j r rule: less_induct)
  case less
  from line_piece [OF fresh b0 whole less.prems] obtain m i w r2 kk where
    i: "j < i" "i \<le> n" "\<forall>a. a < p0 \<or> p0 + n \<le> a \<longrightarrow> m a = c_mem c a" and kk: "kk = (if i < k then i else k)"
    and r2: "http_parse_request_line M r0 (b0\<lparr>b_last := p0 + i\<rparr>) = (if i < k then 1 else 0, r2, b0\<lparr>b_pos := p0 + kk, b_last := p0 + i\<rparr>)"
    and fin: "k \<le> i \<longrightarrow> r2 = r'"
    and run: "let c2 = c\<lparr>c_mem := m, c_req := put_header (b0\<lparr>b_pos := p0 + kk, b_last := p0 + i\<rparr>) r2, c_world := w\<rparr> in
      http_process_request_line recv c = (if i < k then http_process_request_line recv c2 else Some (0, c2)) \<and> in_stream recv M p0 (p0 + n) c2" by blast
  show ?case
  proof (cases "i < k")
    case False
    with run kk fin i show ?thesis by (intro exI [of _ m] exI [of _ i] exI [of _ w]) (simp add: Let_def)
  next
    case True
    define c2 where "c2 = c\<lparr>c_mem := m, c_req := put_header (b0\<lparr>b_pos := p0 + i, b_last := p0 + i\<rparr>) r2, c_world := w\<rparr>"
    have run2: "http_process_request_line recv c = http_process_request_line recv c2" "in_stream recv M p0 (p0 + n) c2"
      using run True kk by (simp_all add: c2_def Let_def)
    have "\<exists>m' i' w'. http_process_request_line recv c2 = Some (0, c2\<lparr>c_mem := m',
        c_req := put_header (b0\<lparr>b_pos := p0 + k, b_last := p0 + i'\<rparr>) r', c_world := w'\<rparr>) \<and> k \<le> i' \<and> i' \<le> n \<and>
      in_stream recv M p0 (p0 + n) (c2\<lparr>c_mem := m', c_req := put_header (b0\<lparr>b_pos := p0 + k, b_last := p0 + i'\<rparr>) r', c_world := w'\<rparr>) \<and>
      (\<forall>a. a < p0 \<or> p0 + n \<le> a \<longrightarrow> m' a = c_mem c2 a)"
    proof (rule less.hyps [OF _ run2(2)])
      show "buffer_wf (b0\<lparr>b_last := p0 + i\<rparr>)"
        using less.prems(1,2,6) i by (simp add: buffer_wf_def in_stream_def Let_def)
    qed (use i True kk less.prems(5) r2 in \<open>auto simp: c2_def\<close>)
    with run2(1) i(3) show ?thesis by (auto simp: c2_def)
  qed
qed

subsection \<open>A header line\<close>

text \<open>What the header parser keeps of the request line.\<close>

definition line_part :: "http_request \<Rightarrow> http_method \<times> str_t \<times> int \<times> str_t" where
  "line_part r = (r_method r, r_uri r, r_content_len r, r_host r)"

lemma line_part_header [simp]: "line_part (put_header x r) = line_part r"
  by (simp add: line_part_def put_header_def)

lemma hd_switch_line_part: "hd_req (hd_switch p ch (st, hash, i, r)) = Some r' \<Longrightarrow> line_part r' = line_part r"
  by (cases st) (auto simp: hd_switch_def hd_defs end_name_def end_value_def line_part_def Let_def split: if_splits)

lemma scan_hd_line_part:
  "hd_req (scan hd_switch p cs (st, hash, i, r)) = Some r' \<Longrightarrow> line_part r' = line_part r"
proof (induction cs arbitrary: p st hash i r)
  case (Cons c cs)
  show ?case
  proof (cases "hd_switch p c (st, hash, i, r)")
    case (Cont s)
    obtain st1 hash1 i1 r1 where s: "s = (st1, hash1, i1, r1)" by (metis prod.exhaust)
    with Cons Cont hd_switch_line_part [of p c st hash i r r1] show ?thesis by simp
  next
    case (Stop out)
    with Cons.prems hd_switch_line_part [of p c st hash i r r'] show ?thesis by simp
  qed
qed simp

lemma parse_header_line_part:
  assumes "http_parse_request_header m r b = Ret (ret, r', b')"
  shows "line_part r' = line_part r"
proof (cases "hd_decode (r_state r)")
  case (Some st)
  note fr = scan_hd_line_part [of "b_pos b" "pending m b" st "r_header_hash r" "r_lowcase_index r" r]
  let ?s = "scan hd_switch (b_pos b) (pending m b) (st, r_header_hash r, r_lowcase_index r, r)"
  have put: "line_part (r1\<lparr>r_state := x, r_header_hash := y, r_lowcase_index := z\<rparr>) = line_part r1"
    "line_part (r1\<lparr>r_state := x\<rparr>) = line_part r1" for r1 x y z by (simp_all add: line_part_def)
  from assms Some fr show ?thesis
    by (cases ?s rule: hd_req.cases) (auto simp: http_parse_request_header_def put)
qed (use assms in \<open>simp add: http_parse_request_header_def\<close>)

lemma parse_header_mem:
  assumes "\<And>a. b_pos b \<le> a \<Longrightarrow> a < b_last b \<Longrightarrow> m a = m' a"
  shows "http_parse_request_header m r b = http_parse_request_header m' r b"
proof -
  have "pending m b = pending m' b" unfolding pending_def using assms by (intro bytes_at_cong) auto
  then show ?thesis unfolding http_parse_request_header_def by (simp only:)
qed

text \<open>A parse that completes a line stops the scan at its last byte, and is the same with fewer or more bytes behind it.\<close>

lemma header_parse_stops:
  assumes st: "r_state r0 = 0" and pos: "b_pos b0 = p0" and lim: "p0 + n < 2 ^ 64"
    and whole: "http_parse_request_header M r0 (b0\<lparr>b_last := p0 + n\<rparr>) = Ret (ret, r', b0\<lparr>b_pos := p0 + k, b_last := p0 + n\<rparr>)"
    and ret: "ret = 0 \<or> ret = 100"
  obtains out q where "scan hd_switch p0 (bytes_at M p0 n) (H_start, r_header_hash r0, r_lowcase_index r0, r0) = Stop out" "Suc q = p0 + k"
    "\<And>p. hd_leaves False M p0 p out \<Longrightarrow> p = q"
    "\<And>j. scan hd_switch p0 (bytes_at M p0 j) (H_start, r_header_hash r0, r_lowcase_index r0, r0) = Stop out \<Longrightarrow>
       http_parse_request_header M r0 (b0\<lparr>b_last := p0 + j\<rparr>) = Ret (ret, r', b0\<lparr>b_pos := p0 + k, b_last := p0 + j\<rparr>)"
proof -
  let ?s = "(H_start, r_header_hash r0, r_lowcase_index r0, r0)"
  have dec: "hd_decode (r_state r0) = Some H_start" using st by simp
  have inv: "hd_inv False M p0 p0 ?s" by (simp add: hd_inv.simps)
  have pend: "pending M (b0\<lparr>b_last := p0 + i\<rparr>) = bytes_at M p0 i" for i by (simp add: pending_def pos)
  note def = http_parse_request_header_def
  show ?thesis
  proof (cases "scan hd_switch p0 (bytes_at M p0 n) ?s")
    case (Cont s)
    with whole dec ret show ?thesis by (cases s) (auto simp: def pend pos)
  next
    case (Stop out)
    show ?thesis
    proof (cases out)
      case (HFail e r1)
      with hd.scan_leaves [OF Stop inv] lim have "e < 0" by auto
      with whole dec ret Stop HFail show ?thesis by (auto simp: def pend pos)
    next
      case HUB
      with whole dec Stop show ?thesis by (simp add: def pend pos)
    next
      case (HDone q hash i r1)
      with whole dec Stop have w: "ret = 0" "r' = r1\<lparr>r_state := 0, r_header_hash := hash, r_lowcase_index := i\<rparr>"
        "b0\<lparr>b_pos := p0 + k, b_last := p0 + n\<rparr> = b0\<lparr>b_pos := Suc q, b_last := p0 + n\<rparr>"
        by (simp_all add: def pend pos buffer_swap)
      from arg_cong [OF w(3), of b_pos] have "Suc q = p0 + k" by simp
      with Stop HDone dec w show ?thesis by (intro that [of out q]) (auto simp: def pend pos buffer_swap)
    next
      case (HHeader_done q r1)
      with whole dec Stop have w: "ret = 100" "r' = r1\<lparr>r_state := 0\<rparr>"
        "b0\<lparr>b_pos := p0 + k, b_last := p0 + n\<rparr> = b0\<lparr>b_pos := Suc q, b_last := p0 + n\<rparr>"
        by (simp_all add: def pend pos buffer_swap)
      from arg_cong [OF w(3), of b_pos] have "Suc q = p0 + k" by simp
      with Stop HHeader_done dec w show ?thesis by (intro that [of out q]) (auto simp: def pend pos buffer_swap)
    qed
  qed
qed

lemma header_prefix:
  assumes st: "r_state r0 = 0" and pos: "b_pos b0 = p0" and lim: "p0 + n < 2 ^ 64"
    and whole: "http_parse_request_header M r0 (b0\<lparr>b_last := p0 + n\<rparr>) = Ret (ret, r', b0\<lparr>b_pos := p0 + k, b_last := p0 + n\<rparr>)"
    and ret: "ret = 0 \<or> ret = 100" and j: "j \<le> n"
  shows "j < k \<Longrightarrow> \<exists>r1. http_parse_request_header M r0 (b0\<lparr>b_last := p0 + j\<rparr>) = Ret (1, r1, b0\<lparr>b_pos := p0 + j, b_last := p0 + j\<rparr>)"
    and "k \<le> j \<Longrightarrow> http_parse_request_header M r0 (b0\<lparr>b_last := p0 + j\<rparr>) = Ret (ret, r', b0\<lparr>b_pos := p0 + k, b_last := p0 + j\<rparr>)"
proof -
  let ?s = "(H_start, r_header_hash r0, r_lowcase_index r0, r0)"
  let ?scan = "\<lambda>j. scan hd_switch p0 (bytes_at M p0 j) ?s"
  have inv: "hd_inv False M p0 p0 ?s" by (simp add: hd_inv.simps)
  obtain out q where full: "?scan n = Stop out" and q: "Suc q = p0 + k"
    and at: "\<And>p. hd_leaves False M p0 p out \<Longrightarrow> p = q"
    and fin: "\<And>j. ?scan j = Stop out \<Longrightarrow> http_parse_request_header M r0 (b0\<lparr>b_last := p0 + j\<rparr>) = Ret (ret, r', b0\<lparr>b_pos := p0 + k, b_last := p0 + j\<rparr>)"
    by (rule header_parse_stops [OF st pos lim whole ret]) (rule that)
  have rd: "M (p + i) = bytes_at M p l ! i" if "i < length (bytes_at M p l)" for p l i using that by simp
  have split: "bytes_at M p0 n = bytes_at M p0 j @ bytes_at M (p0 + j) (n - j)"
    using bytes_at_add [of M p0 j "n - j"] j by simp
  show "\<exists>r1. http_parse_request_header M r0 (b0\<lparr>b_last := p0 + j\<rparr>) = Ret (1, r1, b0\<lparr>b_pos := p0 + j, b_last := p0 + j\<rparr>)" if "j < k"
  proof (cases "?scan j")
    case (Cont s)
    then show ?thesis using st by (cases s) (simp add: http_parse_request_header_def pending_def pos buffer_swap)
  next
    case (Stop out')
    with full split have stop: "?scan j = Stop out" by (simp add: scan_append)
    from hd.scan_leaves [OF stop inv rd] lim j obtain p where "p < p0 + j" "hd_leaves False M p0 p out" by auto
    with at q that show ?thesis by fastforce
  qed
  show "http_parse_request_header M r0 (b0\<lparr>b_last := p0 + j\<rparr>) = Ret (ret, r', b0\<lparr>b_pos := p0 + k, b_last := p0 + j\<rparr>)" if "k \<le> j"
  proof (cases "?scan j")
    case (Cont s)
    from hd.scan_keeps [OF Cont inv rd] lim j have inv2: "hd_inv False M p0 (p0 + j) s" by simp
    have sc: "scan hd_switch (p0 + j) (bytes_at M (p0 + j) (n - j)) s = Stop out"
      using full split Cont by (simp add: scan_append)
    from hd.scan_leaves [OF sc inv2 rd] lim j obtain p where "p0 + j \<le> p" "hd_leaves False M p0 p out" by auto
    with at q that show ?thesis by fastforce
  next
    case (Stop out')
    with full split have "?scan j = Stop out" by (simp add: scan_append)
    with fin show ?thesis by simp
  qed
qed

text \<open>What the loop of \<open>http_process_request_header\<close> does after a complete line.\<close>

definition header_next ::
  "'w recv_fun \<Rightarrow> header_env \<Rightarrow> 'w conn \<Rightarrow> (int \<times> 'w conn) cres option" where
  "header_next recv env c =
     (case handle_http_request_header env (c_mem c) (c_req c) of
        None \<Rightarrow> None
      | Some UB \<Rightarrow> Some UB | Some Abort \<Rightarrow> Some Abort | Some (Exit e) \<Rightarrow> Some (Exit e)
      | Some (Ret (e, m, r)) \<Rightarrow>
          let c2 = c\<lparr>c_mem := m, c_req := r\<rparr> in
          if e \<noteq> 0 then Some (Ret (-1, c2)) else http_process_request_header recv env c2)"

lemma process_header_line:
  assumes "http_parse_request_header (c_mem c) (c_req c) (conn_buf c) = Ret (ret, r, b)" "ret = 0 \<or> ret = 100"
  shows "http_process_request_header recv env c =
    (if ret = 0 then header_next recv env (c\<lparr>c_req := r\<lparr>r_header := b\<rparr>\<rparr>) else Some (Ret (0, c\<lparr>c_req := r\<lparr>r_header := b\<rparr>\<rparr>)))"
  using assms by (subst http_process_request_header.simps) (auto simp: header_next_def Let_def)

lemma resumesD:
  assumes "resumes (Ret (ret, r, b)) x"
  obtains r' b' where "x = Ret (ret, r', b')" "0 \<le> ret \<Longrightarrow> b' = b" "ret = 0 \<or> ret = 1 \<Longrightarrow> r' = r"
  using assms by (cases x) (auto simp: resumes_def split: prod.splits)

lemma resumes_refl: "x = Ret y \<Longrightarrow> resumes x x"
  by (cases y) (simp add: resumes_def)

text \<open>The parser on a request structure whose buffer is set from outside.\<close>

lemma parse_header_put:
  assumes "c_req c = put_header (conn_buf c) r"
  shows "http_parse_request_header (c_mem c) (c_req c) (conn_buf c) =
    cbind (http_parse_request_header (c_mem c) r (conn_buf c)) (\<lambda>(ret, r', b'). Ret (ret, put_header (conn_buf c) r', b'))"
  using parse_header_header [of "c_mem c" "conn_buf c" r "conn_buf c"] assms by simp

text \<open>While the line is incomplete the loop receives more of it and parses on.\<close>

lemma header_piece_waits:
  assumes st: "r_state r0 = 0" and b0: "b_pos b0 = p0"
    and whole: "http_parse_request_header M r0 (b0\<lparr>b_last := p0 + n\<rparr>) = Ret (ret, r', b0\<lparr>b_pos := p0 + k, b_last := p0 + n\<rparr>)"
    and ret: "ret = 0 \<or> ret = 100"
    and strm: "in_stream recv M p0 (p0 + n) c" and buf: "conn_buf c = b0\<lparr>b_pos := q, b_last := p0 + i\<rparr>" and i: "i \<le> n" "k \<le> n"
    and res: "resumes (http_parse_request_header M r0 (b0\<lparr>b_last := p0 + i\<rparr>)) (http_parse_request_header (c_mem c) r (conn_buf c))"
    and req: "c_req c = put_header (conn_buf c) r" and line: "line_part r = line_part r0" and more: "i < k"
  shows "\<exists>i2 r1 m w. let c2 = c\<lparr>c_mem := m, c_req := put_header (b0\<lparr>b_pos := p0 + i, b_last := p0 + i2\<rparr>) r1, c_world := w\<rparr> in
    http_process_request_header recv env c = http_process_request_header recv env c2 \<and> i < i2 \<and> i2 \<le> n \<and> in_stream recv M p0 (p0 + n) c2 \<and>
    resumes (http_parse_request_header M r0 (b0\<lparr>b_last := p0 + i2\<rparr>)) (http_parse_request_header (c_mem c2) r1 (conn_buf c2)) \<and>
    line_part r1 = line_part r0 \<and> r_fd r1 = r_fd (c_req c) \<and> (\<forall>a. a < p0 \<or> p0 + n \<le> a \<longrightarrow> m a = c_mem c a)"
proof -
  let ?b1 = "b0\<lparr>b_pos := p0 + i, b_last := p0 + i\<rparr>"
  have lim: "p0 + n < 2 ^ 64" and q: "q \<le> p0 + i" "p0 \<le> q" using strm buf by (auto simp: in_stream_def Let_def buffer_wf_def)
  from arg_cong [OF req, of r_fd] have fd0: "r_fd (c_req c) = r_fd r" by simp
  from header_prefix(1) [OF st b0 lim whole ret i(1) more] obtain r1 where
    one: "http_parse_request_header M r0 (b0\<lparr>b_last := p0 + i\<rparr>) = Ret (1, r1, ?b1)" by blast
  from res one have act: "http_parse_request_header (c_mem c) r (conn_buf c) = Ret (1, r1, ?b1)" by (auto elim: resumesD)
  note rest = parse_header_rest [OF act]
  define c1 where "c1 = c\<lparr>c_req := put_header ?b1 r1\<rparr>"
  have st1: "in_stream recv M p0 (p0 + n) c1"
    using in_stream_put [OF strm, of r1 "p0 + i"] rest(1) fd0 q by (simp add: c1_def buf buffer_swap)
  have buf1: "conn_buf c1 = ?b1" by (simp add: c1_def)
  have lt: "b_last (conn_buf c1) < p0 + n" using more i(2) by (simp add: buf1)
  from st1 lt obtain m l w where
    step: "recv_step recv c1 = (0, c1\<lparr>c_mem := m, c_req := put_header ((conn_buf c1)\<lparr>b_last := l\<rparr>) (c_req c1), c_world := w\<rparr>)"
    and l: "b_last (conn_buf c1) < l" "l \<le> p0 + n"
    and st2: "in_stream recv M p0 (p0 + n) (c1\<lparr>c_mem := m, c_req := put_header ((conn_buf c1)\<lparr>b_last := l\<rparr>) (c_req c1), c_world := w\<rparr>)"
    and out: "\<And>a. a < b_last (conn_buf c1) \<or> p0 + n \<le> a \<Longrightarrow> m a = c_mem c1 a"
    by (rule in_stream_recv) blast
  define i2 where "i2 = l - p0"
  have i2: "l = p0 + i2" "i < i2" "i2 \<le> n" using l by (simp_all add: i2_def buf1)
  define c2 where "c2 = c\<lparr>c_mem := m, c_req := put_header (b0\<lparr>b_pos := p0 + i, b_last := p0 + i2\<rparr>) r1, c_world := w\<rparr>"
  have c2: "c2 = c1\<lparr>c_mem := m, c_req := put_header ((conn_buf c1)\<lparr>b_last := l\<rparr>) (c_req c1), c_world := w\<rparr>" by (simp add: c2_def c1_def i2(1))
  have mem: "m a = M a" if "p0 \<le> a" "a < p0 + i2" for a using st2 that by (simp add: in_stream_def Let_def i2(1))
  have "http_parse_request_header m r0 (b0\<lparr>b_last := p0 + i2\<rparr>) = http_parse_request_header M r0 (b0\<lparr>b_last := p0 + i2\<rparr>)"
    by (rule parse_header_mem) (use mem b0 in simp)
  moreover have "resumes (http_parse_request_header m r0 (b0\<lparr>b_last := p0 + i, b_last := p0 + i2\<rparr>))
      (http_parse_request_header m r1 (?b1\<lparr>b_last := p0 + i2\<rparr>))"
    by (rule parse_header_resume [OF _ _ _ _ one, of H_start]) (use st mem b0 i2 in auto)
  ultimately have res2: "resumes (http_parse_request_header M r0 (b0\<lparr>b_last := p0 + i2\<rparr>)) (http_parse_request_header (c_mem c2) r1 (conn_buf c2))"
    by (simp add: c2_def)
  have loop: "http_process_request_header recv env c = http_process_request_header recv env c2"
    using act parse_header_put [OF req] step unfolding http_process_request_header.simps [of recv env c] c2
    by (simp add: Let_def c1_def put_header_def [of ?b1]) (simp add: put_header_def)
  have "line_part r1 = line_part r0" using parse_header_line_part [OF act] line by simp
  moreover have "m a = c_mem c a" if "a < p0 \<or> p0 + n \<le> a" for a using out [of a] that by (auto simp: c1_def)
  ultimately show ?thesis using loop i2(2,3) st2 res2 rest(1) fd0 unfolding c2 [symmetric]
    by (intro exI [of _ i2] exI [of _ r1] exI [of _ m] exI [of _ w]) (simp add: c2_def [symmetric])
qed

text \<open>Once the line is complete the loop goes on with it, or ends.\<close>

lemma header_piece_completes:
  assumes st: "r_state r0 = 0" and b0: "b_pos b0 = p0"
    and whole: "http_parse_request_header M r0 (b0\<lparr>b_last := p0 + n\<rparr>) = Ret (ret, r', b0\<lparr>b_pos := p0 + k, b_last := p0 + n\<rparr>)"
    and ret: "ret = 0 \<or> ret = 100"
    and strm: "in_stream recv M p0 (p0 + n) c" and buf: "conn_buf c = b0\<lparr>b_pos := q, b_last := p0 + i\<rparr>" and i: "i \<le> n" "k \<le> n"
    and res: "resumes (http_parse_request_header M r0 (b0\<lparr>b_last := p0 + i\<rparr>)) (http_parse_request_header (c_mem c) r (conn_buf c))"
    and req: "c_req c = put_header (conn_buf c) r" and line: "line_part r = line_part r0" and qk: "q \<le> p0 + k" and enough: "k \<le> i"
  shows "\<exists>r2. let c1 = c\<lparr>c_req := put_header (b0\<lparr>b_pos := p0 + k, b_last := p0 + i\<rparr>) r2\<rparr> in
    http_process_request_header recv env c = (if ret = 0 then header_next recv env c1 else Some (Ret (0, c1))) \<and>
    (ret = 0 \<longrightarrow> r2 = r') \<and> line_part r2 = line_part r0 \<and> r_fd r2 = r_fd (c_req c) \<and> in_stream recv M p0 (p0 + n) c1"
proof -
  let ?b = "conn_buf c" and ?b1 = "b0\<lparr>b_pos := p0 + k, b_last := p0 + i\<rparr>"
  have lim: "p0 + n < 2 ^ 64" and q: "q \<le> p0 + i" "p0 \<le> q" using strm buf by (auto simp: in_stream_def Let_def buffer_wf_def)
  from arg_cong [OF req, of r_fd] have fd0: "r_fd (c_req c) = r_fd r" by simp
  from header_prefix(2) [OF st b0 lim whole ret i(1) enough] res ret obtain r2 where
    act: "http_parse_request_header (c_mem c) r ?b = Ret (ret, r2, ?b1)" and r2: "ret = 0 \<longrightarrow> r2 = r'" by (auto elim!: resumesD)
  note rest = parse_header_rest [OF act]
  let ?c1 = "c\<lparr>c_req := put_header ?b1 r2\<rparr>"
  have "http_parse_request_header (c_mem c) (c_req c) ?b = Ret (ret, put_header ?b r2, ?b1)" using act parse_header_put [OF req] by simp
  moreover have "(put_header ?b r2)\<lparr>r_header := ?b1\<rparr> = put_header ?b1 r2" by (simp add: put_header_def)
  ultimately have "http_process_request_header recv env c = (if ret = 0 then header_next recv env ?c1 else Some (Ret (0, ?c1)))"
    using process_header_line [of c ret "put_header ?b r2" ?b1 recv env] ret by simp
  moreover have "in_stream recv M p0 (p0 + n) ?c1"
    using in_stream_put [OF strm, of r2 "p0 + k"] rest(1) fd0 q qk enough by (simp add: buf buffer_swap)
  ultimately show ?thesis using r2 rest(1) parse_header_line_part [OF act] fd0 line unfolding Let_def by (intro exI [of _ r2]) simp
qed

lemma header_delivered:
  assumes st: "r_state r0 = 0" and b0: "b_pos b0 = p0"
    and whole: "http_parse_request_header M r0 (b0\<lparr>b_last := p0 + n\<rparr>) = Ret (ret, r', b0\<lparr>b_pos := p0 + k, b_last := p0 + n\<rparr>)"
    and ret: "ret = 0 \<or> ret = 100"
  shows "in_stream recv M p0 (p0 + n) c \<Longrightarrow> conn_buf c = b0\<lparr>b_pos := q, b_last := p0 + i\<rparr> \<Longrightarrow> i \<le> n \<Longrightarrow> k \<le> n \<Longrightarrow>
    resumes (http_parse_request_header M r0 (b0\<lparr>b_last := p0 + i\<rparr>)) (http_parse_request_header (c_mem c) r (conn_buf c)) \<Longrightarrow>
    c_req c = put_header (conn_buf c) r \<Longrightarrow> line_part r = line_part r0 \<Longrightarrow> b_start b0 \<le> p0 \<Longrightarrow> q \<le> p0 + k \<Longrightarrow>
    \<exists>m i w r2. let c1 = c\<lparr>c_mem := m, c_req := put_header (b0\<lparr>b_pos := p0 + k, b_last := p0 + i\<rparr>) r2, c_world := w\<rparr> in
      http_process_request_header recv env c = (if ret = 0 then header_next recv env c1 else Some (Ret (0, c1))) \<and>
      (ret = 0 \<longrightarrow> r2 = r') \<and> line_part r2 = line_part r0 \<and> r_fd r2 = r_fd (c_req c) \<and> k \<le> i \<and> i \<le> n \<and>
      in_stream recv M p0 (p0 + n) c1 \<and> (\<forall>a. a < p0 \<or> p0 + n \<le> a \<longrightarrow> m a = c_mem c a)"
proof (induction "n - i" arbitrary: c i r q rule: less_induct)
  case less
  note fixed = st b0 whole ret less.prems(1-7)
  show ?case
  proof (cases "i < k")
    case True
    from header_piece_waits [OF fixed True, of env] obtain i2 r1 m w where
      w: "let c2 = c\<lparr>c_mem := m, c_req := put_header (b0\<lparr>b_pos := p0 + i, b_last := p0 + i2\<rparr>) r1, c_world := w\<rparr> in
        http_process_request_header recv env c = http_process_request_header recv env c2 \<and> i < i2 \<and> i2 \<le> n \<and> in_stream recv M p0 (p0 + n) c2 \<and>
        resumes (http_parse_request_header M r0 (b0\<lparr>b_last := p0 + i2\<rparr>)) (http_parse_request_header (c_mem c2) r1 (conn_buf c2)) \<and>
        line_part r1 = line_part r0 \<and> r_fd r1 = r_fd (c_req c) \<and> (\<forall>a. a < p0 \<or> p0 + n \<le> a \<longrightarrow> m a = c_mem c a)" by blast
    define c2 where "c2 = c\<lparr>c_mem := m, c_req := put_header (b0\<lparr>b_pos := p0 + i, b_last := p0 + i2\<rparr>) r1, c_world := w\<rparr>"
    note w2 = w [folded c2_def, unfolded Let_def]
    have buf2: "conn_buf c2 = b0\<lparr>b_pos := p0 + i, b_last := p0 + i2\<rparr>" "c_req c2 = put_header (conn_buf c2) r1" by (simp_all add: c2_def)
    have "\<exists>m' i' w' r2. let c3 = c2\<lparr>c_mem := m', c_req := put_header (b0\<lparr>b_pos := p0 + k, b_last := p0 + i'\<rparr>) r2, c_world := w'\<rparr> in
      http_process_request_header recv env c2 = (if ret = 0 then header_next recv env c3 else Some (Ret (0, c3))) \<and>
      (ret = 0 \<longrightarrow> r2 = r') \<and> line_part r2 = line_part r0 \<and> r_fd r2 = r_fd (c_req c2) \<and> k \<le> i' \<and> i' \<le> n \<and>
      in_stream recv M p0 (p0 + n) c3 \<and> (\<forall>a. a < p0 \<or> p0 + n \<le> a \<longrightarrow> m' a = c_mem c2 a)"
      by (rule less.hyps [OF _ _ buf2(1) _ less.prems(4) _ buf2(2) _ less.prems(8)]) (use w2 True less.prems(4) in auto)
    moreover have "c2\<lparr>c_mem := m', c_req := x, c_world := w'\<rparr> = c\<lparr>c_mem := m', c_req := x, c_world := w'\<rparr>" "r_fd (c_req c2) = r_fd r1" "c_mem c2 = m"
      for m' x w' by (simp_all add: c2_def)
    ultimately show ?thesis using w2 by (simp add: Let_def)
  next
    case False
    then have "k \<le> i" by simp
    from header_piece_completes [OF fixed less.prems(9) this, of env] obtain r2 where
      r2: "let c1 = c\<lparr>c_req := put_header (b0\<lparr>b_pos := p0 + k, b_last := p0 + i\<rparr>) r2\<rparr> in
        http_process_request_header recv env c = (if ret = 0 then header_next recv env c1 else Some (Ret (0, c1))) \<and>
        (ret = 0 \<longrightarrow> r2 = r') \<and> line_part r2 = line_part r0 \<and> r_fd r2 = r_fd (c_req c) \<and> in_stream recv M p0 (p0 + n) c1" by blast
    have "c\<lparr>c_mem := c_mem c, c_req := x, c_world := c_world c\<rparr> = c\<lparr>c_req := x\<rparr>" for x by simp
    with r2 \<open>k \<le> i\<close> less.prems(3) show ?thesis unfolding Let_def
      by (intro exI [of _ "c_mem c"] exI [of _ i] exI [of _ "c_world c"] exI [of _ r2]) simp
  qed
qed

subsection \<open>All header lines\<close>

text \<open>A header as it is sent: name, spaces before the value, value, spaces after it.\<close>

record header_spec =
  hs_name :: "u8 list"
  hs_before :: nat
  hs_value :: "u8 list"
  hs_after :: nat

definition header_text :: "header_spec \<Rightarrow> u8 list" where
  "header_text h = header_line_text (hs_name h) (hs_before h) (hs_value h) (hs_after h) @ [CR, LF]"

definition host_value :: "u8 list \<Rightarrow> bool" where
  "host_value v \<longleftrightarrow> (\<exists>name port. v = name @ port \<and> (\<forall>c \<in> set name. host_byte c) \<and> no_dotdot name \<and>
     strip_dot name \<noteq> [] \<and> port_text port)"

text \<open>A header the server accepts: well-formed, and when its name dispatches to a built-in handler, with a value that
  handler accepts.\<close>

definition header_fine :: "header_spec \<Rightarrow> bool" where
  "header_fine h \<longleftrightarrow> valid_name (hs_name h) \<and> trimmed_value (hs_value h) \<and>
     (hash_key_lc (hs_name h) = host_key \<longrightarrow> host_value (hs_value h)) \<and>
     (hash_key_lc (hs_name h) = content_length_key \<longrightarrow> (\<exists>n > 0. int n \<le> INT_MAX \<and> hs_value h = dec_digits n))"

text \<open>The length the headers announce: the last \<open>Content-Length\<close>, or what was there before.\<close>

fun announced :: "header_spec list \<Rightarrow> int \<Rightarrow> int" where
  "announced [] n = n"
| "announced (h # hs) n =
     announced hs (if hash_key_lc (hs_name h) = content_length_key then dec_value 0 (hs_value h) else n)"

text \<open>The host the headers name: of the last \<open>Host\<close>, without port and trailing dot, in lower case.\<close>

definition host_of :: "u8 list \<Rightarrow> u8 list" where
  "host_of v = map tolower (strip_dot (takeWhile host_byte v))"

fun named_host :: "header_spec list \<Rightarrow> u8 list option \<Rightarrow> u8 list option" where
  "named_host [] x = x"
| "named_host (h # hs) x =
     named_host hs (if hash_key_lc (hs_name h) = host_key then Some (host_of (hs_value h)) else x)"

lemma host_of_text:
  assumes "\<forall>c \<in> set name. host_byte c" "port_text port"
  shows "host_of (name @ port) = map tolower (strip_dot name)"
proof -
  have "takeWhile host_byte (name @ port) = name @ takeWhile host_byte port" using assms(1) by (simp add: takeWhile_append)
  moreover have "takeWhile host_byte port = []" using assms(2) by (auto simp: port_text_def host_byte_def)
  ultimately show ?thesis by (simp add: host_of_def)
qed

lemma host_written:
  assumes "strip_dot name \<noteq> []" "length name \<le> n"
  shows "str_bytes (mem_write m p (map tolower (name @ port))) \<lparr>str_p = p, str_len = length (strip_dot name)\<rparr> =
    map tolower (strip_dot name)" and "length (strip_dot name) \<le> n"
proof -
  let ?m = "mem_write m p (map tolower (name @ port))"
  have "strip_dot name @ drop (length (strip_dot name)) name = name"
    by (subst strip_dot_take) (rule append_take_drop_id)
  then have "map tolower (name @ port) =
      [] @ map tolower (strip_dot name) @ map tolower (drop (length (strip_dot name)) name @ port)"
    by (metis append.assoc append_Nil map_append)
  with bytes_at_mem_write [of m p "map tolower (name @ port)"]
  have "bytes_at ?m p (length name + length port) = [] @ map tolower (strip_dot name) @
      map tolower (drop (length (strip_dot name)) name @ port)" by simp
  from bytes_at_part [OF this]
  show "str_bytes ?m \<lparr>str_p = p, str_len = length (strip_dot name)\<rparr> = map tolower (strip_dot name)" by (simp add: str_bytes_def)
  show "length (strip_dot name) \<le> n" using assms(2) by (auto simp: strip_dot_def)
qed

text \<open>What a header leaves in \<open>r->host\<close>.\<close>

definition host_stored :: "ptr \<Rightarrow> ptr \<Rightarrow> header_spec \<Rightarrow> str_t \<Rightarrow> mem \<Rightarrow> str_t \<Rightarrow> bool" where
  "host_stored lo hi h old m host \<longleftrightarrow>
     (if hash_key_lc (hs_name h) = host_key then str_bytes m host = host_of (hs_value h) \<and> str_in lo hi host else host = old)"

lemma handler_accepts:
  assumes env: "env_default env" and fine: "header_fine h" and inv: "\<not> r_invalid_header r"
    and hash: "r_header_hash r = hash_key_lc (hs_name h)" and val: "str_bytes m (r_header_value r) = hs_value h"
    and slice: "str_opt_in lo hi (r_header_value r)" "hi < 2 ^ 64 - 1"
  shows "\<exists>m' host. handle_http_request_header env m r = Some (Ret (0, m', r\<lparr>r_host := host, r_content_len :=
      (if hash_key_lc (hs_name h) = content_length_key then dec_value 0 (hs_value h) else r_content_len r)\<rparr>)) \<and>
    (\<forall>a. a < lo \<or> hi \<le> a \<longrightarrow> m' a = m a) \<and> host_stored lo hi h (r_host r) m' host"
proof -
  let ?v = "r_header_value r"
  note eq = handle_default [OF env, of m r]
  have len: "str_len ?v < 2 ^ 64 - 1" using slice by (auto simp: str_opt_in_def str_in_def)
  consider "hash_key_lc (hs_name h) = host_key" | "hash_key_lc (hs_name h) = content_length_key"
    | "hash_key_lc (hs_name h) \<noteq> host_key" "hash_key_lc (hs_name h) \<noteq> content_length_key" by blast
  then show ?thesis
  proof cases
    case 1
    with fine obtain name port where v: "hs_value h = name @ port" "\<forall>c \<in> set name. host_byte c" "no_dotdot name"
      "strip_dot name \<noteq> []" "port_text port" by (auto simp: header_fine_def host_value_def)
    note host = http_process_host_text [OF val [unfolded v(1)] v(2-5) len]
    have l: "str_len ?v = length name + length port" using arg_cong [OF val, of length] v(1) by simp
    have "?v \<noteq> str_init" using l v(4) by (auto simp: strip_dot_def)
    then have "\<forall>a. a < lo \<or> hi \<le> a \<longrightarrow> mem_write m (str_p ?v) (map tolower (name @ port)) a = m a"
      using slice(1) l by (auto simp: str_opt_in_def str_in_def intro!: mem_write_out)
    moreover have "host_stored lo hi h (r_host r) (mem_write m (str_p ?v) (map tolower (name @ port)))
        \<lparr>str_p = str_p ?v, str_len = length (strip_dot name)\<rparr>"
      using 1 host_written [OF v(4), of "str_len ?v"] host_of_text [OF v(2,5)] v(1,4) l slice(1) \<open>?v \<noteq> str_init\<close>
      by (auto simp: host_stored_def str_opt_in_def str_in_def)
    ultimately show ?thesis using host 1 eq inv hash keys_differ by auto
  next
    case 2
    with fine obtain n where n: "0 < n" "int n \<le> INT_MAX" "hs_value h = dec_digits n" by (auto simp: header_fine_def)
    from http_process_content_length_digits [of m r n] val n
    have "http_process_content_length m r = Ret (0, m, r\<lparr>r_content_len := int n\<rparr>)" by simp
    moreover have "dec_value 0 (dec_digits n) = int n" by (simp add: dec_value_dec_digits)
    ultimately show ?thesis using 2 eq inv hash keys_differ n(3)
      by (intro exI [of _ m] exI [of _ "r_host r"]) (simp add: host_stored_def)
  next
    case 3
    with eq inv hash show ?thesis by (intro exI [of _ m] exI [of _ "r_host r"]) (simp add: host_stored_def)
  qed
qed

text \<open>One line, from the state in which its first byte is the next to be parsed.\<close>

lemma header_line_from_start:
  assumes strm: "in_stream recv M (b_pos (conn_buf c)) e c" and st: "r_state (c_req c) = 0"
    and whole: "http_parse_request_header M (c_req c) ((conn_buf c)\<lparr>b_last := e\<rparr>) =
      Ret (ret, r', (conn_buf c)\<lparr>b_pos := b_pos (conn_buf c) + k, b_last := e\<rparr>)"
    and ret: "ret = 0 \<or> ret = 100" and k: "b_pos (conn_buf c) + k \<le> e"
  shows "\<exists>c1 r2. http_process_request_header recv env c = (if ret = 0 then header_next recv env c1 else Some (Ret (0, c1))) \<and>
    c_req c1 = put_header (conn_buf c1) r2 \<and> (ret = 0 \<longrightarrow> r2 = r') \<and>
    b_pos (conn_buf c1) = b_pos (conn_buf c) + k \<and> b_start (conn_buf c1) = b_start (conn_buf c) \<and>
    b_end (conn_buf c1) = b_end (conn_buf c) \<and> line_part (c_req c1) = line_part (c_req c) \<and>
    r_fd (c_req c1) = r_fd (c_req c) \<and> c_sent c1 = c_sent c \<and> (\<forall>a < b_pos (conn_buf c). c_mem c1 a = c_mem c a) \<and> in_stream recv M (b_pos (conn_buf c)) e c1"
proof -
  let ?b = "conn_buf c" and ?p = "b_pos (conn_buf c)"
  define n where "n = e - ?p"
  define i where "i = b_last ?b - ?p"
  have ord: "?p \<le> b_last ?b" "b_last ?b \<le> e" "e < 2 ^ 64" "b_start ?b \<le> ?p"
    using strm by (auto simp: in_stream_def Let_def buffer_wf_def)
  then have e: "e = ?p + n" "b_last ?b = ?p + i" "i \<le> n" "k \<le> n" using k by (simp_all add: n_def i_def)
  have b: "?b = ?b\<lparr>b_pos := ?p, b_last := ?p + i\<rparr>" by (simp flip: e(2))
  have whole': "http_parse_request_header M (c_req c) (?b\<lparr>b_last := ?p + n\<rparr>) = Ret (ret, r', ?b\<lparr>b_pos := ?p + k, b_last := ?p + n\<rparr>)"
    using whole by (simp flip: e(1))
  have lim: "?p + n < 2 ^ 64" using ord e(1) by simp
  note pre = header_prefix [OF st refl lim whole' ret e(3)]
  have mem: "http_parse_request_header (c_mem c) (c_req c) ?b = http_parse_request_header M (c_req c) (?b\<lparr>b_last := ?p + i\<rparr>)"
  proof -
    have "http_parse_request_header (c_mem c) (c_req c) ?b = http_parse_request_header M (c_req c) ?b"
      by (rule parse_header_mem) (use strm in \<open>simp add: in_stream_def Let_def\<close>)
    then show ?thesis by (simp flip: e(2))
  qed
  have "\<exists>y. http_parse_request_header M (c_req c) (?b\<lparr>b_last := ?p + i\<rparr>) = Ret y"
    using pre by (cases "i < k") fastforce+
  then have res: "resumes (http_parse_request_header M (c_req c) (?b\<lparr>b_last := ?p + i\<rparr>)) (http_parse_request_header (c_mem c) (c_req c) ?b)"
    unfolding mem using resumes_refl by blast
  have self: "c_req c = put_header ?b (c_req c)" by (simp add: put_header_def)
  from header_delivered [OF st refl whole' ret strm [unfolded e(1)] b e(3,4) res self refl ord(4), of env]
  obtain m j w r2 where run: "let c1 = c\<lparr>c_mem := m, c_req := put_header (?b\<lparr>b_pos := ?p + k, b_last := ?p + j\<rparr>) r2, c_world := w\<rparr> in
      http_process_request_header recv env c = (if ret = 0 then header_next recv env c1 else Some (Ret (0, c1))) \<and>
      (ret = 0 \<longrightarrow> r2 = r') \<and> line_part r2 = line_part (c_req c) \<and> r_fd r2 = r_fd (c_req c) \<and> k \<le> j \<and> j \<le> n \<and>
      in_stream recv M ?p (?p + n) c1 \<and> (\<forall>a. a < ?p \<or> ?p + n \<le> a \<longrightarrow> m a = c_mem c a)"
    by (auto simp: Let_def)
  let ?c1 = "c\<lparr>c_mem := m, c_req := put_header (?b\<lparr>b_pos := ?p + k, b_last := ?p + j\<rparr>) r2, c_world := w\<rparr>"
  from run show ?thesis unfolding Let_def e(1) [symmetric]
    by (intro exI [of _ ?c1] exI [of _ r2]) simp
qed

text \<open>The blank line after the headers.\<close>

lemma parse_header_blank:
  assumes "r_state r = 0" "pending m b = [CR, LF] @ rest"
  shows "\<exists>r'. http_parse_request_header m r b = Ret (100, r', b\<lparr>b_pos := b_pos b + 2\<rparr>)"
  using assms
  by (simp add: http_parse_request_header_def hd_switch_def hd_start_def hd_header_almost_done_def Let_def)

lemma in_stream_later:
  "in_stream recv M p0 e c \<Longrightarrow> p0 \<le> p1 \<Longrightarrow> p1 \<le> b_pos (conn_buf c) \<Longrightarrow> in_stream recv M p1 e c"
  by (simp add: in_stream_def Let_def)

lemma in_stream_handled:
  assumes "in_stream recv M p0 e c" "p0 \<le> p1" "p1 \<le> b_pos (conn_buf c)" "\<forall>a. a < p0 \<or> p1 \<le> a \<longrightarrow> m a = c_mem c a"
  shows "in_stream recv M p1 e (c\<lparr>c_mem := m, c_req := (c_req c)\<lparr>r_host := h, r_content_len := n\<rparr>\<rparr>)"
  using assms by (simp add: in_stream_def Let_def)

text \<open>What stays of a connection while headers are processed, up to the bytes that are still to come.\<close>

definition conn_kept :: "'w conn \<Rightarrow> 'w conn \<Rightarrow> bool" where
  "conn_kept c c' \<longleftrightarrow> b_start (conn_buf c') = b_start (conn_buf c) \<and> b_end (conn_buf c') = b_end (conn_buf c) \<and>
     c_sent c' = c_sent c \<and> r_fd (c_req c') = r_fd (c_req c) \<and> r_method (c_req c') = r_method (c_req c) \<and>
     r_uri (c_req c') = r_uri (c_req c) \<and> (\<forall>a < b_pos (conn_buf c). c_mem c' a = c_mem c a) \<and> b_pos (conn_buf c) \<le> b_pos (conn_buf c')"

lemma conn_kept_trans: "conn_kept c c1 \<Longrightarrow> conn_kept c1 c2 \<Longrightarrow> conn_kept c c2"
  by (simp add: conn_kept_def)

text \<open>What the parser has found of the header \<open>h\<close>.\<close>

definition header_found :: "mem \<Rightarrow> ptr \<Rightarrow> ptr \<Rightarrow> header_spec \<Rightarrow> http_request \<Rightarrow> bool" where
  "header_found M lo hi h r \<longleftrightarrow> str_bytes M (r_header_value r) = hs_value h \<and> str_opt_in lo hi (r_header_value r) \<and>
     r_header_hash r = hash_key_lc (hs_name h) \<and> \<not> r_invalid_header r \<and> r_state r = 0 \<and> lc_array r"

lemma header_text_parsed:
  assumes fine: "header_fine h" and r: "r_state r = 0" "lc_array r" and wf: "buffer_wf (b\<lparr>b_last := e\<rparr>)"
    and inp: "bytes_at M (b_pos b) (e - b_pos b) = header_text h @ rest"
  shows "\<exists>r'. http_parse_request_header M r (b\<lparr>b_last := e\<rparr>) = Ret (0, r', b\<lparr>b_pos := b_pos b + length (header_text h), b_last := e\<rparr>) \<and>
    header_found M (b_pos b) (b_pos b + length (header_text h)) h r'"
proof -
  let ?line = "header_line_text (hs_name h) (hs_before h) (hs_value h) (hs_after h)" and ?p = "b_pos b"
  define k where "k = length (header_text h)"
  have k: "k = length ?line + 2" by (simp add: k_def header_text_def)
  have fine2: "valid_name (hs_name h)" "trimmed_value (hs_value h)" using fine by (simp_all add: header_fine_def)
  have "pending M (b\<lparr>b_last := e\<rparr>) = ?line @ [CR, LF] @ rest" using inp by (simp add: pending_def header_text_def)
  from parse_header_text [OF r wf this fine2] obtain r' where
    whole: "http_parse_request_header M r (b\<lparr>b_last := e\<rparr>) = Ret (0, r', b\<lparr>b_pos := ?p + k, b_last := e\<rparr>)"
    and r': "str_bytes M (r_header_value r') = hs_value h" "r_header_hash r' = hash_key_lc (hs_name h)"
      "\<not> r_invalid_header r'" "r_state r' = 0"
    by (auto simp: k buffer_swap)
  have arr: "lc_array r'" using parse_header_rest [OF whole] r(2) by (simp add: lc_array_def)
  have op: "header_open False M ?p r (b\<lparr>b_last := e\<rparr>)" using header_openI [OF r(1), of False M "b\<lparr>b_last := e\<rparr>"] by simp
  from op wf have "str_opt_in ?p (?p + k) (r_header_value r')"
  proof (cases rule: parse_header_cases)
    case (line q r2)
    with whole have eq: "r2 = r'" "b\<lparr>b_last := e, b_pos := Suc q\<rparr> = b\<lparr>b_pos := ?p + k, b_last := e\<rparr>" by auto
    from arg_cong [OF eq(2), of b_pos] have "Suc q = ?p + k" by simp
    with line(5) eq(1) show ?thesis by (simp add: header_line_ok_def)
  qed (use whole in auto)
  with whole r' arr show ?thesis by (auto simp: header_found_def k_def)
qed

text \<open>The handler runs on what was found.\<close>

lemma found_header_handled:
  assumes env: "env_default env" and fine: "header_fine h" and found: "header_found M lo hi h r'" "hi < 2 ^ 64 - 1" "lo \<le> hi"
    and req: "c_req c = put_header (conn_buf c) r'" and pos: "b_pos (conn_buf c) = hi" and strm: "in_stream recv M lo e c"
  shows "\<exists>m host. let c2 = c\<lparr>c_mem := m, c_req := (c_req c)\<lparr>r_host := host, r_content_len :=
        (if hash_key_lc (hs_name h) = content_length_key then dec_value 0 (hs_value h) else r_content_len (c_req c))\<rparr>\<rparr> in
    header_next recv env c = http_process_request_header recv env c2 \<and> in_stream recv M hi e c2 \<and> (\<forall>a < lo. m a = c_mem c a) \<and>
    r_state (c_req c2) = 0 \<and> lc_array (c_req c2) \<and> host_stored lo hi h (r_host (c_req c)) m host"
proof -
  have sel: "r_header_value (c_req c) = r_header_value r'" "r_header_hash (c_req c) = r_header_hash r'"
    "r_invalid_header (c_req c) = r_invalid_header r'" "r_state (c_req c) = r_state r'"
    "r_lowcase_index (c_req c) = r_lowcase_index r'" "r_lowcase_header (c_req c) = r_lowcase_header r'"
    by (subst req, simp add: put_header_def)+
  have "c_mem c a = M a" if "lo \<le> a" "a < hi" for a using strm that pos by (auto simp: in_stream_def Let_def buffer_wf_def)
  then have "str_bytes (c_mem c) (r_header_value r') = str_bytes M (r_header_value r')"
    using found(1) unfolding str_bytes_def header_found_def by (intro bytes_at_cong) (auto simp: str_opt_in_def str_in_def)
  then have c: "str_bytes (c_mem c) (r_header_value (c_req c)) = hs_value h" "\<not> r_invalid_header (c_req c)"
    "r_header_hash (c_req c) = hash_key_lc (hs_name h)" "str_opt_in lo hi (r_header_value (c_req c))"
    using found(1) sel by (simp_all add: header_found_def)
  let ?n = "if hash_key_lc (hs_name h) = content_length_key then dec_value 0 (hs_value h) else r_content_len (c_req c)"
  from handler_accepts [OF env fine c(2,3,1,4) found(2)] obtain m host where
    h: "handle_http_request_header env (c_mem c) (c_req c) = Some (Ret (0, m, (c_req c)\<lparr>r_host := host, r_content_len := ?n\<rparr>))"
    "\<forall>a. a < lo \<or> hi \<le> a \<longrightarrow> m a = c_mem c a" "host_stored lo hi h (r_host (c_req c)) m host" by blast
  have "in_stream recv M hi e (c\<lparr>c_mem := m, c_req := (c_req c)\<lparr>r_host := host, r_content_len := ?n\<rparr>\<rparr>)"
    using in_stream_handled [OF strm, where ?p1.0 = hi and m = m and h = host and n = ?n] pos h(2) found(3) by simp
  with h found(1) sel show ?thesis
    by (intro exI [of _ m] exI [of _ host]) (simp add: header_next_def Let_def header_found_def lc_array_def)
qed

text \<open>The host read so far lies in the part of the buffer that is parsed.\<close>

definition host_read :: "'w conn \<Rightarrow> u8 list option \<Rightarrow> bool" where
  "host_read c x \<longleftrightarrow> (\<forall>bs. x = Some bs \<longrightarrow> str_bytes (c_mem c) (r_host (c_req c)) = bs \<and>
     str_p (r_host (c_req c)) + str_len (r_host (c_req c)) \<le> b_pos (conn_buf c))"

lemma host_read_bytes:
  assumes "host_read c (Some bs)" "r_host (c_req c') = r_host (c_req c)" "\<forall>a < b_pos (conn_buf c). c_mem c' a = c_mem c a"
  shows "str_bytes (c_mem c') (r_host (c_req c')) = bs"
proof -
  have "str_bytes (c_mem c') (r_host (c_req c)) = str_bytes (c_mem c) (r_host (c_req c))"
    unfolding str_bytes_def using assms(1,3) by (intro bytes_at_cong) (auto simp: host_read_def)
  with assms(1,2) show ?thesis by (simp add: host_read_def)
qed

lemma host_read_keep:
  assumes "host_read c x" "r_host (c_req c') = r_host (c_req c)" "\<forall>a < b_pos (conn_buf c). c_mem c' a = c_mem c a"
    "b_pos (conn_buf c) \<le> b_pos (conn_buf c')"
  shows "host_read c' x"
  using assms host_read_bytes [OF _ assms(2,3)] by (auto simp: host_read_def)

lemma host_read_step:
  assumes "host_read c x" "host_stored lo (b_pos (conn_buf c')) h (r_host (c_req c)) (c_mem c') (r_host (c_req c'))"
    "\<forall>a < b_pos (conn_buf c). c_mem c' a = c_mem c a" "b_pos (conn_buf c) \<le> b_pos (conn_buf c')"
  shows "host_read c' (if hash_key_lc (hs_name h) = host_key then Some (host_of (hs_value h)) else x)"
proof (cases "hash_key_lc (hs_name h) = host_key")
  case True
  with assms(2) show ?thesis by (auto simp: host_read_def host_stored_def str_in_def)
next
  case False
  with assms(2) host_read_keep [OF assms(1) _ assms(3,4)] show ?thesis by (simp add: host_stored_def)
qed

lemma header_handled:
  assumes env: "env_default env" and fine: "header_fine h" and strm: "in_stream recv M (b_pos (conn_buf c)) e c"
    and st: "r_state (c_req c) = 0" and arr: "lc_array (c_req c)" and e: "e < 2 ^ 64 - 1"
    and inp: "bytes_at M (b_pos (conn_buf c)) (e - b_pos (conn_buf c)) = header_text h @ rest"
  shows "\<exists>c2. http_process_request_header recv env c = http_process_request_header recv env c2 \<and>
    in_stream recv M (b_pos (conn_buf c2)) e c2 \<and> r_state (c_req c2) = 0 \<and> lc_array (c_req c2) \<and>
    bytes_at M (b_pos (conn_buf c2)) (e - b_pos (conn_buf c2)) = rest \<and> conn_kept c c2 \<and>
    r_content_len (c_req c2) = (if hash_key_lc (hs_name h) = content_length_key then dec_value 0 (hs_value h) else r_content_len (c_req c)) \<and>
    (\<forall>x. host_read c x \<longrightarrow> host_read c2 (if hash_key_lc (hs_name h) = host_key then Some (host_of (hs_value h)) else x))"
proof -
  let ?b = "conn_buf c" and ?p = "b_pos (conn_buf c)"
  define k where "k = length (header_text h)"
  have len: "e = ?p + k + length rest" using arg_cong [OF inp, of length] by (simp add: k_def header_text_def)
  have wf: "buffer_wf (?b\<lparr>b_last := e\<rparr>)" using strm by (auto simp: in_stream_def Let_def buffer_wf_def)
  from header_text_parsed [OF fine st arr wf inp] obtain r' where
    whole: "http_parse_request_header M (c_req c) (?b\<lparr>b_last := e\<rparr>) = Ret (0, r', ?b\<lparr>b_pos := ?p + k, b_last := e\<rparr>)"
    and found: "header_found M ?p (?p + k) h r'" by (auto simp: k_def)
  have k: "?p + k \<le> e" "?p + k < 2 ^ 64 - 1" using len e by simp_all
  from header_line_from_start [OF strm st whole _ k(1), of env] obtain c1 where
    run: "http_process_request_header recv env c = header_next recv env c1"
    and req: "c_req c1 = put_header (conn_buf c1) r'" and pos: "b_pos (conn_buf c1) = ?p + k" and st1: "in_stream recv M ?p e c1"
    and rest: "b_start (conn_buf c1) = b_start ?b" "b_end (conn_buf c1) = b_end ?b"
      "line_part (c_req c1) = line_part (c_req c)" "r_fd (c_req c1) = r_fd (c_req c)" "c_sent c1 = c_sent c"
      "\<forall>a < ?p. c_mem c1 a = c_mem c a" by auto
  from found_header_handled [OF env fine found k(2) le_add1 req pos st1] obtain m host where
    h: "let c2 = c1\<lparr>c_mem := m, c_req := (c_req c1)\<lparr>r_host := host, r_content_len :=
        (if hash_key_lc (hs_name h) = content_length_key then dec_value 0 (hs_value h) else r_content_len (c_req c1))\<rparr>\<rparr> in
      header_next recv env c1 = http_process_request_header recv env c2 \<and> in_stream recv M (?p + k) e c2 \<and> (\<forall>a < ?p. m a = c_mem c1 a) \<and>
      r_state (c_req c2) = 0 \<and> lc_array (c_req c2) \<and> host_stored ?p (?p + k) h (r_host (c_req c1)) m host" by blast
  have "bytes_at M (?p + k) (e - (?p + k)) = rest"
    using bytes_at_part [of M ?p "e - ?p" "header_text h" rest "[]"] inp len by (simp add: k_def)
  moreover define c2 where "c2 = c1\<lparr>c_mem := m, c_req := (c_req c1)\<lparr>r_host := host, r_content_len :=
    (if hash_key_lc (hs_name h) = content_length_key then dec_value 0 (hs_value h) else r_content_len (c_req c1))\<rparr>\<rparr>"
  moreover have "b_pos (conn_buf c2) = ?p + k" "conn_kept c c2"
    "r_content_len (c_req c2) = (if hash_key_lc (hs_name h) = content_length_key then dec_value 0 (hs_value h) else r_content_len (c_req c))"
    using h rest pos by (simp_all add: c2_def conn_kept_def line_part_def Let_def)
  moreover have "host_read c2 (if hash_key_lc (hs_name h) = host_key then Some (host_of (hs_value h)) else x)" if "host_read c x" for x
    by (rule host_read_step [OF that, of ?p]) (use h rest pos in \<open>simp_all add: c2_def line_part_def Let_def\<close>)
  ultimately show ?thesis using h run unfolding Let_def c2_def [symmetric] by (intro exI [of _ c2]) simp
qed

text \<open>The blank line ends the headers.\<close>

lemma headers_end:
  assumes strm: "in_stream recv M (b_pos (conn_buf c)) e c" and st: "r_state (c_req c) = 0"
    and inp: "bytes_at M (b_pos (conn_buf c)) (e - b_pos (conn_buf c)) = [CR, LF] @ body"
  shows "\<exists>c'. http_process_request_header recv env c = Some (Ret (0, c')) \<and> in_stream recv M (b_pos (conn_buf c')) e c' \<and>
    e = b_pos (conn_buf c') + length body \<and> r_content_len (c_req c') = r_content_len (c_req c) \<and> conn_kept c c' \<and>
    (\<forall>x. host_read c x \<longrightarrow> host_read c' x)"
proof -
  let ?b = "conn_buf c" and ?p = "b_pos (conn_buf c)"
  have "length (bytes_at M ?p (e - ?p)) = 2 + length body" using inp by simp
  then have e: "e = ?p + 2 + length body" by simp
  have "pending M (?b\<lparr>b_last := e\<rparr>) = [CR, LF] @ body" using inp by (simp add: pending_def)
  from parse_header_blank [OF st this] obtain r' where
    whole: "http_parse_request_header M (c_req c) (?b\<lparr>b_last := e\<rparr>) = Ret (100, r', ?b\<lparr>b_pos := ?p + 2, b_last := e\<rparr>)"
    by (auto simp: buffer_swap)
  from e have "?p + 2 \<le> e" by simp
  from header_line_from_start [OF strm st whole _ this, of env] obtain c1 where
    run: "http_process_request_header recv env c = Some (Ret (0, c1))" and pos: "b_pos (conn_buf c1) = ?p + 2"
    and st1: "in_stream recv M ?p e c1"
    and rest: "b_start (conn_buf c1) = b_start ?b" "b_end (conn_buf c1) = b_end ?b"
      "line_part (c_req c1) = line_part (c_req c)" "r_fd (c_req c1) = r_fd (c_req c)" "c_sent c1 = c_sent c"
      "\<forall>a < ?p. c_mem c1 a = c_mem c a" by auto
  have "in_stream recv M (b_pos (conn_buf c1)) e c1" by (rule in_stream_later [OF st1]) (simp_all add: pos)
  moreover have "host_read c1 x" if "host_read c x" for x
    by (rule host_read_keep [OF that]) (use rest pos in \<open>simp_all add: line_part_def\<close>)
  ultimately show ?thesis using run rest e pos by (intro exI [of _ c1]) (simp add: line_part_def conn_kept_def)
qed

lemma headers_delivered:
  assumes env: "env_default env"
  shows "\<forall>h \<in> set hs. header_fine h \<Longrightarrow> in_stream recv M (b_pos (conn_buf c)) e c \<Longrightarrow> r_state (c_req c) = 0 \<Longrightarrow>
    lc_array (c_req c) \<Longrightarrow> e < 2 ^ 64 - 1 \<Longrightarrow>
    bytes_at M (b_pos (conn_buf c)) (e - b_pos (conn_buf c)) = concat (map header_text hs) @ [CR, LF] @ body \<Longrightarrow>
    \<exists>c'. http_process_request_header recv env c = Some (Ret (0, c')) \<and> in_stream recv M (b_pos (conn_buf c')) e c' \<and>
      e = b_pos (conn_buf c') + length body \<and> r_content_len (c_req c') = announced hs (r_content_len (c_req c)) \<and> conn_kept c c' \<and>
      (\<forall>x. host_read c x \<longrightarrow> host_read c' (named_host hs x))"
proof (induction hs arbitrary: c)
  case Nil
  with headers_end [of recv M c e body env] show ?case by simp
next
  case (Cons h hs)
  from Cons.prems(1) have fine: "header_fine h" by simp
  from Cons.prems(6) have "bytes_at M (b_pos (conn_buf c)) (e - b_pos (conn_buf c)) = header_text h @ concat (map header_text hs) @ [CR, LF] @ body" by simp
  from header_handled [OF env fine Cons.prems(2-5) this] obtain c2 where
    c2: "http_process_request_header recv env c = http_process_request_header recv env c2" "in_stream recv M (b_pos (conn_buf c2)) e c2"
      "r_state (c_req c2) = 0" "lc_array (c_req c2)"
      "bytes_at M (b_pos (conn_buf c2)) (e - b_pos (conn_buf c2)) = concat (map header_text hs) @ [CR, LF] @ body" and kept: "conn_kept c c2"
      and len: "r_content_len (c_req c2) = (if hash_key_lc (hs_name h) = content_length_key then dec_value 0 (hs_value h) else r_content_len (c_req c))"
      and host: "\<forall>x. host_read c x \<longrightarrow> host_read c2 (if hash_key_lc (hs_name h) = host_key then Some (host_of (hs_value h)) else x)" by blast
  from Cons.IH [OF _ c2(2-4) Cons.prems(5) c2(5)] Cons.prems(1) obtain c' where
    "http_process_request_header recv env c2 = Some (Ret (0, c'))" "in_stream recv M (b_pos (conn_buf c')) e c'"
    "e = b_pos (conn_buf c') + length body" "r_content_len (c_req c') = announced hs (r_content_len (c_req c2))" "conn_kept c2 c'"
    "\<forall>x. host_read c2 x \<longrightarrow> host_read c' (named_host hs x)" by auto
  with c2(1) len host conn_kept_trans [OF kept] show ?case by (intro exI [of _ c']) simp
qed

subsection \<open>The body\<close>

lemma body_delivered:
  "in_stream recv M p e c \<Longrightarrow> b_pos (conn_buf c) = p \<Longrightarrow> int (e - p) = r_content_len (c_req c) \<Longrightarrow>
    \<exists>c'. http_process_request_body recv c = Some (0, c') \<and> conn_frame c c' \<and>
      str_bytes (c_mem c') (r_content (c_req c')) = bytes_at M p (e - p) \<and>
      line_part (c_req c') = line_part (c_req c) \<and> (\<forall>a < p. c_mem c' a = c_mem c a)"
proof (induction "e - b_last (conn_buf c)" arbitrary: c rule: less_induct)
  case less
  let ?b = "conn_buf c"
  have st: "buffer_wf ?b" "b_pos ?b \<le> b_last ?b" "b_last ?b \<le> e" "e \<le> b_end ?b" "\<And>a. p \<le> a \<Longrightarrow> a < b_last ?b \<Longrightarrow> c_mem c a = M a"
    using less.prems(1) by (auto simp: in_stream_def Let_def buffer_wf_def)
  note unfold = http_process_request_body.simps [of recv c]
  show ?case
  proof (cases "b_last ?b = e")
    case True
    let ?c = "c\<lparr>c_req := (c_req c)\<lparr>r_content := \<lparr>str_p = b_pos ?b, str_len = nat (r_content_len (c_req c))\<rparr>\<rparr>\<rparr>"
    have eq: "int (b_last ?b) - int (b_pos ?b) = r_content_len (c_req c)" using True less.prems(2,3) st by linarith
    then have "http_process_request_body recv c = Some (0, ?c)" by (simp add: unfold Let_def)
    moreover have "conn_frame c ?c" using st by (simp add: conn_frame_def index_ok_def lc_array_def)
    moreover have "nat (r_content_len (c_req c)) = e - p" using less.prems(3) by simp
    moreover have "bytes_at (c_mem c) p (e - p) = bytes_at M p (e - p)"
      using st True by (intro bytes_at_cong) auto
    ultimately show ?thesis using less.prems(2) by (intro exI [of _ ?c]) (simp add: str_bytes_def line_part_def)
  next
    case False
    with st have lt: "b_last ?b < e" by simp
    from less.prems(1) this obtain m l w where
      step: "recv_step recv c = (0, c\<lparr>c_mem := m, c_req := put_header (?b\<lparr>b_last := l\<rparr>) (c_req c), c_world := w\<rparr>)"
      and l: "b_last ?b < l" "l \<le> e"
      and st2: "in_stream recv M p e (c\<lparr>c_mem := m, c_req := put_header (?b\<lparr>b_last := l\<rparr>) (c_req c), c_world := w\<rparr>)"
      and out: "\<And>a. a < b_last ?b \<or> e \<le> a \<Longrightarrow> m a = c_mem c a"
      by (rule in_stream_recv) blast
    let ?c2 = "c\<lparr>c_mem := m, c_req := put_header (?b\<lparr>b_last := l\<rparr>) (c_req c), c_world := w\<rparr>"
    have "int (b_last ?b) - int (b_pos ?b) \<noteq> r_content_len (c_req c)" using lt less.prems(2,3) st by linarith
    then have loop: "http_process_request_body recv c = http_process_request_body recv ?c2"
      using step by (simp add: unfold Let_def)
    have fr: "conn_frame c ?c2"
      using st l out by (auto simp: conn_frame_def buffer_wf_def put_header_def index_ok_def lc_array_def)
    have "\<exists>c'. http_process_request_body recv ?c2 = Some (0, c') \<and> conn_frame ?c2 c' \<and>
        str_bytes (c_mem c') (r_content (c_req c')) = bytes_at M p (e - p) \<and>
        line_part (c_req c') = line_part (c_req ?c2) \<and> (\<forall>a < p. c_mem c' a = c_mem ?c2 a)"
      using l lt less.prems(2,3) by (intro less.hyps [OF _ st2]) (simp_all add: put_header_def)
    then obtain c' where c': "http_process_request_body recv ?c2 = Some (0, c')" "conn_frame ?c2 c'"
      "str_bytes (c_mem c') (r_content (c_req c')) = bytes_at M p (e - p)"
      "line_part (c_req c') = line_part (c_req ?c2)" "\<forall>a < p. c_mem c' a = c_mem ?c2 a" by blast
    moreover have "c_mem c' a = c_mem c a" if "a < p" for a using c'(5) out [of a] that less.prems(2) st by simp
    ultimately show ?thesis using loop conn_frame_trans [OF fr c'(2)] by (intro exI [of _ c']) simp
  qed
qed

subsection \<open>The whole request\<close>

definition request_text :: "u8 list \<Rightarrow> u8 list \<Rightarrow> u8 \<Rightarrow> u8 \<Rightarrow> header_spec list \<Rightarrow> u8 list \<Rightarrow> u8 list" where
  "request_text name path d1 d2 hs body =
     request_line_text name path d1 d2 @ [CR, LF] @ concat (map header_text hs) @ [CR, LF] @ body"

text \<open>A request the server should serve.\<close>

definition request_fine :: "u8 list \<Rightarrow> u8 list \<Rightarrow> u8 \<Rightarrow> u8 \<Rightarrow> header_spec list \<Rightarrow> u8 list \<Rightarrow> bool" where
  "request_fine name path d1 d2 hs body \<longleftrightarrow>
     method_of_name name \<noteq> HTTP_UNKNOWN \<and> (\<forall>c \<in> set path. uri_byte c) \<and>
     is_digit d1 \<and> d1 \<noteq> ch_0 \<and> is_digit d2 \<and> d2 \<noteq> ch_9 \<and>
     (\<forall>h \<in> set hs. header_fine h) \<and> announced hs 0 = int (length body)"

lemma parse_line_nothing:
  assumes "line_fresh r0" "b_last b = b_pos b"
  shows "http_parse_request_line m r0 b = (1, r0, b)"
proof -
  have "r0\<lparr>r_state := 0\<rparr> = r0" using assms(1) by (simp add: line_fresh_def)
  moreover have "b\<lparr>b_pos := b_last b\<rparr> = b" using assms(2) by simp
  ultimately show ?thesis using assms by (simp add: http_parse_request_line_def line_fresh_def pending_def)
qed

lemma digit_pos: "is_digit d \<Longrightarrow> d \<noteq> ch_0 \<Longrightarrow> 1 \<le> digit_val d"
  using digit_val_nonneg [of d] by (auto simp: is_digit_def digit_val_def word_le_def word_uint_eq_iff)

lemma line_phase_delivered:
  assumes fresh: "line_fresh (c_req c)" and buf: "conn_buf c = bind_buffer p n0" "0 < p" "p + n0 < 2 ^ 64 - 1"
    and fine: "request_fine name path d1 d2 hs body"
    and del: "delivers recv (r_fd (c_req c)) (c_world c) (request_text name path d1 d2 hs body)"
    and fits: "length (request_text name path d1 d2 hs body) \<le> n0"
  defines "M \<equiv> mem_write (c_mem c) p (request_text name path d1 d2 hs body)"
    and "e \<equiv> p + length (request_text name path d1 d2 hs body)" and "k \<equiv> length (request_line_text name path d1 d2) + 2"
  shows "\<exists>c1. http_process_request_line recv c = Some (0, c1) \<and> in_stream recv M (p + k) e c1 \<and> b_pos (conn_buf c1) = p + k \<and>
    b_start (conn_buf c1) = p \<and> b_end (conn_buf c1) = p + n0 \<and> c_sent c1 = c_sent c \<and>
    r_state (c_req c1) = 0 \<and> line_rest ((c_req c1)\<lparr>r_header := conn_buf c\<rparr>) = line_rest (c_req c) \<and>
    HTTP_VER_10 \<le> r_http_version (c_req c1) \<and> r_method (c_req c1) = method_of_name name \<and>
    str_bytes (c_mem c1) (r_uri (c_req c1)) = ch_slash # path \<and> str_in p (p + k) (r_uri (c_req c1))"
proof -
  let ?t = "request_text name path d1 d2 hs body" and ?b = "conn_buf c" and ?r = "c_req c"
  let ?rest = "concat (map header_text hs) @ [CR, LF] @ body"
  define n where "n = length ?t"
  have pos: "b_pos ?b = p" "b_last ?b = p" "b_start ?b = p" "b_end ?b = p + n0" using buf by (simp_all add: bind_buffer_def)
  have bytes: "bytes_at M p n = ?t" by (simp add: M_def n_def)
  have wf: "buffer_wf (?b\<lparr>b_last := p + j\<rparr>)" if "j \<le> n0" for j
    using that buf by (simp add: buffer_wf_def bind_buffer_def)
  have n: "n \<le> n0" using fits by (simp add: n_def)
  have "pending M (?b\<lparr>b_last := p + n\<rparr>) = request_line_text name path d1 d2 @ [CR, LF] @ ?rest"
    using bytes by (simp add: pending_def pos request_text_def)
  from parse_line_text [OF fresh wf [OF n] this] fine obtain r' where
    whole: "http_parse_request_line M ?r (?b\<lparr>b_last := p + n\<rparr>) = (0, r', ?b\<lparr>b_pos := p + k, b_last := p + n\<rparr>)"
    and r': "r_method r' = method_of_name name" "str_bytes M (r_uri r') = ch_slash # path"
      "r_http_version r' = digit_val d1 * 1000 + digit_val d2"
    by (auto simp: request_fine_def k_def pos buffer_swap add.assoc)
  have sl: "line_slices_ok p (p + k) r'" using parse_line_slices [OF fresh wf [OF n] whole] by (simp add: pos)
  have state: "r_state r' = 0"
  proof -
    have "rl_decode (r_state ?r) = Some S_start" using fresh by (simp add: line_fresh_def)
    from parse_line_cases [OF whole this] show ?thesis by cases (auto dest: rl_done_rest)
  qed
  have kn: "k \<le> n" by (simp add: n_def request_text_def k_def)
  have strm: "in_stream recv M p (p + n) c"
    using buf fits del bytes by (simp add: in_stream_def Let_def buffer_wf_def bind_buffer_def n_def)
  have start: "http_parse_request_line M ?r (?b\<lparr>b_last := p + 0\<rparr>) = (1, ?r, ?b\<lparr>b_pos := p + 0, b_last := p + 0\<rparr>)"
  proof -
    have "?b\<lparr>b_last := p + 0\<rparr> = ?b" "?b\<lparr>b_pos := p + 0, b_last := p + 0\<rparr> = ?b"
      by (simp_all add: buf(1) bind_buffer_def)
    with parse_line_nothing [OF fresh, of ?b M] pos show ?thesis by metis
  qed
  have "?b = ?b\<lparr>b_pos := p + 0, b_last := p + 0\<rparr>" "0 < k" "?r = put_header ?b ?r"
    by (simp_all add: k_def put_header_def) (simp add: buf(1) bind_buffer_def)
  from line_delivered [OF fresh pos(1) whole strm this(1,2) _ kn wf start this(3)] obtain m i w where
    run: "http_process_request_line recv c = Some (0, c\<lparr>c_mem := m, c_req := put_header (?b\<lparr>b_pos := p + k, b_last := p + i\<rparr>) r', c_world := w\<rparr>)"
    and i: "k \<le> i" and st: "in_stream recv M p (p + n) (c\<lparr>c_mem := m, c_req := put_header (?b\<lparr>b_pos := p + k, b_last := p + i\<rparr>) r', c_world := w\<rparr>)"
    by auto
  let ?c1 = "c\<lparr>c_mem := m, c_req := put_header (?b\<lparr>b_pos := p + k, b_last := p + i\<rparr>) r', c_world := w\<rparr>"
  have uri: "str_in p (p + k) (r_uri r')" using sl by (simp add: line_slices_ok_def)
  have "m a = M a" if "p \<le> a" "a < p + k" for a using st i that by (simp add: in_stream_def Let_def)
  then have "str_bytes m (r_uri r') = str_bytes M (r_uri r')"
    using uri unfolding str_bytes_def by (intro bytes_at_cong) (auto simp: str_in_def)
  moreover have "in_stream recv M (p + k) e ?c1" using in_stream_later [OF st, of "p + k"] by (simp add: e_def n_def)
  moreover have "HTTP_VER_10 \<le> r_http_version r'"
    using r'(3) digit_pos [of d1] digit_val_nonneg [of d2] fine by (simp add: HTTP_VER_10_def request_fine_def)
  moreover have "line_rest ((c_req ?c1)\<lparr>r_header := ?b\<rparr>) = line_rest ?r"
    using parse_line_rest [OF whole] by (simp add: line_rest_def put_header_def)
  ultimately show ?thesis using run r' state uri pos by (intro exI [of _ ?c1]) (simp add: put_header_def)
qed

lemma raw_handler_delivered:
  assumes env: "env_default env" and fresh: "line_fresh (c_req c)" and arr: "lc_array (c_req c)"
    and len0: "r_content_len (c_req c) = 0"
    and buf: "conn_buf c = bind_buffer p n0" "0 < p" "p + n0 < 2 ^ 64 - 1"
    and fine: "request_fine name path d1 d2 hs body"
    and del: "delivers recv (r_fd (c_req c)) (c_world c) (request_text name path d1 d2 hs body)"
    and fits: "length (request_text name path d1 d2 hs body) \<le> n0"
  shows "\<exists>c'. raw_http_request_handler recv env NULL_line_handler bodyh c = Some (bodyh c') \<and>
    r_method (c_req c') = method_of_name name \<and> str_bytes (c_mem c') (r_uri (c_req c')) = ch_slash # path \<and>
    str_bytes (c_mem c') (r_content (c_req c')) = body \<and> r_content_len (c_req c') = int (length body) \<and>
    (\<forall>host. named_host hs None = Some host \<longrightarrow> str_bytes (c_mem c') (r_host (c_req c')) = host) \<and>
    b_start (conn_buf c') = p \<and> b_end (conn_buf c') = p + n0 \<and> r_fd (c_req c') = r_fd (c_req c) \<and> c_sent c' = c_sent c"
proof -
  let ?t = "request_text name path d1 d2 hs body"
  define M where "M = mem_write (c_mem c) p ?t"
  define e where "e = p + length ?t"
  define k where "k = length (request_line_text name path d1 d2) + 2"
  from line_phase_delivered [OF fresh buf fine del fits] obtain c1 where
    run1: "http_process_request_line recv c = Some (0, c1)" and st1: "in_stream recv M (p + k) e c1"
    and pos1: "b_pos (conn_buf c1) = p + k" "b_start (conn_buf c1) = p" "b_end (conn_buf c1) = p + n0" "c_sent c1 = c_sent c"
    and req1: "r_state (c_req c1) = 0" "line_rest ((c_req c1)\<lparr>r_header := conn_buf c\<rparr>) = line_rest (c_req c)"
      "HTTP_VER_10 \<le> r_http_version (c_req c1)" "r_method (c_req c1) = method_of_name name"
      "str_bytes (c_mem c1) (r_uri (c_req c1)) = ch_slash # path" "str_in p (p + k) (r_uri (c_req c1))"
    unfolding M_def e_def k_def by blast
  have arr1: "lc_array (c_req c1)" and len1: "r_content_len (c_req c1) = 0"
    and fd1: "r_fd (c_req c1) = r_fd (c_req c)"
    using req1(2) arr len0 by (auto simp: line_rest_def lc_array_def)
  have e: "e < 2 ^ 64 - 1" using fits buf by (simp add: e_def)
  let ?line = "request_line_text name path d1 d2 @ [CR, LF]"
  let ?rest = "concat (map header_text hs) @ [CR, LF] @ body"
  have "bytes_at M p (length ?t) = ?line @ ?rest @ []" by (simp add: M_def) (simp add: request_text_def)
  from bytes_at_part [OF this] have "bytes_at M (p + k) (length ?rest) = ?rest" by (simp add: k_def)
  moreover have ek: "e - (p + k) = length ?rest" by (simp add: e_def k_def request_text_def)
  ultimately have rest: "bytes_at M (b_pos (conn_buf c1)) (e - b_pos (conn_buf c1)) = ?rest" by (simp add: pos1)
  have "\<forall>h \<in> set hs. header_fine h" using fine by (simp add: request_fine_def)
  from headers_delivered [OF env this st1 [folded pos1(1)] req1(1) arr1 e rest] obtain c2 where
    run2: "http_process_request_header recv env c1 = Some (Ret (0, c2))" and st2: "in_stream recv M (b_pos (conn_buf c2)) e c2"
    and e2: "e = b_pos (conn_buf c2) + length body"
    and req2: "r_content_len (c_req c2) = announced hs 0" "b_start (conn_buf c2) = p" "b_end (conn_buf c2) = p + n0"
      "c_sent c2 = c_sent c" "r_fd (c_req c2) = r_fd (c_req c)" "r_method (c_req c2) = method_of_name name"
      "r_uri (c_req c2) = r_uri (c_req c1)" "\<forall>a < p + k. c_mem c2 a = c_mem c1 a" "p + k \<le> b_pos (conn_buf c2)"
    and host2: "host_read c2 (named_host hs None)"
    using pos1 len1 fd1 req1(4) by (auto simp: conn_kept_def host_read_def [of c1 None])
  have "int (e - b_pos (conn_buf c2)) = r_content_len (c_req c2)" using e2 req2(1) fine by (simp add: request_fine_def)
  from body_delivered [OF st2 refl this] obtain c3 where
    run3: "http_process_request_body recv c2 = Some (0, c3)" "conn_frame c2 c3"
    and content: "str_bytes (c_mem c3) (r_content (c_req c3)) = bytes_at M (b_pos (conn_buf c2)) (e - b_pos (conn_buf c2))"
    and part: "line_part (c_req c3) = line_part (c_req c2)" "\<forall>a < b_pos (conn_buf c2). c_mem c3 a = c_mem c2 a" by blast
  have "bytes_at M (b_pos (conn_buf c2)) (length body) = body"
  proof -
    have "p + k + length (concat (map header_text hs) @ [CR, LF]) = b_pos (conn_buf c2)"
      using e2 ek req2(9) by simp
    moreover have "bytes_at M (p + k) (length ?rest) = (concat (map header_text hs) @ [CR, LF]) @ body @ []"
      using rest ek pos1 by simp
    ultimately show ?thesis using bytes_at_part by metis
  qed
  then have body: "str_bytes (c_mem c3) (r_content (c_req c3)) = body" using content e2 by simp
  have "c_mem c3 a = c_mem c1 a" if "a < p + k" for a using part(2) req2(8,9) that by simp
  then have "str_bytes (c_mem c3) (r_uri (c_req c1)) = str_bytes (c_mem c1) (r_uri (c_req c1))"
    using req1(6) unfolding str_bytes_def by (intro bytes_at_cong) (auto simp: str_in_def)
  moreover have "\<forall>host. named_host hs None = Some host \<longrightarrow> str_bytes (c_mem c3) (r_host (c_req c3)) = host"
    using host_read_bytes [of c2 _ c3] host2 part by (auto simp: line_part_def)
  moreover have "r_content_len (c_req c3) = int (length body)" using part(1) req2(1) fine by (simp add: line_part_def request_fine_def)
  ultimately have got: "\<forall>host. named_host hs None = Some host \<longrightarrow> str_bytes (c_mem c3) (r_host (c_req c3)) = host"
      "r_content_len (c_req c3) = int (length body)"
    and line: "r_method (c_req c3) = method_of_name name" "str_bytes (c_mem c3) (r_uri (c_req c3)) = ch_slash # path"
    using part(1) req2 req1(5) by (simp_all add: line_part_def)
  have "raw_http_request_handler recv env NULL_line_handler bodyh c = Some (bodyh c3)"
    using run1 run2 run3(1) req1(3)
    by (simp add: raw_http_request_handler_def unless_handled_def NULL_line_handler_def after_request_line_def)
  with body got line run3(2) req2 show ?thesis by (auto simp: conn_frame_def)
qed

end
