(* ===== verification/Worker.thy ===== *)
theory Worker
  imports Request_Delivery
begin

text \<open>
  The requests of a worker process: the state it needs between two requests is an
  invariant, and \<open>http_request_handler\<close> keeps it whatever the peer does, and whichever blocks of the pool
  other handlers hold at the time.
\<close>

text \<open>The addresses an allocator has handed out or will hand out: no operation of the pool adds one.\<close>

definition addrs :: "allocator \<Rightarrow> ptr set" where
  "addrs a = set (a_supply a) \<union> set (a_live a)"

text \<open>The blocks of the allocator lie in the address space, the array \<open>lowcase_header\<close> has the length it is declared
  with, and the blocks \<open>held\<close> of the pool are in the hands of other handlers. Nothing is said of the contents of the structures.\<close>

definition worker_wf :: "'w worker \<Rightarrow> ptr set \<Rightarrow> ptr set \<Rightarrow> bool" where
  "worker_wf wk held rest \<longleftrightarrow>
     mc_rep (wk_cache wk) (wk_alloc wk) held rest \<and> env_default (wk_headers wk) \<and>
     wk_line wk = NULL_line_handler \<and> wk_body wk = request_body_default_handler \<and>
     1024 \<le> wk_client_header_size wk \<and> wk_client_header_size wk \<le> 4096 \<and>
     (\<forall>p \<in> addrs (wk_alloc wk). p + 4096 < 2 ^ 64 - 1) \<and>
     (\<forall>p. lc_array (wk_struct wk p))"

text \<open>The request on descriptor \<open>fd\<close> as it starts in the block \<open>p\<close>.\<close>

definition request_conn :: "'w worker \<Rightarrow> int \<Rightarrow> ptr \<Rightarrow> 'w \<Rightarrow> 'w conn" where
  "request_conn wk fd p w = \<lparr>c_mem = wk_mem wk, c_req = init_request (wk_client_header_size wk) fd p (wk_struct wk p),
     c_world = w, c_sent = []\<rparr>"

definition one_response :: "int \<Rightarrow> sends \<Rightarrow> bool" where
  "one_response fd sent \<longleftrightarrow> sent = [(fd, HTTP_INSUFFICIENT_STORAGE_PAGE)] \<or>
     (\<exists>code l. code \<in> {200, 400, 507} \<and> get_http_status_line code = Some l \<and> sent = [(fd, response_text code l)])"

lemma malloc_addrs: "malloc a = (p, a') \<Longrightarrow> addrs a' \<subseteq> addrs a"
  by (auto simp: malloc_def addrs_def split: list.splits if_splits)

lemma free_addrs: "free p a = Ret a' \<Longrightarrow> addrs a' \<subseteq> addrs a"
  using notin_set_remove1 [of _ "a_live a" p] by (auto simp: free_def addrs_def split: if_splits)

lemma cbind_Ret: "cbind x f = Ret y \<longleftrightarrow> (\<exists>z. x = Ret z \<and> f z = Ret y)"
  by (cases x) auto

lemma add_element_addrs: "add_element c p a = Ret (c', a') \<Longrightarrow> addrs a' \<subseteq> addrs a"
  by (auto simp: add_element_def cbind_Ret free_addrs [THEN subsetD] split: if_splits)

lemma free_pool_addrs: "free_pool c a = Ret a' \<Longrightarrow> addrs a' \<subseteq> addrs a"
proof (induction c a arbitrary: a' rule: free_pool.induct)
  case (1 c a)
  show ?case
  proof (cases "mc_curr c = 0")
    case True
    with 1(2) show ?thesis by (simp add: free_pool.simps [of c] free_addrs)
  next
    case False
    with 1(2) obtain a1 where "free (fst (remove_element c)) a = Ret a1" "free_pool (snd (remove_element c)) a1 = Ret a'"
      by (auto simp: free_pool.simps [of c] Let_def cbind_Ret split: prod.splits)
    with 1(1) [OF False] free_addrs show ?thesis by (metis prod.collapse subset_trans)
  qed
qed

lemma memcache_fill_addrs:
  assumes "memcache_fill n c a = Some (Ret (oc, a'))"
  shows "addrs a' \<subseteq> addrs a"
proof -
  have "\<forall>oc a'. res = Ret (oc, a') \<longrightarrow> addrs a' \<subseteq> addrs a" if "memcache_fill n c a = Some res" for res
  proof (rule memcache_fill.raw_induct [OF _ that])
    fix fill n c a res
    assume IH: "\<And>n c a res. fill n c a = Some res \<Longrightarrow> \<forall>oc a'. res = Ret (oc, a') \<longrightarrow> addrs a' \<subseteq> addrs a"
      and body: "(if mc_curr c < n then
        (case malloc a of (element, a1) \<Rightarrow>
           if element = 0 then Some (cbind (free_pool c a1) (\<lambda>a2. Ret (None, a2)))
           else (case add_element c element a1 of
                   Ret (c', a2) \<Rightarrow> fill n c' a2
                 | UB \<Rightarrow> Some UB | Abort \<Rightarrow> Some Abort | Exit e \<Rightarrow> Some (Exit e)))
        else Some (Ret (Some c, a))) = Some res"
    obtain p a1 where m: "malloc a = (p, a1)" by fastforce
    note sub = malloc_addrs [OF m]
    show "\<forall>oc a'. res = Ret (oc, a') \<longrightarrow> addrs a' \<subseteq> addrs a"
    proof (intro allI impI)
      fix oc a'
      assume res: "res = Ret (oc, a')"
      show "addrs a' \<subseteq> addrs a"
      proof (cases "mc_curr c < n \<and> p \<noteq> 0")
        case True
        with body res m obtain c2 a2 where add: "add_element c p a1 = Ret (c2, a2)" "fill n c2 a2 = Some res"
          by (auto split: cres.splits)
        from IH [OF add(2)] res add_element_addrs [OF add(1)] sub show ?thesis by blast
      next
        case False
        with body res m sub free_pool_addrs [of c a1] show ?thesis by (auto simp: cbind_Ret split: if_splits)
      qed
    qed
  qed
  with assms show ?thesis by blast
qed

lemma memcache_create_addrs: "memcache_create k n a = Some (Ret (oc, a')) \<Longrightarrow> addrs a' \<subseteq> addrs a"
  by (auto simp: memcache_create_def Let_def split: if_splits prod.splits
      dest!: malloc_addrs memcache_fill_addrs)

lemma memcache_alloc_addrs: "memcache_alloc c a = (p, c', a') \<Longrightarrow> addrs a' \<subseteq> addrs a"
  by (auto simp: memcache_alloc_def remove_element_def split: if_splits prod.splits dest!: malloc_addrs)

lemma memcache_free_addrs: "memcache_free c p a = Ret (c', a') \<Longrightarrow> addrs a' \<subseteq> addrs a"
  by (simp add: memcache_free_def add_element_addrs)

lemma init_request_sel:
  assumes "1024 \<le> size0" "size0 \<le> 4096"
  shows "r_header (init_request size0 fd p old) = bind_buffer (p + 304) (size0 - 304)"
    "r_fd (init_request size0 fd p old) = fd" "line_fresh (init_request size0 fd p old)"
    "lc_array old \<Longrightarrow> lc_array (init_request size0 fd p old)"
  using assms by (simp_all add: init_request_def line_fresh_def lc_array_def sizeof_http_request_def)

text \<open>One request in a freshly initialised structure.\<close>

lemma raw_handler_init:
  assumes recv: "recv_ok recv" and wf: "worker_wf wk held rest" and p: "p \<noteq> 0" "p + 4096 < 2 ^ 64 - 1"
  shows "\<exists>res. raw_http_request_handler recv (wk_headers wk) (wk_line wk) (wk_body wk) (request_conn wk fd p w) = Some res \<and>
    (res = UB \<and> request_ub recv (wk_headers wk) (request_conn wk fd p w) \<or>
     (\<exists>c'. res = Ret c' \<and> answered (request_conn wk fd p w) c'))"
proof -
  define c where "c = request_conn wk fd p w"
  have sz: "1024 \<le> wk_client_header_size wk" "wk_client_header_size wk \<le> 4096" using wf by (simp_all add: worker_wf_def)
  note sel = init_request_sel [OF sz, where fd = fd and p = p and old = "wk_struct wk p"]
  have buf: "conn_buf c = bind_buffer (p + 304) (wk_client_header_size wk - 304)" by (simp add: c_def request_conn_def sel)
  have "buffer_wf (conn_buf c)" unfolding buf using p sz by (intro bind_buffer_wf) auto
  moreover have "line_fresh (c_req c)" using sel(3) by (simp add: c_def request_conn_def)
  moreover have "b_end (conn_buf c) < 2 ^ 64 - 1" "MIN_RESPONSE_BUFFER \<le> b_end (conn_buf c) - b_start (conn_buf c)"
    using p sz by (simp_all add: buf bind_buffer_def MIN_RESPONSE_BUFFER_def sizeof_http_request_def)
  moreover have "wk_line wk = NULL_line_handler" "wk_body wk = request_body_default_handler" "env_default (wk_headers wk)"
    using wf by (simp_all add: worker_wf_def)
  ultimately show ?thesis using raw_handler_total [OF recv] unfolding c_def [symmetric] by metis
qed

subsection \<open>Starting a worker\<close>

lemma request_init_wf:
  assumes "1 \<le> k" and "k \<le> 4" and "2 \<le> conns" and "alloc_ok a"
    and "\<forall>p \<in> addrs a. p + 4096 < 2 ^ 64 - 1"
    and "\<forall>p. lc_array (structs p)"
    and "at \<noteq> 0" and "b1 \<noteq> 0" and "b2 \<noteq> 0" and "b1 \<noteq> b2"
    and "b1 < addr \<or> addr + 2064 \<le> b1" and "b2 < addr \<or> addr + 2064 \<le> b2"
  shows "\<exists>res. http_request_init k None None None conns a addr H [b1, b2] at at' m structs = Some res \<and>
    (res = Exit (-1) \<and> (\<exists>a'. memcache_create (1024 * k) conns a = Some (Ret (None, a'))) \<or>
     res = Exit (-2) \<and> addr = 0 \<or>
     (\<exists>wk. res = Ret wk \<and> worker_wf wk {} (set (a_live a)) \<and> wk_client_header_size wk = 1024 * k \<and>
        memcache_create (1024 * k) conns a = Some (Ret (Some (wk_cache wk), wk_alloc wk))))"
proof -
  have size: "push_bit 10 k = 1024 * k" by (simp add: push_bit_eq_mult)
  from memcache_create_rep [OF assms(4,3), of "1024 * k"] obtain oc a1 where
    create: "memcache_create (1024 * k) conns a = Some (Ret (oc, a1))"
    and pool: "case oc of None \<Rightarrow> True | Some c \<Rightarrow> mc_rep c a1 {} (set (a_live a))"
    by (auto split: option.splits)
  show ?thesis
  proof (cases oc)
    case None
    with create show ?thesis by (simp add: http_request_init_def size Let_def)
  next
    case (Some cache)
    show ?thesis
    proof (cases "addr = 0")
      case True
      then have "hash_table_create 128 addr H = (None, H)" by (simp add: hash_table_create_def)
      with create Some True show ?thesis by (simp add: http_request_init_def size Let_def)
    next
      case False
      then obtain t H1 where t: "hash_table_create 128 addr H = (Some t, H1)"
        by (auto simp: hash_table_create_def Let_def)
      from hash_table_create_rep [OF t] obtain U where U: "ht_rep t H1 U Map.empty" "U \<subseteq> {addr..<2064 + addr}"
        by (auto simp: sizeof_hash_table_def sizeof_list_head_def)
      with assms(11,12) have "b1 \<notin> U" "b2 \<notin> U" by auto
      with add_default_handlers [of "\<lparr>he_table = t, he_heap = H1, he_handler = (\<lambda>_. None)\<rparr>" U at b1 b2 "[]"] U(1) assms(7-10)
      obtain env where env: "add_client_header_handler http_headers_handler at [b1, b2]
          \<lparr>he_table = t, he_heap = H1, he_handler = (\<lambda>_. None)\<rparr> = Some (Ret (env, []))" "env_default env" by auto
      let ?wk = "\<lparr>wk_client_header_size = 1024 * k, wk_cache = cache, wk_alloc = a1, wk_headers = env,
        wk_line = NULL_line_handler, wk_body = request_body_default_handler, wk_mem = m, wk_struct = structs\<rparr>"
      have "http_request_init k None None None conns a addr H [b1, b2] at at' m structs = Some (Ret ?wk)"
        using create Some t env(1) by (simp add: http_request_init_def size Let_def)
      moreover have "worker_wf ?wk {} (set (a_live a))"
        using pool Some env(2) assms(1,2,5,6) memcache_create_addrs [OF create] by (auto simp: worker_wf_def)
      moreover have "wk_client_header_size ?wk = 1024 * k"
        "memcache_create (1024 * k) conns a = Some (Ret (Some (wk_cache ?wk), wk_alloc ?wk))" using create Some by simp_all
      ultimately show ?thesis by blast
    qed
  qed
qed

subsection \<open>A well-formed request\<close>

lemma request_reaches_body:
  fixes fd p old m
  assumes "env_default env" and "lc_array old" and "1024 \<le> sz" and "sz \<le> 4096"
    and "p \<noteq> 0" and "p + 4096 < 2 ^ 64 - 1" and "request_fine name path d1 d2 hs body"
    and "delivers recv fd w (request_text name path d1 d2 hs body)"
    and "length (request_text name path d1 d2 hs body) \<le> sz - sizeof_http_request"
  defines "c \<equiv> \<lparr>c_mem = m, c_req = init_request sz fd p old, c_world = w, c_sent = []\<rparr>"
  shows "\<exists>c'. raw_http_request_handler recv env NULL_line_handler bodyh c = Some (bodyh c') \<and>
    r_method (c_req c') = method_of_name name \<and> str_bytes (c_mem c') (r_uri (c_req c')) = ch_slash # path \<and>
    str_bytes (c_mem c') (r_content (c_req c')) = body \<and> r_content_len (c_req c') = int (length body) \<and>
    (\<forall>host. named_host hs None = Some host \<longrightarrow> str_bytes (c_mem c') (r_host (c_req c')) = host) \<and>
    r_fd (c_req c') = fd \<and> c_sent c' = [] \<and>
    b_start (conn_buf c') = p + sizeof_http_request \<and> b_end (conn_buf c') = p + sz"
proof -
  note sel = init_request_sel [OF assms(3,4), where fd = fd and p = p and old = old]
  have "r_content_len (c_req c) = 0" by (simp add: c_def init_request_def)
  moreover have "conn_buf c = bind_buffer (p + 304) (sz - 304)" "line_fresh (c_req c)"
    "lc_array (c_req c)" "r_fd (c_req c) = fd" "c_world c = w" "c_sent c = []"
    using sel assms(2) by (simp_all add: c_def)
  moreover have "p + 304 + (sz - 304) < 2 ^ 64 - 1" "0 < p + 304" using assms(3-6) by simp_all
  ultimately show ?thesis
    using raw_handler_delivered [OF assms(1), of c "p + 304" "sz - 304" name path d1 d2 hs body recv bodyh] assms(3,7-9)
    by (fastforce simp: sizeof_http_request_def)
qed

lemma status_line_200: "get_http_status_line 200 = Some (lit ''200 OK'')"
  by (simp add: get_http_status_line_def status_consts http_status_lines_def)

text \<open>When the request has been answered, the block goes back to the pool.\<close>

lemma answered_request_done:
  assumes wk: "worker_wf wk held rest" and al: "memcache_alloc (wk_cache wk) (wk_alloc wk) = (p, cache, a)" and "p \<noteq> 0"
    and run: "raw_http_request_handler recv (wk_headers wk) (wk_line wk) (wk_body wk) (request_conn wk fd p w) = Some (Ret c')"
    and ans: "answered (request_conn wk fd p w) c'"
  shows "\<exists>wk'. http_request_handler recv fd wk w = Some (Ret (wk', c_world c', c_sent c')) \<and> worker_wf wk' held rest \<and>
    one_response fd (c_sent c') \<and> p \<notin> held \<and>
    (\<forall>x. x < p + sizeof_http_request \<or> p + wk_client_header_size wk \<le> x \<longrightarrow> wk_mem wk' x = wk_mem wk x)"
proof -
  have "mc_rep (wk_cache wk) (wk_alloc wk) held rest" using wk by (simp add: worker_wf_def)
  from mc.alloc_rep [OF this al] \<open>p \<noteq> 0\<close> have "mc_rep cache a (insert p held) rest" and new: "p \<notin> held" by auto
  from mc.release_rep [OF this(1), of p] new obtain cache' a' where
    fr: "memcache_free cache p a = Ret (cache', a')" "mc_rep cache' a' held rest" by auto
  define wk' where "wk' = wk\<lparr>wk_cache := cache', wk_alloc := a', wk_mem := c_mem c', wk_struct := (wk_struct wk)(p := c_req c')\<rparr>"
  have sz: "1024 \<le> wk_client_header_size wk" "wk_client_header_size wk \<le> 4096" using wk by (simp_all add: worker_wf_def)
  note sel = init_request_sel [OF sz, where fd = fd and p = p and old = "wk_struct wk p"]
  have "http_request_handler recv fd wk w = Some (Ret (wk', c_world c', c_sent c'))"
    using al \<open>p \<noteq> 0\<close> run fr(1) by (simp add: http_request_handler_def Let_def wk'_def request_conn_def)
  moreover have "lc_array (c_req c')" using ans sel(4) wk by (simp add: answered_def worker_wf_def request_conn_def)
  moreover have "addrs a' \<subseteq> addrs (wk_alloc wk)" using memcache_alloc_addrs [OF al] memcache_free_addrs [OF fr(1)] by blast
  ultimately show ?thesis
    using wk fr(2) ans sel sz new
    by (intro exI [of _ wk'])
      (auto simp: worker_wf_def wk'_def answered_def one_response_def bind_buffer_def sizeof_http_request_def request_conn_def)
qed

subsection \<open>Properties\<close>

text \<open>C2. A worker survives every client. Whatever bytes \<open>recv\<close> delivers, in whatever pieces, and however it
  fails, \<open>http_request_handler\<close> returns; it sends exactly one response (200, 400 or 507) on that
  descriptor; it takes from the pool a block that no other handler holds, and writes memory only inside it; the block goes back to the
  pool exactly once, and the worker is ready for the next request. The exceptions are the two cases of undefined
  behaviour of \<open>request_ub\<close>, each reached by the parser on the bytes of this request: a \<open>Content-Length\<close> header that was received
  and whose number overflows, and a store outside \<open>lowcase_header\<close>, which needs a block that came with an index out of range.\<close>

theorem request_handler_serves:
  assumes "recv_ok recv" and "worker_wf wk held rest"
    and "memcache_alloc (wk_cache wk) (wk_alloc wk) = (p, cache, a)"
  shows "\<exists>res. http_request_handler recv fd wk w = Some res \<and>
    (res = UB \<and> p \<noteq> 0 \<and> request_ub recv (wk_headers wk) (request_conn wk fd p w) \<or>
     (\<exists>wk' w' sent. res = Ret (wk', w', sent) \<and> worker_wf wk' held rest \<and> p \<notin> held \<and> one_response fd sent \<and>
        (p = 0 \<longrightarrow> sent = [(fd, HTTP_INSUFFICIENT_STORAGE_PAGE)]) \<and>
        (\<forall>x. p = 0 \<or> x < p + sizeof_http_request \<or> p + wk_client_header_size wk \<le> x \<longrightarrow> wk_mem wk' x = wk_mem wk x)))"
proof -
  note al = assms(3)
  have rep: "mc_rep (wk_cache wk) (wk_alloc wk) held rest" using assms(2) by (simp add: worker_wf_def)
  note sub = memcache_alloc_addrs [OF al]
  show ?thesis
  proof (cases "p = 0")
    case True
    with mc.alloc_rep [OF rep al] have rep1: "mc_rep cache a held rest" by auto
    let ?wk = "wk\<lparr>wk_cache := cache, wk_alloc := a\<rparr>"
    have "http_request_handler recv fd wk w = Some (Ret (?wk, w, [(fd, HTTP_INSUFFICIENT_STORAGE_PAGE)]))"
      using True al by (simp add: http_request_handler_def http_fast_response_def)
    moreover have "worker_wf ?wk held rest" using rep1 assms(2) sub by (auto simp: worker_wf_def)
    moreover have "0 \<notin> held" using rep by (auto simp: mc_rep_def alloc_ok_def)
    ultimately show ?thesis using True by (simp add: one_response_def)
  next
    case False
    from mc.alloc_rep [OF rep al] False have rep1: "mc_rep cache a (insert p held) rest" by auto
    then have "p \<in> addrs a" by (auto simp: mc_rep_def addrs_def)
    with sub assms(2) have lim: "p + 4096 < 2 ^ 64 - 1" by (auto simp: worker_wf_def)
    from raw_handler_init [OF assms(1,2) False lim, where fd = fd and w = w] obtain res where
      res: "raw_http_request_handler recv (wk_headers wk) (wk_line wk) (wk_body wk) (request_conn wk fd p w) = Some res"
      "res = UB \<and> request_ub recv (wk_headers wk) (request_conn wk fd p w) \<or> (\<exists>c'. res = Ret c' \<and> answered (request_conn wk fd p w) c')"
      by blast
    show ?thesis
    proof (cases "res = UB")
      case True
      with res al False show ?thesis by (auto simp: http_request_handler_def Let_def request_conn_def)
    next
      case ok: False
      with res(2) obtain c' where c': "res = Ret c'" "answered (request_conn wk fd p w) c'" by auto
      from answered_request_done [OF assms(2) al False res(1) [unfolded c'(1)] c'(2)] False show ?thesis by auto
    qed
  qed
qed

text \<open>A peer that sends the byte x for ever, and a worker to serve it.\<close>

definition test_recv :: "nat recv_fun" where
  "test_recv w fd n = (Received (take n (lit ''x'')), w)"

lemma test_recv_ok: "recv_ok test_recv"
  by (auto simp: recv_ok_def test_recv_def)

lemma parse_line_x:
  assumes "r_state r = 0" "pending m b = [120]"
  shows "fst (http_parse_request_line m r b) < 0"
  using assms by (simp add: http_parse_request_line_def rl_switch_def rl_defs is_upper_or_underscore_def Let_def)

lemma test_recv_no_ub:
  assumes "1024 \<le> wk_client_header_size wk" "wk_client_header_size wk \<le> 4096"
  shows "\<not> request_ub test_recv env (request_conn wk fd p w)"
proof -
  let ?c = "request_conn wk fd p w"
  note sel = init_request_sel [OF assms, where fd = fd and p = p and old = "wk_struct wk p"]
  define c1 where "c1 = ?c\<lparr>c_mem := (wk_mem wk)(p + 304 := 120),
    c_req := (c_req ?c)\<lparr>r_header := (conn_buf ?c)\<lparr>b_last := p + 305\<rparr>\<rparr>\<rparr>"
  have "recv_step test_recv ?c = (0, c1)"
    using assms by (simp add: c1_def recv_step_def recv_http_request_def test_recv_def request_conn_def sel bind_buffer_def lit_def)
  moreover have "[p + 304..<305 + p] = [p + 304]" using upt_rec [of "p + 304" "305 + p"] by simp
  then have "r_state (c_req c1) = 0" "pending (c_mem c1) (conn_buf c1) = [120]"
    using sel(3) by (simp_all add: c1_def request_conn_def sel bind_buffer_def pending_def line_fresh_def bytes_at_def)
  note parse_line_x [OF this]
  ultimately have "http_process_request_line test_recv ?c \<noteq> Some (0, c)" for c
    by (auto simp: http_process_request_line.simps [of test_recv ?c] Let_def split: prod.splits)
  then show ?thesis by (simp add: request_ub_def)
qed

lemma test_init:
  "\<exists>wk :: 'w worker. worker_wf wk {} {50} \<and> wk_client_header_size wk = 2048 \<and>
    memcache_create 2048 4 test_alloc = Some (Ret (Some (wk_cache wk), wk_alloc wk))"
proof -
  have al: "\<forall>p \<in> addrs test_alloc. p + 4096 < 2 ^ 64 - 1" by (simp add: addrs_def test_alloc_def)
  obtain oc a1 where "memcache_create 2048 4 test_alloc = Some (Ret (Some oc, a1))" using test_create by blast
  with request_init_wf [of 2 4 test_alloc "\<lambda>_. zero_request" 500 7000 7100 4096 empty_heap 600 "\<lambda>_. 0"]
  show ?thesis using al test_alloc_ok by (auto simp: test_alloc_def)
qed

theorem request_handler_serves_witness:
  "\<exists>(wk :: nat worker) wk' w' sent. worker_wf wk {} {50} \<and> http_request_handler test_recv 7 wk 0 = Some (Ret (wk', w', sent)) \<and>
    worker_wf wk' {} {50} \<and> one_response 7 sent"
proof -
  obtain wk :: "nat worker" where wk: "worker_wf wk {} {50}" using test_init by blast
  obtain p cache a where al: "memcache_alloc (wk_cache wk) (wk_alloc wk) = (p, cache, a)" by (metis prod.exhaust)
  have "\<not> request_ub test_recv (wk_headers wk) (request_conn wk 7 p 0)" using test_recv_no_ub wk by (auto simp: worker_wf_def)
  with request_handler_serves [OF test_recv_ok wk al, of 7 0] wk show ?thesis by blast
qed

text \<open>C3. End to end, up to the application: a well-formed request (known method, origin-form target, version
  with a non-zero major digit and a minor digit other than 9, well-formed headers with an acceptable \<open>Host\<close> and
  \<open>Content-Length\<close>, a body of the announced length) that fits into the receive buffer reaches the body
  handler, however \<open>recv\<close> cuts it into pieces; the handler sees the method, the target, the announced length and exactly the body that
  was sent, and, when there is a \<open>Host\<close> header, in \<open>r->host\<close> the name of the last one, in lower case, without port and trailing dot;
  nothing has been sent to the client before. Whatever the structure held before does not matter.\<close>

theorem request_reaches_body_handler:
  assumes "env_default env" and "lc_array old" and "1024 \<le> sz" and "sz \<le> 4096"
    and "p \<noteq> 0" and "p + 4096 < 2 ^ 64 - 1" and "request_fine name path d1 d2 hs body"
    and "delivers recv fd w (request_text name path d1 d2 hs body)"
    and "length (request_text name path d1 d2 hs body) \<le> sz - sizeof_http_request"
  shows "\<exists>c'. raw_http_request_handler recv env NULL_line_handler bodyh
      \<lparr>c_mem = m, c_req = init_request sz fd p old, c_world = w, c_sent = []\<rparr> = Some (bodyh c') \<and>
    r_method (c_req c') = method_of_name name \<and> str_bytes (c_mem c') (r_uri (c_req c')) = ch_slash # path \<and>
    str_bytes (c_mem c') (r_content (c_req c')) = body \<and> r_content_len (c_req c') = int (length body) \<and>
    (\<forall>host. named_host hs None = Some host \<longrightarrow> str_bytes (c_mem c') (r_host (c_req c')) = host) \<and>
    r_fd (c_req c') = fd \<and> c_sent c' = []"
  using request_reaches_body [OF assms] by blast

lemma recv_pieces_ok: "recv_ok recv_pieces"
  unfolding recv_ok_def
proof (intro allI impI)
  fix ps fd n bs w'
  assume "recv_pieces ps fd n = (Received bs, w')"
  then show "length bs \<le> n" by (cases ps) (auto split: if_splits)
qed

text \<open>A request with one header, cut into two pieces.\<close>

definition test_request :: "u8 list" where
  "test_request = request_text (lit ''GET'') [] 49 49 [\<lparr>hs_name = lit ''Host'', hs_before = 1, hs_value = lit ''a'', hs_after = 0\<rparr>] []"

lemma test_request_eq: "test_request = lit ''GET / HTTP/1.1'' @ [CR, LF] @ lit ''Host: a'' @ [CR, LF, CR, LF]"
  by (simp add: test_request_def request_text_def request_line_text_def header_text_def header_line_text_def lit_def)

lemma test_request_fine:
  "request_fine (lit ''GET'') [] 49 49 [\<lparr>hs_name = lit ''Host'', hs_before = 1, hs_value = lit ''a'', hs_after = 0\<rparr>] []"
proof -
  have "host_value (lit ''a'')"
    unfolding host_value_def
    by (intro exI [of _ "[97 :: u8]"] exI [of _ "[] :: u8 list"]) (simp add: lit_def host_byte_def port_text_def strip_dot_def)
  then have "header_fine \<lparr>hs_name = lit ''Host'', hs_before = 1, hs_value = lit ''a'', hs_after = 0\<rparr>"
    using keys_differ
    by (auto simp: header_fine_def valid_name_def trimmed_value_def lit_def name_byte_def value_byte_def host_key_def)
  moreover have "hash_key_lc (lit ''Host'') \<noteq> content_length_key" using keys_differ by (simp add: host_key_def)
  moreover have "method_of_name (lit ''GET'') = HTTP_GET" by (simp add: method_of_GET [unfolded lit_def] lit_def)
  ultimately show ?thesis by (simp add: request_fine_def is_digit_def)
qed

lemma test_request_length: "length test_request = 27"
  by (simp add: test_request_eq)

lemma test_delivers: "delivers recv_pieces fd [take 5 test_request, drop 5 test_request] test_request"
proof -
  have "\<forall>p \<in> set [take 5 test_request, drop 5 test_request]. p \<noteq> []" using test_request_length by auto
  from delivers_pieces [OF this, of fd] show ?thesis by simp
qed

lemma test_env: "\<exists>env. env_default env"
  using test_init by (auto simp: worker_wf_def)

theorem request_reaches_body_handler_witness:
  "\<exists>env c'. raw_http_request_handler recv_pieces env NULL_line_handler request_body_default_handler
      \<lparr>c_mem = (\<lambda>_. 0), c_req = init_request 1024 7 100 zero_request,
       c_world = [take 5 test_request, drop 5 test_request], c_sent = []\<rparr> = Some (request_body_default_handler c') \<and>
    r_method (c_req c') = HTTP_GET \<and> str_bytes (c_mem c') (r_host (c_req c')) = lit ''a''"
proof -
  obtain env where env: "env_default env" using test_env by blast
  have fits: "length test_request \<le> 1024 - sizeof_http_request" by (simp add: test_request_length sizeof_http_request_def)
  have "method_of_name (lit ''GET'') = HTTP_GET" by (simp add: method_of_GET [unfolded lit_def] lit_def)
  moreover have "named_host [\<lparr>hs_name = lit ''Host'', hs_before = 1, hs_value = lit ''a'', hs_after = 0\<rparr>] None = Some (lit ''a'')"
    by (simp add: host_key_def host_of_def lit_def host_byte_def strip_dot_def tolower_def)
  ultimately show ?thesis
    using request_reaches_body_handler [OF env lc_array_zero _ _ _ _ test_request_fine test_delivers [unfolded test_request_def]
      fits [unfolded test_request_def], of 100 request_body_default_handler "\<lambda>_. 0" 7]
    unfolding test_request_def by auto
qed

lemma alloc_free_same:
  assumes "mc_rep c a held rest" "mc_curr c \<noteq> 0" "memcache_alloc c a = (p, c1, a1)" "memcache_free c1 p a1 = Ret (c2, a2)"
  shows "c2 = c" "a2 = a"
proof -
  have c1: "c1 = c\<lparr>mc_curr := mc_curr c - 1\<rparr>" "a1 = a" "p = mc_elements c ! (mc_curr c - 1)"
    using assms(2,3) by (auto simp: memcache_alloc_def remove_element_def)
  moreover have "mc_curr c - 1 < mc_cache_size c" using assms(1,2) by (auto simp: mc_rep_def)
  ultimately show "c2 = c" "a2 = a"
    using assms(2,4) by (auto simp: memcache_free_def add_element_def)
qed

text \<open>C1. End to end, up to the client: a worker that gets a block from its pool answers such a request with exactly one
  response, the status line \<open>200 OK\<close>, the common headers and the welcome page. Afterwards the worker is ready for the next
  request: its invariant holds with the same blocks in other hands, so the block went back; a pool that had a block to give is
  exactly as before; and memory outside the block is untouched. It does not matter what the block contained.\<close>

theorem well_formed_request_gets_200:
  assumes "recv_ok recv" and "worker_wf wk held rest" and "memcache_alloc (wk_cache wk) (wk_alloc wk) = (p, cache, a)" and "p \<noteq> 0"
    and "request_fine name path d1 d2 hs body"
    and "delivers recv fd w (request_text name path d1 d2 hs body)"
    and "length (request_text name path d1 d2 hs body) \<le> wk_client_header_size wk - sizeof_http_request"
  shows "\<exists>wk' w'. http_request_handler recv fd wk w = Some (Ret (wk', w', [(fd, response_text 200 (lit ''200 OK''))])) \<and>
    worker_wf wk' held rest \<and>
    (mc_curr (wk_cache wk) \<noteq> 0 \<longrightarrow> wk_cache wk' = wk_cache wk \<and> wk_alloc wk' = wk_alloc wk) \<and>
    (\<forall>x. x < p + sizeof_http_request \<or> p + wk_client_header_size wk \<le> x \<longrightarrow> wk_mem wk' x = wk_mem wk x)"
proof -
  have wk: "env_default (wk_headers wk)" "wk_line wk = NULL_line_handler" "wk_body wk = request_body_default_handler"
    "1024 \<le> wk_client_header_size wk" "wk_client_header_size wk \<le> 4096" "lc_array (wk_struct wk p)"
    and rep: "mc_rep (wk_cache wk) (wk_alloc wk) held rest"
    using assms(2) by (simp_all add: worker_wf_def)
  from mc.alloc_rep [OF rep assms(3)] assms(4) have "p \<in> addrs a" by (auto simp: mc_rep_def addrs_def)
  with memcache_alloc_addrs [OF assms(3)] assms(2) have lim: "p + 4096 < 2 ^ 64 - 1" by (auto simp: worker_wf_def)
  from request_reaches_body [OF wk(1,6,4,5) assms(4) lim assms(5-7), of request_body_default_handler "wk_mem wk"]
  obtain c' where run: "raw_http_request_handler recv (wk_headers wk) (wk_line wk) (wk_body wk) (request_conn wk fd p w) =
      Some (request_body_default_handler c')"
    and c': "r_fd (c_req c') = fd" "c_sent c' = []" "b_start (conn_buf c') = p + sizeof_http_request"
      "b_end (conn_buf c') = p + wk_client_header_size wk" unfolding wk(2,3) request_conn_def by blast
  have "MIN_RESPONSE_BUFFER \<le> b_end (conn_buf c') - b_start (conn_buf c')"
    using c' wk(4) by (simp add: MIN_RESPONSE_BUFFER_def sizeof_http_request_def)
  from http_finalize_request_sent [OF status_line_200 this, of "c_mem c'"] obtain c2 where
    c2: "request_body_default_handler c' = Ret c2" "c_sent c2 = [(fd, response_text 200 (lit ''200 OK''))]"
    using c'(1,2) by (auto simp: request_body_default_handler_def finalize_def)
  from raw_handler_init [OF assms(1,2,4) lim, of fd w] run c2(1) have ans: "answered (request_conn wk fd p w) c2" by auto
  from answered_request_done [OF assms(2,3,4) run [unfolded c2(1)] ans] obtain wk' where
    wk': "http_request_handler recv fd wk w = Some (Ret (wk', c_world c2, c_sent c2))" "worker_wf wk' held rest"
    "\<forall>x. x < p + sizeof_http_request \<or> p + wk_client_header_size wk \<le> x \<longrightarrow> wk_mem wk' x = wk_mem wk x" by blast
  have "wk_cache wk' = wk_cache wk \<and> wk_alloc wk' = wk_alloc wk" if "mc_curr (wk_cache wk) \<noteq> 0"
    using wk'(1) alloc_free_same [OF rep that assms(3)] assms(3,4) run c2(1)
    by (auto simp: http_request_handler_def Let_def request_conn_def cbind_Ret)
  with wk' c2(2) show ?thesis by auto
qed

theorem well_formed_request_gets_200_witness:
  "\<exists>(wk :: u8 list list worker) wk' w'. http_request_handler recv_pieces 7 wk [take 5 test_request, drop 5 test_request] =
    Some (Ret (wk', w', [(7, response_text 200 (lit ''200 OK''))])) \<and> wk_cache wk' = wk_cache wk"
proof -
  obtain wk :: "u8 list list worker" where wk: "worker_wf wk {} {50}" "wk_client_header_size wk = 2048"
    "memcache_create 2048 4 test_alloc = Some (Ret (Some (wk_cache wk), wk_alloc wk))" using test_init by blast
  obtain p cache a where al: "memcache_alloc (wk_cache wk) (wk_alloc wk) = (p, cache, a)" by (metis prod.exhaust)
  from wk(3) have curr: "mc_curr (wk_cache wk) = 1" and "mc_elements (wk_cache wk) ! 0 = 200"
    by (auto simp: memcache_create_def malloc_def test_alloc_def memcache_fill.simps add_element_def drop_bit_eq_div
        dest!: sym [of _ "wk_cache wk"])
  with al have "p \<noteq> 0" using curr by (auto simp: memcache_alloc_def remove_element_def)
  have fits: "length test_request \<le> wk_client_header_size wk - sizeof_http_request"
    by (simp add: test_request_length sizeof_http_request_def wk(2))
  from well_formed_request_gets_200 [OF recv_pieces_ok wk(1) al \<open>p \<noteq> 0\<close> test_request_fine test_delivers [unfolded test_request_def]
      fits [unfolded test_request_def]]
  show ?thesis using curr unfolding test_request_def by fastforce
qed



lemma status_line_507: "get_http_status_line 507 = Some (lit ''507 Insufficient Storage'')"
  by (simp add: get_http_status_line_def status_consts http_status_lines_def)

text \<open>A body that does not come as announced is answered with 507.\<close>

lemma body_failure_gets_507:
  assumes hd: "http_process_request_header recv env c0 = Some (Ret (0, c))" and ver: "HTTP_VER_10 \<le> r_http_version (c_req c0)"
    and room: "MIN_RESPONSE_BUFFER \<le> b_end (conn_buf c) - b_start (conn_buf c)"
    and body: "http_process_request_body recv c = Some (ret, c')" "conn_frame c c'" "ret \<noteq> 0"
  shows "\<exists>c2. after_request_line recv env bodyh c0 = Some (Ret c2) \<and>
    c_sent c2 = c_sent c @ [(r_fd (c_req c), response_text 507 (lit ''507 Insufficient Storage''))]"
proof -
  have "MIN_RESPONSE_BUFFER \<le> b_end (conn_buf c') - b_start (conn_buf c')" using room body(2) by (simp add: conn_frame_def)
  from http_finalize_request_sent [OF status_line_507 this, of "c_mem c'"] obtain c2 where
    "finalize 507 c' = Ret c2" "c_sent c2 = c_sent c' @ [(r_fd (c_req c'), response_text 507 (lit ''507 Insufficient Storage''))]"
    by (auto simp: finalize_def)
  with hd ver body show ?thesis
    by (auto simp: after_request_line_def HTTP_INSUFFICIENT_STORAGE_def conn_frame_def)
qed

text \<open>C37. The body phase returns 0 or -1. It returns 0 exactly when after some number of successful receives the bytes behind
  the headers are as many as announced; \<open>r->content\<close> then covers exactly these bytes. Otherwise it received until \<open>recv\<close>
  failed or the buffer was full. In particular it never succeeds when more bytes than announced are
  already in the buffer (a pipelined request, or a body without \<open>Content-Length\<close>). Whenever it fails, the request
  whose headers were just read gets the response 507, and nothing else.\<close>

theorem request_body_exact:
  assumes "recv_ok recv" and "buffer_wf (r_header (c_req c))"
  shows "\<exists>ret c'. http_process_request_body recv c = Some (ret, c') \<and> (ret = 0 \<or> ret = -1) \<and>
    (ret = 0 \<longleftrightarrow> (\<exists>k c1. recv_n recv k c = Some c1 \<and> body_complete c1)) \<and>
    (ret = 0 \<longrightarrow> str_bytes (c_mem c') (r_content (c_req c')) = pending (c_mem c') (r_header (c_req c')) \<and>
      int (str_len (r_content (c_req c'))) = r_content_len (c_req c)) \<and>
    (ret \<noteq> 0 \<longrightarrow> (\<exists>k c1. recv_n recv k c = Some c1 \<and> fst (recv_step recv c1) \<noteq> 0)) \<and>
    (r_content_len (c_req c) < int (length (pending (c_mem c) (r_header (c_req c)))) \<longrightarrow> ret \<noteq> 0) \<and>
    (\<forall>env bodyh c0. http_process_request_header recv env c0 = Some (Ret (0, c)) \<and> HTTP_VER_10 \<le> r_http_version (c_req c0) \<and>
       MIN_RESPONSE_BUFFER \<le> b_end (r_header (c_req c)) - b_start (r_header (c_req c)) \<and> ret \<noteq> 0 \<longrightarrow>
       (\<exists>c2. after_request_line recv env bodyh c0 = Some (Ret c2) \<and>
          c_sent c2 = c_sent c @ [(r_fd (c_req c), response_text 507 (lit ''507 Insufficient Storage''))]))"
proof -
  from process_body_total [OF assms] obtain ret c' where
    run: "http_process_request_body recv c = Some (ret, c')" and fin: "body_end recv c ret c'" by blast
  then have fin: "conn_frame c c'" "ret = 0 \<or> ret = -1" "ret = 0 \<longleftrightarrow> (\<exists>k c1. recv_n recv k c = Some c1 \<and> body_complete c1)"
    "ret \<noteq> 0 \<longrightarrow> (\<exists>k c1. recv_n recv k c = Some c1 \<and> fst (recv_step recv c1) \<noteq> 0)"
    "ret = 0 \<longrightarrow> r_content (c_req c') = \<lparr>str_p = b_pos (conn_buf c'), str_len = b_last (conn_buf c') - b_pos (conn_buf c')\<rparr> \<and>
      int (b_last (conn_buf c') - b_pos (conn_buf c')) = r_content_len (c_req c)"
    "r_content_len (c_req c) < int (b_last (conn_buf c)) - int (b_pos (conn_buf c)) \<longrightarrow> ret \<noteq> 0"
    unfolding body_end_def by blast+
  show ?thesis
  proof (intro exI conjI)
    show "r_content_len (c_req c) < int (length (pending (c_mem c) (conn_buf c))) \<longrightarrow> ret \<noteq> 0"
      using fin(6) assms(2) by (simp add: pending_def buffer_wf_def of_nat_diff)
    show "ret = 0 \<longrightarrow> str_bytes (c_mem c') (r_content (c_req c')) = pending (c_mem c') (r_header (c_req c')) \<and>
        int (str_len (r_content (c_req c'))) = r_content_len (c_req c)"
      using fin(5) by (simp add: str_bytes_def pending_def)
    show "\<forall>env bodyh c0. http_process_request_header recv env c0 = Some (Ret (0, c)) \<and> HTTP_VER_10 \<le> r_http_version (c_req c0) \<and>
       MIN_RESPONSE_BUFFER \<le> b_end (conn_buf c) - b_start (conn_buf c) \<and> ret \<noteq> 0 \<longrightarrow>
       (\<exists>c2. after_request_line recv env bodyh c0 = Some (Ret c2) \<and>
          c_sent c2 = c_sent c @ [(r_fd (c_req c), response_text 507 (lit ''507 Insufficient Storage''))])"
      using body_failure_gets_507 [OF _ _ _ run fin(1)] by blast
  qed (fact run fin(2) fin(3) fin(4))+
qed

text \<open>Two bytes are announced and come one at a time; and two bytes are there though none is announced.\<close>

theorem request_body_exact_witness:
  "(\<exists>c'. http_process_request_body test_recv \<lparr>c_mem = (\<lambda>_. 0),
      c_req = zero_request\<lparr>r_header := test_buffer 0, r_content_len := 2\<rparr>, c_world = 0, c_sent = []\<rparr> = Some (0, c') \<and>
      str_len (r_content (c_req c')) = 2) \<and>
   (\<exists>c'. http_process_request_body test_recv \<lparr>c_mem = test_mem (lit ''ab''),
      c_req = zero_request\<lparr>r_header := test_buffer 2\<rparr>, c_world = 0, c_sent = []\<rparr> = Some (-1, c'))"
proof -
  let ?c = "\<lparr>c_mem = (\<lambda>_. 0), c_req = zero_request\<lparr>r_header := test_buffer 0, r_content_len := 2\<rparr>, c_world = 0 :: nat, c_sent = []\<rparr>"
  have "\<exists>c1. recv_n test_recv 2 ?c = Some c1 \<and> body_complete c1"
    by (simp add: numeral_2_eq_2 recv_step_def recv_http_request_def test_recv_def test_buffer_def body_complete_def zero_request_def lit_def)
  with request_body_exact [OF test_recv_ok, of ?c]
  have "\<exists>c'. http_process_request_body test_recv ?c = Some (0, c') \<and> str_len (r_content (c_req c')) = 2" by auto
  moreover have "\<exists>c'. http_process_request_body test_recv \<lparr>c_mem = test_mem (lit ''ab''),
      c_req = zero_request\<lparr>r_header := test_buffer 2\<rparr>, c_world = 0, c_sent = []\<rparr> = Some (-1, c')"
    using request_body_exact [OF test_recv_ok, of "\<lparr>c_mem = test_mem (lit ''ab''),
      c_req = zero_request\<lparr>r_header := test_buffer 2\<rparr>, c_world = 0, c_sent = []\<rparr>"]
    by (auto simp: zero_request_def)
  ultimately show ?thesis by blast
qed

end
