(* ===== verification/Startup.thy ===== *)
theory Startup
  imports Worker Env
begin

text \<open>
  \<open>http/http.c\<close>: how a worker process is initialised from the configuration. The parameters of
  \<open>http_request_init\<close> (the allocator, the blocks of its hash table, the memory) are passed on.
\<close>

text \<open>The value returned, with the worker when it is 0. The size is a \<open>size_t\<close>: a negative number becomes huge.\<close>

definition worker_process_init ::
  "conf list \<Rightarrow> int \<Rightarrow> allocator \<Rightarrow> ptr \<Rightarrow> ht_heap \<Rightarrow> ptr list \<Rightarrow> ptr \<Rightarrow> ptr \<Rightarrow> mem \<Rightarrow> (ptr \<Rightarrow> http_request) \<Rightarrow>
   (int \<times> 'w worker option) cres option" where
  "worker_process_init config conns a addr H blocks at at' m structs =
     (case conf_string config ''client_header_buffer_kbytes'' of
        UB \<Rightarrow> Some UB | Abort \<Rightarrow> Some Abort | Exit e \<Rightarrow> Some (Exit e)
      | Ret c \<Rightarrow>
          (case (if str_equal c (lit ''default'') then Ret 2
                 else cbind (atoi c) (\<lambda>v. Ret (nat (v mod 2 ^ 64)))) of
             UB \<Rightarrow> Some UB | Abort \<Rightarrow> Some Abort | Exit e \<Rightarrow> Some (Exit e)
           | Ret sz \<Rightarrow>
               if \<not> str_equal c (lit ''default'') \<and> (sz = 0 \<or> sz > 4) then Some (Ret (-1, None))
               else case http_request_init sz None None None conns a addr H blocks at at' m structs of
                      None \<Rightarrow> None
                    | Some res \<Rightarrow> Some (cbind res (\<lambda>wk. Ret (0, Some wk)))))"

lemma size_accepted:
  assumes "int_range v" and "nat (v mod 2 ^ 64) \<noteq> 0" and "nat (v mod 2 ^ 64) \<le> 4"
  shows "1 \<le> v \<and> v \<le> 4 \<and> nat (v mod 2 ^ 64) = nat v"
proof (cases "0 \<le> v")
  case True
  with assms(1) have "v mod 2 ^ 64 = v" by (simp add: int_range_def INT_MAX_def)
  with assms True show ?thesis by auto
next
  case False
  with assms(1) have "(v + 2 ^ 64) mod 2 ^ 64 = v + 2 ^ 64" by (intro mod_pos_pos_trivial) (auto simp: int_range_def INT_MAX_def)
  then have "v mod 2 ^ 64 = v + 2 ^ 64" by simp
  with assms False show ?thesis by (auto simp: int_range_def INT_MAX_def)
qed

lemma init_one_connection: "http_request_init k lh hh bh 1 a addr H blocks at at' m structs = Some Abort"
  by (simp add: http_request_init_def memcache_create_def Let_def)

text \<open>Starting a worker from the configuration: when the key is present and its number fits an \<open>int\<close>,
  initialisation always comes to an end, in exactly one of these ways. It reports -1 for a buffer size
  outside 1 to 4 KiB; it fails an assertion when the configured number of connections is 1, which
  \<open>set_worker_env\<close> accepts; it ends the process when memory runs out; or it leaves a worker that
  satisfies the invariant under which every request is served.\<close>

theorem worker_start_up:
  assumes "conf_string config ''client_header_buffer_kbytes'' = Ret c"
    and "c = lit ''default'' \<or> atoi c = Ret v" and "0 < conns" and "alloc_ok a"
    and "\<forall>p \<in> addrs a. p + 4096 < 2 ^ 64 - 1"
    and "\<forall>p. lc_array (structs p)"
    and "at \<noteq> 0" and "b1 \<noteq> 0" and "b2 \<noteq> 0" and "b1 \<noteq> b2"
    and "b1 < addr \<or> addr + 2064 \<le> b1" and "b2 < addr \<or> addr + 2064 \<le> b2"
  shows "\<exists>res :: (int \<times> 'w worker option) cres.
    worker_process_init config conns a addr H [b1, b2] at at' m structs = Some res \<and>
    (if c \<noteq> lit ''default'' \<and> (v < 1 \<or> v > 4) then res = Ret (-1, None)
     else if conns = 1 then res = Abort
     else res = Exit (-1) \<or> res = Exit (-2) \<and> addr = 0 \<or>
       (\<exists>wk. res = Ret (0, Some wk) \<and> worker_wf wk {} (set (a_live a)) \<and>
          wk_client_header_size wk = (if c = lit ''default'' then 2048 else 1024 * nat v)))"
proof -
  let ?init = "\<lambda>k. case http_request_init k None None None conns a addr H [b1, b2] at at' m structs of
    None \<Rightarrow> None | Some res \<Rightarrow> Some (cbind res (\<lambda>wk :: 'w worker. Ret (0 :: int, Some wk)))"
  have init: "\<exists>res. ?init k = Some res \<and>
     (if conns = 1 then res = Abort
      else res = Exit (-1) \<or> res = Exit (-2) \<and> addr = 0 \<or>
       (\<exists>wk. res = Ret (0, Some wk) \<and> worker_wf wk {} (set (a_live a)) \<and> wk_client_header_size wk = 1024 * k))"
    if "1 \<le> k" "k \<le> 4" for k
  proof (cases "conns = 1")
    case True
    then show ?thesis by (simp add: init_one_connection)
  next
    case False
    with assms(3) have "2 \<le> conns" by simp
    from request_init_wf [OF that this assms(4-12), where 'a = 'w and H = H and at' = at' and m = m] False show ?thesis by auto
  qed
  show ?thesis
  proof (cases "c = lit ''default''")
    case True
    with assms(1) have "worker_process_init config conns a addr H [b1, b2] at at' m structs = ?init 2"
      by (simp add: worker_process_init_def str_equal_def)
    with init [of 2] True show ?thesis by auto
  next
    case False
    with assms(2) have v: "atoi c = Ret v" by simp
    let ?size = "nat (v mod 2 ^ 64)"
    have run: "worker_process_init config conns a addr H [b1, b2] at at' m structs =
      (if ?size = 0 \<or> ?size > 4 then Some (Ret (-1, None)) else ?init ?size)"
      using False v assms(1) by (simp add: worker_process_init_def str_equal_def)
    show ?thesis
    proof (cases "?size = 0 \<or> ?size > 4")
      case True
      then have "\<not> (1 \<le> v \<and> v \<le> 4)" by auto
      with True False run show ?thesis by auto
    next
      case ok: False
      with size_accepted [OF atoi_range [OF v]] have "1 \<le> v" "v \<le> 4" "?size = nat v" by auto
      with init [of "nat v"] ok False run show ?thesis by auto
    qed
  qed
qed

theorem worker_start_up_witness:
  "(worker_process_init [\<lparr>cf_addr = 8, cf_key = lit ''client_header_buffer_kbytes'' @ [0], cf_value = lit ''9'' @ [0]\<rparr>]
      1024 test_alloc 4096 empty_heap [7000, 7100] 500 600 (\<lambda>_. 0) (\<lambda>_. zero_request) :: (int \<times> nat worker option) cres option) =
    Some (Ret (-1, None))"
proof -
  let ?config = "[\<lparr>cf_addr = 8, cf_key = lit ''client_header_buffer_kbytes'' @ [0], cf_value = lit ''9'' @ [0]\<rparr>]"
  have c: "conf_string ?config ''client_header_buffer_kbytes'' = Ret (lit ''9'')"
    by (simp add: conf_string_def conf_value_def str_equal_def cstr_def lit_def)
  have v: "atoi (lit ''9'') = Ret 9"
    by (simp add: atoi_def lit_def isspace_def is_digit_def digit_val_def dec_value_def to_int_def int_range_def INT_MAX_def)
  have al: "\<forall>p \<in> addrs test_alloc. p + 4096 < 2 ^ 64 - 1" by (simp add: addrs_def test_alloc_def)
  have "lit ''9'' \<noteq> lit ''default''" by (simp add: lit_def)
  with worker_start_up [OF c disjI2 [OF v] _ test_alloc_ok al, of 1024 "\<lambda>_. zero_request" 500 7000 7100 4096 empty_heap 600 "\<lambda>_. 0"]
  show ?thesis by auto
qed

end
