(* ===== verification/Server.thy ===== *)
theory Server
  imports Net Master Logger Startup
begin

text \<open>
  The program as a whole: the listening socket and the accept lock (\<open>process.c\<close>), the table of signal handlers (\<open>signal.c\<close>), the start of the master and
  \<open>main.c\<close>. What the outside world answers during a start is the record \<open>boot\<close>.
\<close>

subsection \<open>Services\<close>

text \<open>The callbacks are of arbitrary types.\<close>

record ('m, 'w, 'r) service =
  master_init_proc :: "'m option"
  worker_init_proc :: "'w option"
  request_handler :: 'r

definition register_service :: "'m option \<Rightarrow> 'w option \<Rightarrow> 'r \<Rightarrow> ('m, 'w, 'r) service" where
  "register_service master_proc worker_proc handler =
     \<lparr>master_init_proc = master_proc, worker_init_proc = worker_proc, request_handler = handler\<rparr>"

definition http_init where
  "http_init = register_service (None :: unit option) (Some worker_process_init) http_request_handler"

subsection \<open>Signals\<close>

datatype proc_type = MASTER_PROCESS | WORKER_PROCESS

datatype disposition = Handled | Ignored

definition signals :: "(signal \<times> disposition) list" where
  "signals = [(SIGQUIT, Handled), (SIGTERM, Handled), (SIGINT, Handled), (SIGHUP, Handled), (SIGCHLD, Handled), (SIGSYS, Ignored), (SIGPIPE, Ignored)]"

text \<open>The loop in front finds the entry of the signal and does nothing with it. \<open>pids\<close> are the children that \<open>waitpid\<close> reports. A process has the state
  of a master and that of a worker, one of which is in use.\<close>

definition signal_handler :: "proc_type \<Rightarrow> int list \<Rightarrow> signal \<Rightarrow> master_state \<times> worker_state \<Rightarrow> master_state \<times> worker_state" where
  "signal_handler g_process_type pids signo mw =
     (case g_process_type of
        MASTER_PROCESS \<Rightarrow> (master_signal_handler pids signo (fst mw), snd mw)
      | WORKER_PROCESS \<Rightarrow> (fst mw, worker_signal_handler signo (snd mw)))"

text \<open>\<open>sigaction\<close> succeeds or not for each signal; what is installed.\<close>

fun install :: "(signal \<Rightarrow> bool) \<Rightarrow> (signal \<times> disposition) list \<Rightarrow> (signal \<Rightarrow> disposition option) \<Rightarrow> (signal \<Rightarrow> disposition option) cres" where
  "install sigaction [] acts = Ret acts"
| "install sigaction ((signo, h) # sigs) acts = (if \<not> sigaction signo then Exit 0 else install sigaction sigs (acts(signo \<mapsto> h)))"

definition signal_init :: "(signal \<Rightarrow> bool) \<Rightarrow> (signal \<Rightarrow> disposition option) cres" where
  "signal_init sigaction = install sigaction signals (\<lambda>_. None)"

definition SHUTDOWN_SIGNAL :: signal where "SHUTDOWN_SIGNAL = SIGQUIT"

definition TERMINATE_SIGNAL :: signal where "TERMINATE_SIGNAL = SIGINT"

subsection \<open>The start\<close>

text \<open>The listening socket, and the lock in the shared memory.\<close>

definition tcp_srv_init :: "(u8 list \<Rightarrow> u32 option) \<Rightarrow> server_calls \<Rightarrow> env \<Rightarrow> shm \<Rightarrow> (int \<times> tcp_socket \<times> ptr \<times> shm) run" where
  "tcp_srv_init inet_pton sc e sh =
     run_bind (Some (create_tcp_server inet_pton sc (g_server_addr e) (g_server_port e))) (\<lambda>(listen_fd, s).
     run_bind (map_option Ret (shm_alloc sizeof_spinlock_t sh)) (\<lambda>(accept_lock, sh1).
       if accept_lock = 0 then Some (Exit 0) else ret (listen_fd, s, accept_lock, sh1)))"

record boot =
  bt_fork :: int
  bt_argv :: "ptr list"
  bt_environ :: "ptr list"
  bt_strings_end :: ptr
  bt_mem :: mem
  bt_alloc :: "nat \<Rightarrow> ptr"
  bt_conf :: "u8 list option"
  bt_heap :: allocator
  bt_ncpu :: int
  bt_page_size :: nat
  bt_shm_page :: "ptr option"
  bt_logfile :: "bool \<times> int \<times> int"
  bt_pages :: "ptr list"
  bt_queue :: log_queue
  bt_slots :: "log_buff slots"
  bt_write :: "nat \<Rightarrow> nat"
  bt_calls :: server_calls
  bt_pton :: "u8 list \<Rightarrow> u32 option"
  bt_pid :: nat
  bt_pidfile_ok :: bool
  bt_pidfile :: "u8 list option"

record server =
  srv_env :: env
  srv_shm :: shm
  srv_log :: log_state
  logger_id :: nat
  listen_fd :: int
  srv_socket :: tcp_socket
  accept_lock :: ptr
  srv_title :: "ptr list \<times> ptr list \<times> mem"
  srv_pidfile :: "u8 list option"
  srv_master :: master_state

text \<open>\<open>process_init\<close> with all it calls: the title, the file with the pid, the slot of the master in the logger, and the table of
  workers of \<open>Master\<close>.\<close>

definition process_init_full :: "boot \<Rightarrow> env \<Rightarrow> ptr list \<times> ptr list \<times> mem \<Rightarrow> log_state \<Rightarrow>
    ((ptr list \<times> ptr list \<times> mem) \<times> u8 list option \<times> nat \<times> log_state \<times> master_state) run" where
  "process_init_full b e title lg =
     (case title of (argv, environ, m) \<Rightarrow>
        run_bind (Some (set_proc_title (bt_strings_end b) argv (lit ''cserv: master process'') m)) (\<lambda>m1.
        run_bind (Some (create_pidfile (bt_pidfile_ok b) (int (bt_pid b)))) (\<lambda>pidfile.
        run_bind (map_option Ret (log_worker_alloc (bt_page_size b) (bt_write b) (bt_pid b) lg)) (\<lambda>((r, i), lg1).
        run_bind (Some (process_init e r (bt_ncpu b))) (\<lambda>mst.
          ret ((argv, environ, m1), pidfile, i, lg1, mst))))))"

text \<open>The settings, which the globals hold before they are set, are 0.\<close>

definition load_settings :: "boot \<Rightarrow> env cres" where
  "load_settings b =
     cbind (load_conf (bt_conf b) [] (bt_heap b)) (\<lambda>(config, _).
     cbind (conf_env_init (bt_ncpu b) (int (bt_page_size b)) config zero_env) (\<lambda>(_, e). Ret e))"

definition start_service :: "boot \<Rightarrow> server run" where
  "start_service b =
     run_bind (Some (sys_daemon (bt_fork b))) (\<lambda>_.
     run_bind (proc_title_init (bt_alloc b) (bt_argv b) (bt_environ b) (bt_mem b)) (\<lambda>title.
     run_bind (Some (load_settings b)) (\<lambda>e.
     run_bind (Some (shm_init (bt_shm_page b) (word_of_nat (bt_page_size b)))) (\<lambda>sh.
     run_bind (log_init e (bt_logfile b) (bt_pages b) (bt_queue b) (bt_slots b) sh) (\<lambda>(lg, sh1).
     run_bind (tcp_srv_init (bt_pton b) (bt_calls b) e sh1) (\<lambda>(fd, s, lock, sh2).
     run_bind (process_init_full b e title lg) (\<lambda>(title1, pidfile, i, lg1, mst).
       ret \<lparr>srv_env = e, srv_shm = sh2, srv_log = lg1, logger_id = i, listen_fd = fd, srv_socket = s, accept_lock = lock,
            srv_title = title1, srv_pidfile = pidfile, srv_master = mst\<rparr>)))))))"

subsection \<open>The program\<close>

definition print_env :: "int \<Rightarrow> env \<Rightarrow> u8 list" where
  "print_env ncpu e =
     lit ''Number of processor(s)    : '' @ print_d ncpu @ [LF] @
     lit ''Log file path             : '' @ g_log_path e @ [LF] @
     lit ''Logging level             : '' @ g_log_strlevel e @ [LF] @
     lit ''Number of work processes  : '' @ print_d (g_worker_processes e) @ [LF] @
     lit ''Connection of each worker : '' @ print_d (g_worker_connections e) @ [LF] @
     lit ''Coroutine stack size      : '' @ print_d (g_coro_stack_kbytes e) @ lit ''KiB'' @ [LF] @
     lit ''Web server listen port    : '' @ (case g_server_addr e of Some a \<Rightarrow> a | None \<Rightarrow> lit ''localhost'') @ [ch_colon] @ print_d (g_server_port e) @ [LF]"

text \<open>What \<open>main\<close> does: it returns with a status, prints the settings, sends a signal to the process in the file, or goes on as the master.\<close>

datatype main_out = Returns int | Shows "u8 list" | Sends int signal | Serves server

definition send_signal :: "boot \<Rightarrow> signal \<Rightarrow> main_out cres" where
  "send_signal b signo = cbind (read_pidfile (bt_pidfile b)) (\<lambda>pid. Ret (Sends pid signo))"

definition main :: "u8 list list \<Rightarrow> boot \<Rightarrow> main_out run" where
  "main argv b =
     (if length argv \<noteq> 2 then ret (Returns 0)
      else if str_equal (argv ! 1) (lit ''conf'') then run_bind (Some (load_settings b)) (\<lambda>e. ret (Shows (print_env (bt_ncpu b) e)))
      else if str_equal (argv ! 1) (lit ''stop'') then Some (send_signal b SHUTDOWN_SIGNAL)
      else if str_equal (argv ! 1) (lit ''exit'') then Some (send_signal b TERMINATE_SIGNAL)
      else if \<not> str_equal (argv ! 1) (lit ''start'') then ret (Returns 1)
      else run_bind (start_service b) (\<lambda>sv. ret (Serves sv)))"

subsection \<open>A start in a world that cooperates\<close>

lemma run_bind_simps [simp]:
  "run_bind (Some (Ret a)) f = f a" "run_bind (Some (Exit n)) f = Some (Exit n)" "run_bind None f = None" "run_bind (ret a) f = f a"
  by (simp_all add: run_bind_def ret_def)

text \<open>The system calls of a start with \<open>w\<close> workers succeed.\<close>

definition world_ok :: "boot \<Rightarrow> nat \<Rightarrow> bool" where
  "world_ok b w \<longleftrightarrow> bt_fork b \<le> 0 \<and> bt_page_size b = 4096 \<and> (\<exists>addr > 0. bt_shm_page b = Some addr) \<and>
     fst (snd (bt_logfile b)) > 0 \<and> snd (snd (bt_logfile b)) > 0 \<and> w + 1 \<le> length (bt_pages b) \<and> 0 \<notin> set (bt_pages b) \<and>
     (\<forall>n. n \<le> bt_write b n) \<and> sc_socket (bt_calls b) \<noteq> -1 \<and> sc_reuse (bt_calls b) \<and> sc_getfl (bt_calls b) \<and> sc_setfl (bt_calls b) \<and>
     sc_bind (bt_calls b) \<and> sc_listen (bt_calls b) \<and> 0 < bt_pid b \<and> int (bt_pid b) \<le> INT_MAX \<and> bt_pidfile_ok b \<and> bt_ncpu b \<noteq> 0"

text \<open>The allocations from the shared page, one by one.\<close>

lemma startup_allocs:
  assumes "0 < addr" and "w \<le> 64" and "shm_init (Some addr) 4096 = Ret sh"
  obtains lock obj alock sh1 sh2 sh3 where "shm_alloc sizeof_spinlock_t sh = Some (lock, sh1)" "lock \<noteq> 0"
    "shm_alloc (56 * (word_of_nat w + 1)) sh1 = Some (obj, sh2)" "obj \<noteq> 0" "shm_alloc sizeof_spinlock_t sh2 = Some (alock, sh3)" "alock \<noteq> 0"
proof -
  from shm_startup_fits [OF assms] obtain lock obj alock sh3 where
    a: "shm_allocs [sizeof_spinlock_t, 56 * (word_of_nat w + 1), sizeof_spinlock_t] sh = Some ([lock, obj, alock], sh3)"
    and "lock \<noteq> 0" "obj \<noteq> 0" "alock \<noteq> 0" by blast
  moreover from a obtain sh1 sh2 where "shm_alloc sizeof_spinlock_t sh = Some (lock, sh1)" "shm_alloc (56 * (word_of_nat w + 1)) sh1 = Some (obj, sh2)"
    "shm_alloc sizeof_spinlock_t sh2 = Some (alock, sh3)" by (auto split: option.splits prod.splits)
  ultimately show ?thesis using that by blast
qed

lemma level_str: "log_str_level (STR_LOG_LEVEL lv) = Ret lv"
  by (cases lv) (simp_all add: log_str_level_def str_equal_def lit_def)

lemma log_init_works:
  assumes "g_worker_processes e = int w" and "g_log_strlevel e = STR_LOG_LEVEL lv" and "w + 1 \<le> length pages" and "0 \<notin> set pages"
    and "fst (snd logfile) > 0" "snd (snd logfile) > 0" and "shm_alloc sizeof_spinlock_t sh = Some (lock, sh1)" "lock \<noteq> 0"
    and "shm_alloc (56 * (word_of_nat w + 1)) sh1 = Some (obj, sh2)" "obj \<noteq> 0"
  shows "\<exists>lg. log_init e logfile pages q0 h0 sh = Some (Ret (lg, sh2))"
proof -
  have n: "nat (g_worker_processes e + 1) = w + 1" using assms(1) by simp
  have mult: "word_of_nat (sizeof_logger * (w + 1)) = (56 * (word_of_nat w + 1) :: u64)" by (simp add: sizeof_logger_def)
  have "0 \<notin> set (take (w + 1) pages)" using assms(4) set_take_subset by fast
  moreover obtain d where "(case logfile of (accessible, fd_old, fd_new) \<Rightarrow> gen_logfile_fd accessible fd_old fd_new) = Ret d"
    using assms(5,6) by (cases logfile; cases "fst logfile") (auto simp: gen_logfile_fd_def Let_def)
  ultimately show ?thesis using assms(2,7-10) unfolding log_init_def Let_def n mult by (simp add: level_str)
qed

lemma title_total: "(case t of (a, b, c) \<Rightarrow> f a b c) = f (fst t) (fst (snd t)) (snd (snd t))"
  by (cases t) simp

lemma process_init_full_works:
  assumes "world_ok b w" and "g_worker_processes e = int w" and "log_ready 4096 (bt_write b) lg" and "free_slot (log_object lg) 0 = Some i"
    and "hd (fst title) + 22 \<le> bt_strings_end b"
  shows "\<exists>title1 lg1 mst. process_init_full b e title lg = ret (title1, Some (dec_digits (bt_pid b)), i, lg1, mst) \<and>
    log_worker_alloc 4096 (bt_write b) (bt_pid b) lg = Some ((0, i), lg1) \<and> process_init e 0 (bt_ncpu b) = Ret mst"
proof -
  have w: "bt_page_size b = 4096" "bt_pid b \<noteq> 0" "bt_pidfile_ok b" "bt_ncpu b \<noteq> 0" using assms(1) by (simp_all add: world_ok_def)
  from log_worker_alloc_free [OF assms(3,4) w(2)] obtain lg1 where lg1: "log_worker_alloc 4096 (bt_write b) (bt_pid b) lg = Some ((0, i), lg1)" by blast
  moreover obtain mst where "process_init e 0 (bt_ncpu b) = Ret mst" using w(4) by (simp add: process_init_def)
  moreover obtain m1 where "set_proc_title (bt_strings_end b) (fst title) (lit ''cserv: master process'') (snd (snd title)) = Ret m1"
    using assms(5) by (simp add: set_proc_title_def lit_def)
  ultimately show ?thesis using w by (simp add: process_init_full_def title_total create_pidfile_def print_d_def ret_def)
qed

lemma process_init_table: "process_init e r ncpu = Ret mst \<Longrightarrow> length (m_worker mst) = nat (g_worker_processes e)"
  by (auto simp: process_init_def split: if_splits)

lemma start_service_works:
  assumes world: "world_ok b w" and settings: "load_settings b = Ret e" and e: "g_worker_processes e = int w" "w \<le> 64" "g_log_strlevel e = STR_LOG_LEVEL lv"
    and title: "proc_title_init (bt_alloc b) (bt_argv b) (bt_environ b) (bt_mem b) = Some (Ret t)" "hd (bt_argv b) + 22 \<le> bt_strings_end b"
  shows "\<exists>sv. start_service b = ret sv \<and> srv_env sv = e \<and> log_ready 4096 (bt_write b) (srv_log sv) \<and> length (log_object (srv_log sv)) = w + 1 \<and>
    logger_id sv = 0 \<and> (\<forall>i \<le> w. lg_pid (log_object (srv_log sv) ! i) = (if i = 0 then bt_pid b else 0)) \<and>
    listen_fd sv = sc_socket (bt_calls b) \<and> listening (ip_to_nl (bt_pton b) (g_server_addr e)) (word_of_int (g_server_port e)) (srv_socket sv) \<and>
    accept_lock sv \<noteq> 0 \<and> srv_pidfile sv = Some (dec_digits (bt_pid b)) \<and> process_init e 0 (bt_ncpu b) = Ret (srv_master sv)"
proof -
  note w = world [unfolded world_ok_def]
  from w obtain addr where addr: "0 < addr" "bt_shm_page b = Some addr" by blast
  obtain sh where sh: "shm_init (Some addr) 4096 = Ret sh" by (simp add: shm_init_def)
  from startup_allocs [OF addr(1) e(2) sh] obtain lock obj alock sh1 sh2 sh3 where al: "shm_alloc sizeof_spinlock_t sh = Some (lock, sh1)" "lock \<noteq> 0"
    "shm_alloc (56 * (word_of_nat w + 1)) sh1 = Some (obj, sh2)" "obj \<noteq> 0" "shm_alloc sizeof_spinlock_t sh2 = Some (alock, sh3)" "alock \<noteq> 0" .
  have fits: "w + 1 \<le> length (bt_pages b)" "0 \<notin> set (bt_pages b)" and fds: "fst (snd (bt_logfile b)) > 0" "snd (snd (bt_logfile b)) > 0"
    and wr: "\<And>n. n \<le> bt_write b n" using w by auto
  from log_init_works [OF e(1,3) fits fds al(1-4), of "bt_queue b" "bt_slots b"] obtain lg where
    lg: "log_init e (bt_logfile b) (bt_pages b) (bt_queue b) (bt_slots b) sh = Some (Ret (lg, sh2))" by blast
  have "nat (g_worker_processes e + 1) \<le> length (bt_pages b)" using e(1) fits(1) by simp
  from log_init_ready [OF lg this fds, of 4096 "bt_write b"] wr e(1) have
    r: "log_ready 4096 (bt_write b) lg" "length (log_object lg) = w + 1" "\<forall>log \<in> set (log_object lg). lg_pid log = 0" by (simp_all add: BUFF_SIZE_def)
  have free: "free_slot (log_object lg) 0 = Some 0" using r(2,3) by (cases "log_object lg") simp_all
  have pid: "bt_pid b \<noteq> 0" using w by simp
  have "hd (fst t) + 22 \<le> bt_strings_end b" using proc_title_init_first [OF title(1)] title(2) by simp
  from process_init_full_works [OF world e(1) r(1) free this] obtain t1 lg1 mst where
    p: "process_init_full b e t lg = ret (t1, Some (dec_digits (bt_pid b)), 0, lg1, mst)"
      "log_worker_alloc 4096 (bt_write b) (bt_pid b) lg = Some ((0, 0), lg1)" "process_init e 0 (bt_ncpu b) = Ret mst" by blast
  from log_worker_alloc_free [OF r(1) free pid] p(2) have
    l1: "log_ready 4096 (bt_write b) lg1" "length (log_object lg1) = w + 1" "lg_pid (log_object lg1 ! 0) = bt_pid b"
      "\<forall>j. j \<noteq> 0 \<longrightarrow> log_object lg1 ! j = log_object lg ! j" using r(2) by auto
  from create_tcp_server_works [of "bt_calls b" "bt_pton b" "g_server_addr e" "g_server_port e"] w obtain s where
    s: "create_tcp_server (bt_pton b) (bt_calls b) (g_server_addr e) (g_server_port e) = Ret (sc_socket (bt_calls b), s)" by blast
  have slots: "lg_pid (log_object lg1 ! i) = (if i = 0 then bt_pid b else 0)" if "i \<le> w" for i using l1(3,4) r(2,3) that by simp
  define sv where "sv = \<lparr>srv_env = e, srv_shm = sh3, srv_log = lg1, logger_id = 0, listen_fd = sc_socket (bt_calls b), srv_socket = s,
      accept_lock = alock, srv_title = t1, srv_pidfile = Some (dec_digits (bt_pid b)), srv_master = mst\<rparr>"
  have "start_service b = ret sv" using w by (simp add: sv_def start_service_def sys_daemon_def title(1) settings addr(2) sh lg tcp_srv_init_def s al(5,6) p(1))
  with create_tcp_server_listens [OF s] l1 slots p(3) al(6) show ?thesis by (intro exI [of _ sv]) (simp add: sv_def)
qed

subsection \<open>The slots of the workers\<close>

text \<open>New processes ask for a slot one after the other.\<close>

fun worker_allocs :: "nat \<Rightarrow> (nat \<Rightarrow> nat) \<Rightarrow> nat list \<Rightarrow> log_state \<Rightarrow> ((int \<times> nat) list \<times> log_state) option" where
  "worker_allocs page_size wr [] lg = Some ([], lg)"
| "worker_allocs page_size wr (pid # pids) lg =
     Option.bind (log_worker_alloc page_size wr pid lg) (\<lambda>(r, lg1).
     Option.bind (worker_allocs page_size wr pids lg1) (\<lambda>(rs, lg2). Some (r # rs, lg2)))"

lemma free_slot_first:
  assumes "k < length logs" and "\<And>i. i < length logs \<Longrightarrow> lg_pid (logs ! i) = 0 \<longleftrightarrow> k \<le> i"
  shows "free_slot logs 0 = Some k"
proof (cases "free_slot logs 0")
  case None
  then have "\<forall>log \<in> set logs. lg_pid log \<noteq> 0" by (simp only: free_slot_None)
  with assms show ?thesis by (metis le_refl nth_mem)
next
  case (Some i)
  from free_slot_Some [OF Some] obtain j where "j < length logs" "i = j" "lg_pid (logs ! j) = 0" "\<forall>j' < j. lg_pid (logs ! j') \<noteq> 0" by auto
  with assms Some show ?thesis by (metis le_refl nat_less_le)
qed

lemma worker_allocs_in_order:
  assumes "log_ready page_size wr lg" and "\<And>i. i < length (log_object lg) \<Longrightarrow> lg_pid (log_object lg ! i) = 0 \<longleftrightarrow> k \<le> i"
    and "k + length pids \<le> length (log_object lg)" and "0 \<notin> set pids"
  shows "\<exists>lg'. worker_allocs page_size wr pids lg = Some (map (Pair 0) [k..<k + length pids], lg') \<and> log_ready page_size wr lg'"
  using assms
proof (induction pids arbitrary: lg k)
  case (Cons pid pids)
  then have k: "k < length (log_object lg)" "pid \<noteq> 0" by auto
  from log_worker_alloc_free [OF Cons.prems(1) free_slot_first [OF k(1) Cons.prems(2)] k(2)] obtain lg1 where
    lg1: "log_worker_alloc page_size wr pid lg = Some ((0, k), lg1)" "log_ready page_size wr lg1" "length (log_object lg1) = length (log_object lg)"
      "lg_pid (log_object lg1 ! k) = pid" "\<forall>j. j \<noteq> k \<longrightarrow> log_object lg1 ! j = log_object lg ! j" by blast
  have "lg_pid (log_object lg1 ! i) = 0 \<longleftrightarrow> Suc k \<le> i" if "i < length (log_object lg1)" for i
    using lg1(3-5) Cons.prems(2) [of i] k(2) that by (cases "i = k") auto
  with Cons.IH [OF lg1(2), of "Suc k"] Cons.prems(3,4) lg1(3) obtain lg' where
    "worker_allocs page_size wr pids lg1 = Some (map (Pair 0) [Suc k..<Suc k + length pids], lg')" "log_ready page_size wr lg'" by auto
  moreover have "[k..<k + length (pid # pids)] = k # [Suc k..<Suc k + length pids]" by (subst upt_conv_Cons) simp_all
  ultimately show ?case using lg1(1) by (simp del: upt_Suc)
qed simp

subsection \<open>Properties\<close>

text \<open>C10. The server starts: when the configuration file sets the documented keys to values in their ranges and the system calls succeed, \<open>cserv start\<close> comes
  to the loop of the master with exactly the settings of the file, a socket that listens without blocking at the configured address and port,
  an accept lock in the shared page, and a logger with one slot for the master, which has taken it, and one for each worker, so that as many workers
  as are configured get theirs; the table of workers satisfies the invariant of the master; and the file with the pid makes
  \<open>cserv stop\<close> and \<open>cserv exit\<close> send \<open>SIGQUIT\<close> and \<open>SIGINT\<close> to this master. The title of the master, 22 bytes, must fit into the
  strings of the arguments and the environment: with less it is copied beyond them.\<close>

theorem server_starts:
  assumes config: "list_all line_fine ls" "alloc_ok (bt_heap b)" "a_supply (bt_heap b) = ps @ qs" "length ps = length (file_entries ls)" "fresh_blocks ps (bt_heap b)"
      "file_sets ls ''log_path'' path" "file_sets ls ''log_level'' (STR_LOG_LEVEL level)"
      "file_sets ls ''worker_processes'' (dec_digits w)" "int w \<le> MAX_WORKER_PROCESS"
      "file_sets ls ''worker_connections'' (dec_digits c)" "0 < c" "int c \<le> INT_MAX"
      "file_sets ls ''coroutine_stack_kbytes'' (dec_digits k)" "0 < k" "k \<le> 10240"
      "file_sets ls ''listen'' (addr @ ch_colon # dec_digits port)" "ch_colon \<notin> set addr" "0 < port" "int port \<le> INT_MAX"
    and conf: "bt_conf b = Some (file_text ls)" and world: "world_ok b w"
    and title: "proc_title_init (bt_alloc b) (bt_argv b) (bt_environ b) (bt_mem b) = Some (Ret t)" "hd (bt_argv b) + 22 \<le> bt_strings_end b"
  shows "\<exists>sv. main [prog, lit ''start''] b = ret (Serves sv) \<and>
    srv_env sv = \<lparr>g_log_path = path, g_log_strlevel = STR_LOG_LEVEL level, g_worker_processes = int w, g_worker_connections = int c,
      g_coro_stack_kbytes = (int k * 1024 + 4095) div 4096 * 4096 div 1024, g_server_addr = Some addr, g_server_port = int port\<rparr> \<and>
    listening (ip_to_nl (bt_pton b) (Some addr)) (word_of_nat port) (srv_socket sv) \<and> listen_fd sv = sc_socket (bt_calls b) \<and> accept_lock sv \<noteq> 0 \<and>
    logger_id sv = 0 \<and> lg_pid (log_object (srv_log sv) ! 0) = bt_pid b \<and>
    (\<forall>pids. length pids = w \<and> 0 \<notin> set pids \<longrightarrow>
      (\<exists>lg. worker_allocs 4096 (bt_write b) pids (srv_log sv) = Some (map (Pair 0) [1..<1 + w], lg) \<and> log_ready 4096 (bt_write b) lg)) \<and>
    master_inv (srv_master sv) \<and> length (m_worker (srv_master sv)) = w \<and>
    main [prog, lit ''stop''] (b\<lparr>bt_pidfile := srv_pidfile sv\<rparr>) = ret (Sends (int (bt_pid b)) SIGQUIT) \<and>
    main [prog, lit ''exit''] (b\<lparr>bt_pidfile := srv_pidfile sv\<rparr>) = ret (Sends (int (bt_pid b)) SIGINT)"
proof -
  let ?e = "\<lparr>g_log_path = path, g_log_strlevel = STR_LOG_LEVEL level, g_worker_processes = int w, g_worker_connections = int c,
    g_coro_stack_kbytes = (int k * 1024 + 4095) div 4096 * 4096 div 1024, g_server_addr = Some addr, g_server_port = int port\<rparr>"
  have page: "bt_page_size b = 4096" and pid: "0 < bt_pid b" "int (bt_pid b) \<le> INT_MAX" using world by (simp_all add: world_ok_def)
  from conf_file_gives_settings [OF config, of 12 "bt_ncpu b" zero_env] have settings: "load_settings b = Ret ?e"
    by (auto simp: load_settings_def conf page)
  have w: "w \<le> 64" using config(9) by (simp add: MAX_WORKER_PROCESS_def)
  from start_service_works [OF world settings _ w _ title, of level] obtain sv where sv: "start_service b = ret sv" "srv_env sv = ?e"
    "log_ready 4096 (bt_write b) (srv_log sv)" "length (log_object (srv_log sv)) = w + 1" "logger_id sv = 0"
    "\<forall>i \<le> w. lg_pid (log_object (srv_log sv) ! i) = (if i = 0 then bt_pid b else 0)" "listen_fd sv = sc_socket (bt_calls b)"
    "listening (ip_to_nl (bt_pton b) (Some addr)) (word_of_int (int port)) (srv_socket sv)" "accept_lock sv \<noteq> 0"
    "srv_pidfile sv = Some (dec_digits (bt_pid b))" "process_init ?e 0 (bt_ncpu b) = Ret (srv_master sv)" by auto
  have slots: "lg_pid (log_object (srv_log sv) ! i) = 0 \<longleftrightarrow> 1 \<le> i" if "i < length (log_object (srv_log sv))" for i
    using sv(4,6) that pid(1) by auto
  have workers: "\<exists>lg. worker_allocs 4096 (bt_write b) pids (srv_log sv) = Some (map (Pair 0) [1..<1 + w], lg) \<and> log_ready 4096 (bt_write b) lg"
    if "length pids = w" "0 \<notin> set pids" for pids
    using worker_allocs_in_order [OF sv(3) slots, of pids] sv(4) that by simp
  have read: "read_pidfile (srv_pidfile sv) = Ret (int (bt_pid b))"
    using read_created_pid [of "int (bt_pid b)"] pid sv(10) by (simp add: create_pidfile_def print_d_def)
  have table: "length (m_worker (srv_master sv)) = w" using process_init_table [OF sv(11)] by simp
  have start: "main [prog, lit ''start''] b = ret (Serves sv)" using sv(1) by (simp add: main_def str_equal_def lit_def)
  have sends: "main [prog, lit ''stop''] (b\<lparr>bt_pidfile := srv_pidfile sv\<rparr>) = ret (Sends (int (bt_pid b)) SIGQUIT)"
    "main [prog, lit ''exit''] (b\<lparr>bt_pidfile := srv_pidfile sv\<rparr>) = ret (Sends (int (bt_pid b)) SIGINT)"
    using read by (simp_all add: main_def str_equal_def lit_def send_signal_def SHUTDOWN_SIGNAL_def TERMINATE_SIGNAL_def ret_def)
  from start sends sv(2,5,6,7,8,9) workers process_init_inv [OF sv(11)] table show ?thesis by (intro exI [of _ sv]) simp
qed

definition test_boot :: boot where
  "test_boot = \<lparr>bt_fork = 0, bt_argv = [1000, 1006], bt_environ = [1012], bt_strings_end = 1023,
     bt_mem = mem_write (\<lambda>_. 0) 1000 (area [lit ''cserv'', lit ''start'', lit ''HOME=/root'']), bt_alloc = \<lambda>_. 5000,
     bt_conf = Some (file_text test_conf), bt_heap = test_supply, bt_ncpu = 8, bt_page_size = 4096, bt_shm_page = Some 8192, bt_logfile = (True, 3, 3),
     bt_pages = [16384, 20480, 24576, 28672, 32768], bt_queue = ring0, bt_slots = \<lambda>_. \<lparr>lb_len = 0, lb_buff = []\<rparr>, bt_write = \<lambda>n. n,
     bt_calls = \<lparr>sc_socket = 4, sc_reuse = True, sc_getfl = True, sc_setfl = True, sc_bind = True, sc_listen = True\<rparr>, bt_pton = \<lambda>_. Some 16777343,
     bt_pid = 321, bt_pidfile_ok = True, bt_pidfile = None\<rparr>"

lemma test_boot_title: "\<exists>t. proc_title_init (bt_alloc test_boot) (bt_argv test_boot) (bt_environ test_boot) (bt_mem test_boot) = Some (Ret t)"
proof -
  have "bytes_at (bt_mem test_boot) 1000 (length (area (lit ''cserv'' # [lit ''start''] @ [lit ''HOME=/root'']))) = area (lit ''cserv'' # [lit ''start''] @ [lit ''HOME=/root''])"
    unfolding test_boot_def append.simps boot.simps by (rule bytes_at_mem_write)
  from proc_title_init_copies [where args = "[lit ''start'']" and envs = "[lit ''HOME=/root'']", OF this, of "bt_argv test_boot" "bt_environ test_boot" "bt_alloc test_boot" 5000] show ?thesis
    by (simp add: test_boot_def lit_def)
qed

theorem server_starts_witness:
  "\<exists>sv. main [lit ''cserv'', lit ''start''] test_boot = ret (Serves sv) \<and> g_worker_processes (srv_env sv) = 4 \<and>
    listening 16777343 8081 (srv_socket sv) \<and> lg_pid (log_object (srv_log sv) ! 0) = 321 \<and> length (m_worker (srv_master sv)) = 4 \<and>
    main [lit ''cserv'', lit ''stop''] (test_boot\<lparr>bt_pidfile := srv_pidfile sv\<rparr>) = ret (Sends 321 SIGQUIT)"
proof -
  have sel: "bt_heap test_boot = test_supply" "bt_conf test_boot = Some (file_text test_conf)" "bt_pton test_boot = (\<lambda>_. Some 16777343)" "bt_pid test_boot = 321"
    by (simp_all add: test_boot_def)
  have al: "alloc_ok (bt_heap test_boot)" "a_supply (bt_heap test_boot) = [100, 200, 300, 400, 500, 600] @ []"
    unfolding sel by (simp_all add: test_supply_def alloc_ok_def)
  have len: "length [100, 200, 300, 400, 500, 600 :: nat] = length (file_entries test_conf)"
    "fresh_blocks [100, 200, 300, 400, 500, 600] (bt_heap test_boot)" unfolding test_conf_entries sel by (simp_all add: fresh_blocks_def test_supply_def)
  have colon: "ch_colon \<notin> set (lit ''127.0.0.1'')" by (simp add: lit_def)
  have level: "file_sets test_conf ''log_level'' (STR_LOG_LEVEL LEVEL_CRIT)" using test_conf_sets(2) by simp
  have world: "world_ok test_boot 4" by (simp add: world_ok_def test_boot_def INT_MAX_def)
  from test_boot_title obtain t where t: "proc_title_init (bt_alloc test_boot) (bt_argv test_boot) (bt_environ test_boot) (bt_mem test_boot) = Some (Ret t)" by blast
  have area: "hd (bt_argv test_boot) + 22 \<le> bt_strings_end test_boot" by (simp add: test_boot_def)
  from server_starts [OF test_conf_fine al len test_conf_sets(1) level test_conf_sets(3) _ test_conf_sets(4) _ _ test_conf_sets(5) _ _
      test_conf_sets(6) colon _ _ sel(2) world t area, of "lit ''cserv''"] obtain sv where
    "main [lit ''cserv'', lit ''start''] test_boot = ret (Serves sv)" "g_worker_processes (srv_env sv) = 4"
    "listening 16777343 8081 (srv_socket sv)" "lg_pid (log_object (srv_log sv) ! 0) = 321" "length (m_worker (srv_master sv)) = 4"
    "main [lit ''cserv'', lit ''stop''] (test_boot\<lparr>bt_pidfile := srv_pidfile sv\<rparr>) = ret (Sends 321 SIGQUIT)"
    by (auto simp: MAX_WORKER_PROCESS_def INT_MAX_def sel ip_to_nl_def)
  then show ?thesis by blast
qed

end
