(* ===== verification/Switch.thy ===== *)
theory Switch
  imports Shm
begin

text \<open>
  \<open>coro/switch.c\<close>: the switch between two coroutines, which is assembly for x86-64 and AArch64, and the stacks of coroutines. The
  instructions the file uses are a small machine for each architecture, with the general registers and a
  memory of 64-bit cells at addresses that are multiples of 8; the code is a list of instructions. Both machines provide what
  the locale \<open>context_switching\<close> asks for: a switch parks the caller's state on its stack, and switching
  back resumes it.
\<close>

type_synonym cells = "u64 \<Rightarrow> u64"

subsection \<open>x86-64\<close>

datatype x86_reg = RBP | RBX | R12 | R13 | R14 | R15 | RSP | RDI | RSI | RCX

datatype x86_instr = Push x86_reg | Pop x86_reg | Store x86_reg x86_reg | Load x86_reg x86_reg | Jmp x86_reg | Call x86_reg

text \<open>\<open>xctl\<close> is the floating-point control state (\<open>MXCSR\<close> and the x87 control word), which a callee has to preserve too.\<close>

record x86 =
  xr :: "x86_reg \<Rightarrow> u64"
  xm :: cells
  rip :: u64
  xctl :: u64

text \<open>\<open>ret\<close> is the address behind the code, which \<open>call\<close> pushes.\<close>

fun x86_exec :: "u64 \<Rightarrow> x86_instr \<Rightarrow> x86 \<Rightarrow> x86" where
  "x86_exec ret (Push r) s = (let sp = xr s RSP - 8 in s\<lparr>xm := (xm s)(sp := xr s r), xr := (xr s)(RSP := sp)\<rparr>)"
| "x86_exec ret (Pop r) s = (let sp = xr s RSP in s\<lparr>xr := (xr s)(RSP := sp + 8, r := xm s sp)\<rparr>)"
| "x86_exec ret (Store r b) s = s\<lparr>xm := (xm s)(xr s b := xr s r)\<rparr>"
| "x86_exec ret (Load b r) s = s\<lparr>xr := (xr s)(r := xm s (xr s b))\<rparr>"
| "x86_exec ret (Jmp r) s = s\<lparr>rip := xr s r\<rparr>"
| "x86_exec ret (Call r) s = (let sp = xr s RSP - 8 in s\<lparr>xm := (xm s)(sp := ret), xr := (xr s)(RSP := sp), rip := xr s r\<rparr>)"

definition x86_context_switch :: "x86_instr list" where
  "x86_context_switch =
     [Push RBP, Push RBX, Push R12, Push R13, Push R14, Push R15,
      Store RSP RDI, Load RSI RSP,
      Pop R15, Pop R14, Pop R13, Pop R12, Pop RBX, Pop RBP,
      Pop RCX, Jmp RCX]"

definition x86_coro_routine_entry :: "x86_instr list" where
  "x86_coro_routine_entry = [Pop RDI, Pop RCX, Call RCX]"

definition x86_NUM_SAVED :: nat where "x86_NUM_SAVED = 6"

definition x86_run :: "u64 \<Rightarrow> x86_instr list \<Rightarrow> x86 \<Rightarrow> x86" where
  "x86_run ret code s = fold (x86_exec ret) code s"

subsection \<open>AArch64\<close>

text \<open>Registers are \<open>x0\<close> to \<open>x30\<close>, where \<open>x30\<close> is \<open>lr\<close>; the stack pointer is apart; \<open>ad\<close> are the floating-point registers \<open>d0\<close> to \<open>d31\<close>. \<open>Stp\<close> and \<open>Ldp\<close> are the forms that add to the base register afterwards.\<close>

datatype arm_instr =
  Sub_sp u64 | Mov_from_sp nat | Mov_to_sp nat | Stp nat nat nat u64 | Ldp nat nat nat u64 | Str nat nat | Ldr nat nat | Br nat | Blr nat

record arm =
  ar :: "nat \<Rightarrow> u64"
  asp :: u64
  am :: cells
  apc :: u64
  ad :: "nat \<Rightarrow> u64"

fun arm_exec :: "u64 \<Rightarrow> arm_instr \<Rightarrow> arm \<Rightarrow> arm" where
  "arm_exec ret (Sub_sp n) s = s\<lparr>asp := asp s - n\<rparr>"
| "arm_exec ret (Mov_from_sp r) s = s\<lparr>ar := (ar s)(r := asp s)\<rparr>"
| "arm_exec ret (Mov_to_sp r) s = s\<lparr>asp := ar s r\<rparr>"
| "arm_exec ret (Stp r1 r2 b n) s = (let a = ar s b in s\<lparr>am := (am s)(a := ar s r1, a + 8 := ar s r2), ar := (ar s)(b := a + n)\<rparr>)"
| "arm_exec ret (Ldp r1 r2 b n) s = (let a = ar s b in s\<lparr>ar := (ar s)(b := a + n, r1 := am s a, r2 := am s (a + 8))\<rparr>)"
| "arm_exec ret (Str r b) s = s\<lparr>am := (am s)(ar s b := ar s r)\<rparr>"
| "arm_exec ret (Ldr r b) s = s\<lparr>ar := (ar s)(r := am s (ar s b))\<rparr>"
| "arm_exec ret (Br r) s = s\<lparr>apc := ar s r\<rparr>"
| "arm_exec ret (Blr r) s = s\<lparr>apc := ar s r, ar := (ar s)(30 := ret)\<rparr>"

definition arm_context_switch :: "arm_instr list" where
  "arm_context_switch =
     [Sub_sp 96, Mov_from_sp 8,
      Stp 19 20 8 16, Stp 21 22 8 16, Stp 23 24 8 16, Stp 25 26 8 16, Stp 27 28 8 16, Stp 29 30 8 16,
      Mov_from_sp 8, Str 8 0, Ldr 8 1, Mov_to_sp 8,
      Ldp 19 20 8 16, Ldp 21 22 8 16, Ldp 23 24 8 16, Ldp 25 26 8 16, Ldp 27 28 8 16, Ldp 29 30 8 16,
      Mov_to_sp 8, Br 30]"

definition arm_coro_routine_entry :: "arm_instr list" where
  "arm_coro_routine_entry = [Mov_from_sp 8, Ldp 0 9 8 16, Mov_to_sp 8, Blr 9]"

definition arm_NUM_SAVED :: nat where "arm_NUM_SAVED = 11"

definition arm_run :: "u64 \<Rightarrow> arm_instr list \<Rightarrow> arm \<Rightarrow> arm" where
  "arm_run ret code s = fold (arm_exec ret) code s"

subsection \<open>Stacks\<close>

record coro_stack =
  st_ptr :: u64
  st_size_bytes :: u64

text \<open>A \<open>struct context\<close> is the cell that holds its \<open>sp\<close>.\<close>

definition push_cell :: "u64 \<Rightarrow> u64 \<Rightarrow> cells \<Rightarrow> cells" where
  "push_cell ctx v M = (let M1 = M(ctx := M ctx - 8) in M1(M1 ctx := v))"

definition coro_stack_init :: "nat \<Rightarrow> u64 \<Rightarrow> u64 \<Rightarrow> coro_stack \<Rightarrow> u64 \<Rightarrow> u64 \<Rightarrow> cells \<Rightarrow> cells" where
  "coro_stack_init num_saved entry ctx stack routine args M =
     (let M1 = M(ctx := st_ptr stack);
          M2 = push_cell ctx entry (push_cell ctx args (push_cell ctx routine M1))
      in M2(ctx := M2 ctx - 8 * word_of_nat num_saved))"

text \<open>\<open>base\<close> is what \<open>mmap\<close> returns for the number of bytes it is asked for; the result of the call, the stack and the guard page that is made
  inaccessible. \<open>coro_stack_free\<close> gives the address and the length it unmaps.\<close>

definition coro_stack_alloc :: "u64 \<Rightarrow> (u64 \<Rightarrow> u64) \<Rightarrow> coro_stack \<Rightarrow> u64 \<Rightarrow> int \<times> coro_stack \<times> u64 option" where
  "coro_stack_alloc page_size mmap stack size_bytes =
     (let stack1 = stack\<lparr>st_size_bytes := size_bytes\<rparr>;
          len = size_bytes + page_size;
          stack2 = stack1\<lparr>st_ptr := mmap len\<rparr>
      in if st_ptr stack2 = -1 then (-1, stack2, None)
         else (0, stack2\<lparr>st_ptr := st_ptr stack2 + len\<rparr>, Some (st_ptr stack2)))"

definition coro_stack_free :: "u64 \<Rightarrow> coro_stack \<Rightarrow> coro_stack \<times> (u64 \<times> u64)" where
  "coro_stack_free page_size stack =
     (let stack1 = stack\<lparr>st_ptr := st_ptr stack - st_size_bytes stack - page_size\<rparr>
      in (stack1, (st_ptr stack1, st_size_bytes stack1 + page_size)))"

subsection \<open>What a switch promises\<close>

text \<open>\<open>n\<close> cells from \<open>f\<close> upwards.\<close>

definition frame_cells :: "nat \<Rightarrow> u64 \<Rightarrow> u64 set" where
  "frame_cells n f = set (map (\<lambda>k. f + 8 * word_of_nat k) [0..<n])"

text \<open>
  \<open>view c\<close> is what the caller of a switch expects when the call returns (registers, stack pointer and address), \<open>here c\<close> what the machine has;
  \<open>saved M f\<close> what a parked frame at \<open>f\<close> describes, in the cells \<open>frame f\<close>; \<open>spill c\<close> are the cells of the stack that a switch writes.
\<close>

locale context_switching =
  fixes switch :: "'c \<Rightarrow> 'c" and mem :: "'c \<Rightarrow> cells" and prev succ :: "'c \<Rightarrow> u64"
    and view here :: "'c \<Rightarrow> 'v" and saved :: "cells \<Rightarrow> u64 \<Rightarrow> 'v" and frame :: "u64 \<Rightarrow> u64 set" and spill :: "'c \<Rightarrow> u64 set"
  assumes writes: "a \<notin> spill c \<Longrightarrow> a \<noteq> prev c \<Longrightarrow> mem (switch c) a = mem c a"
    and saves: "prev c \<notin> frame (mem (switch c) (prev c)) \<union> spill c \<Longrightarrow> saved (mem (switch c)) (mem (switch c) (prev c)) = view c"
    and restores: "succ c \<notin> insert (prev c) (spill c) \<Longrightarrow> frame (mem c (succ c)) \<inter> insert (prev c) (spill c) = {} \<Longrightarrow>
      here (switch c) = saved (mem c) (mem c (succ c))"
    and saved_cong: "(\<And>a. a \<in> frame f \<Longrightarrow> M a = M' a) \<Longrightarrow> saved M f = saved M' f"
begin

text \<open>The cells that keep a coroutine parked by the switch \<open>c\<close>.\<close>

definition parked :: "'c \<Rightarrow> u64 set" where
  "parked c = insert (prev c) (frame (mem (switch c) (prev c)))"

lemma switch_back:
  assumes "prev c \<notin> frame (mem (switch c) (prev c)) \<union> spill c"
    and "succ d = prev c" and "\<And>a. a \<in> parked c \<Longrightarrow> mem d a = mem (switch c) a"
    and "parked c \<inter> insert (prev d) (spill d) = {}"
  shows "here (switch d) = view c"
proof -
  have f: "mem d (succ d) = mem (switch c) (prev c)" using assms(2,3) by (simp add: parked_def)
  have "here (switch d) = saved (mem d) (mem d (succ d))"
    by (rule restores) (use assms(2,4) f in \<open>auto simp: parked_def\<close>)
  also have "\<dots> = saved (mem (switch c)) (mem (switch c) (prev c))" unfolding f by (rule saved_cong) (use assms(3) in \<open>simp add: parked_def\<close>)
  also have "\<dots> = view c" by (rule saves) (rule assms(1))
  finally show ?thesis .
qed

end

definition x86_saved :: "cells \<Rightarrow> u64 \<Rightarrow> u64 list \<times> u64 \<times> u64" where
  "x86_saved M f = ([M (f + 40), M (f + 32), M (f + 24), M (f + 16), M (f + 8), M f], f + 56, M (f + 48))"

text \<open>At the entry of \<open>context_switch\<close> the return address is on top of the stack.\<close>

definition x86_view :: "x86 \<Rightarrow> u64 list \<times> u64 \<times> u64" where
  "x86_view s = (map (xr s) [RBP, RBX, R12, R13, R14, R15], xr s RSP + 8, xm s (xr s RSP))"

definition x86_here :: "x86 \<Rightarrow> u64 list \<times> u64 \<times> u64" where
  "x86_here s = (map (xr s) [RBP, RBX, R12, R13, R14, R15], xr s RSP, rip s)"

definition x86_switch :: "x86 \<Rightarrow> x86" where
  "x86_switch s = x86_run 0 x86_context_switch s"

definition arm_saved :: "cells \<Rightarrow> u64 \<Rightarrow> u64 list \<times> u64 \<times> u64" where
  "arm_saved M f = (map M [f, f + 8, f + 16, f + 24, f + 32, f + 40, f + 48, f + 56, f + 64, f + 72, f + 80], f + 96, M (f + 88))"

definition arm_view :: "arm \<Rightarrow> u64 list \<times> u64 \<times> u64" where
  "arm_view s = (map (ar s) [19, 20, 21, 22, 23, 24, 25, 26, 27, 28, 29], asp s, ar s 30)"

definition arm_here :: "arm \<Rightarrow> u64 list \<times> u64 \<times> u64" where
  "arm_here s = (map (ar s) [19, 20, 21, 22, 23, 24, 25, 26, 27, 28, 29], asp s, apc s)"

definition arm_switch :: "arm \<Rightarrow> arm" where
  "arm_switch s = arm_run 0 arm_context_switch s"

lemmas x86_code = x86_switch_def x86_run_def x86_context_switch_def

lemmas arm_code = arm_switch_def arm_run_def arm_context_switch_def

lemma frame_cells_num: "frame_cells (numeral n) f = set (map (\<lambda>k. f + 8 * word_of_nat k) [0..<numeral n])"
  by (simp add: frame_cells_def)

text \<open>The code in two halves: up to the store of the stack pointer, and from there on.\<close>

lemma x86_switch_halves: "x86_switch s = x86_run 0 (drop 7 x86_context_switch) (x86_run 0 (take 7 x86_context_switch) s)"
  by (simp only: x86_switch_def x86_run_def fold_append [symmetric, THEN fun_cong, simplified comp_apply] append_take_drop_id)

lemma x86_park:
  assumes "xr s RSP = f + 48"
  shows "xm (x86_run 0 (take 7 x86_context_switch) s) = (xm s)(f + 40 := xr s RBP, f + 32 := xr s RBX, f + 24 := xr s R12, f + 16 := xr s R13,
      f + 8 := xr s R14, f := xr s R15, xr s RDI := f)"
    "xr (x86_run 0 (take 7 x86_context_switch) s) RSI = xr s RSI"
  using assms by (simp_all add: x86_run_def x86_context_switch_def Let_def add.commute)

lemma x86_resume:
  "xm (x86_run 0 (drop 7 x86_context_switch) s) = xm s"
  "x86_here (x86_run 0 (drop 7 x86_context_switch) s) = x86_saved (xm s) (xm s (xr s RSI))"
  by (simp_all add: x86_run_def x86_context_switch_def Let_def x86_here_def x86_saved_def add.commute)

lemma arm_switch_halves: "arm_switch s = arm_run 0 (drop 10 arm_context_switch) (arm_run 0 (take 10 arm_context_switch) s)"
  by (simp only: arm_switch_def arm_run_def fold_append [symmetric, THEN fun_cong, simplified comp_apply] append_take_drop_id)

lemma arm_park:
  assumes "asp s = f + 96"
  shows "am (arm_run 0 (take 10 arm_context_switch) s) = (am s)(f := ar s 19, f + 8 := ar s 20, f + 16 := ar s 21, f + 24 := ar s 22, f + 32 := ar s 23,
      f + 40 := ar s 24, f + 48 := ar s 25, f + 56 := ar s 26, f + 64 := ar s 27, f + 72 := ar s 28, f + 80 := ar s 29, f + 88 := ar s 30, ar s 0 := f)"
    "ar (arm_run 0 (take 10 arm_context_switch) s) 1 = ar s 1"
  using assms by (simp_all add: arm_run_def arm_context_switch_def Let_def add.commute)

lemma arm_resume:
  "am (arm_run 0 (drop 10 arm_context_switch) s) = am s"
  "arm_here (arm_run 0 (drop 10 arm_context_switch) s) = arm_saved (am s) (am s (ar s 1))"
  by (simp_all add: arm_run_def arm_context_switch_def Let_def arm_here_def arm_saved_def add.commute)

lemma x86_switch_facts:
  fixes s :: x86
  assumes "xr s RSP = f + 48"
  shows "xm (x86_switch s) = (xm s)(f + 40 := xr s RBP, f + 32 := xr s RBX, f + 24 := xr s R12, f + 16 := xr s R13, f + 8 := xr s R14, f := xr s R15, xr s RDI := f)"
    and "x86_here (x86_switch s) = x86_saved (xm (x86_switch s)) (xm (x86_switch s) (xr s RSI))"
  by (simp_all only: x86_switch_halves x86_resume x86_park [OF assms])

lemma arm_switch_facts:
  fixes s :: arm
  assumes "asp s = f + 96"
  shows "am (arm_switch s) = (am s)(f := ar s 19, f + 8 := ar s 20, f + 16 := ar s 21, f + 24 := ar s 22, f + 32 := ar s 23,
      f + 40 := ar s 24, f + 48 := ar s 25, f + 56 := ar s 26, f + 64 := ar s 27, f + 72 := ar s 28, f + 80 := ar s 29, f + 88 := ar s 30, ar s 0 := f)"
    and "arm_here (arm_switch s) = arm_saved (am (arm_switch s)) (am (arm_switch s) (ar s 1))"
  by (simp_all only: arm_switch_halves arm_resume arm_park [OF assms])

lemma frame_cells_7: "frame_cells 7 f = {f, f + 8, f + 16, f + 24, f + 32, f + 40, f + 48}"
  by (simp add: frame_cells_def upt_conv_Cons insert_commute)

lemma frame_cells_6: "frame_cells 6 f = {f, f + 8, f + 16, f + 24, f + 32, f + 40}"
  by (simp add: frame_cells_def upt_conv_Cons insert_commute)

lemma frame_cells_12: "frame_cells 12 f = {f, f + 8, f + 16, f + 24, f + 32, f + 40, f + 48, f + 56, f + 64, f + 72, f + 80, f + 88}"
  by (simp add: frame_cells_def upt_conv_Cons insert_commute)

lemma x86_saved_cong: "(\<And>a. a \<in> frame_cells 7 f \<Longrightarrow> M a = M' a) \<Longrightarrow> x86_saved M f = x86_saved M' f"
  by (simp add: frame_cells_7 x86_saved_def)

lemma arm_saved_cong: "(\<And>a. a \<in> frame_cells 12 f \<Longrightarrow> M a = M' a) \<Longrightarrow> arm_saved M f = arm_saved M' f"
  by (simp add: frame_cells_12 arm_saved_def)

interpretation x86: context_switching x86_switch xm "\<lambda>s. xr s RDI" "\<lambda>s. xr s RSI" x86_view x86_here x86_saved
  "frame_cells 7" "\<lambda>s. frame_cells 6 (xr s RSP - 48)"
proof unfold_locales
  fix s :: x86 and a
  define f where "f = xr s RSP - 48"
  have f: "xr s RSP = f + 48" by (simp add: f_def)
  note sw = x86_switch_facts [OF f]
  show w: "xm (x86_switch s) a = xm s a" if "a \<notin> frame_cells 6 (xr s RSP - 48)" "a \<noteq> xr s RDI" for a
    using that by (simp add: f frame_cells_6 sw(1))
  show "x86_saved (xm (x86_switch s)) (xm (x86_switch s) (xr s RDI)) = x86_view s"
    if "xr s RDI \<notin> frame_cells 7 (xm (x86_switch s) (xr s RDI)) \<union> frame_cells 6 (xr s RSP - 48)"
  proof -
    have cell: "xm (x86_switch s) (xr s RDI) = f" by (simp add: sw(1))
    with that have "\<forall>a \<in> frame_cells 7 f. a \<noteq> xr s RDI" by auto
    then show ?thesis unfolding cell by (simp add: sw(1) f frame_cells_7 x86_saved_def x86_view_def)
  qed
  show "x86_here (x86_switch s) = x86_saved (xm s) (xm s (xr s RSI))"
    if "xr s RSI \<notin> insert (xr s RDI) (frame_cells 6 (xr s RSP - 48))"
      "frame_cells 7 (xm s (xr s RSI)) \<inter> insert (xr s RDI) (frame_cells 6 (xr s RSP - 48)) = {}"
  proof -
    have "xm (x86_switch s) (xr s RSI) = xm s (xr s RSI)" using w that(1) by simp
    moreover have "x86_saved (xm (x86_switch s)) (xm s (xr s RSI)) = x86_saved (xm s) (xm s (xr s RSI))"
      by (rule x86_saved_cong, rule w) (use that(2) in auto)
    ultimately show ?thesis by (simp add: sw(2))
  qed
qed (rule x86_saved_cong)

interpretation arm: context_switching arm_switch am "\<lambda>s. ar s 0" "\<lambda>s. ar s 1" arm_view arm_here arm_saved
  "frame_cells 12" "\<lambda>s. frame_cells 12 (asp s - 96)"
proof unfold_locales
  fix s :: arm and a
  define f where "f = asp s - 96"
  have f: "asp s = f + 96" by (simp add: f_def)
  note sw = arm_switch_facts [OF f]
  show w: "am (arm_switch s) a = am s a" if "a \<notin> frame_cells 12 (asp s - 96)" "a \<noteq> ar s 0" for a
    using that by (simp add: f frame_cells_12 sw(1))
  show "arm_saved (am (arm_switch s)) (am (arm_switch s) (ar s 0)) = arm_view s"
    if "ar s 0 \<notin> frame_cells 12 (am (arm_switch s) (ar s 0)) \<union> frame_cells 12 (asp s - 96)"
  proof -
    have cell: "am (arm_switch s) (ar s 0) = f" by (simp add: sw(1))
    with that have "\<forall>a \<in> frame_cells 12 f. a \<noteq> ar s 0" by auto
    then show ?thesis unfolding cell by (simp add: sw(1) f frame_cells_12 arm_saved_def arm_view_def)
  qed
  show "arm_here (arm_switch s) = arm_saved (am s) (am s (ar s 1))"
    if "ar s 1 \<notin> insert (ar s 0) (frame_cells 12 (asp s - 96))"
      "frame_cells 12 (am s (ar s 1)) \<inter> insert (ar s 0) (frame_cells 12 (asp s - 96)) = {}"
  proof -
    have "am (arm_switch s) (ar s 1) = am s (ar s 1)" using w that(1) by simp
    moreover have "arm_saved (am (arm_switch s)) (am s (ar s 1)) = arm_saved (am s) (am s (ar s 1))"
      by (rule arm_saved_cong, rule w) (use that(2) in auto)
    ultimately show ?thesis by (simp add: sw(2))
  qed
qed (rule arm_saved_cong)

subsection \<open>A new coroutine\<close>

lemma coro_stack_init_cells:
  fixes n :: nat
  assumes "st_ptr stack = tp" and "ctx \<notin> {tp - 8, tp - 16, tp - 24}"
  shows "coro_stack_init n entry ctx stack routine args M =
    M(tp - 8 := routine, tp - 16 := args, tp - 24 := entry, ctx := tp - (24 + 8 * word_of_nat n))"
proof -
  have ne: "tp - 8 \<noteq> ctx" "tp - 16 \<noteq> ctx" "tp - 24 \<noteq> ctx" "ctx \<noteq> tp - 8" "ctx \<noteq> tp - 16" "ctx \<noteq> tp - 24" using assms(2) by auto
  have "push_cell ctx routine (M(ctx := tp)) = M(ctx := tp - 8, tp - 8 := routine)" by (simp add: push_cell_def)
  moreover have "push_cell ctx args (M(ctx := tp - 8, tp - 8 := routine)) = M(ctx := tp - 16, tp - 8 := routine, tp - 16 := args)"
    using ne by (simp add: push_cell_def fun_upd_twist)
  moreover have "push_cell ctx entry (M(ctx := tp - 16, tp - 8 := routine, tp - 16 := args)) =
      M(ctx := tp - 24, tp - 8 := routine, tp - 16 := args, tp - 24 := entry)"
    using ne by (simp add: push_cell_def fun_upd_twist)
  ultimately show ?thesis using ne assms(1) by (simp add: coro_stack_init_def Let_def fun_upd_twist algebra_simps)
qed

lemma x86_entry:
  assumes "xr s RSP = tp - 16"
  shows "x86_run ret x86_coro_routine_entry s = s\<lparr>xm := (xm s)(tp - 8 := ret),
    xr := (xr s)(RDI := xm s (tp - 16), RCX := xm s (tp - 8), RSP := tp - 8), rip := xm s (tp - 8)\<rparr>"
  using assms by (simp add: x86_run_def x86_coro_routine_entry_def Let_def fun_eq_iff)

lemma arm_entry:
  assumes "asp s = tp - 16"
  shows "arm_run ret arm_coro_routine_entry s = s\<lparr>ar := (ar s)(8 := tp, 0 := am s (tp - 16), 9 := am s (tp - 8), 30 := ret), asp := tp, apc := am s (tp - 8)\<rparr>"
  using assms by (simp add: arm_run_def arm_coro_routine_entry_def Let_def fun_eq_iff)

text \<open>The cells of a new coroutine: its context and what \<open>coro_stack_init\<close> reserves on top of the stack.\<close>

definition fresh_cells :: "nat \<Rightarrow> u64 \<Rightarrow> u64 \<Rightarrow> u64 set" where
  "fresh_cells n ctx tp = insert ctx (frame_cells (n + 3) (tp - (24 + 8 * word_of_nat n)))"

lemma fresh_cells_6: "fresh_cells 6 ctx tp = {ctx, tp - 72, tp - 64, tp - 56, tp - 48, tp - 40, tp - 32, tp - 24, tp - 16, tp - 8}"
  by (simp add: fresh_cells_def frame_cells_def upt_conv_Cons insert_commute)

lemma fresh_cells_11: "fresh_cells 11 ctx tp =
  {ctx, tp - 112, tp - 104, tp - 96, tp - 88, tp - 80, tp - 72, tp - 64, tp - 56, tp - 48, tp - 40, tp - 32, tp - 24, tp - 16, tp - 8}"
  by (simp add: fresh_cells_def frame_cells_def upt_conv_Cons insert_commute)

lemma x86_enter:
  assumes fresh: "ctx \<notin> frame_cells 9 (st_ptr stack - 72)" "\<forall>a \<in> fresh_cells 6 ctx (st_ptr stack). xm s a = coro_stack_init 6 entry ctx stack routine args M a"
    and s: "xr s RSI = ctx" "fresh_cells 6 ctx (st_ptr stack) \<inter> insert (xr s RDI) (frame_cells 7 (xr s RSP - 48)) = {}" "xr s RDI \<notin> frame_cells 7 (xr s RSP - 48)"
  shows "let t = x86_switch s; u = x86_run ret x86_coro_routine_entry t in
    rip t = entry \<and> rip u = routine \<and> xr u RDI = args \<and> xr u RSP = st_ptr stack - 8 \<and> xm u (xr u RSP) = ret \<and>
    x86_saved (xm u) (xm u (xr s RDI)) = x86_view s"
proof -
  let ?tp = "st_ptr stack" and ?t = "x86_switch s"
  have "ctx \<notin> {?tp - 8, ?tp - 16, ?tp - 24}" using fresh(1) by (simp add: frame_cells_def upt_conv_Cons)
  note init = coro_stack_init_cells [OF refl this, of 6 entry routine args M]
  have ne: "?tp - 24 \<noteq> ctx" "?tp - 16 \<noteq> ctx" "?tp - 8 \<noteq> ctx" using fresh(1) by (auto simp: frame_cells_def upt_conv_Cons)
  have M: "xm s ctx = ?tp - 72" "xm s (?tp - 24) = entry" "xm s (?tp - 16) = args" "xm s (?tp - 8) = routine"
    using fresh(2) ne unfolding init fresh_cells_6 by simp_all
  have frame: "frame_cells 7 (?tp - 72) \<subseteq> fresh_cells 6 ctx ?tp" by (simp add: frame_cells_7 fresh_cells_6)
  have spill: "frame_cells 6 f \<subseteq> frame_cells 7 f" for f by (auto simp: frame_cells_6 frame_cells_7)
  have "x86_here ?t = x86_saved (xm s) (?tp - 72)"
    using x86.restores [of s] s(1,2) frame spill [of "xr s RSP - 48"] unfolding s(1) M(1) by (auto simp: fresh_cells_def)
  then have t: "rip ?t = entry" "xr ?t RSP = ?tp - 16" using M(2) by (simp_all add: x86_here_def x86_saved_def)
  have w: "xm ?t a = xm s a" if "a \<in> fresh_cells 6 ctx ?tp" for a
    using x86.writes [of a s] s(2) that spill [of "xr s RSP - 48"] by auto
  have u: "xm ?t (?tp - 16) = args" "xm ?t (?tp - 8) = routine" using w M(3,4) by (simp_all add: fresh_cells_6)
  define f where "f = xr s RSP - 48"
  have cell: "xm ?t (xr s RDI) = f" using x86_switch_facts(1) [of s f] by (simp add: f_def)
  have saved: "x86_saved (xm ?t) f = x86_view s" using x86.saves [of s] s(3) spill [of f] unfolding cell by (auto simp: f_def)
  have "?tp - 8 \<notin> insert (xr s RDI) (frame_cells 7 f)" using s(2) by (auto simp: fresh_cells_6 f_def)
  then have "x86_saved ((xm ?t)(?tp - 8 := ret)) f = x86_saved (xm ?t) f" "xr s RDI \<noteq> ?tp - 8" by (auto intro!: x86_saved_cong)
  with t u saved cell show ?thesis by (simp add: x86_entry [OF t(2)] Let_def)
qed

lemma arm_enter:
  assumes fresh: "ctx \<notin> frame_cells 14 (st_ptr stack - 112)" "\<forall>a \<in> fresh_cells 11 ctx (st_ptr stack). am s a = coro_stack_init 11 entry ctx stack routine args M a"
    and s: "ar s 1 = ctx" "fresh_cells 11 ctx (st_ptr stack) \<inter> insert (ar s 0) (frame_cells 12 (asp s - 96)) = {}" "ar s 0 \<notin> frame_cells 12 (asp s - 96)"
  shows "let t = arm_switch s; u = arm_run ret arm_coro_routine_entry t in
    apc t = entry \<and> apc u = routine \<and> ar u 0 = args \<and> asp u = st_ptr stack \<and> ar u 30 = ret \<and>
    arm_saved (am u) (am u (ar s 0)) = arm_view s"
proof -
  let ?tp = "st_ptr stack" and ?t = "arm_switch s"
  have "ctx \<notin> {?tp - 8, ?tp - 16, ?tp - 24}" using fresh(1) by (simp add: frame_cells_def upt_conv_Cons)
  note init = coro_stack_init_cells [OF refl this, of 11 entry routine args M]
  have ne: "?tp - 24 \<noteq> ctx" "?tp - 16 \<noteq> ctx" "?tp - 8 \<noteq> ctx" using fresh(1) by (auto simp: frame_cells_def upt_conv_Cons)
  have M: "am s ctx = ?tp - 112" "am s (?tp - 24) = entry" "am s (?tp - 16) = args" "am s (?tp - 8) = routine"
    using fresh(2) ne unfolding init fresh_cells_11 by simp_all
  have frame: "frame_cells 12 (?tp - 112) \<subseteq> fresh_cells 11 ctx ?tp" by (simp add: frame_cells_12 fresh_cells_11)
  have "arm_here ?t = arm_saved (am s) (?tp - 112)"
    using arm.restores [of s] s(1,2) frame unfolding s(1) M(1) by (auto simp: fresh_cells_def)
  then have t: "apc ?t = entry" "asp ?t = ?tp - 16" using M(2) by (simp_all add: arm_here_def arm_saved_def)
  have w: "am ?t a = am s a" if "a \<in> fresh_cells 11 ctx ?tp" for a using arm.writes [of a s] s(2) that by auto
  have u: "am ?t (?tp - 16) = args" "am ?t (?tp - 8) = routine" using w M(3,4) by (simp_all add: fresh_cells_11)
  have cell: "am ?t (ar s 0) = asp s - 96" using arm_switch_facts(1) [of s "asp s - 96"] by simp
  have saved: "arm_saved (am ?t) (asp s - 96) = arm_view s" using arm.saves [of s] s(3) unfolding cell by auto
  with t u cell show ?thesis by (simp add: arm_entry [OF t(2)] Let_def)
qed

subsection \<open>Memory of a stack\<close>

text \<open>What \<open>coro_stack_free\<close> unmaps is what \<open>coro_stack_alloc\<close> has mapped; the protected page lies at its low end and the cells of a new coroutine
  above it.\<close>

lemma coro_stack_alloc_free:
  assumes "coro_stack_alloc page_size mmap stack0 size_bytes = (0, stack, guard)"
  shows "snd (coro_stack_free page_size stack) = (mmap (size_bytes + page_size), size_bytes + page_size)"
    and "guard = Some (mmap (size_bytes + page_size))" and "st_ptr stack = mmap (size_bytes + page_size) + page_size + size_bytes"
  using assms by (auto simp: coro_stack_alloc_def coro_stack_free_def Let_def split: if_splits)

lemma unat_frame_cell:
  assumes "a \<in> frame_cells n f" and "unat f + 8 * n < 2 ^ 64"
  shows "unat f \<le> unat a \<and> unat a + 8 \<le> unat f + 8 * n"
proof -
  from assms(1) obtain k where k: "k < n" "a = f + 8 * word_of_nat k" by (auto simp: frame_cells_def)
  have "unat (8 * word_of_nat k :: u64) = 8 * k"
    using k(1) assms(2) by (simp add: unat_word_ariths(2) unat_of_nat take_bit_eq_mod)
  moreover from this k assms(2) have "unat a = unat f + 8 * k" unfolding k(2) by (subst unat_add_64) auto
  ultimately show ?thesis using k(1) by simp
qed

lemma fresh_frame_in_stack:
  assumes "coro_stack_alloc page_size mmap stack0 size_bytes = (0, stack, guard)"
    and "unat (mmap (size_bytes + page_size)) + unat page_size + unat size_bytes < 2 ^ 64" and "24 + 8 * n \<le> unat size_bytes"
    and "a \<in> frame_cells (n + 3) (st_ptr stack - (24 + 8 * word_of_nat n))"
  shows "unat (mmap (size_bytes + page_size)) + unat page_size \<le> unat a \<and> unat a + 8 \<le> unat (st_ptr stack)"
proof -
  let ?base = "mmap (size_bytes + page_size)"
  have tp: "unat (st_ptr stack) = unat ?base + unat page_size + unat size_bytes"
    using coro_stack_alloc_free(3) [OF assms(1)] assms(2) by (simp add: unat_add_64)
  have n: "unat (24 + 8 * word_of_nat n :: u64) = 24 + 8 * n"
  proof -
    have "unat (8 * word_of_nat n :: u64) = 8 * n" using assms(2,3) by (simp add: unat_word_ariths(2) unat_of_nat take_bit_eq_mod)
    with assms(2,3) show ?thesis by (subst unat_add_64) auto
  qed
  have f: "unat (st_ptr stack - (24 + 8 * word_of_nat n)) = unat (st_ptr stack) - (24 + 8 * n)"
  proof -
    have "24 + 8 * word_of_nat n \<le> st_ptr stack" unfolding word_le_nat_alt n tp using assms(3) by simp
    from unat_sub [OF this] show ?thesis by (simp only: n)
  qed
  from unat_frame_cell [OF assms(4)] f tp assms(2,3) show ?thesis by auto
qed

text \<open>No instruction touches the floating-point state.\<close>

lemma x86_exec_ctl: "xctl (x86_exec ret i s) = xctl s"
  by (cases i) (simp_all add: Let_def)

lemma x86_switch_ctl: "xctl (x86_switch s) = xctl s"
proof -
  have "xctl (fold (x86_exec ret) is s) = xctl s" for ret "is" s by (induction "is" arbitrary: s) (simp_all add: x86_exec_ctl)
  then show ?thesis by (simp add: x86_switch_def x86_run_def)
qed

lemma arm_exec_fp: "ad (arm_exec ret i s) = ad s"
  by (cases i) (simp_all add: Let_def)

lemma arm_switch_fp: "ad (arm_switch s) = ad s"
proof -
  have "ad (fold (arm_exec ret) is s) = ad s" for ret "is" s by (induction "is" arbitrary: s) (simp_all add: arm_exec_fp)
  then show ?thesis by (simp add: arm_switch_def arm_run_def)
qed

subsection \<open>Properties\<close>

text \<open>C18. A switch parks its caller and a switch back resumes it, on both architectures: let \<open>s\<close> be a call of \<open>context_switch\<close> whose context cell
  is apart from the frame it writes, and \<open>d\<close> any later call with this context as the one to switch to, when in between
  nobody has written to the cell and the frame and the frame of \<open>d\<close> is apart from them. Then the machine
  is behind the call \<open>s\<close>: the callee-saved integer registers (\<open>rbp\<close>, \<open>rbx\<close>, \<open>r12\<close> to \<open>r15\<close>; \<open>x19\<close> to \<open>x29\<close>), the stack pointer and the address are the ones
  the caller expects. The rest of the callee-saved state is not saved: \<open>d8\<close> to \<open>d15\<close> on AArch64 and the floating-point control state on x86-64 are
  those of the coroutine that switched. A switch writes nothing but the caller's frame and its context.\<close>

theorem context_switch_resumes:
  "(\<forall>s d. xr s RDI \<notin> frame_cells 7 (xr s RSP - 48) \<and> xr d RSI = xr s RDI \<and>
      (\<forall>a \<in> insert (xr s RDI) (frame_cells 7 (xr s RSP - 48)). xm d a = xm (x86_switch s) a) \<and>
      insert (xr s RDI) (frame_cells 7 (xr s RSP - 48)) \<inter> insert (xr d RDI) (frame_cells 6 (xr d RSP - 48)) = {} \<longrightarrow>
      map (xr (x86_switch d)) [RBP, RBX, R12, R13, R14, R15] = map (xr s) [RBP, RBX, R12, R13, R14, R15] \<and>
      xr (x86_switch d) RSP = xr s RSP + 8 \<and> rip (x86_switch d) = xm s (xr s RSP) \<and> xctl (x86_switch d) = xctl d) \<and>
   (\<forall>s a. a \<notin> insert (xr s RDI) (frame_cells 6 (xr s RSP - 48)) \<longrightarrow> xm (x86_switch s) a = xm s a) \<and>
   (\<forall>s d. ar s 0 \<notin> frame_cells 12 (asp s - 96) \<and> ar d 1 = ar s 0 \<and>
      (\<forall>a \<in> insert (ar s 0) (frame_cells 12 (asp s - 96)). am d a = am (arm_switch s) a) \<and>
      insert (ar s 0) (frame_cells 12 (asp s - 96)) \<inter> insert (ar d 0) (frame_cells 12 (asp d - 96)) = {} \<longrightarrow>
      map (ar (arm_switch d)) [19, 20, 21, 22, 23, 24, 25, 26, 27, 28, 29] = map (ar s) [19, 20, 21, 22, 23, 24, 25, 26, 27, 28, 29] \<and>
      asp (arm_switch d) = asp s \<and> apc (arm_switch d) = ar s 30 \<and> ad (arm_switch d) = ad d) \<and>
   (\<forall>s a. a \<notin> insert (ar s 0) (frame_cells 12 (asp s - 96)) \<longrightarrow> am (arm_switch s) a = am s a)"
proof (intro conjI allI impI)
  fix s d :: x86
  assume a: "xr s RDI \<notin> frame_cells 7 (xr s RSP - 48) \<and> xr d RSI = xr s RDI \<and>
    (\<forall>a \<in> insert (xr s RDI) (frame_cells 7 (xr s RSP - 48)). xm d a = xm (x86_switch s) a) \<and>
    insert (xr s RDI) (frame_cells 7 (xr s RSP - 48)) \<inter> insert (xr d RDI) (frame_cells 6 (xr d RSP - 48)) = {}"
  have cell: "xm (x86_switch s) (xr s RDI) = xr s RSP - 48" using x86_switch_facts(1) [of s "xr s RSP - 48"] by simp
  have "x86_here (x86_switch d) = x86_view s"
    by (rule x86.switch_back) (use a in \<open>auto simp: cell x86.parked_def frame_cells_6 frame_cells_7\<close>)
  then show "map (xr (x86_switch d)) [RBP, RBX, R12, R13, R14, R15] = map (xr s) [RBP, RBX, R12, R13, R14, R15]"
    "xr (x86_switch d) RSP = xr s RSP + 8" "rip (x86_switch d) = xm s (xr s RSP)" by (simp_all add: x86_here_def x86_view_def)
  show "xctl (x86_switch d) = xctl d" by (rule x86_switch_ctl)
next
  fix s d :: arm
  assume a: "ar s 0 \<notin> frame_cells 12 (asp s - 96) \<and> ar d 1 = ar s 0 \<and>
    (\<forall>a \<in> insert (ar s 0) (frame_cells 12 (asp s - 96)). am d a = am (arm_switch s) a) \<and>
    insert (ar s 0) (frame_cells 12 (asp s - 96)) \<inter> insert (ar d 0) (frame_cells 12 (asp d - 96)) = {}"
  have cell: "am (arm_switch s) (ar s 0) = asp s - 96" using arm_switch_facts(1) [of s "asp s - 96"] by simp
  have "arm_here (arm_switch d) = arm_view s" by (rule arm.switch_back) (use a in \<open>auto simp: cell arm.parked_def\<close>)
  then show "map (ar (arm_switch d)) [19, 20, 21, 22, 23, 24, 25, 26, 27, 28, 29] = map (ar s) [19, 20, 21, 22, 23, 24, 25, 26, 27, 28, 29]"
    "asp (arm_switch d) = asp s" "apc (arm_switch d) = ar s 30" by (simp_all add: arm_here_def arm_view_def)
  show "ad (arm_switch d) = ad d" by (rule arm_switch_fp)
qed (use x86.writes arm.writes in auto)

definition x86_s0 :: x86 where
  "x86_s0 = \<lparr>xr = (\<lambda>_. 1)(RSP := 2048, RDI := 64, RSI := 72, RBP := 11, R15 := 22), xm = (\<lambda>_. 0)(2048 := 4711, 72 := 4096), rip = 0, xctl = 0\<rparr>"

text \<open>The other side calls the switch with the contexts exchanged and a stack of its own.\<close>

definition x86_d0 :: x86 where
  "x86_d0 = (x86_switch x86_s0)\<lparr>xr := (\<lambda>_. 5)(RSP := 8192, RDI := 72, RSI := 64)\<rparr>"

theorem context_switch_resumes_witness:
  "xr (x86_switch x86_d0) RBP = 11 \<and> xr (x86_switch x86_d0) R15 = 22 \<and> xr (x86_switch x86_d0) RSP = 2056 \<and> rip (x86_switch x86_d0) = 4711"
proof -
  have "xr x86_s0 RDI \<notin> frame_cells 7 (xr x86_s0 RSP - 48) \<and> xr x86_d0 RSI = xr x86_s0 RDI \<and>
      (\<forall>a \<in> insert (xr x86_s0 RDI) (frame_cells 7 (xr x86_s0 RSP - 48)). xm x86_d0 a = xm (x86_switch x86_s0) a) \<and>
      insert (xr x86_s0 RDI) (frame_cells 7 (xr x86_s0 RSP - 48)) \<inter> insert (xr x86_d0 RDI) (frame_cells 6 (xr x86_d0 RSP - 48)) = {}"
    by (simp add: x86_s0_def x86_d0_def frame_cells_6 frame_cells_7)
  from mp [OF spec [OF spec [OF conjunct1 [OF context_switch_resumes], of x86_s0], of x86_d0] this] show ?thesis by (simp add: x86_s0_def)
qed

text \<open>C19. A new coroutine starts right, on both architectures: when the cells that \<open>coro_stack_init\<close> has written are still as they were and apart from the
  caller's frame and context, the first switch to its context goes to \<open>coro_routine_entry\<close>, whose code calls the routine with its
  argument in the first argument register, the stack pointer is where the calling convention wants it (on x86-64 8 below the
  top of the stack, on the return address; on AArch64 at the top), and the caller is parked so that it can be resumed.\<close>

theorem new_coroutine_enters:
  "(\<forall>s ctx stack entry routine args M ret. ctx \<notin> frame_cells 9 (st_ptr stack - 72) \<and>
      (\<forall>a \<in> fresh_cells x86_NUM_SAVED ctx (st_ptr stack). xm s a = coro_stack_init x86_NUM_SAVED entry ctx stack routine args M a) \<and> xr s RSI = ctx \<and>
      fresh_cells x86_NUM_SAVED ctx (st_ptr stack) \<inter> insert (xr s RDI) (frame_cells 7 (xr s RSP - 48)) = {} \<and> xr s RDI \<notin> frame_cells 7 (xr s RSP - 48) \<longrightarrow>
      (let t = x86_switch s; u = x86_run ret x86_coro_routine_entry t in
        rip t = entry \<and> rip u = routine \<and> xr u RDI = args \<and> xr u RSP = st_ptr stack - 8 \<and> xm u (xr u RSP) = ret \<and>
        x86_saved (xm u) (xm u (xr s RDI)) = x86_view s)) \<and>
   (\<forall>s ctx stack entry routine args M ret. ctx \<notin> frame_cells 14 (st_ptr stack - 112) \<and>
      (\<forall>a \<in> fresh_cells arm_NUM_SAVED ctx (st_ptr stack). am s a = coro_stack_init arm_NUM_SAVED entry ctx stack routine args M a) \<and> ar s 1 = ctx \<and>
      fresh_cells arm_NUM_SAVED ctx (st_ptr stack) \<inter> insert (ar s 0) (frame_cells 12 (asp s - 96)) = {} \<and> ar s 0 \<notin> frame_cells 12 (asp s - 96) \<longrightarrow>
      (let t = arm_switch s; u = arm_run ret arm_coro_routine_entry t in
        apc t = entry \<and> apc u = routine \<and> ar u 0 = args \<and> asp u = st_ptr stack \<and> ar u 30 = ret \<and>
        arm_saved (am u) (am u (ar s 0)) = arm_view s))"
  unfolding x86_NUM_SAVED_def arm_NUM_SAVED_def
  by (intro conjI allI impI; (elim conjE)?) (rule x86_enter arm_enter; assumption)+

definition fresh_s0 :: x86 where
  "fresh_s0 = \<lparr>xr = (\<lambda>_. 1)(RSP := 2048, RDI := 64, RSI := 72), xm = coro_stack_init 6 500 72 \<lparr>st_ptr = 8192, st_size_bytes = 4096\<rparr> 600 700 (\<lambda>_. 0), rip = 0, xctl = 0\<rparr>"

theorem new_coroutine_enters_witness:
  "let u = x86_run 510 x86_coro_routine_entry (x86_switch fresh_s0) in rip u = 600 \<and> xr u RDI = 700 \<and> xr u RSP = 8184"
proof -
  let ?stack = "\<lparr>st_ptr = 8192, st_size_bytes = 4096\<rparr> :: coro_stack"
  have "72 \<notin> frame_cells 9 (st_ptr ?stack - 72) \<and>
      (\<forall>a \<in> fresh_cells x86_NUM_SAVED 72 (st_ptr ?stack). xm fresh_s0 a = coro_stack_init x86_NUM_SAVED 500 72 ?stack 600 700 (\<lambda>_. 0) a) \<and> xr fresh_s0 RSI = 72 \<and>
      fresh_cells x86_NUM_SAVED 72 (st_ptr ?stack) \<inter> insert (xr fresh_s0 RDI) (frame_cells 7 (xr fresh_s0 RSP - 48)) = {} \<and>
      xr fresh_s0 RDI \<notin> frame_cells 7 (xr fresh_s0 RSP - 48)"
    by (simp add: x86_NUM_SAVED_def fresh_s0_def fresh_cells_6 frame_cells_7 frame_cells_def [of 9] upt_conv_Cons)
  with new_coroutine_enters have "let t = x86_switch fresh_s0; u = x86_run 510 x86_coro_routine_entry t in
        rip t = 500 \<and> rip u = 600 \<and> xr u RDI = 700 \<and> xr u RSP = st_ptr ?stack - 8 \<and> xm u (xr u RSP) = 510 \<and>
        x86_saved (xm u) (xm u (xr fresh_s0 RDI)) = x86_view fresh_s0" by blast
  then show ?thesis by (simp add: Let_def)
qed

end
