(* ===== verification/Spec2Isabelle.thy ===== *)
theory Spec2Isabelle
  imports Server Switch
begin

text \<open>
  \<^bold>\<open>A verification of cserv.\<close> cserv is an event-driven web server in C: a master process and a set of
  worker processes that share a listening socket; in each worker, every connection is served by a
  coroutine that reads the request into a fixed buffer, parses it in place and answers with a canned
  response. This development models the program's data structures and its request path as
  executable functions and proves what makes them correct. All paths below are under \<open>src/\<close> of the
  repository.

  \<^bold>\<open>Conventions.\<close> Pointers are natural numbers, 0 is \<open>NULL\<close>, a memory maps addresses to bytes
  (\<open>Prelude\<close>); structures that are linked by pointers live in explicit heaps, one map per field.
  \<open>int\<close> is \<open>int\<close> with overflow written out as the result \<open>UB\<close>; counters whose wrap-around matters are
  machine words. A call returns \<open>Ret\<close>, or \<open>UB\<close> (undefined behaviour: an out-of-bounds store, a signed
  overflow, a double free), \<open>Abort\<close> (a failed \<open>assert\<close>) or \<open>Exit\<close> (the process ends). A loop
  whose end depends on the outside world or on a linked structure is a partial function, whose value
  \<open>None\<close> is divergence; there is no fuel, and every theorem about such a loop shows that it returns. Code
  that is not part of the repository (system calls, the C library's allocator) is a parameter, with
  what is relied on as hypotheses: \<open>recv_ok\<close> (\<open>recv\<close> returns no more bytes than asked for),
  \<open>alloc_ok\<close> (the blocks in use are different and not \<open>NULL\<close>; \<open>malloc\<close> fails or returns a block that is not in use, which may have been used before).
  Nothing is assumed of the contents of a block from \<open>malloc\<close>. Calls of the logging macros and what is printed are left
  out. Interleavings are over a sequentially consistent memory.

  \<^bold>\<open>The parts and the theories.\<close>

  \<^item> \<open>Prelude\<close>: machine types, memory, results, the byte scanner that both parsers are instances of.
  \<^item> \<open>Str\<close> (\<open>util/str.h\<close>, \<open>util/buffer.h\<close>): counted strings, \<open>str_atoi\<close>, the receive buffer.
  \<^item> \<open>Http_Request\<close> (\<open>http/request.h\<close>): methods and \<open>struct http_request\<close>.
  \<^item> \<open>Parse_Line\<close>, \<open>Parse_Line_Correct\<close>, \<open>Parse_Line_Behaviour\<close> (\<open>http/parse.c\<close>): the state machine of the
    request line, one definition per \<open>case\<close> label; every slice it stores lies in the line, a well-formed line
    is parsed to its parts, resuming after an incomplete line equals parsing at once.
  \<^item> \<open>Parse_Header\<close>, \<open>Parse_Header_Correct\<close>, \<open>Parse_Header_Behaviour\<close> (\<open>http/parse.c\<close>): the same for header
    lines, with the bounds of the array of lower-cased names.
  \<^item> \<open>Linked_List\<close> (\<open>util/list.h\<close>), \<open>Hashtable\<close> (\<open>util/hashtable.c\<close>): intrusive lists and the ordered
    hash table on them, as assignments to a heap; the table refines a finite map (locales \<open>list_ops\<close> and
    the table's contract).
  \<^item> \<open>Memcache\<close> (\<open>util/memcache.c\<close>): the pool of blocks with an explicit allocator; no block is handed out
    twice (locale \<open>object_pool\<close>).
  \<^item> \<open>Cirbuf\<close> (\<open>util/cirbuf.h\<close>): the ring of the logger is a bounded queue, also with the accesses of one
    writer and one reader interleaved.
  \<^item> \<open>Spinlock\<close>, \<open>Shm\<close> (\<open>util/spinlock.h\<close>, \<open>util/shm.c\<close>): the ticket lock as interleaved single accesses on
    32-bit counters (mutual exclusion, no deadlock, order), the shared bump allocator.
  \<^item> \<open>Response\<close> (\<open>http/response.c\<close>): tables of status lines and pages, building a response.
  \<^item> \<open>Header_Handlers\<close> (\<open>http/request.c\<close>): \<open>Host\<close> and \<open>Content-Length\<close>, the table of handlers and the
    dispatch.
  \<^item> \<open>Request\<close>, \<open>Request_Correct\<close>, \<open>Request_Safety\<close>, \<open>Request_Delivery\<close> (\<open>http/request.c\<close>): receiving and the
    three phases of a request. \<open>Request_Correct\<close> and \<open>Request_Safety\<close> show that each phase returns and stays
    inside its buffer for every peer; \<open>Request_Delivery\<close> that a well-formed request is understood however it is
    cut into pieces.
  \<^item> \<open>Worker\<close>: \<open>http_request_handler\<close> and \<open>http_request_init\<close>, which put all of the above together: a
    worker answers every client with exactly one response and keeps its invariant. The two ways into undefined behaviour that the code leaves open - a
    \<open>Content-Length\<close> whose number overflows, and an uninitialised \<open>lowcase_index\<close> out of range - are a predicate on the bytes received (\<open>request_ub\<close>).
    A handler is one call here: other handlers may hold blocks of the pool (\<open>held\<close>), but what they do while this one waits for bytes is not interleaved with it.
  \<^item> \<open>Conf\<close>, \<open>Env\<close>, \<open>Startup\<close> (\<open>util/conf.c\<close>, \<open>env.c\<close>, \<open>http/http.c\<close>): from the configuration file to the
    settings and to an initialised worker.
  \<^item> \<open>Rbtree\<close>, \<open>Rbtree_Correct\<close>, \<open>Rbtree_Insert\<close>, \<open>Rbtree_Erase\<close>, \<open>Rbtree_Tree\<close> (\<open>util/rbtree.c\<close>): the
    intrusive red-black tree of the timers with its packed parent word; insertion and removal end and
    keep order, invariant and balance (locale \<open>node_sequence\<close>).
  \<^item> \<open>Sched\<close>, \<open>Sched_Timers\<close>, \<open>Sched_Expiry\<close>, \<open>Sched_Correct\<close>, \<open>Sched_Run\<close> (\<open>coro/sched.c\<close>): the coroutine scheduler
    on the heaps of its lists, its trees of timers and its pool of timer nodes. The walks through the trees
    are one locale (\<open>key_walk\<close>); \<open>sched_rep\<close> relates the state to a view of idle, ready, waiting and
    running coroutines, which the state determines, and the operations refine a specification on views. Properties of runs are over \<open>sched_run\<close> and
    \<open>sched_reach\<close>, sequences of the operations themselves; \<open>sched_reach\<close> also keeps account of the sleepers for which there was no timer.
  \<^item> \<open>Switch\<close> (\<open>coro/switch.c\<close>): the assembly of the context switch for x86-64 and AArch64 on a small machine each, and the stacks of
    coroutines; both machines interpret the locale \<open>context_switching\<close>: a switch back resumes what a switch has parked. The floating-point state is part of the
    machines, and not of what is parked: the code does not save it.
  \<^item> \<open>Event\<close> (\<open>event.c\<close>), \<open>Syscall_Hook\<close> (\<open>syscall_hook.c\<close>), \<open>Runtime\<close>: the table of descriptors with the kernel's
    interest list, the hooks cut at the switch of the coroutine, and the main loop \<open>schedule_cycle\<close> that runs
    timers, coroutines and events together. Registrations and sleeping coroutines correspond to each other;
    events wake exactly the coroutines that wait for them. \<open>epoll_ctl\<close> is the kernel's, as documented; a hook's deregistration is taken to succeed.
  \<^item> \<open>Worker_Process\<close>, \<open>Worker_Life\<close> (\<open>process.c\<close>, \<open>signal.c\<close>): a worker process, its accept loop and the handlers of its
    connections as coroutines on all of the above; \<open>worker_inv\<close> ties the connection count, the accept lock and the open
    descriptors to what the coroutines do. A worker counts right, serves what it accepts and stops gracefully.
  \<^item> \<open>Master\<close> (\<open>process.c\<close>, \<open>signal.c\<close>): the master process with signal handlers between any two steps of its loop; it
    knows its workers, passes requests on and ends after them.
  \<^item> \<open>Logger\<close> (\<open>logger.c\<close>): the slots of the processes, their rings of log lines (the queues of \<open>Cirbuf\<close>) and the master's scan that
    writes them to the file: what is logged arrives, a slot is reused only after its lines are written.

  \<^item> \<open>System\<close> (\<open>util/system.c\<close>), \<open>Net\<close> (\<open>util/net.h\<close>, \<open>create_tcp_server\<close>), \<open>Server\<close> (\<open>main.c\<close>, \<open>signal.c\<close>, the rest of
    \<open>process.c\<close>): the file with the pid, the title of a process, the listening socket, and the commands of the program. \<open>server_starts\<close> puts the start
    together: from a configuration file to a master whose invariant holds, with a logger and a lock for its workers.

  \<^bold>\<open>Bounds.\<close> A receive buffer has 1 to 4 KiB, as \<open>http/http.c\<close> accepts; addresses of blocks stay 4096 bytes
  below the end of the address space; tree nodes are aligned to 4 bytes. \<open>fgets\<close> reads lines of at most 511
  bytes. The instants of the scheduler's timers lie within \<open>2 ^ 31\<close> milliseconds of each other, and \<open>malloc\<close>
  returns aligned blocks that do not overlap (\<open>blocks_apart\<close>). Where a property needs more - no child reaped between \<open>fork\<close> and the note of its pid, log lines
  shorter than 1016 bytes, no process asleep in \<open>spin_trylock\<close> over \<open>2 ^ 32\<close> tickets, a title that fits -, its text says so, and for the first three
  the development shows what happens otherwise.

  \<^bold>\<open>Not modelled.\<close> System calls and the C library, which are parameters. The texts of usage and error messages, and the calls of the logging macros in the
  other parts. \<open>syscall_hook_init\<close>, which looks up symbols with \<open>dlsym\<close>, and the wrappers \<open>get_tm\<close>, \<open>get_peer_ip\<close>, \<open>get_page_size\<close> and
  \<open>get_ncpu\<close>, whose values are arguments. The processes run on one sequentially consistent memory; what compilers and processors may
  reorder around the lock-free ring and the spin lock is not part of the model.
\<close>

end
